(* ===== verification/Go_Prelude.thy ===== *)
theory Go_Prelude
  imports Main "HOL-Library.Word" "HOL-Library.Sublist"
begin

unbundle bit_operations_syntax

text \<open>
  Shared vocabulary of the development.

  \<^item> Go's machine integers and byte slices as type synonyms. A \<open>[]byte\<close> or a \<open>string\<close>
    that holds raw data is a list of 8-bit words; \<open>uint\<close> and \<open>uint64\<close> are 64-bit words
    (the 64-bit targets of Go; \<open>uintBits\<close> is 64 there).
  \<^item> Results of fallible functions as sums, the error on the left, and their sequencing
    \<open>rbind\<close>, which is Go's \<open>if err != nil { return ..., err }\<close>.
  \<^item> Go's slice expression and index expression as functions into \<open>option\<close>: \<open>None\<close> is the
    run-time panic.
  \<^item> Facts on lists, sums and words used by several components.
\<close>

type_synonym byte = "8 word"
type_synonym bytes = "8 word list"
type_synonym u32 = "32 word"
type_synonym u64 = "64 word"

named_theorems result_simps \<open>rewrite rules for fallible results\<close>
named_theorems word_nat_simps \<open>rewrite rules that carry words to natural numbers\<close>

subsection \<open>Results\<close>

fun rbind :: "'e + 'a \<Rightarrow> ('a \<Rightarrow> 'e + 'b) \<Rightarrow> 'e + 'b" where
  "rbind (Inl e) f = Inl e"
| "rbind (Inr x) f = f x"

lemma rbind_eq_Inr [result_simps]:
  "rbind m f = Inr y \<longleftrightarrow> (\<exists>x. m = Inr x \<and> f x = Inr y)"
  by (cases m) auto

lemma rbind_eq_Inl [result_simps]:
  "rbind m f = Inl e \<longleftrightarrow> m = Inl e \<or> (\<exists>x. m = Inr x \<and> f x = Inl e)"
  by (cases m) auto

lemma rbind_assoc: "rbind (rbind m f) g = rbind m (\<lambda>x. rbind (f x) g)"
  by (cases m) auto

lemma rbind_cong [fundef_cong]:
  assumes "m = m'" and "\<And>x. m' = Inr x \<Longrightarrow> f x = f' x"
  shows "rbind m f = rbind m' f'"
  using assms by (cases m') auto

text \<open>An optional value as a result: \<open>None\<close> becomes the given error.\<close>

definition note_err :: "'e \<Rightarrow> 'a option \<Rightarrow> 'e + 'a" where
  "note_err e x = (case x of None \<Rightarrow> Inl e | Some y \<Rightarrow> Inr y)"

lemma note_err_simps [simp]:
  "note_err e None = Inl e" "note_err e (Some y) = Inr y"
  by (simp_all add: note_err_def)

lemma note_err_eq_Inr [result_simps]: "note_err e x = Inr y \<longleftrightarrow> x = Some y"
  by (cases x) auto

lemma note_err_eq_Inl [result_simps]: "note_err e x = Inl e' \<longleftrightarrow> x = None \<and> e' = e"
  by (cases x) auto

subsection \<open>Slices and indexing\<close>

text \<open>\<open>xs[lo:hi]\<close>, with \<open>None\<close> for the bounds panic.\<close>

definition slice :: "'a list \<Rightarrow> nat \<Rightarrow> nat \<Rightarrow> 'a list option" where
  "slice xs lo hi =
     (if lo \<le> hi \<and> hi \<le> length xs then Some (take (hi - lo) (drop lo xs)) else None)"

text \<open>\<open>xs[i]\<close>, with \<open>None\<close> for the bounds panic.\<close>

definition index :: "'a list \<Rightarrow> nat \<Rightarrow> 'a option" where
  "index xs i = (if i < length xs then Some (xs ! i) else None)"

text \<open>\<open>xs[i] = v\<close>, with \<open>None\<close> for the bounds panic.\<close>

definition store :: "'a list \<Rightarrow> nat \<Rightarrow> 'a \<Rightarrow> 'a list option" where
  "store xs i v = (if i < length xs then Some (xs[i := v]) else None)"

lemma slice_Some_iff [result_simps]:
  "slice xs lo hi = Some ys \<longleftrightarrow>
     lo \<le> hi \<and> hi \<le> length xs \<and> ys = take (hi - lo) (drop lo xs)"
  by (auto simp: slice_def)

lemma slice_length: "slice xs lo hi = Some ys \<Longrightarrow> length ys = hi - lo"
  by (auto simp: result_simps)

lemma index_Some_iff [result_simps]: "index xs i = Some x \<longleftrightarrow> i < length xs \<and> x = xs ! i"
  by (auto simp: index_def)

lemma store_Some_iff [result_simps]:
  "store xs i v = Some ys \<longleftrightarrow> i < length xs \<and> ys = xs[i := v]"
  by (auto simp: store_def)

lemma take_drop_glue:
  assumes "i \<le> j" and "j \<le> length xs"
  shows "take i xs @ take (j - i) (drop i xs) = take j xs"
  using assms by (metis le_add_diff_inverse take_add)

lemma take_Suc_snoc: "i < length xs \<Longrightarrow> take i xs @ [xs ! i] = take (Suc i) xs"
  by (simp add: take_Suc_conv_app_nth)

lemma take_eq_by_nth:
  assumes "a + n \<le> length xs" and "b + n \<le> length ys"
    and "\<And>k. k < n \<Longrightarrow> xs ! (a + k) = ys ! (b + k)"
  shows "take n (drop a xs) = take n (drop b ys)"
  using assms by (intro nth_equalityI) auto

subsection \<open>Words and bytes\<close>

lemma unat_of_nat64 [word_nat_simps]: "n < 2 ^ 64 \<Longrightarrow> unat (word_of_nat n :: u64) = n"
  by (simp add: unat_of_nat take_bit_nat_eq_self)

lemma unat_u64_less: "unat (w :: u64) < 2 ^ 64"
  using unsigned_less [of w, where 'a = nat] by simp

lemma unat_byte_less: "unat (b :: byte) < 256"
  using unsigned_less [of b, where 'a = nat] by simp

lemma unat_ucast_byte: "unat (ucast (b :: byte) :: u64) = unat b"
  using unat_byte_less [of b] by (simp add: unsigned_ucast_eq take_bit_nat_eq_self)

lemma unat_drop_bit_div [word_nat_simps]: "unat (drop_bit n w) = unat w div 2 ^ n"
  for w :: "'a::len word"
  by (rule trans [OF unat_drop_bit_eq drop_bit_eq_div])

lemma unat_drop_bit_less:
  fixes w :: "'a::len word"
  assumes "drop_bit n w \<noteq> 0" and "0 < n"
  shows "unat (drop_bit n w) < unat w"
proof -
  have "w \<noteq> 0" using assms(1) by auto
  then have "0 < unat w" by (simp add: unat_gt_0)
  with assms(2) show ?thesis unfolding unat_drop_bit_div
    by (intro div_less_dividend one_less_power) simp_all
qed

lemma and_127_eq: "w AND 127 = take_bit 7 w" for w :: "'a::len word"
  by (simp add: take_bit_eq_mask mask_eq_exp_minus_1)

lemma and_15_eq: "w AND 15 = take_bit 4 w" for w :: "'a::len word"
  by (simp add: take_bit_eq_mask mask_eq_exp_minus_1)

lemma and_255_eq: "w AND 255 = take_bit 8 w" for w :: "'a::len word"
  by (simp add: take_bit_eq_mask mask_eq_exp_minus_1)

lemma word_128_eq: "(128 :: 'a::len word) = push_bit 7 1"
  by (simp add: push_bit_eq_mult)

lemma bit_word_128: "bit (128 :: 'a::len word) n \<longleftrightarrow> n = 7 \<and> 7 < LENGTH('a)"
  by (simp only: word_128_eq bit_push_bit_iff bit_1_iff) auto

lemma bit_int_128: "bit (128 :: int) n \<longleftrightarrow> n = 7"
proof -
  have "(128 :: int) = push_bit 7 1" by (simp add: push_bit_eq_mult)
  then show ?thesis by (simp only: bit_push_bit_iff bit_1_iff) auto
qed

lemma and_128_eq_0_iff: "w AND 128 = 0 \<longleftrightarrow> \<not> bit w 7" for w :: "'a::len word"
proof -
  have *: "bit (w AND 128) n \<longleftrightarrow> n = 7 \<and> bit w 7" for n
    by (simp only: bit_and_iff bit_word_128) (auto dest: bit_imp_le_length)
  have "w AND 128 = 0 \<longleftrightarrow> (\<forall>n. \<not> bit (w AND 128) n)"
    by (metis bit_0_eq bit_word_eqI bot_apply bot_bool_def)
  then show ?thesis by (simp only: *) blast
qed

lemma word_or_split: "push_bit k (take_bit n w) OR push_bit (k + n) (drop_bit n w) = push_bit k w"
  for w :: "'a::len word"
proof (rule bit_word_eqI)
  fix m
  have "k \<le> m \<Longrightarrow> \<not> m - k < n \<Longrightarrow> n + (m - (k + n)) = m - k" by simp
  then show "bit (push_bit k (take_bit n w) OR push_bit (k + n) (drop_bit n w)) m \<longleftrightarrow>
      bit (push_bit k w) m"
    by (cases "m - k < n") (auto simp: bit_simps)
qed

lemma find_append: "find P (xs @ ys) = (case find P xs of None \<Rightarrow> find P ys | Some x \<Rightarrow> Some x)"
  by (induction xs) auto

subsection \<open>Signed integers\<close>

text \<open>\<open>int64\<close>: an integer in its range; the result of an operation wraps into it.\<close>

definition wrap64 :: "int \<Rightarrow> int" where "wrap64 n = (n + 2 ^ 63) mod 2 ^ 64 - 2 ^ 63"

lemma wrap64_id: "- (2 ^ 63) \<le> n \<Longrightarrow> n < 2 ^ 63 \<Longrightarrow> wrap64 n = n"
  by (simp add: wrap64_def)

lemma wrap64_range: "- (2 ^ 63) \<le> wrap64 n \<and> wrap64 n < 2 ^ 63"
  using pos_mod_bound [of "2 ^ 64 :: int" "n + 2 ^ 63"] pos_mod_sign [of "2 ^ 64 :: int" "n + 2 ^ 63"] by (simp add: wrap64_def)

lemma wrap64_absorb:
  "wrap64 (wrap64 a + b) = wrap64 (a + b)" "wrap64 (a + wrap64 b) = wrap64 (a + b)" "wrap64 (wrap64 a - b) = wrap64 (a - b)"
proof -
  have l: "wrap64 (wrap64 a + b) = wrap64 (a + b)" for a b
  proof -
    have "wrap64 a + b + 2 ^ 63 = (a + 2 ^ 63) mod 2 ^ 64 + b" by (simp add: wrap64_def)
    then have "(wrap64 a + b + 2 ^ 63) mod 2 ^ 64 = (a + 2 ^ 63 + b) mod 2 ^ 64" by (simp only: mod_add_left_eq)
    moreover have "a + 2 ^ 63 + b = a + b + 2 ^ 63" by simp
    ultimately show ?thesis by (simp only: wrap64_def [of "wrap64 a + b"] wrap64_def [of "a + b"])
  qed
  show "wrap64 (wrap64 a + b) = wrap64 (a + b)" by (rule l)
  show "wrap64 (a + wrap64 b) = wrap64 (a + b)" using l [of b a] by (simp only: add.commute)
  show "wrap64 (wrap64 a - b) = wrap64 (a - b)" using l [of a "- b"] by simp
qed

end
