(* ===== verification/Codec.thy ===== *)
theory Codec
  imports Go_Prelude
begin

text \<open>
  The interface of a self-delimiting encoding. Most formats of the repository are sequences of
  values, each written by an encoder and read from the front of a stream by a decoder that
  leaves the rest: the contract of such a pair is that the decoder undoes the encoder whatever
  follows. What clients need (the encodings are injective, none is a proper prefix of another,
  a sequence of them reads back item by item) follows from that law once, here; the encodings
  of the components are interpretations.
\<close>

text \<open>Reading \<open>n\<close> items in a row, as the decoders of counted tables do.\<close>

fun decode_many :: "('s \<Rightarrow> 'e + 'a \<times> 's) \<Rightarrow> nat \<Rightarrow> 's \<Rightarrow> 'e + 'a list \<times> 's" where
  "decode_many dec 0 r = Inr ([], r)"
| "decode_many dec (Suc n) r =
     rbind (dec r) (\<lambda>(x, r'). rbind (decode_many dec n r') (\<lambda>(xs, r''). Inr (x # xs, r'')))"

locale stream_codec =
  fixes enc :: "'a \<Rightarrow> 'b list"
    and dec :: "'b list \<Rightarrow> 'e + 'a \<times> 'b list"
    and valid :: "'a \<Rightarrow> bool"
  assumes dec_enc: "valid x \<Longrightarrow> dec (enc x @ rest) = Inr (x, rest)"
begin

lemma enc_inj:
  assumes "valid x" and "valid y" and "enc x @ r = enc y @ s"
  shows "x = y \<and> r = s"
proof -
  have "Inr (x, r) = dec (enc y @ s)" unfolding assms(3) [symmetric] by (rule dec_enc [OF assms(1), symmetric])
  then show ?thesis unfolding dec_enc [OF assms(2)] by simp
qed

lemma enc_prefix_free:
  assumes "valid x" and "valid y" and "prefix (enc x) (enc y)"
  shows "x = y"
proof -
  from assms(3) obtain s where "enc y = enc x @ s" by (auto elim: prefixE)
  then show ?thesis using enc_inj [OF assms(1,2), of s "[]"] by simp
qed

lemma decode_many_enc:
  "list_all valid xs \<Longrightarrow> decode_many dec (length xs) (concat (map enc xs) @ rest) = Inr (xs, rest)"
  by (induction xs) (simp_all add: dec_enc)

lemma concat_enc_inj:
  assumes "list_all valid xs" and "list_all valid ys" and "length xs = length ys"
    and "concat (map enc xs) @ r = concat (map enc ys) @ s"
  shows "xs = ys \<and> r = s"
proof -
  have "Inr (xs, r) = decode_many dec (length ys) (concat (map enc ys) @ s)"
    unfolding assms(3,4) [symmetric] by (rule decode_many_enc [OF assms(1), symmetric])
  then show ?thesis unfolding decode_many_enc [OF assms(2)] by simp
qed

end

text \<open>
  A codec whose decoder also fails on every proper prefix of an encoding: a truncated stream is
  noticed. Then the decoder consumes at least one byte of what it accepts.
\<close>

locale strict_codec = stream_codec enc dec valid
  for enc :: "'a \<Rightarrow> 'b list" and dec :: "'b list \<Rightarrow> 'e + 'a \<times> 'b list" and valid :: "'a \<Rightarrow> bool" +
  assumes dec_truncated: "valid x \<Longrightarrow> strict_prefix p (enc x) \<Longrightarrow> \<exists>e. dec p = Inl e"
begin

lemma enc_not_Nil:
  assumes "valid x" and "valid y" and "x \<noteq> y"
  shows "enc x \<noteq> []"
proof
  assume nil: "enc x = []"
  with enc_prefix_free [OF assms(1,2)] assms(3) show False by simp
qed

lemma decode_many_truncated:
  assumes "list_all valid xs" and "strict_prefix p (concat (map enc xs))"
  shows "\<exists>e. decode_many dec (length xs) p = Inl e"
  using assms
proof (induction xs arbitrary: p)
  case (Cons x xs)
  show ?case
  proof (cases "strict_prefix p (enc x)")
    case True
    then show ?thesis using dec_truncated [of x p] Cons.prems(1) by auto
  next
    case False
    from Cons.prems(2) have "prefix p (enc x @ concat (map enc xs))" by (simp add: strict_prefix_def)
    with False have "prefix (enc x) p"
      by (metis prefix_append prefix_order.order_refl strict_prefix_def)
    then obtain q where q: "p = enc x @ q" by (auto elim: prefixE)
    then have "strict_prefix q (concat (map enc xs))" using Cons.prems(2) by (auto simp: strict_prefix_def)
    from Cons.IH [OF _ this] Cons.prems(1) q show ?thesis by (auto simp: dec_enc)
  qed
qed simp

end

end
