(* ===== verification/Varint.thy ===== *)
theory Varint
  imports Codec
begin

text \<open>
  The variable-width integers of Git's binary formats: the LEB128 sizes of a delta header
  and the object size of a pack entry header (\<open>plumbing/format/packfile/util/util.go\<close>), the
  offset encoding of an OFS delta (\<open>utils/binary/read.go\<close>, \<open>write.go\<close>) and the fixed-width
  big-endian reads and writes beside it.

  A reader is the list of the bytes it has left; a read returns the value with the rest of
  the list. The group of definitions comes first, the lemmas after it: each encoder is a
  right inverse of its decoder, for exactly the values the decoder's overflow guard admits.
\<close>

datatype varint_error = ErrLengthOverflow | ErrIntegerOverflow | EOF | ErrUnexpectedEOF | NilReader | IndexPanic

subsection \<open>LEB128 (plumbing/format/packfile/util/util.go)\<close>

definition maskPayload :: u64 where "maskPayload = 0x7f"

definition maskContinue :: u64 where "maskContinue = 0x80"

definition uintBits :: nat where "uintBits = 64"

function EncodeLEB128 :: "u64 \<Rightarrow> bytes" where
  "EncodeLEB128 num =
     (let b = ucast (num AND maskPayload) :: byte; num' = drop_bit 7 num
      in if num' = 0 then [b] else (b OR 0x80) # EncodeLEB128 num')"
  by pat_completeness auto
termination
proof (relation "measure unat", simp)
  fix b :: byte and num num' :: u64
  assume "num' = drop_bit 7 num" and "num' \<noteq> 0"
  then show "(num', num) \<in> measure unat" by (simp add: unat_drop_bit_less)
qed

declare EncodeLEB128.simps [simp del]

text \<open>
  The decoding loop, over the bytes \<open>input[sz:]\<close>. The loop leaves before \<open>sz\<close> reaches the
  end of the input, so the first equation, an index out of range, is not reached from
  \<open>DecodeLEB128\<close>.
\<close>

fun DecodeLEB128_loop :: "bytes \<Rightarrow> u64 \<Rightarrow> nat \<Rightarrow> varint_error + u64 \<times> bytes" where
  "DecodeLEB128_loop [] num sz =
     (if sz * 7 > uintBits - 7 then Inl ErrLengthOverflow else Inl IndexPanic)"
| "DecodeLEB128_loop (b # rest) num sz =
     (if sz * 7 > uintBits - 7 then Inl ErrLengthOverflow
      else let num' = num OR push_bit (sz * 7) (ucast b AND maskPayload)
           in if (ucast b :: u64) AND maskContinue = 0 \<or> rest = [] then Inr (num', rest)
              else DecodeLEB128_loop rest num' (Suc sz))"

definition DecodeLEB128 :: "bytes \<Rightarrow> varint_error + u64 \<times> bytes" where
  "DecodeLEB128 input = (if input = [] then Inr (0, input) else DecodeLEB128_loop input 0 0)"

fun DecodeLEB128FromReader_loop :: "bytes \<Rightarrow> u64 \<Rightarrow> nat \<Rightarrow> varint_error + u64 \<times> bytes" where
  "DecodeLEB128FromReader_loop [] num sz =
     (if sz * 7 > uintBits - 7 then Inl ErrLengthOverflow else Inl EOF)"
| "DecodeLEB128FromReader_loop (b # rest) num sz =
     (if sz * 7 > uintBits - 7 then Inl ErrLengthOverflow
      else let num' = num OR push_bit (sz * 7) (ucast b AND maskPayload)
           in if (ucast b :: u64) AND maskContinue = 0 then Inr (num', rest)
              else DecodeLEB128FromReader_loop rest num' (Suc sz))"

definition DecodeLEB128FromReader :: "bytes \<Rightarrow> varint_error + u64 \<times> bytes" where
  "DecodeLEB128FromReader input = DecodeLEB128FromReader_loop input 0 0"

subsection \<open>The size in a pack entry header\<close>

fun VariableLengthSize_loop :: "bytes \<Rightarrow> u64 \<Rightarrow> nat \<Rightarrow> varint_error + u64 \<times> bytes" where
  "VariableLengthSize_loop [] sz shift =
     (if shift > 64 - 7 then Inl ErrLengthOverflow else Inl EOF)"
| "VariableLengthSize_loop (b # rest) sz shift =
     (if shift > 64 - 7 then Inl ErrLengthOverflow
      else let sz' = sz OR push_bit shift (ucast (b AND 0x7F))
           in if b AND 0x80 = 0 then Inr (sz', rest)
              else VariableLengthSize_loop rest sz' (shift + 7))"

text \<open>\<open>None\<close> is the nil reader.\<close>

definition VariableLengthSize :: "byte \<Rightarrow> bytes option \<Rightarrow> varint_error + u64 \<times> bytes option" where
  "VariableLengthSize first reader =
     (let sz = ucast (first AND 0x0F) in
      if first AND 0x80 \<noteq> 0 then
        (case reader of
           None \<Rightarrow> Inl NilReader
         | Some bs \<Rightarrow> rbind (VariableLengthSize_loop bs sz 4) (\<lambda>(v, rest). Inr (v, Some rest)))
      else Inr (sz, reader))"

definition ObjectTypeBits :: "byte \<Rightarrow> byte" where
  "ObjectTypeBits b = drop_bit 4 (b AND 112)"

subsection \<open>The offset of an OFS delta (utils/binary)\<close>

text \<open>
  \<open>int64\<close> values are integers here; the guard is what keeps the decoder inside the type,
  and \<open>ReadVariableWidthInt_iff_Write\<close> below shows that it does.
\<close>

definition MaxInt64 :: int where "MaxInt64 = 2 ^ 63 - 1"

fun ReadVariableWidthInt_loop :: "bytes \<Rightarrow> byte \<Rightarrow> int \<Rightarrow> varint_error + int \<times> bytes" where
  "ReadVariableWidthInt_loop [] c v =
     (if c AND 128 = 0 then Inr (v, [])
      else if v \<ge> (MaxInt64 - 127) div 2 ^ 7 then Inl ErrIntegerOverflow
      else Inl EOF)"
| "ReadVariableWidthInt_loop (c' # rest) c v =
     (if c AND 128 = 0 then Inr (v, c' # rest)
      else if v \<ge> (MaxInt64 - 127) div 2 ^ 7 then Inl ErrIntegerOverflow
      else ReadVariableWidthInt_loop rest c' ((v + 1) * 2 ^ 7 + uint (c' AND 127)))"

definition ReadVariableWidthInt :: "bytes \<Rightarrow> varint_error + int \<times> bytes" where
  "ReadVariableWidthInt r =
     (case r of [] \<Rightarrow> Inl EOF | c # rest \<Rightarrow> ReadVariableWidthInt_loop rest c (uint (c AND 127)))"

text \<open>
  \<open>int64\<close> shifts are arithmetic, that is division by a power of two that rounds down. For a
  negative value the shift never reaches zero and the loop does not end: the writer is a
  partial function, and \<open>WriteVariableWidthInt_loop_Some\<close> below says that it returns from zero on.
\<close>

partial_function (option) WriteVariableWidthInt_loop :: "int \<Rightarrow> bytes \<Rightarrow> bytes option" where
  "WriteVariableWidthInt_loop n buf =
     (if n = 0 then Some buf
      else let n' = n - 1
           in WriteVariableWidthInt_loop (n' div 2 ^ 7) ((0x80 OR word_of_int (n' mod 2 ^ 7)) # buf))"

definition WriteVariableWidthInt :: "int \<Rightarrow> bytes option" where
  "WriteVariableWidthInt n = WriteVariableWidthInt_loop (n div 2 ^ 7) [word_of_int (n mod 2 ^ 7)]"

subsection \<open>Fixed-width big-endian integers and delimited reads (utils/binary)\<close>

text \<open>\<open>io.ReadFull\<close> of \<open>n\<close> bytes: nothing read is \<open>EOF\<close>, a short read \<open>ErrUnexpectedEOF\<close>.\<close>

definition read_full :: "bytes \<Rightarrow> nat \<Rightarrow> varint_error + bytes \<times> bytes" where
  "read_full r n =
     (if length r \<ge> n then Inr (take n r, drop n r)
      else if r = [] then Inl EOF else Inl ErrUnexpectedEOF)"

fun be_uint :: "bytes \<Rightarrow> nat" where
  "be_uint [] = 0"
| "be_uint (b # bs) = unat b * 256 ^ length bs + be_uint bs"

fun be_bytes :: "nat \<Rightarrow> nat \<Rightarrow> bytes" where
  "be_bytes 0 v = []"
| "be_bytes (Suc n) v = word_of_nat (v div 256 ^ n) # be_bytes n v"

definition ReadUint64 :: "bytes \<Rightarrow> varint_error + u64 \<times> bytes" where
  "ReadUint64 r = rbind (read_full r 8) (\<lambda>(b, rest). Inr (word_of_nat (be_uint b), rest))"

definition ReadUint32 :: "bytes \<Rightarrow> varint_error + u32 \<times> bytes" where
  "ReadUint32 r = rbind (read_full r 4) (\<lambda>(b, rest). Inr (word_of_nat (be_uint b), rest))"

definition ReadUint16 :: "bytes \<Rightarrow> varint_error + 16 word \<times> bytes" where
  "ReadUint16 r = rbind (read_full r 2) (\<lambda>(b, rest). Inr (word_of_nat (be_uint b), rest))"

definition WriteUint64 :: "u64 \<Rightarrow> bytes" where "WriteUint64 v = be_bytes 8 (unat v)"

definition WriteUint32 :: "u32 \<Rightarrow> bytes" where "WriteUint32 v = be_bytes 4 (unat v)"

definition WriteUint16 :: "16 word \<Rightarrow> bytes" where "WriteUint16 v = be_bytes 2 (unat v)"

fun ReadUntil_loop :: "bytes \<Rightarrow> byte \<Rightarrow> bytes \<Rightarrow> varint_error + bytes \<times> bytes" where
  "ReadUntil_loop [] delim value = Inl EOF"
| "ReadUntil_loop (b # rest) delim value =
     (if b = delim then Inr (value, rest) else ReadUntil_loop rest delim (value @ [b]))"

definition ReadUntil :: "bytes \<Rightarrow> byte \<Rightarrow> varint_error + bytes \<times> bytes" where
  "ReadUntil r delim = ReadUntil_loop r delim []"

subsection \<open>Continuation bit and payload of a byte\<close>

lemma byte_cont_iff [simp]: "(ucast b :: u64) AND maskContinue = 0 \<longleftrightarrow> \<not> bit (b :: byte) 7"
  by (simp add: maskContinue_def and_128_eq_0_iff bit_ucast_iff)

lemma byte_payload [simp]: "(ucast b :: u64) AND maskPayload = ucast (take_bit 7 (b :: byte))"
  by (simp add: maskPayload_def and_127_eq unsigned_take_bit_eq)

lemma byte_and_127 [simp]: "b AND 127 = take_bit 7 b" for b :: byte
  by (rule and_127_eq)

lemma byte_and_128_zero [simp]: "b AND 128 = 0 \<longleftrightarrow> \<not> bit b 7" for b :: byte
  by (rule and_128_eq_0_iff)

lemma low7_byte:
  "take_bit 7 (ucast (take_bit 7 n) :: byte) = ucast (take_bit 7 (n :: u64))"
  "take_bit 7 ((ucast (take_bit 7 n) :: byte) OR 128) = ucast (take_bit 7 (n :: u64))"
  "\<not> bit (ucast (take_bit 7 n) :: byte) 7"
  "bit ((ucast (take_bit 7 n) :: byte) OR 128) 7"
proof -
  show "take_bit 7 (ucast (take_bit 7 n) :: byte) = ucast (take_bit 7 n)"
    by (rule bit_word_eqI) (auto simp: bit_simps)
  show "take_bit 7 ((ucast (take_bit 7 n) :: byte) OR 128) = ucast (take_bit 7 n)"
    by (rule bit_word_eqI) (auto simp: bit_simps bit_word_128)
  show "\<not> bit (ucast (take_bit 7 n) :: byte) 7"
    by (simp add: bit_simps)
  show "bit ((ucast (take_bit 7 n) :: byte) OR 128) 7"
    by (simp add: bit_or_iff bit_word_128)
qed

lemma ucast_low7: "(ucast (ucast (take_bit 7 n) :: byte) :: u64) = take_bit 7 n"
  for n :: u64
  by (rule bit_word_eqI) (auto simp: bit_simps)

subsection \<open>LEB128: encoding and decoding\<close>

lemma EncodeLEB128_last:
  "drop_bit 7 n = 0 \<Longrightarrow> EncodeLEB128 n = [ucast (take_bit 7 n)]"
  by (subst EncodeLEB128.simps) (simp add: maskPayload_def and_127_eq)

lemma EncodeLEB128_more:
  "drop_bit 7 n \<noteq> 0 \<Longrightarrow>
     EncodeLEB128 n = (ucast (take_bit 7 n) OR 128) # EncodeLEB128 (drop_bit 7 n)"
  by (subst EncodeLEB128.simps) (simp add: maskPayload_def and_127_eq Let_def)

lemma EncodeLEB128_not_Nil [simp]: "EncodeLEB128 n \<noteq> []"
  by (subst EncodeLEB128.simps) (simp add: Let_def)

lemma drop_bit_7_eq_0_iff: "drop_bit 7 n = 0 \<longleftrightarrow> unat n < 2 ^ 7" for n :: u64
proof -
  have "drop_bit 7 n = 0 \<longleftrightarrow> unat n div 2 ^ 7 = 0"
    by (metis unat_drop_bit_div unat_eq_zero)
  then show ?thesis by auto
qed

lemma drop_bit_7_zero_take: "drop_bit 7 n = 0 \<Longrightarrow> take_bit 7 n = n" for n :: u64
  using word_or_split [of 0 7 n] by simp

lemma DecodeLEB128_loop_last:
  "\<not> bit b 7 \<Longrightarrow> sz \<le> 8 \<Longrightarrow>
     DecodeLEB128_loop (b # rest) acc sz = Inr (acc OR push_bit (sz * 7) (ucast (take_bit 7 b)), rest)"
  by (simp add: uintBits_def Let_def)

lemma DecodeLEB128_loop_more:
  "bit b 7 \<Longrightarrow> sz \<le> 8 \<Longrightarrow> rest \<noteq> [] \<Longrightarrow>
     DecodeLEB128_loop (b # rest) acc sz =
       DecodeLEB128_loop rest (acc OR push_bit (sz * 7) (ucast (take_bit 7 b))) (Suc sz)"
  by (simp add: uintBits_def Let_def)

lemma pow63_step: "Suc sz \<le> 8 \<Longrightarrow> (2 :: nat) ^ (63 - 7 * sz) = 2 ^ (63 - 7 * Suc sz) * 2 ^ 7"
proof -
  assume "Suc sz \<le> 8"
  then have "63 - 7 * sz = (63 - 7 * Suc sz) + 7" by simp
  then show ?thesis by (simp only: power_add)
qed

text \<open>A value of at most \<open>63 - 7 * sz\<close> bits decodes into the accumulator at shift \<open>7 * sz\<close>.\<close>

lemma DecodeLEB128_loop_Encode:
  assumes "unat n < 2 ^ (63 - 7 * sz)" and "sz \<le> 8"
  shows "DecodeLEB128_loop (EncodeLEB128 n @ rest) acc sz = Inr (acc OR push_bit (sz * 7) n, rest)"
  using assms
proof (induction n arbitrary: acc sz rule: EncodeLEB128.induct)
  case (1 n)
  show ?case
  proof (cases "drop_bit 7 n = 0")
    case True
    then show ?thesis using "1.prems"
      by (simp add: EncodeLEB128_last DecodeLEB128_loop_last low7_byte ucast_low7
          del: DecodeLEB128_loop.simps) (simp add: drop_bit_7_zero_take)
  next
    case False
    then have "2 ^ 7 \<le> unat n" by (simp only: drop_bit_7_eq_0_iff not_less)
    then have "sz \<noteq> 8" using "1.prems"(1) by auto
    then have sz: "Suc sz \<le> 8" using "1.prems"(2) by simp
    from pow63_step [OF this] have "unat (drop_bit 7 n) < 2 ^ (63 - 7 * Suc sz)"
      using "1.prems"(1) unfolding unat_drop_bit_div by (simp add: less_mult_imp_div_less)
    then have IH: "DecodeLEB128_loop (EncodeLEB128 (drop_bit 7 n) @ rest) a (Suc sz)
        = Inr (a OR push_bit (Suc sz * 7) (drop_bit 7 n), rest)" for a
      using "1.IH" [OF refl refl False _ sz] by simp
    have "push_bit (sz * 7) (take_bit 7 n) OR push_bit (Suc sz * 7) (drop_bit 7 n) = push_bit (sz * 7) n"
      using word_or_split [of "sz * 7" 7 n] by (simp add: add.commute)
    then show ?thesis using False sz
      by (simp add: EncodeLEB128_more DecodeLEB128_loop_more low7_byte ucast_low7 IH or.assoc
          del: DecodeLEB128_loop.simps)
  qed
qed

lemma DecodeLEB128_Encode:
  "unat n < 2 ^ 63 \<Longrightarrow> DecodeLEB128 (EncodeLEB128 n @ rest) = Inr (n, rest)"
  using DecodeLEB128_loop_Encode [of n 0 rest 0] by (simp add: DecodeLEB128_def)

text \<open>
  Outside that range the decoder refuses what the encoder writes: a value of 64 significant
  bits needs a tenth byte, at shift 63, past the guard \<open>sz * 7 > uintBits - 7\<close>.
\<close>

lemma DecodeLEB128_loop_overflow:
  assumes "2 ^ (63 - 7 * sz) \<le> unat n" and "sz \<le> 8"
  shows "DecodeLEB128_loop (EncodeLEB128 n @ rest) acc sz = Inl ErrLengthOverflow"
  using assms
proof (induction n arbitrary: acc sz rule: EncodeLEB128.induct)
  case (1 n)
  have "(2 :: nat) ^ 7 \<le> 2 ^ (63 - 7 * sz)"
    using "1.prems"(2) by (intro power_increasing) auto
  then have nz: "drop_bit 7 n \<noteq> 0" using "1.prems"(1) by (simp only: drop_bit_7_eq_0_iff not_less)
  have step: "DecodeLEB128_loop (EncodeLEB128 n @ rest) acc sz = DecodeLEB128_loop
      (EncodeLEB128 (drop_bit 7 n) @ rest) (acc OR push_bit (sz * 7) (take_bit 7 n)) (Suc sz)"
    using nz "1.prems"(2)
    by (simp add: EncodeLEB128_more DecodeLEB128_loop_more low7_byte ucast_low7
          del: DecodeLEB128_loop.simps)
  show ?case
  proof (cases "sz = 8")
    case True
    obtain b bs where "EncodeLEB128 (drop_bit 7 n) @ rest = b # bs"
      by (cases "EncodeLEB128 (drop_bit 7 n)") auto
    with True step show ?thesis by (simp add: uintBits_def)
  next
    case False
    then have sz: "Suc sz \<le> 8" using "1.prems"(2) by simp
    from pow63_step [OF this] have "2 ^ (63 - 7 * Suc sz) \<le> unat (drop_bit 7 n)"
      using "1.prems"(1) unfolding unat_drop_bit_div by (simp add: less_eq_div_iff_mult_less_eq)
    then show ?thesis using "1.IH" [OF refl refl nz _ sz] step by simp
  qed
qed

subsection \<open>The two LEB128 decoders agree on complete encodings\<close>

lemma DecodeLEB128FromReader_loop_eq:
  assumes "DecodeLEB128FromReader_loop bs acc sz = Inr (v, rest)" and "bs \<noteq> []"
  shows "DecodeLEB128_loop bs acc sz = Inr (v, rest)"
  using assms
proof (induction bs acc sz rule: DecodeLEB128FromReader_loop.induct)
  case (2 b bs num sz)
  then show ?case by (cases bs) (auto simp: Let_def split: if_splits)
qed simp

subsection \<open>OFS-delta offsets\<close>

lemma WriteVariableWidthInt_loop_Some:
  "0 \<le> n \<Longrightarrow> \<exists>bs. WriteVariableWidthInt_loop n buf = Some bs"
proof (induction "nat n" arbitrary: n buf rule: less_induct)
  case less
  show ?case
  proof (cases "n = 0")
    case True
    then show ?thesis by (simp add: WriteVariableWidthInt_loop.simps)
  next
    case False
    then have "nat ((n - 1) div 2 ^ 7) < nat n" and "0 \<le> (n - 1) div 2 ^ 7"
      using less.prems by auto
    from less.hyps [OF this] False show ?thesis
      by (subst WriteVariableWidthInt_loop.simps) (simp add: Let_def)
  qed
qed

text \<open>Reading what the loop has written so far: \<open>v\<close> is the value the bytes of \<open>buf\<close> extend.\<close>

definition vlq_cont :: "int \<Rightarrow> byte" where
  "vlq_cont n = 0x80 OR word_of_int (n mod 2 ^ 7)"

lemma vlq_cont_bits:
  "bit (vlq_cont n) 7" "uint (take_bit 7 (vlq_cont n)) = n mod 2 ^ 7"
  "\<not> bit (word_of_int (n mod 2 ^ 7) :: byte) 7"
  "uint (take_bit 7 (word_of_int (n mod 2 ^ 7) :: byte)) = n mod 2 ^ 7"
proof -
  have m: "n mod 2 ^ 7 = take_bit 7 n" by (simp only: take_bit_eq_mod)
  show "bit (vlq_cont n) 7" by (simp add: vlq_cont_def bit_or_iff bit_word_128)
  have "take_bit 7 (vlq_cont n) = word_of_int (take_bit 7 n)"
    unfolding vlq_cont_def m by (rule bit_word_eqI) (auto simp: bit_simps bit_word_128)
  then show "uint (take_bit 7 (vlq_cont n)) = n mod 2 ^ 7"
    unfolding m by (simp add: unsigned_of_int take_bit_take_bit min_def)
  show "\<not> bit (word_of_int (n mod 2 ^ 7) :: byte) 7" unfolding m by (simp add: bit_simps)
  show "uint (take_bit 7 (word_of_int (n mod 2 ^ 7) :: byte)) = n mod 2 ^ 7"
    unfolding m by (simp add: unsigned_take_bit_eq unsigned_of_int take_bit_take_bit min_def)
qed

text \<open>A reader that has just seen a continuation byte, with \<open>v\<close> read so far.\<close>

lemma Read_loop_cont:
  "bit c 7 \<Longrightarrow> v < 2 ^ 56 - 1 \<Longrightarrow>
     ReadVariableWidthInt_loop (c' # rest) c v =
       ReadVariableWidthInt_loop rest c' ((v + 1) * 2 ^ 7 + uint (take_bit 7 c'))"
  by (simp add: MaxInt64_def)

lemma Read_loop_stop:
  "\<not> bit c 7 \<Longrightarrow> ReadVariableWidthInt_loop rest c v = Inr (v, rest)"
  by (cases rest) simp_all

lemma Read_loop_flag:
  "bit c 7 \<Longrightarrow> bit c' 7 \<Longrightarrow>
     ReadVariableWidthInt_loop rest c v = ReadVariableWidthInt_loop rest c' v"
  by (cases rest) simp_all

lemma ReadVariableWidthInt_as_loop: "ReadVariableWidthInt r = ReadVariableWidthInt_loop r 128 (-1)"
  by (cases r) (simp_all add: ReadVariableWidthInt_def MaxInt64_def bit_word_128)

lemmas ReadVariableWidthInt_loop.simps [simp del]

lemma Write_loop_Cons:
  "n \<noteq> 0 \<Longrightarrow> WriteVariableWidthInt_loop n buf =
     WriteVariableWidthInt_loop ((n - 1) div 2 ^ 7) (vlq_cont (n - 1) # buf)"
  by (subst WriteVariableWidthInt_loop.simps) (simp add: vlq_cont_def Let_def)

lemma Write_loop_0 [simp]: "WriteVariableWidthInt_loop 0 buf = Some buf"
  by (subst WriteVariableWidthInt_loop.simps) simp

lemma Read_after_Write_loop:
  assumes "0 \<le> n" and "n < 2 ^ 56" and "WriteVariableWidthInt_loop n buf = Some bs"
  shows "ReadVariableWidthInt_loop (bs @ rest) 128 (-1)
           = ReadVariableWidthInt_loop (buf @ rest) 128 (n - 1)"
  using assms
proof (induction "nat n" arbitrary: n buf rule: less_induct)
  case less
  show ?case
  proof (cases "n = 0")
    case True
    with less.prems show ?thesis by simp
  next
    case False
    define m where "m = n - 1"
    have m: "nat (m div 2 ^ 7) < nat n" "0 \<le> m div 2 ^ 7" "m div 2 ^ 7 < 2 ^ 56"
      using False less.prems(1,2) by (auto simp: m_def)
    have "WriteVariableWidthInt_loop (m div 2 ^ 7) (vlq_cont m # buf) = Some bs"
      using less.prems(3) False by (simp add: Write_loop_Cons m_def)
    from less.hyps [OF m this] have "ReadVariableWidthInt_loop (bs @ rest) 128 (-1)
        = ReadVariableWidthInt_loop (vlq_cont m # buf @ rest) 128 (m div 2 ^ 7 - 1)" by simp
    also have "\<dots> = ReadVariableWidthInt_loop (buf @ rest) (vlq_cont m) (m div 2 ^ 7 * 2 ^ 7 + m mod 2 ^ 7)"
      using m(3) by (subst Read_loop_cont) (simp_all add: bit_word_128 vlq_cont_bits(2) [unfolded power_numeral])
    also have "\<dots> = ReadVariableWidthInt_loop (buf @ rest) 128 m"
      by (subst div_mult_mod_eq) (rule Read_loop_flag, simp_all add: vlq_cont_bits bit_word_128)
    finally show ?thesis by (simp add: m_def)
  qed
qed

lemma vlq_byte_of_cont:
  "bit c 7 \<Longrightarrow> vlq_cont (a * 2 ^ 7 + uint (take_bit 7 c)) = c"
  "\<not> bit c 7 \<Longrightarrow> word_of_int ((a * 2 ^ 7 + uint (take_bit 7 c)) mod 2 ^ 7) = c"
proof -
  have l: "(a * 2 ^ 7 + uint (take_bit 7 c)) mod 2 ^ 7 = uint (take_bit 7 c)"
  proof -
    have "uint (take_bit 7 c) = uint c mod 2 ^ 7"
      using unsigned_take_bit_eq [of 7 c] by (simp only: take_bit_eq_mod)
    then show ?thesis by simp
  qed
  have split: "c = take_bit 7 c" if "\<not> bit c 7"
  proof (rule bit_word_eqI)
    show "bit c n = bit (take_bit 7 c) n" if "n < LENGTH(8)" for n
      using that \<open>\<not> bit c 7\<close> by (cases "n = 7") (auto simp: bit_simps)
  qed
  show "\<not> bit c 7 \<Longrightarrow> word_of_int ((a * 2 ^ 7 + uint (take_bit 7 c)) mod 2 ^ 7) = c"
    unfolding l using split by simp
  have "128 OR take_bit 7 c = c" if "bit c 7"
  proof (rule bit_word_eqI)
    show "bit (128 OR take_bit 7 c) n = bit c n" if "n < LENGTH(8)" for n
      using that \<open>bit c 7\<close> by (cases "n = 7") (auto simp: bit_simps bit_word_128 bit_int_128)
  qed
  then show "bit c 7 \<Longrightarrow> vlq_cont (a * 2 ^ 7 + uint (take_bit 7 c)) = c"
    unfolding vlq_cont_def l by simp
qed

lemma Read_loop_inverts:
  assumes "ReadVariableWidthInt_loop bs c v0 = Inr (v, rest)" and "bit c 7" and "-1 \<le> v0"
  shows "v0 < v \<and> v \<le> MaxInt64 \<and>
    (\<exists>ms. bs = ms @ rest \<and> WriteVariableWidthInt v = WriteVariableWidthInt_loop (v0 + 1) ms)"
  using assms
proof (induction bs arbitrary: c v0)
  case Nil
  then show ?case by (simp add: ReadVariableWidthInt_loop.simps split: if_splits)
next
  case (Cons c' bs)
  define v1 where "v1 = (v0 + 1) * 2 ^ 7 + uint (take_bit 7 c')"
  have low: "0 \<le> uint (take_bit 7 c')" "uint (take_bit 7 c') < 2 ^ 7"
    using take_bit_int_less_exp [of 7 "uint c'"] by (simp_all add: unsigned_take_bit_eq)
  have v0: "v0 < 2 ^ 56 - 1" and R: "ReadVariableWidthInt_loop bs c' v1 = Inr (v, rest)"
    using Cons.prems by (simp_all add: ReadVariableWidthInt_loop.simps MaxInt64_def v1_def split: if_splits)
  have b: "v0 < v1" "v1 \<le> MaxInt64" "v1 div 2 ^ 7 = v0 + 1"
  proof -
    have "v1 = 128 * v0 + 128 + uint (take_bit 7 c')" by (simp add: v1_def)
    with low v0 Cons.prems(3) show "v0 < v1" "v1 \<le> MaxInt64"
      unfolding MaxInt64_def power_numeral by (linarith, simp)
    show "v1 div 2 ^ 7 = v0 + 1"
      unfolding v1_def using low by (subst div_mult_self3) (simp_all add: div_pos_pos_trivial)
  qed
  show ?case
  proof (cases "bit c' 7")
    case False
    with R have "v = v1" "bs = rest" by (simp_all add: Read_loop_stop)
    moreover have "WriteVariableWidthInt v1 = WriteVariableWidthInt_loop (v0 + 1) [c']"
      using vlq_byte_of_cont(2) [OF False, of "v0 + 1"] b(3) by (simp add: WriteVariableWidthInt_def v1_def)
    ultimately show ?thesis using b by auto
  next
    case True
    have "-1 \<le> v1" using b(1) Cons.prems(3) by simp
    from Cons.IH [OF R True this] obtain ms where ms: "v1 < v" "v \<le> MaxInt64" "bs = ms @ rest"
      "WriteVariableWidthInt v = WriteVariableWidthInt_loop (v1 + 1) ms" by blast
    have "WriteVariableWidthInt_loop (v1 + 1) ms = WriteVariableWidthInt_loop (v0 + 1) (c' # ms)"
    proof (subst Write_loop_Cons)
      show "v1 + 1 \<noteq> 0" using b(1) Cons.prems(3) by simp
      have "vlq_cont v1 = c'" unfolding v1_def by (rule vlq_byte_of_cont(1) [OF True])
      then show "WriteVariableWidthInt_loop ((v1 + 1 - 1) div 2 ^ 7) (vlq_cont (v1 + 1 - 1) # ms)
          = WriteVariableWidthInt_loop (v0 + 1) (c' # ms)" using b(3) by simp
    qed
    then show ?thesis using b(1) ms by auto
  qed
qed

lemma ReadVariableWidthInt_Write:
  assumes "0 \<le> v" and "v \<le> MaxInt64" and "WriteVariableWidthInt v = Some ms"
  shows "ReadVariableWidthInt (ms @ rest) = Inr (v, rest)"
proof -
  define c :: byte where "c = word_of_int (v mod 2 ^ 7)"
  have n: "0 \<le> v div 2 ^ 7" "v div 2 ^ 7 < 2 ^ 56" using assms(1,2) by (auto simp: MaxInt64_def)
  have ms: "WriteVariableWidthInt_loop (v div 2 ^ 7) [c] = Some ms"
    using assms(3) by (simp add: WriteVariableWidthInt_def c_def)
  have c: "\<not> bit c 7" "uint (take_bit 7 c) = v mod 2 ^ 7" unfolding c_def by (rule vlq_cont_bits)+
  have "ReadVariableWidthInt (ms @ rest) = ReadVariableWidthInt_loop ([c] @ rest) 128 (v div 2 ^ 7 - 1)"
    using Read_after_Write_loop [OF n ms] by (simp add: ReadVariableWidthInt_as_loop)
  also have "\<dots> = ReadVariableWidthInt_loop rest c (v div 2 ^ 7 * 2 ^ 7 + v mod 2 ^ 7)"
    using n(2) c(2) by (simp add: Read_loop_cont bit_word_128)
  also have "\<dots> = Inr (v, rest)" unfolding div_mult_mod_eq by (rule Read_loop_stop [OF c(1)])
  finally show ?thesis .
qed

lemma WriteVariableWidthInt_Some: "0 \<le> v \<Longrightarrow> \<exists>ms. WriteVariableWidthInt v = Some ms"
  unfolding WriteVariableWidthInt_def using WriteVariableWidthInt_loop_Some [of "v div 2 ^ 7"] by simp

interpretation vlq_codec: stream_codec "\<lambda>v. the (WriteVariableWidthInt v)" ReadVariableWidthInt
  "\<lambda>v. 0 \<le> v \<and> v \<le> MaxInt64"
  using ReadVariableWidthInt_Write WriteVariableWidthInt_Some by unfold_locales fastforce

text \<open>
  \<^bold>\<open>C35\<close>. The reader accepts exactly the writer's output: \<open>ReadVariableWidthInt\<close> returns \<open>v\<close>
  and leaves \<open>rest\<close> iff \<open>v\<close> is a non-negative \<open>int64\<close> and the input is what
  \<open>WriteVariableWidthInt\<close> writes for \<open>v\<close>, followed by \<open>rest\<close>. So every offset has exactly one
  encoding (the redundancy of plain VLQ is gone), the value never leaves \<open>int64\<close>, and the
  overflow guard refuses nothing that the writer produces.
\<close>

theorem ReadVariableWidthInt_iff_Write:
  "ReadVariableWidthInt r = Inr (v, rest) \<longleftrightarrow>
     0 \<le> v \<and> v \<le> MaxInt64 \<and> (\<exists>ms. WriteVariableWidthInt v = Some ms \<and> r = ms @ rest)"
proof
  assume "ReadVariableWidthInt r = Inr (v, rest)"
  then show "0 \<le> v \<and> v \<le> MaxInt64 \<and> (\<exists>ms. WriteVariableWidthInt v = Some ms \<and> r = ms @ rest)"
    using Read_loop_inverts [of r 128 "-1" v rest]
    by (auto simp: ReadVariableWidthInt_as_loop bit_word_128)
qed (auto simp: ReadVariableWidthInt_Write)

subsection \<open>Big-endian integers\<close>

lemma length_be_bytes [simp]: "length (be_bytes n v) = n"
  by (induction n) simp_all

lemma be_uint_be_bytes: "be_uint (be_bytes n v) = v mod 256 ^ n"
proof (induction n)
  case (Suc n)
  have b: "unat (word_of_nat (v div 256 ^ n) :: byte) = v div 256 ^ n mod 256"
    by (simp add: unat_of_nat take_bit_eq_mod)
  have "v mod 256 ^ Suc n = v mod (256 ^ n * 256)" by (simp add: mult.commute)
  also have "\<dots> = 256 ^ n * (v div 256 ^ n mod 256) + v mod 256 ^ n" by (rule mod_mult2_eq)
  finally show ?case using Suc b by (simp add: mult.commute)
qed simp

lemma be_uint_less: "be_uint bs < 256 ^ length bs"
proof (induction bs)
  case (Cons b bs)
  have "unat b * 256 ^ length bs + be_uint bs < unat b * 256 ^ length bs + 256 ^ length bs"
    using Cons by simp
  also have "\<dots> = Suc (unat b) * 256 ^ length bs" by simp
  also have "\<dots> \<le> 256 * 256 ^ length bs" using unat_byte_less [of b] by (intro mult_le_mono1) simp
  finally show ?case by simp
qed simp

lemma read_full_append [simp]: "length a = n \<Longrightarrow> read_full (a @ rest) n = Inr (a, rest)"
  by (simp add: read_full_def)

lemma read_full_short: "length r < n \<Longrightarrow> \<exists>e. read_full r n = Inl e"
  by (simp add: read_full_def)

lemma strict_prefix_shorter: "strict_prefix p xs \<Longrightarrow> length p < length xs"
  by (simp add: prefix_length_less)

lemma uint_codecs:
  "ReadUint64 (WriteUint64 a @ rest) = Inr (a, rest)"
  "ReadUint32 (WriteUint32 b @ rest) = Inr (b, rest)"
  "ReadUint16 (WriteUint16 c @ rest) = Inr (c, rest)"
proof -
  have "unat a < 256 ^ 8" "unat b < 256 ^ 4" "unat c < 256 ^ 2"
    using unsigned_less [of a] unsigned_less [of b] unsigned_less [of c] by simp_all
  then show "ReadUint64 (WriteUint64 a @ rest) = Inr (a, rest)"
    "ReadUint32 (WriteUint32 b @ rest) = Inr (b, rest)"
    "ReadUint16 (WriteUint16 c @ rest) = Inr (c, rest)"
    by (simp_all add: ReadUint64_def ReadUint32_def ReadUint16_def WriteUint64_def WriteUint32_def
        WriteUint16_def be_uint_be_bytes del: be_bytes.simps)
qed

lemma length_WriteUint [simp]:
  "length (WriteUint64 a) = 8" "length (WriteUint32 b) = 4" "length (WriteUint16 c) = 2"
  by (simp_all add: WriteUint64_def WriteUint32_def WriteUint16_def del: be_bytes.simps)

lemma uint_truncated:
  "length r < 8 \<Longrightarrow> \<exists>e. ReadUint64 r = Inl e"
  "length r < 4 \<Longrightarrow> \<exists>e. ReadUint32 r = Inl e"
  "length r < 2 \<Longrightarrow> \<exists>e. ReadUint16 r = Inl e"
  using read_full_short by (fastforce simp: ReadUint64_def ReadUint32_def ReadUint16_def)+

interpretation u64_codec: strict_codec WriteUint64 ReadUint64 "\<lambda>_. True"
  by unfold_locales
    (auto simp: uint_codecs dest!: strict_prefix_shorter intro: uint_truncated)

interpretation u32_codec: strict_codec WriteUint32 ReadUint32 "\<lambda>_. True"
  by unfold_locales
    (auto simp: uint_codecs dest!: strict_prefix_shorter intro: uint_truncated)

interpretation u16_codec: strict_codec WriteUint16 ReadUint16 "\<lambda>_. True"
  by unfold_locales
    (auto simp: uint_codecs dest!: strict_prefix_shorter intro: uint_truncated)

subsection \<open>The variable-width encodings as codecs\<close>

interpretation leb128_codec: stream_codec EncodeLEB128 DecodeLEB128 "\<lambda>n. unat n < 2 ^ 63"
  by unfold_locales (rule DecodeLEB128_Encode)

lemma DecodeLEB128FromReader_loop_agrees:
  assumes "bs \<noteq> []" and "\<not> bit (last bs) 7" and "DecodeLEB128_loop (bs @ rest) acc sz = Inr (v, rest)"
  shows "DecodeLEB128FromReader_loop (bs @ rest) acc sz = Inr (v, rest)"
  using assms
proof (induction bs arbitrary: acc sz)
  case (Cons b bs)
  show ?case
  proof (cases "bit b 7")
    case True
    then have "bs \<noteq> []" using Cons.prems(2) by auto
    then show ?thesis using True Cons by (auto simp: Let_def split: if_splits)
  next
    case False
    then show ?thesis using Cons.prems(3) by (auto simp: Let_def split: if_splits)
  qed
qed simp

lemma EncodeLEB128_last_byte: "\<not> bit (last (EncodeLEB128 n)) 7"
proof (induction n rule: EncodeLEB128.induct)
  case (1 n)
  then show ?case
    by (cases "drop_bit 7 n = 0") (simp_all add: EncodeLEB128_last EncodeLEB128_more low7_byte)
qed

interpretation leb128_reader_codec: stream_codec EncodeLEB128 DecodeLEB128FromReader "\<lambda>n. unat n < 2 ^ 63"
proof
  fix n :: u64 and rest
  assume "unat n < 2 ^ 63"
  from DecodeLEB128_Encode [OF this, of rest] show "DecodeLEB128FromReader (EncodeLEB128 n @ rest) = Inr (n, rest)"
    unfolding DecodeLEB128FromReader_def
    by (intro DecodeLEB128FromReader_loop_agrees) (simp_all add: EncodeLEB128_last_byte DecodeLEB128_def)
qed

end
