(* ===== verification/Delta_Index.thy ===== *)
theory Delta_Index
  imports Varint "HOL-Library.Monad_Syntax"
begin

text \<open>
  The block index that a delta is computed from: \<open>plumbing/format/packfile/delta_index.go\<close>.

  Arrays are lists of natural numbers, every array access is \<open>index\<close> or \<open>store\<close> of the
  prelude, and \<open>None\<close> stands for Go's bounds panic (or, for the chain walk of
  \<open>copyEntries\<close>, for a loop that does not end). The lemmas show that neither happens: the
  index of any source can be built, and looking a block up in it stays inside its tables
  and inside the hash table \<open>T\<close>.
\<close>

definition blksz :: nat where "blksz = 16"

definition maxChainLength :: nat where "maxChainLength = 64"

subsection \<open>The rolling hash of a block\<close>

definition T :: "u32 list" where
  "T = [
    0x00000000, 0xd4c6b32d, 0x7d4bd577, 0xa98d665a, 0x2e5119c3, 0xfa97aaee, 0x531accb4, 0x87dc7f99,
    0x5ca23386, 0x886480ab, 0x21e9e6f1, 0xf52f55dc, 0x72f32a45, 0xa6359968, 0x0fb8ff32, 0xdb7e4c1f,
    0x6d82d421, 0xb944670c, 0x10c90156, 0xc40fb27b, 0x43d3cde2, 0x97157ecf, 0x3e981895, 0xea5eabb8,
    0x3120e7a7, 0xe5e6548a, 0x4c6b32d0, 0x98ad81fd, 0x1f71fe64, 0xcbb74d49, 0x623a2b13, 0xb6fc983e,
    0x0fc31b6f, 0xdb05a842, 0x7288ce18, 0xa64e7d35, 0x219202ac, 0xf554b181, 0x5cd9d7db, 0x881f64f6,
    0x536128e9, 0x87a79bc4, 0x2e2afd9e, 0xfaec4eb3, 0x7d30312a, 0xa9f68207, 0x007be45d, 0xd4bd5770,
    0x6241cf4e, 0xb6877c63, 0x1f0a1a39, 0xcbcca914, 0x4c10d68d, 0x98d665a0, 0x315b03fa, 0xe59db0d7,
    0x3ee3fcc8, 0xea254fe5, 0x43a829bf, 0x976e9a92, 0x10b2e50b, 0xc4745626, 0x6df9307c, 0xb93f8351,
    0x1f8636de, 0xcb4085f3, 0x62cde3a9, 0xb60b5084, 0x31d72f1d, 0xe5119c30, 0x4c9cfa6a, 0x985a4947,
    0x43240558, 0x97e2b675, 0x3e6fd02f, 0xeaa96302, 0x6d751c9b, 0xb9b3afb6, 0x103ec9ec, 0xc4f87ac1,
    0x7204e2ff, 0xa6c251d2, 0x0f4f3788, 0xdb8984a5, 0x5c55fb3c, 0x88934811, 0x211e2e4b, 0xf5d89d66,
    0x2ea6d179, 0xfa606254, 0x53ed040e, 0x872bb723, 0x00f7c8ba, 0xd4317b97, 0x7dbc1dcd, 0xa97aaee0,
    0x10452db1, 0xc4839e9c, 0x6d0ef8c6, 0xb9c84beb, 0x3e143472, 0xead2875f, 0x435fe105, 0x97995228,
    0x4ce71e37, 0x9821ad1a, 0x31accb40, 0xe56a786d, 0x62b607f4, 0xb670b4d9, 0x1ffdd283, 0xcb3b61ae,
    0x7dc7f990, 0xa9014abd, 0x008c2ce7, 0xd44a9fca, 0x5396e053, 0x8750537e, 0x2edd3524, 0xfa1b8609,
    0x2165ca16, 0xf5a3793b, 0x5c2e1f61, 0x88e8ac4c, 0x0f34d3d5, 0xdbf260f8, 0x727f06a2, 0xa6b9b58f,
    0x3f0c6dbc, 0xebcade91, 0x4247b8cb, 0x96810be6, 0x115d747f, 0xc59bc752, 0x6c16a108, 0xb8d01225,
    0x63ae5e3a, 0xb768ed17, 0x1ee58b4d, 0xca233860, 0x4dff47f9, 0x9939f4d4, 0x30b4928e, 0xe47221a3,
    0x528eb99d, 0x86480ab0, 0x2fc56cea, 0xfb03dfc7, 0x7cdfa05e, 0xa8191373, 0x01947529, 0xd552c604,
    0x0e2c8a1b, 0xdaea3936, 0x73675f6c, 0xa7a1ec41, 0x207d93d8, 0xf4bb20f5, 0x5d3646af, 0x89f0f582,
    0x30cf76d3, 0xe409c5fe, 0x4d84a3a4, 0x99421089, 0x1e9e6f10, 0xca58dc3d, 0x63d5ba67, 0xb713094a,
    0x6c6d4555, 0xb8abf678, 0x11269022, 0xc5e0230f, 0x423c5c96, 0x96faefbb, 0x3f7789e1, 0xebb13acc,
    0x5d4da2f2, 0x898b11df, 0x20067785, 0xf4c0c4a8, 0x731cbb31, 0xa7da081c, 0x0e576e46, 0xda91dd6b,
    0x01ef9174, 0xd5292259, 0x7ca44403, 0xa862f72e, 0x2fbe88b7, 0xfb783b9a, 0x52f55dc0, 0x8633eeed,
    0x208a5b62, 0xf44ce84f, 0x5dc18e15, 0x89073d38, 0x0edb42a1, 0xda1df18c, 0x739097d6, 0xa75624fb,
    0x7c2868e4, 0xa8eedbc9, 0x0163bd93, 0xd5a50ebe, 0x52797127, 0x86bfc20a, 0x2f32a450, 0xfbf4177d,
    0x4d088f43, 0x99ce3c6e, 0x30435a34, 0xe485e919, 0x63599680, 0xb79f25ad, 0x1e1243f7, 0xcad4f0da,
    0x11aabcc5, 0xc56c0fe8, 0x6ce169b2, 0xb827da9f, 0x3ffba506, 0xeb3d162b, 0x42b07071, 0x9676c35c,
    0x2f49400d, 0xfb8ff320, 0x5202957a, 0x86c42657, 0x011859ce, 0xd5deeae3, 0x7c538cb9, 0xa8953f94,
    0x73eb738b, 0xa72dc0a6, 0x0ea0a6fc, 0xda6615d1, 0x5dba6a48, 0x897cd965, 0x20f1bf3f, 0xf4370c12,
    0x42cb942c, 0x960d2701, 0x3f80415b, 0xeb46f276, 0x6c9a8def, 0xb85c3ec2, 0x11d15898, 0xc517ebb5,
    0x1e69a7aa, 0xcaaf1487, 0x632272dd, 0xb7e4c1f0, 0x3038be69, 0xe4fe0d44, 0x4d736b1e, 0x99b5d833]"

fun hash_bytes :: "u32 \<Rightarrow> bytes \<Rightarrow> nat list \<Rightarrow> u32 option" where
  "hash_bytes hash raw [] = Some hash"
| "hash_bytes hash raw (p # ps) =
     do { b \<leftarrow> index raw p;
          t \<leftarrow> index T (unat (drop_bit 23 hash));
          hash_bytes ((push_bit 8 hash OR (ucast b AND 0xff)) XOR t) raw ps }"

text \<open>The code spells the twelve steps of \<open>hash_bytes\<close> out, one line each.\<close>

definition hashBlock :: "bytes \<Rightarrow> nat \<Rightarrow> nat option" where
  "hashBlock raw ptr =
     do { b0 \<leftarrow> index raw ptr; b1 \<leftarrow> index raw (ptr + 1);
          b2 \<leftarrow> index raw (ptr + 2); b3 \<leftarrow> index raw (ptr + 3);
          let hash = push_bit 24 (ucast b0 AND 0xff) OR push_bit 16 (ucast b1 AND 0xff)
                       OR push_bit 8 (ucast b2 AND 0xff) OR (ucast b3 AND 0xff :: u32);
          t \<leftarrow> index T (unat (drop_bit 31 hash));
          h \<leftarrow> hash_bytes (hash XOR t) raw [ptr + 4 ..< ptr + 16];
          Some (unat h) }"

subsection \<open>Table size\<close>

definition len8tab :: "nat list" where
  "len8tab = [0, 1] @ replicate 2 2 @ replicate 4 3 @ replicate 8 4 @ replicate 16 5 @
     replicate 32 6 @ replicate 64 7 @ replicate 128 8"

definition leadingZeros :: "u32 \<Rightarrow> nat option" where
  "leadingZeros x0 =
     (let (x1, n1) = (if x0 \<ge> 2 ^ 16 then (drop_bit 16 x0, 16) else (x0, 0));
          (x2, n2) = (if x1 \<ge> 2 ^ 8 then (drop_bit 8 x1, n1 + 8) else (x1, n1))
      in do { v \<leftarrow> index len8tab (unat x2); Some (32 - (n2 + v)) })"

text \<open>\<open>1 << uint(shift-1)\<close>: a shift of zero becomes a huge unsigned shift, whose result is zero.\<close>

definition tableSize :: "nat \<Rightarrow> nat option" where
  "tableSize worstCaseBlockCnt =
     do { z \<leftarrow> leadingZeros (word_of_nat worstCaseBlockCnt);
          let shift = 32 - z;
          let sz = (if shift = 0 then 0 else 2 ^ (shift - 1));
          Some (if sz < worstCaseBlockCnt then 2 * sz else sz) }"

subsection \<open>Scanning the source\<close>

record deltaIndexScanner =
  s_table :: "nat list"
  s_entries :: "nat list"
  s_next :: "nat list"
  s_mask :: nat
  s_count :: nat

text \<open>The body of the loop of \<open>scan\<close> at block \<open>ptr\<close>.\<close>

definition scan_step :: "bytes \<Rightarrow> nat \<Rightarrow> nat \<Rightarrow> deltaIndexScanner \<Rightarrow> (deltaIndexScanner \<times> nat) option" where
  "scan_step buf lastHash ptr s =
     do { key \<leftarrow> hashBlock buf ptr;
          let tIdx = key AND s_mask s;
          head \<leftarrow> index (s_table s) tIdx;
          (if head \<noteq> 0 \<and> lastHash = key then
             do { es \<leftarrow> store (s_entries s) head ptr;
                  Some (s\<lparr>s_entries := es\<rparr>, key) }
           else
             do { let eIdx = s_count s + 1;
                  es \<leftarrow> store (s_entries s) eIdx ptr;
                  ns \<leftarrow> store (s_next s) eIdx head;
                  ts \<leftarrow> store (s_table s) tIdx eIdx;
                  Some (s\<lparr>s_count := eIdx, s_entries := es, s_next := ns, s_table := ts\<rparr>, key) }) }"

fun scan_loop :: "bytes \<Rightarrow> nat \<Rightarrow> nat \<Rightarrow> deltaIndexScanner \<Rightarrow> deltaIndexScanner option" where
  "scan_loop buf lastHash ptr s =
     do { (s', key) \<leftarrow> scan_step buf lastHash ptr s;
          if ptr < 16 then Some s' else scan_loop buf key (ptr - 16) s' }"

declare scan_loop.simps [simp del]

definition scan :: "bytes \<Rightarrow> nat \<Rightarrow> deltaIndexScanner \<Rightarrow> deltaIndexScanner option" where
  "scan buf end' s = scan_loop buf 0 (end' - blksz) s"

definition newDeltaIndexScanner :: "bytes \<Rightarrow> nat \<Rightarrow> deltaIndexScanner option" where
  "newDeltaIndexScanner buf sz0 =
     (let sz = sz0 - sz0 mod blksz; worstCaseBlockCnt = sz div blksz
      in if worstCaseBlockCnt < 1
         then Some \<lparr>s_table = [], s_entries = [], s_next = [], s_mask = 0, s_count = 0\<rparr>
         else do { ts \<leftarrow> tableSize worstCaseBlockCnt;
                   scan buf sz
                     \<lparr>s_table = replicate ts 0, s_entries = replicate (worstCaseBlockCnt + 1) 0,
                      s_next = replicate (worstCaseBlockCnt + 1) 0, s_mask = ts - 1, s_count = 0\<rparr> })"

subsection \<open>Counting and copying the chains\<close>

text \<open>
  The inner loop of \<open>countEntries\<close>: it cuts a chain at \<open>maxChainLength\<close> entries. \<open>sz\<close> starts at
  zero and grows by one, so the test for equality of the code is \<open>\<ge>\<close> here.
\<close>

function count_chain :: "nat \<Rightarrow> nat list \<Rightarrow> nat \<Rightarrow> (nat \<times> nat list) option" where
  "count_chain sz nx h =
     (if sz + 1 \<ge> maxChainLength then do { nx' \<leftarrow> store nx h 0; Some (sz + 1, nx') }
      else do { h' \<leftarrow> index nx h;
                if h' = 0 then Some (sz + 1, nx) else count_chain (sz + 1) nx h' })"
  by pat_completeness auto
termination by (relation "measure (\<lambda>(sz, _, _). maxChainLength - sz)") auto

declare count_chain.simps [simp del]

fun countEntries_loop :: "nat list \<Rightarrow> nat list \<Rightarrow> nat \<Rightarrow> (nat \<times> nat list) option" where
  "countEntries_loop [] nx cnt = Some (cnt, nx)"
| "countEntries_loop (h # hs) nx cnt =
     (if h = 0 then countEntries_loop hs nx cnt
      else do { (sz, nx') \<leftarrow> count_chain 0 nx h; countEntries_loop hs nx' (cnt + sz) })"

definition countEntries :: "deltaIndexScanner \<Rightarrow> (nat \<times> deltaIndexScanner) option" where
  "countEntries s =
     do { (cnt, nx) \<leftarrow> countEntries_loop (s_table s) (s_next s) 0;
          Some (cnt, s\<lparr>s_next := nx\<rparr>) }"

partial_function (option) copy_chain :: "nat list \<Rightarrow> nat list \<Rightarrow> nat \<Rightarrow> nat list \<Rightarrow> nat \<Rightarrow> (nat list \<times> nat) option" where
  "copy_chain sentries snext h entries nx =
     Option.bind (index sentries h) (\<lambda>e.
     Option.bind (store entries nx e) (\<lambda>entries'.
     Option.bind (index snext h) (\<lambda>h'.
     if h' = 0 then Some (entries', nx + 1)
     else copy_chain sentries snext h' entries' (nx + 1))))"

text \<open>The outer loop of \<open>copyEntries\<close>; the first component of the result is the new table.\<close>

fun copyEntries_loop :: "nat list \<Rightarrow> nat list \<Rightarrow> nat list \<Rightarrow> nat list \<Rightarrow> nat \<Rightarrow> (nat list \<times> nat list) option" where
  "copyEntries_loop sentries snext [] entries nx = Some ([], entries)"
| "copyEntries_loop sentries snext (h # hs) entries nx =
     (if h = 0 then
        do { (ts, es) \<leftarrow> copyEntries_loop sentries snext hs entries nx; Some (0 # ts, es) }
      else
        do { (entries', nx') \<leftarrow> copy_chain sentries snext h entries nx;
             (ts, es) \<leftarrow> copyEntries_loop sentries snext hs entries' nx';
             Some (nx # ts, es) })"

subsection \<open>The index\<close>

record deltaIndex =
  table :: "nat list"
  entries :: "nat list"
  mask' :: nat

definition copyEntries :: "deltaIndex \<Rightarrow> deltaIndexScanner \<Rightarrow> deltaIndex option" where
  "copyEntries idx s =
     do { (ts, es) \<leftarrow> copyEntries_loop (s_entries s) (s_next s) (table idx) (entries idx) 1;
          Some (idx\<lparr>table := ts, entries := es\<rparr>) }"

definition new_deltaIndex :: deltaIndex where
  "new_deltaIndex = \<lparr>table = [], entries = [], mask' = 0\<rparr>"

definition init :: "bytes \<Rightarrow> deltaIndex option" where
  "init buf =
     do { s \<leftarrow> newDeltaIndexScanner buf (length buf);
          (cnt, s') \<leftarrow> countEntries s;
          copyEntries \<lparr>table = s_table s', entries = replicate (cnt + 1) 0, mask' = s_mask s'\<rparr> s' }"

subsection \<open>Looking a block up\<close>

function matchLength :: "bytes \<Rightarrow> bytes \<Rightarrow> nat \<Rightarrow> nat \<Rightarrow> nat" where
  "matchLength src tgt otgt osrc =
     (if osrc < length src \<and> otgt < length tgt \<and> src ! osrc = tgt ! otgt
      then Suc (matchLength src tgt (Suc otgt) (Suc osrc)) else 0)"
  by pat_completeness auto
termination by (relation "measure (\<lambda>(src, tgt, otgt, osrc). length tgt - otgt)") auto

declare matchLength.simps [simp del]

text \<open>The result is the offset in the source and the length, \<open>-1\<close> for a source below \<open>blksz\<close>.\<close>

definition findMatch :: "deltaIndex \<Rightarrow> bytes \<Rightarrow> bytes \<Rightarrow> nat \<Rightarrow> (nat \<times> int) option" where
  "findMatch idx src tgt tgtOffset =
     (if length tgt < tgtOffset + 16 then Some (0, int (length tgt) - int tgtOffset)
      else if length src < blksz then Some (0, -1)
      else do { h \<leftarrow> hashBlock tgt tgtOffset;
                let tIdx = h AND mask' idx;
                eIdx \<leftarrow> index (table idx) tIdx;
                (if eIdx = 0 then Some (0, 0)
                 else do { srcOffset \<leftarrow> index (entries idx) eIdx;
                           Some (srcOffset, int (matchLength src tgt tgtOffset srcOffset)) }) })"

subsection \<open>The hash stays inside its table\<close>

lemma length_T [simp]: "length T = 256"
  by (simp add: T_def)

lemma T_top_bit:
  assumes "k < 256"
  shows "bit (T ! k) 31 \<longleftrightarrow> odd k"
proof -
  have "map (\<lambda>t. bit t 31) T = map odd [0..<256]" by code_simp
  then have "map (\<lambda>t. bit t 31) T ! k = map odd [0..<256] ! k" by simp
  with assms show ?thesis by simp
qed

lemma index_T:
  fixes h :: u32
  assumes "\<not> bit h 31"
  shows "index T (unat (drop_bit 23 h)) = Some (T ! unat (drop_bit 23 h))"
    and "bit (T ! unat (drop_bit 23 h)) 31 \<longleftrightarrow> bit h 23"
proof -
  have "h = take_bit 31 h"
  proof (rule bit_word_eqI)
    show "bit h n = bit (take_bit 31 h) n" if "n < LENGTH(32)" for n
      using that assms by (cases "n = 31") (auto simp: bit_simps)
  qed
  then have "unat h = take_bit 31 (unat h)" by (metis unsigned_take_bit_eq)
  then have "unat h < 2 ^ 31" by (metis take_bit_nat_less_exp)
  then have k: "unat (drop_bit 23 h) < 256"
    unfolding unat_drop_bit_div by (simp add: less_mult_imp_div_less)
  then show "index T (unat (drop_bit 23 h)) = Some (T ! unat (drop_bit 23 h))"
    by (simp add: index_def)
  have "odd (unat (drop_bit 23 h)) \<longleftrightarrow> bit h 23"
    by (simp add: unat_drop_bit_eq flip: bit_iff_odd_drop_bit) (simp add: bit_unsigned_iff)
  with T_top_bit [OF k] show "bit (T ! unat (drop_bit 23 h)) 31 \<longleftrightarrow> bit h 23" by simp
qed

lemma hash_bytes_Some:
  assumes "\<not> bit hash 31" and "list_all (\<lambda>p. p < length raw) ps"
  shows "\<exists>h. hash_bytes hash raw ps = Some h"
  using assms
proof (induction ps arbitrary: hash)
  case (Cons p ps)
  define t where "t = T ! unat (drop_bit 23 hash)"
  have "\<not> bit ((push_bit 8 hash OR (ucast (raw ! p) AND 0xff)) XOR t) 31"
    using index_T(2) [OF Cons.prems(1)] Cons.prems(1)
    by (simp add: t_def and_255_eq bit_simps)
  from Cons.IH [OF this] Cons.prems index_T(1) [OF Cons.prems(1)] show ?case
    by (simp add: t_def index_def)
qed simp

lemma hashBlock_Some:
  assumes "ptr + 16 \<le> length raw"
  shows "\<exists>h. hashBlock raw ptr = Some h"
proof -
  define hash :: u32 where "hash = push_bit 24 (ucast (raw ! ptr) AND 0xff)
    OR push_bit 16 (ucast (raw ! (ptr + 1)) AND 0xff) OR push_bit 8 (ucast (raw ! (ptr + 2)) AND 0xff)
    OR (ucast (raw ! (ptr + 3)) AND 0xff)"
  have "unat (drop_bit 31 hash) < 2"
    using unsigned_less [of hash, where 'a = nat] unfolding unat_drop_bit_div
    by (simp add: less_mult_imp_div_less)
  moreover have "odd (unat (drop_bit 31 hash)) \<longleftrightarrow> bit hash 31"
    by (simp add: unat_drop_bit_eq flip: bit_iff_odd_drop_bit) (simp add: bit_unsigned_iff)
  ultimately have "index T (unat (drop_bit 31 hash)) = Some (T ! unat (drop_bit 31 hash))"
    and "\<not> bit (hash XOR T ! unat (drop_bit 31 hash)) 31"
    using T_top_bit [of "unat (drop_bit 31 hash)"] by (simp_all add: index_def bit_xor_iff)
  moreover obtain h where "hash_bytes (hash XOR T ! unat (drop_bit 31 hash)) raw [ptr + 4 ..< ptr + 16] = Some h"
    using hash_bytes_Some [OF calculation(2), of raw "[ptr + 4 ..< ptr + 16]"] assms
    by (auto simp: list_all_iff)
  moreover have "index raw ptr = Some (raw ! ptr)" "index raw (ptr + 1) = Some (raw ! (ptr + 1))"
    "index raw (ptr + 2) = Some (raw ! (ptr + 2))" "index raw (ptr + 3) = Some (raw ! (ptr + 3))"
    using assms by (simp_all add: index_def)
  ultimately show ?thesis
    by (simp only: hashBlock_def Option.bind_lunit Let_def hash_def [symmetric]) blast
qed

subsection \<open>Chains\<close>

definition decreasing :: "nat list \<Rightarrow> bool" where
  "decreasing nx \<longleftrightarrow> (\<forall>e < length nx. 0 < e \<longrightarrow> nx ! e < e)"

function chain :: "nat list \<Rightarrow> nat \<Rightarrow> nat list" where
  "chain nx h = (if 0 < h \<and> h < length nx \<and> nx ! h < h then h # chain nx (nx ! h) else [])"
  by pat_completeness auto
termination by (relation "measure snd") auto

declare chain.simps [simp del]

lemma chain_0 [simp]: "chain nx 0 = []"
  by (simp add: chain.simps)

lemma chain_step:
  "decreasing nx \<Longrightarrow> 0 < h \<Longrightarrow> h < length nx \<Longrightarrow> chain nx h = h # chain nx (nx ! h)"
  by (subst chain.simps) (simp add: decreasing_def)

text \<open>\<open>nx'\<close> is \<open>nx\<close> with some chains cut.\<close>

definition cuts :: "nat list \<Rightarrow> nat list \<Rightarrow> bool" where
  "cuts nx nx' \<longleftrightarrow>
     length nx' = length nx \<and> (\<forall>e < length nx. nx' ! e = nx ! e \<or> nx' ! e = 0)"

lemma cuts_refl [simp]: "cuts nx nx"
  by (simp add: cuts_def)

lemma cuts_trans: "cuts a b \<Longrightarrow> cuts b c \<Longrightarrow> cuts a c"
  unfolding cuts_def by (metis (full_types))

lemma cuts_store: "cuts nx (nx[h := 0])"
  unfolding cuts_def by (metis length_list_update nth_list_update_eq nth_list_update_neq)

lemma cuts_decreasing: "cuts nx nx' \<Longrightarrow> decreasing nx \<Longrightarrow> decreasing nx'"
  unfolding cuts_def decreasing_def by metis

lemma cuts_chain_le:
  "cuts nx nx' \<Longrightarrow> decreasing nx \<Longrightarrow> length (chain nx' h) \<le> length (chain nx h)"
proof (induction h rule: less_induct)
  case (less h)
  show ?case
  proof (cases "0 < h \<and> h < length nx")
    case True
    moreover from True less.prems have "nx' ! h = nx ! h \<or> nx' ! h = 0" and "nx ! h < h"
      and "h < length nx'" by (auto simp: cuts_def decreasing_def)
    ultimately show ?thesis using less.IH [of "nx ! h"] less.prems cuts_decreasing [OF less.prems]
      by (auto simp: chain_step)
  next
    case False
    then have "chain nx' h = []" using less.prems by (subst chain.simps) (auto simp: cuts_def)
    then show ?thesis by simp
  qed
qed

lemma count_chain_ok:
  assumes "decreasing nx" and "0 < h" and "h < length nx" and "sz < maxChainLength"
  shows "\<exists>n nx'. count_chain sz nx h = Some (n, nx') \<and> cuts nx nx' \<and>
    sz + length (chain nx' h) \<le> n"
  using assms
proof (induction sz nx h rule: count_chain.induct)
  case (1 sz nx h)
  show ?case
  proof (cases "sz + 1 \<ge> maxChainLength")
    case True
    have "chain (nx[h := 0]) h = [h]"
      using "1.prems" cuts_decreasing [OF cuts_store] by (simp add: chain_step)
    then show ?thesis using True "1.prems" cuts_store
      by (subst count_chain.simps) (simp add: store_def)
  next
    case False
    have less: "nx ! h < h" using "1.prems" by (simp add: decreasing_def)
    show ?thesis
    proof (cases "nx ! h = 0")
      case True
      then show ?thesis using False "1.prems"
        by (subst count_chain.simps) (simp add: index_def chain_step)
    next
      case nz: False
      have "index nx h = Some (nx ! h)" using "1.prems" by (simp add: index_def)
      from "1.IH" [OF False this nz] nz less "1.prems" False obtain n nx' where
        IH: "count_chain (sz + 1) nx (nx ! h) = Some (n, nx')" "cuts nx nx'"
          "sz + 1 + length (chain nx' (nx ! h)) \<le> n" by auto
      then have "sz + length (chain nx' h) \<le> n"
        using "1.prems" cuts_decreasing [of nx nx']
        by (auto simp: chain_step cuts_def)
      with IH False nz "1.prems" show ?thesis
        by (subst count_chain.simps) (simp add: index_def)
    qed
  qed
qed

lemma countEntries_loop_ok:
  assumes "decreasing nx" and "list_all (\<lambda>h. h < length nx) hs"
  shows "\<exists>cnt' nx'. countEntries_loop hs nx cnt = Some (cnt', nx') \<and> cuts nx nx' \<and>
    cnt + sum_list (map (\<lambda>h. length (chain nx' h)) hs) \<le> cnt'"
  using assms
proof (induction hs arbitrary: nx cnt)
  case (Cons h hs)
  show ?case
  proof (cases "h = 0")
    case True
    then show ?thesis using Cons by simp
  next
    case False
    then obtain n nx1 where n: "count_chain 0 nx h = Some (n, nx1)" "cuts nx nx1"
      "length (chain nx1 h) \<le> n"
      using count_chain_ok [of nx h 0] Cons.prems by (auto simp: maxChainLength_def)
    have d: "decreasing nx1" "list_all (\<lambda>h. h < length nx1) hs"
      using cuts_decreasing [OF n(2)] Cons.prems n(2) by (auto simp: cuts_def)
    from Cons.IH [OF d, of "cnt + n"] obtain cnt' nx' where
      IH: "countEntries_loop hs nx1 (cnt + n) = Some (cnt', nx')" "cuts nx1 nx'"
        "cnt + n + sum_list (map (\<lambda>h. length (chain nx' h)) hs) \<le> cnt'" by blast
    moreover have "length (chain nx' h) \<le> n"
      using cuts_chain_le [OF IH(2) d(1), of h] n(3) by simp
    ultimately show ?thesis using False n cuts_trans [OF n(2) IH(2)] by simp
  qed
qed simp

lemma copy_chain_ok:
  assumes "decreasing nx" and "length es = length nx" and "0 < h" and "h < length nx"
    and "n + length (chain nx h) \<le> length ents"
  shows "\<exists>ents'. copy_chain es nx h ents n = Some (ents', n + length (chain nx h)) \<and>
    length ents' = length ents"
  using assms
proof (induction h arbitrary: ents n rule: less_induct)
  case (less h)
  have c: "chain nx h = h # chain nx (nx ! h)" and lt: "nx ! h < h"
    using less.prems by (simp_all add: chain_step decreasing_def)
  define ents1 where "ents1 = ents[n := es ! h]"
  have s: "index es h = Some (es ! h)" "index nx h = Some (nx ! h)"
    "store ents n (es ! h) = Some ents1"
    using less.prems c by (simp_all add: index_def store_def ents1_def)
  have l: "length ents1 = length ents" by (simp add: ents1_def)
  show ?case
  proof (cases "nx ! h = 0")
    case True
    then show ?thesis using s l c by (subst copy_chain.simps) simp
  next
    case False
    with less.IH [OF lt less.prems(1,2), of "n + 1" ents1] less.prems c lt l obtain ents' where
      "copy_chain es nx (nx ! h) ents1 (n + 1) = Some (ents', n + 1 + length (chain nx (nx ! h)))"
      "length ents' = length ents1" by auto
    then show ?thesis using s l c False by (subst copy_chain.simps) simp
  qed
qed

lemma copyEntries_loop_ok:
  assumes "decreasing nx" and "length es = length nx" and "list_all (\<lambda>h. h < length nx) hs"
    and "n + sum_list (map (\<lambda>h. length (chain nx h)) hs) \<le> length ents" and "0 < length ents"
  shows "\<exists>ts ents'. copyEntries_loop es nx hs ents n = Some (ts, ents') \<and>
    length ts = length hs \<and> length ents' = length ents \<and> list_all (\<lambda>t. t < length ents) ts"
  using assms(3-)
proof (induction hs arbitrary: ents n)
  case (Cons h hs)
  show ?case
  proof (cases "h = 0")
    case True
    with Cons.IH [of n ents] Cons.prems show ?thesis by auto
  next
    case False
    with assms Cons.prems have c: "0 < length (chain nx h)" by (simp add: chain_step)
    from False assms Cons.prems obtain ents1 where
      e: "copy_chain es nx h ents n = Some (ents1, n + length (chain nx h))" "length ents1 = length ents"
      using copy_chain_ok [of nx es h n ents] by auto
    moreover have "n < length ents" using c Cons.prems(2) unfolding list.map sum_list.Cons by linarith
    ultimately show ?thesis
      using Cons.IH [of "n + length (chain nx h)" ents1] Cons.prems False by auto
  qed
qed simp

subsection \<open>Scanning builds decreasing chains\<close>

definition scanner_ok :: "deltaIndexScanner \<Rightarrow> nat \<Rightarrow> bool" where
  "scanner_ok s left \<longleftrightarrow>
     length (s_table s) = s_mask s + 1 \<and> length (s_entries s) = length (s_next s) \<and>
     decreasing (s_next s) \<and> s_count s + left < length (s_next s) \<and>
     list_all (\<lambda>h. h \<le> s_count s) (s_table s)"

lemma and_nat_less: "(a AND m) < Suc m" for a m :: nat
proof -
  have "int (a AND m) \<le> int m" by (simp add: of_nat_and_eq)
  then show ?thesis by simp
qed

lemma scan_step_ok:
  assumes "scanner_ok s (Suc left)" and "ptr + 16 \<le> length buf"
  shows "\<exists>s' key. scan_step buf lastHash ptr s = Some (s', key) \<and> scanner_ok s' left \<and> s_mask s' = s_mask s"
proof -
  obtain key where key: "hashBlock buf ptr = Some key" using hashBlock_Some [OF assms(2)] by blast
  define i where "i = key AND s_mask s"
  have i: "i < length (s_table s)" using assms(1) and_nat_less [of key "s_mask s"]
    by (simp add: i_def scanner_ok_def)
  define head where "head = s_table s ! i"
  have head: "index (s_table s) i = Some head" "head \<le> s_count s"
    using i assms(1) by (simp_all add: head_def index_def scanner_ok_def list_all_length)
  have dec: "decreasing ((s_next s)[Suc (s_count s) := head])"
    using assms(1) head(2) by (auto simp: scanner_ok_def decreasing_def nth_list_update)
  have tab: "list_all (\<lambda>h. h \<le> Suc (s_count s)) ((s_table s)[i := Suc (s_count s)])"
    using assms(1) i by (auto simp: scanner_ok_def list_all_length nth_list_update intro: le_SucI)
  have "head < length (s_entries s)" "Suc (s_count s) < length (s_entries s)" "Suc (s_count s) < length (s_next s)"
    using assms(1) head(2) by (auto simp: scanner_ok_def)
  then show ?thesis using assms(1) key head i dec tab
    by (auto simp: scan_step_def i_def [symmetric] store_def scanner_ok_def)
qed

lemma scan_loop_ok:
  assumes "scanner_ok s (ptr div 16 + 1)" and "ptr + 16 \<le> length buf"
  shows "\<exists>s'. scan_loop buf lastHash ptr s = Some s' \<and> scanner_ok s' 0"
  using assms
proof (induction buf lastHash ptr s rule: scan_loop.induct)
  case (1 buf lastHash ptr s)
  then obtain s1 key where s1: "scan_step buf lastHash ptr s = Some (s1, key)" "scanner_ok s1 (ptr div 16)"
    using scan_step_ok [of s "ptr div 16" ptr buf lastHash] by auto
  show ?case
  proof (cases "ptr < 16")
    case True
    with s1 show ?thesis by (subst scan_loop.simps) simp
  next
    case False
    then have "(ptr - 16) div 16 + 1 = ptr div 16" by (simp add: le_div_geq)
    with "1.IH" [OF s1(1) refl False] s1 "1.prems"(2) False show ?thesis
      by (subst scan_loop.simps) auto
  qed
qed

lemma length_len8tab [simp]: "length len8tab = 256"
  by (simp add: len8tab_def)

lemma len8tab_pos: "0 < k \<Longrightarrow> k < 256 \<Longrightarrow> 0 < len8tab ! k"
proof -
  have "list_all (\<lambda>v. 0 < v) (tl len8tab)" by (simp add: len8tab_def list_all_iff)
  then show "0 < k \<Longrightarrow> k < 256 \<Longrightarrow> 0 < len8tab ! k"
    by (cases k) (auto simp: list_all_length nth_tl)
qed

lemma leadingZeros_ok:
  assumes "x \<noteq> 0"
  shows "\<exists>z. leadingZeros x = Some z \<and> z < 32"
proof -
  define x1 n1 where "x1 = (if x \<ge> 2 ^ 16 then drop_bit 16 x else x)"
    and "n1 = (if x \<ge> 2 ^ 16 then 16 else 0 :: nat)"
  define x2 n2 where "x2 = (if x1 \<ge> 2 ^ 8 then drop_bit 8 x1 else x1)"
    and "n2 = (if x1 \<ge> 2 ^ 8 then n1 + 8 else n1)"
  have x: "0 < unat x" "unat x < 2 ^ 32" using assms unsigned_less [of x, where 'a = nat]
    by (simp_all add: unat_gt_0)
  have x1: "unat x1 = (if 2 ^ 16 \<le> unat x then unat x div 2 ^ 16 else unat x)"
    unfolding x1_def by (auto simp: word_le_nat_alt unat_drop_bit_div)
  then have b1: "0 < unat x1" "unat x1 < 2 ^ 16"
    using x by (auto simp: div_greater_zero_iff less_mult_imp_div_less)
  have "unat x2 = (if 2 ^ 8 \<le> unat x1 then unat x1 div 2 ^ 8 else unat x1)"
    unfolding x2_def by (auto simp: word_le_nat_alt unat_drop_bit_div)
  then have b2: "0 < unat x2" "unat x2 < 256"
    using b1 by (auto simp: div_greater_zero_iff less_mult_imp_div_less)
  have e1: "(if x \<ge> 2 ^ 16 then (drop_bit 16 x, 16) else (x, 0)) = (x1, n1)"
    and e2: "(if x1 \<ge> 2 ^ 8 then (drop_bit 8 x1, n1 + 8) else (x1, n1)) = (x2, n2)"
    by (simp_all add: x1_def n1_def x2_def n2_def)
  have "leadingZeros x = Some (32 - (n2 + len8tab ! unat x2))"
    unfolding leadingZeros_def e1 Let_def prod.case e2 using b2 by (simp add: index_def)
  then show ?thesis using len8tab_pos [OF b2] by simp
qed

lemma tableSize_ok:
  assumes "0 < n" and "n < 2 ^ 32"
  shows "\<exists>ts. tableSize n = Some ts \<and> 0 < ts"
proof -
  have "unat (word_of_nat n :: u32) = n" using assms(2) by (simp add: unat_of_nat take_bit_nat_eq_self)
  then have "(word_of_nat n :: u32) \<noteq> 0" using assms(1) by auto
  from leadingZeros_ok [OF this] show ?thesis by (auto simp: tableSize_def Let_def)
qed

subsection \<open>The index of any source is well formed\<close>

definition index_ok :: "bytes \<Rightarrow> deltaIndex \<Rightarrow> bool" where
  "index_ok src idx \<longleftrightarrow> entries idx \<noteq> [] \<and> list_all (\<lambda>t. t < length (entries idx)) (table idx) \<and>
     (blksz \<le> length src \<longrightarrow> length (table idx) = mask' idx + 1)"

lemma newDeltaIndexScanner_ok:
  assumes "length src < 2 ^ 36"
  shows "\<exists>s. newDeltaIndexScanner src (length src) = Some s \<and> decreasing (s_next s) \<and>
    length (s_entries s) = length (s_next s) \<and> list_all (\<lambda>h. h < length (s_next s)) (s_table s) \<and>
    (blksz \<le> length src \<longrightarrow> length (s_table s) = s_mask s + 1)"
proof (cases "length src < 16")
  case True
  then show ?thesis by (simp add: newDeltaIndexScanner_def blksz_def Let_def decreasing_def)
next
  case False
  define w where "w = length src div 16"
  have w: "0 < w" "w < 2 ^ 32" using False assms by (auto simp: w_def)
  have sz: "length src - length src mod 16 = 16 * w" by (simp add: w_def minus_mod_eq_mult_div)
  from tableSize_ok [OF w] obtain ts where ts: "tableSize w = Some ts" "0 < ts" by blast
  define s0 where "s0 = \<lparr>s_table = replicate ts 0, s_entries = replicate (w + 1) 0,
    s_next = replicate (w + 1) 0, s_mask = ts - 1, s_count = 0\<rparr>"
  have "scanner_ok s0 w"
    using ts(2) by (simp add: s0_def scanner_ok_def decreasing_def list_all_iff nth_replicate)
  moreover have "(16 * w - 16) div 16 + 1 = w" using w(1) by simp
  moreover have "16 * w - 16 + 16 \<le> length src" using w(1) sz by simp
  ultimately obtain s where "scan_loop src 0 (16 * w - 16) s0 = Some s" "scanner_ok s 0"
    using scan_loop_ok [of s0 "16 * w - 16" src 0] by auto
  then show ?thesis using w(1) ts(1) sz
    by (auto simp: newDeltaIndexScanner_def scan_def blksz_def Let_def s0_def scanner_ok_def list_all_length
        intro: le_less_trans)
qed

lemma init_ok:
  assumes "length src < 2 ^ 36"
  shows "\<exists>idx. init src = Some idx \<and> index_ok src idx"
proof -
  from newDeltaIndexScanner_ok [OF assms] obtain s where s: "newDeltaIndexScanner src (length src) = Some s"
    "decreasing (s_next s)" "length (s_entries s) = length (s_next s)"
    "list_all (\<lambda>h. h < length (s_next s)) (s_table s)"
    "blksz \<le> length src \<longrightarrow> length (s_table s) = s_mask s + 1" by blast
  from countEntries_loop_ok [OF s(2,4), of 0] obtain cnt nx where
    c: "countEntries_loop (s_table s) (s_next s) 0 = Some (cnt, nx)" "cuts (s_next s) nx"
      "sum_list (map (\<lambda>h. length (chain nx h)) (s_table s)) \<le> cnt" by auto
  have "decreasing nx" "length (s_entries s) = length nx" "list_all (\<lambda>h. h < length nx) (s_table s)"
    using cuts_decreasing [OF c(2) s(2)] c(2) s(3,4) by (auto simp: cuts_def)
  from copyEntries_loop_ok [OF this, of 1 "replicate (cnt + 1) 0"] c(3) obtain ts es where
    "copyEntries_loop (s_entries s) nx (s_table s) (replicate (cnt + 1) 0) 1 = Some (ts, es)"
    "length ts = length (s_table s)" "length es = cnt + 1" "list_all (\<lambda>t. t < cnt + 1) ts" by auto
  then show ?thesis using s(1,5) c(1)
    by (auto simp: init_def countEntries_def copyEntries_def index_ok_def)
qed

subsection \<open>What a match promises\<close>

lemma matchLength_eq:
  "k < matchLength src tgt otgt osrc \<Longrightarrow>
     osrc + k < length src \<and> otgt + k < length tgt \<and> src ! (osrc + k) = tgt ! (otgt + k)"
proof (induction src tgt otgt osrc arbitrary: k rule: matchLength.induct)
  case (1 src tgt otgt osrc)
  then show ?case by (cases k) (auto simp: matchLength.simps [of src tgt otgt osrc] split: if_splits)
qed

lemma matchLength_slices:
  assumes "n = matchLength src tgt otgt osrc" and "0 < n"
  shows "osrc + n \<le> length src" "otgt + n \<le> length tgt" "take n (drop osrc src) = take n (drop otgt tgt)"
proof -
  from matchLength_eq [of "n - 1" src tgt otgt osrc] assms
  show b: "osrc + n \<le> length src" "otgt + n \<le> length tgt" by auto
  show "take n (drop osrc src) = take n (drop otgt tgt)"
    using b matchLength_eq assms(1) by (intro take_eq_by_nth) auto
qed

lemma findMatch_ok:
  assumes "index_ok src idx" and "i < length tgt"
  shows "\<exists>off l. findMatch idx src tgt i = Some (off, l) \<and> (l = -1 \<or> 0 \<le> l) \<and>
    i + nat l \<le> length tgt \<and>
    (16 \<le> l \<longrightarrow> off + nat l \<le> length src \<and> take (nat l) (drop off src) = take (nat l) (drop i tgt))"
proof (cases "length tgt < i + 16 \<or> length src < blksz")
  case True
  then show ?thesis using assms(2) by (auto simp: findMatch_def)
next
  case False
  then obtain h where h: "hashBlock tgt i = Some h" using hashBlock_Some [of i tgt] by auto
  define t where "t = h AND mask' idx"
  have t: "t < length (table idx)"
    using False assms(1) and_nat_less [of h "mask' idx"] by (simp add: index_ok_def t_def)
  define e where "e = table idx ! t"
  have e: "index (table idx) t = Some e" "index (entries idx) e = Some (entries idx ! e)"
    using t assms(1) by (auto simp: index_def e_def index_ok_def list_all_length)
  show ?thesis
  proof (cases "e = 0")
    case True
    then show ?thesis using False h e assms(2) by (simp add: findMatch_def t_def Let_def)
  next
    case nz: False
    define n where "n = matchLength src tgt i (entries idx ! e)"
    have "findMatch idx src tgt i = Some (entries idx ! e, int n)"
      using False h e nz by (simp add: findMatch_def t_def n_def Let_def)
    then show ?thesis using matchLength_slices [OF n_def] assms(2) by (cases "n = 0") auto
  qed
qed

end
