(* ===== verification/Delta_Patch.thy ===== *)
theory Delta_Patch
  imports Varint
begin

text \<open>
  Applying a delta: \<open>plumbing/format/packfile/patch_delta.go\<close>.

  The four loops over a delta's operations are modelled one by one, as the code has them:
  \<open>validateDeltaOps\<close> (no output), \<open>patchDelta\<close> (whole slices), the goroutine of
  \<open>ReaderFromDelta\<close> (a stream over a base that is read forwards and reopened to go back) and
  \<open>patchDeltaWriter\<close> (a section of a random-access base). Below them stands the abstract
  view of a delta, a list of copy and insert operations, and the lemmas that each loop
  implements it.

  \<open>uint\<close> is a 64-bit word, so the sums and differences of sizes wrap as in Go and the
  overflow checks of the code are needed. The bytes a stream has delivered before it fails
  are part of its result.
\<close>

datatype delta_error =
    ErrInvalidDelta
  | ErrDeltaCmd
  | InvalidDeltaHeader varint_error
  | DeltaEOF
  | HeaderWriteError
  | DeltaPanic

subsection \<open>Operation codes and their operands\<close>

definition minDeltaSize :: nat where "minDeltaSize = 2"

definition maxCopySize :: u64 where "maxCopySize = 64 * 1024"

definition isCopyFromSrc :: "byte \<Rightarrow> bool" where
  "isCopyFromSrc cmd \<longleftrightarrow> cmd AND 0x80 \<noteq> 0"

definition isCopyFromDelta :: "byte \<Rightarrow> bool" where
  "isCopyFromDelta cmd \<longleftrightarrow> cmd AND 0x80 = 0 \<and> cmd \<noteq> 0"

definition offsets :: "(byte \<times> nat) list" where
  "offsets = [(0x01, 0), (0x02, 8), (0x04, 16), (0x08, 24)]"

definition sizes :: "(byte \<times> nat) list" where
  "sizes = [(0x10, 0), (0x20, 8), (0x40, 16)]"

text \<open>The range loop of \<open>decodeOffset\<close> and \<open>decodeSize\<close>; \<open>e\<close> is the error at the end of the input.\<close>

fun decode_fields :: "delta_error \<Rightarrow> (byte \<times> nat) list \<Rightarrow> byte \<Rightarrow> bytes \<Rightarrow> u64
    \<Rightarrow> delta_error + u64 \<times> bytes" where
  "decode_fields e [] cmd delta acc = Inr (acc, delta)"
| "decode_fields e ((msk, shift) # fs) cmd delta acc =
     (if cmd AND msk \<noteq> 0 then
        (case delta of
           [] \<Rightarrow> Inl e
         | b # delta' \<Rightarrow> decode_fields e fs cmd delta' (acc OR push_bit shift (ucast b)))
      else decode_fields e fs cmd delta acc)"

definition decodeOffset :: "byte \<Rightarrow> bytes \<Rightarrow> delta_error + u64 \<times> bytes" where
  "decodeOffset cmd delta = decode_fields ErrInvalidDelta offsets cmd delta 0"

definition decodeSize :: "byte \<Rightarrow> bytes \<Rightarrow> delta_error + u64 \<times> bytes" where
  "decodeSize cmd delta =
     rbind (decode_fields ErrInvalidDelta sizes cmd delta 0)
       (\<lambda>(sz, delta). Inr (if sz = 0 then maxCopySize else sz, delta))"

definition decodeOffsetByteReader :: "byte \<Rightarrow> bytes \<Rightarrow> delta_error + u64 \<times> bytes" where
  "decodeOffsetByteReader cmd delta = decode_fields DeltaEOF offsets cmd delta 0"

definition decodeSizeByteReader :: "byte \<Rightarrow> bytes \<Rightarrow> delta_error + u64 \<times> bytes" where
  "decodeSizeByteReader cmd delta =
     rbind (decode_fields DeltaEOF sizes cmd delta 0)
       (\<lambda>(sz, delta). Inr (if sz = 0 then maxCopySize else sz, delta))"

definition invalidSize :: "u64 \<Rightarrow> u64 \<Rightarrow> bool" where
  "invalidSize sz remaining \<longleftrightarrow> sz > remaining"

definition sumOverflows :: "u64 \<Rightarrow> u64 \<Rightarrow> bool" where
  "sumOverflows a b \<longleftrightarrow> a + b < a"

definition invalidOffsetSize :: "u64 \<Rightarrow> u64 \<Rightarrow> u64 \<Rightarrow> bool" where
  "invalidOffsetSize offset sz srcSz \<longleftrightarrow> sumOverflows offset sz \<or> offset + sz > srcSz"

subsection \<open>The header sizes\<close>

definition decodeDeltaSize :: "bytes \<Rightarrow> delta_error + u64 \<times> bytes" where
  "decodeDeltaSize delta =
     (case DecodeLEB128 delta of
        Inl e \<Rightarrow> Inl (InvalidDeltaHeader e)
      | Inr (sz, rest) \<Rightarrow>
          (let consumed = length delta - length rest
           in if consumed \<le> 0 then Inl ErrInvalidDelta
              else (case index delta (consumed - 1) of
                      None \<Rightarrow> Inl DeltaPanic
                    | Some b \<Rightarrow> if b AND 0x80 \<noteq> 0 then Inl ErrInvalidDelta else Inr (sz, rest))))"

lemma decode_fields_length:
  "decode_fields e fs cmd delta acc = Inr (v, rest) \<Longrightarrow> length rest \<le> length delta"
  by (induction e fs cmd delta acc rule: decode_fields.induct)
    (auto split: if_splits list.splits)

lemma decodeOffset_length [termination_simp]:
  "decodeOffset cmd delta = Inr (v, rest) \<Longrightarrow> length rest \<le> length delta"
  by (simp add: decodeOffset_def decode_fields_length)

lemma decodeSize_length [termination_simp]:
  "decodeSize cmd delta = Inr (v, rest) \<Longrightarrow> length rest \<le> length delta"
  by (auto simp: decodeSize_def result_simps dest: decode_fields_length)

lemma decodeOffsetByteReader_length [termination_simp]:
  "decodeOffsetByteReader cmd delta = Inr (v, rest) \<Longrightarrow> length rest \<le> length delta"
  by (simp add: decodeOffsetByteReader_def decode_fields_length)

lemma decodeSizeByteReader_length [termination_simp]:
  "decodeSizeByteReader cmd delta = Inr (v, rest) \<Longrightarrow> length rest \<le> length delta"
  by (auto simp: decodeSizeByteReader_def result_simps dest: decode_fields_length)

subsection \<open>validateDeltaOps\<close>

text \<open>The loop, on the bytes of \<open>delta\<close> not consumed yet and the remaining target size.\<close>

function validateDeltaOps_loop :: "bytes \<Rightarrow> u64 \<Rightarrow> u64 \<Rightarrow> delta_error + unit" where
  "validateDeltaOps_loop delta srcSz remaining =
     (if remaining > 0 then
        (case delta of
           [] \<Rightarrow> Inl ErrInvalidDelta
         | cmd # delta1 \<Rightarrow>
             if isCopyFromSrc cmd then
               (case decodeOffset cmd delta1 of
                  Inl e \<Rightarrow> Inl e
                | Inr (offset, delta2) \<Rightarrow>
                    (case decodeSize cmd delta2 of
                       Inl e \<Rightarrow> Inl e
                     | Inr (sz, delta3) \<Rightarrow>
                         if invalidSize sz remaining \<or> invalidOffsetSize offset sz srcSz
                         then Inl ErrInvalidDelta
                         else validateDeltaOps_loop delta3 srcSz (remaining - sz)))
             else if isCopyFromDelta cmd then
               (let sz = ucast cmd :: u64
                in if invalidSize sz remaining then Inl ErrInvalidDelta
                   else if length delta1 < unat sz then Inl ErrInvalidDelta
                   else validateDeltaOps_loop (drop (unat sz) delta1) srcSz (remaining - sz))
             else Inl ErrDeltaCmd)
      else if delta \<noteq> [] then Inl ErrInvalidDelta
      else Inr ())"
  by pat_completeness auto
termination
  by (relation "measure (\<lambda>(delta, _, _). length delta)")
    (auto dest!: decodeOffset_length decodeSize_length)

declare validateDeltaOps_loop.simps [simp del]

definition validateDeltaOps :: "bytes \<Rightarrow> u64 \<Rightarrow> u64 \<Rightarrow> delta_error + unit" where
  "validateDeltaOps delta srcSz targetSz =
     (if targetSz > 2 ^ 63 - 1 then Inl ErrInvalidDelta
      else validateDeltaOps_loop delta srcSz targetSz)"

subsection \<open>patchDelta and PatchDelta\<close>

function patchDelta_loop :: "bytes \<Rightarrow> bytes \<Rightarrow> u64 \<Rightarrow> u64 \<Rightarrow> bytes \<Rightarrow> delta_error + bytes" where
  "patchDelta_loop src delta srcSz remaining dst =
     (if remaining > 0 then
        (case delta of
           [] \<Rightarrow> Inl ErrInvalidDelta
         | cmd # delta1 \<Rightarrow>
             if isCopyFromSrc cmd then
               (case decodeOffset cmd delta1 of
                  Inl e \<Rightarrow> Inl e
                | Inr (offset, delta2) \<Rightarrow>
                    (case decodeSize cmd delta2 of
                       Inl e \<Rightarrow> Inl e
                     | Inr (sz, delta3) \<Rightarrow>
                         if invalidSize sz remaining \<or> invalidOffsetSize offset sz srcSz
                         then Inl ErrInvalidDelta
                         else (case slice src (unat offset) (unat (offset + sz)) of
                                 None \<Rightarrow> Inl DeltaPanic
                               | Some s \<Rightarrow> patchDelta_loop src delta3 srcSz (remaining - sz) (dst @ s))))
             else if isCopyFromDelta cmd then
               (let sz = ucast cmd :: u64
                in if invalidSize sz remaining then Inl ErrInvalidDelta
                   else if length delta1 < unat sz then Inl ErrInvalidDelta
                   else patchDelta_loop src (drop (unat sz) delta1) srcSz (remaining - sz)
                          (dst @ take (unat sz) delta1))
             else Inl ErrDeltaCmd)
      else if delta \<noteq> [] then Inl ErrInvalidDelta
      else Inr dst)"
  by pat_completeness auto
termination
  by (relation "measure (\<lambda>(_, delta, _, _, _). length delta)")
    (auto dest!: decodeOffset_length decodeSize_length)

declare patchDelta_loop.simps [simp del]

text \<open>\<open>patchDelta\<close> appends to the buffer \<open>dst\<close>.\<close>

definition patchDelta :: "bytes \<Rightarrow> bytes \<Rightarrow> bytes \<Rightarrow> delta_error + bytes" where
  "patchDelta dst src delta =
     rbind (decodeDeltaSize delta) (\<lambda>(srcSz, delta).
     if srcSz \<noteq> word_of_nat (length src) then Inl ErrInvalidDelta
     else rbind (decodeDeltaSize delta) (\<lambda>(targetSz, delta).
          rbind (validateDeltaOps delta srcSz targetSz) (\<lambda>_.
          patchDelta_loop src delta srcSz targetSz dst)))"

definition PatchDelta :: "bytes \<Rightarrow> bytes \<Rightarrow> delta_error + bytes" where
  "PatchDelta src delta =
     (if length src = 0 \<or> length delta < minDeltaSize then Inl ErrInvalidDelta
      else patchDelta [] src delta)"

text \<open>
  \<open>ApplyDelta\<close> reads the whole base object and stores the result, with its size, in the
  target object.
\<close>

definition ApplyDelta :: "bytes \<Rightarrow> bytes \<Rightarrow> delta_error + bytes \<times> nat" where
  "ApplyDelta base delta = rbind (patchDelta [] base delta) (\<lambda>dst. Inr (dst, length dst))"

subsection \<open>ReaderFromDelta\<close>

text \<open>
  The base object: the size it reports, and what its readers deliver (\<open>None\<close> when \<open>Reader()\<close>
  fails).
\<close>

record base_object =
  Size :: nat
  content :: "bytes option"

text \<open>
  The goroutine. \<open>baseBuf\<close> is what the open reader of the base has left and \<open>basePos\<close> the
  position the code tracks; the two \<open>Discard\<close> loops skip \<open>discard\<close> bytes or fail at the end
  of the base. The result is the bytes written to the pipe and the error it is closed with.
\<close>

function ReaderFromDelta_loop :: "base_object \<Rightarrow> bytes \<Rightarrow> u64 \<Rightarrow> u64 \<Rightarrow> bytes \<Rightarrow> u64 \<Rightarrow> bytes
    \<Rightarrow> bytes \<times> delta_error option" where
  "ReaderFromDelta_loop base delta srcSz remaining baseBuf basePos dst =
     (if remaining > 0 then
        (case delta of
           [] \<Rightarrow> (dst, Some ErrInvalidDelta)
         | cmd # delta1 \<Rightarrow>
             if isCopyFromSrc cmd then
               (case decodeOffsetByteReader cmd delta1 of
                  Inl e \<Rightarrow> (dst, Some e)
                | Inr (offset, delta2) \<Rightarrow>
                    (case decodeSizeByteReader cmd delta2 of
                       Inl e \<Rightarrow> (dst, Some e)
                     | Inr (sz, delta3) \<Rightarrow>
                         if invalidSize sz remaining \<or> invalidOffsetSize offset sz srcSz
                         then (dst, Some ErrInvalidDelta)
                         else (case (if basePos > offset
                                     then map_option (\<lambda>c. (c, 0, offset)) (content base)
                                     else Some (baseBuf, basePos, offset - basePos)) of
                                 None \<Rightarrow> (dst, Some ErrInvalidDelta)
                               | Some (baseBuf', basePos', discard) \<Rightarrow>
                                   if length baseBuf' < unat discard then (dst, Some DeltaEOF)
                                   else let baseBuf'' = drop (unat discard) baseBuf';
                                            out = take (unat sz) baseBuf''
                                        in if word_of_nat (length out) \<noteq> sz
                                           then (dst @ out, Some ErrInvalidDelta)
                                           else ReaderFromDelta_loop base delta3 srcSz (remaining - sz)
                                                  (drop (unat sz) baseBuf'') (basePos' + discard + sz)
                                                  (dst @ out))))
             else if isCopyFromDelta cmd then
               (let sz = ucast cmd :: u64
                in if invalidSize sz remaining then (dst, Some ErrInvalidDelta)
                   else let out = take (unat sz) delta1
                        in if word_of_nat (length out) \<noteq> sz then (dst @ out, Some ErrInvalidDelta)
                           else ReaderFromDelta_loop base (drop (unat sz) delta1) srcSz (remaining - sz)
                                  baseBuf basePos (dst @ out))
             else (dst, Some ErrDeltaCmd))
      else if delta \<noteq> [] then (dst, Some ErrInvalidDelta)
      else (dst, None))"
  by pat_completeness auto
termination
  by (relation "measure (\<lambda>(_, delta, _). length delta)")
    (auto dest!: decodeOffsetByteReader_length decodeSizeByteReader_length)

declare ReaderFromDelta_loop.simps [simp del]

definition ReaderFromDelta :: "base_object \<Rightarrow> bytes \<Rightarrow> delta_error + bytes \<times> delta_error option" where
  "ReaderFromDelta base delta =
     (if length delta < minDeltaSize then Inl ErrInvalidDelta
      else rbind (decodeDeltaSize delta) (\<lambda>(srcSz, delta).
           if srcSz \<noteq> word_of_nat (Size base) then Inl ErrInvalidDelta
           else rbind (decodeDeltaSize delta) (\<lambda>(targetSz, delta).
                rbind (validateDeltaOps delta srcSz targetSz) (\<lambda>_.
                Inr (case content base of
                       None \<Rightarrow> ([], Some ErrInvalidDelta)
                     | Some c \<Rightarrow> ReaderFromDelta_loop base delta srcSz targetSz c 0 [])))))"

subsection \<open>patchDeltaWriter\<close>

text \<open>
  The base is read through a section of \<open>srcSz\<close> bytes; a copy delivers what the section holds.
\<close>

function patchDeltaWriter_loop :: "bytes \<Rightarrow> bytes \<Rightarrow> u64 \<Rightarrow> u64 \<Rightarrow> bytes \<Rightarrow> delta_error + bytes" where
  "patchDeltaWriter_loop sect delta srcSz remaining out =
     (if remaining > 0 then
        (case delta of
           [] \<Rightarrow> Inl ErrInvalidDelta
         | cmd # delta1 \<Rightarrow>
             if isCopyFromSrc cmd then
               (case decodeOffsetByteReader cmd delta1 of
                  Inl e \<Rightarrow> Inl e
                | Inr (offset, delta2) \<Rightarrow>
                    (case decodeSizeByteReader cmd delta2 of
                       Inl e \<Rightarrow> Inl e
                     | Inr (sz, delta3) \<Rightarrow>
                         if invalidSize sz remaining \<or> invalidOffsetSize offset sz srcSz
                         then Inl ErrInvalidDelta
                         else patchDeltaWriter_loop sect delta3 srcSz (remaining - sz)
                                (out @ take (unat sz) (drop (unat offset) sect))))
             else if isCopyFromDelta cmd then
               (let sz = ucast cmd :: u64
                in if invalidSize sz remaining then Inl ErrInvalidDelta
                   else patchDeltaWriter_loop sect (drop (unat sz) delta1) srcSz (remaining - sz)
                          (out @ take (unat sz) delta1))
             else Inl ErrDeltaCmd)
      else if delta \<noteq> [] then Inl ErrInvalidDelta
      else Inr out)"
  by pat_completeness auto
termination
  by (relation "measure (\<lambda>(_, delta, _, _, _). length delta)")
    (auto dest!: decodeOffsetByteReader_length decodeSizeByteReader_length)

declare patchDeltaWriter_loop.simps [simp del]

text \<open>
  \<open>writeHeader\<close> is the optional callback that writes the object header (\<open>True\<close>: it succeeded)
  and \<open>hash_of\<close> the object hash of a type, a size and a content, which
  \<open>plumbing.NewHasher\<close> takes from a hash library. The result is what was written to \<open>dst\<close>,
  the size and the hash.
\<close>

definition patchDeltaWriter :: "(int \<Rightarrow> u64 \<Rightarrow> bytes \<Rightarrow> 'h) \<Rightarrow> (int \<Rightarrow> u64 \<Rightarrow> bool) option
    \<Rightarrow> bytes \<Rightarrow> int \<Rightarrow> bytes \<Rightarrow> int \<Rightarrow> delta_error + bytes \<times> u64 \<times> 'h" where
  "patchDeltaWriter hash_of writeHeader base baseSz delta typ =
     (if length delta < minDeltaSize then Inl ErrInvalidDelta
      else rbind (decodeDeltaSize delta) (\<lambda>(srcSz, delta).
           if baseSz < 0 \<or> srcSz \<noteq> word_of_int baseSz then Inl ErrInvalidDelta
           else rbind (decodeDeltaSize delta) (\<lambda>(targetSz, delta).
                rbind (validateDeltaOps delta srcSz targetSz) (\<lambda>_.
                if (case writeHeader of None \<Rightarrow> True | Some f \<Rightarrow> f typ targetSz)
                then rbind (patchDeltaWriter_loop (take (unat srcSz) base) delta srcSz targetSz [])
                       (\<lambda>out. Inr (out, targetSz, hash_of typ targetSz out))
                else Inl HeaderWriteError))))"

subsection \<open>The abstract view: a delta is a list of operations\<close>

datatype delta_op = CopyOp nat nat | InsertOp bytes

fun op_size :: "delta_op \<Rightarrow> nat" where
  "op_size (CopyOp off sz) = sz"
| "op_size (InsertOp b) = length b"

fun op_fits :: "nat \<Rightarrow> delta_op \<Rightarrow> bool" where
  "op_fits n (CopyOp off sz) = (off + sz \<le> n)"
| "op_fits n (InsertOp b) = True"

fun op_out :: "bytes \<Rightarrow> delta_op \<Rightarrow> bytes" where
  "op_out src (CopyOp off sz) = take sz (drop off src)"
| "op_out src (InsertOp b) = b"

definition run_ops :: "bytes \<Rightarrow> delta_op list \<Rightarrow> bytes" where
  "run_ops src ops = concat (map (op_out src) ops)"

definition next_op :: "bytes \<Rightarrow> delta_error + delta_op \<times> bytes" where
  "next_op delta =
     (case delta of
        [] \<Rightarrow> Inl ErrInvalidDelta
      | cmd # d \<Rightarrow>
          if isCopyFromSrc cmd then
            rbind (decodeOffset cmd d) (\<lambda>(off, d).
            rbind (decodeSize cmd d) (\<lambda>(sz, d). Inr (CopyOp (unat off) (unat sz), d)))
          else if isCopyFromDelta cmd then
            (if length d < unat cmd then Inl ErrInvalidDelta
             else Inr (InsertOp (take (unat cmd) d), drop (unat cmd) d))
          else Inl ErrDeltaCmd)"

lemma next_op_length: "next_op delta = Inr (op', rest) \<Longrightarrow> length rest < length delta"
  by (auto simp: next_op_def result_simps split: list.splits if_splits
        dest!: decodeOffset_length decodeSize_length)

function parse_ops :: "bytes \<Rightarrow> delta_op list option" where
  "parse_ops delta =
     (if delta = [] then Some []
      else case next_op delta of
             Inl e \<Rightarrow> None
           | Inr (op', rest) \<Rightarrow> map_option (Cons op') (parse_ops rest))"
  by pat_completeness auto
termination by (relation "measure length") (auto dest: next_op_length)

declare parse_ops.simps [simp del]

lemma parse_ops_Nil [simp]: "parse_ops [] = Some []"
  by (simp add: parse_ops.simps)

lemma parse_ops_eq_Nil [simp]: "parse_ops delta = Some [] \<longleftrightarrow> delta = []"
  by (subst parse_ops.simps) (auto split: sum.splits)

lemma parse_ops_eq_Cons:
  "parse_ops delta = Some (op' # ops) \<longleftrightarrow>
     (\<exists>rest. next_op delta = Inr (op', rest) \<and> parse_ops rest = Some ops)"
proof (cases "delta = []")
  case True
  then show ?thesis by (simp add: next_op_def)
next
  case False
  then show ?thesis by (subst parse_ops.simps) (auto split: sum.splits)
qed

lemma size_operand_pos: "decodeSize cmd d = Inr (sz, rest) \<Longrightarrow> 0 < unat sz"
  by (auto simp: decodeSize_def result_simps maxCopySize_def unat_gt_0 split: if_splits)

lemma next_op_size_pos: "next_op delta = Inr (op', rest) \<Longrightarrow> 0 < op_size op'"
  by (auto simp: next_op_def result_simps isCopyFromDelta_def unat_gt_0 dest: size_operand_pos
        split: list.splits if_splits)

subsection \<open>Sizes as natural numbers\<close>

lemma invalidSize_iff: "invalidSize sz r \<longleftrightarrow> unat r < unat sz"
  by (simp add: invalidSize_def word_less_nat_alt)

lemma invalidOffsetSize_iff: "invalidOffsetSize off sz n \<longleftrightarrow> unat n < unat off + unat sz"
proof (cases "unat off + unat sz < 2 ^ 64")
  case True
  then have "unat (off + sz) = unat off + unat sz" by (simp add: unat_word_ariths)
  then show ?thesis by (simp add: invalidOffsetSize_def sumOverflows_def word_less_nat_alt)
next
  case False
  have b: "unat off < 2 ^ 64" "unat sz < 2 ^ 64" "unat n < 2 ^ 64"
    using unat_u64_less [of off] unat_u64_less [of sz] unat_u64_less [of n] by simp_all
  have "unat (off + sz) = (unat off + unat sz) mod 2 ^ 64" by (simp add: unat_word_ariths)
  also have "\<dots> = unat off + unat sz - 2 ^ 64" using False b by (simp add: mod_if)
  finally have "unat (off + sz) < unat off" using False b by simp
  then show ?thesis using False b
    by (simp add: invalidOffsetSize_def sumOverflows_def word_less_nat_alt)
qed

lemma fits_sum: "\<not> invalidOffsetSize off sz n \<Longrightarrow> unat (off + sz) = unat off + unat sz"
proof -
  assume "\<not> invalidOffsetSize off sz n"
  then have "unat off + unat sz < 2 ^ 64"
    using unat_u64_less [of n] by (simp add: invalidOffsetSize_iff)
  then show ?thesis by (simp add: unat_word_ariths)
qed

lemma unat_minus_size: "n \<le> unat r \<Longrightarrow> unat (r - word_of_nat n) = unat r - n" for r :: u64
proof -
  assume n: "n \<le> unat r"
  then have "unat (word_of_nat n :: u64) = n" using unat_u64_less [of r] by (simp add: unat_of_nat64)
  then show ?thesis using n by (subst unat_sub) (simp_all add: word_le_nat_alt)
qed

subsection \<open>Each loop in terms of the next operation\<close>

lemma not_both_codes: "isCopyFromSrc cmd \<Longrightarrow> \<not> isCopyFromDelta cmd"
  by (simp add: isCopyFromSrc_def isCopyFromDelta_def)

lemmas loop_facts = invalidSize_iff invalidOffsetSize_iff unat_ucast_byte word_less_nat_alt

lemma op_code_cases:
  obtains (copy_off) e where "isCopyFromSrc cmd" "decodeOffset cmd d = Inl e"
  | (copy_size) off d2 e where "isCopyFromSrc cmd" "decodeOffset cmd d = Inr (off, d2)"
      "decodeSize cmd d2 = Inl e"
  | (copy) off d2 sz d3 where "isCopyFromSrc cmd" "decodeOffset cmd d = Inr (off, d2)"
      "decodeSize cmd d2 = Inr (sz, d3)"
  | (insert) "\<not> isCopyFromSrc cmd" "isCopyFromDelta cmd"
  | (bad) "\<not> isCopyFromSrc cmd" "\<not> isCopyFromDelta cmd"
proof (cases "isCopyFromSrc cmd")
  case src: True
  show ?thesis
  proof (cases "decodeOffset cmd d")
    case (Inl e)
    with src show ?thesis by (rule copy_off)
  next
    case (Inr p)
    then obtain off d2 where o: "decodeOffset cmd d = Inr (off, d2)" by (cases p) simp
    show ?thesis
    proof (cases "decodeSize cmd d2")
      case (Inl e)
      with src o show ?thesis by (rule copy_size)
    next
      case (Inr q)
      then obtain sz d3 where "decodeSize cmd d2 = Inr (sz, d3)" by (cases q) simp
      with src o show ?thesis by (rule copy)
    qed
  qed
next
  case False
  then show ?thesis using insert bad by blast
qed

lemma validateDeltaOps_loop_next:
  "validateDeltaOps_loop delta srcSz r =
     (if r = 0 then if delta \<noteq> [] then Inl ErrInvalidDelta else Inr ()
      else case next_op delta of
             Inl e \<Rightarrow> Inl e
           | Inr (op', rest) \<Rightarrow>
               if unat r < op_size op' \<or> \<not> op_fits (unat srcSz) op' then Inl ErrInvalidDelta
               else validateDeltaOps_loop rest srcSz (r - word_of_nat (op_size op')))"
proof (cases "r = 0")
  case True
  then show ?thesis by (subst validateDeltaOps_loop.simps) simp
next
  case False
  then have r: "0 < r" by (simp add: word_gt_0)
  show ?thesis
  proof (cases delta)
    case Nil
    then show ?thesis using False r by (subst validateDeltaOps_loop.simps) (simp add: next_op_def)
  next
    case (Cons cmd d)
    show ?thesis using Cons False r
      by (cases rule: op_code_cases [of cmd d]) (subst validateDeltaOps_loop.simps,
          simp add: next_op_def loop_facts Let_def not_less)+
  qed
qed

lemma patchDelta_loop_next:
  assumes "unat srcSz = length src"
  shows "patchDelta_loop src delta srcSz r dst =
     (if r = 0 then if delta \<noteq> [] then Inl ErrInvalidDelta else Inr dst
      else case next_op delta of
             Inl e \<Rightarrow> Inl e
           | Inr (op', rest) \<Rightarrow>
               if unat r < op_size op' \<or> \<not> op_fits (length src) op' then Inl ErrInvalidDelta
               else patchDelta_loop src rest srcSz (r - word_of_nat (op_size op')) (dst @ op_out src op'))"
proof -
  have copy: "slice src (unat off) (unat (off + sz)) = Some (take (unat sz) (drop (unat off) src))"
    if "unat off + unat sz \<le> length src" for off sz :: u64
    using that assms fits_sum [of off sz srcSz] by (simp add: slice_def invalidOffsetSize_iff)
  show ?thesis
  proof (cases "r = 0")
    case True
    then show ?thesis by (subst patchDelta_loop.simps) simp
  next
    case False
    then have r: "0 < r" by (simp add: word_gt_0)
    show ?thesis
    proof (cases delta)
      case Nil
      then show ?thesis using False r by (subst patchDelta_loop.simps) (simp add: next_op_def)
    next
      case (Cons cmd d)
      show ?thesis using Cons False r
        by (cases rule: op_code_cases [of cmd d]) (subst patchDelta_loop.simps,
            simp add: next_op_def loop_facts Let_def assms copy not_less)+
    qed
  qed
qed

subsection \<open>Validation accepts exactly the operation lists that build the target\<close>

definition ops_build :: "nat \<Rightarrow> nat \<Rightarrow> delta_op list \<Rightarrow> bool" where
  "ops_build n r ops \<longleftrightarrow> list_all (op_fits n) ops \<and> sum_list (map op_size ops) = r"

lemma ops_build_Nil [simp]: "ops_build n r [] \<longleftrightarrow> r = 0"
  by (auto simp: ops_build_def)

lemma ops_build_Cons:
  "ops_build n r (op' # ops) \<longleftrightarrow> op_fits n op' \<and> op_size op' \<le> r \<and> ops_build n (r - op_size op') ops"
  by (auto simp: ops_build_def)

lemma run_ops_simps [simp]:
  "run_ops src [] = []" "run_ops src (op' # ops) = op_out src op' @ run_ops src ops"
  by (simp_all add: run_ops_def)

lemma length_run_ops: "ops_build (length src) r ops \<Longrightarrow> length (run_ops src ops) = r"
proof (induction ops arbitrary: r)
  case (Cons op' ops)
  then have "length (op_out src op') = op_size op'" by (cases op') (auto simp: ops_build_Cons)
  with Cons show ?case by (auto simp: ops_build_Cons)
qed simp

lemma ops_build_zero:
  "parse_ops delta = Some ops \<Longrightarrow> ops_build n 0 ops \<Longrightarrow> ops = []"
  by (cases ops) (auto simp: parse_ops_eq_Cons ops_build_Cons dest: next_op_size_pos)

lemma validateDeltaOps_loop_iff:
  "validateDeltaOps_loop delta srcSz r = Inr () \<longleftrightarrow>
     (\<exists>ops. parse_ops delta = Some ops \<and> ops_build (unat srcSz) (unat r) ops)"
proof (induction "length delta" arbitrary: delta r rule: less_induct)
  case less
  show ?case
  proof (cases "r = 0")
    case True
    moreover have "(\<exists>ops. parse_ops delta = Some ops \<and> ops_build (unat srcSz) 0 ops) \<longleftrightarrow> delta = []"
      by (metis ops_build_Nil ops_build_zero parse_ops_eq_Nil)
    ultimately show ?thesis by (subst validateDeltaOps_loop_next) simp
  next
    case False
    then have r: "0 < unat r" by (simp add: unat_gt_0)
    show ?thesis
    proof (cases "next_op delta")
      case (Inl e)
      then have "\<not> (\<exists>ops. parse_ops delta = Some ops \<and> ops_build (unat srcSz) (unat r) ops)"
        using r by (metis Inl_Inr_False neq_Nil_conv ops_build_Nil parse_ops_eq_Cons less_irrefl)
      with Inl False show ?thesis by (subst validateDeltaOps_loop_next) simp
    next
      case (Inr pr)
      obtain op' rest where pr: "pr = (op', rest)" by (cases pr)
      have IH: "validateDeltaOps_loop rest srcSz (r - word_of_nat (op_size op')) = Inr () \<longleftrightarrow>
          (\<exists>ops. parse_ops rest = Some ops \<and> ops_build (unat srcSz) (unat r - op_size op') ops)"
        if "op_size op' \<le> unat r"
        using less.hyps [of rest "r - word_of_nat (op_size op')"] Inr pr that
        by (simp add: next_op_length unat_minus_size)
      have "(\<exists>ops. parse_ops delta = Some ops \<and> ops_build (unat srcSz) (unat r) ops) \<longleftrightarrow>
          (\<exists>ops. parse_ops rest = Some ops \<and> op_fits (unat srcSz) op' \<and> op_size op' \<le> unat r \<and>
             ops_build (unat srcSz) (unat r - op_size op') ops)" (is "?L \<longleftrightarrow> ?R")
      proof
        assume ?L
        then obtain ops where o: "parse_ops delta = Some ops" "ops_build (unat srcSz) (unat r) ops" by blast
        then obtain x xs where "ops = x # xs" using r by (cases ops) auto
        with o Inr pr show ?R by (auto simp: parse_ops_eq_Cons ops_build_Cons)
      next
        assume ?R
        then obtain ops where "parse_ops delta = Some (op' # ops)" "ops_build (unat srcSz) (unat r) (op' # ops)"
          using Inr pr by (auto simp: parse_ops_eq_Cons ops_build_Cons)
        then show ?L by blast
      qed
      then show ?thesis using False Inr pr IH
        by (subst validateDeltaOps_loop_next) (auto simp: not_less)
    qed
  qed
qed

lemma patchDelta_loop_run:
  assumes "parse_ops delta = Some ops" and "ops_build (length src) (unat r) ops"
    and src: "unat srcSz = length src"
  shows "patchDelta_loop src delta srcSz r dst = Inr (dst @ run_ops src ops)"
  using assms(1,2)
proof (induction ops arbitrary: delta r dst)
  case Nil
  then show ?case by (subst patchDelta_loop_next [OF src]) (simp add: unat_eq_zero)
next
  case (Cons op' ops)
  then obtain rest where n: "next_op delta = Inr (op', rest)" and rest: "parse_ops rest = Some ops"
    by (auto simp: parse_ops_eq_Cons)
  have "r \<noteq> 0" using Cons.prems(2) next_op_size_pos [OF n] by (auto simp: ops_build_Cons)
  moreover have "ops_build (length src) (unat (r - word_of_nat (op_size op'))) ops"
    using Cons.prems(2) by (auto simp: ops_build_Cons unat_minus_size)
  ultimately show ?case using n Cons.prems(2) Cons.IH [OF rest]
    by (subst patchDelta_loop_next [OF src]) (auto simp: ops_build_Cons)
qed

subsection \<open>The streaming loops run the same operations\<close>

lemma decode_fields_error:
  "decode_fields e fs cmd d acc = Inr x \<Longrightarrow> decode_fields e' fs cmd d acc = Inr x"
  by (induction e fs cmd d acc rule: decode_fields.induct) (auto split: list.splits if_splits)

lemma decodeOffsetByteReader_eq:
  "decodeOffset cmd d = Inr x \<Longrightarrow> decodeOffsetByteReader cmd d = Inr x"
  unfolding decodeOffset_def decodeOffsetByteReader_def by (rule decode_fields_error)

lemma decodeSizeByteReader_eq:
  "decodeSize cmd d = Inr x \<Longrightarrow> decodeSizeByteReader cmd d = Inr x"
proof (cases "decode_fields ErrInvalidDelta sizes cmd d 0")
  case (Inr p)
  then have "decode_fields DeltaEOF sizes cmd d 0 = Inr p" by (rule decode_fields_error)
  with Inr show "decodeSize cmd d = Inr x \<Longrightarrow> decodeSizeByteReader cmd d = Inr x"
    by (simp add: decodeSize_def decodeSizeByteReader_def)
qed (simp add: decodeSize_def)

lemma next_op_cases:
  assumes "next_op delta = Inr (op', rest)"
  obtains (copy) cmd d off d2 sz where "delta = cmd # d" "isCopyFromSrc cmd"
    "op' = CopyOp (unat off) (unat sz)"
    "decodeOffsetByteReader cmd d = Inr (off, d2)" "decodeSizeByteReader cmd d2 = Inr (sz, rest)"
  | (insert) cmd d where "delta = cmd # d" "\<not> isCopyFromSrc cmd" "isCopyFromDelta cmd"
    "unat cmd \<le> length d" "op' = InsertOp (take (unat cmd) d)" "rest = drop (unat cmd) d"
proof (cases delta)
  case Nil
  with assms show ?thesis by (simp add: next_op_def)
next
  case (Cons cmd d)
  show ?thesis
  proof (cases rule: op_code_cases [of cmd d])
    case (copy off d2 sz d3)
    with assms Cons show ?thesis using that(1) [OF Cons, of off sz d2]
      by (simp add: next_op_def decodeOffsetByteReader_eq decodeSizeByteReader_eq)
  next
    case insert
    with assms Cons show ?thesis using that(2) [OF Cons]
      by (simp add: next_op_def split: if_splits)
  qed (use assms Cons in \<open>simp_all add: next_op_def\<close>)
qed

text \<open>Whichever branch positions the base reader, it ends at the offset of the copy.\<close>

lemma seek_base:
  fixes off basePos :: u64
  assumes "content base = Some src" and "baseBuf = drop (unat basePos) src"
    and "unat off \<le> length src"
  obtains buf pos discard where
    "(if basePos > off then map_option (\<lambda>c. (c, 0, off)) (content base)
      else Some (baseBuf, basePos, off - basePos)) = Some (buf, pos, discard)"
    "unat discard \<le> length buf" "drop (unat discard) buf = drop (unat off) src" "pos + discard = off"
proof (cases "basePos > off")
  case True
  then show ?thesis using that [of src 0 off] assms by simp
next
  case False
  then have le: "unat basePos \<le> unat off" by (simp add: word_less_nat_alt not_less)
  then have "unat (off - basePos) = unat off - unat basePos"
    by (simp add: unat_sub word_le_nat_alt)
  then show ?thesis using that [of baseBuf basePos "off - basePos"] False le assms by simp
qed

lemma ReaderFromDelta_loop_run:
  assumes "parse_ops delta = Some ops" and "ops_build (length src) (unat r) ops"
    and "baseBuf = drop (unat basePos) src"
    and src: "content base = Some src" "unat srcSz = length src"
  shows "ReaderFromDelta_loop base delta srcSz r baseBuf basePos dst = (dst @ run_ops src ops, None)"
  using assms(1-3)
proof (induction ops arbitrary: delta r baseBuf basePos dst)
  case Nil
  then show ?case by (subst ReaderFromDelta_loop.simps) (simp add: unat_eq_zero)
next
  case (Cons op' ops)
  then obtain rest where n: "next_op delta = Inr (op', rest)" and rest: "parse_ops rest = Some ops"
    by (auto simp: parse_ops_eq_Cons)
  from Cons.prems(2) have fits: "op_fits (length src) op'" "op_size op' \<le> unat r"
    and build: "ops_build (length src) (unat (r - word_of_nat (op_size op'))) ops"
    by (auto simp: ops_build_Cons unat_minus_size)
  have r: "0 < r" using fits next_op_size_pos [OF n] by (simp add: word_gt_0) force
  note IH = Cons.IH [OF rest build]
  show ?case using n
  proof (cases rule: next_op_cases)
    case (copy cmd d off d2 sz)
    with fits have le: "unat off + unat sz \<le> length src" "unat sz \<le> unat r" by simp_all
    then have "unat off \<le> length src" by simp
    from seek_base [OF src(1) Cons.prems(3) this] obtain buf pos discard where
      seek: "(if basePos > off then map_option (\<lambda>c. (c, 0, off)) (content base)
        else Some (baseBuf, basePos, off - basePos)) = Some (buf, pos, discard)"
      "unat discard \<le> length buf" "drop (unat discard) buf = drop (unat off) src" "pos + discard = off"
      by blast
    have "unat (off + sz) = unat off + unat sz"
      using fits_sum [of off sz srcSz] le(1) src(2) by (simp add: invalidOffsetSize_iff)
    then have "drop (unat sz) (drop (unat off) src) = drop (unat (off + sz)) src"
      by (simp add: add.commute)
    with copy le r seek IH show ?thesis
      by (subst ReaderFromDelta_loop.simps) (simp add: invalidSize_iff invalidOffsetSize_iff src(2))
  next
    case (insert cmd d)
    with fits r IH [OF Cons.prems(3)] show ?thesis
      by (subst ReaderFromDelta_loop.simps)
        (simp add: invalidSize_iff unat_ucast_byte min_absorb2)
  qed
qed

lemma patchDeltaWriter_loop_run:
  assumes "parse_ops delta = Some ops" and "ops_build (length sect) (unat r) ops"
    and src: "unat srcSz = length sect"
  shows "patchDeltaWriter_loop sect delta srcSz r out = Inr (out @ run_ops sect ops)"
  using assms(1,2)
proof (induction ops arbitrary: delta r out)
  case Nil
  then show ?case by (subst patchDeltaWriter_loop.simps) (simp add: unat_eq_zero)
next
  case (Cons op' ops)
  then obtain rest where n: "next_op delta = Inr (op', rest)" and rest: "parse_ops rest = Some ops"
    by (auto simp: parse_ops_eq_Cons)
  from Cons.prems(2) have fits: "op_fits (length sect) op'" "op_size op' \<le> unat r"
    and build: "ops_build (length sect) (unat (r - word_of_nat (op_size op'))) ops"
    by (auto simp: ops_build_Cons unat_minus_size)
  have r: "0 < r" using fits next_op_size_pos [OF n] by (simp add: word_gt_0) force
  show ?case using n
  proof (cases rule: next_op_cases)
    case (copy cmd d off d2 sz)
    with fits r Cons.IH [OF rest build] show ?thesis
      by (subst patchDeltaWriter_loop.simps) (simp add: invalidSize_iff invalidOffsetSize_iff src)
  next
    case (insert cmd d)
    with fits r Cons.IH [OF rest build] show ?thesis
      by (subst patchDeltaWriter_loop.simps) (simp add: invalidSize_iff unat_ucast_byte min_absorb2)
  qed
qed

subsection \<open>What the appliers compute\<close>

text \<open>
  The abstract specification: the header announces the sizes of source and target, and the
  operations that follow stay inside the source and build a target of the announced size.
\<close>

definition delta_describes :: "bytes \<Rightarrow> bytes \<Rightarrow> bytes \<Rightarrow> bool" where
  "delta_describes delta src tgt \<longleftrightarrow>
     (\<exists>d1 d2 ops. decodeDeltaSize delta = Inr (word_of_nat (length src), d1) \<and>
        decodeDeltaSize d1 = Inr (word_of_nat (length tgt), d2) \<and>
        parse_ops d2 = Some ops \<and> list_all (op_fits (length src)) ops \<and>
        tgt = run_ops src ops \<and> length tgt < 2 ^ 63)"

text \<open>What all appliers do after the header: validate, then run the parsed operations.\<close>

definition delta_result :: "bytes \<Rightarrow> bytes \<Rightarrow> delta_error + u64 \<times> bytes" where
  "delta_result src delta =
     rbind (decodeDeltaSize delta) (\<lambda>(srcSz, delta).
     if srcSz \<noteq> word_of_nat (length src) then Inl ErrInvalidDelta
     else rbind (decodeDeltaSize delta) (\<lambda>(targetSz, delta).
          rbind (validateDeltaOps delta srcSz targetSz) (\<lambda>_.
          Inr (targetSz, run_ops src (the (parse_ops delta))))))"

lemma validateDeltaOps_ok:
  "validateDeltaOps delta srcSz targetSz = Inr u \<Longrightarrow>
     \<exists>ops. parse_ops delta = Some ops \<and> ops_build (unat srcSz) (unat targetSz) ops"
  by (cases u) (simp add: validateDeltaOps_def validateDeltaOps_loop_iff split: if_splits)

lemma patchDelta_result:
  assumes "length src < 2 ^ 64"
  shows "patchDelta dst src delta = rbind (delta_result src delta) (\<lambda>(_, out). Inr (dst @ out))"
proof -
  have "rbind (validateDeltaOps d (word_of_nat (length src)) t) (\<lambda>_.
      patchDelta_loop src d (word_of_nat (length src)) t dst)
    = rbind (validateDeltaOps d (word_of_nat (length src)) t) (\<lambda>_.
      Inr (dst @ run_ops src (the (parse_ops d))))" for d t
    using assms by (cases "validateDeltaOps d (word_of_nat (length src)) t")
      (auto dest!: validateDeltaOps_ok simp: unat_of_nat64 patchDelta_loop_run)
  then show ?thesis
    by (auto simp: patchDelta_def delta_result_def rbind_assoc split_beta intro!: rbind_cong)
qed

lemma validateDeltaOps_describes:
  assumes "length src < 2 ^ 63"
  shows "validateDeltaOps d (word_of_nat (length src)) t = Inr () \<and>
      tgt = run_ops src (the (parse_ops d)) \<longleftrightarrow>
    (\<exists>ops. t = word_of_nat (length tgt) \<and> parse_ops d = Some ops \<and> list_all (op_fits (length src)) ops \<and>
      tgt = run_ops src ops \<and> length tgt < 2 ^ 63)" (is "?L \<longleftrightarrow> ?R")
proof
  assume L: ?L
  then obtain ops where ops: "parse_ops d = Some ops" "ops_build (length src) (unat t) ops"
    using assms by (auto dest!: validateDeltaOps_ok simp: unat_of_nat64)
  moreover have "t \<le> 2 ^ 63 - 1" using L by (simp add: validateDeltaOps_def split: if_splits)
  then have "unat t < 2 ^ 63" by (simp add: word_le_nat_alt)
  moreover have "length tgt = unat t" using ops L by (simp add: length_run_ops)
  ultimately show ?R using L by (auto simp: ops_build_def)
next
  assume ?R
  then obtain ops where ops: "t = word_of_nat (length tgt)" "parse_ops d = Some ops"
    "list_all (op_fits (length src)) ops" "tgt = run_ops src ops" "length tgt < 2 ^ 63" by blast
  have t: "unat t = length tgt" using ops(1,5) by (simp add: unat_of_nat64)
  have "ops_build (length src) (sum_list (map op_size ops)) ops" using ops(3) by (simp add: ops_build_def)
  with length_run_ops [OF this] have "ops_build (length src) (unat t) ops" using ops(4) t by simp
  moreover have "t \<le> 2 ^ 63 - 1" using t ops(5) by (simp add: word_le_nat_alt)
  ultimately show ?L using ops(2,4) assms
    by (auto simp: validateDeltaOps_def validateDeltaOps_loop_iff unat_of_nat64)
qed

lemma decodeDeltaSize_consumes:
  "decodeDeltaSize d = Inr (x, rest) \<Longrightarrow> length rest < length d"
  by (auto simp: decodeDeltaSize_def Let_def split: sum.splits if_splits option.splits)

lemma patchDelta_describes:
  assumes "length src < 2 ^ 63"
  shows "patchDelta [] src delta = Inr tgt \<longleftrightarrow> delta_describes delta src tgt"
proof -
  have "patchDelta [] src delta = Inr tgt \<longleftrightarrow>
    (\<exists>d1 t d2. decodeDeltaSize delta = Inr (word_of_nat (length src), d1) \<and> decodeDeltaSize d1 = Inr (t, d2) \<and>
      validateDeltaOps d2 (word_of_nat (length src)) t = Inr () \<and> tgt = run_ops src (the (parse_ops d2)))"
    using assms by (auto simp: patchDelta_result delta_result_def result_simps split_beta)
  also have "\<dots> \<longleftrightarrow> delta_describes delta src tgt"
    unfolding validateDeltaOps_describes [OF assms] delta_describes_def by blast
  finally show ?thesis .
qed

lemma delta_describes_length: "delta_describes delta src tgt \<Longrightarrow> 2 \<le> length delta"
  by (auto simp: delta_describes_def dest!: decodeDeltaSize_consumes)

text \<open>
  \<^bold>\<open>C10\<close>. \<open>PatchDelta\<close> is correct and complete: it returns \<open>tgt\<close> exactly when the source is not
  empty and the delta describes \<open>tgt\<close> in terms of the source. A delta that advertises another
  source or target size, copies outside the source, uses the reserved command 0, is cut short
  or has bytes left over is refused. The bound is that of a Go slice.
\<close>

theorem PatchDelta_iff_describes:
  assumes "length src < 2 ^ 63"
  shows "PatchDelta src delta = Inr tgt \<longleftrightarrow> src \<noteq> [] \<and> delta_describes delta src tgt"
  using patchDelta_describes [OF assms, of delta tgt] delta_describes_length [of delta src tgt]
  by (auto simp: PatchDelta_def minDeltaSize_def)

lemma PatchDelta_iff_describes_witness:
  "length [1, 2, 3 :: byte] < 2 ^ 63 \<and>
   (PatchDelta [1, 2, 3] [3, 4, 0x91, 1, 2, 2, 7, 8] = Inr [2, 3, 7, 8] \<longleftrightarrow>
      [1, 2, 3 :: byte] \<noteq> [] \<and> delta_describes [3, 4, 0x91, 1, 2, 2, 7, 8] [1, 2, 3] [2, 3, 7, 8])"
  using PatchDelta_iff_describes [of "[1, 2, 3]" "[3, 4, 0x91, 1, 2, 2, 7, 8]" "[2, 3, 7, 8]"] by simp

text \<open>
  \<^bold>\<open>C11\<close>. The three ways to apply a delta agree, results and errors: on a base whose reader
  delivers what its size announces, \<open>ReaderFromDelta\<close> streams, and \<open>patchDeltaWriter\<close> writes,
  exactly what \<open>patchDelta\<close> builds in memory, with no error once the stream has started.
\<close>

theorem delta_appliers_agree:
  assumes "length src < 2 ^ 63" and "2 \<le> length delta"
  shows "ReaderFromDelta \<lparr>Size = length src, content = Some src\<rparr> delta =
      rbind (patchDelta [] src delta) (\<lambda>out. Inr (out, None)) \<and>
    patchDeltaWriter hash_of None (src @ extra) (int (length src)) delta typ =
      rbind (patchDelta [] src delta)
        (\<lambda>out. Inr (out, word_of_nat (length out), hash_of typ (word_of_nat (length out)) out))"
proof (rule conjI)
  have n: "unat (word_of_nat (length src) :: u64) = length src" using assms(1) by (simp add: unat_of_nat64)
  have len: "length src < 2 ^ 64" using assms(1) by simp
  have R: "ReaderFromDelta_loop \<lparr>Size = length src, content = Some src\<rparr> d (word_of_nat (length src)) t src 0 []
      = (run_ops src (the (parse_ops d)), None)"
    if "validateDeltaOps d (word_of_nat (length src)) t = Inr u" for d t u
    using that n by (auto dest!: validateDeltaOps_ok simp: ReaderFromDelta_loop_run)
  show "ReaderFromDelta \<lparr>Size = length src, content = Some src\<rparr> delta =
      rbind (patchDelta [] src delta) (\<lambda>out. Inr (out, None))"
    using assms(2) R
    by (auto simp: ReaderFromDelta_def minDeltaSize_def patchDelta_result [OF len] delta_result_def
        rbind_assoc split_beta intro!: rbind_cong)
  have W: "patchDeltaWriter_loop src d (word_of_nat (length src)) t []
        = Inr (run_ops src (the (parse_ops d)))"
      and L: "t = word_of_nat (length (run_ops src (the (parse_ops d))))"
    if "validateDeltaOps d (word_of_nat (length src)) t = Inr u" for d t u
    using that n by (auto dest!: validateDeltaOps_ok simp: patchDeltaWriter_loop_run length_run_ops)
  show "patchDeltaWriter hash_of None (src @ extra) (int (length src)) delta typ =
      rbind (patchDelta [] src delta)
        (\<lambda>out. Inr (out, word_of_nat (length out), hash_of typ (word_of_nat (length out)) out))"
    using assms(2) W n
    by (auto simp: patchDeltaWriter_def minDeltaSize_def patchDelta_result [OF len] delta_result_def
        rbind_assoc split_beta L [symmetric] intro!: rbind_cong)
qed

lemma delta_appliers_agree_witness:
  "length [1, 2, 3 :: byte] < 2 ^ 63 \<and> 2 \<le> length [3, 4, 0x91, 1, 2, 2, 7, 8 :: byte] \<and>
   ReaderFromDelta \<lparr>Size = length [1, 2, 3 :: byte], content = Some [1, 2, 3]\<rparr> [3, 4, 0x91, 1, 2, 2, 7, 8] =
     rbind (patchDelta [] [1, 2, 3] [3, 4, 0x91, 1, 2, 2, 7, 8]) (\<lambda>out. Inr (out, None))"
  using delta_appliers_agree [of "[1, 2, 3]" "[3, 4, 0x91, 1, 2, 2, 7, 8]" "\<lambda>_ _ _. ()" "[]" 3]
  by simp

lemma patchDelta_never_panics:
  assumes "length src < 2 ^ 63"
  shows "patchDelta dst src delta \<noteq> Inl DeltaPanic"
proof -
  have d: "decodeDeltaSize x \<noteq> Inl DeltaPanic" for x
    by (auto simp: decodeDeltaSize_def index_def Let_def split: sum.splits if_splits)
  have f: "decode_fields ErrInvalidDelta fs cmd x acc \<noteq> Inl DeltaPanic" for fs cmd x acc
    by (induction ErrInvalidDelta fs cmd x acc rule: decode_fields.induct) (auto split: list.splits)
  have o: "next_op x \<noteq> Inl DeltaPanic" for x
    using f by (auto simp: next_op_def decodeOffset_def decodeSize_def result_simps split: list.splits)
  have v: "validateDeltaOps_loop x n r \<noteq> Inl DeltaPanic" for x n r
  proof (induction "length x" arbitrary: x r rule: less_induct)
    case less
    show ?case using o [of x] less.hyps
      by (subst validateDeltaOps_loop_next) (auto dest: next_op_length split: sum.splits)
  qed
  show ?thesis using assms d v
    by (auto simp: patchDelta_result delta_result_def result_simps validateDeltaOps_def split_beta
        split: if_splits)
qed

end
