(* ===== verification/Delta_Diff.thy ===== *)
theory Delta_Diff
  imports Delta_Index Delta_Patch
begin

text \<open>
  Computing a delta: \<open>plumbing/format/packfile/diff_delta.go\<close>, on top of the block index of
  \<open>Delta_Index\<close>. \<open>None\<close> is again a panic. The main results: \<open>DiffDelta\<close> returns for every source
  below 4 GiB, and \<open>PatchDelta\<close> applied to its result gives the target back.
\<close>

subsection \<open>Encoding the operations\<close>

text \<open>
  One iteration of the loops of \<open>encodeCopyOperation\<close>: operand byte \<open>i\<close> of \<open>v\<close>, announced by
  the bit \<open>flag << i\<close> of the command; the state is the command and the operands so far.
\<close>

definition copy_field :: "u64 \<Rightarrow> byte \<Rightarrow> nat \<Rightarrow> byte \<times> bytes \<Rightarrow> byte \<times> bytes" where
  "copy_field v flag i st =
     (case st of (code, opcodes) \<Rightarrow>
        let f = push_bit (i * 8) 0xff :: u64
        in if v AND f \<noteq> 0
           then (code OR push_bit i flag, opcodes @ [ucast (drop_bit (i * 8) (v AND f))])
           else (code, opcodes))"

definition encodeCopyOperation :: "nat \<Rightarrow> nat \<Rightarrow> bytes" where
  "encodeCopyOperation offset len =
     (let st = fold (copy_field (word_of_nat offset) 0x01) [0..<4] (0x80, []);
          (code, opcodes) = fold (copy_field (word_of_nat len) 0x10) [0..<3] st
      in code # opcodes)"

text \<open>The loop of \<open>encodeInsertOperation\<close>: literal runs of at most 127 bytes.\<close>

function insert_runs :: "bytes \<Rightarrow> bytes" where
  "insert_runs b =
     (if length b > 127 then 127 # take 127 b @ insert_runs (drop 127 b)
      else word_of_nat (length b) # b)"
  by pat_completeness auto
termination by (relation "measure length") auto

declare insert_runs.simps [simp del]

text \<open>\<open>(ibuf, buf)\<close> after the call: the pending literals are flushed and reset.\<close>

definition encodeInsertOperation :: "bytes \<Rightarrow> bytes \<Rightarrow> bytes \<times> bytes" where
  "encodeInsertOperation ibuf buf =
     (if length ibuf = 0 then (ibuf, buf) else ([], buf @ insert_runs ibuf))"

text \<open>The loop that cuts a match into copies of at most 64 KiB.\<close>

function copy_runs :: "nat \<Rightarrow> nat \<Rightarrow> bytes" where
  "copy_runs aOffset rl =
     (if rl > 0 then
        if rl < 65536 then encodeCopyOperation aOffset rl
        else encodeCopyOperation aOffset 65536 @ copy_runs (aOffset + 65536) (rl - 65536)
      else [])"
  by pat_completeness auto
termination by (relation "measure snd") auto

declare copy_runs.simps [simp del]

subsection \<open>diffDelta and DiffDelta\<close>

text \<open>
  The loop over the target, at position \<open>i\<close>, with the pending literals and the output. A
  match is shorter than \<open>blksz\<close> at the end of the target, or when only the hashes agree.
\<close>

function diffDelta_loop :: "deltaIndex \<Rightarrow> bytes \<Rightarrow> bytes \<Rightarrow> nat \<Rightarrow> bytes \<Rightarrow> bytes \<Rightarrow> (bytes \<times> bytes) option" where
  "diffDelta_loop idx src tgt i ibuf buf =
     (if i < length tgt then
        (case findMatch idx src tgt i of
           None \<Rightarrow> None
         | Some (offset, l) \<Rightarrow>
             if l = 0 then diffDelta_loop idx src tgt (Suc i) (ibuf @ [tgt ! i]) buf
             else if l < 0 then Some (ibuf @ drop i tgt, buf)
             else if l < 16 then
               (case slice tgt i (i + nat l) of
                  None \<Rightarrow> None
                | Some lits \<Rightarrow> diffDelta_loop idx src tgt (i + nat l) (ibuf @ lits) buf)
             else
               let (ibuf', buf') = encodeInsertOperation ibuf buf
               in diffDelta_loop idx src tgt (i + nat l) ibuf' (buf' @ copy_runs offset (nat l)))
      else Some (ibuf, buf))"
  by pat_completeness auto
termination by (relation "measure (\<lambda>(idx, src, tgt, i, ibuf, buf). length tgt - i)") auto

declare diffDelta_loop.simps [simp del]

text \<open>The index is shared between calls: the result holds the index as the call leaves it.\<close>

definition diffDelta :: "deltaIndex \<Rightarrow> bytes \<Rightarrow> bytes \<Rightarrow> (deltaIndex \<times> bytes) option" where
  "diffDelta idx src tgt =
     do { let buf = EncodeLEB128 (word_of_nat (length src)) @ EncodeLEB128 (word_of_nat (length tgt));
          idx' \<leftarrow> (if length (entries idx) = 0 then init src else Some idx);
          (ibuf, buf') \<leftarrow> diffDelta_loop idx' src tgt 0 [] buf;
          Some (idx', snd (encodeInsertOperation ibuf buf')) }"

definition DiffDelta :: "bytes \<Rightarrow> bytes \<Rightarrow> bytes option" where
  "DiffDelta src tgt = map_option snd (diffDelta new_deltaIndex src tgt)"

subsection \<open>A copy operation reads back\<close>

definition field_byte :: "u64 \<Rightarrow> nat \<Rightarrow> byte" where
  "field_byte v i = ucast (drop_bit (i * 8) (v AND push_bit (i * 8) 255))"

definition has_field :: "u64 \<Rightarrow> nat \<Rightarrow> bool" where
  "has_field v i \<longleftrightarrow> v AND push_bit (i * 8) 255 \<noteq> 0"

lemma fold_copy_field:
  "fold (copy_field v flag) is (code, ops) =
     (fold (\<lambda>i c. if has_field v i then c OR push_bit i flag else c) is code,
      ops @ map (field_byte v) (filter (has_field v) is))"
  by (induction "is" arbitrary: code ops)
    (simp_all add: copy_field_def has_field_def field_byte_def Let_def)

lemma push_field_byte: "i < 8 \<Longrightarrow> push_bit (i * 8) (ucast (field_byte v i)) = v AND push_bit (i * 8) 255"
proof -
  assume "i < 8"
  have 255: "bit (255 :: u64) n \<longleftrightarrow> n < 8" for n
  proof -
    have "(255 :: u64) = mask 8" by (simp add: mask_eq_exp_minus_1)
    then show ?thesis by (simp only: bit_mask_iff) auto
  qed
  show ?thesis
    by (rule bit_word_eqI, simp only: field_byte_def bit_push_bit_iff bit_ucast_iff bit_drop_bit_eq
        bit_and_iff 255 o_apply) (auto simp: field_byte_def)
qed

lemma decode_fields_encoded:
  assumes "\<And>i. i \<in> set is \<Longrightarrow> (code AND push_bit i flag \<noteq> 0 \<longleftrightarrow> has_field v i) \<and> i < 8"
  shows "decode_fields e (map (\<lambda>i. (push_bit i flag, i * 8)) is) code
      (map (field_byte v) (filter (has_field v) is) @ rest) acc
    = Inr (fold (\<lambda>i a. a OR (v AND push_bit (i * 8) 255)) is acc, rest)"
  using assms
proof (induction "is" arbitrary: acc)
  case (Cons i "is")
  have i: "code AND push_bit i flag \<noteq> 0 \<longleftrightarrow> has_field v i" "i < 8" using Cons.prems by simp_all
  have IH: "decode_fields e (map (\<lambda>i. (push_bit i flag, i * 8)) is) code
      (map (field_byte v) (filter (has_field v) is) @ rest) a
    = Inr (fold (\<lambda>i a. a OR (v AND push_bit (i * 8) 255)) is a, rest)" for a
    using Cons by simp
  show ?case
  proof (cases "has_field v i")
    case True
    then show ?thesis using i IH by (simp add: push_field_byte)
  next
    case False
    then have "v AND push_bit (i * 8) 255 = 0" by (simp add: has_field_def)
    then show ?thesis using i False IH by simp
  qed
qed simp

lemma offsets_eq: "offsets = map (\<lambda>i. (push_bit i 1, i * 8)) [0..<4]"
  by (simp add: offsets_def upt_rec)

lemma sizes_eq: "sizes = map (\<lambda>i. (push_bit i 0x10, i * 8)) [0..<3]"
  by (simp add: sizes_def upt_rec)

lemma bit_fold_flags:
  "bit (fold (\<lambda>i c. if P i then c OR push_bit i flag else c) is c) n \<longleftrightarrow>
     bit c n \<or> (\<exists>i \<in> set is. P i \<and> bit (push_bit i flag) n)" for c :: byte
  by (induction "is" arbitrary: c) (auto simp: bit_or_iff)

lemma bit_fold_or:
  "bit (fold (\<lambda>i a. a OR g i) is a) n \<longleftrightarrow> bit a n \<or> (\<exists>i \<in> set is. bit (g i) n)" for a :: u64
  by (induction "is" arbitrary: a) (auto simp: bit_or_iff)

lemma byte_flag:
  "i < 8 \<Longrightarrow> c AND push_bit i 1 \<noteq> 0 \<longleftrightarrow> bit c i" for c :: byte
proof -
  assume i: "i < 8"
  have *: "bit (c AND push_bit i 1) n \<longleftrightarrow> n = i \<and> bit c i" for n
    using i by (simp only: bit_and_iff bit_push_bit_iff bit_1_iff) auto
  have "c AND push_bit i 1 = 0 \<longleftrightarrow> (\<forall>n. \<not> bit (c AND push_bit i 1) n)"
    by (metis bit_0_eq bit_word_eqI bot_apply bot_bool_def)
  then show ?thesis by (simp only: *) blast
qed

lemma flag_16: "push_bit i (16 :: byte) = push_bit (i + 4) 1"
proof -
  have "(16 :: byte) = push_bit 4 1" by (simp add: push_bit_eq_mult)
  then show ?thesis by (simp only: push_bit_push_bit)
qed

definition copy_code :: "u64 \<Rightarrow> u64 \<Rightarrow> byte" where
  "copy_code off len =
     fold (\<lambda>i c. if has_field len i then c OR push_bit i 0x10 else c) [0..<3]
       (fold (\<lambda>i c. if has_field off i then c OR push_bit i 1 else c) [0..<4] 0x80)"

lemma bit_copy_code:
  "bit (copy_code off len) n \<longleftrightarrow> n = 7 \<or> (n < 4 \<and> has_field off n) \<or>
     (4 \<le> n \<and> n < 7 \<and> has_field len (n - 4))"
  unfolding copy_code_def bit_fold_flags unfolding flag_16 bit_word_128
  by (simp only: bit_push_bit_iff bit_1_iff)
    (auto intro: bexI [where x = "n - 4"] bexI [where x = n])

lemma copy_code_flags:
  "i < 4 \<Longrightarrow> copy_code off len AND push_bit i 1 \<noteq> 0 \<longleftrightarrow> has_field off i"
  "i < 3 \<Longrightarrow> copy_code off len AND push_bit i 16 \<noteq> 0 \<longleftrightarrow> has_field len i"
  unfolding flag_16 by (subst byte_flag; auto simp: bit_copy_code)+

lemma small_word_bit: "unat v < 2 ^ k \<Longrightarrow> bit v n \<Longrightarrow> n < k" for v :: u64
proof -
  assume "unat v < 2 ^ k" and b: "bit v n"
  then have "unat (take_bit k v) = unat v"
    using unsigned_take_bit_eq [of k v, where 'a = nat] by (simp add: take_bit_nat_eq_self)
  then have "take_bit k v = v" by (simp add: word_unat_eq_iff)
  with b show "n < k" by (metis bit_take_bit_iff)
qed

lemma fields_complete:
  fixes v :: u64
  assumes "unat v < 2 ^ (8 * m)" and "m \<le> 8"
  shows "fold (\<lambda>i a. a OR (v AND push_bit (i * 8) 255)) [0..<m] 0 = v"
proof (rule bit_word_eqI)
  fix n
  assume "n < LENGTH(64)"
  have 255: "bit (255 :: u64) k \<longleftrightarrow> k < 8" for k
  proof -
    have "(255 :: u64) = mask 8" by (simp add: mask_eq_exp_minus_1)
    then show ?thesis by (simp only: bit_mask_iff) auto
  qed
  have "bit v n \<Longrightarrow> n div 8 < m" using small_word_bit [OF assms(1), of n] by (simp add: less_mult_imp_div_less mult.commute)
  moreover have "n div 8 * 8 \<le> n" "n - n div 8 * 8 < 8" by simp_all
  ultimately show "bit (fold (\<lambda>i a. a OR (v AND push_bit (i * 8) 255)) [0..<m] 0) n = bit v n"
    unfolding bit_fold_or using \<open>n < LENGTH(64)\<close>
    by (simp only: bit_and_iff bit_push_bit_iff 255) (auto intro!: bexI [where x = "n div 8"])
qed

lemma encodeCopyOperation_eq:
  "encodeCopyOperation off len =
     copy_code (word_of_nat off) (word_of_nat len) #
     map (field_byte (word_of_nat off)) (filter (has_field (word_of_nat off)) [0..<4]) @
     map (field_byte (word_of_nat len)) (filter (has_field (word_of_nat len)) [0..<3])"
  by (simp add: encodeCopyOperation_def fold_copy_field copy_code_def del: upt_Suc)

lemma next_op_copy:
  assumes "off < 2 ^ 32" and "0 < len" and "len < 2 ^ 24"
  shows "next_op (encodeCopyOperation off len @ rest) = Inr (CopyOp off len, rest)"
proof -
  define o' l' where "o' = (word_of_nat off :: u64)" and "l' = (word_of_nat len :: u64)"
  have u: "unat o' = off" "unat l' = len" using assms by (simp_all add: o'_def l'_def unat_of_nat64)
  have c: "isCopyFromSrc (copy_code o' l')"
    by (simp add: isCopyFromSrc_def and_128_eq_0_iff bit_copy_code)
  have "decodeOffset (copy_code o' l') (map (field_byte o') (filter (has_field o') [0..<4]) @ r) = Inr (o', r)" for r
    unfolding decodeOffset_def offsets_eq
    using assms(1) u(1) copy_code_flags(1)
    by (subst decode_fields_encoded) (auto simp: fields_complete [of _ 4] simp del: upt_Suc)
  moreover have "decodeSize (copy_code o' l') (map (field_byte l') (filter (has_field l') [0..<3]) @ r) = Inr (l', r)" for r
    unfolding decodeSize_def sizes_eq
    using assms(2,3) u(2) copy_code_flags(2)
    by (subst decode_fields_encoded) (auto simp: fields_complete [of _ 3] simp del: upt_Suc)
  ultimately show ?thesis using c u
    by (simp add: encodeCopyOperation_eq o'_def [symmetric] l'_def [symmetric] next_op_def del: upt_Suc)
qed

subsection \<open>Bytes that encode operations\<close>

text \<open>The bytes \<open>bs\<close> are a run of operations on \<open>src\<close> whose output is \<open>out\<close>.\<close>

definition emits :: "bytes \<Rightarrow> bytes \<Rightarrow> bytes \<Rightarrow> bool" where
  "emits src bs out \<longleftrightarrow>
     (\<exists>os1. (\<forall>rest ops. parse_ops rest = Some ops \<longrightarrow> parse_ops (bs @ rest) = Some (os1 @ ops)) \<and>
        list_all (op_fits (length src)) os1 \<and> run_ops src os1 = out)"

lemma emits_Nil [simp]: "emits src [] []"
  unfolding emits_def by (intro exI [where x = "[]"]) simp

lemma emits_append:
  assumes "emits src a x" and "emits src b y"
  shows "emits src (a @ b) (x @ y)"
proof -
  from assms obtain os1 os2 where
    "\<forall>rest ops. parse_ops rest = Some ops \<longrightarrow> parse_ops (a @ rest) = Some (os1 @ ops)"
    "\<forall>rest ops. parse_ops rest = Some ops \<longrightarrow> parse_ops (b @ rest) = Some (os2 @ ops)"
    "list_all (op_fits (length src)) os1" "list_all (op_fits (length src)) os2"
    "run_ops src os1 = x" "run_ops src os2 = y" unfolding emits_def by blast
  then show ?thesis unfolding emits_def
    by (intro exI [where x = "os1 @ os2"]) (simp add: run_ops_def)
qed

lemma emits_op:
  assumes "\<And>rest. next_op (bs @ rest) = Inr (op', rest)" and "op_fits (length src) op'"
  shows "emits src bs (op_out src op')"
  unfolding emits_def using assms
  by (intro exI [where x = "[op']"]) (simp add: parse_ops_eq_Cons)

lemma emits_insert:
  assumes "0 < length b" and "length b \<le> 127"
  shows "emits src (word_of_nat (length b) # b) b"
proof -
  define c where "c = (word_of_nat (length b) :: byte)"
  have "unat c = length b" using assms(2) by (simp add: c_def unat_of_nat take_bit_nat_eq_self)
  moreover from this have "take_bit 7 c = c"
    using assms(2) unsigned_take_bit_eq [of 7 c, where 'a = nat]
    by (simp add: word_unat_eq_iff take_bit_nat_eq_self)
  then have "\<not> bit c 7" by (metis bit_take_bit_iff less_irrefl)
  moreover have "c \<noteq> 0" using calculation(1) assms(1) by auto
  ultimately have "next_op ((c # b) @ rest) = Inr (InsertOp b, rest)" for rest
    by (simp add: next_op_def isCopyFromSrc_def isCopyFromDelta_def and_128_eq_0_iff)
  from emits_op [OF this, of src] show ?thesis by (simp add: c_def)
qed

lemma emits_insert_runs: "b \<noteq> [] \<Longrightarrow> emits src (insert_runs b) b"
proof (induction b rule: insert_runs.induct)
  case (1 b)
  show ?case
  proof (cases "length b > 127")
    case True
    have "emits src (word_of_nat (length (take 127 b)) # take 127 b) (take 127 b)"
      using True by (intro emits_insert) auto
    then have "emits src (127 # take 127 b) (take 127 b)" using True by (simp add: min_absorb2)
    from emits_append [OF this "1.IH" [OF True]] True show ?thesis
      by (subst insert_runs.simps) simp
  next
    case False
    then show ?thesis using "1.prems" by (subst insert_runs.simps) (simp add: emits_insert)
  qed
qed

lemma emits_copy:
  assumes "off + n \<le> length src" and "0 < n" and "n < 2 ^ 24" and "length src \<le> 2 ^ 32"
  shows "emits src (encodeCopyOperation off n) (take n (drop off src))"
  using emits_op [of "encodeCopyOperation off n" "CopyOp off n" src] assms by (simp add: next_op_copy)

lemma emits_copy_runs:
  assumes "off + n \<le> length src" and "length src \<le> 2 ^ 32"
  shows "emits src (copy_runs off n) (take n (drop off src))"
  using assms
proof (induction off n rule: copy_runs.induct)
  case (1 off n)
  consider "n = 0" | "0 < n" "n < 65536" | "65536 \<le> n" by linarith
  then show ?case
  proof cases
    case 1
    then show ?thesis by (subst copy_runs.simps) simp
  next
    case 2
    then show ?thesis using "1.prems" by (subst copy_runs.simps) (simp add: emits_copy)
  next
    case 3
    have "emits src (encodeCopyOperation off 65536) (take 65536 (drop off src))"
      using "1.prems" 3 by (intro emits_copy) auto
    moreover have "emits src (copy_runs (off + 65536) (n - 65536)) (take (n - 65536) (drop (off + 65536) src))"
      using "1.IH" "1.prems" 3 by auto
    moreover have "take 65536 (drop off src) @ take (n - 65536) (drop (off + 65536) src) = take n (drop off src)"
      using 3 take_add [of 65536 "n - 65536" "drop off src"] by (simp add: add.commute)
    ultimately show ?thesis using 3 emits_append by (subst copy_runs.simps) fastforce
  qed
qed

subsection \<open>The loop emits the target\<close>

text \<open>
  The invariant: the bytes written after the header emit a prefix of the target, and the
  pending literals are what is missing up to position \<open>i\<close>.
\<close>

definition diff_inv :: "bytes \<Rightarrow> bytes \<Rightarrow> bytes \<Rightarrow> nat \<Rightarrow> bytes \<Rightarrow> bytes \<Rightarrow> bool" where
  "diff_inv hdr src tgt i ibuf buf \<longleftrightarrow>
     (\<exists>body out. buf = hdr @ body \<and> emits src body out \<and> out @ ibuf = take i tgt)"

lemma diff_inv_literal:
  assumes "diff_inv hdr src tgt i ibuf buf" and "i + n \<le> length tgt"
  shows "diff_inv hdr src tgt (i + n) (ibuf @ take n (drop i tgt)) buf"
  using assms by (auto simp: diff_inv_def take_add)

lemma diff_inv_flush:
  assumes "diff_inv hdr src tgt i ibuf buf" and "encodeInsertOperation ibuf buf = (ibuf', buf')"
  shows "ibuf' = [] \<and> diff_inv hdr src tgt i [] buf'"
proof (cases "ibuf = []")
  case True
  with assms show ?thesis by (simp add: encodeInsertOperation_def)
next
  case False
  from assms(1) obtain body out where b: "buf = hdr @ body" "emits src body out" "out @ ibuf = take i tgt"
    by (auto simp: diff_inv_def)
  from emits_append [OF b(2) emits_insert_runs [OF False]] b assms(2) False show ?thesis
    by (auto simp: diff_inv_def encodeInsertOperation_def)
qed

lemma diff_inv_copy:
  assumes "diff_inv hdr src tgt i [] buf" and "emits src bs (take n (drop i tgt))"
  shows "diff_inv hdr src tgt (i + n) [] (buf @ bs)"
proof -
  from assms(1) obtain body where b: "buf = hdr @ body" "emits src body (take i tgt)"
    by (auto simp: diff_inv_def)
  have "emits src (body @ bs) (take (i + n) tgt)" using emits_append [OF b(2) assms(2)] by (simp add: take_add)
  then show ?thesis using b(1) by (auto simp: diff_inv_def)
qed

lemma diffDelta_loop_ok:
  assumes "index_ok src idx" and "length src \<le> 2 ^ 32" and "i \<le> length tgt"
    and "diff_inv hdr src tgt i ibuf buf"
  shows "\<exists>ibuf' buf'. diffDelta_loop idx src tgt i ibuf buf = Some (ibuf', buf') \<and>
    diff_inv hdr src tgt (length tgt) ibuf' buf'"
  using assms
proof (induction "length tgt - i" arbitrary: i ibuf buf rule: less_induct)
  case less
  show ?case
  proof (cases "i < length tgt")
    case False
    then show ?thesis using less.prems by (subst diffDelta_loop.simps) simp
  next
    case True
    from findMatch_ok [OF less.prems(1) True] obtain off l where m: "findMatch idx src tgt i = Some (off, l)"
      "l = -1 \<or> 0 \<le> l" "i + nat l \<le> length tgt"
      "16 \<le> l \<longrightarrow> off + nat l \<le> length src \<and> take (nat l) (drop off src) = take (nat l) (drop i tgt)" by blast
    consider "l = 0" | "l = -1" | "0 < l" "l < 16" | "16 \<le> l" using m(2) by linarith
    then show ?thesis
    proof cases
      case 1
      have "diff_inv hdr src tgt (Suc i) (ibuf @ [tgt ! i]) buf"
        using diff_inv_literal [OF less.prems(4), of 1] True by (simp add: take_Suc_conv_app_nth drop_eq_Nil2)
      with less.hyps [of "Suc i"] less.prems True 1 m(1) show ?thesis
        by (subst diffDelta_loop.simps) simp
    next
      case 2
      have "diff_inv hdr src tgt (length tgt) (ibuf @ drop i tgt) buf"
        using diff_inv_literal [OF less.prems(4), of "length tgt - i"] True by simp
      with True 2 m(1) show ?thesis by (subst diffDelta_loop.simps) simp
    next
      case 3
      have "diff_inv hdr src tgt (i + nat l) (ibuf @ take (nat l) (drop i tgt)) buf"
        using diff_inv_literal [OF less.prems(4) m(3)] .
      with less.hyps [of "i + nat l"] less.prems True 3 m(1,3) show ?thesis
        by (subst diffDelta_loop.simps) (simp add: slice_def)
    next
      case 4
      obtain ibuf1 buf1 where e: "encodeInsertOperation ibuf buf = (ibuf1, buf1)" by fastforce
      from diff_inv_flush [OF less.prems(4) e] have f: "ibuf1 = []" "diff_inv hdr src tgt i [] buf1" by simp_all
      have "emits src (copy_runs off (nat l)) (take (nat l) (drop i tgt))"
        using emits_copy_runs [of off "nat l" src] m(4) 4 less.prems(2) by simp
      from diff_inv_copy [OF f(2) this] less.hyps [of "i + nat l"] less.prems True 4 m(1,3) e f(1)
      show ?thesis by (subst diffDelta_loop.simps) simp
    qed
  qed
qed

subsection \<open>The delta describes the target\<close>

lemma decodeDeltaSize_Encode:
  assumes "n < 2 ^ 63"
  shows "decodeDeltaSize (EncodeLEB128 (word_of_nat n) @ rest) = Inr (word_of_nat n, rest)"
proof -
  define e where "e = EncodeLEB128 (word_of_nat n)"
  have "DecodeLEB128 (e @ rest) = Inr (word_of_nat n, rest)"
    unfolding e_def using assms by (intro DecodeLEB128_Encode) (simp add: unat_of_nat64)
  moreover have "0 < length e" by (simp add: e_def)
  then have "index (e @ rest) (length e - 1) = Some (last e)"
    by (cases e rule: rev_cases) (simp_all add: index_def nth_append)
  ultimately show ?thesis
    by (simp add: decodeDeltaSize_def e_def [symmetric])
      (simp add: e_def EncodeLEB128_last_byte and_128_eq_0_iff)
qed

lemma emits_describes:
  assumes "emits src body tgt" and "length src < 2 ^ 63" and "length tgt < 2 ^ 63"
  shows "delta_describes (EncodeLEB128 (word_of_nat (length src)) @ EncodeLEB128 (word_of_nat (length tgt)) @ body) src tgt"
proof -
  from assms(1) obtain ops where ops: "parse_ops body = Some ops" "list_all (op_fits (length src)) ops"
    "run_ops src ops = tgt" unfolding emits_def using parse_ops_Nil by fastforce
  then show ?thesis using assms(2,3)
    by (auto simp: delta_describes_def decodeDeltaSize_Encode)
qed

text \<open>
  The index of a base object is computed once and kept: an empty index is filled by the first
  call, and every later call finds it well formed and leaves it as it is.
\<close>

lemma diffDelta_ok:
  assumes "entries idx = [] \<or> index_ok src idx" and "length src \<le> 2 ^ 32" and "length tgt < 2 ^ 63"
  shows "\<exists>idx' delta. diffDelta idx src tgt = Some (idx', delta) \<and> index_ok src idx' \<and>
    (entries idx \<noteq> [] \<longrightarrow> idx' = idx) \<and> delta_describes delta src tgt"
proof -
  define hdr where "hdr = EncodeLEB128 (word_of_nat (length src)) @ EncodeLEB128 (word_of_nat (length tgt))"
  from init_ok [of src] assms(1,2) obtain idx' where
    i: "(if length (entries idx) = 0 then init src else Some idx) = Some idx'" "index_ok src idx'"
      "entries idx \<noteq> [] \<longrightarrow> idx' = idx"
    by (cases "entries idx = []") auto
  have "diff_inv hdr src tgt 0 [] hdr" by (simp add: diff_inv_def)
  from diffDelta_loop_ok [OF i(2) assms(2) _ this] obtain ibuf buf where
    l: "diffDelta_loop idx' src tgt 0 [] hdr = Some (ibuf, buf)" "diff_inv hdr src tgt (length tgt) ibuf buf" by auto
  obtain ibuf' buf' where e: "encodeInsertOperation ibuf buf = (ibuf', buf')" by fastforce
  from diff_inv_flush [OF l(2) e] obtain body where b: "buf' = hdr @ body" "emits src body tgt"
    by (auto simp: diff_inv_def)
  have "diffDelta idx src tgt = Some (idx', buf')"
    using i(1) l(1) e by (simp add: diffDelta_def hdr_def [symmetric] Let_def)
  moreover have "delta_describes buf' src tgt"
    using emits_describes [OF b(2)] assms(2,3) by (simp add: b(1) hdr_def)
  ultimately show ?thesis using i(2,3) by auto
qed

text \<open>
  \<^bold>\<open>C1\<close>. Delta compression is lossless: for every non-empty base of at most 4 GiB and every
  target, \<open>DiffDelta\<close> returns a delta (it neither panics nor loops), and applying that delta to
  the base with \<open>PatchDelta\<close> succeeds and gives the target back, byte for byte.
\<close>

theorem PatchDelta_DiffDelta:
  assumes "src \<noteq> []" and "length src \<le> 2 ^ 32" and "length tgt < 2 ^ 63"
  shows "\<exists>delta. DiffDelta src tgt = Some delta \<and> PatchDelta src delta = Inr tgt"
proof -
  have "entries new_deltaIndex = []" by (simp add: new_deltaIndex_def)
  with diffDelta_ok [of new_deltaIndex src tgt] assms(2,3) obtain idx' delta where
    d: "diffDelta new_deltaIndex src tgt = Some (idx', delta)" "delta_describes delta src tgt" by auto
  then show ?thesis
    using assms patchDelta_describes [of src delta tgt] delta_describes_length [OF d(2)]
    by (auto simp: DiffDelta_def PatchDelta_def minDeltaSize_def)
qed

lemma PatchDelta_DiffDelta_witness:
  "[1, 2, 3 :: byte] \<noteq> [] \<and> (\<exists>delta. DiffDelta [1, 2, 3] [3, 2, 1, 0] = Some delta \<and>
     PatchDelta [1, 2, 3] delta = Inr [3, 2, 1, 0])"
  using PatchDelta_DiffDelta [of "[1, 2, 3]" "[3, 2, 1, 0]"] by simp

end
