(* ===== verification/Pack_Entry.thy ===== *)
theory Pack_Entry
  imports Varint
begin

text \<open>
  Object types (\<open>plumbing/object.go\<close>) and the header of a pack entry: \<open>entryHead\<close> and
  \<open>writeOfsDeltaHeader\<close> of the pack encoder (\<open>plumbing/format/packfile/encoder.go\<close>), read back
  by \<open>ObjectType\<close> and \<open>VariableLengthSize\<close> (\<open>packfile/util/util.go\<close>), and the bounds check on
  the base of an OFS delta (\<open>packfile/common.go\<close>).

  An \<open>ObjectType\<close> is Go's \<open>int8\<close>, here an integer; object sizes are non-negative \<open>int64\<close>
  values, here 64-bit words.
\<close>

subsection \<open>Object types (plumbing/object.go)\<close>

type_synonym object_type = int

definition InvalidObject :: object_type where "InvalidObject = 0"
definition CommitObject :: object_type where "CommitObject = 1"
definition TreeObject :: object_type where "TreeObject = 2"
definition BlobObject :: object_type where "BlobObject = 3"
definition TagObject :: object_type where "TagObject = 4"
definition OFSDeltaObject :: object_type where "OFSDeltaObject = 6"
definition REFDeltaObject :: object_type where "REFDeltaObject = 7"
definition AnyObject :: object_type where "AnyObject = -127"

lemmas object_type_defs = InvalidObject_def CommitObject_def TreeObject_def BlobObject_def
  TagObject_def OFSDeltaObject_def REFDeltaObject_def AnyObject_def

definition ObjectType_String :: "object_type \<Rightarrow> string" where
  "ObjectType_String t =
     (if t = CommitObject then ''commit'' else if t = TreeObject then ''tree''
      else if t = BlobObject then ''blob'' else if t = TagObject then ''tag''
      else if t = OFSDeltaObject then ''ofs-delta'' else if t = REFDeltaObject then ''ref-delta''
      else if t = AnyObject then ''any'' else ''unknown'')"

definition ObjectType_Valid :: "object_type \<Rightarrow> bool" where
  "ObjectType_Valid t \<longleftrightarrow>
     t \<in> {CommitObject, TreeObject, BlobObject, TagObject, OFSDeltaObject, REFDeltaObject}"

definition ObjectType_IsDelta :: "object_type \<Rightarrow> bool" where
  "ObjectType_IsDelta t \<longleftrightarrow> t = REFDeltaObject \<or> t = OFSDeltaObject"

datatype object_error = ErrInvalidType

definition ParseObjectType :: "string \<Rightarrow> object_error + object_type" where
  "ParseObjectType value =
     (if value = ''commit'' then Inr CommitObject else if value = ''tree'' then Inr TreeObject
      else if value = ''blob'' then Inr BlobObject else if value = ''tag'' then Inr TagObject
      else if value = ''ofs-delta'' then Inr OFSDeltaObject
      else if value = ''ref-delta'' then Inr REFDeltaObject
      else Inl ErrInvalidType)"

subsection \<open>Writing an entry header (plumbing/format/packfile/encoder.go)\<close>

function entryHead_loop :: "u64 \<Rightarrow> u64 \<Rightarrow> bytes" where
  "entryHead_loop c sz =
     (if sz = 0 then [ucast c]
      else ucast (c OR 0x80) # entryHead_loop (sz AND 127) (drop_bit 7 sz))"
  by pat_completeness auto
termination
proof (relation "measure (\<lambda>(c, sz). unat sz)", simp)
  fix c sz :: u64
  assume "sz \<noteq> 0"
  then have "unat (drop_bit 7 sz) < unat sz"
    by (cases "drop_bit 7 sz = 0") (auto simp: unat_drop_bit_less unat_gt_0)
  then show "((sz AND 127, drop_bit 7 sz), (c, sz)) \<in> measure (\<lambda>(c, sz). unat sz)" by simp
qed

declare entryHead_loop.simps [simp del]

definition entryHead :: "u64 \<Rightarrow> u64 \<Rightarrow> bytes" where
  "entryHead typeNum sz =
     entryHead_loop (push_bit 4 typeNum OR (sz AND 15)) (drop_bit 4 sz)"

datatype entry_error = BadOffset int | ErrMalformedPackfile

definition writeOfsDeltaHeader :: "int \<Rightarrow> int \<Rightarrow> entry_error + bytes option" where
  "writeOfsDeltaHeader offset baseOffset =
     (let relativeOffset = offset - baseOffset
      in if relativeOffset \<le> 0 then Inl (BadOffset relativeOffset)
         else Inr (WriteVariableWidthInt relativeOffset))"

definition ValidateOFSDeltaBase :: "int \<Rightarrow> int \<Rightarrow> entry_error option" where
  "ValidateOFSDeltaBase deltaOffset negativeOffset =
     (if negativeOffset \<le> 0 \<or> negativeOffset \<ge> deltaOffset then Some ErrMalformedPackfile else None)"

subsection \<open>Object types and their names\<close>

lemma ParseObjectType_String:
  "ObjectType_Valid t \<Longrightarrow> ParseObjectType (ObjectType_String t) = Inr t"
  by (auto simp: ObjectType_Valid_def ObjectType_String_def ParseObjectType_def object_type_defs)

lemma ParseObjectType_Valid:
  "ParseObjectType s = Inr t \<Longrightarrow> ObjectType_Valid t \<and> ObjectType_String t = s"
  by (auto simp: ObjectType_Valid_def ObjectType_String_def ParseObjectType_def object_type_defs
        split: if_splits)

subsection \<open>Entry headers read back\<close>

lemma entryHead_loop_LEB128:
  "entryHead_loop c sz = (if sz = 0 then [ucast c] else ucast (c OR 0x80) # EncodeLEB128 sz)"
proof (induction c sz rule: entryHead_loop.induct)
  case (1 c sz)
  have b: "(ucast (take_bit 7 sz OR 128) :: byte) = ucast (take_bit 7 sz) OR 128"
    by (simp add: unsigned_or_eq)
  show ?case
  proof (cases "sz = 0")
    case True
    then show ?thesis by (simp add: entryHead_loop.simps)
  next
    case False
    then show ?thesis using "1.IH" b
      by (subst entryHead_loop.simps)
        (simp add: and_127_eq EncodeLEB128_last EncodeLEB128_more)
  qed
qed

lemma pow60_step: "Suc k \<le> 7 \<Longrightarrow> (2 :: nat) ^ (56 - 7 * k) = 2 ^ (56 - 7 * Suc k) * 2 ^ 7"
proof -
  assume "Suc k \<le> 7"
  then have "56 - 7 * k = (56 - 7 * Suc k) + 7" by simp
  then show ?thesis by (simp only: power_add)
qed

lemma VariableLengthSize_loop_byte:
  "shift \<le> 57 \<Longrightarrow> \<not> bit b 7 \<Longrightarrow>
     VariableLengthSize_loop (b # rest) acc shift = Inr (acc OR push_bit shift (ucast (take_bit 7 b)), rest)"
  "shift \<le> 57 \<Longrightarrow> bit b 7 \<Longrightarrow>
     VariableLengthSize_loop (b # rest) acc shift =
       VariableLengthSize_loop rest (acc OR push_bit shift (ucast (take_bit 7 b))) (shift + 7)"
  by (simp_all add: Let_def)

lemma VariableLengthSize_loop_Encode:
  assumes "unat n < 2 ^ (56 - 7 * k)" and "k \<le> 7"
  shows "VariableLengthSize_loop (EncodeLEB128 n @ rest) acc (4 + 7 * k)
           = Inr (acc OR push_bit (4 + 7 * k) n, rest)"
  using assms
proof (induction n arbitrary: acc k rule: EncodeLEB128.induct)
  case (1 n)
  show ?case
  proof (cases "drop_bit 7 n = 0")
    case True
    then show ?thesis using "1.prems"
      by (simp add: EncodeLEB128_last VariableLengthSize_loop_byte low7_byte ucast_low7
            del: VariableLengthSize_loop.simps) (simp add: drop_bit_7_zero_take)
  next
    case False
    then have "2 ^ 7 \<le> unat n" by (simp only: drop_bit_7_eq_0_iff not_less)
    then have "k \<noteq> 7" using "1.prems"(1) by auto
    then have k: "Suc k \<le> 7" using "1.prems"(2) by simp
    from pow60_step [OF this] have "unat (drop_bit 7 n) < 2 ^ (56 - 7 * Suc k)"
      using "1.prems"(1) unfolding unat_drop_bit_div by (simp add: less_mult_imp_div_less)
    then have IH: "VariableLengthSize_loop (EncodeLEB128 (drop_bit 7 n) @ rest) a (4 + 7 * k + 7)
        = Inr (a OR push_bit (4 + 7 * k + 7) (drop_bit 7 n), rest)" for a
      using "1.IH" [OF refl refl False _ k] by (simp add: add.commute add.left_commute)
    show ?thesis using False k IH word_or_split [of "4 + 7 * k" 7 n]
      by (simp add: EncodeLEB128_more VariableLengthSize_loop_byte low7_byte ucast_low7 or.assoc
            del: VariableLengthSize_loop.simps)
  qed
qed

lemma head_byte_bits:
  fixes t sz :: u64
  assumes "unat t < 8"
  defines "b \<equiv> (ucast (push_bit 4 t OR take_bit 4 sz) :: byte)"
  shows "\<not> bit b 7" "drop_bit 4 (b AND 112) = ucast t" "b AND 15 = ucast (take_bit 4 sz)"
    and "drop_bit 4 ((b OR 128) AND 112) = ucast t" "(b OR 128) AND 15 = ucast (take_bit 4 sz)"
proof -
  have "unat (take_bit 3 t) = unat t"
    using assms(1) unsigned_take_bit_eq [of 3 t, where 'a = nat] by (simp add: take_bit_nat_eq_self)
  then have "t = take_bit 3 t" by (simp add: word_unat_eq_iff)
  then have t: "\<not> bit t n" if "3 \<le> n" for n using that by (metis bit_take_bit_iff not_less)
  have 112: "bit (112 :: byte) n \<longleftrightarrow> n \<in> {4, 5, 6}" for n
  proof -
    have "(112 :: byte) = push_bit 4 (mask 3)" by (simp add: push_bit_eq_mult mask_eq_exp_minus_1)
    then show ?thesis by (simp only: bit_push_bit_iff bit_mask_iff) auto
  qed
  have 15: "bit (15 :: byte) n \<longleftrightarrow> n < 4" for n
  proof -
    have "(15 :: byte) = mask 4" by (simp add: mask_eq_exp_minus_1)
    then show ?thesis by (simp only: bit_mask_iff) auto
  qed
  show "\<not> bit b 7" using t by (simp add: b_def bit_simps)
  show "b AND 15 = ucast (take_bit 4 sz)" "(b OR 128) AND 15 = ucast (take_bit 4 sz)"
    by (rule bit_word_eqI, simp only: b_def bit_and_iff bit_or_iff bit_ucast_iff bit_take_bit_iff
          bit_push_bit_iff 15 bit_word_128, auto)+
  have *: "bit (drop_bit 4 (x AND 112)) n \<longleftrightarrow> n < 3 \<and> bit x (4 + n)" for x :: byte and n
    by (simp only: bit_drop_bit_eq bit_and_iff 112 o_apply) auto
  have t3: "bit t n \<Longrightarrow> n < 3" for n using t by (metis not_le)
  have **: "drop_bit 4 ((b OR c) AND 112) = ucast t" if "\<And>n. bit c n \<Longrightarrow> n = 7" for c
    by (rule bit_word_eqI, simp only: * b_def bit_or_iff bit_ucast_iff bit_take_bit_iff
        bit_push_bit_iff, auto dest: t3 that)
  show "drop_bit 4 (b AND 112) = ucast t" using ** [of 0] by (simp only: or.right_neutral) simp
  show "drop_bit 4 ((b OR 128) AND 112) = ucast t" by (rule **) (simp only: bit_word_128)
qed

lemma entryHead_parts:
  assumes "unat t < 8" and "unat sz < 2 ^ 60"
  shows "\<exists>b bs. entryHead t sz = b # bs \<and> ObjectTypeBits b = ucast t \<and>
    VariableLengthSize b (Some (bs @ rest)) = Inr (sz, Some rest)"
proof -
  define b where "b = (ucast (push_bit 4 t OR take_bit 4 sz) :: byte)"
  note hb = head_byte_bits [OF assms(1), of sz, folded b_def]
  have u: "ucast (ucast (take_bit 4 sz) :: byte) = take_bit 4 sz"
    by (rule bit_word_eqI) (auto simp: bit_simps)
  show ?thesis
  proof (cases "drop_bit 4 sz = 0")
    case True
    then have "entryHead t sz = [b]" and "take_bit 4 sz = sz"
      using word_or_split [of 0 4 sz] by (simp_all add: entryHead_def entryHead_loop_LEB128 and_15_eq b_def)
    then show ?thesis using hb u
      by (simp add: ObjectTypeBits_def VariableLengthSize_def Let_def)
  next
    case False
    have e: "entryHead t sz = (b OR 128) # EncodeLEB128 (drop_bit 4 sz)"
      using False by (simp add: entryHead_def entryHead_loop_LEB128 and_15_eq b_def unsigned_or_eq)
    have "unat (drop_bit 4 sz) < 2 ^ 56"
      using assms(2) unfolding unat_drop_bit_div by (simp add: less_mult_imp_div_less)
    then have "VariableLengthSize_loop (EncodeLEB128 (drop_bit 4 sz) @ rest) (take_bit 4 sz) 4 = Inr (sz, rest)"
      using VariableLengthSize_loop_Encode [of "drop_bit 4 sz" 0 rest "take_bit 4 sz"]
        word_or_split [of 0 4 sz] by simp
    moreover have "bit (b OR 128) 7" by (simp add: bit_or_iff bit_word_128)
    ultimately show ?thesis using e hb u
      by (simp add: ObjectTypeBits_def VariableLengthSize_def Let_def)
  qed
qed

text \<open>The header of an entry as the scanner reads it: type and size, then the rest of the pack.\<close>

definition read_entryHead :: "bytes \<Rightarrow> varint_error + (byte \<times> u64) \<times> bytes" where
  "read_entryHead r =
     (case r of
        [] \<Rightarrow> Inl EOF
      | b # bs \<Rightarrow> rbind (VariableLengthSize b (Some bs)) (\<lambda>(sz, r'). Inr ((ObjectTypeBits b, sz), the r')))"

interpretation entry_codec: stream_codec "\<lambda>(t, sz). entryHead (ucast t) sz" read_entryHead
  "\<lambda>(t, sz). unat t < 8 \<and> unat sz < 2 ^ 60"
proof
  fix x :: "byte \<times> u64" and rest
  assume v: "case x of (t, sz) \<Rightarrow> unat t < 8 \<and> unat sz < 2 ^ 60"
  obtain t sz where x: "x = (t, sz)" by fastforce
  from v x have "unat (ucast t :: u64) < 8" "unat sz < 2 ^ 60" by (simp_all add: unat_ucast_byte)
  moreover have "ucast (ucast t :: u64) = t" by (rule bit_word_eqI) (auto simp: bit_simps)
  ultimately show "read_entryHead ((case x of (t, sz) \<Rightarrow> entryHead (ucast t) sz) @ rest) = Inr (x, rest)"
    using entryHead_parts [of "ucast t" sz rest] by (auto simp: read_entryHead_def x)
qed

text \<open>
  \<^bold>\<open>C36\<close>. The header that \<open>entryHead\<close> writes for a type and a size is read back by
  \<open>ObjectType\<close> and \<open>VariableLengthSize\<close>, whatever follows it in the pack, for every 3-bit
  type and every size of at most 60 bits, the sizes that the reader's shift guard admits.
\<close>

theorem entryHead_roundtrip:
  assumes "unat t < 8" and "unat sz < 2 ^ 60"
  shows "\<exists>b bs. entryHead t sz = b # bs \<and> ObjectTypeBits b = ucast t \<and>
    VariableLengthSize b (Some (bs @ rest)) = Inr (sz, Some rest)"
  by (rule entryHead_parts [OF assms])

lemma entryHead_roundtrip_witness:
  "unat (3 :: u64) < 8 \<and> unat (1000 :: u64) < 2 ^ 60 \<and>
   (\<exists>b bs. entryHead 3 1000 = b # bs \<and> ObjectTypeBits b = 3 \<and>
      VariableLengthSize b (Some (bs @ [7])) = Inr (1000, Some [7]))"
  using entryHead_roundtrip [of 3 1000 "[7]"] by simp

end
