(* ===== verification/Go_Strings.thy ===== *)
theory Go_Strings
  imports Go_Prelude
begin

text \<open>
  What the components use of Go's \<open>strings\<close> and \<open>bytes\<close> packages, on lists of any symbol type.
  Prefix and suffix tests are the library's \<open>prefix\<close> and \<open>suffix\<close>; \<open>TrimSpace\<close> removes the UTF-8
  encodings of the characters that \<open>unicode.IsSpace\<close> accepts from both ends.
\<close>

text \<open>\<open>strings.Cut\<close> at a one-symbol separator: \<open>None\<close> when it does not occur.\<close>

fun cut :: "'a \<Rightarrow> 'a list \<Rightarrow> ('a list \<times> 'a list) option" where
  "cut c [] = None"
| "cut c (x # xs) = (if x = c then Some ([], xs) else map_option (apfst ((#) x)) (cut c xs))"

text \<open>\<open>strings.Split\<close> at a one-symbol separator: never empty.\<close>

fun split :: "'a \<Rightarrow> 'a list \<Rightarrow> 'a list list" where
  "split c [] = [[]]"
| "split c (x # xs) =
     (if x = c then [] # split c xs else (case split c xs of [] \<Rightarrow> [[x]] | y # ys \<Rightarrow> (x # y) # ys))"

text \<open>\<open>strings.Join\<close> with a one-symbol separator.\<close>

fun join :: "'a \<Rightarrow> 'a list list \<Rightarrow> 'a list" where
  "join c [] = []"
| "join c [x] = x"
| "join c (x # y # ys) = x @ c # join c (y # ys)"

text \<open>\<open>strings.Contains\<close>.\<close>

fun contains_sub :: "'a list \<Rightarrow> 'a list \<Rightarrow> bool" where
  "contains_sub q [] \<longleftrightarrow> q = []"
| "contains_sub q (x # xs) \<longleftrightarrow> prefix q (x # xs) \<or> contains_sub q xs"

text \<open>Removing sequences of a given set from the front, as long as one is there.\<close>

function trim_left :: "'a list list \<Rightarrow> 'a list \<Rightarrow> 'a list" where
  "trim_left seqs s =
     (case find (\<lambda>q. q \<noteq> [] \<and> prefix q s) seqs of
        None \<Rightarrow> s
      | Some q \<Rightarrow> trim_left seqs (drop (length q) s))"
  by pat_completeness auto
termination
  by (relation "measure (length o snd)") (auto simp: find_Some_iff prefix_def)

declare trim_left.simps [simp del]

definition trim :: "'a list list \<Rightarrow> 'a list \<Rightarrow> 'a list" where
  "trim seqs s = rev (trim_left (map rev seqs) (rev (trim_left seqs s)))"

definition space_seqs :: "bytes list" where
  "space_seqs =
     [[0x09], [0x0a], [0x0b], [0x0c], [0x0d], [0x20], [0xc2, 0x85], [0xc2, 0xa0], [0xe1, 0x9a, 0x80]] @
     map (\<lambda>b. [0xe2, 0x80, b])
       [0x80, 0x81, 0x82, 0x83, 0x84, 0x85, 0x86, 0x87, 0x88, 0x89, 0x8a, 0xa8, 0xa9, 0xaf] @
     [[0xe2, 0x81, 0x9f], [0xe3, 0x80, 0x80]]"

definition TrimSpace :: "bytes \<Rightarrow> bytes" where
  "TrimSpace = trim space_seqs"

subsection \<open>Splitting and joining\<close>

lemma split_not_Nil [simp]: "split c s \<noteq> []"
  by (cases s) (auto split: list.splits)

lemma join_split [simp]: "join c (split c s) = s"
proof (induction s)
  case (Cons x s)
  obtain y ys where "split c s = y # ys" by (cases "split c s") simp_all
  with Cons show ?case by (cases ys) auto
qed simp

lemma split_no_sep: "c \<notin> set s \<Longrightarrow> split c s = [s]"
  by (induction s) auto

lemma split_append_sep: "c \<notin> set a \<Longrightarrow> split c (a @ c # b) = a # split c b"
  by (induction a) (auto split: list.splits)

lemma split_join: "xs \<noteq> [] \<Longrightarrow> list_all (\<lambda>x. c \<notin> set x) xs \<Longrightarrow> split c (join c xs) = xs"
  by (induction c xs rule: join.induct) (simp_all add: split_no_sep split_append_sep)

lemma set_split: "x \<in> set (split c s) \<Longrightarrow> c \<notin> set x"
proof (induction s arbitrary: x)
  case (Cons y s)
  show ?case
  proof (cases "split c s")
    case (Cons z zs)
    then show ?thesis using Cons.prems Cons.IH by (auto split: if_splits)
  qed (use Cons.prems in \<open>simp split: if_splits\<close>)
qed simp

lemma cut_Some_iff: "cut c s = Some (a, b) \<longleftrightarrow> s = a @ c # b \<and> c \<notin> set a"
proof (induction s arbitrary: a)
  case (Cons x s)
  then show ?case by (cases a) (auto simp: apfst_def)
qed simp

lemma cut_None_iff: "cut c s = None \<longleftrightarrow> c \<notin> set s"
  by (induction s) auto

lemma split_snoc_sep: "split c (a @ c # b) = split c a @ split c b"
proof (induction a)
  case (Cons y a)
  obtain z zs where "split c a = z # zs" by (cases "split c a") simp_all
  then show ?case using Cons by auto
qed simp

lemma set_split_subset: "x \<in> set (split c s) \<Longrightarrow> set x \<subseteq> set s"
proof (induction s arbitrary: x)
  case (Cons y s)
  obtain z zs where "split c s = z # zs" by (cases "split c s") simp_all
  then show ?case using Cons.prems Cons.IH [of x] Cons.IH [of z] by (auto split: if_splits)
qed simp

lemma length_split: "length (split c s) = Suc (count_list s c)"
proof (induction s)
  case (Cons y s)
  obtain z zs where "split c s = z # zs" by (cases "split c s") simp_all
  then show ?case using Cons by auto
qed simp

subsection \<open>Rules on the parts of a split string as rules on the whole\<close>

lemma contains_sub_iff: "contains_sub q s \<longleftrightarrow> (\<exists>a b. s = a @ q @ b)"
proof (induction s)
  case (Cons x s)
  show ?case
  proof
    assume "contains_sub q (x # s)"
    then show "\<exists>a b. x # s = a @ q @ b"
      using Cons.IH by (auto simp: prefix_def) (metis append_Cons append_Nil)+
  next
    assume "\<exists>a b. x # s = a @ q @ b"
    then obtain a b where e: "x # s = a @ q @ b" by blast
    show "contains_sub q (x # s)"
    proof (cases a)
      case Nil
      then have "prefix q (x # s)" using e by (metis append_Nil prefixI)
      then show ?thesis by simp
    next
      case (Cons y a')
      then show ?thesis using e \<open>contains_sub q s \<longleftrightarrow> (\<exists>a b. s = a @ q @ b)\<close> by auto
    qed
  qed
qed auto

lemma contains_sub_singleton [simp]: "contains_sub [x] s \<longleftrightarrow> x \<in> set s"
  by (induction s) (auto simp: prefix_def)

lemma append_sep_eq:
  assumes "c \<notin> set a"
  shows "a @ c # b = a' @ c # r \<longleftrightarrow> a' = a \<and> r = b \<or> (\<exists>a''. a' = a @ c # a'' \<and> b = a'' @ c # r)"
proof
  assume "a @ c # b = a' @ c # r"
  then obtain us where "a = a' @ us \<and> us @ c # b = c # r \<or> a @ us = a' \<and> c # b = us @ c # r"
    by (auto simp: append_eq_append_conv2)
  then show "a' = a \<and> r = b \<or> (\<exists>a''. a' = a @ c # a'' \<and> b = a'' @ c # r)"
    using assms by (cases us) auto
qed auto

text \<open>
  The parts of a string are the maximal runs without the separator: a list is a part iff it is
  free of the separator and bounded by separators or the ends.
\<close>

lemma in_split_iff:
  "x \<in> set (split c s) \<longleftrightarrow> c \<notin> set x \<and>
     (s = x \<or> (\<exists>b. s = x @ c # b) \<or> (\<exists>a. s = a @ c # x) \<or> (\<exists>a b. s = a @ c # x @ c # b))"
proof (induction "length s" arbitrary: s rule: less_induct)
  case less
  show ?case
  proof (cases "c \<in> set s")
    case False
    then show ?thesis by (auto simp: split_no_sep)
  next
    case True
    then obtain a b where s: "s = a @ c # b" "c \<notin> set a" by (meson split_list_first)
    have IH: "x \<in> set (split c b) \<longleftrightarrow> c \<notin> set x \<and>
        (b = x \<or> (\<exists>b'. b = x @ c # b') \<or> (\<exists>a'. b = a' @ c # x) \<or> (\<exists>a' b'. b = a' @ c # x @ c # b'))"
      using less [of b] s(1) by simp
    show ?thesis
    proof (cases "c \<in> set x")
      case True
      then show ?thesis using set_split by fastforce
    next
      case False
      have "\<not> s = x" using False s(1) by auto
      moreover have "(\<exists>b'. s = x @ c # b') \<longleftrightarrow> x = a"
        unfolding s(1) append_sep_eq [OF s(2)] using False by auto
      moreover have "(\<exists>a'. s = a' @ c # x) \<longleftrightarrow> x = b \<or> (\<exists>a'. b = a' @ c # x)"
        unfolding s(1) append_sep_eq [OF s(2)] by auto
      moreover have "(\<exists>a' b'. s = a' @ c # x @ c # b') \<longleftrightarrow>
          (\<exists>b'. b = x @ c # b') \<or> (\<exists>a' b'. b = a' @ c # x @ c # b')"
        unfolding s(1) append_sep_eq [OF s(2)] by auto
      moreover have "x \<in> set (split c s) \<longleftrightarrow> x = a \<or> x \<in> set (split c b)" by (simp add: s split_append_sep)
      ultimately show ?thesis using IH False by blast
    qed
  qed
qed

text \<open>A pattern free of the separator, somewhere in a part, at its start or at its end.\<close>

lemma part_contains:
  assumes "c \<notin> set q" and "q \<noteq> []"
  shows "(\<exists>x \<in> set (split c s). contains_sub q x) \<longleftrightarrow> contains_sub q s"
proof (induction "length s" arbitrary: s rule: less_induct)
  case less
  show ?case
  proof (cases "c \<in> set s")
    case False
    then show ?thesis by (simp add: split_no_sep)
  next
    case True
    then obtain a b where s: "s = a @ c # b" "c \<notin> set a" by (meson split_list_first)
    have "contains_sub q (a @ c # b) \<longleftrightarrow> contains_sub q a \<or> contains_sub q b"
    proof
      assume "contains_sub q (a @ c # b)"
      then obtain u v where e: "a @ c # b = u @ q @ v" by (auto simp: contains_sub_iff)
      then obtain w where "a = u @ w \<and> w @ c # b = q @ v \<or> a @ w = u \<and> c # b = w @ q @ v"
        by (auto simp: append_eq_append_conv2)
      then show "contains_sub q a \<or> contains_sub q b"
      proof
        assume h: "a = u @ w \<and> w @ c # b = q @ v"
        then obtain z where "w = q @ z \<and> z @ c # b = v \<or> w @ z = q \<and> c # b = z @ v"
          by (auto simp: append_eq_append_conv2)
        then show ?thesis
        proof
          assume "w = q @ z \<and> z @ c # b = v"
          then show ?thesis using h by (auto simp: contains_sub_iff)
        next
          assume "w @ z = q \<and> c # b = z @ v"
          then have "a = u @ q @ []" using h assms(1) by (cases z) auto
          then show ?thesis unfolding contains_sub_iff by blast
        qed
      next
        assume "a @ w = u \<and> c # b = w @ q @ v"
        then show ?thesis using assms by (cases w; cases q) (auto simp: contains_sub_iff)
      qed
    next
      assume "contains_sub q a \<or> contains_sub q b"
      then show "contains_sub q (a @ c # b)" by (auto simp: contains_sub_iff) (metis append.assoc append_Cons)+
    qed
    then show ?thesis using less [of b] s by (simp add: split_append_sep)
  qed
qed

lemma part_prefix:
  assumes "c \<notin> set q"
  shows "(\<exists>x \<in> set (split c s). prefix q x) \<longleftrightarrow> prefix q s \<or> contains_sub (c # q) s"
proof
  assume "\<exists>x \<in> set (split c s). prefix q x"
  then obtain x r where "x \<in> set (split c s)" "x = q @ r" by (auto simp: prefix_def)
  then show "prefix q s \<or> contains_sub (c # q) s"
    unfolding in_split_iff contains_sub_iff prefix_def by auto
next
  assume "prefix q s \<or> contains_sub (c # q) s"
  then show "\<exists>x \<in> set (split c s). prefix q x"
  proof
    assume "prefix q s"
    then obtain r where r: "s = q @ r" by (auto simp: prefix_def)
    show ?thesis
    proof (cases "c \<in> set r")
      case False
      then show ?thesis using assms r by (auto simp: split_no_sep)
    next
      case True
      then obtain u v where "r = u @ c # v" "c \<notin> set u" by (meson split_list_first)
      then show ?thesis using assms r split_append_sep [of c "q @ u" v] by auto
    qed
  next
    assume "contains_sub (c # q) s"
    then obtain a r where r: "s = a @ c # q @ r" by (auto simp: contains_sub_iff)
    show ?thesis
    proof (cases "c \<in> set r")
      case False
      then have "q @ r \<in> set (split c s)" unfolding in_split_iff using assms r by auto
      then show ?thesis by (rule bexI [rotated]) simp
    next
      case True
      then obtain u v where "r = u @ c # v" "c \<notin> set u" by (meson split_list_first)
      then have "q @ u \<in> set (split c s)" unfolding in_split_iff using assms r by auto
      then show ?thesis by (rule bexI [rotated]) simp
    qed
  qed
qed

lemma rev_split: "rev (map rev (split c s)) = split c (rev s)"
proof (induction "length s" arbitrary: s rule: less_induct)
  case less
  show ?case
  proof (cases "c \<in> set s")
    case False
    then show ?thesis by (simp add: split_no_sep)
  next
    case True
    then obtain a b where s: "s = a @ c # b" "c \<notin> set b" by (meson split_list_last)
    have "split c s = split c a @ [b]"
      using s(2) by (simp add: s(1) split_snoc_sep split_no_sep)
    then show ?thesis using less [of a] s by (simp add: split_append_sep)
  qed
qed

lemma part_suffix:
  assumes "c \<notin> set q"
  shows "(\<exists>x \<in> set (split c s). suffix q x) \<longleftrightarrow> suffix q s \<or> contains_sub (q @ [c]) s"
proof -
  have "set (split c (rev s)) = rev ` set (split c s)" by (simp flip: rev_split)
  then have "(\<exists>x \<in> set (split c s). suffix q x) \<longleftrightarrow> (\<exists>x \<in> set (split c (rev s)). prefix (rev q) x)"
    by (simp add: suffix_to_prefix)
  also have "\<dots> \<longleftrightarrow> prefix (rev q) (rev s) \<or> contains_sub (c # rev q) (rev s)"
    using assms by (intro part_prefix) simp
  also have "contains_sub (c # rev q) (rev s) \<longleftrightarrow> contains_sub (q @ [c]) s"
    unfolding contains_sub_iff by (metis append.assoc rev.simps(2) rev_append rev_rev_ident)
  finally show ?thesis by (simp add: suffix_to_prefix)
qed

lemma part_empty: "[] \<in> set (split c s) \<longleftrightarrow> s = [] \<or> prefix [c] s \<or> suffix [c] s \<or> contains_sub [c, c] s"
  unfolding in_split_iff contains_sub_iff prefix_def suffix_def by auto

subsection \<open>Trimming\<close>

lemma trim_left_id: "(\<And>q. q \<in> set seqs \<Longrightarrow> q \<noteq> [] \<Longrightarrow> \<not> prefix q s) \<Longrightarrow> trim_left seqs s = s"
  by (subst trim_left.simps) (auto split: option.splits simp: find_Some_iff)

lemma trim_left_no_more: "q \<in> set seqs \<Longrightarrow> q \<noteq> [] \<Longrightarrow> \<not> prefix q (trim_left seqs s)"
proof (induction seqs s rule: trim_left.induct)
  case (1 seqs s)
  then show ?case
    by (subst trim_left.simps) (auto split: option.splits simp: find_None_iff)
qed

lemma trim_left_suffix: "suffix (trim_left seqs s) s"
proof (induction seqs s rule: trim_left.induct)
  case (1 seqs s)
  show ?case
  proof (cases "find (\<lambda>q. q \<noteq> [] \<and> prefix q s) seqs")
    case (Some q)
    from "1.IH" [OF this] have "suffix (trim_left seqs (drop (length q) s)) s"
      using suffix_drop suffix_order.trans by blast
    then show ?thesis using Some by (subst trim_left.simps) simp
  qed (subst trim_left.simps, simp)
qed

lemma length_trim_le: "length (trim seqs s) \<le> length s"
proof -
  have "length (trim_left sq t) \<le> length t" for sq and t :: "'a list"
    by (rule suffix_length_le [OF trim_left_suffix])
  from this [of "map rev seqs" "rev (trim_left seqs s)"] this [of seqs s] show ?thesis
    by (simp add: trim_def)
qed

end
