(* ===== verification/Pktline.thy ===== *)
theory Pktline
  imports Codec Go_Strings
begin

text \<open>
  The pkt-line framing of the Git protocol: \<open>plumbing/format/pktline\<close> (\<open>common.go\<close>, \<open>length.go\<close>,
  \<open>pktline.go\<close>, \<open>error.go\<close>, \<open>scanner.go\<close>). A reader is the list of the bytes it still delivers,
  \<open>None\<close> the nil reader; a writer is the list of the bytes written. A read returns the length
  and the error together, as the code does (an \<open>ERR\<close> packet has both), with the caller's buffer
  as the call leaves it and the rest of the stream. Tracing has no effect on either.

  The results: what is written reads back packet by packet, a packet that does not fit the
  buffer is skipped as a whole, peeking shows what a read returns, and the scanner delivers
  the packets that were written.
\<close>

datatype pkt_error =
    ErrNilWriter | ErrNilReader | ErrNilError | ErrPayloadTooLong | ErrInvalidPktLen
  | ErrInvalidErrorLine | PktEOF | PktUnexpectedEOF | ErrBufferFull | ErrorLine bytes

definition PktErr :: int where "PktErr = -1"
definition Flush :: nat where "Flush = 0"
definition Delim :: nat where "Delim = 1"
definition ResponseEnd :: nat where "ResponseEnd = 2"
definition LenSize :: nat where "LenSize = 4"
definition MaxSize :: nat where "MaxSize = 65520"
definition MaxPayloadSize :: nat where "MaxPayloadSize = MaxSize - LenSize"

definition flushPkt :: bytes where "flushPkt = [0x30, 0x30, 0x30, 0x30]"
definition delimPkt :: bytes where "delimPkt = [0x30, 0x30, 0x30, 0x31]"
definition responseEndPkt :: bytes where "responseEndPkt = [0x30, 0x30, 0x30, 0x32]"
definition emptyPkt :: bytes where "emptyPkt = [0x30, 0x30, 0x30, 0x34]"
definition errPrefix :: bytes where "errPrefix = [0x45, 0x52, 0x52, 0x20]"

lemmas pkt_consts = PktErr_def Flush_def Delim_def ResponseEnd_def LenSize_def MaxSize_def MaxPayloadSize_def

subsection \<open>Lengths (length.go)\<close>

definition byteToASCIIHex :: "byte \<Rightarrow> byte" where
  "byteToASCIIHex n = (if n < 10 then 0x30 + n else 0x61 - 10 + n)"

definition asciiHex16 :: "nat \<Rightarrow> bytes" where
  "asciiHex16 n =
     [byteToASCIIHex (word_of_nat (drop_bit 12 (n AND 0xf000))),
      byteToASCIIHex (word_of_nat (drop_bit 8 (n AND 0x0f00))),
      byteToASCIIHex (word_of_nat (drop_bit 4 (n AND 0x00f0))),
      byteToASCIIHex (word_of_nat (n AND 0x000f))]"

definition asciiHexToByte :: "byte \<Rightarrow> byte option" where
  "asciiHexToByte b =
     (if 0x30 \<le> b \<and> b \<le> 0x39 then Some (b - 0x30)
      else if 0x61 \<le> b \<and> b \<le> 0x66 then Some (b - 0x61 + 10)
      else if 0x41 \<le> b \<and> b \<le> 0x46 then Some (b - 0x41 + 10)
      else None)"

fun hexDecode_loop :: "bytes \<Rightarrow> nat \<Rightarrow> pkt_error + nat" where
  "hexDecode_loop [] ret = Inr ret"
| "hexDecode_loop (b # bs) ret =
     (case asciiHexToByte b of
        None \<Rightarrow> Inl ErrInvalidPktLen
      | Some n \<Rightarrow> hexDecode_loop bs (16 * ret + unat n))"

definition hexDecode :: "bytes \<Rightarrow> pkt_error + nat" where
  "hexDecode buf = (if length buf < 4 then Inl ErrInvalidPktLen else hexDecode_loop (take LenSize buf) 0)"

text \<open>\<open>None\<close> is the nil slice.\<close>

definition ParseLength :: "bytes option \<Rightarrow> pkt_error + nat" where
  "ParseLength b =
     (case b of
        None \<Rightarrow> Inl ErrInvalidPktLen
      | Some buf \<Rightarrow>
          rbind (hexDecode buf) (\<lambda>n.
          if n = 3 then Inl ErrInvalidPktLen
          else if n > MaxSize then Inl ErrInvalidPktLen
          else Inr n))"

subsection \<open>Writing (pktline.go)\<close>

definition Write :: "bytes option \<Rightarrow> bytes \<Rightarrow> pkt_error + nat \<times> bytes" where
  "Write w p =
     (case w of
        None \<Rightarrow> Inl ErrNilWriter
      | Some out \<Rightarrow>
          if length p = 0 then Inr (length emptyPkt, out @ emptyPkt)
          else if length p > MaxPayloadSize then Inl ErrPayloadTooLong
          else let pktlen = length p + LenSize
               in Inr (length (asciiHex16 pktlen) + length p, out @ asciiHex16 pktlen @ p))"

definition Writeln :: "bytes option \<Rightarrow> bytes \<Rightarrow> pkt_error + nat \<times> bytes" where
  "Writeln w s = Write w (s @ [0x0a])"

definition WriteError :: "bytes option \<Rightarrow> bytes option \<Rightarrow> pkt_error + nat \<times> bytes" where
  "WriteError w e =
     (if w = None then Inl ErrNilWriter
      else case e of None \<Rightarrow> Inl ErrNilError | Some txt \<Rightarrow> Write w (errPrefix @ txt @ [0x0a]))"

definition write_special :: "bytes \<Rightarrow> bytes option \<Rightarrow> pkt_error + bytes" where
  "write_special pkt w = (case w of None \<Rightarrow> Inl ErrNilWriter | Some out \<Rightarrow> Inr (out @ pkt))"

definition WriteFlush :: "bytes option \<Rightarrow> pkt_error + bytes" where
  "WriteFlush w = write_special flushPkt w"

definition WriteDelim :: "bytes option \<Rightarrow> pkt_error + bytes" where
  "WriteDelim w = write_special delimPkt w"

definition WriteResponseEnd :: "bytes option \<Rightarrow> pkt_error + bytes" where
  "WriteResponseEnd w = write_special responseEndPkt w"

subsection \<open>Reading (pktline.go)\<close>

text \<open>\<open>copy(p[off:], d)\<close>, for a \<open>d\<close> that fits.\<close>

definition overwrite :: "'a list \<Rightarrow> nat \<Rightarrow> 'a list \<Rightarrow> 'a list" where
  "overwrite p off d = take off p @ d @ drop (off + length d) p"

text \<open>The error of \<open>io.ReadFull\<close> when only the bytes \<open>s\<close> were left.\<close>

definition short_read :: "bytes \<Rightarrow> pkt_error" where
  "short_read s = (if s = [] then PktEOF else PktUnexpectedEOF)"

definition error_line :: "bytes \<Rightarrow> pkt_error option" where
  "error_line payload =
     (if prefix errPrefix payload then Some (ErrorLine (TrimSpace (drop (length errPrefix) payload))) else None)"

text \<open>The result: length, error, buffer, rest of the stream.\<close>

type_synonym pkt_read = "int \<times> pkt_error option \<times> bytes \<times> bytes"

definition Read :: "bytes option \<Rightarrow> bytes \<Rightarrow> pkt_read" where
  "Read r p =
     (case r of
        None \<Rightarrow> (PktErr, Some ErrNilReader, p, [])
      | Some s \<Rightarrow>
          if length p < LenSize then (PktErr, Some ErrInvalidPktLen, p, s)
          else if length s < LenSize then
            (PktErr, Some (if short_read s = PktUnexpectedEOF then ErrInvalidPktLen else short_read s),
             overwrite p 0 s, [])
          else
            let p = overwrite p 0 (take LenSize s);
                s = drop LenSize s
            in (case ParseLength (Some p) of
                  Inl e \<Rightarrow> (PktErr, Some e, p, s)
                | Inr len \<Rightarrow>
                    if len = Flush \<or> len = Delim \<or> len = ResponseEnd \<or> len = LenSize then (int len, None, p, s)
                    else if len > length p then
                      (PktErr, Some PktUnexpectedEOF, p, drop (len - LenSize) s)
                    else if length s < len - LenSize then
                      (PktErr, Some (short_read s), overwrite p LenSize s, [])
                    else
                      let p = overwrite p LenSize (take (len - LenSize) s)
                      in (int len, error_line (take (len - LenSize) (drop LenSize p)), p,
                          drop (len - LenSize) s)))"

text \<open>
  \<open>ReadLine\<close> reads into a buffer of the pool, whose old contents do not matter; the payload is
  nil for the special packets and after an error other than an \<open>ERR\<close> packet.
\<close>

definition ReadLine :: "bytes \<Rightarrow> bytes option \<Rightarrow> int \<times> bytes option \<times> pkt_error option \<times> bytes" where
  "ReadLine buf r =
     (case Read r buf of (l, err, buf', rest) \<Rightarrow>
        if l < int LenSize then (l, None, err, rest)
        else (l, Some (take (nat l - LenSize) (drop LenSize buf')), err, rest))"

text \<open>
  \<open>Peek\<close> of a \<open>bufio.Reader\<close> whose buffer holds \<open>bufsize\<close> bytes: more than the buffer cannot be
  shown, and less than asked for is the end of the stream.
\<close>

definition Peek :: "nat \<Rightarrow> bytes \<Rightarrow> nat \<Rightarrow> pkt_error + bytes" where
  "Peek bufsize s n =
     (if n > bufsize then Inl ErrBufferFull else if length s < n then Inl PktEOF else Inr (take n s))"

definition PeekLine :: "nat \<Rightarrow> bytes option \<Rightarrow> int \<times> bytes option \<times> pkt_error option" where
  "PeekLine bufsize r =
     (case r of
        None \<Rightarrow> (PktErr, None, Some ErrNilReader)
      | Some s \<Rightarrow>
          (case rbind (Peek bufsize s LenSize) (\<lambda>n. ParseLength (Some n)) of
             Inl e \<Rightarrow> (PktErr, None, Some e)
           | Inr len \<Rightarrow>
               if len = Flush \<or> len = Delim \<or> len = ResponseEnd then (int len, None, None)
               else if len = LenSize then (int len, Some [], None)
               else (case Peek bufsize s len of
                       Inl e \<Rightarrow> (PktErr, None, Some e)
                     | Inr data \<Rightarrow>
                         let buf = drop LenSize data
                         in (int len, Some buf, error_line buf))))"

subsection \<open>Error lines (error.go)\<close>

definition ErrorLine_Encode :: "bytes \<Rightarrow> bytes option \<Rightarrow> pkt_error + bytes" where
  "ErrorLine_Encode txt w = rbind (Write w (errPrefix @ txt @ [0x0a])) (\<lambda>(n, out). Inr out)"

definition ErrorLine_Decode :: "bytes \<Rightarrow> bytes option \<Rightarrow> pkt_error + bytes" where
  "ErrorLine_Decode buf r =
     (case ReadLine buf r of (l, p, err, rest) \<Rightarrow>
        (case err of Some (ErrorLine txt) \<Rightarrow> Inr txt | _ \<Rightarrow> Inl ErrInvalidErrorLine))"

subsection \<open>The scanner (scanner.go)\<close>

record pkt_scanner =
  sc_r :: "bytes option"
  sc_err :: "pkt_error option"
  sc_buf :: bytes
  sc_n :: int

definition NewScanner :: "bytes option \<Rightarrow> pkt_scanner" where
  "NewScanner r = \<lparr>sc_r = r, sc_err = None, sc_buf = replicate MaxSize 0, sc_n = 0\<rparr>"

definition Scan :: "pkt_scanner \<Rightarrow> bool \<times> pkt_scanner" where
  "Scan s =
     (if sc_r s = None then (False, s)
      else (case Read (sc_r s) (sc_buf s) of (n, err, buf, rest) \<Rightarrow>
              let s = s\<lparr>sc_r := Some rest, sc_buf := buf, sc_n := n, sc_err := err\<rparr>
              in if err = Some PktEOF then (False, s\<lparr>sc_err := None\<rparr>)
                 else (err = None, s)))"

definition Scanner_Bytes :: "pkt_scanner \<Rightarrow> bytes option" where
  "Scanner_Bytes s =
     (if sc_n s \<ge> int LenSize then Some (take (nat (sc_n s) - LenSize) (drop LenSize (sc_buf s))) else None)"

subsection \<open>Hexadecimal lengths read back\<close>

lemma hex_digit: "unat b < 16 \<Longrightarrow> asciiHexToByte (byteToASCIIHex b) = Some b"
proof -
  assume "unat b < 16"
  moreover have "list_all (\<lambda>k. asciiHexToByte (byteToASCIIHex (word_of_nat k)) = Some (word_of_nat k)) [0..<16]"
    by code_simp
  ultimately have "asciiHexToByte (byteToASCIIHex (word_of_nat (unat b))) = Some (word_of_nat (unat b))"
    unfolding list_all_iff by (metis atLeastLessThan_iff set_upt zero_le)
  then show ?thesis by simp
qed

lemma nibbles:
  "drop_bit 12 (n AND 0xf000) = n div 4096 mod 16" "drop_bit 8 (n AND 0x0f00) = n div 256 mod 16"
  "drop_bit 4 (n AND 0x00f0) = n div 16 mod 16" "n AND 0x000f = n mod 16" for n :: nat
proof -
  have m: "k AND 15 = k mod 16" for k :: nat
    using take_bit_eq_mask [of 4 k] by (simp add: mask_eq_exp_minus_1 take_bit_eq_mod)
  have "drop_bit 12 (61440 :: nat) = 15" "drop_bit 8 (3840 :: nat) = 15" "drop_bit 4 (240 :: nat) = 15"
    by (simp_all add: drop_bit_eq_div)
  then show "drop_bit 12 (n AND 0xf000) = n div 4096 mod 16" "drop_bit 8 (n AND 0x0f00) = n div 256 mod 16"
    "drop_bit 4 (n AND 0x00f0) = n div 16 mod 16" "n AND 0x000f = n mod 16"
    by (simp_all add: m drop_bit_and, simp_all add: drop_bit_eq_div)
qed

lemma length_asciiHex16 [simp]: "length (asciiHex16 n) = 4"
  by (simp add: asciiHex16_def)

lemma hexDecode_asciiHex16: "n < 65536 \<Longrightarrow> hexDecode (asciiHex16 n @ rest) = Inr n"
proof -
  assume "n < 65536"
  have u: "unat (word_of_nat (k mod 16) :: byte) = k mod 16" for k
    by (simp add: unat_of_nat take_bit_nat_eq_self)
  then have "asciiHexToByte (byteToASCIIHex (word_of_nat (k mod 16))) = Some (word_of_nat (k mod 16))" for k
    by (intro hex_digit) simp
  then have "hexDecode (asciiHex16 n @ rest) =
      Inr (16 * (16 * (16 * (n div 4096 mod 16) + n div 256 mod 16) + n div 16 mod 16) + n mod 16)"
    unfolding asciiHex16_def nibbles by (simp add: hexDecode_def LenSize_def u)
  also have "16 * (16 * (16 * (n div 4096 mod 16) + n div 256 mod 16) + n div 16 mod 16) + n mod 16 = n"
  proof -
    have "16 * (k div 16 mod 16) + k mod 16 = k mod 256" for k :: nat using mod_mult2_eq [of k 16 16] by simp
    moreover have "256 * (k div 256 mod 16) + k mod 256 = k mod 4096" for k :: nat using mod_mult2_eq [of k 256 16] by simp
    moreover have "4096 * (k div 4096 mod 16) + k mod 4096 = k mod 65536" for k :: nat using mod_mult2_eq [of k 4096 16] by simp
    ultimately have "4096 * (n div 4096 mod 16) + (256 * (n div 256 mod 16) + (16 * (n div 16 mod 16) + n mod 16)) = n mod 65536"
      by simp
    then show ?thesis using \<open>n < 65536\<close> by simp
  qed
  finally show ?thesis .
qed

lemma hexDecode_take [simp]: "length b = 4 \<Longrightarrow> hexDecode (b @ rest) = hexDecode b"
  by (simp add: hexDecode_def LenSize_def)

lemma ParseLength_asciiHex16:
  "n \<le> MaxSize \<Longrightarrow> n \<noteq> 3 \<Longrightarrow> ParseLength (Some (asciiHex16 n @ rest)) = Inr n"
  using hexDecode_asciiHex16 [of n rest] by (simp add: ParseLength_def MaxSize_def)

text \<open>The four fixed packets are the lengths 0, 1, 2 and 4.\<close>

lemma fixed_packets:
  "flushPkt = asciiHex16 Flush" "delimPkt = asciiHex16 Delim" "responseEndPkt = asciiHex16 ResponseEnd"
  "emptyPkt = asciiHex16 LenSize"
  by (simp_all add: asciiHex16_def flushPkt_def delimPkt_def responseEndPkt_def emptyPkt_def Flush_def
      Delim_def ResponseEnd_def LenSize_def byteToASCIIHex_def drop_bit_and)

lemma ParseLength_bounds:
  assumes "ParseLength b = Inr n"
  shows "n \<le> MaxSize \<and> n \<noteq> 3"
  using assms by (auto simp: ParseLength_def result_simps split: option.splits if_splits)

lemma overwrite_0: "overwrite p 0 d = d @ drop (length d) p"
  by (simp add: overwrite_def)

lemma length_overwrite [simp]: "off + length d \<le> length p \<Longrightarrow> length (overwrite p off d) = length p"
  by (simp add: overwrite_def)

lemma ParseLength_buffer:
  "length h = 4 \<Longrightarrow> ParseLength (Some (overwrite p 0 h)) = ParseLength (Some h)"
  by (simp add: ParseLength_def overwrite_0)

subsection \<open>One packet\<close>

text \<open>The case distinction of a read, over the four bytes of the header and what follows.\<close>

lemma Read_header:
  assumes "length p \<ge> 4" and "n \<le> MaxSize" and "n \<noteq> 3"
  shows "Read (Some (asciiHex16 n @ s)) p =
    (if n = Flush \<or> n = Delim \<or> n = ResponseEnd \<or> n = LenSize
     then (int n, None, overwrite p 0 (asciiHex16 n), s)
     else if n > length p
     then (PktErr, Some PktUnexpectedEOF, overwrite p 0 (asciiHex16 n), drop (n - 4) s)
     else if length s < n - 4
     then (PktErr, Some (short_read s), overwrite (overwrite p 0 (asciiHex16 n)) 4 s, [])
     else let p' = overwrite (overwrite p 0 (asciiHex16 n)) 4 (take (n - 4) s)
          in (int n, error_line (take (n - 4) (drop 4 p')), p', drop (n - 4) s))"
proof -
  have "ParseLength (Some (overwrite p 0 (asciiHex16 n))) = Inr n"
    using ParseLength_asciiHex16 [OF assms(2,3), of "[]"] by (simp add: ParseLength_buffer)
  then show ?thesis using assms(1) by (simp add: Read_def LenSize_def Let_def)
qed

lemma Read_special:
  assumes "length p \<ge> 4" and "n = Flush \<or> n = Delim \<or> n = ResponseEnd \<or> n = LenSize"
  shows "Read (Some (asciiHex16 n @ rest)) p = (int n, None, overwrite p 0 (asciiHex16 n), rest)"
proof -
  have "n \<le> MaxSize" "n \<noteq> 3" using assms(2) by (auto simp: pkt_consts)
  then show ?thesis using assms by (simp add: Read_header)
qed

lemma Read_data:
  assumes "length p \<ge> 4" and "d \<noteq> []" and "length d \<le> MaxPayloadSize"
  shows "Read (Some (asciiHex16 (length d + 4) @ d @ rest)) p =
    (if length d + 4 \<le> length p
     then (int (length d) + 4, error_line d, asciiHex16 (length d + 4) @ d @ drop (length d + 4) p, rest)
     else (PktErr, Some PktUnexpectedEOF, overwrite p 0 (asciiHex16 (length d + 4)), rest))"
proof -
  define n where "n = length d + 4"
  have n: "n \<le> MaxSize" "n \<noteq> 3" "n \<noteq> Flush" "n \<noteq> Delim" "n \<noteq> ResponseEnd" "n \<noteq> LenSize" "n - 4 = length d"
    using assms by (auto simp: pkt_consts n_def)
  have "overwrite (overwrite p 0 (asciiHex16 n)) 4 d = asciiHex16 n @ d @ drop n p"
    by (simp add: overwrite_def n_def add.commute)
  then have "Read (Some (asciiHex16 n @ d @ rest)) p =
    (if n \<le> length p then (int n, error_line d, asciiHex16 n @ d @ drop n p, rest)
     else (PktErr, Some PktUnexpectedEOF, overwrite p 0 (asciiHex16 n), rest))"
    using assms(1) n by (simp add: Read_header [OF assms(1) n(1,2)] Let_def)
  then show ?thesis by (simp add: n_def)
qed

text \<open>What any read may return, on any input: the rows are error, special packet, data packet.\<close>

definition read_contract :: "bytes \<Rightarrow> bytes \<Rightarrow> pkt_read \<Rightarrow> bool" where
  "read_contract s p res \<longleftrightarrow>
     (case res of (l, err, p', rest) \<Rightarrow>
        length p' = length p \<and> suffix rest s \<and>
        (l = PktErr \<and> err \<noteq> None \<and> (\<forall>t. err \<noteq> Some (ErrorLine t)) \<or>
         (l = 0 \<or> l = 1 \<or> l = 2) \<and> err = None \<and> length s = 4 + length rest \<or>
         4 \<le> l \<and> l \<le> int (length p) \<and> l \<le> int MaxSize \<and> length s = nat l + length rest \<and>
         take (nat l - 4) (drop 4 p') = take (nat l - 4) (drop 4 s) \<and>
         err = error_line (take (nat l - 4) (drop 4 s))))"

lemma ParseLength_errors: "ParseLength b = Inl e \<Longrightarrow> e = ErrInvalidPktLen"
proof -
  have "hexDecode_loop bs n = Inl e \<Longrightarrow> e = ErrInvalidPktLen" for bs n
    by (induction bs n rule: hexDecode_loop.induct) (auto split: option.splits)
  then show "ParseLength b = Inl e \<Longrightarrow> e = ErrInvalidPktLen"
    by (auto simp: ParseLength_def hexDecode_def result_simps split: option.splits if_splits)
qed

lemma error_line_Nil [simp]: "error_line [] = None"
  by (simp add: error_line_def errPrefix_def)

lemma Read_long:
  assumes "\<not> length p < 4" and "\<not> length s < 4"
  defines "p1 \<equiv> overwrite p 0 (take 4 s)"
  shows "Read (Some s) p =
      (case ParseLength (Some p1) of
         Inl e \<Rightarrow> (PktErr, Some e, p1, drop 4 s)
       | Inr len \<Rightarrow>
           if len = 0 \<or> len = 1 \<or> len = 2 \<or> len = 4 then (int len, None, p1, drop 4 s)
           else if len > length p1 then (PktErr, Some PktUnexpectedEOF, p1, drop (len - 4) (drop 4 s))
           else if length (drop 4 s) < len - 4 then (PktErr, Some (short_read (drop 4 s)), overwrite p1 4 (drop 4 s), [])
           else let p = overwrite p1 4 (take (len - 4) (drop 4 s))
                in (int len, error_line (take (len - 4) (drop 4 p)), p, drop (len - 4) (drop 4 s)))"
  unfolding Read_def LenSize_def Flush_def Delim_def ResponseEnd_def Let_def p1_def using assms(1,2) by simp

lemma read_contract_Read: "read_contract s p (Read (Some s) p)"
proof (cases "length p < 4 \<or> length s < 4")
  case True
  then show ?thesis
    by (auto simp: Read_def read_contract_def LenSize_def short_read_def suffix_def PktErr_def)
next
  case False
  define p1 where "p1 = overwrite p 0 (take 4 s)"
  have l1: "length p1 = length p" using False by (simp add: p1_def)
  from False have "\<not> length p < 4" "\<not> length s < 4" by simp_all
  note R = Read_long [OF this, folded p1_def]
  show ?thesis
  proof (cases "ParseLength (Some p1)")
    case (Inl e)
    then show ?thesis using R l1 ParseLength_errors [OF Inl] suffix_drop by (auto simp: read_contract_def)
  next
    case (Inr n)
    from ParseLength_bounds [OF Inr] have n: "n \<le> MaxSize" "n \<noteq> 3" by simp_all
    consider "n = 0 \<or> n = 1 \<or> n = 2 \<or> n = 4" | "5 \<le> n" "n > length p" | "5 \<le> n" "n \<le> length p" "length s < n"
      | "5 \<le> n" "n \<le> length p" "n \<le> length s" using n(2) by linarith
    then show ?thesis
    proof cases
      case 1
      then have "Read (Some s) p = (int n, None, p1, drop 4 s)" using R Inr by simp
      then show ?thesis using 1 l1 False n(1) suffix_drop [of 4 s] by (auto simp: read_contract_def)
    next
      case 2
      then show ?thesis using R Inr l1 suffix_drop [of n s] by (simp add: read_contract_def)
    next
      case 3
      then have "length s - 4 < n - 4" using False by simp
      then have "Read (Some s) p = (PktErr, Some (short_read (drop 4 s)), overwrite p1 4 (drop 4 s), [])"
        using 3 R Inr l1 by simp
      then show ?thesis using 3 l1 by (simp add: read_contract_def short_read_def)
    next
      case 4
      define q where "q = overwrite p1 4 (take (n - 4) (drop 4 s))"
      have q: "length q = length p" "take (n - 4) (drop 4 q) = take (n - 4) (drop 4 s)"
        using 4 l1 by (simp_all add: q_def overwrite_def)
      have "Read (Some s) p = (int n, error_line (take (n - 4) (drop 4 q)), q, drop n s)"
        using 4 R Inr l1 by (simp add: q_def Let_def)
      then show ?thesis using 4 q n(1) suffix_drop [of n s] by (simp add: read_contract_def)
    qed
  qed
qed

lemmas Read_contractD = read_contract_Read [unfolded read_contract_def]

subsection \<open>Peeking\<close>

text \<open>The payload \<open>ReadLine\<close> returns does not depend on the contents of the pooled buffer.\<close>

lemma ReadLine_long:
  assumes "length buf = MaxSize" and "4 \<le> length s"
  shows "ReadLine buf (Some s) =
    (case ParseLength (Some (take 4 s)) of
       Inl e \<Rightarrow> (PktErr, None, Some e, drop 4 s)
     | Inr n \<Rightarrow>
         if n = 0 \<or> n = 1 \<or> n = 2 then (int n, None, None, drop 4 s)
         else if n = 4 then (4, Some [], None, drop 4 s)
         else if length s < n then (PktErr, None, Some (short_read (drop 4 s)), [])
         else (int n, Some (take (n - 4) (drop 4 s)), error_line (take (n - 4) (drop 4 s)), drop n s))"
proof -
  define p1 where "p1 = overwrite buf 0 (take 4 s)"
  have l1: "length p1 = MaxSize" using assms by (simp add: p1_def MaxSize_def)
  have "\<not> length buf < 4" "\<not> length s < 4" using assms by (simp_all add: MaxSize_def)
  note R = Read_long [OF this, folded p1_def]
  have pl: "ParseLength (Some p1) = ParseLength (Some (take 4 s))"
    using assms(2) by (simp add: p1_def ParseLength_buffer)
  show ?thesis
  proof (cases "ParseLength (Some (take 4 s))")
    case (Inl e)
    then show ?thesis using R pl by (simp add: ReadLine_def PktErr_def LenSize_def)
  next
    case (Inr n)
    from ParseLength_bounds [OF this] have n: "n \<le> MaxSize" "n \<noteq> 3" by simp_all
    consider "n = 0 \<or> n = 1 \<or> n = 2 \<or> n = 4" | "5 \<le> n" "length s < n" | "5 \<le> n" "n \<le> length s"
      using n(2) by linarith
    then show ?thesis
    proof cases
      case 1
      then have "Read (Some s) buf = (int n, None, p1, drop 4 s)" using R pl Inr by simp
      then show ?thesis using 1 Inr by (auto simp: ReadLine_def LenSize_def)
    next
      case 2
      then have "length s - 4 < n - 4" using assms(2) by simp
      then have "Read (Some s) buf = (PktErr, Some (short_read (drop 4 s)), overwrite p1 4 (drop 4 s), [])"
        using 2 R pl Inr l1 n by simp
      then show ?thesis using 2 Inr by (simp add: ReadLine_def PktErr_def LenSize_def)
    next
      case 3
      define q where "q = overwrite p1 4 (take (n - 4) (drop 4 s))"
      have q: "take (n - 4) (drop 4 q) = take (n - 4) (drop 4 s)"
        using 3 l1 n by (simp add: q_def overwrite_def MaxSize_def)
      have "Read (Some s) buf = (int n, error_line (take (n - 4) (drop 4 q)), q, drop n s)"
        using 3 R pl Inr l1 n by (simp add: q_def Let_def)
      then show ?thesis using 3 q Inr by (simp add: ReadLine_def LenSize_def)
    qed
  qed
qed

lemma PeekLine_long:
  assumes "MaxSize \<le> bufsize" and "4 \<le> length s"
  shows "PeekLine bufsize (Some s) =
    (case ParseLength (Some (take 4 s)) of
       Inl e \<Rightarrow> (PktErr, None, Some e)
     | Inr n \<Rightarrow>
         if n = 0 \<or> n = 1 \<or> n = 2 then (int n, None, None)
         else if n = 4 then (4, Some [], None)
         else if length s < n then (PktErr, None, Some PktEOF)
         else (int n, Some (take (n - 4) (drop 4 s)), error_line (take (n - 4) (drop 4 s))))"
proof -
  have p4: "Peek bufsize s 4 = Inr (take 4 s)" using assms by (simp add: Peek_def MaxSize_def)
  have pn: "Peek bufsize s n = (if length s < n then Inl PktEOF else Inr (take n s))"
    if "ParseLength (Some (take 4 s)) = Inr n" for n
    using ParseLength_bounds [OF that] assms(1) by (simp add: Peek_def)
  show ?thesis
    unfolding PeekLine_def Flush_def Delim_def ResponseEnd_def LenSize_def Let_def option.case p4
    using assms(2) by (cases "ParseLength (Some (take 4 s))") (simp_all add: pn drop_take)
qed

lemma line_short:
  assumes "length buf = MaxSize" and "MaxSize \<le> bufsize" and "length s < 4"
  shows "fst (ReadLine buf (Some s)) = PktErr" "fst (PeekLine bufsize (Some s)) = PktErr"
  using assms by (simp_all add: ReadLine_def Read_def PeekLine_def Peek_def pkt_consts)

subsection \<open>Sequences of packets\<close>

text \<open>A packet, and writing it with the operation of the package for its kind.\<close>

datatype pkt = DataPkt bytes | FlushPkt | DelimPkt | ResponseEndPkt

fun write_pkt :: "pkt \<Rightarrow> bytes \<Rightarrow> pkt_error + bytes" where
  "write_pkt (DataPkt d) out = rbind (Write (Some out) d) (\<lambda>(n, out'). Inr out')"
| "write_pkt FlushPkt out = WriteFlush (Some out)"
| "write_pkt DelimPkt out = WriteDelim (Some out)"
| "write_pkt ResponseEndPkt out = WriteResponseEnd (Some out)"

fun write_pkts :: "pkt list \<Rightarrow> bytes \<Rightarrow> pkt_error + bytes" where
  "write_pkts [] out = Inr out"
| "write_pkts (p # ps) out = rbind (write_pkt p out) (write_pkts ps)"

text \<open>What the scanner shows of a packet: \<open>Len\<close> and \<open>Bytes\<close>.\<close>

fun pkt_shown :: "pkt \<Rightarrow> int \<times> bytes option" where
  "pkt_shown (DataPkt d) = (int (length d) + 4, Some d)"
| "pkt_shown FlushPkt = (0, None)"
| "pkt_shown DelimPkt = (1, None)"
| "pkt_shown ResponseEndPkt = (2, None)"

fun pkt_sendable :: "pkt \<Rightarrow> bool" where
  "pkt_sendable (DataPkt d) \<longleftrightarrow> length d \<le> MaxPayloadSize \<and> \<not> prefix errPrefix d"
| "pkt_sendable _ \<longleftrightarrow> True"

fun pkt_wire :: "pkt \<Rightarrow> bytes" where
  "pkt_wire (DataPkt d) = asciiHex16 (length d + 4) @ d"
| "pkt_wire FlushPkt = asciiHex16 0"
| "pkt_wire DelimPkt = asciiHex16 1"
| "pkt_wire ResponseEndPkt = asciiHex16 2"

lemma write_pkt_wire: "pkt_sendable p \<Longrightarrow> write_pkt p out = Inr (out @ pkt_wire p)"
  by (cases p) (auto simp: Write_def WriteFlush_def WriteDelim_def WriteResponseEnd_def write_special_def
      fixed_packets pkt_consts Let_def)

lemma write_pkts_wire:
  "list_all pkt_sendable ps \<Longrightarrow> write_pkts ps out = Inr (out @ concat (map pkt_wire ps))"
  by (induction ps arbitrary: out) (simp_all add: write_pkt_wire)

text \<open>The loop \<open>for s.Scan() { ... s.Len(), s.Bytes() ... }\<close> of the scanner's clients.\<close>

lemma Scan_consumes:
  assumes "Scan s = (True, s')"
  shows "length (the (sc_r s')) < length (the (sc_r s))"
proof -
  from assms obtain r where r: "sc_r s = Some r" by (auto simp: Scan_def split: if_splits)
  then show ?thesis using assms Read_contractD [where s = r and p = "sc_buf s"]
    by (auto simp: Scan_def Let_def PktErr_def split: prod.splits if_splits)
qed

function scan_all :: "pkt_scanner \<Rightarrow> (int \<times> bytes option) list \<times> pkt_scanner" where
  "scan_all s =
     (case Scan s of (ok, s') \<Rightarrow>
        if ok then (case scan_all s' of (xs, t) \<Rightarrow> ((sc_n s', Scanner_Bytes s') # xs, t)) else ([], s'))"
  by pat_completeness auto
termination
  by (relation "measure (\<lambda>s. length (the (sc_r s)))") (auto dest!: Scan_consumes [OF sym])

declare scan_all.simps [simp del]

lemma Scan_pkt:
  assumes "pkt_sendable p" and "sc_r s = Some (pkt_wire p @ rest)" and "length (sc_buf s) = MaxSize"
  shows "\<exists>s'. Scan s = (True, s') \<and> sc_r s' = Some rest \<and> length (sc_buf s') = MaxSize \<and>
    (sc_n s', Scanner_Bytes s') = pkt_shown p"
proof (cases p)
  case (DataPkt d)
  then have "length d + 4 \<le> MaxSize" "\<not> prefix errPrefix d" using assms(1) by (auto simp: pkt_consts)
  then show ?thesis using DataPkt assms Read_data [of "sc_buf s" d rest] Read_special [of "sc_buf s" LenSize rest]
    by (cases "d = []")
      (auto simp: Scan_def Scanner_Bytes_def error_line_def overwrite_0 pkt_consts)
qed (use assms Read_special [of "sc_buf s" _ rest] in
    \<open>auto simp: Scan_def Scanner_Bytes_def overwrite_0 pkt_consts\<close>)

lemma scan_all_wire:
  assumes "list_all pkt_sendable ps" and "sc_r s = Some (concat (map pkt_wire ps))" and "length (sc_buf s) = MaxSize"
  shows "fst (scan_all s) = map pkt_shown ps \<and> sc_err (snd (scan_all s)) = None"
  using assms
proof (induction ps arbitrary: s)
  case Nil
  then have "Scan s = (False, s\<lparr>sc_r := Some [], sc_buf := sc_buf s, sc_n := -1, sc_err := None\<rparr>)"
    by (simp add: Scan_def Read_def pkt_consts short_read_def overwrite_0 Let_def)
  then show ?case by (subst (1 2) scan_all.simps) simp
next
  case (Cons p ps)
  from Scan_pkt [of p s "concat (map pkt_wire ps)"] Cons.prems obtain s' where
    s': "Scan s = (True, s')" "sc_r s' = Some (concat (map pkt_wire ps))" "length (sc_buf s') = MaxSize"
      "(sc_n s', Scanner_Bytes s') = pkt_shown p" by auto
  from Cons.IH [OF _ s'(2,3)] Cons.prems(1) s'(1,4) show ?case
    by (cases "scan_all s'") (simp add: scan_all.simps [of s])
qed

text \<open>The framing of sendable packets is a codec; a read is its decoder.\<close>

definition read_pkt :: "bytes \<Rightarrow> pkt_error + pkt \<times> bytes" where
  "read_pkt s =
     (case ReadLine (replicate MaxSize 0) (Some s) of (l, p, err, rest) \<Rightarrow>
        (case err of
           Some e \<Rightarrow> Inl e
         | None \<Rightarrow> Inr (if l = 0 then FlushPkt else if l = 1 then DelimPkt else if l = 2 then ResponseEndPkt
                         else DataPkt (the p), rest)))"

interpretation pkt_codec: stream_codec pkt_wire read_pkt pkt_sendable
proof
  fix p rest
  assume p: "pkt_sendable p"
  define buf :: bytes where "buf = replicate MaxSize 0"
  have b: "length buf = MaxSize" by (simp add: buf_def)
  note r = read_pkt_def [folded buf_def]
  show "read_pkt (pkt_wire p @ rest) = Inr (p, rest)"
  proof (cases p)
    case (DataPkt d)
    have "ParseLength (Some (asciiHex16 (length d + 4))) = Inr (length d + 4)"
      using p DataPkt ParseLength_asciiHex16 [of "length d + 4" "[]"] by (simp add: pkt_consts)
    then show ?thesis using DataPkt p ReadLine_long [OF b, of "pkt_wire p @ rest"]
      by (simp add: r error_line_def)
  qed (use ReadLine_long [OF b, of "pkt_wire p @ rest"] ParseLength_asciiHex16 [of _ "[]"] in
      \<open>simp_all add: r MaxSize_def\<close>)
qed

subsection \<open>Properties\<close>

text \<open>
  \<^bold>\<open>C27\<close>. What is written is what is scanned: any sequence of data packets within the payload
  limit (that are not \<open>ERR\<close> packets) and special packets is accepted by the write operations,
  and a scanner over the bytes written delivers exactly these packets, in order, the special
  ones told apart by their length and empty payloads kept, and then ends without an error.
\<close>

theorem scan_written_packets:
  assumes "list_all pkt_sendable ps"
  shows "\<exists>wire. write_pkts ps [] = Inr wire \<and>
    fst (scan_all (NewScanner (Some wire))) = map pkt_shown ps \<and>
    sc_err (snd (scan_all (NewScanner (Some wire)))) = None"
  using assms scan_all_wire [OF assms, of "NewScanner (Some (concat (map pkt_wire ps)))"]
  by (simp add: write_pkts_wire NewScanner_def)

lemma scan_written_packets_witness:
  "list_all pkt_sendable [DataPkt [0x68, 0x69], DelimPkt, DataPkt [], FlushPkt] \<and>
   (\<exists>wire. write_pkts [DataPkt [0x68, 0x69], DelimPkt, DataPkt [], FlushPkt] [] = Inr wire \<and>
      fst (scan_all (NewScanner (Some wire))) = [(6, Some [0x68, 0x69]), (1, None), (4, Some []), (0, None)])"
  using scan_written_packets [of "[DataPkt [0x68, 0x69], DelimPkt, DataPkt [], FlushPkt]"]
  by (auto simp: pkt_consts errPrefix_def)

text \<open>
  On any bytes and any buffer, \<open>Read\<close> keeps to its contract: it returns an error with
  length -1; or one of the special lengths, having consumed the four bytes of the header; or
  a length between 4 and the size of the buffer, having consumed exactly that many bytes and
  placed the payload in the buffer, where the error tells whether the packet is an \<open>ERR\<close> packet.
  It never writes past the buffer, and the length 3 is never returned.
\<close>

theorem Read_keeps_contract: "read_contract s p (Read (Some s) p)"
  by (rule read_contract_Read)

text \<open>
  \<^bold>\<open>C38\<close>. The stream stays in sync: after a packet whose length header announces its payload,
  \<open>Read\<close> leaves the stream at the next packet, whether the packet fits the caller's buffer or
  is too long for it and discarded with an error.
\<close>

theorem Read_stays_in_sync:
  assumes "4 \<le> length p" and "length d \<le> MaxPayloadSize"
  shows "\<exists>l err p'. Read (Some (asciiHex16 (length d + 4) @ d @ rest)) p = (l, err, p', rest) \<and>
    (if d = [] \<or> length d + 4 \<le> length p then l = int (length d) + 4 \<and> take (length d) (drop 4 p') = d
     else l = PktErr \<and> err = Some PktUnexpectedEOF)"
  using assms Read_data [of p d rest] Read_special [of p LenSize rest]
  by (cases "d = []") (auto simp: LenSize_def)

lemma Read_stays_in_sync_witness:
  "(\<exists>l err p'. Read (Some (asciiHex16 6 @ [0x68, 0x69] @ flushPkt)) [0, 0, 0, 0, 0] = (l, err, p', flushPkt) \<and>
     l = PktErr \<and> err = Some PktUnexpectedEOF)"
  using Read_stays_in_sync [of "[0, 0, 0, 0, 0]" "[0x68, 0x69]" flushPkt] by (simp add: pkt_consts)

text \<open>
  Peeking shows what reading returns: with a read buffer that holds a whole packet,
  \<open>PeekLine\<close> returns a length, payload and error (an \<open>ERR\<close> packet included) iff \<open>ReadLine\<close> on the
  same stream returns them, consuming that packet and nothing else.
\<close>

theorem PeekLine_iff_ReadLine:
  assumes "length buf = MaxSize" and "MaxSize \<le> bufsize" and "0 \<le> l"
  shows "PeekLine bufsize (Some s) = (l, p, err) \<longleftrightarrow>
    ReadLine buf (Some s) = (l, p, err, drop (max 4 (nat l)) s)"
proof (cases "length s < 4")
  case True
  from line_short [OF assms(1,2) this] assms(3) show ?thesis
    by (auto simp: PktErr_def)
next
  case False
  then have "4 \<le> length s" by simp
  from ReadLine_long [OF assms(1) this] PeekLine_long [OF assms(2) this] assms(3) show ?thesis
    by (cases "ParseLength (Some (take 4 s))") (auto simp: PktErr_def max_def dest!: ParseLength_bounds)
qed

lemma PeekLine_iff_ReadLine_witness:
  "(0 :: int) \<le> 6 \<and> (PeekLine MaxSize (Some (asciiHex16 6 @ [0x68, 0x69] @ flushPkt)) = (6, Some [0x68, 0x69], None) \<longleftrightarrow>
     ReadLine (replicate MaxSize 0) (Some (asciiHex16 6 @ [0x68, 0x69] @ flushPkt)) =
       (6, Some [0x68, 0x69], None, flushPkt))"
  using PeekLine_iff_ReadLine [of "replicate MaxSize 0" MaxSize 6 "asciiHex16 6 @ [0x68, 0x69] @ flushPkt"]
  by simp

end
