(* ===== verification/Filemode.thy ===== *)
theory Filemode
  imports Go_Prelude
begin

text \<open>
  File modes of tree entries: \<open>plumbing/filemode/filemode.go\<close>. A \<open>FileMode\<close> and an \<open>os.FileMode\<close>
  are 32-bit words; the bits of the latter are those of Go's \<open>io/fs\<close>. The two octal parsers
  (\<open>New\<close>, through \<open>strconv.ParseUint\<close>, and \<open>FromBytes\<close>) are shown to be the same function, both
  undo \<open>String\<close>, \<open>Canonical\<close> is the normal form its comment describes, and the conversion to
  modes of the operating system and back is the identity where the comment says so.
\<close>

type_synonym FileMode = u32
type_synonym os_FileMode = u32

datatype mode_error = EmptyMode | InvalidOctal | ModeTooWide | NoGitMode | MalformedMode

definition Empty :: FileMode where "Empty = 0"
definition Dir :: FileMode where "Dir = 0x4000"
definition Regular :: FileMode where "Regular = 0x81A4"
definition Deprecated :: FileMode where "Deprecated = 0x81B4"
definition Executable :: FileMode where "Executable = 0x81ED"
definition Symlink :: FileMode where "Symlink = 0xA000"
definition Submodule :: FileMode where "Submodule = 0xE000"

lemmas mode_defs = Empty_def Dir_def Regular_def Deprecated_def Executable_def Symlink_def Submodule_def

definition ModeDir :: os_FileMode where "ModeDir = 0x80000000"
definition ModeTemporary :: os_FileMode where "ModeTemporary = 0x10000000"
definition ModeSymlink :: os_FileMode where "ModeSymlink = 0x08000000"
definition ModeDevice :: os_FileMode where "ModeDevice = 0x04000000"
definition ModeNamedPipe :: os_FileMode where "ModeNamedPipe = 0x02000000"
definition ModeSocket :: os_FileMode where "ModeSocket = 0x01000000"
definition ModeCharDevice :: os_FileMode where "ModeCharDevice = 0x00200000"
definition ModeIrregular :: os_FileMode where "ModeIrregular = 0x00080000"
definition ModePerm :: os_FileMode where "ModePerm = 0x1FF"

definition ModeType :: os_FileMode where
  "ModeType = ModeDir OR ModeSymlink OR ModeNamedPipe OR ModeSocket OR ModeDevice OR ModeCharDevice OR ModeIrregular"

lemmas os_mode_defs = ModeDir_def ModeTemporary_def ModeSymlink_def ModeDevice_def ModeNamedPipe_def
  ModeSocket_def ModeCharDevice_def ModeIrregular_def ModePerm_def ModeType_def

subsection \<open>Parsing and printing\<close>

text \<open>\<open>strconv.ParseUint(s, 8, 32)\<close>: the digits are checked before the range, at each position.\<close>

fun ParseUint_loop :: "bytes \<Rightarrow> nat \<Rightarrow> mode_error + nat" where
  "ParseUint_loop [] n = Inr n"
| "ParseUint_loop (c # cs) n =
     (if c < 0x30 \<or> 0x37 < c then Inl InvalidOctal
      else if 8 * n + (unat c - 48) > 2 ^ 32 - 1 then Inl ModeTooWide
      else ParseUint_loop cs (8 * n + (unat c - 48)))"

definition New :: "bytes \<Rightarrow> mode_error + FileMode" where
  "New s = (if s = [] then Inl EmptyMode else rbind (ParseUint_loop s 0) (\<lambda>n. Inr (word_of_nat n)))"

fun FromBytes_loop :: "bytes \<Rightarrow> u32 \<Rightarrow> mode_error + FileMode" where
  "FromBytes_loop [] mode = Inr mode"
| "FromBytes_loop (c # cs) mode =
     (if c < 0x30 \<or> c > 0x37 then Inl InvalidOctal
      else if mode > drop_bit 3 0xFFFFFFFF then Inl ModeTooWide
      else FromBytes_loop cs (push_bit 3 mode OR ucast (c - 0x30)))"

definition FromBytes :: "bytes \<Rightarrow> mode_error + FileMode" where
  "FromBytes b = (if length b = 0 then Inl EmptyMode else FromBytes_loop b 0)"

text \<open>\<open>fmt.Sprintf("%07o", m)\<close>.\<close>

fun octal :: "nat \<Rightarrow> bytes" where
  "octal n = (if n < 8 then [] else octal (n div 8)) @ [0x30 + word_of_nat (n mod 8)]"

declare octal.simps [simp del]

definition FileMode_String :: "FileMode \<Rightarrow> bytes" where
  "FileMode_String m = (let ds = octal (unat m) in replicate (7 - length ds) 0x30 @ ds)"

definition FileMode_Bytes :: "FileMode \<Rightarrow> bytes" where
  "FileMode_Bytes m = map (\<lambda>i. ucast (drop_bit (8 * i) m)) [0..<4]"

subsection \<open>Predicates and normal form\<close>

definition IsMalformed :: "FileMode \<Rightarrow> bool" where
  "IsMalformed m \<longleftrightarrow> m \<noteq> Dir \<and> m \<noteq> Regular \<and> m \<noteq> Deprecated \<and> m \<noteq> Executable \<and> m \<noteq> Symlink \<and> m \<noteq> Submodule"

definition IsRegular :: "FileMode \<Rightarrow> bool" where
  "IsRegular m \<longleftrightarrow> m = Regular \<or> m = Deprecated"

definition IsFile :: "FileMode \<Rightarrow> bool" where
  "IsFile m \<longleftrightarrow> m = Regular \<or> m = Deprecated \<or> m = Executable \<or> m = Symlink"

definition Canonical :: "FileMode \<Rightarrow> FileMode" where
  "Canonical m =
     (let t = m AND 0xF000 in
      if t = 0x8000 then (if m AND 0x40 \<noteq> 0 then Executable else Regular)
      else if t = 0xA000 then Symlink
      else if t = 0x4000 then Dir
      else Submodule)"

subsection \<open>Modes of the operating system\<close>

definition isSetCharDevice :: "os_FileMode \<Rightarrow> bool" where "isSetCharDevice m \<longleftrightarrow> m AND ModeCharDevice \<noteq> 0"
definition isSetTemporary :: "os_FileMode \<Rightarrow> bool" where "isSetTemporary m \<longleftrightarrow> m AND ModeTemporary \<noteq> 0"
definition isSetUserExecutable :: "os_FileMode \<Rightarrow> bool" where "isSetUserExecutable m \<longleftrightarrow> m AND 0x40 \<noteq> 0"
definition isSetSymLink :: "os_FileMode \<Rightarrow> bool" where "isSetSymLink m \<longleftrightarrow> m AND ModeSymlink \<noteq> 0"

definition NewFromOSFileMode :: "os_FileMode \<Rightarrow> mode_error + FileMode" where
  "NewFromOSFileMode m =
     (if m AND ModeType = 0 then
        if isSetTemporary m then Inl NoGitMode
        else if isSetCharDevice m then Inl NoGitMode
        else if isSetUserExecutable m then Inr Executable
        else Inr Regular
      else if m AND ModeDir \<noteq> 0 then Inr Dir
      else if isSetSymLink m then Inr Symlink
      else Inl NoGitMode)"

definition ToOSFileMode :: "FileMode \<Rightarrow> mode_error + os_FileMode" where
  "ToOSFileMode m =
     (if m = Dir then Inr (ModePerm OR ModeDir)
      else if m = Submodule then Inr (ModePerm OR ModeDir)
      else if m = Regular then Inr 0x1A4
      else if m = Deprecated then Inr 0x1A4
      else if m = Executable then Inr 0x1ED
      else if m = Symlink then Inr (ModePerm OR ModeSymlink)
      else Inl MalformedMode)"

subsection \<open>The two parsers\<close>

lemma octal_digit:
  fixes c :: byte
  assumes "\<not> (c < 0x30 \<or> 0x37 < c)"
  shows "unat (c - 0x30) = unat c - 48" "unat c - 48 < 8"
proof -
  from assms have c: "48 \<le> unat c" "unat c \<le> 55" by (simp_all add: word_less_nat_alt)
  then show "unat (c - 0x30) = unat c - 48" by (simp add: unat_sub word_le_nat_alt)
  from c show "unat c - 48 < 8" by linarith
qed

lemma shift_in_digit:
  fixes mode :: u32 and d :: byte
  assumes "unat mode \<le> 0x1FFFFFFF" and "unat d < 8"
  shows "unat (push_bit 3 mode OR ucast d :: u32) = 8 * unat mode + unat d"
proof -
  have d: "(ucast d :: u32) = take_bit 3 (ucast d)"
  proof -
    have "unat (ucast d :: u32) < 2 ^ 3" using assms(2) by (simp add: unsigned_ucast_eq take_bit_nat_eq_self)
    then show ?thesis by (metis take_bit_nat_eq_self unsigned_take_bit_eq word_unat_eq_iff)
  qed
  have "push_bit 3 mode OR ucast d = push_bit 3 mode + ucast d"
  proof (rule disjunctive_add [symmetric])
    fix n
    show "\<not> bit (push_bit 3 mode) n \<or> \<not> bit (ucast d :: u32) n"
      by (subst d) (auto simp: bit_simps)
  qed
  moreover have "unat (push_bit 3 mode) = 8 * unat mode"
    using assms(1) by (simp add: push_bit_eq_mult unat_word_ariths)
  moreover have "unat (ucast d :: u32) = unat d" using assms(2) by (simp add: unsigned_ucast_eq take_bit_nat_eq_self)
  ultimately show ?thesis using assms by (simp add: unat_word_ariths)
qed

lemma FromBytes_loop_eq:
  "FromBytes_loop cs mode = rbind (ParseUint_loop cs (unat mode)) (\<lambda>n. Inr (word_of_nat n))"
proof (induction cs mode rule: FromBytes_loop.induct)
  case (2 c cs mode)
  show ?case
  proof (cases "c < 0x30 \<or> 0x37 < c")
    case False
    note d = octal_digit [OF False]
    have w: "mode > drop_bit 3 0xFFFFFFFF \<longleftrightarrow> 8 * unat mode + (unat c - 48) > 2 ^ 32 - 1"
      using d(2) by (simp add: word_less_nat_alt unat_drop_bit_div drop_bit_eq_div) linarith
    show ?thesis
    proof (cases "mode > drop_bit 3 0xFFFFFFFF")
      case True
      then show ?thesis using False w by simp
    next
      case fits: False
      then have "unat mode \<le> 0x1FFFFFFF" by (simp add: word_less_nat_alt unat_drop_bit_div drop_bit_eq_div)
      from shift_in_digit [OF this, of "c - 0x30"] d
      have "unat (push_bit 3 mode OR ucast (c - 0x30)) = 8 * unat mode + (unat c - 48)" by simp
      then show ?thesis using False fits w "2.IH" [OF False fits] by simp
    qed
  qed auto
qed simp

lemma ParseUint_loop_octal:
  assumes "n < 2 ^ 32"
  shows "ParseUint_loop (octal n @ cs) 0 = ParseUint_loop cs n"
  using assms
proof (induction n arbitrary: cs rule: octal.induct)
  case (1 n)
  have u: "unat (0x30 + word_of_nat (n mod 8) :: byte) = 48 + n mod 8"
    by (simp add: unat_word_ariths unat_of_nat take_bit_nat_eq_self)
  then have d: "\<not> (0x30 + word_of_nat (n mod 8) < (0x30 :: byte) \<or> 0x37 < (0x30 + word_of_nat (n mod 8) :: byte))"
    by (simp add: word_less_nat_alt)
  have step: "ParseUint_loop ((0x30 + word_of_nat (n mod 8)) # cs) (n div 8) = ParseUint_loop cs n"
    using d u "1.prems" by (simp add: mult.commute [of 8])
  show ?case
  proof (cases "n < 8")
    case True
    then show ?thesis using step by (subst octal.simps) simp
  next
    case False
    have "octal n @ cs = octal (n div 8) @ (0x30 + word_of_nat (n mod 8)) # cs"
      using False by (subst octal.simps) simp
    then show ?thesis using "1.IH" [OF False] "1.prems" step by simp
  qed
qed

lemma ParseUint_loop_zeros: "ParseUint_loop (replicate k 0x30 @ cs) 0 = ParseUint_loop cs 0"
  by (induction k) simp_all

lemma octal_not_Nil [simp]: "octal n \<noteq> []"
  by (subst octal.simps) simp

lemma New_eq_FromBytes: "New s = FromBytes s"
  by (simp add: New_def FromBytes_def FromBytes_loop_eq)

subsection \<open>Properties\<close>

text \<open>
  \<open>New\<close> and \<open>FromBytes\<close> agree on every input, results and errors (no digits, a byte that
  is no octal digit, a value wider than 32 bits), so the guard that \<open>FromBytes\<close> tests before it
  shifts is exact; and both read back what \<open>String\<close> prints for any mode, with any number of
  zeros in front of it.
\<close>

theorem FileMode_parse_print:
  "New s = FromBytes s \<and> FromBytes (replicate k 0x30 @ FileMode_String m) = Inr m"
proof (rule conjI)
  have m: "unat m < 2 ^ 32" using unsigned_less [of m] by simp
  have "ParseUint_loop (replicate k 0x30 @ FileMode_String m) 0 = Inr (unat m)"
    using ParseUint_loop_octal [OF m, of "[]"] by (simp add: FileMode_String_def Let_def ParseUint_loop_zeros)
  then show "FromBytes (replicate k 0x30 @ FileMode_String m) = Inr m"
    by (simp add: FromBytes_def FromBytes_loop_eq FileMode_String_def Let_def)
qed (rule New_eq_FromBytes)

text \<open>
  \<open>Canonical\<close> is a normal form: its result is never malformed, applying it again changes
  nothing, and the modes it leaves unchanged are the well-formed modes other than \<open>Deprecated\<close>
  (which it makes \<open>Regular\<close>). A canonical mode other than \<open>Submodule\<close> survives the conversion to
  an \<open>os.FileMode\<close> and back, a submodule becomes a directory, and \<open>ToOSFileMode\<close> fails on
  exactly the malformed modes.
\<close>

theorem FileMode_Canonical_normal_form:
  "\<not> IsMalformed (Canonical m) \<and> Canonical (Canonical m) = Canonical m \<and>
   (Canonical m = m \<longleftrightarrow> \<not> IsMalformed m \<and> m \<noteq> Deprecated) \<and> Canonical Deprecated = Regular \<and>
   rbind (ToOSFileMode (Canonical m)) NewFromOSFileMode =
     Inr (if Canonical m = Submodule then Dir else Canonical m) \<and>
   (ToOSFileMode m = Inl MalformedMode \<longleftrightarrow> IsMalformed m)"
proof -
  define c where "c = Canonical m"
  have c: "c = Dir \<or> c = Regular \<or> c = Executable \<or> c = Symlink \<or> c = Submodule"
    by (simp add: c_def Canonical_def Let_def)
  have fix_c: "Canonical Dir = Dir" "Canonical Regular = Regular" "Canonical Executable = Executable"
    "Canonical Symlink = Symlink" "Canonical Submodule = Submodule" "Canonical Deprecated = Regular"
    by (simp_all add: Canonical_def mode_defs)
  have "\<not> IsMalformed c" using c by (auto simp: IsMalformed_def)
  moreover have "Canonical c = c" using c fix_c by auto
  moreover have "c = m \<longleftrightarrow> \<not> IsMalformed m \<and> m \<noteq> Deprecated"
    using c fix_c by (auto simp: c_def IsMalformed_def mode_defs)
  moreover have "rbind (ToOSFileMode c) NewFromOSFileMode = Inr (if c = Submodule then Dir else c)"
    using c by (auto simp: ToOSFileMode_def NewFromOSFileMode_def mode_defs os_mode_defs isSetTemporary_def
        isSetCharDevice_def isSetUserExecutable_def isSetSymLink_def)
  moreover have "ToOSFileMode m = Inl MalformedMode \<longleftrightarrow> IsMalformed m"
    by (simp add: ToOSFileMode_def IsMalformed_def)
  ultimately show ?thesis using fix_c by (simp add: c_def)
qed

end
