(* ===== verification/Object_ID.thy ===== *)
theory Object_ID
  imports Codec "HOL-Library.Char_ord" "HOL-Library.List_Lexorder" "HOL-Library.Product_Lexorder"
    "HOL-Library.Multiset"
begin

text \<open>
  Object identifiers: \<open>plumbing/objectid.go\<close>, \<open>plumbing/hash.go\<close> and the sizes of
  \<open>plumbing/format/config/format.go\<close>. An identifier is an array of 32 bytes, of which a SHA-1
  hash uses the first 20, and a format. \<open>oid_ok\<close> is the invariant of the type: the array has
  its length and is zero after the hash. The hexadecimal and the raw forms read back, and the
  order that \<open>HashSlice\<close> sorts by is a linear order on the identifiers of one format.
\<close>

datatype ObjectFormat = UnsetObjectFormat | SHA1 | SHA256

fun format_Size :: "ObjectFormat \<Rightarrow> nat" where
  "format_Size SHA1 = 20"
| "format_Size SHA256 = 32"
| "format_Size UnsetObjectFormat = 20"

fun format_HexSize :: "ObjectFormat \<Rightarrow> nat" where
  "format_HexSize SHA1 = 40"
| "format_HexSize SHA256 = 64"
| "format_HexSize UnsetObjectFormat = 40"

datatype ObjectID = ObjectID (oid_hash: bytes) (oid_format: ObjectFormat)

definition ZeroHash :: ObjectID where "ZeroHash = ObjectID (replicate 32 0) UnsetObjectFormat"

subsection \<open>Hexadecimal (encoding/hex)\<close>

definition hexDigit :: "byte \<Rightarrow> char" where
  "hexDigit n = ''0123456789abcdef'' ! unat n"

definition fromHexChar :: "char \<Rightarrow> byte option" where
  "fromHexChar c =
     (if CHR ''0'' \<le> c \<and> c \<le> CHR ''9'' then Some (of_char c - 48)
      else if CHR ''a'' \<le> c \<and> c \<le> CHR ''f'' then Some (of_char c - 97 + 10)
      else if CHR ''A'' \<le> c \<and> c \<le> CHR ''F'' then Some (of_char c - 65 + 10)
      else None)"

definition EncodeToString :: "bytes \<Rightarrow> string" where
  "EncodeToString bs = concat (map (\<lambda>b. [hexDigit (drop_bit 4 b), hexDigit (b AND 15)]) bs)"

text \<open>\<open>None\<close> is an error: a character that is no digit, or an odd number of them.\<close>

fun DecodeString :: "string \<Rightarrow> bytes option" where
  "DecodeString [] = Some []"
| "DecodeString [c] = None"
| "DecodeString (c # d # cs) =
     (case (fromHexChar c, fromHexChar d) of
        (Some a, Some b) \<Rightarrow> map_option ((#) (push_bit 4 a OR b)) (DecodeString cs)
      | _ \<Rightarrow> None)"

subsection \<open>Operations (objectid.go)\<close>

text \<open>\<open>copy(s.hash[:], in)\<close>: what fits is copied, the rest of the array stays.\<close>

definition oid_Write :: "ObjectID \<Rightarrow> bytes \<Rightarrow> ObjectID \<times> nat" where
  "oid_Write s inp =
     (let n = min (length (oid_hash s)) (length inp)
      in (ObjectID (take n inp @ drop n (oid_hash s)) (oid_format s), n))"

definition FromHex :: "string \<Rightarrow> ObjectID \<times> bool" where
  "FromHex inp =
     (let i = ObjectID (replicate 32 0) (if length inp = 64 then SHA256 else UnsetObjectFormat)
      in (case DecodeString inp of
            None \<Rightarrow> (i, False)
          | Some out \<Rightarrow> (fst (oid_Write i out), True)))"

definition oid_FromBytes :: "bytes \<Rightarrow> ObjectID \<times> bool" where
  "oid_FromBytes inp =
     (if length inp = 20 then (fst (oid_Write (ObjectID (replicate 32 0) UnsetObjectFormat) inp), True)
      else if length inp = 32 then (fst (oid_Write (ObjectID (replicate 32 0) SHA256) inp), True)
      else (ZeroHash, False))"

definition oid_Size :: "ObjectID \<Rightarrow> nat" where "oid_Size s = format_Size (oid_format s)"

definition oid_HexSize :: "ObjectID \<Rightarrow> nat" where "oid_HexSize s = format_HexSize (oid_format s)"

definition oid_Bytes :: "ObjectID \<Rightarrow> bytes" where "oid_Bytes s = take (oid_Size s) (oid_hash s)"

text \<open>\<open>bytes.Compare\<close>.\<close>

fun bytes_Compare :: "bytes \<Rightarrow> bytes \<Rightarrow> int" where
  "bytes_Compare [] [] = 0"
| "bytes_Compare [] (b # bs) = -1"
| "bytes_Compare (a # as) [] = 1"
| "bytes_Compare (a # as) (b # bs) = (if a < b then -1 else if b < a then 1 else bytes_Compare as bs)"

definition oid_Compare :: "ObjectID \<Rightarrow> bytes \<Rightarrow> int" where
  "oid_Compare s b = bytes_Compare (oid_Bytes s) b"

definition oid_Equal :: "ObjectID \<Rightarrow> ObjectID \<Rightarrow> bool" where
  "oid_Equal s i \<longleftrightarrow> oid_hash s = oid_hash i"

definition oid_HasPrefix :: "ObjectID \<Rightarrow> bytes \<Rightarrow> bool" where
  "oid_HasPrefix s p \<longleftrightarrow> prefix p (oid_Bytes s)"

definition IsZero :: "ObjectID \<Rightarrow> bool" where
  "IsZero s \<longleftrightarrow> oid_hash s = replicate 32 0"

definition oid_String :: "ObjectID \<Rightarrow> string" where
  "oid_String s = EncodeToString (oid_Bytes s)"

definition ResetBySize :: "ObjectID \<Rightarrow> nat \<Rightarrow> ObjectID" where
  "ResetBySize s idSize =
     ObjectID (replicate (length (oid_hash s)) 0) (if idSize = 32 then SHA256 else UnsetObjectFormat)"

text \<open>The identifier after the call, the number of bytes or the error, and the rest of the stream.\<close>

definition oid_ReadFrom :: "ObjectID \<Rightarrow> bytes \<Rightarrow> ObjectID \<times> nat option \<times> bytes" where
  "oid_ReadFrom s r =
     (if length r \<ge> oid_Size s
      then (ObjectID (take (oid_Size s) r @ drop (oid_Size s) (oid_hash s)) (oid_format s), Some (oid_Size s),
            drop (oid_Size s) r)
      else (ResetBySize s (oid_Size s), None, []))"

definition oid_WriteTo :: "ObjectID \<Rightarrow> bytes" where
  "oid_WriteTo s = oid_Bytes s"

definition NewHash :: "string \<Rightarrow> ObjectID" where
  "NewHash s = fst (FromHex s)"

definition IsHash :: "string \<Rightarrow> bool" where
  "IsHash s \<longleftrightarrow> (length s = 40 \<or> length s = 64) \<and> DecodeString s \<noteq> None"

definition HashSlice_Less :: "ObjectID \<Rightarrow> ObjectID \<Rightarrow> bool" where
  "HashSlice_Less a b \<longleftrightarrow> oid_Compare a (oid_Bytes b) < 0"

subsection \<open>Hexadecimal reads back\<close>

lemma fromHexChar_hexDigit: "unat n < 16 \<Longrightarrow> fromHexChar (hexDigit n) = Some n"
proof -
  assume "unat n < 16"
  moreover have "list_all (\<lambda>k. fromHexChar (hexDigit (word_of_nat k)) = Some (word_of_nat k)) [0..<16]"
    by code_simp
  ultimately have "fromHexChar (hexDigit (word_of_nat (unat n))) = Some (word_of_nat (unat n))"
    unfolding list_all_iff by (metis atLeastLessThan_iff set_upt zero_le)
  then show ?thesis by simp
qed

lemma byte_nibbles:
  "unat (drop_bit 4 b) < 16" "unat (b AND 15) < 16" "push_bit 4 (drop_bit 4 b) OR (b AND 15) = b" for b :: byte
proof -
  show "unat (drop_bit 4 b) < 16"
    unfolding unat_drop_bit_div using unat_byte_less [of b] by simp
  show "unat (b AND 15) < 16" unfolding and_15_eq
    by (simp add: unsigned_take_bit_eq take_bit_nat_less_exp [of 4, simplified])
  show "push_bit 4 (drop_bit 4 b) OR (b AND 15) = b"
    unfolding and_15_eq using word_or_split [of 0 4 b] by (simp add: or.commute)
qed

lemma length_EncodeToString [simp]: "length (EncodeToString bs) = 2 * length bs"
  by (induction bs) (simp_all add: EncodeToString_def)

lemma DecodeString_Encode [simp]: "DecodeString (EncodeToString bs) = Some bs"
  by (induction bs) (simp_all add: EncodeToString_def fromHexChar_hexDigit byte_nibbles)

lemma DecodeString_length: "DecodeString s = Some bs \<Longrightarrow> length s = 2 * length bs"
  by (induction s arbitrary: bs rule: DecodeString.induct) (auto split: option.splits)

subsection \<open>The invariant\<close>

definition oid_ok :: "ObjectID \<Rightarrow> bool" where
  "oid_ok s \<longleftrightarrow> length (oid_hash s) = 32 \<and> (\<forall>i. oid_Size s \<le> i \<longrightarrow> i < 32 \<longrightarrow> oid_hash s ! i = 0)"

lemma oid_Size_le: "oid_Size s \<le> 32"
  by (cases "oid_format s") (simp_all add: oid_Size_def)

lemma oid_ok_iff: "oid_ok s \<longleftrightarrow> oid_hash s = oid_Bytes s @ replicate (32 - oid_Size s) 0 \<and> length (oid_Bytes s) = oid_Size s"
proof
  assume ok: "oid_ok s"
  have "drop (oid_Size s) (oid_hash s) = replicate (32 - oid_Size s) 0"
    using ok oid_Size_le [of s] by (intro nth_equalityI) (auto simp: oid_ok_def)
  then show "oid_hash s = oid_Bytes s @ replicate (32 - oid_Size s) 0 \<and> length (oid_Bytes s) = oid_Size s"
    using ok oid_Size_le [of s] by (metis append_take_drop_id length_take min_absorb2 oid_Bytes_def oid_ok_def)
next
  assume r: "oid_hash s = oid_Bytes s @ replicate (32 - oid_Size s) 0 \<and> length (oid_Bytes s) = oid_Size s"
  have "length (oid_hash s) = length (oid_Bytes s) + (32 - oid_Size s)"
    using arg_cong [OF conjunct1 [OF r], of length] by simp
  moreover have "oid_hash s ! i = 0" if "oid_Size s \<le> i" "i < 32" for i
    using arg_cong [OF conjunct1 [OF r], of "\<lambda>h. h ! i"] that r by (simp add: nth_append)
  ultimately show "oid_ok s" using r oid_Size_le [of s] by (simp add: oid_ok_def)
qed

lemma oid_eqI:
  assumes "oid_ok a" and "oid_ok b" and "oid_format a = oid_format b" and "oid_Bytes a = oid_Bytes b"
  shows "a = b"
  using assms by (intro ObjectID.expand) (metis oid_Size_def oid_ok_iff)

lemma oid_Write_zero:
  assumes "length inp = format_Size f"
  shows "oid_ok (fst (oid_Write (ObjectID (replicate 32 0) f) inp)) \<and>
    oid_Bytes (fst (oid_Write (ObjectID (replicate 32 0) f) inp)) = inp"
  using assms by (cases f) (auto simp: oid_ok_def oid_Write_def oid_Bytes_def oid_Size_def nth_append)

lemma oid_zero_ok [simp]: "oid_ok (ObjectID (replicate 32 0) f)"
  using oid_Size_le [of "ObjectID (replicate 32 0) f"] by (simp add: oid_ok_def)

lemma FromHex_exact:
  assumes "IsHash s"
  shows "\<exists>i. FromHex s = (i, True) \<and> oid_ok i \<and> DecodeString s = Some (oid_Bytes i) \<and>
    oid_format i = (if length s = 64 then SHA256 else UnsetObjectFormat)"
proof -
  from assms obtain out where out: "DecodeString s = Some out" by (auto simp: IsHash_def)
  define f where "f = (if length s = 64 then SHA256 else UnsetObjectFormat)"
  have "length out = format_Size f"
    using DecodeString_length [OF out] assms by (auto simp: IsHash_def f_def)
  from oid_Write_zero [OF this] out show ?thesis
    by (auto simp: FromHex_def f_def Let_def oid_Write_def)
qed

text \<open>Every identifier the package builds satisfies the invariant, and no operation breaks it.\<close>

lemma FromHex_ok: "length s \<le> 40 \<or> length s = 64 \<Longrightarrow> oid_ok (fst (FromHex s))"
proof (cases "DecodeString s")
  case None
  then show ?thesis by (simp add: FromHex_def Let_def)
next
  case (Some out)
  assume "length s \<le> 40 \<or> length s = 64"
  with DecodeString_length [OF Some] show ?thesis using Some
    by (auto simp: FromHex_def Let_def oid_ok_def oid_Write_def oid_Size_def nth_append min_def)
qed

lemma oid_FromBytes_ok: "oid_ok (fst (oid_FromBytes b))"
  using oid_Write_zero [of b UnsetObjectFormat] oid_Write_zero [of b SHA256]
  by (simp add: oid_FromBytes_def ZeroHash_def)

lemma ResetBySize_ok: "oid_ok s \<Longrightarrow> oid_ok (ResetBySize s n)"
  by (simp add: ResetBySize_def oid_ok_def oid_Size_def)

lemma oid_ReadFrom_ok: "oid_ok s \<Longrightarrow> oid_ok (fst (oid_ReadFrom s r))"
  using ResetBySize_ok [of s] oid_Size_le [of s]
  by (auto simp: oid_ReadFrom_def oid_ok_def oid_Size_def nth_append)

subsection \<open>Order\<close>

lemma bytes_Compare_less: "bytes_Compare a b < 0 \<longleftrightarrow> a < b"
  by (induction a b rule: bytes_Compare.induct) auto

lemma bytes_Compare_eq: "bytes_Compare a b = 0 \<longleftrightarrow> a = b"
  by (induction a b rule: bytes_Compare.induct) auto

lemma bytes_Compare_sym: "bytes_Compare b a = - bytes_Compare a b"
  by (induction a b rule: bytes_Compare.induct) auto

text \<open>
  The order of \<open>HashSlice\<close>, completed to a linear order on the whole type by comparing the
  rest of the value where the hashes agree.
\<close>

fun format_rank :: "ObjectFormat \<Rightarrow> nat" where
  "format_rank UnsetObjectFormat = 0"
| "format_rank SHA1 = 1"
| "format_rank SHA256 = 2"

definition oid_key :: "ObjectID \<Rightarrow> bytes \<times> bytes \<times> nat" where
  "oid_key s = (oid_Bytes s, oid_hash s, format_rank (oid_format s))"

lemma oid_key_inj: "oid_key a = oid_key b \<longleftrightarrow> a = b"
proof
  assume "oid_key a = oid_key b"
  then have "oid_hash a = oid_hash b" "format_rank (oid_format a) = format_rank (oid_format b)"
    by (simp_all add: oid_key_def)
  then show "a = b"
    by (intro ObjectID.expand) (cases "oid_format a"; cases "oid_format b"; simp)
qed simp

instantiation ObjectID :: linorder
begin

definition less_eq_ObjectID :: "ObjectID \<Rightarrow> ObjectID \<Rightarrow> bool" where
  "less_eq_ObjectID a b \<longleftrightarrow> oid_key a \<le> oid_key b"

definition less_ObjectID :: "ObjectID \<Rightarrow> ObjectID \<Rightarrow> bool" where
  "less_ObjectID a b \<longleftrightarrow> oid_key a < oid_key b"

instance
  by standard (auto simp: less_eq_ObjectID_def less_ObjectID_def less_le oid_key_inj intro: oid_key_inj [THEN iffD1])

end

lemma HashSlice_Less_iff:
  assumes "oid_ok a" and "oid_ok b" and "oid_format a = oid_format b"
  shows "HashSlice_Less a b \<longleftrightarrow> a < b"
proof -
  have "HashSlice_Less a b \<longleftrightarrow> oid_Bytes a < oid_Bytes b"
    by (simp add: HashSlice_Less_def oid_Compare_def bytes_Compare_less)
  also have "\<dots> \<longleftrightarrow> a < b"
    using oid_eqI [OF assms] by (auto simp: less_ObjectID_def oid_key_def less_le)
  finally show ?thesis .
qed

subsection \<open>Properties\<close>

text \<open>
  Identifiers survive their text form and their binary form: for a well-formed
  identifier of a 20-byte or 32-byte format, \<open>FromHex\<close> of \<open>String\<close> is the identifier again (an
  explicit SHA-1 format is read back as the unset one, which has the same size), its \<open>String\<close>
  satisfies \<open>IsHash\<close>, and \<open>ReadFrom\<close> of what \<open>WriteTo\<close> writes restores it and leaves the rest.
\<close>

theorem ObjectID_roundtrip:
  assumes "oid_ok i" and "oid_format i \<noteq> SHA1"
  shows "FromHex (oid_String i) = (i, True) \<and> IsHash (oid_String i) \<and>
    oid_FromBytes (oid_Bytes i) = (i, True) \<and>
    oid_ReadFrom (ObjectID (replicate 32 0) (oid_format i)) (oid_WriteTo i @ rest) = (i, Some (oid_Size i), rest)"
proof -
  have l: "length (oid_Bytes i) = oid_Size i" and h: "oid_hash i = oid_Bytes i @ replicate (32 - oid_Size i) 0"
    using assms(1) by (simp_all add: oid_ok_iff)
  have f: "oid_format i = UnsetObjectFormat \<and> oid_Size i = 20 \<or> oid_format i = SHA256 \<and> oid_Size i = 32"
    using assms(2) by (cases "oid_format i") (simp_all add: oid_Size_def)
  then have IsH: "IsHash (oid_String i)" by (auto simp: IsHash_def oid_String_def l)
  from FromHex_exact [OF this] obtain j where j: "FromHex (oid_String i) = (j, True)" "oid_ok j"
    "oid_Bytes j = oid_Bytes i" "oid_format j = oid_format i"
    using f by (auto simp: oid_String_def l)
  have "j = i" using oid_eqI [OF j(2) assms(1) j(4,3)] .
  moreover have "oid_FromBytes (oid_Bytes i) = (i, True)"
    using f l oid_Write_zero [of "oid_Bytes i" "oid_format i"] oid_eqI [OF _ assms(1)]
    by (auto simp: oid_FromBytes_def oid_Size_def oid_Write_def)
  moreover have "oid_ReadFrom (ObjectID (replicate 32 0) (oid_format i)) (oid_WriteTo i @ rest) = (i, Some (oid_Size i), rest)"
    using l h by (simp add: oid_ReadFrom_def oid_WriteTo_def) (simp add: oid_Size_def ObjectID.expand)
  ultimately show ?thesis using j(1) IsH by simp
qed

lemma ObjectID_roundtrip_witness:
  "oid_ok (ObjectID (0xab # replicate 31 0) UnsetObjectFormat) \<and>
   FromHex (oid_String (ObjectID (0xab # replicate 31 0) UnsetObjectFormat)) =
     (ObjectID (0xab # replicate 31 0) UnsetObjectFormat, True)"
proof -
  have "oid_ok (ObjectID (0xab # replicate 31 0) UnsetObjectFormat)"
    by (auto simp: oid_ok_def oid_Size_def nth_Cons split: nat.splits)
  with ObjectID_roundtrip [OF this, of "[]"] show ?thesis by simp
qed

text \<open>
  \<open>HashSlice\<close> sorts identifiers of one format into a unique order: whatever sorting
  algorithm is used, a permutation of the slice in which no element is \<open>Less\<close> than one before it
  is the sorted list of the linear order.
\<close>

theorem HashesSort_unique:
  assumes "\<And>i. i \<in> set a \<Longrightarrow> oid_ok i \<and> oid_format i = f"
    and "mset b = mset a" and "sorted_wrt (\<lambda>x y. \<not> HashSlice_Less y x) b"
  shows "b = sort a"
proof (rule properties_for_sort [symmetric])
  have "set b = set a" using assms(2) by (metis set_mset_mset)
  then have "sorted_wrt (\<le>) b"
    using assms(1) by (intro sorted_wrt_mono_rel [OF _ assms(3)]) (auto simp: HashSlice_Less_iff)
  then show "sorted b" by simp
qed (use assms(2) in simp)

lemma HashesSort_unique_witness:
  "sort [ObjectID (1 # replicate 31 0) UnsetObjectFormat, ZeroHash] =
     [ZeroHash, ObjectID (1 # replicate 31 0) UnsetObjectFormat]"
proof -
  define one where "one = ObjectID (1 # replicate 31 0) UnsetObjectFormat"
  have ok: "oid_ok one" by (auto simp: one_def oid_ok_def oid_Size_def nth_Cons split: nat.splits)
  have "\<not> HashSlice_Less one ZeroHash" unfolding one_def by code_simp
  moreover have "oid_ok i \<and> oid_format i = UnsetObjectFormat" if "i \<in> set [one, ZeroHash]" for i
    using that ok by (auto simp: ZeroHash_def) (simp add: one_def)
  ultimately have "[ZeroHash, one] = sort [one, ZeroHash]" by (intro HashesSort_unique) auto
  then show ?thesis unfolding one_def by (rule sym)
qed

end
