(* ===== verification/Reference_Name.thy ===== *)
theory Reference_Name
  imports Go_Strings Object_ID
begin

text \<open>
  Reference names and references: \<open>plumbing/reference.go\<close>. A \<open>ReferenceName\<close> is a string of bytes
  (HOL characters are the 256 byte values). Modelled: the constructors and classifiers of
  names, \<open>IsSafe\<close>, \<open>IsRoot\<close>, \<open>Validate\<close> and its variants for new branches and tags, and references
  with their string form. \<open>Short\<close>, which goes through \<open>fmt.Sscanf\<close>, is left out.

  The results: \<open>Validate\<close> is exactly the ten rules of git-check-ref-format that its comment
  lists, stated on the whole name; a safe name is its own path under the git directory and
  never another name's path; valid names under \<open>refs/\<close> are safe.
\<close>

type_synonym ReferenceName = string

datatype ref_error = ErrInvalidReferenceName string

definition RefPrefix :: string where "RefPrefix = ''refs/''"
definition RefHeadPrefix :: string where "RefHeadPrefix = RefPrefix @ ''heads/''"
definition refTagPrefix :: string where "refTagPrefix = RefPrefix @ ''tags/''"
definition refRemotePrefix :: string where "refRemotePrefix = RefPrefix @ ''remotes/''"
definition refNotePrefix :: string where "refNotePrefix = RefPrefix @ ''notes/''"
definition symrefPrefix :: string where "symrefPrefix = ''ref: ''"
definition HEAD :: ReferenceName where "HEAD = ''HEAD''"

lemmas ref_prefix_defs = RefPrefix_def RefHeadPrefix_def refTagPrefix_def refRemotePrefix_def refNotePrefix_def

subsection \<open>Constructors and classifiers\<close>

definition NewBranchReferenceName :: "string \<Rightarrow> ReferenceName" where
  "NewBranchReferenceName name = RefHeadPrefix @ name"

definition NewNoteReferenceName :: "string \<Rightarrow> ReferenceName" where
  "NewNoteReferenceName name = refNotePrefix @ name"

definition NewRemoteReferenceName :: "string \<Rightarrow> string \<Rightarrow> ReferenceName" where
  "NewRemoteReferenceName remote name = refRemotePrefix @ remote @ ''/'' @ name"

definition NewRemoteHEADReferenceName :: "string \<Rightarrow> ReferenceName" where
  "NewRemoteHEADReferenceName remote = refRemotePrefix @ remote @ ''/'' @ HEAD"

definition NewTagReferenceName :: "string \<Rightarrow> ReferenceName" where
  "NewTagReferenceName name = refTagPrefix @ name"

definition IsBranch :: "ReferenceName \<Rightarrow> bool" where "IsBranch r \<longleftrightarrow> prefix RefHeadPrefix r"
definition IsNote :: "ReferenceName \<Rightarrow> bool" where "IsNote r \<longleftrightarrow> prefix refNotePrefix r"
definition IsRemote :: "ReferenceName \<Rightarrow> bool" where "IsRemote r \<longleftrightarrow> prefix refRemotePrefix r"
definition IsTag :: "ReferenceName \<Rightarrow> bool" where "IsTag r \<longleftrightarrow> prefix refTagPrefix r"
definition IsPeeled :: "ReferenceName \<Rightarrow> bool" where "IsPeeled r \<longleftrightarrow> suffix ''^{}'' r"
definition IsUnderRefs :: "ReferenceName \<Rightarrow> bool" where "IsUnderRefs r \<longleftrightarrow> prefix RefPrefix r"

definition IsSafe :: "ReferenceName \<Rightarrow> bool" where
  "IsSafe s \<longleftrightarrow>
     (if s = '''' then False
      else if prefix RefPrefix s then
        (let rest = drop (length RefPrefix) s in
         if rest = '''' \<or> CHR 0x5C \<in> set rest then False
         else \<not> list_ex (\<lambda>part. part = '''' \<or> part = ''.'' \<or> part = ''..'') (split (CHR ''/'') rest))
      else list_all (\<lambda>c. \<not> ((c < CHR ''A'' \<or> CHR ''Z'' < c) \<and> c \<noteq> CHR ''_'')) s)"

definition IsRoot :: "ReferenceName \<Rightarrow> bool" where
  "IsRoot s \<longleftrightarrow>
     (if s = '''' then False
      else if list_ex (\<lambda>c. (c < CHR ''A'' \<or> CHR ''Z'' < c) \<and> c \<noteq> CHR ''_'' \<and> c \<noteq> CHR ''-'') s then False
      else if suffix ''_HEAD'' s then True
      else s \<in> {''HEAD'', ''AUTO_MERGE'', ''BISECT_EXPECTED_REV'', ''NOTES_MERGE_PARTIAL'',
                 ''NOTES_MERGE_REF'', ''MERGE_AUTOSTASH''})"

subsection \<open>Validation\<close>

definition ctrl_char :: "char \<Rightarrow> bool" where
  "ctrl_char c \<longleftrightarrow> c < CHR 0x20 \<or> c = CHR 0x7F"

definition invalid_part :: "string \<Rightarrow> bool" where
  "invalid_part part \<longleftrightarrow>
     length part = 0 \<or>
     prefix ''.'' part \<or>
     contains_sub ''..'' part \<or>
     list_ex ctrl_char part \<or>
     list_ex (\<lambda>c. c \<in> set (''~^:?*[ '' @ [CHR 0x09, CHR 0x0A])) part \<or>
     contains_sub [CHR ''@'', CHR 0x7B] part \<or>
     contains_sub [CHR 0x5C] part \<or>
     suffix ''.lock'' part"

definition Validate :: "ReferenceName \<Rightarrow> ref_error + unit" where
  "Validate s =
     (if length s = 0 then Inl (ErrInvalidReferenceName s)
      else if s = HEAD then Inr ()
      else if s = ''@'' then Inl (ErrInvalidReferenceName s)
      else if suffix ''.'' s then Inl (ErrInvalidReferenceName s)
      else let parts = split (CHR ''/'') s
           in if length parts < 2 then Inl (ErrInvalidReferenceName s)
              else if list_ex invalid_part parts then Inl (ErrInvalidReferenceName s)
              else Inr ())"

definition ValidateBranchName :: "string \<Rightarrow> ref_error + unit" where
  "ValidateBranchName name =
     (let r = NewBranchReferenceName name
      in if prefix ''-'' name \<or> r = RefHeadPrefix @ ''HEAD'' then Inl (ErrInvalidReferenceName r)
         else Validate r)"

definition ValidateTagName :: "string \<Rightarrow> ref_error + unit" where
  "ValidateTagName name =
     (let r = NewTagReferenceName name
      in if prefix ''-'' name \<or> name = ''HEAD'' then Inl (ErrInvalidReferenceName r)
         else Validate r)"

subsection \<open>References\<close>

datatype ReferenceType = InvalidReference | HashReference | SymbolicReference

record Reference =
  ref_t :: ReferenceType
  ref_n :: ReferenceName
  ref_h :: ObjectID
  ref_target :: ReferenceName

definition NewSymbolicReference :: "ReferenceName \<Rightarrow> ReferenceName \<Rightarrow> Reference" where
  "NewSymbolicReference n target = \<lparr>ref_t = SymbolicReference, ref_n = n, ref_h = ZeroHash, ref_target = target\<rparr>"

definition NewHashReference :: "ReferenceName \<Rightarrow> ObjectID \<Rightarrow> Reference" where
  "NewHashReference n h = \<lparr>ref_t = HashReference, ref_n = n, ref_h = h, ref_target = ''''\<rparr>"

definition NewReferenceFromStrings :: "string \<Rightarrow> string \<Rightarrow> Reference" where
  "NewReferenceFromStrings name target =
     (if prefix symrefPrefix target
      then NewSymbolicReference name (drop (length symrefPrefix) target)
      else NewHashReference name (NewHash target))"

definition ref_value :: "Reference \<Rightarrow> string" where
  "ref_value r =
     (case ref_t r of
        HashReference \<Rightarrow> oid_String (ref_h r)
      | SymbolicReference \<Rightarrow> symrefPrefix @ ref_target r
      | InvalidReference \<Rightarrow> '''')"

definition Reference_Strings :: "Reference \<Rightarrow> string \<times> string" where
  "Reference_Strings r = (ref_n r, ref_value r)"

definition Reference_String :: "Reference \<Rightarrow> string" where
  "Reference_String r =
     (if ref_t r = InvalidReference then '''' else ref_value r @ '' '' @ ref_n r)"

subsection \<open>The rules of git-check-ref-format\<close>

text \<open>The rules of the comment of \<open>Validate\<close>, by their numbers, on the whole name.\<close>

definition refname_ok :: "string \<Rightarrow> bool" where
  "refname_ok s \<longleftrightarrow>
     \<comment> \<open>1\<close> \<not> prefix ''.'' s \<and> \<not> contains_sub ''/.'' s \<and> \<not> suffix ''.lock'' s \<and> \<not> contains_sub ''.lock/'' s \<and>
     \<comment> \<open>2\<close> CHR ''/'' \<in> set s \<and>
     \<comment> \<open>3\<close> \<not> contains_sub ''..'' s \<and>
     \<comment> \<open>4\<close> (\<forall>c \<in> set s. \<not> ctrl_char c \<and> c \<notin> set '' ~^:'') \<and>
     \<comment> \<open>5\<close> (\<forall>c \<in> set s. c \<notin> set ''?*['') \<and>
     \<comment> \<open>6\<close> \<not> prefix ''/'' s \<and> \<not> suffix ''/'' s \<and> \<not> contains_sub ''//'' s \<and>
     \<comment> \<open>7\<close> \<not> suffix ''.'' s \<and>
     \<comment> \<open>8\<close> \<not> contains_sub [CHR ''@'', CHR 0x7B] s \<and>
     \<comment> \<open>9\<close> s \<noteq> ''@'' \<and>
     \<comment> \<open>10\<close> CHR 0x5C \<notin> set s"

lemma part_chars: "c \<notin> P \<Longrightarrow> (\<exists>x \<in> set (split c s). \<exists>y \<in> set x. y \<in> P) \<longleftrightarrow> (\<exists>y \<in> set s. y \<in> P)"
proof (induction s)
  case (Cons z s)
  obtain y ys where "split c s = y # ys" by (cases "split c s") simp_all
  with Cons show ?case by auto
qed simp

lemma parts_invalid_iff:
  assumes "s \<noteq> []"
  shows "list_ex invalid_part (split (CHR ''/'') s) \<longleftrightarrow>
    prefix ''.'' s \<or> contains_sub ''/.'' s \<or> suffix ''.lock'' s \<or> contains_sub ''.lock/'' s \<or>
    contains_sub ''..'' s \<or> (\<exists>c \<in> set s. ctrl_char c \<or> c \<in> set '' ~^:?*['') \<or>
    prefix ''/'' s \<or> suffix ''/'' s \<or> contains_sub ''//'' s \<or> contains_sub [CHR ''@'', CHR 0x7B] s \<or> CHR 0x5C \<in> set s"
proof -
  let ?ps = "set (split (CHR ''/'') s)"
  have ctrl: "ctrl_char (CHR 0x09)" "ctrl_char (CHR 0x0A)" "\<not> ctrl_char (CHR ''/'')" by code_simp+
  have "list_ex invalid_part (split (CHR ''/'') s) \<longleftrightarrow>
      [] \<in> ?ps \<or> (\<exists>x\<in>?ps. prefix ''.'' x) \<or> (\<exists>x\<in>?ps. contains_sub ''..'' x) \<or>
      (\<exists>x\<in>?ps. \<exists>c\<in>set x. c \<in> {c. ctrl_char c \<or> c \<in> set '' ~^:?*[''}) \<or>
      (\<exists>x\<in>?ps. contains_sub [CHR ''@'', CHR 0x7B] x) \<or> (\<exists>x\<in>?ps. contains_sub [CHR 0x5C] x) \<or> (\<exists>x\<in>?ps. suffix ''.lock'' x)"
    unfolding list_ex_iff invalid_part_def using ctrl(1,2) by auto
  also have "(\<exists>x\<in>?ps. prefix ''.'' x) \<longleftrightarrow> prefix ''.'' s \<or> contains_sub ''/.'' s"
    by (rule part_prefix) simp
  also have "(\<exists>x\<in>?ps. contains_sub ''..'' x) \<longleftrightarrow> contains_sub ''..'' s" by (rule part_contains) simp_all
  also have "(\<exists>x\<in>?ps. contains_sub [CHR ''@'', CHR 0x7B] x) \<longleftrightarrow> contains_sub [CHR ''@'', CHR 0x7B] s" by (rule part_contains) simp_all
  also have "(\<exists>x\<in>?ps. contains_sub [CHR 0x5C] x) \<longleftrightarrow> contains_sub [CHR 0x5C] s" by (rule part_contains) simp_all
  also have "(\<exists>x\<in>?ps. suffix ''.lock'' x) \<longleftrightarrow> suffix ''.lock'' s \<or> contains_sub (''.lock'' @ ''/'') s"
    by (rule part_suffix) simp
  also have "(\<exists>x\<in>?ps. \<exists>c\<in>set x. c \<in> {c. ctrl_char c \<or> c \<in> set '' ~^:?*[''}) \<longleftrightarrow>
      (\<exists>c\<in>set s. c \<in> {c. ctrl_char c \<or> c \<in> set '' ~^:?*[''})"
    by (rule part_chars) (use ctrl(3) in simp)
  finally show ?thesis using assms by (auto simp: part_empty)
qed

lemma one_part_iff: "length (split c s) < 2 \<longleftrightarrow> c \<notin> set s"
  by (simp add: length_split less_Suc_eq count_list_0_iff)

lemma Validate_iff: "Validate s = Inr () \<longleftrightarrow> s = HEAD \<or> refname_ok s"
proof (cases "s = []")
  case True
  then show ?thesis by (simp add: Validate_def HEAD_def refname_ok_def)
next
  case False
  have "Validate s = Inr () \<longleftrightarrow> s = HEAD \<or> s \<noteq> ''@'' \<and> \<not> suffix ''.'' s \<and> CHR ''/'' \<in> set s \<and>
      \<not> list_ex invalid_part (split (CHR ''/'') s)"
    using False one_part_iff [of "CHR ''/''" s] by (simp add: Validate_def Let_def)
  also have "s \<noteq> ''@'' \<and> \<not> suffix ''.'' s \<and> CHR ''/'' \<in> set s \<and> \<not> list_ex invalid_part (split (CHR ''/'') s) \<longleftrightarrow>
      refname_ok s"
    unfolding parts_invalid_iff [OF False] refname_ok_def by (simp only: set_simps insert_iff empty_iff) blast
  finally show ?thesis .
qed

lemma Validate_error: "Validate s = Inl e \<Longrightarrow> e = ErrInvalidReferenceName s"
  by (auto simp: Validate_def Let_def split: if_splits)

subsection \<open>Safe names as paths\<close>

text \<open>
  What a file system makes of the components of a relative path: empty and \<open>.\<close> components are
  dropped, \<open>..\<close> goes up; \<open>None\<close> is a path that leaves the directory it starts from.
\<close>

fun resolve :: "string list \<Rightarrow> string list \<Rightarrow> string list option" where
  "resolve st [] = Some (rev st)"
| "resolve st (p # ps) =
     (if p = '''' \<or> p = ''.'' then resolve st ps
      else if p = ''..'' then (case st of [] \<Rightarrow> None | _ # st' \<Rightarrow> resolve st' ps)
      else resolve (p # st) ps)"

lemma resolve_plain:
  "list_all (\<lambda>p. p \<noteq> '''' \<and> p \<noteq> ''.'' \<and> p \<noteq> ''..'') ps \<Longrightarrow> resolve st ps = Some (rev st @ ps)"
  by (induction ps arbitrary: st) auto

lemma split_RefPrefix:
  "prefix RefPrefix s \<Longrightarrow> split (CHR ''/'') s = ''refs'' # split (CHR ''/'') (drop (length RefPrefix) s)"
  using split_append_sep [of "CHR ''/''" "''refs''"] by (auto simp: prefix_def RefPrefix_def)

lemma IsSafe_parts:
  assumes "IsSafe s"
  shows "list_all (\<lambda>p. p \<noteq> '''' \<and> p \<noteq> ''.'' \<and> p \<noteq> ''..'') (split (CHR ''/'') s)"
proof (cases "prefix RefPrefix s")
  case True
  then show ?thesis using assms
    by (auto simp: IsSafe_def split_RefPrefix Let_def list_all_iff list_ex_iff split: if_splits)
next
  case False
  have up: "\<not> ((CHR ''A'' \<le> c \<and> c \<le> CHR ''Z'') \<or> c = CHR ''_'')" if "c = CHR ''/'' \<or> c = CHR ''.''" for c
    using that by (elim disjE) (hypsubst, code_simp)+
  have "s \<noteq> []" and "\<forall>c \<in> set s. (CHR ''A'' \<le> c \<and> c \<le> CHR ''Z'') \<or> c = CHR ''_''"
    using False assms by (auto simp: IsSafe_def list_all_iff not_less split: if_splits)
  then have "CHR ''/'' \<notin> set s" "CHR ''.'' \<notin> set s" "s \<noteq> []" using up by blast+
  then show ?thesis by (auto simp: split_no_sep)
qed

lemma dot_parts_invalid: "part = '''' \<or> part = ''.'' \<or> part = ''..'' \<Longrightarrow> invalid_part part"
  by (auto simp: invalid_part_def)

lemma Validate_IsSafe:
  assumes "Validate s = Inr ()" and "IsUnderRefs s"
  shows "IsSafe s"
proof -
  let ?rest = "drop (length RefPrefix) s"
  have p: "prefix RefPrefix s" using assms(2) by (simp add: IsUnderRefs_def)
  then have "s \<noteq> HEAD" "s \<noteq> []" by (auto simp: HEAD_def RefPrefix_def)
  then have "\<not> list_ex invalid_part (split (CHR ''/'') s)"
    using assms(1) by (simp add: Validate_def Let_def split: if_splits)
  then have ok: "\<not> invalid_part x" if "x \<in> set (split (CHR ''/'') ?rest)" for x
    using that by (simp add: split_RefPrefix [OF p] list_ex_iff)
  have "?rest \<noteq> []" using ok [of "[]"] dot_parts_invalid by fastforce
  moreover have "CHR 0x5C \<notin> set ?rest"
    using ok part_contains [of "CHR ''/''" "[CHR 0x5C]" ?rest] by (auto simp: invalid_part_def)
  moreover have "\<not> list_ex (\<lambda>part. part = '''' \<or> part = ''.'' \<or> part = ''..'') (split (CHR ''/'') ?rest)"
    unfolding list_ex_iff using ok dot_parts_invalid by blast
  ultimately show ?thesis using p \<open>s \<noteq> []\<close> unfolding IsSafe_def Let_def by simp
qed

lemma IsRoot_facts:
  assumes "IsRoot r"
  shows "\<not> IsUnderRefs r \<and> (IsSafe r \<longleftrightarrow> CHR ''-'' \<notin> set r)"
proof -
  from assms have r: "r \<noteq> []" "\<forall>c \<in> set r. (CHR ''A'' \<le> c \<and> c \<le> CHR ''Z'') \<or> c = CHR ''_'' \<or> c = CHR ''-''"
    by (auto simp: IsRoot_def list_ex_iff not_less split: if_splits)
  have "\<not> ((CHR ''A'' \<le> CHR ''r'' \<and> CHR ''r'' \<le> CHR ''Z'') \<or> CHR ''r'' = CHR ''_'' \<or> CHR ''r'' = CHR ''-'')"
    by code_simp
  then have "CHR ''r'' \<notin> set r" using r(2) by blast
  then have u: "\<not> IsUnderRefs r" by (auto simp: IsUnderRefs_def RefPrefix_def prefix_def)
  have "\<not> (CHR ''A'' \<le> CHR ''-'' \<and> CHR ''-'' \<le> CHR ''Z'')" by code_simp
  then show ?thesis
    using r u by (auto simp: IsSafe_def IsUnderRefs_def list_all_iff not_less)
qed

subsection \<open>References and their strings\<close>

lemma hexDigit_not_r: "unat n < 16 \<Longrightarrow> hexDigit n \<noteq> CHR ''r''"
proof
  assume "unat n < 16" and "hexDigit n = CHR ''r''"
  with fromHexChar_hexDigit [of n] have "fromHexChar (CHR ''r'') = Some n" by simp
  moreover have "fromHexChar (CHR ''r'') = None" by code_simp
  ultimately show False by simp
qed

lemma oid_String_not_symref: "oid_ok h \<Longrightarrow> \<not> prefix symrefPrefix (oid_String h)"
proof -
  assume "oid_ok h"
  then have "length (oid_Bytes h) = oid_Size h" by (simp add: oid_ok_iff)
  then have "oid_Bytes h \<noteq> []" by (cases "oid_format h") (auto simp: oid_Size_def)
  then obtain b bs where "oid_Bytes h = b # bs" by (cases "oid_Bytes h") simp_all
  then show ?thesis using hexDigit_not_r [OF byte_nibbles(1), of b]
    by (auto simp: oid_String_def EncodeToString_def symrefPrefix_def)
qed

text \<open>The references that the constructors build from well-formed identifiers.\<close>

definition reference_ok :: "Reference \<Rightarrow> bool" where
  "reference_ok r \<longleftrightarrow>
     (case ref_t r of
        HashReference \<Rightarrow> oid_ok (ref_h r) \<and> oid_format (ref_h r) \<noteq> SHA1 \<and> ref_target r = ''''
      | SymbolicReference \<Rightarrow> ref_h r = ZeroHash
      | InvalidReference \<Rightarrow> False)"

subsection \<open>Properties\<close>

text \<open>
  \<^bold>\<open>C31\<close>. \<open>Validate\<close> accepts exactly \<open>HEAD\<close> and the names that satisfy the ten rules of
  git-check-ref-format, though it tests most of them component by component; every other name
  is refused with \<open>ErrInvalidReferenceName\<close>.
\<close>

theorem Validate_iff_rules:
  "(Validate s = Inr () \<longleftrightarrow> s = HEAD \<or> refname_ok s) \<and>
   (Validate s = Inr () \<or> Validate s = Inl (ErrInvalidReferenceName s))"
  using Validate_iff [of s] Validate_error [of s] by (cases "Validate s") auto

text \<open>
  \<^bold>\<open>C32\<close>. A safe name is safe as a path: the file system resolves its components to the name
  itself, so it neither leaves the git directory (or, under \<open>refs/\<close>, the directory \<open>refs\<close>) nor
  aliases another safe name; it contains no backslash.
\<close>

theorem IsSafe_no_escape:
  assumes "IsSafe r"
  shows "resolve [] (split (CHR ''/'') r) = Some (split (CHR ''/'') r) \<and> CHR 0x5C \<notin> set r \<and>
    (IsUnderRefs r \<longrightarrow> hd (split (CHR ''/'') r) = ''refs'' \<and> 2 \<le> length (split (CHR ''/'') r)) \<and>
    (IsSafe r' \<longrightarrow> resolve [] (split (CHR ''/'') r') = resolve [] (split (CHR ''/'') r) \<longrightarrow> r' = r)"
proof (intro conjI impI)
  note plain = resolve_plain [OF IsSafe_parts, of _ "[]"]
  show "resolve [] (split (CHR ''/'') r) = Some (split (CHR ''/'') r)" using plain [OF assms] by simp
  show "r' = r" if "IsSafe r'" "resolve [] (split (CHR ''/'') r') = resolve [] (split (CHR ''/'') r)"
    using that(2) plain [OF assms] plain [OF that(1)] by (metis append_self_conv2 join_split option.inject rev.simps(1))
  show "CHR 0x5C \<notin> set r"
  proof (cases "prefix RefPrefix r")
    case True
    then show ?thesis using assms by (auto simp: IsSafe_def prefix_def Let_def RefPrefix_def split: if_splits)
  next
    case False
    have "\<not> ((CHR ''A'' \<le> CHR 0x5C \<and> CHR 0x5C \<le> CHR ''Z'') \<or> CHR 0x5C = CHR ''_'')" by code_simp
    then show ?thesis using False assms by (auto simp: IsSafe_def list_all_iff not_less split: if_splits)
  qed
  show "hd (split (CHR ''/'') r) = ''refs''" "2 \<le> length (split (CHR ''/'') r)" if "IsUnderRefs r"
    using that by (simp_all add: IsUnderRefs_def split_RefPrefix length_split)
qed

lemma IsSafe_no_escape_witness:
  "IsSafe ''refs/heads/main'' \<and> resolve [] (split (CHR ''/'') ''refs/heads/main'') = Some [''refs'', ''heads'', ''main'']"
proof -
  have "IsSafe ''refs/heads/main''" by code_simp
  then show ?thesis using IsSafe_no_escape [of "''refs/heads/main''" HEAD] by simp
qed

text \<open>
  The predicates fit together: a valid name under \<open>refs/\<close> is safe; a name accepted for
  a new branch or tag is a valid and safe name of its namespace and never \<open>refs/heads/HEAD\<close>; a
  root name is never under \<open>refs/\<close>, and is safe unless it contains a hyphen.
\<close>

theorem reference_predicates:
  "(Validate r = Inr () \<longrightarrow> IsUnderRefs r \<longrightarrow> IsSafe r) \<and>
   (ValidateBranchName n = Inr () \<longrightarrow> IsBranch (NewBranchReferenceName n) \<and>
      Validate (NewBranchReferenceName n) = Inr () \<and> IsSafe (NewBranchReferenceName n) \<and>
      NewBranchReferenceName n \<noteq> ''refs/heads/HEAD'' \<and> \<not> prefix ''-'' n) \<and>
   (ValidateTagName n = Inr () \<longrightarrow> IsTag (NewTagReferenceName n) \<and>
      Validate (NewTagReferenceName n) = Inr () \<and> IsSafe (NewTagReferenceName n) \<and> \<not> prefix ''-'' n) \<and>
   (IsRoot r \<longrightarrow> \<not> IsUnderRefs r \<and> (IsSafe r \<longleftrightarrow> CHR ''-'' \<notin> set r))"
proof -
  have branch: "IsBranch (NewBranchReferenceName n)" "IsUnderRefs (NewBranchReferenceName n)"
    by (simp_all add: IsBranch_def IsUnderRefs_def NewBranchReferenceName_def RefHeadPrefix_def)
  have tag: "IsTag (NewTagReferenceName n)" "IsUnderRefs (NewTagReferenceName n)"
    by (simp_all add: IsTag_def IsUnderRefs_def NewTagReferenceName_def refTagPrefix_def)
  have "Validate (NewBranchReferenceName n) = Inr () \<and> NewBranchReferenceName n \<noteq> ''refs/heads/HEAD'' \<and> \<not> prefix ''-'' n"
    if "ValidateBranchName n = Inr ()"
    using that by (auto simp: ValidateBranchName_def Let_def ref_prefix_defs split: if_splits)
  moreover have "Validate (NewTagReferenceName n) = Inr () \<and> \<not> prefix ''-'' n" if "ValidateTagName n = Inr ()"
    using that by (auto simp: ValidateTagName_def Let_def split: if_splits)
  moreover have "\<not> IsUnderRefs r \<and> (IsSafe r \<longleftrightarrow> CHR ''-'' \<notin> set r)" if "IsRoot r"
    using that by (rule IsRoot_facts)
  ultimately show ?thesis using Validate_IsSafe branch tag by blast
qed

lemma reference_predicates_witness:
  "ValidateBranchName ''main'' = Inr () \<and> IsSafe (NewBranchReferenceName ''main'') \<and>
   IsRoot ''ORIG_HEAD'' \<and> IsSafe ''ORIG_HEAD''"
proof -
  have "ValidateBranchName ''main'' = Inr ()" "IsRoot ''ORIG_HEAD''" by code_simp+
  then show ?thesis using reference_predicates [of "''ORIG_HEAD''" "''main''"] by simp
qed

text \<open>
  References survive their string form: a hash reference and a symbolic reference are
  rebuilt by \<open>NewReferenceFromStrings\<close> from what \<open>Strings\<close> returns, the two kinds never being
  confused (no hexadecimal hash looks like a symbolic target).
\<close>

theorem Reference_Strings_roundtrip:
  assumes "reference_ok r" and "Reference_Strings r = (name, target)"
  shows "NewReferenceFromStrings name target = r"
proof (cases "ref_t r")
  case HashReference
  then have h: "oid_ok (ref_h r)" "oid_format (ref_h r) \<noteq> SHA1" "ref_target r = ''''"
    using assms(1) by (simp_all add: reference_ok_def)
  have "length (oid_Bytes (ref_h r)) = oid_Size (ref_h r)" using h(1) by (simp add: oid_ok_iff)
  then have "IsHash (oid_String (ref_h r))"
    using h(2) by (cases "oid_format (ref_h r)") (simp_all add: IsHash_def oid_String_def oid_Size_def)
  from FromHex_exact [OF this] obtain i where i: "FromHex (oid_String (ref_h r)) = (i, True)" "oid_ok i"
    "oid_Bytes i = oid_Bytes (ref_h r)" "oid_format i = oid_format (ref_h r)"
    using h(2) \<open>length (oid_Bytes (ref_h r)) = oid_Size (ref_h r)\<close>
    by (cases "oid_format (ref_h r)") (auto simp: oid_String_def oid_Size_def)
  have "i = ref_h r" using oid_eqI [OF i(2) h(1) i(4,3)] .
  then show ?thesis using HashReference assms(2) h i(1) oid_String_not_symref [OF h(1)]
    by (auto simp: Reference_Strings_def ref_value_def NewReferenceFromStrings_def NewHashReference_def NewHash_def)
next
  case SymbolicReference
  then show ?thesis using assms
    by (auto simp: Reference_Strings_def ref_value_def NewReferenceFromStrings_def NewSymbolicReference_def
        reference_ok_def)
qed (use assms(1) in \<open>simp add: reference_ok_def\<close>)

lemma Reference_Strings_roundtrip_witness:
  "reference_ok (NewHashReference ''refs/heads/main'' ZeroHash) \<and>
   NewReferenceFromStrings ''refs/heads/main'' (oid_String ZeroHash) = NewHashReference ''refs/heads/main'' ZeroHash"
proof -
  have "reference_ok (NewHashReference ''refs/heads/main'' ZeroHash)"
    by (simp add: reference_ok_def NewHashReference_def ZeroHash_def)
  then show ?thesis
    using Reference_Strings_roundtrip [of "NewHashReference ''refs/heads/main'' ZeroHash"]
    by (simp add: Reference_Strings_def ref_value_def NewHashReference_def)
qed

end
