(* ===== verification/Refspec.thy ===== *)
theory Refspec
  imports Reference_Name
begin

text \<open>
  Refspecs: \<open>config/refspec.go\<close>. Most operations index or slice the string without a check and
  panic on a malformed refspec; \<open>None\<close> is that panic. For a refspec that \<open>Validate\<close> accepts they
  are shown to be the reading of a refspec as two patterns: a name matches the source pattern with
  some text for the wildcard, and that text fills the destination pattern. \<open>Dst\<close> still panics on a name
  that is shorter than the fixed parts of the source pattern; the others return for every name.
\<close>

datatype refspec_error = ErrRefSpecMalformedSeparator | ErrRefSpecMalformedWildcard

type_synonym RefSpec = string

definition RefSpec_Validate :: "RefSpec \<Rightarrow> refspec_error + unit" where
  "RefSpec_Validate spec =
     (if count_list spec (CHR '':'') \<noteq> 1 then Inl ErrRefSpecMalformedSeparator
      else case cut (CHR '':'') spec of
             None \<Rightarrow> Inl ErrRefSpecMalformedSeparator
           | Some (a, b) \<Rightarrow>
               if length a = length spec - 1 then Inl ErrRefSpecMalformedSeparator
               else let ws = count_list a (CHR ''*''); wd = count_list b (CHR ''*'')
                    in if ws = wd \<and> ws < 2 \<and> wd < 2 then Inr () else Inl ErrRefSpecMalformedWildcard)"

definition IsForceUpdate :: "RefSpec \<Rightarrow> bool option" where
  "IsForceUpdate s = map_option (\<lambda>c. c = CHR ''+'') (index s 0)"


definition Src :: "RefSpec \<Rightarrow> string option" where
  "Src s =
     (case IsForceUpdate s of
        None \<Rightarrow> None
      | Some f \<Rightarrow>
          (case cut (CHR '':'') s of
             None \<Rightarrow> None
           | Some (a, b) \<Rightarrow> slice s (if f then 1 else 0) (length a)))"


definition IsWildcard :: "RefSpec \<Rightarrow> bool" where
  "IsWildcard s \<longleftrightarrow> CHR ''*'' \<in> set s"

definition matchExact :: "RefSpec \<Rightarrow> ReferenceName \<Rightarrow> bool option" where
  "matchExact s n = map_option (\<lambda>src. src = n) (Src s)"

definition matchGlob :: "RefSpec \<Rightarrow> ReferenceName \<Rightarrow> bool option" where
  "matchGlob s n =
     (case Src s of
        None \<Rightarrow> None
      | Some src \<Rightarrow>
          (case cut (CHR ''*'') src of
             None \<Rightarrow> None
           | Some (p, q) \<Rightarrow> Some (length n \<ge> length p + length q \<and> prefix p n \<and> suffix q n)))"

definition Match :: "RefSpec \<Rightarrow> ReferenceName \<Rightarrow> bool option" where
  "Match s n = (if \<not> IsWildcard s then matchExact s n else matchGlob s n)"

text \<open>\<open>strings.Cut\<close> with Go's result when the separator is missing.\<close>

definition Cut :: "char \<Rightarrow> string \<Rightarrow> string \<times> string" where
  "Cut c s = (case cut c s of None \<Rightarrow> (s, []) | Some r \<Rightarrow> r)"

definition Dst :: "RefSpec \<Rightarrow> ReferenceName \<Rightarrow> ReferenceName option" where
  "Dst s n =
     (let dst = (case cut (CHR '':'') s of None \<Rightarrow> s | Some (a, b) \<Rightarrow> b)
      in (case Src s of
            None \<Rightarrow> None
          | Some src \<Rightarrow>
              if \<not> IsWildcard s then Some dst
              else (case cut (CHR ''*'') src of
                      None \<Rightarrow> None
                    | Some (p, q) \<Rightarrow>
                        let ws = length p;
                            (before, after) = Cut (CHR ''*'') dst;
                            hi = int (length n) - (int (length src) - int (ws + 1))
                        in if hi < 0 then None
                           else map_option (\<lambda>m. before @ m @ after) (slice n ws (nat hi)))))"

definition Reverse :: "RefSpec \<Rightarrow> RefSpec" where
  "Reverse s =
     (let (force, spec) = (if prefix ''+'' s then (''+'', drop 1 s) else ('''', s));
          (before, after) = Cut (CHR '':'') spec
      in force @ after @ '':'' @ before)"

fun MatchAny :: "RefSpec list \<Rightarrow> ReferenceName \<Rightarrow> bool option" where
  "MatchAny [] n = Some False"
| "MatchAny (r # rs) n =
     (case Match r n of None \<Rightarrow> None | Some True \<Rightarrow> Some True | Some False \<Rightarrow> MatchAny rs n)"

subsection \<open>A refspec as two patterns\<close>

text \<open>The text that the wildcard of a pattern stands for in a name; the empty one if there is none.\<close>

definition glob_match :: "string \<Rightarrow> string \<Rightarrow> string option" where
  "glob_match pat n =
     (case cut (CHR ''*'') pat of
        None \<Rightarrow> if n = pat then Some [] else None
      | Some (p, q) \<Rightarrow>
          if prefix p n \<and> suffix q (drop (length p) n)
          then Some (take (length n - length p - length q) (drop (length p) n)) else None)"

definition glob_fill :: "string \<Rightarrow> string \<Rightarrow> string" where
  "glob_fill pat m = (case cut (CHR ''*'') pat of None \<Rightarrow> pat | Some (p, q) \<Rightarrow> p @ m @ q)"

lemma glob_match_iff:
  "glob_match pat n = Some m \<longleftrightarrow> n = glob_fill pat m \<and> (CHR ''*'' \<notin> set pat \<longrightarrow> m = [])"
proof (cases "cut (CHR ''*'') pat")
  case None
  then have "CHR ''*'' \<notin> set pat" by (simp add: cut_None_iff)
  with None show ?thesis by (auto simp: glob_match_def glob_fill_def)
next
  case (Some pq)
  then obtain p q where c: "cut (CHR ''*'') pat = Some (p, q)" by (cases pq) simp
  then have "CHR ''*'' \<in> set pat" by (auto simp: cut_Some_iff)
  with c show ?thesis
    by (auto simp: glob_match_def glob_fill_def prefix_def suffix_def)
qed

text \<open>The parts of a refspec: the force marker, the source and the destination.\<close>

definition refspec_of :: "bool \<Rightarrow> string \<Rightarrow> string \<Rightarrow> RefSpec" where
  "refspec_of force src dst = (if force then ''+'' else '''') @ src @ '':'' @ dst"

definition patterns_ok :: "string \<Rightarrow> string \<Rightarrow> bool" where
  "patterns_ok src dst \<longleftrightarrow> CHR '':'' \<notin> set src \<and> CHR '':'' \<notin> set dst \<and>
     count_list src (CHR ''*'') = count_list dst (CHR ''*'') \<and> count_list src (CHR ''*'') < 2"

lemma Validate_parts:
  assumes "RefSpec_Validate s = Inr ()"
  shows "\<exists>force src dst. s = refspec_of force src dst \<and> patterns_ok src dst \<and> dst \<noteq> [] \<and>
    (\<not> force \<longrightarrow> \<not> prefix ''+'' src)"
proof -
  from assms obtain a b where c: "cut (CHR '':'') s = Some (a, b)" "count_list s (CHR '':'') = 1"
    "length a \<noteq> length s - 1" "count_list a (CHR ''*'') = count_list b (CHR ''*'')" "count_list a (CHR ''*'') < 2"
    by (auto simp: RefSpec_Validate_def Let_def split: option.splits if_splits)
  from c(1) have s: "s = a @ CHR '':'' # b" "CHR '':'' \<notin> set a" by (simp_all add: cut_Some_iff)
  with c(2) have "CHR '':'' \<notin> set b" by (simp add: count_list_0_iff)
  moreover have "b \<noteq> []" using c(3) s by auto
  ultimately show ?thesis
  proof (cases "prefix ''+'' a")
    case True
    then obtain src where "a = CHR ''+'' # src" by (auto simp: prefix_def)
    then show ?thesis using s c(4,5) \<open>CHR '':'' \<notin> set b\<close> \<open>b \<noteq> []\<close>
      by (intro exI [where x = True] exI [where x = src] exI [where x = b]) (auto simp: refspec_of_def patterns_ok_def)
  next
    case False
    then show ?thesis using s c(4,5) \<open>CHR '':'' \<notin> set b\<close> \<open>b \<noteq> []\<close>
      by (intro exI [where x = False] exI [where x = a] exI [where x = b]) (auto simp: refspec_of_def patterns_ok_def)
  qed
qed

lemma cut_sep: "c \<notin> set a \<Longrightarrow> cut c (a @ c # b) = Some (a, b)"
  by (simp add: cut_Some_iff)

lemma refspec_Src:
  assumes "CHR '':'' \<notin> set src" and "\<not> force \<longrightarrow> \<not> prefix ''+'' src"
  shows "Src (refspec_of force src dst) = Some src"
proof (cases force)
  case True
  then show ?thesis using assms(1) cut_sep [of "CHR '':''" "CHR ''+'' # src" dst]
    by (simp add: Src_def refspec_of_def IsForceUpdate_def index_def slice_def)
next
  case False
  then show ?thesis using assms cut_sep [of "CHR '':''" src dst]
    by (cases src) (auto simp: Src_def refspec_of_def IsForceUpdate_def index_def slice_def)
qed

lemma refspec_wild:
  assumes "patterns_ok src dst"
  shows "IsWildcard (refspec_of force src dst) \<longleftrightarrow> CHR ''*'' \<in> set src" "CHR ''*'' \<in> set dst \<longleftrightarrow> CHR ''*'' \<in> set src"
proof -
  have "CHR ''*'' \<in> set dst \<longleftrightarrow> CHR ''*'' \<in> set src"
    using assms count_list_0_iff [of src "CHR ''*''"] count_list_0_iff [of dst "CHR ''*''"]
    by (auto simp: patterns_ok_def)
  then show "CHR ''*'' \<in> set dst \<longleftrightarrow> CHR ''*'' \<in> set src"
    "IsWildcard (refspec_of force src dst) \<longleftrightarrow> CHR ''*'' \<in> set src"
    by (auto simp: IsWildcard_def refspec_of_def)
qed

lemma refspec_Match:
  assumes "patterns_ok src dst" and "\<not> force \<longrightarrow> \<not> prefix ''+'' src"
  shows "Match (refspec_of force src dst) n = Some (glob_match src n \<noteq> None)"
proof -
  have S: "Src (refspec_of force src dst) = Some src"
    using assms by (intro refspec_Src) (auto simp: patterns_ok_def)
  show ?thesis
  proof (cases "cut (CHR ''*'') src")
    case None
    then have "CHR ''*'' \<notin> set src" by (simp add: cut_None_iff)
    then show ?thesis using None S refspec_wild [OF assms(1)]
      by (auto simp: Match_def matchExact_def glob_match_def)
  next
    case (Some pq)
    then obtain p q where c: "cut (CHR ''*'') src = Some (p, q)" by (cases pq) simp
    then have "CHR ''*'' \<in> set src" by (auto simp: cut_Some_iff)
    moreover have "length n \<ge> length p + length q \<and> prefix p n \<and> suffix q n \<longleftrightarrow>
        prefix p n \<and> suffix q (drop (length p) n)"
      by (auto simp: prefix_def suffix_def append_eq_append_conv2) (metis append.assoc)
    ultimately show ?thesis using c S refspec_wild [OF assms(1)]
      by (simp add: Match_def matchGlob_def glob_match_def)
  qed
qed

lemma refspec_Dst:
  assumes "patterns_ok src dst" and "\<not> force \<longrightarrow> \<not> prefix ''+'' src" and "glob_match src n = Some m"
  shows "Dst (refspec_of force src dst) n = Some (glob_fill dst m)"
proof -
  have S: "Src (refspec_of force src dst) = Some src"
    using assms by (intro refspec_Src) (auto simp: patterns_ok_def)
  have D: "cut (CHR '':'') (refspec_of force src dst) = Some ((if force then ''+'' else '''') @ src, dst)"
    using assms(1) by (simp add: cut_Some_iff refspec_of_def patterns_ok_def)
  show ?thesis
  proof (cases "cut (CHR ''*'') src")
    case None
    then have "CHR ''*'' \<notin> set src" by (simp add: cut_None_iff)
    moreover from this have "cut (CHR ''*'') dst = None" using refspec_wild [OF assms(1)] by (simp add: cut_None_iff)
    ultimately show ?thesis using None S D refspec_wild [OF assms(1)] by (simp add: Dst_def glob_fill_def)
  next
    case (Some pq)
    then obtain p q where c: "cut (CHR ''*'') src = Some (p, q)" by (cases pq) simp
    then have w: "CHR ''*'' \<in> set src" "length src = length p + 1 + length q" by (auto simp: cut_Some_iff)
    have n: "n = p @ m @ q" using assms(3) c by (simp add: glob_match_iff glob_fill_def)
    from w(1) have "CHR ''*'' \<in> set dst" using refspec_wild [OF assms(1)] by simp
    then obtain p' q' where c': "cut (CHR ''*'') dst = Some (p', q')"
      using cut_None_iff [of "CHR ''*''" dst] by (cases "cut (CHR ''*'') dst") auto
    show ?thesis using c c' S D w n refspec_wild [OF assms(1)]
      by (simp add: Dst_def Cut_def glob_fill_def slice_def Let_def nat_add_distrib)
  qed
qed

lemma Reverse_refspec:
  assumes "CHR '':'' \<notin> set src" and "\<not> force \<longrightarrow> \<not> prefix ''+'' src"
  shows "Reverse (refspec_of force src dst) = refspec_of force dst src"
proof (cases force)
  case True
  then show ?thesis using assms(1) by (simp add: Reverse_def refspec_of_def Cut_def cut_sep)
next
  case False
  then have "\<not> prefix ''+'' (src @ CHR '':'' # dst)" using assms(2) by (cases src) auto
  then show ?thesis using False assms(1) by (simp add: Reverse_def refspec_of_def Cut_def cut_sep)
qed

lemma patterns_ok_sym: "patterns_ok src dst \<Longrightarrow> patterns_ok dst src"
  by (auto simp: patterns_ok_def)

subsection \<open>Properties\<close>




text \<open>A panic: the name is shorter than \<open>refs/heads/\<close>.\<close>

lemma Dst_panics:
  "RefSpec_Validate ''refs/heads/*:refs/remotes/*'' = Inr () \<and> Dst ''refs/heads/*:refs/remotes/*'' ''x'' = None"
  by code_simp


text \<open>
  \<open>Reverse\<close> inverts the mapping: if a valid refspec (forced, or with a destination that
  does not itself begin with the force marker) matches a name, the reversed refspec matches the
  destination of that name and maps it back to the name.
\<close>

theorem RefSpec_Reverse_inverts:
  assumes "RefSpec_Validate s = Inr ()" and "Match s n = Some True"
    and "prefix ''+'' s \<or> \<not> contains_sub '':+'' s"
  shows "\<exists>d. Dst s n = Some d \<and> Match (Reverse s) d = Some True \<and> Dst (Reverse s) d = Some n"
proof -
  from Validate_parts [OF assms(1)] obtain force src dst where p: "s = refspec_of force src dst"
    "patterns_ok src dst" "\<not> force \<longrightarrow> \<not> prefix ''+'' src" by blast
  have src: "CHR '':'' \<notin> set src" using p(2) by (simp add: patterns_ok_def)
  have dst: "\<not> force \<longrightarrow> \<not> prefix ''+'' dst"
  proof (intro impI notI)
    assume f: "\<not> force" and "prefix ''+'' dst"
    then obtain d where "s = src @ '':+'' @ d" using p(1) by (auto simp: refspec_of_def prefix_def)
    then have "contains_sub '':+'' s" unfolding contains_sub_iff by blast
    moreover have "\<not> prefix ''+'' s" using f p(1,3) by (cases src) (auto simp: refspec_of_def)
    ultimately show False using assms(3) by blast
  qed
  from assms(2) obtain m where m: "glob_match src n = Some m"
    using p refspec_Match [OF p(2,3), of n] by auto
  have r: "Reverse s = refspec_of force dst src" using p src by (simp add: Reverse_refspec)
  have "glob_match dst (glob_fill dst m) = Some m"
    using m refspec_wild(2) [OF p(2)] by (auto simp: glob_match_iff)
  moreover have "n = glob_fill src m" using m by (simp add: glob_match_iff)
  ultimately show ?thesis unfolding r
    using refspec_Dst [OF p(2,3) m] refspec_Match [OF patterns_ok_sym [OF p(2)] dst]
      refspec_Dst [OF patterns_ok_sym [OF p(2)] dst] by (simp add: p(1))
qed

lemma RefSpec_Reverse_inverts_witness:
  "RefSpec_Validate ''+refs/heads/*:refs/remotes/origin/*'' = Inr () \<and>
   Match ''+refs/heads/*:refs/remotes/origin/*'' ''refs/heads/main'' = Some True \<and>
   (\<exists>d. Dst ''+refs/heads/*:refs/remotes/origin/*'' ''refs/heads/main'' = Some d \<and>
      Dst (Reverse ''+refs/heads/*:refs/remotes/origin/*'') d = Some ''refs/heads/main'')"
proof -
  have "RefSpec_Validate ''+refs/heads/*:refs/remotes/origin/*'' = Inr ()"
    "Match ''+refs/heads/*:refs/remotes/origin/*'' ''refs/heads/main'' = Some True"
    "prefix ''+'' ''+refs/heads/*:refs/remotes/origin/*''" by code_simp+
  then show ?thesis
    using RefSpec_Reverse_inverts [of "''+refs/heads/*:refs/remotes/origin/*''" "''refs/heads/main''"] by blast
qed

end
