(* ===== verification/Ref_Storage.thy ===== *)
theory Ref_Storage
  imports Reference_Name "HOL-Library.AList"
begin

text \<open>
  Reference storage: the interface \<open>ReferenceStorer\<close> and \<open>ResolveReference\<close> of
  \<open>plumbing/storer/reference.go\<close>, the in-memory implementation of \<open>storage/memory/storage.go\<close> and
  the transactional overlay of \<open>storage/transactional/reference.go\<close>.

  The interface is a record of operations on a state; the overlay is defined over the
  operations of the two storers it is given, as in the code. A Go map is an association list
  with distinct keys, in the order in which it will be iterated, which is arbitrary: every
  statement is about all such lists. The contract of the interface is the locale \<open>ref_store\<close>,
  in terms of the map from names to references that a storer represents. The in-memory
  storer satisfies it, and the overlay of two storers that do satisfies it again, so a
  transaction over a transaction is covered too; committing makes the base what the
  overlay showed.
\<close>

datatype storage_error =
    ErrReferenceNotFound | ErrReferenceHasChanged | ErrMaxResolveRecursion
  | ErrObjectNotFound | ErrUnsupportedObjectType | NilPointer

subsection \<open>The interface\<close>

text \<open>A nil reference is \<open>None\<close>; an operation that changes the state returns the error and the state.\<close>

record 's ref_ops =
  op_SetReference :: "Reference option \<Rightarrow> 's \<Rightarrow> storage_error option \<times> 's"
  op_CheckAndSetReference :: "Reference option \<Rightarrow> Reference option \<Rightarrow> 's \<Rightarrow> storage_error option \<times> 's"
  op_Reference :: "ReferenceName \<Rightarrow> 's \<Rightarrow> storage_error + Reference"
  op_IterReferences :: "'s \<Rightarrow> storage_error + Reference list"
  op_RemoveReference :: "ReferenceName \<Rightarrow> 's \<Rightarrow> storage_error option \<times> 's"
  op_CountLooseRefs :: "'s \<Rightarrow> storage_error + int"

definition MaxResolveRecursion :: nat where "MaxResolveRecursion = 1024"

function resolveReference :: "'s ref_ops \<Rightarrow> 's \<Rightarrow> Reference \<Rightarrow> nat \<Rightarrow> storage_error + Reference" where
  "resolveReference ops s r recursion =
     (if ref_t r \<noteq> SymbolicReference then Inr r
      else if recursion > MaxResolveRecursion then Inl ErrMaxResolveRecursion
      else rbind (op_Reference ops (ref_target r) s) (\<lambda>t. resolveReference ops s t (Suc recursion)))"
  by pat_completeness auto
termination by (relation "measure (\<lambda>(_, _, _, n). Suc MaxResolveRecursion - n)") auto

declare resolveReference.simps [simp del]

definition ResolveReference :: "'s ref_ops \<Rightarrow> 's \<Rightarrow> ReferenceName \<Rightarrow> storage_error + Reference" where
  "ResolveReference ops s n = rbind (op_Reference ops n s) (\<lambda>r. resolveReference ops s r 0)"

subsection \<open>In memory (storage/memory/storage.go)\<close>

type_synonym mem_refs = "(ReferenceName \<times> Reference) list"

definition mem_SetReference :: "Reference option \<Rightarrow> mem_refs \<Rightarrow> storage_error option \<times> mem_refs" where
  "mem_SetReference ref r =
     (case ref of None \<Rightarrow> (None, r) | Some x \<Rightarrow> (None, AList.update (ref_n x) x r))"

definition mem_CheckAndSetReference :: "Reference option \<Rightarrow> Reference option \<Rightarrow> mem_refs
    \<Rightarrow> storage_error option \<times> mem_refs" where
  "mem_CheckAndSetReference ref old r =
     (case ref of
        None \<Rightarrow> (None, r)
      | Some x \<Rightarrow>
          (case old of
             None \<Rightarrow> (None, AList.update (ref_n x) x r)
           | Some ol \<Rightarrow>
               (case map_of r (ref_n x) of
                  None \<Rightarrow> (Some ErrReferenceNotFound, r)
                | Some tmp \<Rightarrow>
                    if ref_h tmp \<noteq> ref_h ol then (Some ErrReferenceHasChanged, r)
                    else (None, AList.update (ref_n x) x r))))"

definition mem_Reference :: "ReferenceName \<Rightarrow> mem_refs \<Rightarrow> storage_error + Reference" where
  "mem_Reference n r = (case map_of r n of None \<Rightarrow> Inl ErrReferenceNotFound | Some ref \<Rightarrow> Inr ref)"

definition mem_IterReferences :: "mem_refs \<Rightarrow> storage_error + Reference list" where
  "mem_IterReferences r = Inr (map snd r)"

definition mem_CountLooseRefs :: "mem_refs \<Rightarrow> storage_error + int" where
  "mem_CountLooseRefs r = Inr (int (length r))"

definition mem_RemoveReference :: "ReferenceName \<Rightarrow> mem_refs \<Rightarrow> storage_error option \<times> mem_refs" where
  "mem_RemoveReference n r = (None, AList.delete n r)"

definition mem_ops :: "mem_refs ref_ops" where
  "mem_ops =
     \<lparr>op_SetReference = mem_SetReference, op_CheckAndSetReference = mem_CheckAndSetReference,
      op_Reference = mem_Reference, op_IterReferences = mem_IterReferences,
      op_RemoveReference = mem_RemoveReference, op_CountLooseRefs = mem_CountLooseRefs\<rparr>"

subsection \<open>The transactional overlay (storage/transactional/reference.go)\<close>

record ('b, 't) tx_refs =
  tx_base :: 'b
  tx_temporal :: 't
  tx_deleted :: "ReferenceName list"

definition NewReferenceStorage :: "'b \<Rightarrow> 't \<Rightarrow> ('b, 't) tx_refs" where
  "NewReferenceStorage base temporal = \<lparr>tx_base = base, tx_temporal = temporal, tx_deleted = []\<rparr>"

definition tx_SetReference :: "'b ref_ops \<Rightarrow> 't ref_ops \<Rightarrow> Reference option \<Rightarrow> ('b, 't) tx_refs
    \<Rightarrow> storage_error option \<times> ('b, 't) tx_refs" where
  "tx_SetReference bo tops ref r =
     (case ref of
        None \<Rightarrow> (Some NilPointer, r)
      | Some x \<Rightarrow>
          let (err, t) = op_SetReference tops ref (tx_temporal r)
          in (err, r\<lparr>tx_deleted := removeAll (ref_n x) (tx_deleted r), tx_temporal := t\<rparr>))"

definition tx_CheckAndSetReference :: "'b ref_ops \<Rightarrow> 't ref_ops \<Rightarrow> Reference option \<Rightarrow> Reference option
    \<Rightarrow> ('b, 't) tx_refs \<Rightarrow> storage_error option \<times> ('b, 't) tx_refs" where
  "tx_CheckAndSetReference bo tops ref old r =
     (case old of
        None \<Rightarrow> tx_SetReference bo tops ref r
      | Some ol \<Rightarrow>
          let tmp = (if op_Reference tops (ref_n ol) (tx_temporal r) = Inl ErrReferenceNotFound
                     then op_Reference bo (ref_n ol) (tx_base r)
                     else op_Reference tops (ref_n ol) (tx_temporal r))
          in (case tmp of
                Inl e \<Rightarrow> (Some e, r)
              | Inr t \<Rightarrow>
                  if ref_h t \<noteq> ref_h ol then (Some ErrReferenceHasChanged, r)
                  else tx_SetReference bo tops ref r))"

definition tx_Reference :: "'b ref_ops \<Rightarrow> 't ref_ops \<Rightarrow> ReferenceName \<Rightarrow> ('b, 't) tx_refs
    \<Rightarrow> storage_error + Reference" where
  "tx_Reference bo tops n r =
     (if n \<in> set (tx_deleted r) then Inl ErrReferenceNotFound
      else if op_Reference tops n (tx_temporal r) = Inl ErrReferenceNotFound
      then op_Reference bo n (tx_base r)
      else op_Reference tops n (tx_temporal r))"

text \<open>The callback of the two \<open>ForEach\<close> loops, with the names seen so far.\<close>

fun tx_collect :: "ReferenceName list \<Rightarrow> ReferenceName list \<Rightarrow> Reference list \<Rightarrow> Reference list \<times> ReferenceName list" where
  "tx_collect deleted seen [] = ([], seen)"
| "tx_collect deleted seen (ref # refs) =
     (if ref_n ref \<in> set deleted \<or> ref_n ref \<in> set seen then tx_collect deleted seen refs
      else case tx_collect deleted (ref_n ref # seen) refs of (rs, seen') \<Rightarrow> (ref # rs, seen'))"

definition tx_IterReferences :: "'b ref_ops \<Rightarrow> 't ref_ops \<Rightarrow> ('b, 't) tx_refs \<Rightarrow> storage_error + Reference list" where
  "tx_IterReferences bo tops r =
     rbind (op_IterReferences tops (tx_temporal r)) (\<lambda>ts.
     let (refs, seen) = tx_collect (tx_deleted r) [] ts
     in rbind (op_IterReferences bo (tx_base r)) (\<lambda>bs.
        Inr (fst (tx_collect (tx_deleted r) seen bs) @ refs)))"

definition tx_CountLooseRefs :: "'b ref_ops \<Rightarrow> 't ref_ops \<Rightarrow> ('b, 't) tx_refs \<Rightarrow> storage_error + int" where
  "tx_CountLooseRefs bo tops r =
     rbind (op_CountLooseRefs tops (tx_temporal r)) (\<lambda>tc.
     rbind (op_CountLooseRefs bo (tx_base r)) (\<lambda>bc. Inr (tc + bc)))"

definition tx_RemoveReference :: "'b ref_ops \<Rightarrow> 't ref_ops \<Rightarrow> ReferenceName \<Rightarrow> ('b, 't) tx_refs
    \<Rightarrow> storage_error option \<times> ('b, 't) tx_refs" where
  "tx_RemoveReference bo tops n r =
     (let (err, t) = op_RemoveReference tops n (tx_temporal r)
      in (err, r\<lparr>tx_deleted := List.insert n (tx_deleted r), tx_temporal := t\<rparr>))"

text \<open>The loops of \<open>Commit\<close>: they stop at the first error.\<close>

fun commit_removals :: "'b ref_ops \<Rightarrow> ReferenceName list \<Rightarrow> 'b \<Rightarrow> storage_error option \<times> 'b" where
  "commit_removals bo [] b = (None, b)"
| "commit_removals bo (n # ns) b =
     (case op_RemoveReference bo n b of (None, b') \<Rightarrow> commit_removals bo ns b' | (Some e, b') \<Rightarrow> (Some e, b'))"

fun commit_sets :: "'b ref_ops \<Rightarrow> Reference list \<Rightarrow> 'b \<Rightarrow> storage_error option \<times> 'b" where
  "commit_sets bo [] b = (None, b)"
| "commit_sets bo (x # xs) b =
     (case op_SetReference bo (Some x) b of (None, b') \<Rightarrow> commit_sets bo xs b' | (Some e, b') \<Rightarrow> (Some e, b'))"

definition tx_Commit :: "'b ref_ops \<Rightarrow> 't ref_ops \<Rightarrow> ('b, 't) tx_refs \<Rightarrow> storage_error option \<times> ('b, 't) tx_refs" where
  "tx_Commit bo tops r =
     (case commit_removals bo (tx_deleted r) (tx_base r) of
        (Some e, b) \<Rightarrow> (Some e, r\<lparr>tx_base := b\<rparr>)
      | (None, b) \<Rightarrow>
          (case op_IterReferences tops (tx_temporal r) of
             Inl e \<Rightarrow> (Some e, r\<lparr>tx_base := b\<rparr>)
           | Inr refs \<Rightarrow> (case commit_sets bo refs b of (err, b') \<Rightarrow> (err, r\<lparr>tx_base := b'\<rparr>))))"

definition tx_ops :: "'b ref_ops \<Rightarrow> 't ref_ops \<Rightarrow> ('b, 't) tx_refs ref_ops" where
  "tx_ops bo tops =
     \<lparr>op_SetReference = tx_SetReference bo tops, op_CheckAndSetReference = tx_CheckAndSetReference bo tops,
      op_Reference = tx_Reference bo tops, op_IterReferences = tx_IterReferences bo tops,
      op_RemoveReference = tx_RemoveReference bo tops, op_CountLooseRefs = tx_CountLooseRefs bo tops\<rparr>"

subsection \<open>The contract\<close>

text \<open>The references of a list, by name.\<close>

definition refs_map :: "Reference list \<Rightarrow> ReferenceName \<Rightarrow> Reference option" where
  "refs_map rs = map_of (map (\<lambda>r. (ref_n r, r)) rs)"

lemma refs_map_name: "refs_map rs n = Some r \<Longrightarrow> ref_n r = n \<and> r \<in> set rs"
  by (auto simp: refs_map_def dest!: map_of_SomeD)

locale ref_store =
  fixes ops :: "'s ref_ops"
    and inv :: "'s \<Rightarrow> bool"
    and view :: "'s \<Rightarrow> ReferenceName \<Rightarrow> Reference option"
  assumes reference_law:
      "inv s \<Longrightarrow> op_Reference ops n s = (case view s n of None \<Rightarrow> Inl ErrReferenceNotFound | Some r \<Rightarrow> Inr r)"
    and set_law:
      "inv s \<Longrightarrow> \<exists>s'. op_SetReference ops (Some r) s = (None, s') \<and> inv s' \<and> view s' = (view s)(ref_n r \<mapsto> r)"
    and remove_law:
      "inv s \<Longrightarrow> \<exists>s'. op_RemoveReference ops n s = (None, s') \<and> inv s' \<and> view s' = (view s)(n := None)"
    and iter_law:
      "inv s \<Longrightarrow> \<exists>rs. op_IterReferences ops s = Inr rs \<and> distinct (map ref_n rs) \<and> refs_map rs = view s"
begin

lemma view_name: "inv s \<Longrightarrow> view s n = Some r \<Longrightarrow> ref_n r = n"
  using iter_law [of s] refs_map_name by metis

lemma removals_ok:
  "inv s \<Longrightarrow> \<exists>s'. commit_removals ops ns s = (None, s') \<and> inv s' \<and>
     view s' = (\<lambda>n. if n \<in> set ns then None else view s n)"
proof (induction ns arbitrary: s)
  case (Cons n ns)
  from remove_law [OF Cons.prems, of n] obtain s1 where
    s1: "op_RemoveReference ops n s = (None, s1)" "inv s1" "view s1 = (view s)(n := None)" by blast
  from Cons.IH [OF s1(2)] s1 show ?case by (auto simp: fun_eq_iff)
qed auto

lemma sets_ok:
  "inv s \<Longrightarrow> distinct (map ref_n rs) \<Longrightarrow> \<exists>s'. commit_sets ops rs s = (None, s') \<and> inv s' \<and> view s' = view s ++ refs_map rs"
proof (induction rs arbitrary: s)
  case (Cons r rs)
  from set_law [OF Cons.prems(1), of r] obtain s1 where
    s1: "op_SetReference ops (Some r) s = (None, s1)" "inv s1" "view s1 = (view s)(ref_n r \<mapsto> r)" by blast
  have "refs_map rs (ref_n r) = None" using Cons.prems(2) by (auto simp: refs_map_def map_of_eq_None_iff image_image)
  then have "(view s)(ref_n r \<mapsto> r) ++ refs_map rs = view s ++ refs_map (r # rs)"
    by (auto simp: fun_eq_iff refs_map_def map_add_def split: option.splits)
  then have "view s1 ++ refs_map rs = view s ++ refs_map (r # rs)" unfolding s1(3) .
  with Cons.IH [OF s1(2)] s1(1) Cons.prems(2) show ?case by simp
qed (simp add: refs_map_def)

end

subsection \<open>The in-memory storer keeps the contract\<close>

definition mem_inv :: "mem_refs \<Rightarrow> bool" where
  "mem_inv r \<longleftrightarrow> distinct (map fst r) \<and> list_all (\<lambda>(n, x). ref_n x = n) r"

lemma mem_inv_update: "mem_inv r \<Longrightarrow> mem_inv (AList.update (ref_n x) x r)"
proof -
  assume "mem_inv r"
  then have d: "distinct (map fst r)" and a: "\<forall>p \<in> set r. ref_n (snd p) = fst p"
    by (auto simp: mem_inv_def list_all_iff)
  have "set (AList.update (ref_n x) x r) \<subseteq> insert (ref_n x, x) (set r)"
    by (induction r) auto
  with a have "list_all (\<lambda>(n, x). ref_n x = n) (AList.update (ref_n x) x r)" by (fastforce simp: list_all_iff)
  with d show ?thesis by (simp add: mem_inv_def distinct_update)
qed

lemma mem_inv_delete: "mem_inv r \<Longrightarrow> mem_inv (AList.delete n r)"
  by (simp add: mem_inv_def distinct_delete) (auto simp: list_all_iff AList.delete_eq)

lemma mem_iter: "mem_inv r \<Longrightarrow> distinct (map ref_n (map snd r)) \<and> refs_map (map snd r) = map_of r"
proof -
  assume "mem_inv r"
  then have d: "distinct (map fst r)" and a: "\<And>p. p \<in> set r \<Longrightarrow> ref_n (snd p) = fst p"
    by (auto simp: mem_inv_def list_all_iff)
  have "map (\<lambda>x. (ref_n x, x)) (map snd r) = r" using a by (auto simp: o_def intro!: map_idI)
  then have "refs_map (map snd r) = map_of r" unfolding refs_map_def by simp
  moreover have "map ref_n (map snd r) = map fst r" using a by simp
  ultimately show ?thesis using d by metis
qed

lemmas mem_defs = mem_ops_def mem_SetReference_def mem_CheckAndSetReference_def mem_Reference_def
  mem_IterReferences_def mem_RemoveReference_def mem_CountLooseRefs_def

interpretation mem: ref_store mem_ops mem_inv map_of
  by unfold_locales (auto simp: mem_defs mem_inv_update mem_inv_delete update_conv' delete_conv'
      mem_iter [unfolded map_map] split: option.splits)

subsection \<open>The overlay of two storers keeps it\<close>

lemma tx_collect_eq:
  "distinct (map ref_n rs) \<Longrightarrow>
     fst (tx_collect del seen rs) = filter (\<lambda>r. ref_n r \<notin> set del \<and> ref_n r \<notin> set seen) rs \<and>
     set (snd (tx_collect del seen rs)) = set seen \<union> ref_n ` {r \<in> set rs. ref_n r \<notin> set del \<and> ref_n r \<notin> set seen}"
proof (induction rs arbitrary: seen)
  case (Cons r rs)
  show ?case
  proof (cases "ref_n r \<in> set del \<or> ref_n r \<in> set seen")
    case True
    then show ?thesis using Cons by auto
  next
    case False
    have eq: "filter (\<lambda>x. ref_n x \<notin> set del \<and> ref_n x \<notin> set (ref_n r # seen)) rs =
        filter (\<lambda>x. ref_n x \<notin> set del \<and> ref_n x \<notin> set seen) rs"
      using Cons.prems by (intro filter_cong) (auto simp: image_iff)
    have "{x \<in> set rs. ref_n x \<notin> set del \<and> ref_n x \<notin> set (ref_n r # seen)} =
        {x \<in> set rs. ref_n x \<notin> set del \<and> ref_n x \<notin> set seen}" using Cons.prems by (auto simp: image_iff)
    with eq Cons.IH [of "ref_n r # seen"] Cons.prems False show ?thesis
      by (auto split: prod.splits)
  qed
qed simp

lemma refs_map_filter: "refs_map (filter (\<lambda>r. P (ref_n r)) rs) n = (if P n then refs_map rs n else None)"
  by (induction rs) (auto simp: refs_map_def)

lemma refs_map_append: "refs_map (xs @ ys) = refs_map ys ++ refs_map xs"
  by (simp add: refs_map_def)

lemma refs_map_dom: "refs_map rs n = None \<longleftrightarrow> n \<notin> ref_n ` set rs"
  by (auto simp: refs_map_def map_of_eq_None_iff image_image)

text \<open>What the overlay shows, and the invariant: no removed name is left in the temporal storer.\<close>

definition tx_view :: "('b \<Rightarrow> ReferenceName \<Rightarrow> Reference option) \<Rightarrow> ('t \<Rightarrow> ReferenceName \<Rightarrow> Reference option)
    \<Rightarrow> ('b, 't) tx_refs \<Rightarrow> ReferenceName \<Rightarrow> Reference option" where
  "tx_view vb vt r n =
     (if n \<in> set (tx_deleted r) then None
      else case vt (tx_temporal r) n of None \<Rightarrow> vb (tx_base r) n | Some x \<Rightarrow> Some x)"

definition tx_inv :: "('b \<Rightarrow> bool) \<Rightarrow> ('t \<Rightarrow> bool) \<Rightarrow> ('t \<Rightarrow> ReferenceName \<Rightarrow> Reference option) \<Rightarrow> ('b, 't) tx_refs \<Rightarrow> bool" where
  "tx_inv ib it vt r \<longleftrightarrow> ib (tx_base r) \<and> it (tx_temporal r) \<and> (\<forall>n \<in> set (tx_deleted r). vt (tx_temporal r) n = None)"

lemmas tx_defs = tx_ops_def tx_SetReference_def tx_CheckAndSetReference_def tx_Reference_def
  tx_RemoveReference_def

locale two_ref_stores = base: ref_store bops ib vb + temporal: ref_store tops it vt
  for bops :: "'b ref_ops" and ib vb and tops :: "'t ref_ops" and it vt
begin

lemma tx_reference:
  assumes "tx_inv ib it vt r"
  shows "op_Reference (tx_ops bops tops) n r =
    (case tx_view vb vt r n of None \<Rightarrow> Inl ErrReferenceNotFound | Some x \<Rightarrow> Inr x)"
  using assms base.reference_law [of "tx_base r" n] temporal.reference_law [of "tx_temporal r" n]
  by (auto simp: tx_defs tx_view_def tx_inv_def split: option.splits)

lemma tx_set:
  assumes "tx_inv ib it vt r"
  shows "\<exists>r'. op_SetReference (tx_ops bops tops) (Some x) r = (None, r') \<and> tx_inv ib it vt r' \<and>
    tx_view vb vt r' = (tx_view vb vt r)(ref_n x \<mapsto> x)"
proof -
  from temporal.set_law [of "tx_temporal r" x] assms obtain t where
    t: "op_SetReference tops (Some x) (tx_temporal r) = (None, t)" "it t" "vt t = (vt (tx_temporal r))(ref_n x \<mapsto> x)"
    by (auto simp: tx_inv_def)
  then show ?thesis using assms by (auto simp: tx_defs tx_inv_def tx_view_def fun_eq_iff split: option.splits)
qed

lemma tx_remove:
  assumes "tx_inv ib it vt r"
  shows "\<exists>r'. op_RemoveReference (tx_ops bops tops) n r = (None, r') \<and> tx_inv ib it vt r' \<and>
    tx_view vb vt r' = (tx_view vb vt r)(n := None)"
proof -
  from temporal.remove_law [of "tx_temporal r" n] assms obtain t where
    t: "op_RemoveReference tops n (tx_temporal r) = (None, t)" "it t" "vt t = (vt (tx_temporal r))(n := None)"
    by (auto simp: tx_inv_def)
  then show ?thesis using assms by (auto simp: tx_defs tx_inv_def tx_view_def fun_eq_iff split: option.splits)
qed

lemma tx_iter:
  assumes "tx_inv ib it vt r"
  shows "\<exists>rs. op_IterReferences (tx_ops bops tops) r = Inr rs \<and> distinct (map ref_n rs) \<and> refs_map rs = tx_view vb vt r"
proof -
  let ?del = "tx_deleted r"
  from temporal.iter_law [of "tx_temporal r"] assms obtain ts where
    t: "op_IterReferences tops (tx_temporal r) = Inr ts" "distinct (map ref_n ts)" "refs_map ts = vt (tx_temporal r)"
    by (auto simp: tx_inv_def)
  from base.iter_law [of "tx_base r"] assms obtain bs where
    b: "op_IterReferences bops (tx_base r) = Inr bs" "distinct (map ref_n bs)" "refs_map bs = vb (tx_base r)"
    by (auto simp: tx_inv_def)
  obtain refs seen where c: "tx_collect ?del [] ts = (refs, seen)" by fastforce
  note ce = tx_collect_eq [OF t(2), of ?del "[]", unfolded c]
  have r1: "refs = filter (\<lambda>x. ref_n x \<notin> set ?del) ts" "set seen = ref_n ` set refs" using ce by simp_all
  define bs' where "bs' = fst (tx_collect ?del seen bs)"
  have r2: "bs' = filter (\<lambda>x. ref_n x \<notin> set ?del \<and> ref_n x \<notin> set seen) bs"
    using tx_collect_eq [OF b(2)] by (simp add: bs'_def)
  have "op_IterReferences (tx_ops bops tops) r = Inr (bs' @ refs)"
    using t(1) b(1) c by (simp add: tx_ops_def tx_IterReferences_def bs'_def)
  moreover have "distinct (map ref_n (bs' @ refs))"
  proof -
    have "distinct (map ref_n bs')" "distinct (map ref_n refs)"
      using b(2) t(2) by (simp_all add: r2 r1(1) distinct_map_filter)
    moreover have "ref_n ` set bs' \<inter> ref_n ` set refs = {}" unfolding r1(2) [symmetric] r2 by auto
    ultimately show ?thesis by simp
  qed
  moreover have "refs_map (bs' @ refs) n = tx_view vb vt r n" for n
  proof -
    have rt: "refs_map refs n = (if n \<in> set ?del then None else vt (tx_temporal r) n)"
      using refs_map_filter [of "\<lambda>n. n \<notin> set ?del" ts n] t(3) by (simp add: r1(1))
    have rb: "refs_map bs' n = (if n \<in> set ?del \<or> n \<in> set seen then None else vb (tx_base r) n)"
      using refs_map_filter [of "\<lambda>n. n \<notin> set ?del \<and> n \<notin> set seen" bs n] b(3) by (simp add: r2)
    have "n \<in> set seen \<longleftrightarrow> refs_map refs n \<noteq> None" unfolding r1(2) refs_map_dom by simp
    with rt rb show ?thesis
      by (cases "n \<in> set ?del"; cases "vt (tx_temporal r) n") (simp_all add: refs_map_append map_add_def tx_view_def split: option.splits)
  qed
  ultimately show ?thesis by (intro exI [where x = "bs' @ refs"]) (simp add: fun_eq_iff)
qed

end

sublocale two_ref_stores \<subseteq> tx: ref_store "tx_ops bops tops" "tx_inv ib it vt" "tx_view vb vt"
  by unfold_locales (rule tx_reference tx_set tx_remove tx_iter; assumption)+

context two_ref_stores
begin

lemma commit_ok:
  assumes "tx_inv ib it vt r"
  shows "\<exists>r'. tx_Commit bops tops r = (None, r') \<and> tx_inv ib it vt r' \<and>
    vb (tx_base r') = tx_view vb vt r \<and> tx_view vb vt r' = tx_view vb vt r"
proof -
  from base.removals_ok [of "tx_base r" "tx_deleted r"] assms obtain b where
    b: "commit_removals bops (tx_deleted r) (tx_base r) = (None, b)" "ib b"
      "vb b = (\<lambda>n. if n \<in> set (tx_deleted r) then None else vb (tx_base r) n)" by (auto simp: tx_inv_def)
  from temporal.iter_law [of "tx_temporal r"] assms obtain ts where
    t: "op_IterReferences tops (tx_temporal r) = Inr ts" "distinct (map ref_n ts)" "refs_map ts = vt (tx_temporal r)"
    by (auto simp: tx_inv_def)
  from base.sets_ok [OF b(2) t(2)] obtain b' where
    b': "commit_sets bops ts b = (None, b')" "ib b'" "vb b' = vb b ++ refs_map ts" by blast
  have "tx_Commit bops tops r = (None, r\<lparr>tx_base := b'\<rparr>)" using b(1) t(1) b'(1) by (simp add: tx_Commit_def)
  moreover have v: "vb b' = tx_view vb vt r"
    using b(3) b'(3) t(3) assms by (auto simp: fun_eq_iff map_add_def tx_view_def tx_inv_def split: option.splits)
  moreover have "tx_view vb vt (r\<lparr>tx_base := b'\<rparr>) = tx_view vb vt r"
    by (auto simp: fun_eq_iff tx_view_def v split: option.splits)
  ultimately show ?thesis using assms b'(2) by (auto simp: tx_inv_def)
qed

end

interpretation mem_tx: two_ref_stores mem_ops mem_inv map_of mem_ops mem_inv map_of ..

subsection \<open>Following symbolic references\<close>

text \<open>\<open>resolves v n k r\<close>: from \<open>n\<close>, \<open>k\<close> symbolic links lead to \<open>r\<close>, which is not symbolic.\<close>

inductive resolves :: "(ReferenceName \<Rightarrow> Reference option) \<Rightarrow> ReferenceName \<Rightarrow> nat \<Rightarrow> Reference \<Rightarrow> bool"
  for v where
  here: "v n = Some r \<Longrightarrow> ref_t r \<noteq> SymbolicReference \<Longrightarrow> resolves v n 0 r"
| link: "v n = Some r \<Longrightarrow> ref_t r = SymbolicReference \<Longrightarrow> resolves v (ref_target r) k r' \<Longrightarrow> resolves v n (Suc k) r'"

inductive_cases resolvesE: "resolves v n k r"

inductive_simps resolves_0: "resolves v n 0 r"

inductive_simps resolves_Suc: "resolves v n (Suc k) r"

lemma ex_Suc: "(\<exists>k. P k \<and> (\<exists>k'. k = Suc k' \<and> Q k')) \<longleftrightarrow> (\<exists>k'. P (Suc k') \<and> Q k')"
  by blast

lemma resolves_unique: "resolves v n k r \<Longrightarrow> resolves v n k' r' \<Longrightarrow> k' = k \<and> r' = r"
proof (induction arbitrary: k' r' rule: resolves.induct)
  case (here n r)
  then show ?case by (auto elim: resolvesE)
next
  case (link n r k r'')
  from link.prems show ?case
  proof (cases rule: resolves.cases)
    case (link r1 k1)
    with \<open>v n = Some r\<close> link.IH show ?thesis by auto
  qed (use \<open>v n = Some r\<close> \<open>ref_t r = SymbolicReference\<close> in auto)
qed

context ref_store
begin

lemma resolveReference_iff:
  assumes "inv s" and "recursion \<le> Suc MaxResolveRecursion"
  shows "resolveReference ops s r recursion = Inr r' \<longleftrightarrow>
    (if ref_t r \<noteq> SymbolicReference then r' = r
     else \<exists>k. Suc k + recursion \<le> Suc MaxResolveRecursion \<and> resolves (view s) (ref_target r) k r')"
  using assms(2)
proof (induction "Suc MaxResolveRecursion - recursion" arbitrary: recursion r)
  case 0
  then show ?case by (subst resolveReference.simps) auto
next
  case (Suc d)
  show ?case
  proof (cases "ref_t r = SymbolicReference")
    case False
    then show ?thesis by (subst resolveReference.simps) auto
  next
    case True
    have le: "Suc recursion \<le> Suc MaxResolveRecursion" and d: "d = Suc MaxResolveRecursion - Suc recursion"
      using Suc.hyps(2) by simp_all
    have step: "resolveReference ops s r recursion =
        rbind (op_Reference ops (ref_target r) s) (\<lambda>t. resolveReference ops s t (Suc recursion))"
      using True le by (subst resolveReference.simps) simp
    show ?thesis
    proof (cases "view s (ref_target r)")
      case None
      then have "\<not> resolves (view s) (ref_target r) k r'" for k by (auto elim: resolvesE)
      then show ?thesis using True step reference_law [OF assms(1), of "ref_target r"] None by simp
    next
      case (Some t)
      have "resolveReference ops s r recursion = resolveReference ops s t (Suc recursion)"
        using step reference_law [OF assms(1), of "ref_target r"] Some by simp
      also have "\<dots> = Inr r' \<longleftrightarrow>
          (if ref_t t \<noteq> SymbolicReference then r' = t
           else \<exists>k. Suc k + Suc recursion \<le> Suc MaxResolveRecursion \<and> resolves (view s) (ref_target t) k r')"
        by (rule Suc.hyps(1) [OF d le])
      also have "\<dots> \<longleftrightarrow> (\<exists>k. Suc k + recursion \<le> Suc MaxResolveRecursion \<and> resolves (view s) (ref_target r) k r')"
      proof (cases "ref_t t = SymbolicReference")
        case False
        then have "resolves (view s) (ref_target r) k r' \<longleftrightarrow> k = 0 \<and> r' = t" for k
          using Some by (cases k) (auto simp: resolves_0 resolves_Suc)
        then show ?thesis using False le by auto
      next
        case sym: True
        have eq: "resolves (view s) (ref_target r) k r' \<longleftrightarrow> (\<exists>k'. k = Suc k' \<and> resolves (view s) (ref_target t) k' r')" for k
          using Some sym by (cases k) (auto simp: resolves_0 resolves_Suc)
        have "(\<exists>k. Suc k + recursion \<le> Suc MaxResolveRecursion \<and> resolves (view s) (ref_target r) k r') \<longleftrightarrow>
            (\<exists>k'. Suc (Suc k') + recursion \<le> Suc MaxResolveRecursion \<and> resolves (view s) (ref_target t) k' r')"
          unfolding eq by (rule ex_Suc)
        then show ?thesis using sym by simp
      qed
      finally show ?thesis using True by simp
    qed
  qed
qed

lemma ResolveReference_iff:
  assumes "inv s"
  shows "ResolveReference ops s n = Inr r \<longleftrightarrow> (\<exists>k \<le> Suc MaxResolveRecursion. resolves (view s) n k r)"
proof (cases "view s n")
  case None
  then have "\<not> resolves (view s) n k r" for k by (auto elim: resolvesE)
  then show ?thesis using reference_law [OF assms, of n] None by (simp add: ResolveReference_def)
next
  case (Some t)
  then have "ResolveReference ops s n = resolveReference ops s t 0"
    using reference_law [OF assms, of n] by (simp add: ResolveReference_def)
  also have "\<dots> = Inr r \<longleftrightarrow> (\<exists>k \<le> Suc MaxResolveRecursion. resolves (view s) n k r)"
  proof (cases "ref_t t = SymbolicReference")
    case True
    then have eq: "resolves (view s) n k r \<longleftrightarrow> (\<exists>k'. k = Suc k' \<and> resolves (view s) (ref_target t) k' r)" for k
      using Some by (cases k) (auto simp: resolves_0 resolves_Suc)
    have "(\<exists>k \<le> Suc MaxResolveRecursion. resolves (view s) n k r) \<longleftrightarrow>
        (\<exists>k'. Suc k' \<le> Suc MaxResolveRecursion \<and> resolves (view s) (ref_target t) k' r)" unfolding eq by (rule ex_Suc)
    then show ?thesis using resolveReference_iff [OF assms, of 0 t r] True by simp
  next
    case False
    then have "resolves (view s) n k r \<longleftrightarrow> k = 0 \<and> r = t" for k
      using Some by (cases k) (auto simp: resolves_0 resolves_Suc)
    then show ?thesis using resolveReference_iff [OF assms, of 0 t r] False by auto
  qed
  finally show ?thesis .
qed

end

subsection \<open>Properties\<close>

text \<open>Sequences of updates, on the overlay of two in-memory storers and on a plain map.\<close>

datatype ref_update = SetRef Reference | RemoveRef ReferenceName

fun tx_updates :: "ref_update list \<Rightarrow> (mem_refs, mem_refs) tx_refs \<Rightarrow> (mem_refs, mem_refs) tx_refs" where
  "tx_updates [] r = r"
| "tx_updates (SetRef x # us) r = tx_updates us (snd (tx_SetReference mem_ops mem_ops (Some x) r))"
| "tx_updates (RemoveRef n # us) r = tx_updates us (snd (tx_RemoveReference mem_ops mem_ops n r))"

fun map_updates :: "ref_update list \<Rightarrow> (ReferenceName \<Rightarrow> Reference option) \<Rightarrow> ReferenceName \<Rightarrow> Reference option" where
  "map_updates [] m = m"
| "map_updates (SetRef x # us) m = map_updates us (m(ref_n x \<mapsto> x))"
| "map_updates (RemoveRef n # us) m = map_updates us (m(n := None))"

lemma tx_updates_ok:
  assumes "tx_inv mem_inv mem_inv map_of r"
  shows "tx_inv mem_inv mem_inv map_of (tx_updates us r) \<and>
    tx_view map_of map_of (tx_updates us r) = map_updates us (tx_view map_of map_of r) \<and>
    tx_base (tx_updates us r) = tx_base r"
  using assms
proof (induction us arbitrary: r)
  case (Cons u us)
  show ?case
  proof (cases u)
    case (SetRef x)
    define r1 where "r1 = snd (tx_SetReference mem_ops mem_ops (Some x) r)"
    from mem_tx.tx_set [OF Cons.prems, of x] have "tx_inv mem_inv mem_inv map_of r1"
      "tx_view map_of map_of r1 = (tx_view map_of map_of r)(ref_n x \<mapsto> x)"
      by (auto simp: r1_def tx_ops_def)
    moreover have "tx_base r1 = tx_base r" by (simp add: r1_def tx_SetReference_def split: prod.splits)
    ultimately show ?thesis using Cons.IH [of r1] SetRef by (simp add: r1_def [symmetric] del: fun_upd_apply)
  next
    case (RemoveRef n)
    define r1 where "r1 = snd (tx_RemoveReference mem_ops mem_ops n r)"
    from mem_tx.tx_remove [OF Cons.prems, of n] have "tx_inv mem_inv mem_inv map_of r1"
      "tx_view map_of map_of r1 = (tx_view map_of map_of r)(n := None)"
      by (auto simp: r1_def tx_ops_def)
    moreover have "tx_base r1 = tx_base r" by (simp add: r1_def tx_RemoveReference_def split: prod.splits)
    ultimately show ?thesis using Cons.IH [of r1] RemoveRef by (simp add: r1_def [symmetric] del: fun_upd_apply)
  qed
qed simp

text \<open>
  \<^bold>\<open>C29\<close>. A transaction is isolated and atomic for references: over any in-memory base, after
  any sequence of \<open>SetReference\<close> and \<open>RemoveReference\<close> the base is unchanged, while \<open>Reference\<close> and
  \<open>IterReferences\<close> (each name once) show exactly the base with these updates applied; \<open>Commit\<close>
  then succeeds and the base is what the transaction showed.
\<close>

theorem transaction_refines_updates:
  assumes "mem_inv base"
  shows "let r = tx_updates us (NewReferenceStorage base []); m = map_updates us (map_of base) in
    tx_base r = base \<and>
    (\<forall>n. tx_Reference mem_ops mem_ops n r = (case m n of None \<Rightarrow> Inl ErrReferenceNotFound | Some x \<Rightarrow> Inr x)) \<and>
    (\<exists>rs. tx_IterReferences mem_ops mem_ops r = Inr rs \<and> distinct (map ref_n rs) \<and> refs_map rs = m) \<and>
    (\<exists>r'. tx_Commit mem_ops mem_ops r = (None, r') \<and> map_of (tx_base r') = m)"
proof -
  define r where "r = tx_updates us (NewReferenceStorage base [])"
  define r0 where "r0 = (NewReferenceStorage base [] :: (mem_refs, mem_refs) tx_refs)"
  have r0: "tx_inv mem_inv mem_inv map_of r0" "tx_view map_of map_of r0 = map_of base" "tx_base r0 = base"
    using assms by (auto simp: r0_def NewReferenceStorage_def tx_inv_def mem_inv_def tx_view_def fun_eq_iff)
  from tx_updates_ok [OF r0(1), of us] have r: "tx_inv mem_inv mem_inv map_of r"
    "tx_view map_of map_of r = map_updates us (map_of base)" "tx_base r = base"
    by (simp_all add: r_def r0_def [symmetric] r0(2,3))
  have "tx_Reference mem_ops mem_ops n r = (case map_updates us (map_of base) n of
      None \<Rightarrow> Inl ErrReferenceNotFound | Some x \<Rightarrow> Inr x)" for n
    using mem_tx.tx_reference [OF r(1), of n] r(2) by (simp add: tx_ops_def)
  moreover have "\<exists>rs. tx_IterReferences mem_ops mem_ops r = Inr rs \<and> distinct (map ref_n rs) \<and>
      refs_map rs = map_updates us (map_of base)"
    using mem_tx.tx_iter [OF r(1)] r(2) by (simp add: tx_ops_def)
  moreover have "\<exists>r'. tx_Commit mem_ops mem_ops r = (None, r') \<and> map_of (tx_base r') = map_updates us (map_of base)"
    using mem_tx.commit_ok [OF r(1)] r(2) by auto
  ultimately show ?thesis using r(3) by (simp add: Let_def r_def)
qed

lemma transaction_refines_updates_witness:
  "mem_inv [(''a'', NewSymbolicReference ''a'' ''b'')] \<and>
   tx_base (tx_updates [RemoveRef ''a''] (NewReferenceStorage [(''a'', NewSymbolicReference ''a'' ''b'')] [])) =
     [(''a'', NewSymbolicReference ''a'' ''b'')]"
proof -
  have "mem_inv [(''a'', NewSymbolicReference ''a'' ''b'')]" by (simp add: mem_inv_def NewSymbolicReference_def)
  with transaction_refines_updates [OF this, of "[RemoveRef ''a'']"] show ?thesis by (simp only: Let_def)
qed

text \<open>
  \<^bold>\<open>C34\<close>. \<open>ResolveReference\<close> always returns, and returns \<open>r\<close> exactly when \<open>r\<close> is a reference that is
  not symbolic and is reached from the name by at most 1025 symbolic links; so a cycle of
  symbolic references is an error and never a loop. This is one link more than the comment of
  \<open>MaxResolveRecursion\<close> allows, 1024: the test \<open>recursion > MaxResolveRecursion\<close> comes before the count goes
  up. Over a transaction the links are those the transaction shows.
\<close>

theorem ResolveReference_follows_links:
  assumes "mem_inv s" and "tx_inv mem_inv mem_inv map_of t"
  shows "(ResolveReference mem_ops s n = Inr r \<longleftrightarrow> (\<exists>k \<le> 1025. resolves (map_of s) n k r)) \<and>
    (ResolveReference (tx_ops mem_ops mem_ops) t n = Inr r \<longleftrightarrow>
      (\<exists>k \<le> 1025. resolves (tx_view map_of map_of t) n k r))"
  using mem.ResolveReference_iff [OF assms(1), of n r] mem_tx.tx.ResolveReference_iff [OF assms(2), of n r]
  by (simp add: MaxResolveRecursion_def)

lemma ResolveReference_follows_links_witness:
  "mem_inv [(''HEAD'', NewSymbolicReference ''HEAD'' ''HEAD'')] \<and>
   tx_inv mem_inv mem_inv map_of (NewReferenceStorage [] []) \<and>
   (ResolveReference mem_ops [(''HEAD'', NewSymbolicReference ''HEAD'' ''HEAD'')] ''HEAD'' =
      Inr (NewSymbolicReference ''HEAD'' ''HEAD'') \<longleftrightarrow>
    (\<exists>k \<le> 1025. resolves (map_of [(''HEAD'', NewSymbolicReference ''HEAD'' ''HEAD'')]) ''HEAD'' k
      (NewSymbolicReference ''HEAD'' ''HEAD'')))"
proof -
  have "mem_inv [(''HEAD'', NewSymbolicReference ''HEAD'' ''HEAD'')]"
    "tx_inv mem_inv mem_inv map_of (NewReferenceStorage [] [])"
    by (simp_all add: mem_inv_def NewSymbolicReference_def tx_inv_def NewReferenceStorage_def)
  with ResolveReference_follows_links [OF this] show ?thesis by blast
qed

text \<open>
  The overlay's compare-and-set looks past a removal: after \<open>RemoveReference\<close> of a name
  that the base holds, the transaction reports the name as missing, but \<open>CheckAndSetReference\<close>
  against the old value still succeeds and stores the reference, where the in-memory storer
  (and the comment of the interface: the stored value must match) answers that it is missing.
\<close>

theorem tx_CheckAndSet_ignores_removal:
  assumes "tx_inv mem_inv mem_inv map_of r" and "map_of (tx_base r) (ref_n old) = Some cur"
    and "ref_h cur = ref_h old" and "ref_n x = ref_n old"
  shows "let r1 = snd (tx_RemoveReference mem_ops mem_ops (ref_n old) r) in
    tx_Reference mem_ops mem_ops (ref_n old) r1 = Inl ErrReferenceNotFound \<and>
    fst (tx_CheckAndSetReference mem_ops mem_ops (Some x) (Some old) r1) = None \<and>
    fst (mem_CheckAndSetReference (Some x) (Some old) (AList.delete (ref_n old) (tx_base r))) = Some ErrReferenceNotFound"
  using assms(2-4)
  by (simp add: Let_def tx_RemoveReference_def tx_Reference_def tx_CheckAndSetReference_def tx_SetReference_def
      mem_defs delete_conv')

lemma tx_CheckAndSet_ignores_removal_witness:
  "let r = NewReferenceStorage [(''a'', NewHashReference ''a'' ZeroHash)] [] :: (mem_refs, mem_refs) tx_refs;
       r1 = snd (tx_RemoveReference mem_ops mem_ops ''a'' r) in
   tx_Reference mem_ops mem_ops ''a'' r1 = Inl ErrReferenceNotFound \<and>
   fst (tx_CheckAndSetReference mem_ops mem_ops (Some (NewHashReference ''a'' ZeroHash))
     (Some (NewHashReference ''a'' ZeroHash)) r1) = None"
  using tx_CheckAndSet_ignores_removal [of "NewReferenceStorage [(''a'', NewHashReference ''a'' ZeroHash)] []"
      "NewHashReference ''a'' ZeroHash" "NewHashReference ''a'' ZeroHash" "NewHashReference ''a'' ZeroHash"]
  by (simp add: Let_def tx_inv_def mem_inv_def NewReferenceStorage_def NewHashReference_def)

end
