(* ===== verification/Object_Storage.thy ===== *)
theory Object_Storage
  imports Ref_Storage Pack_Entry
begin

text \<open>
  Object storage in memory and its transactional overlay: \<open>ObjectStorage\<close> and \<open>TxObjectStorage\<close> of
  \<open>storage/memory/storage.go\<close> and \<open>storage/transactional/object.go\<close>. The interface
  \<open>EncodedObjectStorer\<close> is a record of operations, as for references, and its contract a locale,
  in terms of the objects a storer holds by their hash.

  Storage is content addressed: the contract is relative to a set \<open>U\<close> of objects, those that are
  ever stored, on which the hash is injective. That is what the code relies on when it keeps
  an object in one map per type under its hash only.
\<close>

subsection \<open>Objects and the interface\<close>

record enc_object =
  eo_type :: object_type
  eo_hash :: ObjectID
  eo_size :: int
  eo_content :: bytes

record 's obj_ops =
  op_SetEncodedObject :: "enc_object \<Rightarrow> 's \<Rightarrow> (ObjectID \<times> storage_error option) \<times> 's"
  op_HasEncodedObject :: "ObjectID \<Rightarrow> 's \<Rightarrow> storage_error option"
  op_EncodedObjectSize :: "ObjectID \<Rightarrow> 's \<Rightarrow> storage_error + int"
  op_EncodedObject :: "object_type \<Rightarrow> ObjectID \<Rightarrow> 's \<Rightarrow> storage_error + enc_object"
  op_IterEncodedObjects :: "object_type \<Rightarrow> 's \<Rightarrow> storage_error + enc_object list"

subsection \<open>In memory (storage/memory/storage.go)\<close>

type_synonym obj_map = "(ObjectID \<times> enc_object) list"

record mem_objects =
  Objects :: obj_map
  Commits :: obj_map
  Trees :: obj_map
  Blobs :: obj_map
  Tags :: obj_map

definition new_mem_objects :: mem_objects where
  "new_mem_objects = \<lparr>Objects = [], Commits = [], Trees = [], Blobs = [], Tags = []\<rparr>"

definition mem_SetEncodedObject :: "enc_object \<Rightarrow> mem_objects \<Rightarrow> (ObjectID \<times> storage_error option) \<times> mem_objects" where
  "mem_SetEncodedObject obj s =
     (let h = eo_hash obj;
          s = s\<lparr>Objects := AList.update h obj (Objects s)\<rparr>
      in if eo_type obj = CommitObject then ((h, None), s\<lparr>Commits := AList.update h obj (Commits s)\<rparr>)
         else if eo_type obj = TreeObject then ((h, None), s\<lparr>Trees := AList.update h obj (Trees s)\<rparr>)
         else if eo_type obj = BlobObject then ((h, None), s\<lparr>Blobs := AList.update h obj (Blobs s)\<rparr>)
         else if eo_type obj = TagObject then ((h, None), s\<lparr>Tags := AList.update h obj (Tags s)\<rparr>)
         else ((h, Some ErrUnsupportedObjectType), s))"

definition mem_HasEncodedObject :: "ObjectID \<Rightarrow> mem_objects \<Rightarrow> storage_error option" where
  "mem_HasEncodedObject h s = (if map_of (Objects s) h = None then Some ErrObjectNotFound else None)"

definition mem_EncodedObjectSize :: "ObjectID \<Rightarrow> mem_objects \<Rightarrow> storage_error + int" where
  "mem_EncodedObjectSize h s =
     (case map_of (Objects s) h of None \<Rightarrow> Inl ErrObjectNotFound | Some obj \<Rightarrow> Inr (eo_size obj))"

definition lookup_typed :: "object_type \<Rightarrow> enc_object option \<Rightarrow> storage_error + enc_object" where
  "lookup_typed t r =
     (case r of
        None \<Rightarrow> Inl ErrObjectNotFound
      | Some obj \<Rightarrow> if AnyObject \<noteq> t \<and> eo_type obj \<noteq> t then Inl ErrObjectNotFound else Inr obj)"

definition mem_EncodedObject :: "object_type \<Rightarrow> ObjectID \<Rightarrow> mem_objects \<Rightarrow> storage_error + enc_object" where
  "mem_EncodedObject t h s = lookup_typed t (map_of (Objects s) h)"

definition flattenObjectMap :: "obj_map \<Rightarrow> enc_object list" where
  "flattenObjectMap m = map snd m"

definition mem_IterEncodedObjects :: "object_type \<Rightarrow> mem_objects \<Rightarrow> storage_error + enc_object list" where
  "mem_IterEncodedObjects t s =
     Inr (if t = AnyObject then flattenObjectMap (Objects s)
          else if t = CommitObject then flattenObjectMap (Commits s)
          else if t = TreeObject then flattenObjectMap (Trees s)
          else if t = BlobObject then flattenObjectMap (Blobs s)
          else if t = TagObject then flattenObjectMap (Tags s)
          else [])"

text \<open>The callback of \<open>ForEachObjectHash\<close> changes some state of the caller and may stop the loop.\<close>

datatype 'e callback = Continue | ErrStop | Fail 'e

fun ForEachObjectHash_loop :: "(ObjectID \<Rightarrow> 'a \<Rightarrow> 'e callback \<times> 'a) \<Rightarrow> obj_map \<Rightarrow> 'a \<Rightarrow> 'e option \<times> 'a" where
  "ForEachObjectHash_loop f [] a = (None, a)"
| "ForEachObjectHash_loop f ((h, obj) # m) a =
     (case f h a of
        (Continue, a') \<Rightarrow> ForEachObjectHash_loop f m a'
      | (ErrStop, a') \<Rightarrow> (None, a')
      | (Fail e, a') \<Rightarrow> (Some e, a'))"

definition ForEachObjectHash :: "(ObjectID \<Rightarrow> 'a \<Rightarrow> 'e callback \<times> 'a) \<Rightarrow> mem_objects \<Rightarrow> 'a \<Rightarrow> 'e option \<times> 'a" where
  "ForEachObjectHash f s a = ForEachObjectHash_loop f (Objects s) a"

definition mem_obj_ops :: "mem_objects obj_ops" where
  "mem_obj_ops =
     \<lparr>op_SetEncodedObject = mem_SetEncodedObject, op_HasEncodedObject = mem_HasEncodedObject,
      op_EncodedObjectSize = mem_EncodedObjectSize, op_EncodedObject = mem_EncodedObject,
      op_IterEncodedObjects = mem_IterEncodedObjects\<rparr>"

subsection \<open>Object transactions in memory\<close>

record tx_objects =
  txo_Storage :: mem_objects
  txo_Objects :: obj_map

definition Begin :: "mem_objects \<Rightarrow> tx_objects" where
  "Begin s = \<lparr>txo_Storage = s, txo_Objects = []\<rparr>"

definition txo_SetEncodedObject :: "enc_object \<Rightarrow> tx_objects \<Rightarrow> (ObjectID \<times> storage_error option) \<times> tx_objects" where
  "txo_SetEncodedObject obj tx =
     ((eo_hash obj, None), tx\<lparr>txo_Objects := AList.update (eo_hash obj) obj (txo_Objects tx)\<rparr>)"

definition txo_EncodedObject :: "object_type \<Rightarrow> ObjectID \<Rightarrow> tx_objects \<Rightarrow> storage_error + enc_object" where
  "txo_EncodedObject t h tx = lookup_typed t (map_of (txo_Objects tx) h)"

text \<open>The loop of \<open>Commit\<close>: an object leaves the transaction before it is stored.\<close>

fun txo_Commit_loop :: "obj_map \<Rightarrow> mem_objects \<Rightarrow> storage_error option \<times> obj_map \<times> mem_objects" where
  "txo_Commit_loop [] s = (None, [], s)"
| "txo_Commit_loop ((h, obj) # m) s =
     (case mem_SetEncodedObject obj s of
        ((h', None), s') \<Rightarrow> txo_Commit_loop m s'
      | ((h', Some e), s') \<Rightarrow> (Some e, m, s'))"

definition txo_Commit :: "tx_objects \<Rightarrow> storage_error option \<times> tx_objects" where
  "txo_Commit tx =
     (case txo_Commit_loop (txo_Objects tx) (txo_Storage tx) of
        (err, m, s) \<Rightarrow> (err, \<lparr>txo_Storage = s, txo_Objects = m\<rparr>))"

definition txo_Rollback :: "tx_objects \<Rightarrow> tx_objects" where
  "txo_Rollback tx = tx\<lparr>txo_Objects := []\<rparr>"

subsection \<open>The transactional overlay (storage/transactional/object.go)\<close>

record ('b, 't) overlay =
  ov_base :: 'b
  ov_temporal :: 't

definition NewObjectStorage :: "'b \<Rightarrow> 't \<Rightarrow> ('b, 't) overlay" where
  "NewObjectStorage base temporal = \<lparr>ov_base = base, ov_temporal = temporal\<rparr>"

definition ov_SetEncodedObject :: "'b obj_ops \<Rightarrow> 't obj_ops \<Rightarrow> enc_object \<Rightarrow> ('b, 't) overlay
    \<Rightarrow> (ObjectID \<times> storage_error option) \<times> ('b, 't) overlay" where
  "ov_SetEncodedObject bo tops obj s =
     (case op_SetEncodedObject tops obj (ov_temporal s) of (res, t) \<Rightarrow> (res, s\<lparr>ov_temporal := t\<rparr>))"

definition ov_HasEncodedObject :: "'b obj_ops \<Rightarrow> 't obj_ops \<Rightarrow> ObjectID \<Rightarrow> ('b, 't) overlay \<Rightarrow> storage_error option" where
  "ov_HasEncodedObject bo tops h s =
     (let err = op_HasEncodedObject bo h (ov_base s)
      in if err = Some ErrObjectNotFound then op_HasEncodedObject tops h (ov_temporal s) else err)"

definition ov_EncodedObjectSize :: "'b obj_ops \<Rightarrow> 't obj_ops \<Rightarrow> ObjectID \<Rightarrow> ('b, 't) overlay \<Rightarrow> storage_error + int" where
  "ov_EncodedObjectSize bo tops h s =
     (let r = op_EncodedObjectSize bo h (ov_base s)
      in if r = Inl ErrObjectNotFound then op_EncodedObjectSize tops h (ov_temporal s) else r)"

definition ov_EncodedObject :: "'b obj_ops \<Rightarrow> 't obj_ops \<Rightarrow> object_type \<Rightarrow> ObjectID \<Rightarrow> ('b, 't) overlay
    \<Rightarrow> storage_error + enc_object" where
  "ov_EncodedObject bo tops t h s =
     (let r = op_EncodedObject bo t h (ov_base s)
      in if r = Inl ErrObjectNotFound then op_EncodedObject tops t h (ov_temporal s) else r)"

text \<open>The multi-iterator delivers the base's objects and then the temporal ones.\<close>

definition ov_IterEncodedObjects :: "'b obj_ops \<Rightarrow> 't obj_ops \<Rightarrow> object_type \<Rightarrow> ('b, 't) overlay
    \<Rightarrow> storage_error + enc_object list" where
  "ov_IterEncodedObjects bo tops t s =
     rbind (op_IterEncodedObjects bo t (ov_base s)) (\<lambda>bs.
     rbind (op_IterEncodedObjects tops t (ov_temporal s)) (\<lambda>ts. Inr (bs @ ts)))"

fun ov_Commit_loop :: "'b obj_ops \<Rightarrow> enc_object list \<Rightarrow> 'b \<Rightarrow> storage_error option \<times> 'b" where
  "ov_Commit_loop bo [] b = (None, b)"
| "ov_Commit_loop bo (obj # objs) b =
     (case op_SetEncodedObject bo obj b of
        ((h, None), b') \<Rightarrow> ov_Commit_loop bo objs b'
      | ((h, Some e), b') \<Rightarrow> (Some e, b'))"

definition ov_Commit :: "'b obj_ops \<Rightarrow> 't obj_ops \<Rightarrow> ('b, 't) overlay \<Rightarrow> storage_error option \<times> ('b, 't) overlay" where
  "ov_Commit bo tops s =
     (case op_IterEncodedObjects tops AnyObject (ov_temporal s) of
        Inl e \<Rightarrow> (Some e, s)
      | Inr objs \<Rightarrow> (case ov_Commit_loop bo objs (ov_base s) of (err, b) \<Rightarrow> (err, s\<lparr>ov_base := b\<rparr>)))"

definition ov_obj_ops :: "'b obj_ops \<Rightarrow> 't obj_ops \<Rightarrow> ('b, 't) overlay obj_ops" where
  "ov_obj_ops bo tops =
     \<lparr>op_SetEncodedObject = ov_SetEncodedObject bo tops, op_HasEncodedObject = ov_HasEncodedObject bo tops,
      op_EncodedObjectSize = ov_EncodedObjectSize bo tops, op_EncodedObject = ov_EncodedObject bo tops,
      op_IterEncodedObjects = ov_IterEncodedObjects bo tops\<rparr>"

lemma mem_obj_ops_sel:
  "op_IterEncodedObjects mem_obj_ops = mem_IterEncodedObjects" "op_EncodedObject mem_obj_ops = mem_EncodedObject"
  by (simp_all add: mem_obj_ops_def)

lemma ov_obj_ops_sel:
  "op_SetEncodedObject (ov_obj_ops bo tops) = ov_SetEncodedObject bo tops"
  "op_HasEncodedObject (ov_obj_ops bo tops) = ov_HasEncodedObject bo tops"
  "op_EncodedObjectSize (ov_obj_ops bo tops) = ov_EncodedObjectSize bo tops"
  "op_EncodedObject (ov_obj_ops bo tops) = ov_EncodedObject bo tops"
  "op_IterEncodedObjects (ov_obj_ops bo tops) = ov_IterEncodedObjects bo tops"
  by (simp_all add: ov_obj_ops_def)

subsection \<open>The contract\<close>

definition storable_types :: "object_type set" where
  "storable_types = {CommitObject, TreeObject, BlobObject, TagObject}"

locale obj_store =
  fixes U :: "enc_object set"
    and ops :: "'s obj_ops"
    and inv :: "'s \<Rightarrow> bool"
    and view :: "'s \<Rightarrow> ObjectID \<Rightarrow> enc_object option"
  assumes no_collision: "inv s \<Longrightarrow> inj_on eo_hash U"
    and in_universe: "inv s \<Longrightarrow> view s h = Some obj \<Longrightarrow> obj \<in> U \<and> eo_hash obj = h"
    and set_obj_law: "inv s \<Longrightarrow> obj \<in> U \<Longrightarrow> eo_type obj \<in> storable_types \<Longrightarrow>
      \<exists>s'. op_SetEncodedObject ops obj s = ((eo_hash obj, None), s') \<and> inv s' \<and> view s' = (view s)(eo_hash obj \<mapsto> obj)"
    and has_law: "inv s \<Longrightarrow> op_HasEncodedObject ops h s = (if view s h = None then Some ErrObjectNotFound else None)"
    and size_law: "inv s \<Longrightarrow> op_EncodedObjectSize ops h s =
      (case view s h of None \<Rightarrow> Inl ErrObjectNotFound | Some obj \<Rightarrow> Inr (eo_size obj))"
    and get_obj_law: "inv s \<Longrightarrow> op_EncodedObject ops t h s = lookup_typed t (view s h)"
    and iter_obj_law: "inv s \<Longrightarrow> t \<in> insert AnyObject storable_types \<Longrightarrow>
      \<exists>objs. op_IterEncodedObjects ops t s = Inr objs \<and>
        set objs = {obj. view s (eo_hash obj) = Some obj \<and> (t = AnyObject \<or> eo_type obj = t)}"
    and stored_type: "inv s \<Longrightarrow> view s h = Some obj \<Longrightarrow> eo_type obj \<in> storable_types"
begin

lemma commit_loop_ok:
  assumes "inv s" and "\<And>obj. obj \<in> set objs \<Longrightarrow> obj \<in> U \<and> eo_type obj \<in> storable_types"
  shows "\<exists>s'. ov_Commit_loop ops objs s = (None, s') \<and> inv s' \<and>
    (\<forall>h. view s' h = (case find (\<lambda>obj. eo_hash obj = h) objs of Some obj \<Rightarrow> Some obj | None \<Rightarrow> view s h))"
  using assms
proof (induction objs arbitrary: s)
  case (Cons obj objs)
  from set_obj_law [OF Cons.prems(1), of obj] Cons.prems(2) obtain s1 where
    s1: "op_SetEncodedObject ops obj s = ((eo_hash obj, None), s1)" "inv s1" "view s1 = (view s)(eo_hash obj \<mapsto> obj)" by auto
  from Cons.IH [OF s1(2)] Cons.prems(2) obtain s2 where
    s2: "ov_Commit_loop ops objs s1 = (None, s2)" "inv s2"
      "\<forall>h. view s2 h = (case find (\<lambda>obj. eo_hash obj = h) objs of Some obj \<Rightarrow> Some obj | None \<Rightarrow> view s1 h)" by auto
  have "view s2 h = (case find (\<lambda>obj. eo_hash obj = h) (obj # objs) of Some obj \<Rightarrow> Some obj | None \<Rightarrow> view s h)" for h
  proof (cases "eo_hash obj = h")
    case True
    have "o' = obj" if "find (\<lambda>obj. eo_hash obj = h) objs = Some o'" for o'
    proof -
      from that have "o' \<in> set objs" "eo_hash o' = eo_hash obj" using True by (auto simp: find_Some_iff)
      then show ?thesis using no_collision [OF Cons.prems(1)] Cons.prems(2) by (auto dest: inj_onD)
    qed
    then show ?thesis using True s2(3) s1(3) by (auto split: option.splits)
  next
    case False
    have "view s1 h = view s h" using s1(3) False by (metis fun_upd_other)
    then show ?thesis using False s2(3) by (simp split: option.split)
  qed
  then show ?case using s1(1) s2(1,2) by auto
qed auto

end

text \<open>What a storer answers to a lookup of any type is what its iteration delivers.\<close>

context obj_store
begin

lemma iter_eq_lookups:
  assumes "inv s" and "t \<in> insert AnyObject storable_types"
  obtains objs where "op_IterEncodedObjects ops t s = Inr objs"
    and "set objs = {obj. op_EncodedObject ops t (eo_hash obj) s = Inr obj}"
proof -
  from iter_obj_law [OF assms] obtain objs where
    o: "op_IterEncodedObjects ops t s = Inr objs"
      "set objs = {obj. view s (eo_hash obj) = Some obj \<and> (t = AnyObject \<or> eo_type obj = t)}" by blast
  have "set objs = {obj. op_EncodedObject ops t (eo_hash obj) s = Inr obj}"
    unfolding o(2) get_obj_law [OF assms(1)] by (auto simp: lookup_typed_def split: option.splits)
  with o(1) show thesis by (rule that)
qed

end

subsection \<open>The in-memory storer meets the contract\<close>

definition restrict_type :: "object_type \<Rightarrow> (ObjectID \<rightharpoonup> enc_object) \<Rightarrow> ObjectID \<rightharpoonup> enc_object" where
  "restrict_type t v h = (case v h of Some obj \<Rightarrow> if eo_type obj = t then Some obj else None | None \<Rightarrow> None)"

definition typed_map_ok :: "object_type \<Rightarrow> obj_map \<Rightarrow> obj_map \<Rightarrow> bool" where
  "typed_map_ok t objs m = (distinct (map fst m) \<and> map_of m = restrict_type t (map_of objs))"

definition mem_obj_inv :: "enc_object set \<Rightarrow> mem_objects \<Rightarrow> bool" where
  "mem_obj_inv U s =
     (inj_on eo_hash U \<and> distinct (map fst (Objects s)) \<and>
      (\<forall>h obj. map_of (Objects s) h = Some obj \<longrightarrow> obj \<in> U \<and> eo_hash obj = h \<and> eo_type obj \<in> storable_types) \<and>
      typed_map_ok CommitObject (Objects s) (Commits s) \<and> typed_map_ok TreeObject (Objects s) (Trees s) \<and>
      typed_map_ok BlobObject (Objects s) (Blobs s) \<and> typed_map_ok TagObject (Objects s) (Tags s))"

lemma restrict_type_upd:
  assumes "v (eo_hash obj) \<in> {None, Some obj}"
  shows "restrict_type t (v(eo_hash obj \<mapsto> obj)) =
    (if eo_type obj = t then (restrict_type t v)(eo_hash obj \<mapsto> obj) else restrict_type t v)"
  using assms by (auto simp: restrict_type_def fun_eq_iff split: option.splits)

lemma typed_map_ok_upd:
  assumes "typed_map_ok t objs m" and "map_of objs (eo_hash obj) \<in> {None, Some obj}"
  shows "typed_map_ok t (AList.update (eo_hash obj) obj objs)
    (if eo_type obj = t then AList.update (eo_hash obj) obj m else m)"
  using assms(1) unfolding typed_map_ok_def
  by (simp add: update_conv' restrict_type_upd [of "map_of objs", OF assms(2)] distinct_update)

lemma set_flattenObjectMap:
  assumes "distinct (map fst m)"
  shows "set (flattenObjectMap m) = ran (map_of m)"
  using assms by (simp add: flattenObjectMap_def ran_distinct)

lemma ran_by_hash:
  assumes "\<And>h obj. v h = Some obj \<Longrightarrow> eo_hash obj = h"
  shows "ran v = {obj. v (eo_hash obj) = Some obj}"
  using assms by (auto simp: ran_def)

lemma restrict_type_eq: "restrict_type t v h = Some obj \<longleftrightarrow> v h = Some obj \<and> eo_type obj = t"
  by (auto simp: restrict_type_def split: option.splits)

lemma mem_SetEncodedObject_ok:
  assumes "mem_obj_inv U s" and "obj \<in> U" and "eo_type obj \<in> storable_types"
  shows "\<exists>s'. mem_SetEncodedObject obj s = ((eo_hash obj, None), s') \<and> mem_obj_inv U s' \<and>
    map_of (Objects s') = (map_of (Objects s))(eo_hash obj \<mapsto> obj)"
proof -
  have old: "map_of (Objects s) (eo_hash obj) \<in> {None, Some obj}"
  proof (cases "map_of (Objects s) (eo_hash obj)")
    case (Some o')
    then have "o' \<in> U" "eo_hash o' = eo_hash obj" using assms(1) by (auto simp: mem_obj_inv_def)
    then have "o' = obj" using assms(1,2) unfolding mem_obj_inv_def by (meson inj_onD)
    then show ?thesis using Some by simp
  qed simp
  note upd = typed_map_ok_upd [OF _ old]
  let ?s = "snd (mem_SetEncodedObject obj s)"
  have maps: "Objects ?s = AList.update (eo_hash obj) obj (Objects s)"
    "Commits ?s = (if eo_type obj = CommitObject then AList.update (eo_hash obj) obj (Commits s) else Commits s)"
    "Trees ?s = (if eo_type obj = TreeObject then AList.update (eo_hash obj) obj (Trees s) else Trees s)"
    "Blobs ?s = (if eo_type obj = BlobObject then AList.update (eo_hash obj) obj (Blobs s) else Blobs s)"
    "Tags ?s = (if eo_type obj = TagObject then AList.update (eo_hash obj) obj (Tags s) else Tags s)"
    by (auto simp: mem_SetEncodedObject_def Let_def object_type_defs)
  have "mem_obj_inv U ?s"
    using assms unfolding mem_obj_inv_def maps
    by (elim conjE, intro conjI upd) (simp_all add: update_conv' distinct_update)
  moreover have "fst (mem_SetEncodedObject obj s) = (eo_hash obj, None)"
    using assms(3) by (auto simp: mem_SetEncodedObject_def Let_def storable_types_def)
  ultimately show ?thesis using maps(1) by (intro exI [of _ ?s]) (simp add: prod_eq_iff update_conv')
qed


lemma mem_iter_typed:
  assumes "typed_map_ok t (Objects s) m"
    and "\<And>h obj. map_of (Objects s) h = Some obj \<Longrightarrow> eo_hash obj = h"
  shows "set (flattenObjectMap m) = {obj. map_of (Objects s) (eo_hash obj) = Some obj \<and> eo_type obj = t}"
proof -
  have "set (flattenObjectMap m) = ran (restrict_type t (map_of (Objects s)))"
    using assms(1) unfolding typed_map_ok_def by (metis set_flattenObjectMap)
  also have "\<dots> = {obj. map_of (Objects s) (eo_hash obj) = Some obj \<and> eo_type obj = t}"
    using ran_by_hash [of "restrict_type t (map_of (Objects s))"] assms(2) by (simp add: restrict_type_eq)
  finally show ?thesis .
qed

lemma mem_IterEncodedObjects_ok:
  assumes "mem_obj_inv U s" and "t \<in> insert AnyObject storable_types"
  shows "\<exists>objs. mem_IterEncodedObjects t s = Inr objs \<and>
    set objs = {obj. map_of (Objects s) (eo_hash obj) = Some obj \<and> (t = AnyObject \<or> eo_type obj = t)}"
proof -
  have h: "\<And>h obj. map_of (Objects s) h = Some obj \<Longrightarrow> eo_hash obj = h"
    and ty: "\<And>h obj. map_of (Objects s) h = Some obj \<Longrightarrow> eo_type obj \<in> storable_types"
    using assms(1) by (auto simp: mem_obj_inv_def)
  have all: "set (flattenObjectMap (Objects s)) = {obj. map_of (Objects s) (eo_hash obj) = Some obj}"
    using assms(1) ran_by_hash [of "map_of (Objects s)", OF h] by (simp add: mem_obj_inv_def set_flattenObjectMap)
  have typed: "typed_map_ok CommitObject (Objects s) (Commits s)" "typed_map_ok TreeObject (Objects s) (Trees s)"
    "typed_map_ok BlobObject (Objects s) (Blobs s)" "typed_map_ok TagObject (Objects s) (Tags s)"
    using assms(1) by (simp_all add: mem_obj_inv_def)
  have distinct_types: "CommitObject \<noteq> AnyObject" "TreeObject \<noteq> AnyObject" "BlobObject \<noteq> AnyObject" "TagObject \<noteq> AnyObject"
    "TreeObject \<noteq> CommitObject" "BlobObject \<noteq> CommitObject" "TagObject \<noteq> CommitObject"
    "BlobObject \<noteq> TreeObject" "TagObject \<noteq> TreeObject" "TagObject \<noteq> BlobObject"
    by (simp_all add: object_type_defs)
  note its = typed [THEN mem_iter_typed, OF h]
  from assms(2) consider "t = AnyObject" | "t = CommitObject" | "t = TreeObject" | "t = BlobObject" | "t = TagObject"
    by (auto simp: storable_types_def)
  then show ?thesis
    by cases (simp_all add: mem_IterEncodedObjects_def its all distinct_types)
qed

interpretation mem_objs: obj_store U mem_obj_ops "mem_obj_inv U" "\<lambda>s. map_of (Objects s)" for U
proof unfold_locales
  fix s obj
  assume "mem_obj_inv U s" "obj \<in> U" "eo_type obj \<in> storable_types"
  from mem_SetEncodedObject_ok [OF this]
  show "\<exists>s'. op_SetEncodedObject mem_obj_ops obj s = ((eo_hash obj, None), s') \<and> mem_obj_inv U s' \<and>
      map_of (Objects s') = (map_of (Objects s))(eo_hash obj \<mapsto> obj)" by (simp add: mem_obj_ops_def)
next
  fix s t
  assume "mem_obj_inv U s" "t \<in> insert AnyObject storable_types"
  from mem_IterEncodedObjects_ok [OF this]
  show "\<exists>objs. op_IterEncodedObjects mem_obj_ops t s = Inr objs \<and>
      set objs = {obj. map_of (Objects s) (eo_hash obj) = Some obj \<and> (t = AnyObject \<or> eo_type obj = t)}"
    by (simp add: mem_obj_ops_def)
qed (auto simp: mem_obj_inv_def mem_obj_ops_def mem_HasEncodedObject_def mem_EncodedObjectSize_def mem_EncodedObject_def)


subsection \<open>The overlay of two storers is a storer\<close>

text \<open>The overlay holds what either storer holds; the two never differ on a hash.\<close>

locale two_obj_stores =
  base: obj_store U bo binv bview + temporal: obj_store U tops tinv tview
  for U :: "enc_object set" and bo :: "'b obj_ops" and binv bview and tops :: "'t obj_ops" and tinv tview
begin

definition ov_inv :: "('b, 't) overlay \<Rightarrow> bool" where
  "ov_inv s = (binv (ov_base s) \<and> tinv (ov_temporal s))"

definition ov_view :: "('b, 't) overlay \<Rightarrow> ObjectID \<Rightarrow> enc_object option" where
  "ov_view s h = (case bview (ov_base s) h of Some obj \<Rightarrow> Some obj | None \<Rightarrow> tview (ov_temporal s) h)"

lemma same_object:
  assumes "ov_inv s" and "bview (ov_base s) h = Some x" and "tview (ov_temporal s) h = Some y"
  shows "x = y"
proof -
  have "binv (ov_base s)" "tinv (ov_temporal s)" using assms(1) by (auto simp: ov_inv_def)
  with assms(2,3) have "x \<in> U" "y \<in> U" "eo_hash x = eo_hash y"
    using base.in_universe temporal.in_universe by blast+
  moreover have "inj_on eo_hash U" using base.no_collision [OF \<open>binv (ov_base s)\<close>] .
  ultimately show ?thesis by (meson inj_onD)
qed

lemma ov_view_iff:
  assumes "ov_inv s"
  shows "ov_view s h = Some obj \<longleftrightarrow> bview (ov_base s) h = Some obj \<or> tview (ov_temporal s) h = Some obj"
  using same_object [OF assms] by (auto simp: ov_view_def split: option.splits)

end

sublocale two_obj_stores \<subseteq> ov: obj_store U "ov_obj_ops bo tops" ov_inv ov_view
proof unfold_locales
  fix s :: "('b, 't) overlay" and h obj
  assume inv: "ov_inv s"
  then have b: "binv (ov_base s)" and t: "tinv (ov_temporal s)" by (auto simp: ov_inv_def)
  show "inj_on eo_hash U" using base.no_collision [OF b] .
  show "op_HasEncodedObject (ov_obj_ops bo tops) h s = (if ov_view s h = None then Some ErrObjectNotFound else None)"
    by (simp add: ov_obj_ops_def ov_HasEncodedObject_def base.has_law [OF b] temporal.has_law [OF t] ov_view_def
        split: option.splits)
  show "op_EncodedObjectSize (ov_obj_ops bo tops) h s =
      (case ov_view s h of None \<Rightarrow> Inl ErrObjectNotFound | Some obj \<Rightarrow> Inr (eo_size obj))"
    by (simp add: ov_obj_ops_def ov_EncodedObjectSize_def base.size_law [OF b] temporal.size_law [OF t] ov_view_def
        split: option.splits)
  show "op_EncodedObject (ov_obj_ops bo tops) ty h s = lookup_typed ty (ov_view s h)" for ty
    using same_object [OF inv, of h]
    by (auto simp: ov_obj_ops_def ov_EncodedObject_def base.get_obj_law [OF b] temporal.get_obj_law [OF t]
        lookup_typed_def ov_view_def Let_def split: option.splits)
  show "obj \<in> U \<and> eo_hash obj = h" if "ov_view s h = Some obj"
    using that base.in_universe [OF b] temporal.in_universe [OF t] unfolding ov_view_iff [OF inv] by blast
  show "eo_type obj \<in> storable_types" if "ov_view s h = Some obj"
    using that base.stored_type [OF b] temporal.stored_type [OF t] unfolding ov_view_iff [OF inv] by blast
  show "\<exists>s'. op_SetEncodedObject (ov_obj_ops bo tops) obj s = ((eo_hash obj, None), s') \<and> ov_inv s' \<and>
      ov_view s' = (ov_view s)(eo_hash obj \<mapsto> obj)" if "obj \<in> U" "eo_type obj \<in> storable_types"
  proof -
    from temporal.set_obj_law [OF t that] obtain t' where
      t': "op_SetEncodedObject tops obj (ov_temporal s) = ((eo_hash obj, None), t')" "tinv t'"
        "tview t' = (tview (ov_temporal s))(eo_hash obj \<mapsto> obj)" by blast
    have inv': "ov_inv (s\<lparr>ov_temporal := t'\<rparr>)" using inv t'(2) by (simp add: ov_inv_def)
    have "tview t' (eo_hash obj) = Some obj" using t'(3) by (metis fun_upd_same)
    then have "bview (ov_base s) (eo_hash obj) = Some o' \<Longrightarrow> o' = obj" for o'
      using same_object [OF inv', of "eo_hash obj" o' obj] by simp
    then have "ov_view (s\<lparr>ov_temporal := t'\<rparr>) = (ov_view s)(eo_hash obj \<mapsto> obj)"
      unfolding fun_eq_iff ov_view_def by (auto simp: fun_cong [OF t'(3)] split: option.splits)
    with inv' t'(1) show ?thesis by (simp add: ov_obj_ops_def ov_SetEncodedObject_def)
  qed
  show "\<exists>objs. op_IterEncodedObjects (ov_obj_ops bo tops) ty s = Inr objs \<and>
      set objs = {obj. ov_view s (eo_hash obj) = Some obj \<and> (ty = AnyObject \<or> eo_type obj = ty)}"
    if "ty \<in> insert AnyObject storable_types" for ty
  proof -
    from base.iter_obj_law [OF b that] temporal.iter_obj_law [OF t that] obtain bs ts where
      "op_IterEncodedObjects bo ty (ov_base s) = Inr bs" "op_IterEncodedObjects tops ty (ov_temporal s) = Inr ts"
      "set bs = {obj. bview (ov_base s) (eo_hash obj) = Some obj \<and> (ty = AnyObject \<or> eo_type obj = ty)}"
      "set ts = {obj. tview (ov_temporal s) (eo_hash obj) = Some obj \<and> (ty = AnyObject \<or> eo_type obj = ty)}" by blast
    then show ?thesis
      by (intro exI [of _ "bs @ ts"]) (auto simp: ov_obj_ops_def ov_IterEncodedObjects_def ov_view_iff [OF inv])
  qed
qed

text \<open>\<open>Commit\<close> makes the base hold what the overlay showed.\<close>

context two_obj_stores
begin

lemma commit_ok:
  assumes "ov_inv s"
  shows "\<exists>b. ov_Commit bo tops s = (None, s\<lparr>ov_base := b\<rparr>) \<and> binv b \<and> bview b = ov_view s"
proof -
  have b: "binv (ov_base s)" and t: "tinv (ov_temporal s)" using assms by (auto simp: ov_inv_def)
  from temporal.iter_obj_law [OF t, of AnyObject] obtain objs where
    it: "op_IterEncodedObjects tops AnyObject (ov_temporal s) = Inr objs"
      "set objs = {obj. tview (ov_temporal s) (eo_hash obj) = Some obj}" by auto
  from base.commit_loop_ok [OF b, of objs] obtain b' where
    b': "ov_Commit_loop bo objs (ov_base s) = (None, b')" "binv b'"
      "\<forall>h. bview b' h = (case find (\<lambda>obj. eo_hash obj = h) objs of Some obj \<Rightarrow> Some obj | None \<Rightarrow> bview (ov_base s) h)"
    using it(2) temporal.in_universe [OF t] temporal.stored_type [OF t] by blast
  have "bview b' h = ov_view s h" for h
  proof (cases "tview (ov_temporal s) h")
    case None
    then have "find (\<lambda>obj. eo_hash obj = h) objs = None" using it(2) by (auto simp: find_None_iff)
    then show ?thesis using b'(3) None by (simp add: ov_view_def split: option.split)
  next
    case (Some obj)
    then have "obj \<in> set objs" "eo_hash obj = h" using it(2) temporal.in_universe [OF t Some] by auto
    then obtain o' where o': "find (\<lambda>obj. eo_hash obj = h) objs = Some o'"
      by (metis (mono_tags) find_None_iff option.exhaust)
    then have "o' \<in> set objs" "eo_hash o' = h" by (auto simp: find_Some_iff)
    then have "o' = obj" using it(2) Some by auto
    then show ?thesis using b'(3) o' Some ov_view_iff [OF assms, of h obj] by simp
  qed
  then show ?thesis using it(1) b' by (auto simp: ov_Commit_def fun_eq_iff)
qed

end

interpretation mem_ov: two_obj_stores U mem_obj_ops "mem_obj_inv U" "\<lambda>s. map_of (Objects s)"
  mem_obj_ops "mem_obj_inv U" "\<lambda>s. map_of (Objects s)" for U ..


subsection \<open>Properties\<close>

text \<open>Storing a list of objects, one after another.\<close>

definition set_all :: "'s obj_ops \<Rightarrow> enc_object list \<Rightarrow> 's \<Rightarrow> 's" where
  "set_all ops objs s = fold (\<lambda>obj s. snd (op_SetEncodedObject ops obj s)) objs s"

definition storable :: "enc_object set \<Rightarrow> enc_object list \<Rightarrow> bool" where
  "storable U objs = (\<forall>obj\<in>set objs. obj \<in> U \<and> eo_type obj \<in> storable_types)"

context obj_store
begin

lemma set_all_ok:
  assumes "inv s" and "storable U objs"
  shows "inv (set_all ops objs s) \<and> view (set_all ops objs s) = fold (\<lambda>obj v. v(eo_hash obj \<mapsto> obj)) objs (view s)"
  using assms
proof (induction objs arbitrary: s)
  case (Cons obj objs)
  have "storable U objs" "obj \<in> U" "eo_type obj \<in> storable_types" using Cons.prems(2) by (auto simp: storable_def)
  from set_obj_law [OF Cons.prems(1) this(2,3)] obtain s1 where
    s1: "op_SetEncodedObject ops obj s = ((eo_hash obj, None), s1)" "inv s1" "view s1 = (view s)(eo_hash obj \<mapsto> obj)" by blast
  have "set_all ops (obj # objs) s = set_all ops objs s1" by (simp add: set_all_def s1(1))
  with Cons.IH [OF s1(2) \<open>storable U objs\<close>] show ?case unfolding s1(3) by simp
qed (simp add: set_all_def)

end

context two_obj_stores
begin

lemma ov_sequence:
  assumes "ov_inv s" and "storable U objs" and "tview (ov_temporal s) = Map.empty"
  shows "let s1 = set_all (ov_obj_ops bo tops) objs s; direct = set_all bo objs (ov_base s) in
    ov_inv s1 \<and> binv direct \<and> ov_view s1 = bview direct"
proof -
  have "binv (ov_base s)" using assms(1) by (simp add: ov_inv_def)
  moreover have "ov_view s = bview (ov_base s)"
    using assms(3) by (simp add: ov_view_def fun_eq_iff split: option.split)
  ultimately show ?thesis
    using base.set_all_ok [OF _ assms(2)] ov.set_all_ok [OF assms(1,2)] by (simp add: Let_def)
qed

lemma ov_set_all_base: "ov_base (set_all (ov_obj_ops bo tops) objs s) = ov_base s"
  by (induction objs arbitrary: s)
    (auto simp: set_all_def ov_obj_ops_def ov_SetEncodedObject_def split: prod.splits)

end

lemma new_mem_objects_inv: "inj_on eo_hash U \<Longrightarrow> mem_obj_inv U new_mem_objects"
  by (simp add: mem_obj_inv_def new_mem_objects_def typed_map_ok_def restrict_type_def [abs_def])

text \<open>
  \<^bold>\<open>C30\<close>. Storing objects through the overlay and committing is storing them in the base: while
  the transaction is open the base is as it was, and the overlay answers every lookup
  (\<open>EncodedObject\<close> of each type, \<open>HasEncodedObject\<close>, \<open>EncodedObjectSize\<close>) as the base would after
  direct writes; \<open>Commit\<close> succeeds and the base then answers so itself. The objects are
  of the four storable types and no two of them share a hash.
\<close>

theorem object_transaction_refines_writes:
  assumes "mem_obj_inv U base" and "storable U objs"
  shows "let ops = ov_obj_ops mem_obj_ops mem_obj_ops;
      s = set_all ops objs (NewObjectStorage base new_mem_objects);
      direct = set_all mem_obj_ops objs base;
      (err, s') = ov_Commit mem_obj_ops mem_obj_ops s in
    ov_base s = base \<and> err = None \<and>
    (\<forall>t h. ov_EncodedObject mem_obj_ops mem_obj_ops t h s = mem_EncodedObject t h direct \<and>
      mem_EncodedObject t h (ov_base s') = mem_EncodedObject t h direct) \<and>
    (\<forall>h. ov_HasEncodedObject mem_obj_ops mem_obj_ops h s = mem_HasEncodedObject h direct \<and>
      mem_HasEncodedObject h (ov_base s') = mem_HasEncodedObject h direct) \<and>
    (\<forall>h. ov_EncodedObjectSize mem_obj_ops mem_obj_ops h s = mem_EncodedObjectSize h direct \<and>
      mem_EncodedObjectSize h (ov_base s') = mem_EncodedObjectSize h direct)"
proof -
  let ?init = "NewObjectStorage base new_mem_objects"
  let ?s = "set_all (ov_obj_ops mem_obj_ops mem_obj_ops) objs ?init"
  let ?d = "set_all mem_obj_ops objs base"
  have "inj_on eo_hash U" using assms(1) by (simp add: mem_obj_inv_def)
  then have i: "mem_ov.ov_inv U ?init"
    using assms(1) new_mem_objects_inv by (simp add: mem_ov.ov_inv_def NewObjectStorage_def)
  have v: "mem_ov.ov_inv U ?s" "mem_obj_inv U ?d" "mem_ov.ov_view ?s = map_of (Objects ?d)"
    using mem_ov.ov_sequence [OF i assms(2)] by (simp_all add: Let_def NewObjectStorage_def new_mem_objects_def)
  from mem_ov.commit_ok [OF v(1)] obtain b where
    b: "ov_Commit mem_obj_ops mem_obj_ops ?s = (None, ?s\<lparr>ov_base := b\<rparr>)"
      "map_of (Objects b) = map_of (Objects ?d)" by (auto simp: v(3))
  have eq: "mem_EncodedObject t h b = mem_EncodedObject t h ?d" "mem_HasEncodedObject h b = mem_HasEncodedObject h ?d"
    "mem_EncodedObjectSize h b = mem_EncodedObjectSize h ?d" for t h
    by (simp_all add: mem_EncodedObject_def mem_HasEncodedObject_def mem_EncodedObjectSize_def b(2))
  have ov: "ov_EncodedObject mem_obj_ops mem_obj_ops t h ?s = mem_EncodedObject t h ?d"
    "ov_HasEncodedObject mem_obj_ops mem_obj_ops h ?s = mem_HasEncodedObject h ?d"
    "ov_EncodedObjectSize mem_obj_ops mem_obj_ops h ?s = mem_EncodedObjectSize h ?d" for t h
    using mem_ov.ov.get_obj_law [OF v(1), of t h] mem_ov.ov.has_law [OF v(1), of h] mem_ov.ov.size_law [OF v(1), of h]
    by (simp_all add: ov_obj_ops_sel v(3) mem_EncodedObject_def mem_HasEncodedObject_def mem_EncodedObjectSize_def)
  show ?thesis
    by (simp add: Let_def b(1) eq ov mem_ov.ov_set_all_base) (simp add: NewObjectStorage_def)
qed

definition empty_blob :: enc_object where
  "empty_blob = \<lparr>eo_type = BlobObject, eo_hash = ObjectID (replicate 32 1) SHA256, eo_size = 0, eo_content = []\<rparr>"

lemma object_transaction_refines_writes_witness:
  "let s = set_all (ov_obj_ops mem_obj_ops mem_obj_ops) [empty_blob] (NewObjectStorage new_mem_objects new_mem_objects);
       (err, s') = ov_Commit mem_obj_ops mem_obj_ops s in
   storable {empty_blob} [empty_blob] \<and> err = None \<and>
   mem_EncodedObject BlobObject (eo_hash empty_blob) (ov_base s') = Inr empty_blob"
proof -
  have "storable {empty_blob} [empty_blob]" by (simp add: storable_def empty_blob_def storable_types_def)
  moreover have "mem_EncodedObject BlobObject (eo_hash empty_blob) (set_all mem_obj_ops [empty_blob] new_mem_objects) =
      Inr empty_blob" by code_simp
  ultimately show ?thesis
    using object_transaction_refines_writes [of "{empty_blob}" new_mem_objects "[empty_blob]"]
    by (simp add: Let_def split_beta new_mem_objects_inv)
qed

lemma fold_updates_lookup:
  assumes "\<And>x. x \<in> set xs \<Longrightarrow> eo_hash x = eo_hash obj \<Longrightarrow> x = obj"
  shows "fold (\<lambda>obj v. v(eo_hash obj \<mapsto> obj)) xs v (eo_hash obj) = Some obj \<longleftrightarrow> obj \<in> set xs \<or> v (eo_hash obj) = Some obj"
  using assms
proof (induction xs arbitrary: v)
  case (Cons x xs)
  have "\<And>y. y \<in> set xs \<Longrightarrow> eo_hash y = eo_hash obj \<Longrightarrow> y = obj" using Cons.prems by simp
  note IH = Cons.IH [OF this, of "v(eo_hash x \<mapsto> x)"]
  have "(v(eo_hash x \<mapsto> x)) (eo_hash obj) = Some obj \<longleftrightarrow> x = obj \<or> v (eo_hash obj) = Some obj \<and> eo_hash x \<noteq> eo_hash obj"
    using Cons.prems [of x] by auto
  then show ?case using IH Cons.prems [of x] by (auto simp del: fun_upd_apply)
qed simp

text \<open>
  The five maps of the in-memory storer stay consistent: after any sequence of stores,
  \<open>IterEncodedObjects\<close> of a type, which reads the map of that type, delivers exactly the objects
  that \<open>EncodedObject\<close> of that type finds, which reads the map of all objects; with \<open>AnyObject\<close>
  it delivers exactly the objects stored.
\<close>

theorem object_maps_consistent:
  assumes "inj_on eo_hash U" and "storable U objs" and "t \<in> insert AnyObject storable_types"
  shows "\<exists>found. mem_IterEncodedObjects t (set_all mem_obj_ops objs new_mem_objects) = Inr found \<and>
    set found = {obj. mem_EncodedObject t (eo_hash obj) (set_all mem_obj_ops objs new_mem_objects) = Inr obj} \<and>
    set found = {obj \<in> set objs. t = AnyObject \<or> eo_type obj = t}"
proof -
  let ?s = "set_all mem_obj_ops objs new_mem_objects"
  have i: "mem_obj_inv U ?s" "map_of (Objects ?s) = fold (\<lambda>obj v. v(eo_hash obj \<mapsto> obj)) objs Map.empty"
    using mem_objs.set_all_ok [OF new_mem_objects_inv [OF assms(1)] assms(2)] by (simp_all add: new_mem_objects_def)
  have "x = obj" if "x \<in> set objs" "obj \<in> U" "eo_hash x = eo_hash obj" for x obj
    using assms(1,2) that by (auto simp: storable_def dest: inj_onD)
  moreover have "obj \<in> U" if "obj \<in> set objs \<or> map_of (Objects ?s) (eo_hash obj) = Some obj" for obj
    using that assms(2) i(1) unfolding storable_def mem_obj_inv_def by blast
  ultimately have mem: "map_of (Objects ?s) (eo_hash obj) = Some obj \<longleftrightarrow> obj \<in> set objs" for obj
    using fold_updates_lookup [of objs obj Map.empty] unfolding i(2) by auto
  from mem_objs.iter_obj_law [OF i(1) assms(3)] obtain found where
    "op_IterEncodedObjects mem_obj_ops t ?s = Inr found" "set found = {obj \<in> set objs. t = AnyObject \<or> eo_type obj = t}"
    unfolding mem by blast
  moreover from mem_objs.iter_eq_lookups [OF i(1) assms(3)] this(1)
  have "set found = {obj. op_EncodedObject mem_obj_ops t (eo_hash obj) ?s = Inr obj}" by (metis sum.inject(2))
  ultimately show ?thesis by (intro exI [of _ found]) (simp add: mem_obj_ops_sel)
qed


lemma object_maps_consistent_witness:
  "\<exists>found. mem_IterEncodedObjects BlobObject (set_all mem_obj_ops [empty_blob] new_mem_objects) = Inr found \<and>
    set found = {obj \<in> {empty_blob}. BlobObject = AnyObject \<or> eo_type obj = BlobObject}"
  using object_maps_consistent [of "{empty_blob}" "[empty_blob]" BlobObject]
  by (auto simp: storable_def storable_types_def empty_blob_def)

text \<open>Transactions of the in-memory storer.\<close>

lemma txo_Commit_loop_set_all:
  assumes "mem_obj_inv U s" and "storable U (map snd m)"
  shows "txo_Commit_loop m s = (None, [], set_all mem_obj_ops (map snd m) s)"
  using assms
proof (induction m arbitrary: s)
  case (Cons p m)
  obtain h obj where p: "p = (h, obj)" by (cases p)
  have st: "obj \<in> U" "eo_type obj \<in> storable_types" "storable U (map snd m)"
    using Cons.prems(2) by (auto simp: p storable_def)
  from mem_SetEncodedObject_ok [OF Cons.prems(1) st(1,2)] obtain s' where
    "mem_SetEncodedObject obj s = ((eo_hash obj, None), s')" "mem_obj_inv U s'" by blast
  with Cons.IH [OF _ st(3)] show ?case by (simp add: p set_all_def mem_obj_ops_def)
qed (simp add: set_all_def)

lemma universe_views_eqI:
  assumes "mem_obj_inv U s" and "mem_obj_inv U s'"
    and "\<And>obj. obj \<in> U \<Longrightarrow> map_of (Objects s) (eo_hash obj) = Some obj \<longleftrightarrow> map_of (Objects s') (eo_hash obj) = Some obj"
  shows "map_of (Objects s) = map_of (Objects s')"
proof
  fix h
  have "map_of (Objects s) h = Some obj \<longleftrightarrow> map_of (Objects s') h = Some obj" for obj
    using assms mem_objs.in_universe [OF assms(1)] mem_objs.in_universe [OF assms(2)] by metis
  then show "map_of (Objects s) h = map_of (Objects s') h" by (metis option.exhaust)
qed

lemma lookup_set_all:
  assumes "mem_obj_inv U s" and "storable U objs" and "obj \<in> U"
  shows "map_of (Objects (set_all mem_obj_ops objs s)) (eo_hash obj) = Some obj \<longleftrightarrow>
    obj \<in> set objs \<or> map_of (Objects s) (eo_hash obj) = Some obj"
proof -
  have "x = obj" if "x \<in> set objs" "eo_hash x = eo_hash obj" for x
    using assms that unfolding mem_obj_inv_def storable_def by (meson inj_onD)
  then show ?thesis using mem_objs.set_all_ok [OF assms(1,2)] fold_updates_lookup [of objs obj] by simp
qed

definition txo_set_all :: "enc_object list \<Rightarrow> tx_objects \<Rightarrow> tx_objects" where
  "txo_set_all objs tx = fold (\<lambda>obj tx. snd (txo_SetEncodedObject obj tx)) objs tx"

lemma txo_set_all_Objects:
  "txo_Storage (txo_set_all objs tx) = txo_Storage tx \<and>
   txo_Objects (txo_set_all objs tx) = fold (\<lambda>obj. AList.update (eo_hash obj) obj) objs (txo_Objects tx)"
  unfolding txo_set_all_def by (induction objs arbitrary: tx) (simp_all add: txo_SetEncodedObject_def)

lemma map_of_fold_update:
  "map_of (fold (\<lambda>obj. AList.update (eo_hash obj) obj) objs m) = fold (\<lambda>obj v. v(eo_hash obj \<mapsto> obj)) objs (map_of m)"
  by (induction objs arbitrary: m) (simp_all add: update_conv')

lemma distinct_fold_update:
  "distinct (map fst m) \<Longrightarrow> distinct (map fst (fold (\<lambda>obj. AList.update (eo_hash obj) obj) objs m))"
  by (induction objs arbitrary: m) (simp_all add: distinct_update)

lemma fold_updates_some:
  "fold (\<lambda>obj v. v(eo_hash obj \<mapsto> obj)) objs v h = Some x \<Longrightarrow> x \<in> set objs \<and> eo_hash x = h \<or> v h = Some x"
  by (induction objs arbitrary: v) (fastforce split: if_splits)+

lemma tx_pending_set:
  assumes "inj_on eo_hash U" and "storable U objs"
  shows "set (map snd (txo_Objects (txo_set_all objs (Begin s)))) = set objs"
proof -
  let ?m = "fold (\<lambda>obj. AList.update (eo_hash obj) obj) objs []"
  have "set (map snd ?m) = ran (map_of ?m)" using distinct_fold_update [of "[]" objs] by (simp add: ran_distinct)
  also have "\<dots> = set objs"
  proof (intro set_eqI iffI)
    fix x assume "x \<in> ran (map_of ?m)"
    then show "x \<in> set objs" using fold_updates_some [of objs Map.empty] by (auto simp: ran_def map_of_fold_update)
  next
    fix x assume x: "x \<in> set objs"
    then have "\<And>y. y \<in> set objs \<Longrightarrow> eo_hash y = eo_hash x \<Longrightarrow> y = x"
      using assms unfolding storable_def by (meson inj_onD)
    with x fold_updates_lookup [of objs x Map.empty] have "map_of ?m (eo_hash x) = Some x"
      by (simp add: map_of_fold_update)
    then show "x \<in> ran (map_of ?m)" by (rule ranI)
  qed
  finally show ?thesis using txo_set_all_Objects [of objs "Begin s"] by (simp add: Begin_def)
qed

text \<open>
  Objects stored in a transaction of the in-memory storer stay out of it until \<open>Commit\<close>, in
  whatever order \<open>Commit\<close> meets them: then the storer answers every lookup as if they had been
  stored directly, and the transaction is empty, so committing twice changes nothing; after
  \<open>Rollback\<close> a commit changes nothing.
\<close>

theorem object_tx_commit_rollback:
  assumes "mem_obj_inv U s" and "storable U objs"
  shows "let tx = txo_set_all objs (Begin s); direct = set_all mem_obj_ops objs s;
      (err, tx') = txo_Commit tx in
    txo_Storage tx = s \<and> err = None \<and> txo_Objects tx' = [] \<and> mem_obj_inv U (txo_Storage tx') \<and>
    (\<forall>t h. mem_EncodedObject t h (txo_Storage tx') = mem_EncodedObject t h direct) \<and>
    txo_Commit tx' = (None, tx') \<and>
    txo_Commit (txo_Rollback tx) = (None, Begin s)"
proof -
  let ?tx = "txo_set_all objs (Begin s)"
  let ?s' = "set_all mem_obj_ops (map snd (txo_Objects ?tx)) s"
  let ?d = "set_all mem_obj_ops objs s"
  have tx: "txo_Storage ?tx = s" using txo_set_all_Objects [of objs "Begin s"] by (simp add: Begin_def)
  have "inj_on eo_hash U" using assms(1) by (simp add: mem_obj_inv_def)
  note pending = tx_pending_set [OF this assms(2), of s]
  then have st: "storable U (map snd (txo_Objects ?tx))" using assms(2) unfolding storable_def by simp
  have c: "txo_Commit ?tx = (None, \<lparr>txo_Storage = ?s', txo_Objects = []\<rparr>)"
    using txo_Commit_loop_set_all [OF assms(1) st] by (simp add: txo_Commit_def tx)
  have i: "mem_obj_inv U ?s'" "mem_obj_inv U ?d"
    using mem_objs.set_all_ok [OF assms(1)] st assms(2) by blast+
  have "map_of (Objects ?s') = map_of (Objects ?d)"
    by (rule universe_views_eqI [OF i])
      (simp only: lookup_set_all [OF assms(1) st] lookup_set_all [OF assms] pending)
  then have "mem_EncodedObject t h ?s' = mem_EncodedObject t h ?d" for t h by (simp add: mem_EncodedObject_def)
  then show ?thesis using i tx by (simp add: Let_def c) (simp add: txo_Commit_def txo_Rollback_def Begin_def)
qed

lemma object_tx_commit_rollback_witness:
  "let tx = txo_set_all [empty_blob] (Begin new_mem_objects); (err, tx') = txo_Commit tx in
   mem_obj_inv {empty_blob} new_mem_objects \<and> storable {empty_blob} [empty_blob] \<and>
   err = None \<and> txo_Objects tx' = []"
proof -
  have "storable {empty_blob} [empty_blob]" by (simp add: storable_def empty_blob_def storable_types_def)
  moreover have "mem_obj_inv {empty_blob} new_mem_objects" by (simp add: new_mem_objects_inv)
  ultimately show ?thesis
    using object_tx_commit_rollback [of "{empty_blob}" new_mem_objects "[empty_blob]"]
    by (simp add: Let_def split_beta)
qed

text \<open>
  \<open>SetEncodedObject\<close> of the in-memory storer reports \<open>ErrUnsupportedObjectType\<close> for an object
  of another type, a delta for instance, but has stored it all the same: it is found by its
  hash, its size is answered and an iteration over all objects delivers it.
\<close>

theorem SetEncodedObject_keeps_rejected:
  assumes "eo_type obj \<notin> storable_types"
  shows "let (res, s') = mem_SetEncodedObject obj s in
    res = (eo_hash obj, Some ErrUnsupportedObjectType) \<and>
    mem_HasEncodedObject (eo_hash obj) s' = None \<and>
    mem_EncodedObject AnyObject (eo_hash obj) s' = Inr obj \<and>
    mem_EncodedObjectSize (eo_hash obj) s' = Inr (eo_size obj) \<and>
    obj \<in> set (projr (mem_IterEncodedObjects AnyObject s'))"
proof -
  have "(eo_hash obj, obj) \<in> set (AList.update (eo_hash obj) obj (Objects s))"
    by (rule map_of_SomeD) (simp add: update_conv')
  then have "obj \<in> set (flattenObjectMap (AList.update (eo_hash obj) obj (Objects s)))"
    by (force simp: flattenObjectMap_def)
  then show ?thesis
    using assms by (simp add: mem_SetEncodedObject_def Let_def storable_types_def mem_HasEncodedObject_def
        mem_EncodedObject_def lookup_typed_def mem_EncodedObjectSize_def mem_IterEncodedObjects_def update_conv')
qed

lemma SetEncodedObject_keeps_rejected_witness:
  "let (res, s') = mem_SetEncodedObject (empty_blob\<lparr>eo_type := OFSDeltaObject\<rparr>) new_mem_objects in
   snd res = Some ErrUnsupportedObjectType \<and> mem_HasEncodedObject (eo_hash empty_blob) s' = None"
  using SetEncodedObject_keeps_rejected [of "empty_blob\<lparr>eo_type := OFSDeltaObject\<rparr>" new_mem_objects]
  by (simp add: Let_def split_beta storable_types_def object_type_defs empty_blob_def)

end
