(* ===== verification/Config_Validate.thy ===== *)
theory Config_Validate
  imports Refspec
begin

text \<open>
  Validation of the configuration: \<open>Config.Validate\<close> and \<open>RemoteConfig.Validate\<close> of
  \<open>config/config.go\<close> and \<open>Branch.Validate\<close> of \<open>config/branch.go\<close>. The record holds the sections that
  the validation and the storages read: the remotes, the branches, the repository format and
  the object format. \<open>Validate\<close> is not only a check: a remote without fetch refspecs is given the
  default one, so it returns the configuration too. Go maps are association lists.
\<close>

datatype config_error =
    ErrInvalid | ErrRemoteConfigEmptyURL | ErrRemoteConfigEmptyName
  | errBranchEmptyName | errBranchInvalidRebase
  | RefSpecError refspec_error | RefNameError ref_error

record RemoteConfig =
  rc_Name :: string
  rc_URLs :: "string list"
  rc_Fetch :: "RefSpec list"

record Branch =
  br_Name :: string
  br_Remote :: string
  br_Merge :: ReferenceName
  br_Rebase :: string

record Config =
  cfg_Remotes :: "(string \<times> RemoteConfig) list"
  cfg_Branches :: "(string \<times> Branch) list"
  cfg_ObjectFormat :: ObjectFormat
  cfg_RepositoryFormatVersion :: string

definition NewConfig :: Config where
  "NewConfig = \<lparr>cfg_Remotes = [], cfg_Branches = [], cfg_ObjectFormat = UnsetObjectFormat, cfg_RepositoryFormatVersion = []\<rparr>"

text \<open>\<open>fmt.Sprintf(DefaultFetchRefSpec, name)\<close>.\<close>

definition DefaultFetchRefSpec :: "string \<Rightarrow> RefSpec" where
  "DefaultFetchRefSpec name = ''+refs/heads/*:refs/remotes/'' @ name @ ''/*''"

fun validate_fetch :: "RefSpec list \<Rightarrow> config_error option" where
  "validate_fetch [] = None"
| "validate_fetch (r # rs) = (case RefSpec_Validate r of Inl e \<Rightarrow> Some (RefSpecError e) | Inr _ \<Rightarrow> validate_fetch rs)"

definition name_error :: "ref_error + unit \<Rightarrow> config_error option" where
  "name_error r = (case r of Inl e \<Rightarrow> Some (RefNameError e) | Inr _ \<Rightarrow> None)"

definition RemoteConfig_Validate :: "RemoteConfig \<Rightarrow> config_error option \<times> RemoteConfig" where
  "RemoteConfig_Validate c =
     (if rc_Name c = [] then (Some ErrRemoteConfigEmptyName, c)
      else if length (rc_URLs c) = 0 then (Some ErrRemoteConfigEmptyURL, c)
      else case validate_fetch (rc_Fetch c) of
             Some e \<Rightarrow> (Some e, c)
           | None \<Rightarrow>
               let c = (if length (rc_Fetch c) = 0 then c\<lparr>rc_Fetch := [DefaultFetchRefSpec (rc_Name c)]\<rparr> else c)
               in (name_error (Validate (NewRemoteHEADReferenceName (rc_Name c))), c))"

definition Branch_Validate :: "Branch \<Rightarrow> config_error option" where
  "Branch_Validate b =
     (if br_Name b = [] then Some errBranchEmptyName
      else if br_Rebase b \<noteq> [] \<and> br_Rebase b \<noteq> ''true'' \<and> br_Rebase b \<noteq> ''interactive'' \<and> br_Rebase b \<noteq> ''false''
      then Some errBranchInvalidRebase
      else name_error (Validate (NewBranchReferenceName (br_Name b))))"

text \<open>The loops of \<open>Config.Validate\<close>; a remote met before the error keeps its default refspec.\<close>

fun validate_remotes :: "(string \<times> RemoteConfig) list \<Rightarrow> config_error option \<times> (string \<times> RemoteConfig) list" where
  "validate_remotes [] = (None, [])"
| "validate_remotes ((name, r) # rs) =
     (if rc_Name r \<noteq> name then (Some ErrInvalid, (name, r) # rs)
      else case RemoteConfig_Validate r of
             (Some e, r') \<Rightarrow> (Some e, (name, r') # rs)
           | (None, r') \<Rightarrow> (case validate_remotes rs of (err, rs') \<Rightarrow> (err, (name, r') # rs')))"

fun validate_branches :: "(string \<times> Branch) list \<Rightarrow> config_error option" where
  "validate_branches [] = None"
| "validate_branches ((name, b) # bs) =
     (if br_Name b \<noteq> name then Some ErrInvalid
      else case Branch_Validate b of Some e \<Rightarrow> Some e | None \<Rightarrow> validate_branches bs)"

definition Config_Validate :: "Config \<Rightarrow> config_error option \<times> Config" where
  "Config_Validate c =
     (case validate_remotes (cfg_Remotes c) of
        (Some e, rs) \<Rightarrow> (Some e, c\<lparr>cfg_Remotes := rs\<rparr>)
      | (None, rs) \<Rightarrow> (validate_branches (cfg_Branches c), c\<lparr>cfg_Remotes := rs\<rparr>))"

subsection \<open>What is accepted\<close>

definition remote_ok :: "RemoteConfig \<Rightarrow> bool" where
  "remote_ok r \<longleftrightarrow> rc_Name r \<noteq> [] \<and> rc_URLs r \<noteq> [] \<and> list_all (\<lambda>s. RefSpec_Validate s = Inr ()) (rc_Fetch r) \<and>
     refname_ok (NewRemoteHEADReferenceName (rc_Name r))"

definition with_default_fetch :: "RemoteConfig \<Rightarrow> RemoteConfig" where
  "with_default_fetch r = (if rc_Fetch r = [] then r\<lparr>rc_Fetch := [DefaultFetchRefSpec (rc_Name r)]\<rparr> else r)"

definition branch_ok :: "Branch \<Rightarrow> bool" where
  "branch_ok b \<longleftrightarrow> br_Name b \<noteq> [] \<and> br_Rebase b \<in> {'''', ''true'', ''interactive'', ''false''} \<and>
     refname_ok (NewBranchReferenceName (br_Name b))"

definition config_ok :: "Config \<Rightarrow> bool" where
  "config_ok c \<longleftrightarrow> list_all (\<lambda>(n, r). rc_Name r = n \<and> remote_ok r) (cfg_Remotes c) \<and>
     list_all (\<lambda>(n, b). br_Name b = n \<and> branch_ok b) (cfg_Branches c)"

definition config_defaults :: "Config \<Rightarrow> Config" where
  "config_defaults c = c\<lparr>cfg_Remotes := map (\<lambda>(n, r). (n, with_default_fetch r)) (cfg_Remotes c)\<rparr>"


lemma validate_fetch_None: "validate_fetch rs = None \<longleftrightarrow> list_all (\<lambda>s. RefSpec_Validate s = Inr ()) rs"
  by (induction rs) (auto split: sum.splits)

lemma name_error_None: "name_error (Validate s) = None \<longleftrightarrow> s = HEAD \<or> refname_ok s"
  by (auto simp: name_error_def Validate_iff [symmetric] split: sum.splits)

lemma under_refs_not_HEAD: "NewRemoteHEADReferenceName n \<noteq> HEAD" "NewBranchReferenceName n \<noteq> HEAD"
  by (simp_all add: NewRemoteHEADReferenceName_def NewBranchReferenceName_def refRemotePrefix_def RefHeadPrefix_def
      RefPrefix_def HEAD_def)

lemma RemoteConfig_Validate_None:
  "RemoteConfig_Validate r = (None, r') \<longleftrightarrow> remote_ok r \<and> r' = with_default_fetch r"
  by (cases "validate_fetch (rc_Fetch r)")
    (auto simp: RemoteConfig_Validate_def remote_ok_def with_default_fetch_def Let_def
      validate_fetch_None [symmetric] name_error_None under_refs_not_HEAD)

lemma Branch_Validate_None: "Branch_Validate b = None \<longleftrightarrow> branch_ok b"
  by (auto simp: Branch_Validate_def branch_ok_def name_error_None under_refs_not_HEAD)

lemma validate_remotes_None:
  "validate_remotes rs = (None, rs') \<longleftrightarrow>
     list_all (\<lambda>(n, r). rc_Name r = n \<and> remote_ok r) rs \<and> rs' = map (\<lambda>(n, r). (n, with_default_fetch r)) rs"
proof (induction rs arbitrary: rs')
  case (Cons p rs)
  obtain n r where p: "p = (n, r)" by (cases p)
  show ?case
  proof (cases "rc_Name r = n \<and> remote_ok r")
    case True
    then have "RemoteConfig_Validate r = (None, with_default_fetch r)" by (simp add: RemoteConfig_Validate_None)
    with True Cons.IH show ?thesis by (cases "validate_remotes rs") (auto simp: p)
  next
    case False
    then show ?thesis using RemoteConfig_Validate_None [of r]
      by (auto simp: p split: prod.splits option.splits)
  qed
qed auto

lemma validate_branches_None:
  "validate_branches bs = None \<longleftrightarrow> list_all (\<lambda>(n, b). br_Name b = n \<and> branch_ok b) bs"
  by (induction bs rule: validate_branches.induct) (auto simp: Branch_Validate_None [symmetric] split: option.splits)

lemma Config_Validate_None: "Config_Validate c = (None, c') \<longleftrightarrow> config_ok c \<and> c' = config_defaults c"
proof (cases "list_all (\<lambda>(n, r). rc_Name r = n \<and> remote_ok r) (cfg_Remotes c)")
  case True
  then have "validate_remotes (cfg_Remotes c) = (None, map (\<lambda>(n, r). (n, with_default_fetch r)) (cfg_Remotes c))"
    by (simp add: validate_remotes_None)
  with True show ?thesis
    by (auto simp: Config_Validate_def config_ok_def config_defaults_def validate_branches_None)
next
  case False
  then have "fst (validate_remotes (cfg_Remotes c)) \<noteq> None"
    using validate_remotes_None [of "cfg_Remotes c"] by (cases "validate_remotes (cfg_Remotes c)") auto
  with False show ?thesis by (auto simp: Config_Validate_def config_ok_def split: prod.splits option.splits)
qed

subsection \<open>The default refspec\<close>

lemma DefaultFetchRefSpec_valid:
  assumes "refname_ok (NewRemoteHEADReferenceName name)"
  shows "RefSpec_Validate (DefaultFetchRefSpec name) = Inr ()"
proof -
  have c: "CHR '':'' \<notin> set name" "CHR ''*'' \<notin> set name"
    using assms by (auto simp: refname_ok_def NewRemoteHEADReferenceName_def)
  then have "count_list name (CHR '':'') = 0" "count_list name (CHR ''*'') = 0" by (simp_all add: count_list_0_iff)
  moreover have "cut (CHR '':'') (DefaultFetchRefSpec name) =
      Some (''+refs/heads/*'', ''refs/remotes/'' @ name @ ''/*'')"
    by (simp add: cut_Some_iff DefaultFetchRefSpec_def)
  ultimately show ?thesis by (simp add: RefSpec_Validate_def Let_def) (simp add: DefaultFetchRefSpec_def)
qed

lemma with_default_fetch_ok: "remote_ok r \<Longrightarrow> remote_ok (with_default_fetch r)"
  by (auto simp: remote_ok_def with_default_fetch_def DefaultFetchRefSpec_valid)

lemma with_default_fetch_idem: "with_default_fetch (with_default_fetch r) = with_default_fetch r"
  by (simp add: with_default_fetch_def)

lemma with_default_fetch_name: "rc_Name (with_default_fetch r) = rc_Name r"
  by (simp add: with_default_fetch_def)

lemma config_defaults_ok: "config_ok c \<Longrightarrow> config_ok (config_defaults c)"
  by (auto simp: config_ok_def config_defaults_def list_all_iff with_default_fetch_ok with_default_fetch_name)

lemma config_defaults_idem: "config_defaults (config_defaults c) = config_defaults c"
  by (auto simp: config_defaults_def with_default_fetch_idem split_beta)

text \<open>
  \<^bold>\<open>C39\<close>. \<open>Config.Validate\<close> succeeds exactly on the configurations in which every remote and branch is
  filed under its own name, has a name that makes a valid reference name, and is otherwise
  well formed; what it then changes is to give each remote without fetch refspecs the default
  one, which is itself valid. So validating again succeeds and changes nothing, and after a
  successful validation every remote has a fetch refspec.
\<close>

theorem Config_Validate_normalises:
  "(fst (Config_Validate c) = None \<longleftrightarrow> config_ok c) \<and>
   (config_ok c \<longrightarrow>
      Config_Validate c = (None, config_defaults c) \<and>
      Config_Validate (config_defaults c) = (None, config_defaults c) \<and>
      (\<forall>(n, r) \<in> set (cfg_Remotes (config_defaults c)).
         rc_Fetch r \<noteq> [] \<and> list_all (\<lambda>s. RefSpec_Validate s = Inr ()) (rc_Fetch r)))"
proof -
  have "config_ok c \<longleftrightarrow> fst (Config_Validate c) = None"
    using Config_Validate_None [of c] by (cases "Config_Validate c") auto
  moreover have "config_ok c \<Longrightarrow> (n, r) \<in> set (cfg_Remotes (config_defaults c)) \<Longrightarrow> remote_ok r \<and> rc_Fetch r \<noteq> []" for n r
    by (auto simp: config_ok_def config_defaults_def list_all_iff intro!: with_default_fetch_ok)
      (auto simp: with_default_fetch_def split: if_splits)
  ultimately show ?thesis
    by (auto simp: Config_Validate_None config_defaults_ok config_defaults_idem remote_ok_def)
qed

lemma Config_Validate_normalises_witness:
  "let c = NewConfig\<lparr>cfg_Remotes := [(''origin'', \<lparr>rc_Name = ''origin'', rc_URLs = [''u''], rc_Fetch = []\<rparr>)]\<rparr> in
   fst (Config_Validate c) = None \<and> Config_Validate (config_defaults c) = (None, config_defaults c)"
proof -
  let ?c = "NewConfig\<lparr>cfg_Remotes := [(''origin'', \<lparr>rc_Name = ''origin'', rc_URLs = [''u''], rc_Fetch = []\<rparr>)]\<rparr>"
  have "fst (Config_Validate ?c) = None" by code_simp
  with Config_Validate_normalises [of ?c] show ?thesis by (simp add: Let_def)
qed

end
