(* ===== verification/Repo_Storage.thy ===== *)
theory Repo_Storage
  imports Object_Storage Config_Validate
begin

text \<open>
  The rest of a repository's storage and the storage as a whole: the shallow, index, config and
  reflog storages in memory (\<open>storage/memory/storage.go\<close>), their transactional overlays
  (\<open>storage/transactional/shallow.go\<close>, \<open>index.go\<close>, \<open>config.go\<close>, \<open>reflog.go\<close>) and the transactional
  storage \<open>basic\<close> that puts the six overlays together (\<open>storage/transactional/storage.go\<close>).

  The index and the config overlay are the same code on two types of value and are both
  instances of one group of definitions. The overlays are over any operations; the contracts
  are locales, as for references and objects, and the in-memory storages satisfy them.
\<close>

subsection \<open>Shallow commits\<close>

record 's shallow_ops =
  op_SetShallow :: "ObjectID list \<Rightarrow> 's \<Rightarrow> storage_error option \<times> 's"
  op_Shallow :: "'s \<Rightarrow> storage_error + ObjectID list"

definition mem_SetShallow :: "ObjectID list \<Rightarrow> ObjectID list \<Rightarrow> storage_error option \<times> ObjectID list" where
  "mem_SetShallow commits s = (None, commits)"

definition mem_Shallow :: "ObjectID list \<Rightarrow> storage_error + ObjectID list" where
  "mem_Shallow s = Inr s"

definition mem_shallow_ops :: "ObjectID list shallow_ops" where
  "mem_shallow_ops = \<lparr>op_SetShallow = mem_SetShallow, op_Shallow = mem_Shallow\<rparr>"

definition stx_SetShallow :: "'t shallow_ops \<Rightarrow> ObjectID list \<Rightarrow> ('b, 't) overlay \<Rightarrow> storage_error option \<times> ('b, 't) overlay" where
  "stx_SetShallow tops commits s =
     (case op_SetShallow tops commits (ov_temporal s) of (err, t) \<Rightarrow> (err, s\<lparr>ov_temporal := t\<rparr>))"

definition stx_Shallow :: "'b shallow_ops \<Rightarrow> 't shallow_ops \<Rightarrow> ('b, 't) overlay \<Rightarrow> storage_error + ObjectID list" where
  "stx_Shallow bo tops s =
     rbind (op_Shallow tops (ov_temporal s)) (\<lambda>shallow.
     if length shallow \<noteq> 0 then Inr shallow else op_Shallow bo (ov_base s))"

definition stx_Commit :: "'b shallow_ops \<Rightarrow> 't shallow_ops \<Rightarrow> ('b, 't) overlay \<Rightarrow> storage_error option \<times> ('b, 't) overlay" where
  "stx_Commit bo tops s =
     (case op_Shallow tops (ov_temporal s) of
        Inl e \<Rightarrow> (Some e, s)
      | Inr commits \<Rightarrow>
          if length commits = 0 then (None, s)
          else case op_SetShallow bo commits (ov_base s) of (err, b) \<Rightarrow> (err, s\<lparr>ov_base := b\<rparr>))"

subsection \<open>Index and config\<close>

text \<open>A storage of one value: reading it may create the default value, so it returns the state.\<close>

record ('v, 'e, 's) value_ops =
  op_SetValue :: "'v \<Rightarrow> 's \<Rightarrow> 'e option \<times> 's"
  op_Value :: "'s \<Rightarrow> ('e + 'v) \<times> 's"




text \<open>
  An index: its version, the time \<open>SetIndex\<close> stamps it with, and the rest, entries and
  extensions, which the storages do not look at. \<open>now\<close> is the value of \<open>time.Now()\<close>.
\<close>

record 'x Index =
  idx_Version :: u32
  idx_ModTime :: int
  idx_contents :: 'x

definition mem_SetIndex :: "int \<Rightarrow> 'x Index \<Rightarrow> 'x Index option \<Rightarrow> storage_error option \<times> 'x Index option" where
  "mem_SetIndex now idx c = (let idx = idx\<lparr>idx_ModTime := now\<rparr> in (None, Some idx))"

definition mem_Index :: "'x \<Rightarrow> 'x Index option \<Rightarrow> (storage_error + 'x Index) \<times> 'x Index option" where
  "mem_Index no_contents c =
     (case c of
        None \<Rightarrow> let idx = \<lparr>idx_Version = 2, idx_ModTime = 0, idx_contents = no_contents\<rparr> in (Inr idx, Some idx)
      | Some idx \<Rightarrow> (Inr idx, c))"

definition mem_index_ops :: "int \<Rightarrow> 'x \<Rightarrow> ('x Index, storage_error, 'x Index option) value_ops" where
  "mem_index_ops now no_contents = \<lparr>op_SetValue = mem_SetIndex now, op_Value = mem_Index no_contents\<rparr>"








subsection \<open>Reflogs\<close>



















subsection \<open>The reflog contract\<close>








subsection \<open>The contract of a storage of one value\<close>

text \<open>What is stored is the value that the storage makes of the one it is given.\<close>

locale value_store =
  fixes ops :: "('v, 'e, 's) value_ops"
    and accepts :: "'v \<Rightarrow> bool"
    and norm :: "'v \<Rightarrow> 'v"
    and view :: "'s \<Rightarrow> 'v"
  assumes get_law: "\<exists>s'. op_Value ops s = (Inr (view s), s') \<and> view s' = view s"
    and set_law: "accepts v \<Longrightarrow> \<exists>s'. op_SetValue ops v s = (None, s') \<and> view s' = norm v"
    and refuse_law: "\<not> accepts v \<Longrightarrow> \<exists>e s'. op_SetValue ops v s = (Some e, s') \<and> view s' = view s"






definition index_view :: "'x \<Rightarrow> 'x Index option \<Rightarrow> 'x Index" where
  "index_view no_contents c =
     (case c of None \<Rightarrow> \<lparr>idx_Version = 2, idx_ModTime = 0, idx_contents = no_contents\<rparr> | Some idx \<Rightarrow> idx)"



interpretation mem_index: value_store "mem_index_ops now no_contents" "\<lambda>_. True" "\<lambda>i. i\<lparr>idx_ModTime := now\<rparr>"
  "index_view no_contents" for now no_contents
  by unfold_locales (auto simp: mem_index_ops_def mem_SetIndex_def mem_Index_def index_view_def Let_def split: option.splits)




subsection \<open>The transactional storage as a whole\<close>









subsection \<open>What a storage answers\<close>










subsection \<open>Updates\<close>




















lemma stx_Commit_ok:
  "stx_Commit mem_shallow_ops mem_shallow_ops s =
     (None, s\<lparr>ov_base := if ov_temporal s = [] then ov_base s else ov_temporal s\<rparr>)"
  by (simp add: stx_Commit_def mem_shallow_ops_def mem_Shallow_def mem_SetShallow_def)




subsection \<open>Properties\<close>





text \<open>
  Setting the shallow commits to none in a transaction has no effect: it succeeds, but the
  transaction still shows the commits of the base and \<open>Commit\<close> keeps them, although the same
  call on the base would remove them. A repository cannot be made complete in a transaction.
\<close>

theorem tx_SetShallow_empty_ignored:
  "let s = NewObjectStorage base []; (err, s1) = stx_SetShallow mem_shallow_ops [] s;
     (cerr, s2) = stx_Commit mem_shallow_ops mem_shallow_ops s1 in
   err = None \<and> stx_Shallow mem_shallow_ops mem_shallow_ops s1 = mem_Shallow base \<and>
   cerr = None \<and> mem_Shallow (ov_base s2) = mem_Shallow base \<and>
   mem_Shallow (snd (mem_SetShallow [] base)) = Inr []"
  by (simp add: stx_SetShallow_def stx_Shallow_def stx_Commit_ok NewObjectStorage_def mem_shallow_ops_def
      mem_SetShallow_def mem_Shallow_def Let_def)
    (simp add: stx_Commit_def mem_Shallow_def)

end
