(* ===== verification/Commit_Walk.thy ===== *)
theory Commit_Walk
  imports Object_Storage
begin

text \<open>
  Walking the commit history: the iterators of \<open>plumbing/object/commit_walker.go\<close> (pre-order,
  post-order, post-order along first parents), \<open>commit_walker_bfs.go\<close>,
  \<open>commit_walker_bfs_filtered.go\<close> and \<open>commit_walker_limit.go\<close>, with their common loop \<open>forEachCommit\<close>.

  A commit is its hash, the hashes of its parents and its committer date; a store is the list
  of the commits it holds, decoded, and \<open>GetCommit\<close> finds one by its hash. An iterator is a
  record, its \<open>Next\<close> a function on it. \<open>forEachCommit\<close> may run forever on an iterator that never
  ends, so it is a partial function; the closures passed to it may read the variables of the
  caller, so \<open>next\<close> gets them too.

  The contract of an iterator is the locale \<open>commit_walker\<close>: each commit delivered is new, and
  its successors are pending or seen afterwards. From it follows once that a walk ends and
  delivers each commit reachable from its start exactly once, avoiding those it was told to
  ignore; every iterator is an instance.
\<close>

record Commit =
  c_Hash :: ObjectID
  c_ParentHashes :: "ObjectID list"
  c_When :: int

type_synonym commit_store = "Commit list"

datatype walk_error = EOF | StoreError storage_error | ErrIsReachable

definition GetCommit :: "commit_store \<Rightarrow> ObjectID \<Rightarrow> storage_error + Commit" where
  "GetCommit s h = (case find (\<lambda>c. c_Hash c = h) s of None \<Rightarrow> Inl ErrObjectNotFound | Some c \<Rightarrow> Inr c)"

subsection \<open>The common loop (commit_walker.go)\<close>

partial_function (option) forEachCommit ::
    "('a \<Rightarrow> 'w \<Rightarrow> (walk_error + Commit) \<times> 'w) \<Rightarrow> (Commit \<Rightarrow> 'a \<Rightarrow> walk_error callback \<times> 'a) \<Rightarrow> 'w \<Rightarrow> 'a
     \<Rightarrow> (walk_error option \<times> 'a) option" where
  "forEachCommit nxt cb w a =
     (case nxt a w of
        (Inl err, w') \<Rightarrow> if err = EOF then Some (None, a) else Some (Some err, a)
      | (Inr c, w') \<Rightarrow>
          (case cb c a of
             (Continue, a') \<Rightarrow> forEachCommit nxt cb w' a'
           | (ErrStop, a') \<Rightarrow> Some (None, a')
           | (Fail e, a') \<Rightarrow> Some (Some e, a')))"

declare forEachCommit.simps [code]

subsection \<open>Breadth first (commit_walker_bfs.go)\<close>

record bfs_iter =
  bfs_seenExternal :: "ObjectID list"
  bfs_seen :: "ObjectID list"
  bfs_queue :: "Commit list"

definition NewCommitIterBSF :: "Commit \<Rightarrow> ObjectID list \<Rightarrow> ObjectID list \<Rightarrow> bfs_iter" where
  "NewCommitIterBSF c seenExternal ignore = \<lparr>bfs_seenExternal = seenExternal, bfs_seen = ignore, bfs_queue = [c]\<rparr>"

definition appendHash :: "commit_store \<Rightarrow> ObjectID \<Rightarrow> bfs_iter \<Rightarrow> storage_error option \<times> bfs_iter" where
  "appendHash s h w =
     (if h \<in> set (bfs_seen w) \<or> h \<in> set (bfs_seenExternal w) then (None, w)
      else case GetCommit s h of
             Inl err \<Rightarrow> (Some err, w)
           | Inr c \<Rightarrow> (None, w\<lparr>bfs_queue := bfs_queue w @ [c]\<rparr>))"

fun appendHashes :: "commit_store \<Rightarrow> ObjectID list \<Rightarrow> bfs_iter \<Rightarrow> storage_error option \<times> bfs_iter" where
  "appendHashes s [] w = (None, w)"
| "appendHashes s (h # hs) w =
     (case appendHash s h w of (Some err, w') \<Rightarrow> (Some err, w') | (None, w') \<Rightarrow> appendHashes s hs w')"

function bfs_Next :: "commit_store \<Rightarrow> bfs_iter \<Rightarrow> (walk_error + Commit) \<times> bfs_iter" where
  "bfs_Next s w =
     (case bfs_queue w of
        [] \<Rightarrow> (Inl EOF, w)
      | c # cs \<Rightarrow>
          let w = w\<lparr>bfs_queue := cs\<rparr>
          in if c_Hash c \<in> set (bfs_seen w) \<or> c_Hash c \<in> set (bfs_seenExternal w) then bfs_Next s w
             else let w = w\<lparr>bfs_seen := c_Hash c # bfs_seen w\<rparr>
                  in (case appendHashes s (c_ParentHashes c) w of
                        (Some err, w') \<Rightarrow> (Inl (StoreError err), w')
                      | (None, w') \<Rightarrow> (Inr c, w')))"
  by pat_completeness auto
termination by (relation "measure (\<lambda>(s, w). length (bfs_queue w))") auto

declare bfs_Next.simps [simp del]

subsection \<open>Pre-order (commit_walker.go)\<close>

text \<open>The stack holds, for each iterator over parents, the hashes it has still to look up.\<close>

record pre_iter =
  pre_seenExternal :: "ObjectID list"
  pre_seen :: "ObjectID list"
  pre_stack :: "ObjectID list list"
  pre_start :: "Commit option"

definition NewCommitPreorderIter :: "Commit \<Rightarrow> ObjectID list \<Rightarrow> ObjectID list \<Rightarrow> pre_iter" where
  "NewCommitPreorderIter c seenExternal ignore =
     \<lparr>pre_seenExternal = seenExternal, pre_seen = ignore, pre_stack = [], pre_start = Some c\<rparr>"

definition filteredParentIter :: "Commit \<Rightarrow> ObjectID list \<Rightarrow> ObjectID list" where
  "filteredParentIter c seen = filter (\<lambda>h. h \<notin> set seen) (c_ParentHashes c)"

text \<open>What \<open>Next\<close> does with a commit that it has not seen before.\<close>

definition pre_visit :: "Commit \<Rightarrow> pre_iter \<Rightarrow> pre_iter" where
  "pre_visit c w =
     (let w = w\<lparr>pre_seen := c_Hash c # pre_seen w\<rparr>
      in if length (c_ParentHashes c) > 0 then w\<lparr>pre_stack := filteredParentIter c (pre_seen w) # pre_stack w\<rparr> else w)"

function pre_Next :: "commit_store \<Rightarrow> pre_iter \<Rightarrow> (walk_error + Commit) \<times> pre_iter" where
  "pre_Next s w =
     (case pre_start w of
        Some c \<Rightarrow>
          let w = w\<lparr>pre_start := None\<rparr>
          in if c_Hash c \<in> set (pre_seen w) \<or> c_Hash c \<in> set (pre_seenExternal w) then pre_Next s w
             else (Inr c, pre_visit c w)
      | None \<Rightarrow>
          (case pre_stack w of
             [] \<Rightarrow> (Inl EOF, w)
           | [] # st \<Rightarrow> pre_Next s (w\<lparr>pre_stack := st\<rparr>)
           | (h # hs) # st \<Rightarrow>
               (case GetCommit s h of
                  Inl err \<Rightarrow> (Inl (StoreError err), w)
                | Inr c \<Rightarrow>
                    let w = w\<lparr>pre_stack := hs # st\<rparr>
                    in if c_Hash c \<in> set (pre_seen w) \<or> c_Hash c \<in> set (pre_seenExternal w) then pre_Next s w
                       else (Inr c, pre_visit c w))))"
  by pat_completeness auto
termination
  by (relation "measures [\<lambda>(s, w). if pre_start w = None then 0 else 1, \<lambda>(s, w). length (concat (pre_stack w)) + length (pre_stack w)]")
    auto

declare pre_Next.simps [simp del]

subsection \<open>Post-order (commit_walker.go)\<close>

record post_iter =
  post_stack :: "Commit list"
  post_seen :: "ObjectID list"

definition NewCommitPostorderIter :: "Commit \<Rightarrow> ObjectID list \<Rightarrow> post_iter" where
  "NewCommitPostorderIter c ignore = \<lparr>post_stack = [c], post_seen = ignore\<rparr>"

text \<open>\<open>c.Parents().ForEach\<close>: each parent is looked up and pushed, until one is missing. The top is the head.\<close>

fun push_parents :: "commit_store \<Rightarrow> ObjectID list \<Rightarrow> Commit list \<Rightarrow> storage_error option \<times> Commit list" where
  "push_parents s [] st = (None, st)"
| "push_parents s (h # hs) st =
     (case GetCommit s h of Inl err \<Rightarrow> (Some err, st) | Inr p \<Rightarrow> push_parents s hs (p # st))"

function post_Next :: "commit_store \<Rightarrow> post_iter \<Rightarrow> (walk_error + Commit) \<times> post_iter" where
  "post_Next s w =
     (case post_stack w of
        [] \<Rightarrow> (Inl EOF, w)
      | c # st \<Rightarrow>
          let w = w\<lparr>post_stack := st\<rparr>
          in if c_Hash c \<in> set (post_seen w) then post_Next s w
             else let w = w\<lparr>post_seen := c_Hash c # post_seen w\<rparr>
                  in (case push_parents s (c_ParentHashes c) (post_stack w) of
                        (Some err, st') \<Rightarrow> (Inl (StoreError err), w\<lparr>post_stack := st'\<rparr>)
                      | (None, st') \<Rightarrow> (Inr c, w\<lparr>post_stack := st'\<rparr>)))"
  by pat_completeness auto
termination by (relation "measure (\<lambda>(s, w). length (post_stack w))") auto

declare post_Next.simps [simp del]

text \<open>Along first parents: all parents are looked up, but only one is pushed.\<close>

fun push_first_parent :: "commit_store \<Rightarrow> Commit \<Rightarrow> ObjectID list \<Rightarrow> Commit list \<Rightarrow> storage_error option \<times> Commit list" where
  "push_first_parent s c [] st = (None, st)"
| "push_first_parent s c (h # hs) st =
     (case GetCommit s h of
        Inl err \<Rightarrow> (Some err, st)
      | Inr p \<Rightarrow> push_first_parent s c hs
          (if length (c_ParentHashes c) > 0 \<and> c_Hash p = hd (c_ParentHashes c) then p # st else st))"

function first_Next :: "commit_store \<Rightarrow> post_iter \<Rightarrow> (walk_error + Commit) \<times> post_iter" where
  "first_Next s w =
     (case post_stack w of
        [] \<Rightarrow> (Inl EOF, w)
      | c # st \<Rightarrow>
          let w = w\<lparr>post_stack := st\<rparr>
          in if c_Hash c \<in> set (post_seen w) then first_Next s w
             else let w = w\<lparr>post_seen := c_Hash c # post_seen w\<rparr>
                  in (case push_first_parent s c (c_ParentHashes c) (post_stack w) of
                        (Some err, st') \<Rightarrow> (Inl (StoreError err), w\<lparr>post_stack := st'\<rparr>)
                      | (None, st') \<Rightarrow> (Inr c, w\<lparr>post_stack := st'\<rparr>)))"
  by pat_completeness auto
termination by (relation "measure (\<lambda>(s, w). length (post_stack w))") auto

declare first_Next.simps [simp del]

subsection \<open>Breadth first with filters (commit_walker_bfs_filtered.go)\<close>

record filter_iter =
  fi_visited :: "ObjectID list"
  fi_queue :: "Commit list"
  fi_lastErr :: "walk_error option"

definition NewFilterCommitIter :: "Commit \<Rightarrow> filter_iter" where
  "NewFilterCommitIter from = \<lparr>fi_visited = [], fi_queue = [from], fi_lastErr = None\<rparr>"

definition fi_close :: "walk_error \<Rightarrow> filter_iter \<Rightarrow> filter_iter" where
  "fi_close err w = w\<lparr>fi_visited := [], fi_queue := [], fi_lastErr := Some err\<rparr>"

function popNewFromQueue :: "filter_iter \<Rightarrow> (walk_error + Commit) \<times> filter_iter" where
  "popNewFromQueue w =
     (case fi_queue w of
        [] \<Rightarrow> (case fi_lastErr w of Some e \<Rightarrow> (Inl e, w) | None \<Rightarrow> (Inl EOF, w))
      | first # q \<Rightarrow>
          let w = w\<lparr>fi_queue := q\<rparr>
          in if c_Hash first \<in> set (fi_visited w) then popNewFromQueue w else (Inr first, w))"
  by pat_completeness auto
termination by (relation "measure (\<lambda>w. length (fi_queue w))") auto

declare popNewFromQueue.simps [simp del]

fun addToQueue :: "commit_store \<Rightarrow> ObjectID list \<Rightarrow> filter_iter \<Rightarrow> storage_error option \<times> filter_iter" where
  "addToQueue s [] w = (None, w)"
| "addToQueue s (h # hs) w =
     (if h \<in> set (fi_visited w) then addToQueue s hs w
      else case GetCommit s h of
             Inl err \<Rightarrow> (Some err, w)
           | Inr c \<Rightarrow> addToQueue s hs (w\<lparr>fi_queue := fi_queue w @ [c]\<rparr>))"

text \<open>One round of the loop of \<open>Next\<close>, and the loop, which goes on until a commit is valid.\<close>

definition fi_round :: "commit_store \<Rightarrow> (Commit \<Rightarrow> bool) \<Rightarrow> filter_iter \<Rightarrow> (walk_error + Commit) \<times> filter_iter" where
  "fi_round s isLimit w =
     (case popNewFromQueue w of
        (Inl err, w) \<Rightarrow> (Inl err, fi_close err w)
      | (Inr c, w) \<Rightarrow>
          let w = w\<lparr>fi_visited := c_Hash c # fi_visited w\<rparr>
          in if \<not> isLimit c
             then (case addToQueue s (c_ParentHashes c) w of
                     (Some err, w) \<Rightarrow> (Inl (StoreError err), fi_close (StoreError err) w)
                   | (None, w) \<Rightarrow> (Inr c, w))
             else (Inr c, w))"

lemma GetCommit_stored: "GetCommit s h = Inr c \<Longrightarrow> c \<in> set s \<and> c_Hash c = h"
  by (auto simp: GetCommit_def find_Some_iff split: option.splits)

text \<open>A commit that the store holds under its hash.\<close>

definition stored :: "commit_store \<Rightarrow> Commit \<Rightarrow> bool" where
  "stored s c = (GetCommit s (c_Hash c) = Inr c)"

lemma GetCommit_Inr: "GetCommit s h = Inr c \<Longrightarrow> stored s c \<and> c_Hash c = h"
  using GetCommit_stored [of s h c] by (simp add: stored_def)

lemma stored_in: "stored s c \<Longrightarrow> c \<in> set s"
  using GetCommit_stored by (auto simp: stored_def)

lemma popNewFromQueue_Inr:
  "popNewFromQueue w = (Inr c, w') \<Longrightarrow>
     \<exists>pre. fi_queue w = pre @ c # fi_queue w' \<and> (\<forall>p \<in> set pre. c_Hash p \<in> set (fi_visited w)) \<and>
       c_Hash c \<notin> set (fi_visited w) \<and> fi_visited w' = fi_visited w \<and> fi_lastErr w' = fi_lastErr w"
proof (induction w rule: popNewFromQueue.induct)
  case (1 w)
  show ?case
  proof (cases "fi_queue w")
    case Nil
    with "1.prems" show ?thesis by (simp add: popNewFromQueue.simps [of w] split: option.splits)
  next
    case (Cons first q)
    show ?thesis
    proof (cases "c_Hash first \<in> set (fi_visited w)")
      case True
      with Cons "1.prems" have "popNewFromQueue (w\<lparr>fi_queue := q\<rparr>) = (Inr c, w')"
        by (simp add: popNewFromQueue.simps [of w])
      with "1.IH" [OF Cons refl] True obtain pre where "q = pre @ c # fi_queue w'"
        "\<forall>p \<in> set pre. c_Hash p \<in> set (fi_visited w)" "c_Hash c \<notin> set (fi_visited w)" "fi_visited w' = fi_visited w"
        "fi_lastErr w' = fi_lastErr w" by auto
      with True Cons show ?thesis by (intro exI [of _ "first # pre"]) simp
    next
      case False
      with Cons "1.prems" show ?thesis by (auto simp: popNewFromQueue.simps [of w])
    qed
  qed
qed

lemma addToQueue_frame:
  assumes "addToQueue s hs w = (r, w')"
  shows "fi_visited w' = fi_visited w \<and> fi_lastErr w' = fi_lastErr w \<and>
    (\<exists>cs. fi_queue w' = fi_queue w @ cs \<and> (\<forall>c \<in> set cs. stored s c) \<and> c_Hash ` set cs \<subseteq> set hs - set (fi_visited w))"
  using assms
proof (induction s hs w rule: addToQueue.induct)
  case (2 s h hs w)
  show ?case
  proof (cases "h \<in> set (fi_visited w)")
    case True
    then show ?thesis using 2 by auto
  next
    case False
    show ?thesis
    proof (cases "GetCommit s h")
      case (Inr c)
      let ?w = "w\<lparr>fi_queue := fi_queue w @ [c]\<rparr>"
      from "2.prems" False Inr have "addToQueue s hs ?w = (r, w')" by simp
      with "2.IH" False Inr obtain cs where "fi_visited w' = fi_visited w" "fi_lastErr w' = fi_lastErr w"
        "fi_queue w' = fi_queue ?w @ cs" "\<forall>c \<in> set cs. stored s c" "c_Hash ` set cs \<subseteq> set hs - set (fi_visited w)" by auto
      then show ?thesis using False GetCommit_Inr [OF Inr] by (intro conjI exI [of _ "c # cs"]) auto
    qed (use 2 False in auto)
  qed
qed auto

text \<open>The commits that a walk may still visit.\<close>

definition unvisited :: "commit_store \<Rightarrow> ObjectID list \<Rightarrow> Commit list \<Rightarrow> ObjectID set" where
  "unvisited s seen q = c_Hash ` (set s \<union> set q) - set seen"

lemma finite_unvisited [simp]: "finite (unvisited s seen q)" by (simp add: unvisited_def)

lemma unvisited_decreases:
  assumes "h \<in> unvisited s seen q" and "set q' \<subseteq> set s \<union> set q"
  shows "card (unvisited s (h # seen) q') < card (unvisited s seen q)"
proof (rule psubset_card_mono)
  show "unvisited s (h # seen) q' \<subset> unvisited s seen q" using assms by (auto simp: unvisited_def)
qed simp

lemma fi_round_Inr:
  assumes "fi_round s isLimit w = (Inr c, w')"
  shows "\<exists>pre q cs. fi_queue w = pre @ c # q \<and> (\<forall>p \<in> set pre. c_Hash p \<in> set (fi_visited w)) \<and>
    c_Hash c \<notin> set (fi_visited w) \<and> fi_visited w' = c_Hash c # fi_visited w \<and> fi_queue w' = q @ cs \<and>
    fi_lastErr w' = fi_lastErr w \<and> (\<forall>c \<in> set cs. stored s c) \<and> (isLimit c \<longrightarrow> cs = []) \<and>
    c_Hash ` set cs \<subseteq> set (c_ParentHashes c) - set (fi_visited w')"
proof -
  obtain w1 where p: "popNewFromQueue w = (Inr c, w1)"
    using assms by (auto simp: fi_round_def Let_def split: prod.splits sum.splits option.splits if_splits)
  let ?w = "w1\<lparr>fi_visited := c_Hash c # fi_visited w1\<rparr>"
  show ?thesis
  proof (cases "isLimit c")
    case True
    then have "w' = ?w" using assms p by (simp add: fi_round_def Let_def)
    from popNewFromQueue_Inr [OF p] obtain pre where
      "fi_queue w = pre @ c # fi_queue w1" "\<forall>p \<in> set pre. c_Hash p \<in> set (fi_visited w)" "c_Hash c \<notin> set (fi_visited w)"
      "fi_visited w1 = fi_visited w" "fi_lastErr w1 = fi_lastErr w" by blast
    with \<open>w' = ?w\<close> show ?thesis by (intro exI [of _ pre] exI [of _ "fi_queue w1"] exI [of _ "[]"]) simp
  next
    case False
    then have "addToQueue s (c_ParentHashes c) ?w = (None, w')"
      using assms p by (auto simp: fi_round_def Let_def split: prod.splits option.splits)
    from addToQueue_frame [OF this] popNewFromQueue_Inr [OF p] False show ?thesis by fastforce
  qed
qed

lemma fi_round_decreases:
  assumes "fi_round s isLimit w = (Inr c, w')"
  shows "card (unvisited s (fi_visited w') (fi_queue w')) < card (unvisited s (fi_visited w) (fi_queue w))"
proof -
  from fi_round_Inr [OF assms] obtain pre q cs where
    r: "fi_queue w = pre @ c # q" "c_Hash c \<notin> set (fi_visited w)" "fi_visited w' = c_Hash c # fi_visited w"
      "fi_queue w' = q @ cs" "\<forall>c \<in> set cs. stored s c" by blast
  then show ?thesis unfolding r(3) by (intro unvisited_decreases) (auto simp: unvisited_def dest: stored_in)
qed

function fi_Next :: "commit_store \<Rightarrow> (Commit \<Rightarrow> bool) \<Rightarrow> (Commit \<Rightarrow> bool) \<Rightarrow> filter_iter
    \<Rightarrow> (walk_error + Commit) \<times> filter_iter" where
  "fi_Next s isValid isLimit w =
     (case fi_round s isLimit w of
        (Inl err, w') \<Rightarrow> (Inl err, w')
      | (Inr c, w') \<Rightarrow> if isValid c then (Inr c, w') else fi_Next s isValid isLimit w')"
  by pat_completeness auto
termination
  by (relation "measure (\<lambda>(s, v, l, w). card (unvisited s (fi_visited w) (fi_queue w)))") (auto intro: fi_round_decreases [OF sym])

declare fi_Next.simps [simp del]

subsection \<open>Limits by date and by hash (commit_walker_limit.go)\<close>

record LogLimitOptions =
  Since :: "int option"
  Until :: "int option"
  TailHash :: ObjectID

text \<open>
  \<open>Next\<close> skips commits outside the dates. The second component of a commit delivered tells
  whether it is the tail, with which the code returns \<open>ErrStop\<close>. The source may never end.
\<close>

partial_function (option) limit_Next :: "('w \<Rightarrow> (walk_error + Commit) \<times> 'w) \<Rightarrow> LogLimitOptions \<Rightarrow> 'w
    \<Rightarrow> ((walk_error + Commit \<times> bool) \<times> 'w) option" where
  "limit_Next source opts w =
     (case source w of
        (Inl err, w') \<Rightarrow> Some (Inl err, w')
      | (Inr c, w') \<Rightarrow>
          if (case Since opts of None \<Rightarrow> False | Some t \<Rightarrow> c_When c < t) then limit_Next source opts w'
          else if (case Until opts of None \<Rightarrow> False | Some t \<Rightarrow> c_When c > t) then limit_Next source opts w'
          else if TailHash opts = c_Hash c then Some (Inr (c, True), w')
          else Some (Inr (c, False), w'))"


definition limit_outside :: "LogLimitOptions \<Rightarrow> Commit \<Rightarrow> bool" where
  "limit_outside opts c \<longleftrightarrow>
     (case Since opts of None \<Rightarrow> False | Some t \<Rightarrow> c_When c < t) \<or> (case Until opts of None \<Rightarrow> False | Some t \<Rightarrow> c_When c > t)"

text \<open>
  \<open>ForEach\<close> of the limited iterator. At the tail commit it returns nil whatever the callback
  answers.
\<close>

partial_function (option) limit_ForEach :: "('w \<Rightarrow> (walk_error + Commit) \<times> 'w) \<Rightarrow> LogLimitOptions
    \<Rightarrow> (Commit \<Rightarrow> 'a \<Rightarrow> walk_error callback \<times> 'a) \<Rightarrow> 'w \<Rightarrow> 'a \<Rightarrow> (walk_error option \<times> 'a) option" where
  "limit_ForEach source opts cb w a =
     (case limit_Next source opts w of
        None \<Rightarrow> None
      | Some (r, w') \<Rightarrow>
          (case r of
             Inl err \<Rightarrow> if err = EOF then Some (None, a) else Some (Some err, a)
           | Inr (c, tail) \<Rightarrow>
               (case cb c a of
                  (ErrStop, a') \<Rightarrow> Some (None, a')
                | (Continue, a') \<Rightarrow> if tail then Some (None, a') else limit_ForEach source opts cb w' a'
                | (Fail e, a') \<Rightarrow> if tail then Some (None, a') else Some (Some e, a'))))"

subsection \<open>Running a walk\<close>

text \<open>
  The rule for \<open>forEachCommit\<close>: an invariant of the iterator and the caller's variables, and a
  rank that every commit delivered lowers, give that the loop returns, and what it returns.
\<close>

lemma forEachCommit_rule:
  assumes "I w a"
    and step: "\<And>w a c w' a'. I w a \<Longrightarrow> nxt a w = (Inr c, w') \<Longrightarrow> cb c a = (Continue, a') \<Longrightarrow> I w' a' \<and> (rank w' :: nat) < rank w"
    and stop: "\<And>w a c w' a'. I w a \<Longrightarrow> nxt a w = (Inr c, w') \<Longrightarrow> cb c a = (ErrStop, a') \<Longrightarrow> Q None a'"
    and fail: "\<And>w a c w' a' e. I w a \<Longrightarrow> nxt a w = (Inr c, w') \<Longrightarrow> cb c a = (Fail e, a') \<Longrightarrow> Q (Some e) a'"
    and finish: "\<And>w a w'. I w a \<Longrightarrow> nxt a w = (Inl EOF, w') \<Longrightarrow> Q None a"
    and err: "\<And>w a w' e. I w a \<Longrightarrow> nxt a w = (Inl e, w') \<Longrightarrow> e \<noteq> EOF \<Longrightarrow> Q (Some e) a"
  shows "\<exists>r a'. forEachCommit nxt cb w a = Some (r, a') \<and> Q r a'"
  using \<open>I w a\<close>
proof (induction "rank w" arbitrary: w a rule: less_induct)
  case less
  obtain r w' where n: "nxt a w = (r, w')" by fastforce
  show ?case
  proof (cases r)
    case (Inl e)
    then show ?thesis using n finish [OF less.prems] err [OF less.prems]
      by (cases "e = EOF") (simp_all add: forEachCommit.simps [of nxt cb w a])
  next
    case (Inr c)
    obtain b a' where cb: "cb c a = (b, a')" by fastforce
    show ?thesis
    proof (cases b)
      case Continue
      from step [OF less.prems n [unfolded Inr] cb [unfolded Continue]]
      have "\<exists>r a''. forEachCommit nxt cb w' a' = Some (r, a'') \<and> Q r a''" using less.hyps by blast
      then show ?thesis using n cb Inr Continue by (simp add: forEachCommit.simps [of nxt cb w a])
    next
      case ErrStop
      then show ?thesis using stop [OF less.prems n [unfolded Inr] cb [unfolded ErrStop]] n cb Inr
        by (simp add: forEachCommit.simps [of nxt cb w a])
    next
      case (Fail e)
      then show ?thesis using fail [OF less.prems n [unfolded Inr] cb [unfolded Fail]] n cb Inr
        by (simp add: forEachCommit.simps [of nxt cb w a])
    qed
  qed
qed

text \<open>
  The commits reachable from a hash along \<open>succs\<close>, without entering the set \<open>B\<close>. A missing
  commit is reachable but leads nowhere.
\<close>

inductive reach :: "commit_store \<Rightarrow> (Commit \<Rightarrow> ObjectID list) \<Rightarrow> ObjectID set \<Rightarrow> ObjectID \<Rightarrow> ObjectID \<Rightarrow> bool"
  for s succs B where
  start: "h \<notin> B \<Longrightarrow> reach s succs B h h"
| parent: "reach s succs B h h1 \<Longrightarrow> GetCommit s h1 = Inr c \<Longrightarrow> h2 \<in> set (succs c) \<Longrightarrow> h2 \<notin> B \<Longrightarrow> reach s succs B h h2"

inductive_cases reachE: "reach s succs B h h'"

lemma reach_not_blocked: "reach s succs B h h' \<Longrightarrow> h' \<notin> B \<and> h \<notin> B"
  by (induction rule: reach.induct) auto

lemma reach_mono: "reach s succs B h h' \<Longrightarrow> B' \<subseteq> B \<Longrightarrow> reach s succs B' h h'"
  by (induction rule: reach.induct) (auto intro: reach.intros)

lemma reach_trans: "reach s succs B h2 h3 \<Longrightarrow> reach s succs B h1 h2 \<Longrightarrow> reach s succs B h1 h3"
  by (induction rule: reach.induct) (auto intro: reach.intros)

text \<open>What is reachable from a set of pending hashes.\<close>

definition reach_from :: "commit_store \<Rightarrow> (Commit \<Rightarrow> ObjectID list) \<Rightarrow> ObjectID set \<Rightarrow> ObjectID set \<Rightarrow> ObjectID set" where
  "reach_from s succs B P = {h. \<exists>p \<in> P. reach s succs B p h}"

lemma reach_from_empty: "P \<subseteq> B \<Longrightarrow> reach_from s succs B P = {}"
  by (auto simp: reach_from_def dest: reach_not_blocked)

text \<open>Taking a commit out of the pending ones: the rest is reachable from what is then pending.\<close>

lemma reach_from_step:
  assumes c: "GetCommit s (c_Hash c) = Inr c" "c_Hash c \<in> P" "c_Hash c \<notin> B"
    and B': "B' = insert (c_Hash c) B"
    and P': "P \<union> set (succs c) \<subseteq> P' \<union> B'" "P' \<subseteq> P \<union> set (succs c)"
  shows "reach_from s succs B P = insert (c_Hash c) (reach_from s succs B' P')"
proof (intro equalityI subsetI)
  fix h assume "h \<in> reach_from s succs B P"
  then obtain p where "reach s succs B p h" "p \<in> P" by (auto simp: reach_from_def)
  then show "h \<in> insert (c_Hash c) (reach_from s succs B' P')"
  proof (induction rule: reach.induct)
    case (start h)
    then show ?case using P'(1) B' by (auto simp: reach_from_def intro: reach.start)
  next
    case (parent h h1 c1 h2)
    have IH: "h1 = c_Hash c \<or> (\<exists>p \<in> P'. reach s succs B' p h1)" using parent by (auto simp: reach_from_def)
    show ?case
    proof (cases "h2 = c_Hash c")
      case False
      then have h2: "h2 \<notin> B'" using parent B' by simp
      from IH show ?thesis
      proof
        assume "h1 = c_Hash c"
        then have "c1 = c" using parent(2) c(1) by simp
        then have "h2 \<in> P'" using parent(3) P'(1) h2 by auto
        then show ?thesis using h2 by (auto simp: reach_from_def intro: reach.start)
      next
        assume "\<exists>p \<in> P'. reach s succs B' p h1"
        then show ?thesis using parent(2,3) h2 by (auto simp: reach_from_def intro: reach.parent)
      qed
    qed simp
  qed
next
  fix h assume h: "h \<in> insert (c_Hash c) (reach_from s succs B' P')"
  have self: "reach s succs B (c_Hash c) (c_Hash c)" using c(3) by (rule reach.start)
  show "h \<in> reach_from s succs B P"
  proof (cases "h = c_Hash c")
    case True
    then show ?thesis using self c(2) by (auto simp: reach_from_def)
  next
    case False
    then obtain p where p: "p \<in> P'" "reach s succs B' p h" using h by (auto simp: reach_from_def)
    then have ph: "reach s succs B p h" using B' by (auto intro: reach_mono)
    show ?thesis
    proof (cases "p \<in> P")
      case False
      then have "p \<in> set (succs c)" using p(1) P'(2) by auto
      then have "reach s succs B (c_Hash c) p" using reach.parent [OF self c(1)] reach_not_blocked [OF ph] by blast
      then show ?thesis using reach_trans [OF ph] c(2) by (auto simp: reach_from_def)
    qed (use ph in \<open>auto simp: reach_from_def\<close>)
  qed
qed


subsection \<open>The contract of an iterator\<close>

definition ancestor :: "commit_store \<Rightarrow> ObjectID \<Rightarrow> ObjectID \<Rightarrow> bool" where
  "ancestor s h h' = reach s c_ParentHashes {} h h'"

definition complete_history :: "commit_store \<Rightarrow> ObjectID \<Rightarrow> bool" where
  "complete_history s h = (\<forall>h'. ancestor s h h' \<longrightarrow> (\<exists>c. GetCommit s h' = Inr c))"

lemma ancestor_refl: "ancestor s h h" by (simp add: ancestor_def reach.start)

lemma ancestor_parent: "ancestor s h (c_Hash c) \<Longrightarrow> stored s c \<Longrightarrow> p \<in> set (c_ParentHashes c) \<Longrightarrow> ancestor s h p"
  unfolding ancestor_def stored_def by (rule reach.parent) simp_all

lemma ancestor_trans: "ancestor s h1 h2 \<Longrightarrow> ancestor s h2 h3 \<Longrightarrow> ancestor s h1 h3"
  unfolding ancestor_def by (rule reach_trans)

lemma complete_ancestor: "complete_history s h \<Longrightarrow> ancestor s h h' \<Longrightarrow> complete_history s h'"
  unfolding complete_history_def using ancestor_trans by blast

definition missing :: "commit_store \<Rightarrow> ObjectID \<Rightarrow> walk_error \<Rightarrow> bool" where
  "missing s orig e = (\<exists>h err. e = StoreError err \<and> ancestor s orig h \<and> GetCommit s h = Inl err)"

lemma complete_not_missing: "complete_history s orig \<Longrightarrow> \<not> missing s orig e"
  by (fastforce simp: complete_history_def missing_def)

text \<open>Collecting the commits of a walk that satisfy a predicate.\<close>

definition collect_if :: "(Commit \<Rightarrow> bool) \<Rightarrow> Commit \<Rightarrow> Commit list \<Rightarrow> walk_error callback \<times> Commit list" where
  "collect_if v c acc = (Continue, if v c then acc @ [c] else acc)"

definition collect :: "Commit \<Rightarrow> Commit list \<Rightarrow> walk_error callback \<times> Commit list" where
  "collect c acc = (Continue, acc @ [c])"

lemma collect_all: "collect = collect_if (\<lambda>_. True)" by (simp add: fun_eq_iff collect_def collect_if_def)

locale commit_walker =
  fixes s :: commit_store
    and orig :: ObjectID
    and succs :: "Commit \<Rightarrow> ObjectID list"
    and nxt :: "'w \<Rightarrow> (walk_error + Commit) \<times> 'w"
    and inv :: "'w \<Rightarrow> bool"
    and seen :: "'w \<Rightarrow> ObjectID set"
    and pending :: "'w \<Rightarrow> ObjectID set"
  assumes delivers: "inv w \<Longrightarrow> nxt w = (Inr c, w') \<Longrightarrow>
      inv w' \<and> stored s c \<and> c_Hash c \<in> pending w \<and> c_Hash c \<notin> seen w \<and> seen w' = insert (c_Hash c) (seen w) \<and>
      pending w \<union> set (succs c) \<subseteq> pending w' \<union> seen w' \<and> pending w' \<subseteq> pending w \<union> set (succs c)"
    and ends: "inv w \<Longrightarrow> nxt w = (Inl EOF, w') \<Longrightarrow> pending w \<subseteq> seen w"
    and fails: "inv w \<Longrightarrow> nxt w = (Inl e, w') \<Longrightarrow> e \<noteq> EOF \<Longrightarrow> missing s orig e"
begin

definition rank :: "'w \<Rightarrow> nat" where "rank w = card (c_Hash ` set s - seen w)"

lemma rank_decreases:
  assumes "inv w" and "nxt w = (Inr c, w')"
  shows "rank w' < rank w"
  unfolding rank_def
proof (rule psubset_card_mono)
  have "stored s c" "c_Hash c \<notin> seen w" "seen w' = insert (c_Hash c) (seen w)" using delivers [OF assms] by blast+
  then show "c_Hash ` set s - seen w' \<subset> c_Hash ` set s - seen w" using stored_in by fastforce
qed simp

lemma reach_from_delivers:
  assumes "inv w" and "nxt w = (Inr c, w')"
  shows "reach_from s succs (seen w) (pending w) = insert (c_Hash c) (reach_from s succs (seen w') (pending w'))"
  using delivers [OF assms] unfolding stored_def by (intro reach_from_step) blast+

text \<open>
  A walk ends; without an error it has delivered each commit reachable from the pending ones
  once, and they are all in the store.
\<close>

definition delivered :: "'w \<Rightarrow> (Commit \<Rightarrow> bool) \<Rightarrow> Commit list \<Rightarrow> bool" where
  "delivered w v cs \<longleftrightarrow> distinct (map c_Hash cs) \<and>
     set cs = {c. stored s c \<and> v c \<and> c_Hash c \<in> reach_from s succs (seen w) (pending w)} \<and>
     reach_from s succs (seen w) (pending w) \<subseteq> c_Hash ` {c. stored s c}"

text \<open>During the walk: \<open>V\<close> are the hashes delivered so far.\<close>

definition walking :: "'w \<Rightarrow> (Commit \<Rightarrow> bool) \<Rightarrow> ObjectID set \<Rightarrow> 'w \<Rightarrow> Commit list \<Rightarrow> bool" where
  "walking w v V w' cs \<longleftrightarrow> inv w' \<and> distinct (map c_Hash cs) \<and> V \<subseteq> seen w' \<and> V \<subseteq> c_Hash ` {c. stored s c} \<and>
     set cs = {c. stored s c \<and> v c \<and> c_Hash c \<in> V} \<and>
     V \<union> reach_from s succs (seen w') (pending w') = reach_from s succs (seen w) (pending w)"

lemma walking_step:
  assumes w: "walking w v V w1 cs" and n: "nxt w1 = (Inr c, w2)"
  shows "walking w v (insert (c_Hash c) V) w2 (if v c then cs @ [c] else cs)"
proof -
  have i: "inv w1" using w by (simp add: walking_def)
  have c: "stored s c" "c_Hash c \<notin> seen w1" "seen w2 = insert (c_Hash c) (seen w1)" "inv w2"
    using delivers [OF i n] by blast+
  have same: "stored s x \<and> c_Hash x = c_Hash c \<longleftrightarrow> x = c" for x using c(1) by (auto simp: stored_def)
  have V: "V \<subseteq> seen w1" "V \<subseteq> c_Hash ` {c. stored s c}" "set cs = {c. stored s c \<and> v c \<and> c_Hash c \<in> V}" "distinct (map c_Hash cs)"
    "V \<union> reach_from s succs (seen w1) (pending w1) = reach_from s succs (seen w) (pending w)"
    using w unfolding walking_def by blast+
  have new: "c_Hash c \<notin> V" using V(1) c(2) by blast
  have "{x. stored s x \<and> v x \<and> c_Hash x \<in> insert (c_Hash c) V} = (if v c then insert c (set cs) else set cs)"
  proof -
    have "{x. stored s x \<and> v x \<and> c_Hash x \<in> insert (c_Hash c) V} = {x. (stored s x \<and> c_Hash x = c_Hash c) \<and> v x} \<union> set cs"
      unfolding V(3) by blast
    also have "{x. (stored s x \<and> c_Hash x = c_Hash c) \<and> v x} = (if v c then {c} else {})" unfolding same by auto
    finally show ?thesis by simp
  qed
  then have "set (if v c then cs @ [c] else cs) = {x. stored s x \<and> v x \<and> c_Hash x \<in> insert (c_Hash c) V}" by simp
  moreover have "c_Hash c \<notin> c_Hash ` set cs" unfolding V(3) using new by auto
  then have "distinct (map c_Hash (if v c then cs @ [c] else cs))" using V(4) by simp
  moreover have "insert (c_Hash c) V \<union> reach_from s succs (seen w2) (pending w2) = reach_from s succs (seen w) (pending w)"
    using V(5) reach_from_delivers [OF i n] by simp
  moreover have "insert (c_Hash c) V \<subseteq> seen w2" "insert (c_Hash c) V \<subseteq> c_Hash ` {c. stored s c}"
    using V(1,2) c(1,3) by auto
  moreover note c(4)
  ultimately show ?thesis unfolding walking_def by simp
qed

lemma walk:
  assumes "inv w"
  shows "\<exists>r cs. forEachCommit (\<lambda>_. nxt) (collect_if v) w [] = Some (r, cs) \<and>
    (case r of None \<Rightarrow> delivered w v cs | Some e \<Rightarrow> missing s orig e)"
proof (rule forEachCommit_rule [where rank = rank and I = "\<lambda>w' cs. \<exists>V. walking w v V w' cs"])
  show "\<exists>V. walking w v V w []" by (rule exI [of _ "{}"]) (simp add: walking_def assms)
next
  fix w1 cs c w2 cs'
  assume I: "\<exists>V. walking w v V w1 cs" and n: "nxt w1 = (Inr c, w2)" and cb: "collect_if v c cs = (Continue, cs')"
  from I obtain V where V: "walking w v V w1 cs" by blast
  have "cs' = (if v c then cs @ [c] else cs)" using cb by (simp add: collect_if_def)
  then have "\<exists>V. walking w v V w2 cs'" using walking_step [OF V n] by blast
  moreover have "rank w2 < rank w1" using V rank_decreases [OF _ n] unfolding walking_def by blast
  ultimately show "(\<exists>V. walking w v V w2 cs') \<and> rank w2 < rank w1" by simp
next
  fix w1 cs w2
  assume "\<exists>V. walking w v V w1 cs" and n: "nxt w1 = (Inl EOF, w2)"
  then obtain V where V: "walking w v V w1 cs" by blast
  have "pending w1 \<subseteq> seen w1" using V ends [OF _ n] unfolding walking_def by blast
  from reach_from_empty [OF this] have "V = reach_from s succs (seen w) (pending w)"
    using V unfolding walking_def by simp
  then show "case None of None \<Rightarrow> delivered w v cs | Some e \<Rightarrow> missing s orig e"
    using V by (simp add: walking_def delivered_def)
next
  fix w1 cs w2 e
  assume "\<exists>V. walking w v V w1 cs" and n: "nxt w1 = (Inl e, w2)" "e \<noteq> EOF"
  then show "case Some e of None \<Rightarrow> delivered w v cs | Some e \<Rightarrow> missing s orig e"
    using fails [OF _ n] unfolding walking_def by auto
qed (simp_all add: collect_if_def)

lemma complete_walk:
  assumes "inv w" and "complete_history s orig"
  obtains cs where "forEachCommit (\<lambda>_. nxt) (collect_if v) w [] = Some (None, cs)" and "delivered w v cs"
  using walk [OF assms(1), of v] complete_not_missing [OF assms(2)] by (auto split: option.splits)

lemma complete_walk_all:
  assumes "inv w" and "complete_history s orig"
  shows "\<exists>cs. forEachCommit (\<lambda>_. nxt) collect w [] = Some (None, cs) \<and> distinct (map c_Hash cs) \<and>
    (\<forall>c \<in> set cs. stored s c) \<and> c_Hash ` set cs = reach_from s succs (seen w) (pending w)"
proof -
  from complete_walk [OF assms, of "\<lambda>_. True"] obtain cs where
    "forEachCommit (\<lambda>_. nxt) collect w [] = Some (None, cs)" "delivered w (\<lambda>_. True) cs" by (auto simp: collect_all)
  then show ?thesis by (intro exI [of _ cs]) (auto simp: delivered_def)
qed

end

subsection \<open>Limits\<close>

text \<open>The commits up to the first with a given hash, that one included.\<close>

fun up_to :: "ObjectID \<Rightarrow> Commit list \<Rightarrow> Commit list" where
  "up_to t [] = []"
| "up_to t (c # cs) = (if t = c_Hash c then [c] else c # up_to t cs)"

lemma limit_Next_skip:
  assumes "source w = (Inr c, w')" and "limit_outside opts c"
  shows "limit_Next source opts w = limit_Next source opts w'"
  using assms by (auto simp: limit_Next.simps [of source opts w] limit_outside_def)

lemma limit_Next_found:
  assumes "source w = (Inr c, w')" and "\<not> limit_outside opts c"
  shows "limit_Next source opts w = Some (Inr (c, TailHash opts = c_Hash c), w')"
  using assms by (auto simp: limit_Next.simps [of source opts w] limit_outside_def)

context commit_walker
begin

lemma limited_walk:
  assumes "inv w" and "forEachCommit (\<lambda>_. nxt) collect w acc = Some (None, all)"
  shows "\<exists>cs. all = acc @ cs \<and>
    (\<forall>acc'. limit_ForEach nxt opts collect w acc' = Some (None, acc' @ up_to (TailHash opts) (filter (\<lambda>c. \<not> limit_outside opts c) cs)))"
  using assms
proof (induction "rank w" arbitrary: w acc rule: less_induct)
  case less
  obtain r w' where n: "nxt w = (r, w')" by fastforce
  show ?case
  proof (cases r)
    case (Inl e)
    then have e: "e = EOF" "all = acc"
      using less.prems(2) n by (auto simp: forEachCommit.simps [of _ _ w acc] split: if_splits)
    then have "limit_ForEach nxt opts collect w acc' = Some (None, acc')" for acc'
      using n Inl by (simp add: limit_ForEach.simps [of nxt opts collect w] limit_Next.simps [of nxt opts w])
    then show ?thesis using e by (intro exI [of _ "[]"]) simp
  next
    case (Inr c)
    note n = n [unfolded Inr]
    have "forEachCommit (\<lambda>_. nxt) collect w' (acc @ [c]) = Some (None, all)"
      using less.prems(2) n by (simp add: forEachCommit.simps [of _ _ w acc] collect_def)
    from less.hyps [OF rank_decreases [OF less.prems(1) n] _ this] delivers [OF less.prems(1) n] obtain cs where
      cs: "all = (acc @ [c]) @ cs" "\<And>acc'. limit_ForEach nxt opts collect w' acc' =
        Some (None, acc' @ up_to (TailHash opts) (filter (\<lambda>c. \<not> limit_outside opts c) cs))" by blast
    have "limit_ForEach nxt opts collect w acc' =
        Some (None, acc' @ up_to (TailHash opts) (filter (\<lambda>c. \<not> limit_outside opts c) (c # cs)))" for acc'
    proof (cases "limit_outside opts c")
      case True
      then have "limit_ForEach nxt opts collect w acc' = limit_ForEach nxt opts collect w' acc'"
        by (simp add: limit_ForEach.simps [of nxt opts collect w] limit_ForEach.simps [of nxt opts collect w']
            limit_Next_skip [of nxt, OF n True])
      then show ?thesis using True cs(2) by simp
    next
      case False
      then show ?thesis using cs(2)
        by (simp add: limit_ForEach.simps [of nxt opts collect w] limit_Next_found [of nxt, OF n False] collect_def)
    qed
    then show ?thesis using cs(1) by (intro exI [of _ "c # cs"]) simp
  qed
qed

end

subsection \<open>The iterators meet it\<close>

lemma dropWhile_Cons_split:
  assumes "dropWhile P xs = y # ys"
  shows "\<exists>pre. xs = pre @ y # ys \<and> (\<forall>x \<in> set pre. P x) \<and> \<not> P y"
  using assms by (metis hd_dropWhile list.distinct(1) list.sel(1) set_takeWhileD takeWhile_dropWhile_id)

text \<open>The breadth-first walk.\<close>

definition bfs_blocked :: "bfs_iter \<Rightarrow> ObjectID set" where
  "bfs_blocked w = set (bfs_seen w) \<union> set (bfs_seenExternal w)"

definition bfs_pending :: "bfs_iter \<Rightarrow> ObjectID set" where
  "bfs_pending w = c_Hash ` set (bfs_queue w)"

definition bfs_inv :: "commit_store \<Rightarrow> ObjectID \<Rightarrow> bfs_iter \<Rightarrow> bool" where
  "bfs_inv s orig w = (\<forall>c \<in> set (bfs_queue w). stored s c \<and> ancestor s orig (c_Hash c))"

lemma bfs_Next_unfold:
  "bfs_Next s w =
     (case dropWhile (\<lambda>c. c_Hash c \<in> bfs_blocked w) (bfs_queue w) of
        [] \<Rightarrow> (Inl EOF, w\<lparr>bfs_queue := []\<rparr>)
      | c # cs \<Rightarrow>
          (case appendHashes s (c_ParentHashes c) (w\<lparr>bfs_queue := cs, bfs_seen := c_Hash c # bfs_seen w\<rparr>) of
             (Some err, w') \<Rightarrow> (Inl (StoreError err), w')
           | (None, w') \<Rightarrow> (Inr c, w')))"
proof (induction s w rule: bfs_Next.induct)
  case (1 s w)
  show ?case
  proof (cases "bfs_queue w")
    case (Cons c cs)
    have b: "bfs_blocked (w\<lparr>bfs_queue := cs\<rparr>) = bfs_blocked w"
      "c_Hash c \<in> set (bfs_seen w) \<or> c_Hash c \<in> set (bfs_seenExternal w) \<longleftrightarrow> c_Hash c \<in> bfs_blocked w"
      by (simp_all add: bfs_blocked_def)
    show ?thesis using "1.IH" [OF Cons refl] Cons
      by (cases "dropWhile (\<lambda>c. c_Hash c \<in> bfs_blocked w) cs")
        (auto simp: bfs_Next.simps [of s w] b Let_def simp del: dropWhile_eq_Nil_conv)
  qed (auto simp: bfs_Next.simps [of s w])
qed

lemma appendHashes_frame:
  assumes "appendHashes s hs w = (r, w')"
  shows "bfs_seen w' = bfs_seen w \<and> bfs_seenExternal w' = bfs_seenExternal w \<and>
    (\<exists>cs. bfs_queue w' = bfs_queue w @ cs \<and> (\<forall>c \<in> set cs. stored s c \<and> c_Hash c \<in> set hs) \<and>
      (r = None \<longrightarrow> set hs \<subseteq> c_Hash ` set cs \<union> bfs_blocked w)) \<and>
    (\<forall>e. r = Some e \<longrightarrow> (\<exists>h \<in> set hs. GetCommit s h = Inl e))"
  using assms
proof (induction s hs w rule: appendHashes.induct)
  case (2 s h hs w)
  obtain r1 w1 where a: "appendHash s h w = (r1, w1)" by fastforce
  show ?case
  proof (cases r1)
    case None
    with 2 a have IH: "bfs_seen w' = bfs_seen w1 \<and> bfs_seenExternal w' = bfs_seenExternal w1 \<and>
        (\<exists>cs. bfs_queue w' = bfs_queue w1 @ cs \<and> (\<forall>c \<in> set cs. stored s c \<and> c_Hash c \<in> set hs) \<and>
          (r = None \<longrightarrow> set hs \<subseteq> c_Hash ` set cs \<union> bfs_blocked w1)) \<and>
        (\<forall>e. r = Some e \<longrightarrow> (\<exists>h \<in> set hs. GetCommit s h = Inl e))" by simp
    from a None consider "h \<in> bfs_blocked w" "w1 = w"
      | c where "GetCommit s h = Inr c" "w1 = w\<lparr>bfs_queue := bfs_queue w @ [c]\<rparr>"
      by (auto simp: appendHash_def bfs_blocked_def split: if_splits sum.splits)
    then show ?thesis
    proof cases
      case 1
      with IH show ?thesis by fastforce
    next
      case (2 c)
      note c = GetCommit_Inr [OF 2(1)]
      from IH 2(2) obtain cs where cs: "bfs_queue w' = (bfs_queue w @ [c]) @ cs" "\<forall>c \<in> set cs. stored s c \<and> c_Hash c \<in> set hs"
        "r = None \<longrightarrow> set hs \<subseteq> c_Hash ` set cs \<union> bfs_blocked w" by (auto simp: bfs_blocked_def)
      have "\<exists>cs. bfs_queue w' = bfs_queue w @ cs \<and> (\<forall>c \<in> set cs. stored s c \<and> c_Hash c \<in> set (h # hs)) \<and>
          (r = None \<longrightarrow> set (h # hs) \<subseteq> c_Hash ` set cs \<union> bfs_blocked w)"
        by (rule exI [of _ "c # cs"]) (use cs c in auto)
      then show ?thesis using IH 2(2) by auto
    qed
  next
    case (Some e)
    with 2 a show ?thesis by (auto simp: appendHash_def split: if_splits sum.splits)
  qed
qed (auto simp: bfs_blocked_def)

interpretation bfs: commit_walker s orig c_ParentHashes "bfs_Next s" "bfs_inv s orig" bfs_blocked bfs_pending for s orig
proof unfold_locales
  fix w c w'
  assume inv: "bfs_inv s orig w" and n: "bfs_Next s w = (Inr c, w')"
  from n obtain cs where d: "dropWhile (\<lambda>c. c_Hash c \<in> bfs_blocked w) (bfs_queue w) = c # cs"
    and a: "appendHashes s (c_ParentHashes c) (w\<lparr>bfs_queue := cs, bfs_seen := c_Hash c # bfs_seen w\<rparr>) = (None, w')"
    by (auto simp: bfs_Next_unfold split: list.splits prod.splits option.splits)
  from dropWhile_Cons_split [OF d] obtain pre where
    q: "bfs_queue w = pre @ c # cs" "\<forall>x \<in> set pre. c_Hash x \<in> bfs_blocked w" "c_Hash c \<notin> bfs_blocked w" by blast
  from appendHashes_frame [OF a] obtain new where
    w': "bfs_blocked w' = insert (c_Hash c) (bfs_blocked w)" "bfs_queue w' = cs @ new"
      "\<forall>x \<in> set new. stored s x \<and> c_Hash x \<in> set (c_ParentHashes c)"
      "set (c_ParentHashes c) \<subseteq> c_Hash ` set new \<union> bfs_blocked w'" by (auto simp: bfs_blocked_def)
  have "stored s c" "ancestor s orig (c_Hash c)" using inv q(1) by (auto simp: bfs_inv_def)
  moreover have "bfs_inv s orig w'"
    using inv q(1) w'(2,3) ancestor_parent [OF calculation(2,1)] by (auto simp: bfs_inv_def)
  ultimately show "bfs_inv s orig w' \<and> stored s c \<and> c_Hash c \<in> bfs_pending w \<and> c_Hash c \<notin> bfs_blocked w \<and>
      bfs_blocked w' = insert (c_Hash c) (bfs_blocked w) \<and>
      bfs_pending w \<union> set (c_ParentHashes c) \<subseteq> bfs_pending w' \<union> bfs_blocked w' \<and>
      bfs_pending w' \<subseteq> bfs_pending w \<union> set (c_ParentHashes c)"
    using q w' by (auto simp: bfs_pending_def)
next
  fix w w'
  assume "bfs_Next s w = (Inl EOF, w')"
  then have "dropWhile (\<lambda>c. c_Hash c \<in> bfs_blocked w) (bfs_queue w) = []"
    by (auto simp: bfs_Next_unfold split: list.splits prod.splits option.splits)
  then show "bfs_pending w \<subseteq> bfs_blocked w" by (auto simp: bfs_pending_def dropWhile_eq_Nil_conv)
next
  fix w e w'
  assume inv: "bfs_inv s orig w" and n: "bfs_Next s w = (Inl e, w')" "e \<noteq> EOF"
  from n obtain c cs err where d: "dropWhile (\<lambda>c. c_Hash c \<in> bfs_blocked w) (bfs_queue w) = c # cs" "e = StoreError err"
    and a: "appendHashes s (c_ParentHashes c) (w\<lparr>bfs_queue := cs, bfs_seen := c_Hash c # bfs_seen w\<rparr>) = (Some err, w')"
    by (auto simp: bfs_Next_unfold split: list.splits prod.splits option.splits)
  from appendHashes_frame [OF a] obtain h where "h \<in> set (c_ParentHashes c)" "GetCommit s h = Inl err" by blast
  moreover have "c \<in> set (bfs_queue w)" using dropWhile_Cons_split [OF d(1)] by auto
  then have "stored s c" "ancestor s orig (c_Hash c)" using inv by (auto simp: bfs_inv_def)
  ultimately show "missing s orig e" unfolding missing_def d(2) by (metis ancestor_parent)
qed


text \<open>The breadth-first walk with a limit, round by round: the successors of a commit at the limit do not count.\<close>

definition limited :: "(Commit \<Rightarrow> bool) \<Rightarrow> Commit \<Rightarrow> ObjectID list" where
  "limited isLimit c = (if isLimit c then [] else c_ParentHashes c)"

definition fi_seen :: "filter_iter \<Rightarrow> ObjectID set" where "fi_seen w = set (fi_visited w)"

definition fi_pending :: "filter_iter \<Rightarrow> ObjectID set" where "fi_pending w = c_Hash ` set (fi_queue w)"

definition fi_inv :: "commit_store \<Rightarrow> ObjectID \<Rightarrow> filter_iter \<Rightarrow> bool" where
  "fi_inv s orig w = (fi_lastErr w = None \<and> (\<forall>c \<in> set (fi_queue w). stored s c \<and> ancestor s orig (c_Hash c)))"

lemma popNewFromQueue_Inl:
  "popNewFromQueue w = (Inl e, w') \<Longrightarrow> fi_lastErr w = None \<Longrightarrow> e = EOF \<and> fi_pending w \<subseteq> fi_seen w"
proof (induction w rule: popNewFromQueue.induct)
  case (1 w)
  show ?case
  proof (cases "fi_queue w")
    case Nil
    with "1.prems" show ?thesis by (simp add: popNewFromQueue.simps [of w] fi_pending_def)
  next
    case (Cons first q)
    then have h: "c_Hash first \<in> set (fi_visited w)" "popNewFromQueue (w\<lparr>fi_queue := q\<rparr>) = (Inl e, w')"
      using "1.prems" by (auto simp: popNewFromQueue.simps [of w] Let_def split: if_splits)
    then show ?thesis using "1.IH" [OF Cons refl] "1.prems"(2) Cons by (simp add: fi_pending_def fi_seen_def)
  qed
qed

lemma addToQueue_result:
  assumes "addToQueue s hs w = (r, w')"
  shows "case r of None \<Rightarrow> set hs \<subseteq> fi_pending w' \<union> fi_seen w' | Some e \<Rightarrow> \<exists>h \<in> set hs. GetCommit s h = Inl e"
  using assms
proof (induction s hs w rule: addToQueue.induct)
  case (2 s h hs w)
  show ?case
  proof (cases "h \<in> set (fi_visited w)")
    case True
    then have a: "addToQueue s hs w = (r, w')" using "2.prems" by simp
    with "2.IH"(1) [OF True] True addToQueue_frame [OF a] show ?thesis by (auto simp: fi_seen_def split: option.splits)
  next
    case False
    show ?thesis
    proof (cases "GetCommit s h")
      case (Inr c)
      then have a: "addToQueue s hs (w\<lparr>fi_queue := fi_queue w @ [c]\<rparr>) = (r, w')" using "2.prems" False by simp
      have "c_Hash c = h" using GetCommit_Inr [OF Inr] by simp
      with "2.IH"(2) [OF False Inr a] addToQueue_frame [OF a] show ?thesis
        by (auto simp: fi_pending_def split: option.splits)
    qed (use 2 False in auto)
  qed
qed auto

lemma fi_round_None:
  assumes "fi_round s isLimit w = (Inr c, w')"
  shows "set (limited isLimit c) \<subseteq> fi_pending w' \<union> fi_seen w'"
proof (cases "isLimit c")
  case False
  then obtain w1 where "addToQueue s (c_ParentHashes c) w1 = (None, w')"
    using assms by (auto simp: fi_round_def Let_def split: prod.splits sum.splits option.splits if_splits)
  from addToQueue_result [OF this] False show ?thesis by (simp add: limited_def)
qed (simp add: limited_def)

interpretation fi: commit_walker s orig "limited isLimit" "fi_round s isLimit" "fi_inv s orig" fi_seen fi_pending
  for s orig isLimit
proof unfold_locales
  fix w c w'
  assume inv: "fi_inv s orig w" and n: "fi_round s isLimit w = (Inr c, w')"
  from fi_round_Inr [OF n] obtain pre q cs where
    r: "fi_queue w = pre @ c # q" "\<forall>p \<in> set pre. c_Hash p \<in> set (fi_visited w)" "c_Hash c \<notin> set (fi_visited w)"
      "fi_visited w' = c_Hash c # fi_visited w" "fi_queue w' = q @ cs" "fi_lastErr w' = fi_lastErr w"
      "\<forall>c \<in> set cs. stored s c" "isLimit c \<longrightarrow> cs = []" "c_Hash ` set cs \<subseteq> set (c_ParentHashes c) - set (fi_visited w')" by blast
  have c: "stored s c" "ancestor s orig (c_Hash c)" using inv r(1) by (auto simp: fi_inv_def)
  have "ancestor s orig (c_Hash x)" if "x \<in> set cs" for x
    using that r(9) ancestor_parent [OF c(2,1)] by blast
  then have "fi_inv s orig w'" using inv r by (auto simp: fi_inv_def)
  moreover have "fi_pending w' \<subseteq> fi_pending w \<union> set (limited isLimit c)"
    using r(1,5,8,9) by (cases "isLimit c") (auto simp: fi_pending_def limited_def)
  moreover have "fi_pending w \<subseteq> fi_pending w' \<union> fi_seen w'" using r(1,2,4,5) by (auto simp: fi_pending_def fi_seen_def)
  ultimately show "fi_inv s orig w' \<and> stored s c \<and> c_Hash c \<in> fi_pending w \<and> c_Hash c \<notin> fi_seen w \<and>
      fi_seen w' = insert (c_Hash c) (fi_seen w) \<and>
      fi_pending w \<union> set (limited isLimit c) \<subseteq> fi_pending w' \<union> fi_seen w' \<and>
      fi_pending w' \<subseteq> fi_pending w \<union> set (limited isLimit c)"
    using c(1) r(1,3,4) fi_round_None [OF n] by (auto simp: fi_pending_def fi_seen_def)
next
  fix w w'
  assume "fi_inv s orig w" and "fi_round s isLimit w = (Inl EOF, w')"
  then show "fi_pending w \<subseteq> fi_seen w"
    using popNewFromQueue_Inl [of w EOF] by (auto simp: fi_round_def fi_inv_def Let_def split: prod.splits sum.splits option.splits if_splits)
next
  fix w e w'
  assume inv: "fi_inv s orig w" and n: "fi_round s isLimit w = (Inl e, w')" "e \<noteq> EOF"
  obtain r w1 where p: "popNewFromQueue w = (r, w1)" by fastforce
  then obtain c where r: "r = Inr c"
    using n inv popNewFromQueue_Inl [of w] by (cases r) (auto simp: fi_round_def fi_inv_def)
  with p n obtain err w2 where a: "e = StoreError err"
      "addToQueue s (c_ParentHashes c) (w1\<lparr>fi_visited := c_Hash c # fi_visited w1\<rparr>) = (Some err, w2)"
    by (auto simp: fi_round_def Let_def split: prod.splits option.splits if_splits)
  from addToQueue_result [OF a(2)] obtain h where h: "h \<in> set (c_ParentHashes c)" "GetCommit s h = Inl err" by auto
  have "c \<in> set (fi_queue w)" using popNewFromQueue_Inr [OF p [unfolded r]] by auto
  then have "stored s c" "ancestor s orig (c_Hash c)" using inv by (auto simp: fi_inv_def)
  with h a(1) show "missing s orig e" unfolding missing_def by (metis ancestor_parent)
qed


text \<open>The post-order walks. One lemma on the loop over the parents serves both.\<close>

definition first_parent :: "Commit \<Rightarrow> ObjectID list" where
  "first_parent c = take 1 (c_ParentHashes c)"

definition post_blocked :: "post_iter \<Rightarrow> ObjectID set" where "post_blocked w = set (post_seen w)"

definition post_pending :: "post_iter \<Rightarrow> ObjectID set" where "post_pending w = c_Hash ` set (post_stack w)"

definition post_inv :: "commit_store \<Rightarrow> ObjectID \<Rightarrow> post_iter \<Rightarrow> bool" where
  "post_inv s orig w = (\<forall>c \<in> set (post_stack w). stored s c \<and> ancestor s orig (c_Hash c))"

lemma push_first_parent_result:
  assumes "push_first_parent s c hs st = (r, st')"
  shows "\<exists>ps. st' = ps @ st \<and> (\<forall>p \<in> set ps. stored s p \<and> c_Hash p \<in> set hs \<inter> set (first_parent c)) \<and>
    (case r of None \<Rightarrow> set hs \<inter> set (first_parent c) \<subseteq> c_Hash ` set ps | Some e \<Rightarrow> \<exists>h \<in> set hs. GetCommit s h = Inl e)"
  using assms
proof (induction hs arbitrary: st)
  case (Cons h hs)
  show ?case
  proof (cases "GetCommit s h")
    case (Inr p)
    note p = GetCommit_Inr [OF Inr]
    let ?first = "length (c_ParentHashes c) > 0 \<and> c_Hash p = hd (c_ParentHashes c)"
    have f: "?first \<longleftrightarrow> h \<in> set (first_parent c)" using p by (cases "c_ParentHashes c") (auto simp: first_parent_def)
    from Cons.prems Inr have "push_first_parent s c hs (if ?first then p # st else st) = (r, st')" by simp
    from Cons.IH [OF this] obtain ps where
      ps: "st' = ps @ (if ?first then p # st else st)"
        "\<forall>p \<in> set ps. stored s p \<and> c_Hash p \<in> set hs \<inter> set (first_parent c)"
        "case r of None \<Rightarrow> set hs \<inter> set (first_parent c) \<subseteq> c_Hash ` set ps | Some e \<Rightarrow> \<exists>h \<in> set hs. GetCommit s h = Inl e" by blast
    show ?thesis
      by (rule exI [of _ "if ?first then ps @ [p] else ps"]) (use ps p f in \<open>auto split: option.splits\<close>)
  qed (use Cons in auto)
qed auto

lemma push_parents_result:
  assumes "push_parents s hs st = (r, st')"
  shows "\<exists>ps. st' = ps @ st \<and> (\<forall>p \<in> set ps. stored s p \<and> c_Hash p \<in> set hs) \<and>
    (case r of None \<Rightarrow> set hs \<subseteq> c_Hash ` set ps | Some e \<Rightarrow> \<exists>h \<in> set hs. GetCommit s h = Inl e)"
  using assms
proof (induction hs arbitrary: st)
  case (Cons h hs)
  show ?case
  proof (cases "GetCommit s h")
    case (Inr p)
    note p = GetCommit_Inr [OF Inr]
    from Cons.prems Inr have "push_parents s hs (p # st) = (r, st')" by simp
    from Cons.IH [OF this] obtain ps where
      ps: "st' = ps @ p # st" "\<forall>p \<in> set ps. stored s p \<and> c_Hash p \<in> set hs"
        "case r of None \<Rightarrow> set hs \<subseteq> c_Hash ` set ps | Some e \<Rightarrow> \<exists>h \<in> set hs. GetCommit s h = Inl e" by blast
    show ?thesis by (rule exI [of _ "ps @ [p]"]) (use ps p in \<open>auto split: option.splits\<close>)
  qed (use Cons in auto)
qed auto

definition stack_Next :: "(Commit \<Rightarrow> Commit list \<Rightarrow> storage_error option \<times> Commit list) \<Rightarrow> post_iter
    \<Rightarrow> (walk_error + Commit) \<times> post_iter" where
  "stack_Next push w =
     (case dropWhile (\<lambda>c. c_Hash c \<in> post_blocked w) (post_stack w) of
        [] \<Rightarrow> (Inl EOF, w\<lparr>post_stack := []\<rparr>)
      | c # st \<Rightarrow>
          (case push c st of
             (Some err, st') \<Rightarrow> (Inl (StoreError err), w\<lparr>post_stack := st', post_seen := c_Hash c # post_seen w\<rparr>)
           | (None, st') \<Rightarrow> (Inr c, w\<lparr>post_stack := st', post_seen := c_Hash c # post_seen w\<rparr>)))"

lemma post_Next_unfold: "post_Next s w = stack_Next (\<lambda>c. push_parents s (c_ParentHashes c)) w"
proof (induction s w rule: post_Next.induct)
  case (1 s w)
  show ?case
  proof (cases "post_stack w")
    case (Cons c st)
    show ?thesis using "1.IH" [OF Cons refl] Cons
      by (cases "dropWhile (\<lambda>c. c_Hash c \<in> set (post_seen w)) st")
        (auto simp: post_Next.simps [of s w] stack_Next_def post_blocked_def Let_def
          simp del: dropWhile_eq_Nil_conv split: prod.split option.split)
  qed (auto simp: post_Next.simps [of s w] stack_Next_def)
qed

lemma first_Next_unfold: "first_Next s w = stack_Next (\<lambda>c. push_first_parent s c (c_ParentHashes c)) w"
proof (induction s w rule: first_Next.induct)
  case (1 s w)
  show ?case
  proof (cases "post_stack w")
    case (Cons c st)
    show ?thesis using "1.IH" [OF Cons refl] Cons
      by (cases "dropWhile (\<lambda>c. c_Hash c \<in> set (post_seen w)) st")
        (auto simp: first_Next.simps [of s w] stack_Next_def post_blocked_def Let_def
          simp del: dropWhile_eq_Nil_conv split: prod.split option.split)
  qed (auto simp: first_Next.simps [of s w] stack_Next_def)
qed

lemma stack_walker:
  assumes push: "\<And>c st r st'. push c st = (r, st') \<Longrightarrow>
      \<exists>ps. st' = ps @ st \<and> (\<forall>p \<in> set ps. stored s p \<and> c_Hash p \<in> set (succs c)) \<and>
        (case r of None \<Rightarrow> set (succs c) \<subseteq> c_Hash ` set ps | Some e \<Rightarrow> \<exists>h \<in> set (c_ParentHashes c). GetCommit s h = Inl e)"
    and succs: "\<And>c. set (succs c) \<subseteq> set (c_ParentHashes c)"
  shows "commit_walker s orig succs (stack_Next push) (post_inv s orig) post_blocked post_pending"
proof unfold_locales
  fix w c w'
  assume inv: "post_inv s orig w" and n: "stack_Next push w = (Inr c, w')"
  from n obtain st st' where d: "dropWhile (\<lambda>c. c_Hash c \<in> post_blocked w) (post_stack w) = c # st"
    and p: "push c st = (None, st')" and w': "w' = w\<lparr>post_stack := st', post_seen := c_Hash c # post_seen w\<rparr>"
    by (auto simp: stack_Next_def split: list.splits prod.splits option.splits)
  from dropWhile_Cons_split [OF d] obtain pre where
    q: "post_stack w = pre @ c # st" "\<forall>x \<in> set pre. c_Hash x \<in> post_blocked w" "c_Hash c \<notin> post_blocked w" by blast
  from push [OF p] obtain ps where ps: "st' = ps @ st" "\<forall>p \<in> set ps. stored s p \<and> c_Hash p \<in> set (succs c)"
    "set (succs c) \<subseteq> c_Hash ` set ps" by auto
  have c: "stored s c" "ancestor s orig (c_Hash c)" using inv q(1) by (auto simp: post_inv_def)
  have "ancestor s orig (c_Hash x)" if "x \<in> set ps" for x
    using that ps(2) succs [of c] ancestor_parent [OF c(2,1)] by blast
  then have "post_inv s orig w'" using inv q(1) ps w' by (auto simp: post_inv_def)
  then show "post_inv s orig w' \<and> stored s c \<and> c_Hash c \<in> post_pending w \<and> c_Hash c \<notin> post_blocked w \<and>
      post_blocked w' = insert (c_Hash c) (post_blocked w) \<and>
      post_pending w \<union> set (succs c) \<subseteq> post_pending w' \<union> post_blocked w' \<and> post_pending w' \<subseteq> post_pending w \<union> set (succs c)"
    using c(1) q ps w' by (auto simp: post_pending_def post_blocked_def)
next
  fix w w'
  assume "stack_Next push w = (Inl EOF, w')"
  then have "dropWhile (\<lambda>c. c_Hash c \<in> post_blocked w) (post_stack w) = []"
    by (auto simp: stack_Next_def split: list.splits prod.splits option.splits)
  then show "post_pending w \<subseteq> post_blocked w" by (auto simp: post_pending_def)
next
  fix w e w'
  assume inv: "post_inv s orig w" and n: "stack_Next push w = (Inl e, w')" "e \<noteq> EOF"
  from n obtain c st err st' where d: "dropWhile (\<lambda>c. c_Hash c \<in> post_blocked w) (post_stack w) = c # st" "e = StoreError err"
    and p: "push c st = (Some err, st')"
    by (auto simp: stack_Next_def split: list.splits prod.splits option.splits)
  from push [OF p] obtain h where "h \<in> set (c_ParentHashes c)" "GetCommit s h = Inl err" by auto
  moreover have "c \<in> set (post_stack w)" using dropWhile_Cons_split [OF d(1)] by auto
  then have "stored s c" "ancestor s orig (c_Hash c)" using inv by (auto simp: post_inv_def)
  ultimately show "missing s orig e" unfolding missing_def d(2) by (metis ancestor_parent)
qed

interpretation post: commit_walker s orig c_ParentHashes "post_Next s" "post_inv s orig" post_blocked post_pending for s orig
  unfolding post_Next_unfold [abs_def] by (rule stack_walker) (auto dest: push_parents_result)

interpretation first: commit_walker s orig first_parent "first_Next s" "post_inv s orig" post_blocked post_pending for s orig
  unfolding first_Next_unfold [abs_def]
proof (rule stack_walker)
  show sub: "set (first_parent c) \<subseteq> set (c_ParentHashes c)" for c by (simp add: first_parent_def set_take_subset)
  show "\<exists>ps. st' = ps @ st \<and> (\<forall>p \<in> set ps. stored s p \<and> c_Hash p \<in> set (first_parent c)) \<and>
      (case r of None \<Rightarrow> set (first_parent c) \<subseteq> c_Hash ` set ps | Some e \<Rightarrow> \<exists>h \<in> set (c_ParentHashes c). GetCommit s h = Inl e)"
    if "push_first_parent s c (c_ParentHashes c) st = (r, st')" for c st r st'
    using push_first_parent_result [OF that] sub [of c] by (fastforce split: option.splits)
qed


text \<open>The pre-order walk.\<close>

definition pre_blocked :: "pre_iter \<Rightarrow> ObjectID set" where
  "pre_blocked w = set (pre_seen w) \<union> set (pre_seenExternal w)"

definition pre_pending :: "pre_iter \<Rightarrow> ObjectID set" where
  "pre_pending w = c_Hash ` set_option (pre_start w) \<union> set (concat (pre_stack w))"

definition pre_inv :: "commit_store \<Rightarrow> ObjectID \<Rightarrow> pre_iter \<Rightarrow> bool" where
  "pre_inv s orig w = ((\<forall>c. pre_start w = Some c \<longrightarrow> stored s c) \<and> (\<forall>h \<in> pre_pending w. ancestor s orig h))"

text \<open>Where \<open>Next\<close> stops: at the end, at a missing commit, or at a new one, having skipped commits seen before.\<close>

lemma pre_Next_cases:
  assumes "pre_inv s orig w"
  shows "case pre_Next s w of
      (Inl e, w') \<Rightarrow> if e = EOF then pre_pending w \<subseteq> pre_blocked w else missing s orig e
    | (Inr c, w') \<Rightarrow> stored s c \<and> c_Hash c \<in> pre_pending w \<and> c_Hash c \<notin> pre_blocked w \<and>
        (\<exists>w1. w' = pre_visit c w1 \<and> pre_seen w1 = pre_seen w \<and> pre_seenExternal w1 = pre_seenExternal w \<and>
          pre_start w1 = None \<and> pre_pending w1 \<subseteq> pre_pending w \<and>
          pre_pending w \<subseteq> insert (c_Hash c) (pre_pending w1) \<union> pre_blocked w)"
  using assms
proof (induction s w rule: pre_Next.induct)
  case (1 s w)
  show ?case
  proof (cases "pre_start w")
    case (Some c)
    let ?w = "w\<lparr>pre_start := None\<rparr>"
    have p: "pre_pending w = insert (c_Hash c) (pre_pending ?w)" "pre_blocked ?w = pre_blocked w" "pre_inv s orig ?w" "stored s c"
      using "1.prems" Some by (auto simp: pre_pending_def pre_blocked_def pre_inv_def)
    show ?thesis
    proof (cases "c_Hash c \<in> pre_blocked w")
      case True
      then have eq: "pre_Next s w = pre_Next s ?w" using Some by (simp add: pre_Next.simps [of s w] pre_blocked_def)
      from "1.IH"(3) [OF Some refl _ p(3)] True show ?thesis
        unfolding eq p by (auto simp: pre_blocked_def split: prod.splits sum.splits)
    next
      case False
      then have "pre_Next s w = (Inr c, pre_visit c ?w)" using Some by (simp add: pre_Next.simps [of s w] pre_blocked_def)
      then show ?thesis using p False by (auto intro!: exI [of _ ?w])
    qed
  next
    case None
    show ?thesis
    proof (cases "pre_stack w")
      case Nil
      then show ?thesis using None by (simp add: pre_Next.simps [of s w] pre_pending_def)
    next
      case (Cons top st)
      show ?thesis
      proof (cases top)
        case Nil
        let ?w = "w\<lparr>pre_stack := st\<rparr>"
        have p: "pre_pending w = pre_pending ?w" "pre_blocked ?w = pre_blocked w" "pre_inv s orig ?w"
          using "1.prems" None Cons Nil by (auto simp: pre_pending_def pre_blocked_def pre_inv_def)
        have eq: "pre_Next s w = pre_Next s ?w" using None Cons Nil by (simp add: pre_Next.simps [of s w])
        from "1.IH"(1) [OF None Cons Nil p(3)] show ?thesis
          unfolding eq p(1) [symmetric] p(2) by (auto simp: pre_blocked_def split: prod.splits sum.splits)
      next
        case top: (Cons h hs)
        let ?w = "w\<lparr>pre_stack := hs # st\<rparr>"
        have p: "pre_pending w = insert h (pre_pending ?w)" "pre_blocked ?w = pre_blocked w" "pre_inv s orig ?w" "ancestor s orig h"
          using "1.prems" None Cons top by (auto simp: pre_pending_def pre_blocked_def pre_inv_def)
        show ?thesis
        proof (cases "GetCommit s h")
          case (Inl err)
          then show ?thesis using None Cons top p(4) by (auto simp: pre_Next.simps [of s w] missing_def)
        next
          case (Inr c)
          note c = GetCommit_Inr [OF Inr]
          show ?thesis
          proof (cases "c_Hash c \<in> pre_blocked w")
            case True
            then have eq: "pre_Next s w = pre_Next s ?w"
              using None Cons top Inr by (simp add: pre_Next.simps [of s w] pre_blocked_def)
            from "1.IH"(2) [OF None Cons top Inr refl _ p(3)] True c show ?thesis
              unfolding eq p by (auto simp: pre_blocked_def split: prod.splits sum.splits)
          next
            case False
            then have "pre_Next s w = (Inr c, pre_visit c ?w)"
              using None Cons top Inr by (simp add: pre_Next.simps [of s w] pre_blocked_def)
            then show ?thesis using p c False None by (auto intro!: exI [of _ ?w])
          qed
        qed
      qed
    qed
  qed
qed

lemma pre_visit_pending:
  assumes "pre_start w = None"
  shows "pre_pending (pre_visit c w) = pre_pending w \<union> (set (c_ParentHashes c) - set (c_Hash c # pre_seen w))"
    and "pre_blocked (pre_visit c w) = insert (c_Hash c) (pre_blocked w)" and "pre_start (pre_visit c w) = None"
  using assms by (auto simp: pre_visit_def pre_pending_def pre_blocked_def filteredParentIter_def Let_def)

interpretation pre: commit_walker s orig c_ParentHashes "pre_Next s" "pre_inv s orig" pre_blocked pre_pending for s orig
proof unfold_locales
  fix w c w'
  assume inv: "pre_inv s orig w" and n: "pre_Next s w = (Inr c, w')"
  from pre_Next_cases [OF inv] n obtain w1 where
    c: "stored s c" "c_Hash c \<in> pre_pending w" "c_Hash c \<notin> pre_blocked w" and
    w1: "w' = pre_visit c w1" "pre_seen w1 = pre_seen w" "pre_seenExternal w1 = pre_seenExternal w" "pre_start w1 = None"
      "pre_pending w1 \<subseteq> pre_pending w" "pre_pending w \<subseteq> insert (c_Hash c) (pre_pending w1) \<union> pre_blocked w"
    by auto
  note v = pre_visit_pending [OF w1(4), of c]
  have b: "pre_blocked w1 = pre_blocked w" using w1(2,3) by (simp add: pre_blocked_def)
  have "ancestor s orig h" if "h \<in> pre_pending w'" for h
    using that inv c(1,2) w1(1,5) v(1) ancestor_parent [of s orig c h] by (auto simp: pre_inv_def)
  then have "pre_inv s orig w'" using v(3) w1(1) by (simp add: pre_inv_def)
  moreover have "set (c_ParentHashes c) \<subseteq> pre_pending w' \<union> pre_blocked w'" using v w1 by (auto simp: pre_blocked_def)
  ultimately show "pre_inv s orig w' \<and> stored s c \<and> c_Hash c \<in> pre_pending w \<and> c_Hash c \<notin> pre_blocked w \<and>
      pre_blocked w' = insert (c_Hash c) (pre_blocked w) \<and>
      pre_pending w \<union> set (c_ParentHashes c) \<subseteq> pre_pending w' \<union> pre_blocked w' \<and>
      pre_pending w' \<subseteq> pre_pending w \<union> set (c_ParentHashes c)"
    using c w1(1,5,6) v(1,2) b by auto
next
  fix w w'
  assume inv: "pre_inv s orig w" and n: "pre_Next s w = (Inl EOF, w')"
  from pre_Next_cases [OF inv] n show "pre_pending w \<subseteq> pre_blocked w" by simp
next
  fix w e w'
  assume inv: "pre_inv s orig w" and n: "pre_Next s w = (Inl e, w')" "e \<noteq> EOF"
  from pre_Next_cases [OF inv] n show "missing s orig e" by simp
qed


subsection \<open>Filtering\<close>

lemma forEachCommit_cong: "nxt a w = nxt a w' \<Longrightarrow> forEachCommit nxt cb w a = forEachCommit nxt cb w' a"
  by (simp add: forEachCommit.simps [of nxt cb w a] forEachCommit.simps [of nxt cb w' a])

lemma fi_Next_all: "fi_Next s (\<lambda>_. True) isLimit w = fi_round s isLimit w"
  by (simp add: fi_Next.simps [of s "\<lambda>_. True"] split: prod.split sum.split)

text \<open>\<open>Next\<close> with a filter, inside \<open>ForEach\<close>, is the rounds with a callback that skips what the filter refuses.\<close>

lemma filtered_walk:
  "forEachCommit (\<lambda>_. fi_Next s isValid isLimit) collect w a = forEachCommit (\<lambda>_. fi_round s isLimit) (collect_if isValid) w a"
proof (induction "card (unvisited s (fi_visited w) (fi_queue w))" arbitrary: w a rule: less_induct)
  case less
  obtain r w' where r: "fi_round s isLimit w = (r, w')" by fastforce
  show ?case
  proof (cases r)
    case (Inl e)
    then show ?thesis using r
      by (simp add: forEachCommit.simps [of _ _ w a] fi_Next.simps [of s isValid isLimit w])
  next
    case (Inr c)
    note IH = less.hyps [OF fi_round_decreases [OF r [unfolded Inr]]]
    show ?thesis
    proof (cases "isValid c")
      case True
      then show ?thesis using r Inr IH
        by (simp add: forEachCommit.simps [of _ _ w a] fi_Next.simps [of s isValid isLimit w] collect_def collect_if_def)
    next
      case False
      then have "fi_Next s isValid isLimit w = fi_Next s isValid isLimit w'"
        using r Inr by (simp add: fi_Next.simps [of s isValid isLimit w])
      then have "forEachCommit (\<lambda>_. fi_Next s isValid isLimit) collect w a = forEachCommit (\<lambda>_. fi_Next s isValid isLimit) collect w' a"
        by (rule forEachCommit_cong)
      also have "\<dots> = forEachCommit (\<lambda>_. fi_round s isLimit) (collect_if isValid) w' a" by (rule IH)
      finally show ?thesis using r Inr False by (simp add: forEachCommit.simps [of _ "collect_if isValid" w a] collect_if_def)
    qed
  qed
qed

subsection \<open>Properties\<close>

definition delivers_once :: "commit_store \<Rightarrow> (walk_error option \<times> Commit list) option \<Rightarrow> ObjectID set \<Rightarrow> bool" where
  "delivers_once s r H = (\<exists>cs. r = Some (None, cs) \<and> distinct (map c_Hash cs) \<and> (\<forall>c \<in> set cs. stored s c) \<and> c_Hash ` set cs = H)"

text \<open>
  \<^bold>\<open>C15\<close>. Each iterator over the history ends and delivers, exactly once, each commit that is
  reachable from the start without passing through an ignored commit (or one that the caller
  has seen elsewhere): the breadth-first, pre-order and post-order walks along all parents,
  the first-parent walk along first parents only. The history of the start is in the store;
  cycles are not excluded.
\<close>

theorem walks_deliver_history:
  assumes "stored s c" and "complete_history s (c_Hash c)"
  shows "delivers_once s (forEachCommit (\<lambda>_. bfs_Next s) collect (NewCommitIterBSF c ext ign) [])
      {h. reach s c_ParentHashes (set ign \<union> set ext) (c_Hash c) h} \<and>
    delivers_once s (forEachCommit (\<lambda>_. pre_Next s) collect (NewCommitPreorderIter c ext ign) [])
      {h. reach s c_ParentHashes (set ign \<union> set ext) (c_Hash c) h} \<and>
    delivers_once s (forEachCommit (\<lambda>_. post_Next s) collect (NewCommitPostorderIter c ign) [])
      {h. reach s c_ParentHashes (set ign) (c_Hash c) h} \<and>
    delivers_once s (forEachCommit (\<lambda>_. first_Next s) collect (NewCommitPostorderIter c ign) [])
      {h. reach s first_parent (set ign) (c_Hash c) h}"
proof -
  have "bfs_inv s (c_Hash c) (NewCommitIterBSF c ext ign)" "pre_inv s (c_Hash c) (NewCommitPreorderIter c ext ign)"
    "post_inv s (c_Hash c) (NewCommitPostorderIter c ign)"
    using assms(1)
    by (simp_all add: bfs_inv_def pre_inv_def post_inv_def NewCommitIterBSF_def NewCommitPreorderIter_def
        NewCommitPostorderIter_def pre_pending_def ancestor_refl)
  from bfs.complete_walk_all [OF this(1) assms(2)] pre.complete_walk_all [OF this(2) assms(2)]
    post.complete_walk_all [OF this(3) assms(2)] first.complete_walk_all [OF this(3) assms(2)]
  show ?thesis
    by (simp add: delivers_once_def reach_from_def bfs_blocked_def bfs_pending_def pre_blocked_def pre_pending_def
        post_blocked_def post_pending_def NewCommitIterBSF_def NewCommitPreorderIter_def NewCommitPostorderIter_def)
qed

definition oid_n :: "byte \<Rightarrow> ObjectID" where "oid_n b = ObjectID (b # replicate 31 0) UnsetObjectFormat"

definition two_commits :: commit_store where
  "two_commits = [\<lparr>c_Hash = oid_n 1, c_ParentHashes = [oid_n 2], c_When = 5\<rparr>, \<lparr>c_Hash = oid_n 2, c_ParentHashes = [], c_When = 3\<rparr>]"

lemma two_commits_complete: "complete_history two_commits (oid_n 1)"
proof -
  have "h' = oid_n 1 \<or> h' = oid_n 2" if "reach two_commits c_ParentHashes {} (oid_n 1) h'" for h'
    using that by (induction rule: reach.induct) (auto simp: two_commits_def GetCommit_def split: if_splits)
  then show ?thesis by (auto simp: complete_history_def ancestor_def two_commits_def GetCommit_def)
qed

lemma walks_deliver_history_witness:
  "stored two_commits (hd two_commits) \<and> complete_history two_commits (oid_n 1) \<and>
   delivers_once two_commits (forEachCommit (\<lambda>_. bfs_Next two_commits) collect (NewCommitIterBSF (hd two_commits) [] []) [])
     {h. reach two_commits c_ParentHashes {} (oid_n 1) h}"
proof -
  have "stored two_commits (hd two_commits)" "c_Hash (hd two_commits) = oid_n 1"
    by (simp_all add: two_commits_def stored_def GetCommit_def)
  with walks_deliver_history [of two_commits "hd two_commits" "[]" "[]"] two_commits_complete show ?thesis by simp
qed


text \<open>
  Limiting a walk by dates and by a tail commit, as \<open>git log\<close> does, delivers exactly the
  commits of the walk that are within the dates, in the same order, up to and including the
  tail if it is among them. A commit outside the dates is skipped, but the walk goes on to
  its parents.
\<close>

theorem limited_log:
  assumes "stored s c" and "complete_history s (c_Hash c)"
  shows "\<exists>cs. forEachCommit (\<lambda>_. bfs_Next s) collect (NewCommitIterBSF c ext ign) [] = Some (None, cs) \<and>
    limit_ForEach (bfs_Next s) opts collect (NewCommitIterBSF c ext ign) [] =
      Some (None, up_to (TailHash opts) (filter (\<lambda>c. \<not> limit_outside opts c) cs))"
proof -
  have i: "bfs_inv s (c_Hash c) (NewCommitIterBSF c ext ign)"
    using assms(1) by (simp add: bfs_inv_def NewCommitIterBSF_def ancestor_refl)
  from bfs.complete_walk_all [OF i assms(2)] obtain cs where
    "forEachCommit (\<lambda>_. bfs_Next s) collect (NewCommitIterBSF c ext ign) [] = Some (None, cs)" by blast
  with bfs.limited_walk [OF i this, of opts] show ?thesis by auto
qed

lemma limited_log_witness:
  "\<exists>cs. forEachCommit (\<lambda>_. bfs_Next two_commits) collect (NewCommitIterBSF (hd two_commits) [] []) [] = Some (None, cs) \<and>
    limit_ForEach (bfs_Next two_commits) \<lparr>Since = Some 4, Until = None, TailHash = ZeroHash\<rparr> collect
      (NewCommitIterBSF (hd two_commits) [] []) [] =
    Some (None, up_to ZeroHash (filter (\<lambda>c. \<not> c_When c < 4) cs))"
proof -
  have "stored two_commits (hd two_commits)" "c_Hash (hd two_commits) = oid_n 1"
    by (simp_all add: two_commits_def stored_def GetCommit_def)
  with limited_log [of two_commits "hd two_commits" "[]" "[]" "\<lparr>Since = Some 4, Until = None, TailHash = ZeroHash\<rparr>"]
    two_commits_complete show ?thesis by (simp add: limit_outside_def)
qed

text \<open>
  \<open>ForEach\<close> of the limited walk loses the error of its callback on the tail commit: the walk
  then reports success, where on any other commit it reports the error.
\<close>

theorem limit_ForEach_drops_tail_error:
  assumes "source w = (Inr c, w')" and "\<not> limit_outside opts c" and "cb c a = (Fail e, a')"
  shows "limit_ForEach source opts cb w a = (if c_Hash c = TailHash opts then Some (None, a') else Some (Some e, a'))"
  using assms(3) by (simp add: limit_ForEach.simps [of source opts cb w] limit_Next_found [of source, OF assms(1,2)])

lemma limit_ForEach_drops_tail_error_witness:
  "limit_ForEach (bfs_Next two_commits) \<lparr>Since = None, Until = None, TailHash = oid_n 1\<rparr>
     (\<lambda>c a. (Fail (StoreError ErrObjectNotFound), a)) (NewCommitIterBSF (hd two_commits) [] []) () = Some (None, ())"
proof -
  obtain w' where "bfs_Next two_commits (NewCommitIterBSF (hd two_commits) [] []) = (Inr (hd two_commits), w')"
    by (simp add: bfs_Next.simps NewCommitIterBSF_def two_commits_def appendHash_def GetCommit_def oid_n_def)
  from limit_ForEach_drops_tail_error [of "bfs_Next two_commits", OF this,
      of "\<lparr>Since = None, Until = None, TailHash = oid_n 1\<rparr>" "\<lambda>c a. (Fail (StoreError ErrObjectNotFound), a)" "()"]
  show ?thesis by (simp add: limit_outside_def two_commits_def)
qed

end
