(* ===== verification/Merge_Base.thy ===== *)
theory Merge_Base
  imports Commit_Walk
begin

text \<open>
  Merge bases: \<open>plumbing/object/merge_base.go\<close>. \<open>MergeBase\<close> finds the best common ancestors of two
  commits, \<open>Independents\<close> reduces a list of commits to those not reachable from others of the
  list, \<open>IsAncestor\<close> tests reachability. They run the iterators of \<open>Commit_Walk\<close>.

  \<open>sort.Slice\<close> does not say in which order it leaves commits of the same date, so the sorting
  function is a parameter; what is used of it is that it rearranges its argument. The loops
  that walk the history are partial functions, shown to return.
\<close>

subsection \<open>Operations\<close>

text \<open>The loop over \<open>NewCommitIterBSF\<close> of \<open>ancestorsIndex\<close>: the index is the list of the hashes met.\<close>

definition index_cb :: "Commit \<Rightarrow> Commit \<Rightarrow> ObjectID list \<Rightarrow> walk_error callback \<times> ObjectID list" where
  "index_cb excluded c hist = (if c_Hash c = c_Hash excluded then (Fail ErrIsReachable, hist) else (Continue, c_Hash c # hist))"

definition ancestorsIndex :: "commit_store \<Rightarrow> Commit \<Rightarrow> Commit \<Rightarrow> (walk_error + ObjectID list) option" where
  "ancestorsIndex s excluded starting =
     (if oid_String (c_Hash excluded) = oid_String (c_Hash starting) then Some (Inl ErrIsReachable)
      else case forEachCommit (\<lambda>_. bfs_Next s) (index_cb excluded) (NewCommitIterBSF starting [] []) [] of
             None \<Rightarrow> None
           | Some (Some err, _) \<Rightarrow> Some (Inl err)
           | Some (None, hist) \<Rightarrow> Some (Inr hist))"

fun indexOf :: "Commit list \<Rightarrow> Commit \<Rightarrow> int" where
  "indexOf [] target = -1"
| "indexOf (c # cs) target =
     (if c_Hash target = c_Hash c then 0 else let i = indexOf cs target in if i = -1 then -1 else i + 1)"

definition remove :: "Commit list \<Rightarrow> Commit \<Rightarrow> Commit list" where
  "remove commits toDelete = filter (\<lambda>c. c_Hash c \<noteq> c_Hash toDelete) commits"

fun removeDuplicated_loop :: "ObjectID list \<Rightarrow> Commit list \<Rightarrow> Commit list" where
  "removeDuplicated_loop seen [] = []"
| "removeDuplicated_loop seen (c # cs) =
     (if c_Hash c \<in> set seen then removeDuplicated_loop seen cs else c # removeDuplicated_loop (c_Hash c # seen) cs)"

definition removeDuplicated :: "Commit list \<Rightarrow> Commit list" where
  "removeDuplicated commits = removeDuplicated_loop [] commits"

text \<open>The variables of the walk in \<open>Independents\<close>: candidates, others and seen.\<close>

type_synonym indep_vars = "Commit list \<times> Commit list \<times> ObjectID list"

fun drop_reached :: "Commit \<Rightarrow> Commit list \<Rightarrow> Commit list \<times> Commit list \<Rightarrow> Commit list \<times> Commit list" where
  "drop_reached a [] (candidates, others) = (candidates, others)"
| "drop_reached a (ot # ots) (candidates, others) =
     (if c_Hash a = c_Hash ot then drop_reached a ots (remove candidates ot, remove others ot)
      else drop_reached a ots (candidates, others))"

definition indep_cb :: "Commit \<Rightarrow> indep_vars \<Rightarrow> walk_error callback \<times> indep_vars" where
  "indep_cb a v =
     (case v of (candidates, others, seen) \<Rightarrow>
        (case drop_reached a others (candidates, others) of (candidates, others) \<Rightarrow>
           if length candidates = 1 then (ErrStop, (candidates, others, seen))
           else (Continue, (candidates, others, c_Hash a # seen))))"

definition indep_next :: "commit_store \<Rightarrow> indep_vars \<Rightarrow> filter_iter \<Rightarrow> (walk_error + Commit) \<times> filter_iter" where
  "indep_next s v w = (case v of (candidates, others, seen) \<Rightarrow> fi_Next s (\<lambda>_. True) (\<lambda>c. c_Hash c \<in> set seen) w)"

partial_function (option) Independents_loop :: "commit_store \<Rightarrow> Commit list \<Rightarrow> ObjectID list \<Rightarrow> nat
    \<Rightarrow> (walk_error + Commit list) option" where
  "Independents_loop s candidates seen pos =
     (case forEachCommit (indep_next s) indep_cb (NewFilterCommitIter (candidates ! pos))
             (candidates, remove candidates (candidates ! pos), seen) of
        None \<Rightarrow> None
      | Some (r, v) \<Rightarrow>
          (case r of
             Some err \<Rightarrow> Some (Inl err)
           | None \<Rightarrow>
               let nextPos = indexOf (fst v) (candidates ! pos) + 1
               in if nextPos \<ge> int (length (fst v)) then Some (Inr (fst v))
                  else Independents_loop s (fst v) (snd (snd v)) (nat nextPos)))"

definition Independents :: "(Commit list \<Rightarrow> Commit list) \<Rightarrow> commit_store \<Rightarrow> Commit list
    \<Rightarrow> (walk_error + Commit list) option" where
  "Independents sortByCommitDateDesc s commits =
     (let candidates = removeDuplicated (sortByCommitDateDesc commits)
      in if length candidates < 2 then Some (Inr candidates) else Independents_loop s candidates [] 0)"

text \<open>The error of the walk over the older commit's history is dropped.\<close>

definition MergeBase :: "(Commit list \<Rightarrow> Commit list) \<Rightarrow> commit_store \<Rightarrow> Commit \<Rightarrow> Commit
    \<Rightarrow> (walk_error + Commit list) option" where
  "MergeBase sortByCommitDateDesc s c other =
     (let sorted = sortByCommitDateDesc [c, other]; newer = sorted ! 0; older = sorted ! 1
      in case ancestorsIndex s older newer of
           None \<Rightarrow> None
         | Some (Inl err) \<Rightarrow> if err = ErrIsReachable then Some (Inr [older]) else Some (Inl err)
         | Some (Inr newerHistory) \<Rightarrow>
             let inNewerHistory = (\<lambda>c. c_Hash c \<in> set newerHistory)
             in (case forEachCommit (\<lambda>_. fi_Next s inNewerHistory inNewerHistory) collect (NewFilterCommitIter older) [] of
                   None \<Rightarrow> None
                 | Some (_, res) \<Rightarrow> Independents sortByCommitDateDesc s res))"

definition ancestor_cb :: "Commit \<Rightarrow> Commit \<Rightarrow> bool \<Rightarrow> walk_error callback \<times> bool" where
  "ancestor_cb c comm found = (if c_Hash comm \<noteq> c_Hash c then (Continue, found) else (ErrStop, True))"

definition IsAncestor :: "commit_store \<Rightarrow> Commit \<Rightarrow> Commit \<Rightarrow> (bool \<times> walk_error option) option" where
  "IsAncestor s c other =
     (case forEachCommit (\<lambda>_. pre_Next s) (ancestor_cb c) (NewCommitPreorderIter other [] []) False of
        None \<Rightarrow> None
      | Some (err, found) \<Rightarrow> Some (found, err))"

text \<open>A sorting function that exists: insertion by date, commits of the same date in order.\<close>

definition stable_by_date :: "Commit list \<Rightarrow> Commit list" where
  "stable_by_date commits = sort_key (\<lambda>c. - c_When c) commits"

definition rearranges :: "(Commit list \<Rightarrow> Commit list) \<Rightarrow> bool" where
  "rearranges srt = (\<forall>cs. mset (srt cs) = mset cs)"

subsection \<open>Ancestry\<close>

text \<open>Hashes that commit to their content cannot form a cycle.\<close>

definition acyclic_history :: "commit_store \<Rightarrow> bool" where
  "acyclic_history s = (\<forall>h h'. ancestor s h h' \<and> ancestor s h' h \<longrightarrow> h = h')"

text \<open>The members of a set of hashes that no other member reaches.\<close>

definition independent :: "commit_store \<Rightarrow> ObjectID set \<Rightarrow> ObjectID set" where
  "independent s H = {h \<in> H. \<forall>h' \<in> H. ancestor s h' h \<longrightarrow> h' = h}"

definition best_common_ancestors :: "commit_store \<Rightarrow> ObjectID \<Rightarrow> ObjectID \<Rightarrow> ObjectID set" where
  "best_common_ancestors s a b = independent s {h. ancestor s a h \<and> ancestor s b h}"

lemma oid_String_inj:
  assumes "oid_ok i" "oid_ok j" "oid_format i = oid_format j" "oid_String i = oid_String j"
  shows "i = j"
proof -
  have "oid_Bytes i = oid_Bytes j"
    using arg_cong [OF assms(4), of DecodeString] by (simp add: oid_String_def)
  then show ?thesis using oid_eqI [OF assms(1-3)] by simp
qed


subsection \<open>One walk of Independents\<close>

lemma drop_reached_eq:
  "drop_reached a ots (C, D) =
     (if c_Hash a \<in> c_Hash ` set ots then (remove C a, remove D a) else (C, D))"
proof (induction ots arbitrary: C D)
  case (Cons ot ots)
  have rr: "remove (remove X x) y = remove X y" if "c_Hash x = c_Hash y" for X x y
    using that by (auto simp: remove_def intro: filter_cong)
  have same: "remove X ot = remove X a" if "c_Hash a = c_Hash ot" for X using that by (simp add: remove_def)
  show ?case using Cons.IH rr [of a a] same by auto
qed simp

text \<open>The candidates that are left, and the others, once the hashes \<open>V\<close> have been reached from \<open>f\<close>.\<close>

definition left :: "ObjectID \<Rightarrow> ObjectID set \<Rightarrow> Commit list \<Rightarrow> Commit list" where
  "left f V C = filter (\<lambda>c. c_Hash c = f \<or> c_Hash c \<notin> V) C"

definition rest :: "ObjectID \<Rightarrow> ObjectID set \<Rightarrow> Commit list \<Rightarrow> Commit list" where
  "rest f V C = filter (\<lambda>c. c_Hash c \<noteq> f \<and> c_Hash c \<notin> V) C"

lemma drop_reached_left:
  assumes "c_Hash a \<notin> V"
  shows "drop_reached a (rest f V C) (left f V C, rest f V C) =
    (left f (insert (c_Hash a) V) C, rest f (insert (c_Hash a) V) C)"
proof (cases "c_Hash a \<in> c_Hash ` set (rest f V C)")
  case True
  then have "c_Hash a \<noteq> f" by (auto simp: rest_def)
  with True show ?thesis by (auto simp: drop_reached_eq left_def rest_def remove_def intro!: filter_cong)
next
  case False
  then have "c_Hash c \<noteq> c_Hash a \<or> c_Hash c = f" if "c \<in> set C" for c
    using that assms by (auto simp: rest_def image_iff)
  with False show ?thesis by (auto simp: drop_reached_eq left_def rest_def intro!: filter_cong)
qed

lemma fi_round_cong:
  assumes "\<And>c. c_Hash c \<notin> fi_seen w \<Longrightarrow> isLimit c = isLimit' c"
  shows "fi_round s isLimit w = fi_round s isLimit' w"
proof (cases "popNewFromQueue w")
  case (Pair r w1)
  show ?thesis
  proof (cases r)
    case (Inr c)
    then have "c_Hash c \<notin> fi_seen w" using popNewFromQueue_Inr [of w c w1] Pair by (auto simp: fi_seen_def)
    then show ?thesis using assms [of c] Pair Inr by (simp add: fi_round_def)
  qed (simp add: fi_round_def Pair)
qed

text \<open>
  The walk from \<open>f\<close> with the hashes \<open>S\<close> seen in earlier walks: what is reachable from \<open>f\<close> without
  going on from a commit of \<open>S\<close>.
\<close>

definition walk_reach :: "commit_store \<Rightarrow> ObjectID set \<Rightarrow> ObjectID \<Rightarrow> ObjectID set" where
  "walk_reach s S f = reach_from s (limited (\<lambda>c. c_Hash c \<in> S)) {} {f}"

lemma walk_reach_ancestor: "h \<in> walk_reach s S f \<Longrightarrow> ancestor s f h"
proof -
  have "reach s (limited (\<lambda>c. c_Hash c \<in> S)) {} f h \<Longrightarrow> ancestor s f h"
    by (induction rule: reach.induct) (auto simp: ancestor_def limited_def intro: reach.intros split: if_splits)
  then show "h \<in> walk_reach s S f \<Longrightarrow> ancestor s f h" by (simp add: walk_reach_def reach_from_def)
qed

lemma ancestor_walk_reach:
  assumes "ancestor s f h"
  shows "h \<in> walk_reach s S f \<or> (\<exists>x \<in> S \<inter> walk_reach s S f. ancestor s x h)"
  using assms unfolding ancestor_def
proof (induction rule: reach.induct)
  case (start h)
  then show ?case by (simp add: walk_reach_def reach_from_def reach.start)
next
  case (parent h h1 c h2)
  note c = GetCommit_Inr [OF parent(2)]
  have step: "ancestor s x h2" if "ancestor s x h1" for x
    using that parent(3) c by (auto intro: ancestor_parent)
  show ?case
  proof (cases "h1 \<in> walk_reach s S h \<and> h1 \<notin> S")
    case True
    then have "h2 \<in> walk_reach s S h"
      unfolding walk_reach_def reach_from_def
      using reach.parent [OF _ parent(2), of "limited (\<lambda>c. c_Hash c \<in> S)" "{}" h h2] parent(3) c by (simp add: limited_def)
    then show ?thesis ..
  next
    case False
    then show ?thesis using parent.IH step ancestor_refl unfolding ancestor_def [symmetric] by blast
  qed
qed

text \<open>The invariant of the walk.\<close>

definition indep_walking :: "commit_store \<Rightarrow> ObjectID \<Rightarrow> ObjectID list \<Rightarrow> Commit list \<Rightarrow> filter_iter \<Rightarrow> indep_vars \<Rightarrow> bool" where
  "indep_walking s f S C w v \<longleftrightarrow> fi_inv s f w \<and> fst v = left f (fi_seen w) C \<and> fst (snd v) = rest f (fi_seen w) C \<and>
     set (snd (snd v)) = set S \<union> fi_seen w \<and>
     fi_seen w \<union> reach_from s (limited (\<lambda>c. c_Hash c \<in> set S)) (fi_seen w) (fi_pending w) = walk_reach s (set S) f"

text \<open>The limit grows during the walk, but only by commits that the walk will not meet again.\<close>

lemma indep_next_round:
  assumes "indep_walking s f S C w v"
  shows "indep_next s v w = fi_round s (\<lambda>c. c_Hash c \<in> set S) w"
proof -
  obtain X D S1 where v: "v = (X, D, S1)" by (cases v)
  have "set S1 = set S \<union> fi_seen w" using assms by (simp add: indep_walking_def v)
  then show ?thesis unfolding v indep_next_def by (simp add: fi_Next_all) (rule fi_round_cong, auto)
qed

lemma indep_walking_start:
  assumes "stored s f"
  shows "indep_walking s (c_Hash f) S C (NewFilterCommitIter f) (C, remove C f, S)"
  using assms ancestor_refl
  by (simp add: indep_walking_def NewFilterCommitIter_def fi_seen_def fi_pending_def fi_inv_def walk_reach_def left_def
      rest_def remove_def)

lemma indep_walking_step:
  assumes I: "indep_walking s f S C w v" and n: "indep_next s v w = (Inr c, w')"
  shows "indep_cb c v =
      (if length (left f (fi_seen w') C) = 1
       then (ErrStop, (left f (fi_seen w') C, rest f (fi_seen w') C, snd (snd v)))
       else (Continue, (left f (fi_seen w') C, rest f (fi_seen w') C, c_Hash c # snd (snd v))))"
    and "indep_walking s f S C w' (left f (fi_seen w') C, rest f (fi_seen w') C, c_Hash c # snd (snd v))"
    and "fi.rank s w' < fi.rank s w" and "fi_seen w' \<subseteq> walk_reach s (set S) f"
proof -
  obtain X D S1 where v: "v = (X, D, S1)" by (cases v)
  have i: "fi_inv s f w" "X = left f (fi_seen w) C" "D = rest f (fi_seen w) C" "set S1 = set S \<union> fi_seen w"
    and r: "fi_seen w \<union> reach_from s (limited (\<lambda>c. c_Hash c \<in> set S)) (fi_seen w) (fi_pending w) = walk_reach s (set S) f"
    using I by (simp_all add: indep_walking_def v)
  note n' = n [unfolded indep_next_round [OF I]]
  have d: "fi_inv s f w'" "c_Hash c \<notin> fi_seen w" "fi_seen w' = insert (c_Hash c) (fi_seen w)"
    using fi.delivers [OF i(1) n'] by blast+
  show "indep_cb c v =
      (if length (left f (fi_seen w') C) = 1
       then (ErrStop, (left f (fi_seen w') C, rest f (fi_seen w') C, snd (snd v)))
       else (Continue, (left f (fi_seen w') C, rest f (fi_seen w') C, c_Hash c # snd (snd v))))"
    using drop_reached_left [OF d(2), of f C] by (simp add: indep_cb_def v i d(3))
  have "fi_seen w' \<union> reach_from s (limited (\<lambda>c. c_Hash c \<in> set S)) (fi_seen w') (fi_pending w') = walk_reach s (set S) f"
    using r fi.reach_from_delivers [OF i(1) n'] d(3) by simp
  then show "indep_walking s f S C w' (left f (fi_seen w') C, rest f (fi_seen w') C, c_Hash c # snd (snd v))"
      and "fi_seen w' \<subseteq> walk_reach s (set S) f"
    using d i(4) by (auto simp: indep_walking_def v)
  show "fi.rank s w' < fi.rank s w" using fi.rank_decreases [OF i(1) n'] .
qed

text \<open>What a walk leaves: the candidates that are not proper ancestors of \<open>f\<close>.\<close>

definition not_below :: "commit_store \<Rightarrow> Commit \<Rightarrow> Commit list \<Rightarrow> Commit list" where
  "not_below s f C = filter (\<lambda>c. c = f \<or> \<not> ancestor s (c_Hash f) (c_Hash c)) C"

lemma left_not_below:
  assumes "f \<in> set C" "distinct (map c_Hash C)" and "V \<subseteq> walk_reach s S (c_Hash f)"
    and "\<And>c. c \<in> set C \<Longrightarrow> c \<noteq> f \<Longrightarrow> ancestor s (c_Hash f) (c_Hash c) \<Longrightarrow> c_Hash c \<in> V"
  shows "left (c_Hash f) V C = not_below s f C"
proof -
  have "c_Hash c = c_Hash f \<longleftrightarrow> c = f" if "c \<in> set C" for c
    using that assms(1,2) by (auto simp: distinct_map dest: inj_onD)
  then show ?thesis
    unfolding left_def not_below_def using assms(3,4) walk_reach_ancestor by (intro filter_cong) auto
qed

lemma left_single:
  assumes "f \<in> set C" "distinct (map c_Hash C)" and "V \<subseteq> walk_reach s S (c_Hash f)" and "length (left (c_Hash f) V C) = 1"
  shows "left (c_Hash f) V C = not_below s f C"
proof (rule left_not_below [OF assms(1-3)])
  fix c assume c: "c \<in> set C" "c \<noteq> f"
  have "f \<in> set (left (c_Hash f) V C)" using assms(1) by (simp add: left_def)
  then have "left (c_Hash f) V C = [f]" using assms(4) by (cases "left (c_Hash f) V C") auto
  then have "c \<notin> set (left (c_Hash f) V C)" using c(2) by simp
  then show "c_Hash c \<in> V" using c(1) by (simp add: left_def)
qed

lemma independents_walk:
  assumes st: "stored s f" and compl: "complete_history s (c_Hash f)"
    and S: "\<And>x c. x \<in> set S \<Longrightarrow> c \<in> set C \<Longrightarrow> ancestor s x (c_Hash c) \<Longrightarrow> c_Hash c = x"
    and f: "f \<in> set C" "distinct (map c_Hash C)"
  shows "\<exists>r v. forEachCommit (indep_next s) indep_cb (NewFilterCommitIter f) (C, remove C f, S) = Some (r, v) \<and>
    r = None \<and> fst v = not_below s f C \<and> (\<forall>x \<in> set (snd (snd v)). x \<in> set S \<or> ancestor s (c_Hash f) x)"
proof (rule forEachCommit_rule [where I = "indep_walking s (c_Hash f) S C" and rank = "fi.rank s"])
  show "indep_walking s (c_Hash f) S C (NewFilterCommitIter f) (C, remove C f, S)" by (rule indep_walking_start [OF st])
next
  fix w v c w' v'
  assume I: "indep_walking s (c_Hash f) S C w v" and n: "indep_next s v w = (Inr c, w')" and cb: "indep_cb c v = (Continue, v')"
  show "indep_walking s (c_Hash f) S C w' v' \<and> fi.rank s w' < fi.rank s w"
    using cb indep_walking_step [OF I n] by (simp split: if_splits)
next
  fix w v c w' v'
  assume I: "indep_walking s (c_Hash f) S C w v" and n: "indep_next s v w = (Inr c, w')" and cb: "indep_cb c v = (ErrStop, v')"
  note step = indep_walking_step [OF I n]
  have v': "v' = (left (c_Hash f) (fi_seen w') C, rest (c_Hash f) (fi_seen w') C, snd (snd v))"
    and one: "length (left (c_Hash f) (fi_seen w') C) = 1" using cb step(1) by (auto split: if_splits)
  have "set (snd (snd v)) \<subseteq> set S \<union> fi_seen w'" using step(2) by (auto simp: indep_walking_def)
  then have "\<forall>x \<in> set (snd (snd v)). x \<in> set S \<or> ancestor s (c_Hash f) x" using step(4) walk_reach_ancestor by blast
  then show "None = None \<and> fst v' = not_below s f C \<and> (\<forall>x \<in> set (snd (snd v')). x \<in> set S \<or> ancestor s (c_Hash f) x)"
    using left_single [OF f step(4) one] by (simp add: v')
next
  fix w v w'
  assume I: "indep_walking s (c_Hash f) S C w v" and n: "indep_next s v w = (Inl EOF, w')"
  have i: "fi_inv s (c_Hash f) w" "fst v = left (c_Hash f) (fi_seen w) C" "set (snd (snd v)) = set S \<union> fi_seen w"
    using I by (simp_all add: indep_walking_def)
  have R: "fi_seen w = walk_reach s (set S) (c_Hash f)"
    using I reach_from_empty [OF fi.ends [OF i(1) n [unfolded indep_next_round [OF I]]]] by (simp add: indep_walking_def)
  have "c_Hash c \<in> fi_seen w" if "c \<in> set C" "ancestor s (c_Hash f) (c_Hash c)" for c
    using ancestor_walk_reach [OF that(2), of "set S"] S that(1) unfolding R by auto
  then show "None = None \<and> fst v = not_below s f C \<and> (\<forall>x \<in> set (snd (snd v)). x \<in> set S \<or> ancestor s (c_Hash f) x)"
    using left_not_below [OF f, of "fi_seen w" s "set S"] R i(2,3) walk_reach_ancestor by auto
next
  fix w v w' e
  assume I: "indep_walking s (c_Hash f) S C w v" and n: "indep_next s v w = (Inl e, w')" "e \<noteq> EOF"
  have "missing s (c_Hash f) e"
    using fi.fails [OF _ n(1) [unfolded indep_next_round [OF I]] n(2)] I unfolding indep_walking_def by blast
  then show "Some e = None \<and> fst v = not_below s f C \<and> (\<forall>x \<in> set (snd (snd v)). x \<in> set S \<or> ancestor s (c_Hash f) x)"
    using complete_not_missing [OF compl] by blast
qed (auto simp: indep_cb_def split: prod.splits if_splits)


subsection \<open>Independents\<close>

lemma indexOf_split:
  assumes "distinct (map c_Hash (A @ f # B))"
  shows "indexOf (A @ f # B) f = int (length A)"
  using assms
proof (induction A)
  case (Cons a A)
  then have "c_Hash f \<noteq> c_Hash a" by auto
  then show ?case using Cons by (simp add: Let_def)
qed simp

text \<open>
  The invariant of the outer loop: \<open>C\<close> are the candidates left of \<open>C0\<close>, each of which is
  reachable from one of them; those before the current one reach no other; a commit seen
  reaches no candidate but itself.
\<close>

definition indep_inv :: "commit_store \<Rightarrow> Commit list \<Rightarrow> Commit list \<Rightarrow> Commit list \<Rightarrow> ObjectID list \<Rightarrow> bool" where
  "indep_inv s C0 A C S \<longleftrightarrow> distinct (map c_Hash C) \<and> set C \<subseteq> set C0 \<and>
     (\<forall>c \<in> set C0. \<exists>d \<in> set C. ancestor s (c_Hash d) (c_Hash c)) \<and>
     (\<forall>a \<in> set A. \<forall>c \<in> set C. ancestor s (c_Hash a) (c_Hash c) \<longrightarrow> c = a) \<and>
     (\<forall>x \<in> set S. \<forall>c \<in> set C. ancestor s x (c_Hash c) \<longrightarrow> c_Hash c = x)"

lemma indep_inv_step:
  assumes "acyclic_history s" and I: "indep_inv s C0 A (A @ f # B) S"
    and S': "\<forall>x \<in> set S'. x \<in> set S \<or> ancestor s (c_Hash f) x"
  shows "indep_inv s C0 (filter (\<lambda>c. \<not> ancestor s (c_Hash f) (c_Hash c)) A @ [f]) (not_below s f (A @ f # B)) S'"
proof -
  let ?C = "A @ f # B" and ?C' = "not_below s f (A @ f # B)"
  have sub: "set ?C' \<subseteq> set ?C" and f: "f \<in> set ?C'" by (auto simp: not_below_def)
  have only: "c = f" if "c \<in> set ?C'" "ancestor s (c_Hash f) (c_Hash c)" for c using that by (auto simp: not_below_def)
  have inj: "c = d" if "c \<in> set ?C" "d \<in> set ?C" "c_Hash c = c_Hash d" for c d
    using that I by (metis indep_inv_def distinct_map inj_onD)
  have "distinct (map c_Hash ?C)" using I by (simp add: indep_inv_def)
  then have "distinct (map c_Hash ?C')" unfolding not_below_def by (rule distinct_map_filter)
  moreover have "set ?C' \<subseteq> set C0" using I sub by (auto simp: indep_inv_def)
  moreover have "\<exists>d \<in> set ?C'. ancestor s (c_Hash d) (c_Hash c)" if "c \<in> set C0" for c
  proof -
    from that I obtain d where d: "d \<in> set ?C" "ancestor s (c_Hash d) (c_Hash c)" unfolding indep_inv_def by blast
    show ?thesis
    proof (cases "d \<in> set ?C'")
      case False
      then have "ancestor s (c_Hash f) (c_Hash d)" using d(1) by (auto simp: not_below_def)
      then show ?thesis using f d(2) ancestor_trans by blast
    qed (use d in blast)
  qed
  moreover have "c = a" if "a \<in> set (filter (\<lambda>c. \<not> ancestor s (c_Hash f) (c_Hash c)) A @ [f])" "c \<in> set ?C'"
      "ancestor s (c_Hash a) (c_Hash c)" for a c
    using that sub only I unfolding indep_inv_def by auto
  moreover have "c_Hash c = x" if x: "x \<in> set S'" and c: "c \<in> set ?C'" "ancestor s x (c_Hash c)" for x c
  proof (cases "x \<in> set S")
    case True
    then show ?thesis using I c sub unfolding indep_inv_def by blast
  next
    case False
    then have fx: "ancestor s (c_Hash f) x" using S' x by blast
    then have "c = f" using only c ancestor_trans by blast
    then show ?thesis using assms(1) fx c(2) unfolding acyclic_history_def by blast
  qed
  ultimately show ?thesis unfolding indep_inv_def by blast
qed

lemma indep_inv_final:
  assumes "acyclic_history s" and "indep_inv s C0 C C S"
    and st: "\<forall>c \<in> set C0. stored s c"
  shows "c_Hash ` set C = independent s (c_Hash ` set C0)"
proof (intro equalityI subsetI)
  have inj: "c = d" if "c \<in> set C0" "d \<in> set C0" "c_Hash c = c_Hash d" for c d
    using that st unfolding stored_def by (metis sum.inject(2))
  fix h assume "h \<in> c_Hash ` set C"
  then obtain c where c: "c \<in> set C" "h = c_Hash c" by blast
  have "d = c" if d: "d \<in> set C0" "ancestor s (c_Hash d) (c_Hash c)" for d
  proof -
    from d(1) assms(2) obtain e where e: "e \<in> set C" "ancestor s (c_Hash e) (c_Hash d)" by (auto simp: indep_inv_def)
    then have "c = e" using assms(2) c(1) d(2) ancestor_trans unfolding indep_inv_def by blast
    then show ?thesis using assms(1,2) inj d e c(1) unfolding acyclic_history_def indep_inv_def by blast
  qed
  then show "h \<in> independent s (c_Hash ` set C0)" using c assms(2) by (auto simp: independent_def indep_inv_def)
next
  fix h assume h: "h \<in> independent s (c_Hash ` set C0)"
  then obtain c where c: "c \<in> set C0" "h = c_Hash c" by (auto simp: independent_def)
  then obtain d where d: "d \<in> set C" "ancestor s (c_Hash d) (c_Hash c)" using assms(2) by (auto simp: indep_inv_def)
  moreover have "c_Hash d \<in> c_Hash ` set C0" using d(1) assms(2) by (auto simp: indep_inv_def)
  ultimately have "c_Hash d = h" using h c(2) by (auto simp: independent_def)
  then show "h \<in> c_Hash ` set C" using d(1) by blast
qed

lemma Independents_loop_ok:
  assumes "acyclic_history s" and st: "\<forall>c \<in> set C0. stored s c \<and> complete_history s (c_Hash c)"
    and I: "indep_inv s C0 A (A @ f # B) S"
  shows "\<exists>R. Independents_loop s (A @ f # B) S (length A) = Some (Inr R) \<and> distinct (map c_Hash R) \<and> set R \<subseteq> set C0 \<and>
    c_Hash ` set R = independent s (c_Hash ` set C0)"
  using I
proof (induction "length B" arbitrary: A f B S rule: less_induct)
  case less
  let ?C = "A @ f # B" and ?P = "\<lambda>c. \<not> ancestor s (c_Hash f) (c_Hash c)"
  have f: "f \<in> set ?C" "distinct (map c_Hash ?C)" "f \<in> set C0"
    and Sx: "\<And>x c. x \<in> set S \<Longrightarrow> c \<in> set ?C \<Longrightarrow> ancestor s x (c_Hash c) \<Longrightarrow> c_Hash c = x"
    using less.prems unfolding indep_inv_def by auto
  from independents_walk [OF _ _ Sx f(1,2)] f(3) st obtain v where
    v: "forEachCommit (indep_next s) indep_cb (NewFilterCommitIter f) (?C, remove ?C f, S) = Some (None, v)"
      "fst v = not_below s f ?C" "\<forall>x \<in> set (snd (snd v)). x \<in> set S \<or> ancestor s (c_Hash f) x" by blast
  have nb: "not_below s f ?C = filter ?P A @ f # filter ?P B"
  proof -
    have "c \<noteq> f" if "c \<in> set A \<union> set B" for c using that f(2) by auto
    then have "filter (\<lambda>c. c = f \<or> ?P c) A = filter ?P A" "filter (\<lambda>c. c = f \<or> ?P c) B = filter ?P B"
      by (auto intro!: filter_cong)
    then show ?thesis by (simp add: not_below_def)
  qed
  note I' = indep_inv_step [OF assms(1) less.prems v(3), unfolded nb]
  have "distinct (map c_Hash (filter ?P A @ f # filter ?P B))" using I' by (simp add: indep_inv_def)
  note ix = indexOf_split [OF this]
  show ?case
  proof (cases "filter ?P B")
    case Nil
    then have "Independents_loop s ?C S (length A) = Some (Inr (filter ?P A @ [f]))"
      by (simp add: Independents_loop.simps [of s ?C] v ix [unfolded Nil] nb)
    moreover have "indep_inv s C0 (filter ?P A @ [f]) (filter ?P A @ [f]) (snd (snd v))" using I' Nil by simp
    moreover from this have "c_Hash ` set (filter ?P A @ [f]) = independent s (c_Hash ` set C0)"
      using indep_inv_final [OF assms(1)] st by blast
    ultimately show ?thesis unfolding indep_inv_def by blast
  next
    case (Cons f' B')
    have "length B' < length B" using Cons length_filter_le [of ?P B] by simp
    moreover have "indep_inv s C0 (filter ?P A @ [f]) ((filter ?P A @ [f]) @ f' # B') (snd (snd v))" using I' Cons by simp
    ultimately have "\<exists>R. Independents_loop s ((filter ?P A @ [f]) @ f' # B') (snd (snd v)) (length (filter ?P A @ [f])) = Some (Inr R) \<and>
        distinct (map c_Hash R) \<and> set R \<subseteq> set C0 \<and> c_Hash ` set R = independent s (c_Hash ` set C0)"
      by (rule less.hyps)
    moreover have "Independents_loop s ?C S (length A) =
        Independents_loop s ((filter ?P A @ [f]) @ f' # B') (snd (snd v)) (length (filter ?P A @ [f]))"
      using Cons by (simp add: Independents_loop.simps [of s ?C] v ix [unfolded Cons] nb nat_add_distrib)
    ultimately show ?thesis by simp
  qed
qed


lemma removeDuplicated_loop:
  "distinct (map c_Hash (removeDuplicated_loop seen cs)) \<and> set (removeDuplicated_loop seen cs) \<subseteq> set cs \<and>
   c_Hash ` set (removeDuplicated_loop seen cs) = c_Hash ` set cs - set seen"
  by (induction seen cs rule: removeDuplicated_loop.induct) auto

lemma removeDuplicated_ok:
  "distinct (map c_Hash (removeDuplicated cs))" "set (removeDuplicated cs) \<subseteq> set cs"
  "c_Hash ` set (removeDuplicated cs) = c_Hash ` set cs"
  using removeDuplicated_loop [of "[]" cs] by (simp_all add: removeDuplicated_def)

lemma rearranges_set: "rearranges srt \<Longrightarrow> set (srt cs) = set cs"
  unfolding rearranges_def by (metis set_mset_mset)

lemma Independents_ok:
  assumes "acyclic_history s" and "rearranges srt" and st: "\<forall>c \<in> set cs. stored s c \<and> complete_history s (c_Hash c)"
  shows "\<exists>R. Independents srt s cs = Some (Inr R) \<and> distinct (map c_Hash R) \<and> set R \<subseteq> set cs \<and>
    c_Hash ` set R = independent s (c_Hash ` set cs)"
proof -
  let ?C = "removeDuplicated (srt cs)"
  note C = removeDuplicated_ok [of "srt cs", unfolded rearranges_set [OF assms(2)]]
  show ?thesis
  proof (cases ?C)
    case Nil
    then show ?thesis using C by (simp add: Independents_def independent_def)
  next
    case (Cons f B)
    show ?thesis
    proof (cases B)
      case Nil
      with Cons have "?C = [f]" by simp
      moreover from this have "c_Hash ` set cs = {c_Hash f}" using C(3) by simp
      moreover have "independent s {c_Hash f} = {c_Hash f}" by (auto simp: independent_def)
      ultimately show ?thesis using C(2) by (simp add: Independents_def)
    next
      case Cons': (Cons g B')
      have "indep_inv s ?C [] ([] @ f # B) []"
        using C(1) ancestor_refl unfolding indep_inv_def Cons by auto
      from Independents_loop_ok [OF assms(1) _ this] obtain R where
        "Independents_loop s ?C [] 0 = Some (Inr R)" "distinct (map c_Hash R)" "set R \<subseteq> set ?C"
        "c_Hash ` set R = independent s (c_Hash ` set ?C)" using C(2) st Cons by auto
      then show ?thesis using C Cons Cons' by (simp add: Independents_def Let_def) blast
    qed
  qed
qed

subsection \<open>The history of one commit\<close>

text \<open>The invariant of the walk of \<open>ancestorsIndex\<close>.\<close>

definition indexing :: "commit_store \<Rightarrow> Commit \<Rightarrow> ObjectID \<Rightarrow> bfs_iter \<Rightarrow> ObjectID list \<Rightarrow> bool" where
  "indexing s excluded f w hist \<longleftrightarrow> bfs_inv s f w \<and> set hist = bfs_blocked w \<and> c_Hash excluded \<notin> set hist \<and>
     set hist \<union> reach_from s c_ParentHashes (bfs_blocked w) (bfs_pending w) = {h. ancestor s f h}"

lemma ancestorsIndex_ok:
  assumes "stored s starting" and "complete_history s (c_Hash starting)"
  shows "if oid_String (c_Hash excluded) = oid_String (c_Hash starting) \<or> ancestor s (c_Hash starting) (c_Hash excluded)
    then ancestorsIndex s excluded starting = Some (Inl ErrIsReachable)
    else \<exists>hist. ancestorsIndex s excluded starting = Some (Inr hist) \<and> set hist = {h. ancestor s (c_Hash starting) h}"
proof -
  let ?f = "c_Hash starting"
  have "\<exists>r hist. forEachCommit (\<lambda>_. bfs_Next s) (index_cb excluded) (NewCommitIterBSF starting [] []) [] = Some (r, hist) \<and>
      (case r of None \<Rightarrow> \<not> ancestor s ?f (c_Hash excluded) \<and> set hist = {h. ancestor s ?f h}
       | Some e \<Rightarrow> e = ErrIsReachable \<and> ancestor s ?f (c_Hash excluded))"
  proof (rule forEachCommit_rule [where I = "indexing s excluded ?f" and rank = "bfs.rank s"])
    show "indexing s excluded ?f (NewCommitIterBSF starting [] []) []"
      using assms(1)
      by (simp add: indexing_def bfs_inv_def NewCommitIterBSF_def bfs_blocked_def bfs_pending_def ancestor_refl reach_from_def
          ancestor_def [symmetric])
  next
    fix w hist c w' hist'
    assume I: "indexing s excluded ?f w hist" and n: "bfs_Next s w = (Inr c, w')" and cb: "index_cb excluded c hist = (Continue, hist')"
    have i: "bfs_inv s ?f w" using I by (simp add: indexing_def)
    have "bfs_inv s ?f w'" "bfs_blocked w' = insert (c_Hash c) (bfs_blocked w)" using bfs.delivers [OF i n] by blast+
    then show "indexing s excluded ?f w' hist' \<and> bfs.rank s w' < bfs.rank s w"
      using I cb bfs.rank_decreases [OF i n] bfs.reach_from_delivers [OF i n]
      by (simp add: indexing_def index_cb_def split: if_splits) auto
  next
    fix w hist c w' hist' e
    assume I: "indexing s excluded ?f w hist" and n: "bfs_Next s w = (Inr c, w')" and cb: "index_cb excluded c hist = (Fail e, hist')"
    have "c_Hash c \<in> {h. ancestor s ?f h}" using I bfs.reach_from_delivers [OF _ n] by (auto simp: indexing_def)
    then show "case Some e of None \<Rightarrow> \<not> ancestor s ?f (c_Hash excluded) \<and> set hist' = {h. ancestor s ?f h}
        | Some e \<Rightarrow> e = ErrIsReachable \<and> ancestor s ?f (c_Hash excluded)"
      using cb by (simp add: index_cb_def split: if_splits)
  next
    fix w hist w'
    assume I: "indexing s excluded ?f w hist" and n: "bfs_Next s w = (Inl EOF, w')"
    have "set hist = {h. ancestor s ?f h}"
      using I reach_from_empty [OF bfs.ends [OF _ n]] unfolding indexing_def by blast
    then show "case None of None \<Rightarrow> \<not> ancestor s ?f (c_Hash excluded) \<and> set hist = {h. ancestor s ?f h}
        | Some e \<Rightarrow> e = ErrIsReachable \<and> ancestor s ?f (c_Hash excluded)"
      using I unfolding indexing_def by auto
  next
    fix w hist w' e
    assume I: "indexing s excluded ?f w hist" and n: "bfs_Next s w = (Inl e, w')" "e \<noteq> EOF"
    then show "case Some e of None \<Rightarrow> \<not> ancestor s ?f (c_Hash excluded) \<and> set hist = {h. ancestor s ?f h}
        | Some e \<Rightarrow> e = ErrIsReachable \<and> ancestor s ?f (c_Hash excluded)"
      using bfs.fails [OF _ n] complete_not_missing [OF assms(2)] unfolding indexing_def by blast
  qed (auto simp: index_cb_def split: if_splits)
  then obtain r hist where r: "forEachCommit (\<lambda>_. bfs_Next s) (index_cb excluded) (NewCommitIterBSF starting [] []) [] = Some (r, hist)"
    "case r of None \<Rightarrow> \<not> ancestor s ?f (c_Hash excluded) \<and> set hist = {h. ancestor s ?f h}
       | Some e \<Rightarrow> e = ErrIsReachable \<and> ancestor s ?f (c_Hash excluded)" by blast
  then show ?thesis by (cases r) (auto simp: ancestorsIndex_def)
qed


subsection \<open>Common ancestors\<close>

text \<open>
  The commits of the first one's history met on the way down from the second: every common
  ancestor is reachable from one of them.
\<close>

definition frontier :: "commit_store \<Rightarrow> ObjectID \<Rightarrow> ObjectID \<Rightarrow> ObjectID set" where
  "frontier s newer older =
     {h \<in> reach_from s (limited (\<lambda>c. c_Hash c \<in> {h. ancestor s newer h})) {} {older}. ancestor s newer h}"

lemma frontier_covers:
  assumes "ancestor s older h" and "ancestor s newer h"
  shows "\<exists>x \<in> frontier s newer older. ancestor s x h"
proof -
  let ?L = "limited (\<lambda>c. c_Hash c \<in> {h. ancestor s newer h})"
  have "ancestor s newer h \<longrightarrow> (\<exists>x \<in> frontier s newer older. ancestor s x h)"
    and "\<not> ancestor s newer h \<longrightarrow> reach s ?L {} older h"
    if "reach s c_ParentHashes {} older h" for h
    using that
  proof (induction rule: reach.induct)
    case (start h)
    { case 1 then show ?case by (auto simp: frontier_def reach_from_def intro: reach.start ancestor_refl) }
    { case 2 then show ?case by (auto intro: reach.start) }
  next
    case (parent h h1 c h2)
    note c = GetCommit_Inr [OF parent(2)]
    have down: "reach s ?L {} h h2" if "\<not> ancestor s newer h1"
    proof (rule reach.parent [OF _ parent(2)])
      show "reach s ?L {} h h1" using parent.IH(2) that by blast
      show "h2 \<in> set (?L c)" using that parent(3) c by (simp add: limited_def)
    qed simp
    { case 1
      show ?case
      proof (cases "ancestor s newer h1")
        case True
        then obtain x where "x \<in> frontier s newer h" "ancestor s x h1" using parent.IH(1) by blast
        then show ?thesis using parent(3) c ancestor_parent [of s x c h2] by blast
      next
        case False
        then show ?thesis using down ancestor_refl by (auto simp: frontier_def reach_from_def)
      qed }
    { case 2
      show ?case
      proof (cases "ancestor s newer h1")
        case True
        then have "ancestor s newer h2" using parent(3) c ancestor_parent [of s newer c h2] by blast
        then show ?thesis by simp
      qed (use down in blast) }
  qed
  then show ?thesis using assms unfolding ancestor_def by blast
qed

lemma frontier_common: "h \<in> frontier s newer older \<Longrightarrow> ancestor s newer h \<and> ancestor s older h"
proof -
  have "ancestor s older h" if "reach s (limited L) {} older h" for L h
    using that by (induction rule: reach.induct) (auto simp: ancestor_def limited_def intro: reach.intros split: if_splits)
  then show "h \<in> frontier s newer older \<Longrightarrow> ancestor s newer h \<and> ancestor s older h"
    by (auto simp: frontier_def reach_from_def)
qed

lemma independent_frontier:
  assumes "acyclic_history s"
  shows "independent s (frontier s newer older) = best_common_ancestors s newer older"
proof (intro equalityI subsetI)
  fix h assume h: "h \<in> independent s (frontier s newer older)"
  then have hf: "h \<in> frontier s newer older" and top: "\<And>x. x \<in> frontier s newer older \<Longrightarrow> ancestor s x h \<Longrightarrow> x = h"
    by (auto simp: independent_def)
  have "x = h" if "ancestor s newer x" "ancestor s older x" "ancestor s x h" for x
  proof -
    from frontier_covers [OF that(2,1)] obtain y where y: "y \<in> frontier s newer older" "ancestor s y x" by blast
    then have "y = h" using top that(3) ancestor_trans by blast
    then show ?thesis using assms y(2) that(3) unfolding acyclic_history_def by blast
  qed
  then show "h \<in> best_common_ancestors s newer older"
    using frontier_common [OF hf] by (auto simp: best_common_ancestors_def independent_def)
next
  fix h assume h: "h \<in> best_common_ancestors s newer older"
  then have c: "ancestor s newer h" "ancestor s older h"
    and top: "\<And>x. ancestor s newer x \<Longrightarrow> ancestor s older x \<Longrightarrow> ancestor s x h \<Longrightarrow> x = h"
    by (auto simp: best_common_ancestors_def independent_def)
  from frontier_covers [OF c(2,1)] obtain y where y: "y \<in> frontier s newer older" "ancestor s y h" by blast
  then have "y = h" using top frontier_common by blast
  with y(1) show "h \<in> independent s (frontier s newer older)"
    using top frontier_common unfolding independent_def by blast
qed

lemma best_common_ancestors_sym: "best_common_ancestors s a b = best_common_ancestors s b a"
  by (simp add: best_common_ancestors_def conj_commute)

lemma best_common_ancestors_reachable:
  assumes "acyclic_history s" and "ancestor s newer older"
  shows "best_common_ancestors s newer older = {older}"
  using assms unfolding best_common_ancestors_def independent_def acyclic_history_def
  by (auto intro: ancestor_refl)


subsection \<open>Properties\<close>

text \<open>A store whose hashes are well formed and of one format, and whose history has no cycle.\<close>

definition store_ok :: "commit_store \<Rightarrow> bool" where
  "store_ok s \<longleftrightarrow> acyclic_history s \<and>
     (\<forall>c \<in> set s. \<forall>d \<in> set s. oid_ok (c_Hash c) \<and> oid_format (c_Hash c) = oid_format (c_Hash d))"

lemma sort_two:
  assumes "rearranges srt"
  shows "srt [c, d] = [c, d] \<or> srt [c, d] = [d, c]"
proof -
  have m: "mset (srt [c, d]) = {#c, d#}" using assms by (simp add: rearranges_def)
  then have "length (srt [c, d]) = 2" by (metis size_mset mset.simps length_Cons list.size(3) numeral_2_eq_2)
  then obtain x y where xy: "srt [c, d] = [x, y]" by (metis (no_types) length_0_conv length_Suc_conv numeral_2_eq_2)
  with m have "x = c \<and> y = d \<or> x = d \<and> y = c" by (auto simp: add_eq_conv_ex)
  with xy show ?thesis by auto
qed

lemma MergeBase_sorted:
  assumes ok: "store_ok s" and srt: "rearranges srt" and sorted: "srt [c, other] = [newer, older]"
    and n: "stored s newer" "complete_history s (c_Hash newer)" and o: "stored s older" "complete_history s (c_Hash older)"
  shows "\<exists>res. MergeBase srt s c other = Some (Inr res) \<and> distinct (map c_Hash res) \<and> (\<forall>b \<in> set res. stored s b) \<and>
    c_Hash ` set res = best_common_ancestors s (c_Hash newer) (c_Hash older)"
proof -
  have ac: "acyclic_history s" using ok by (simp add: store_ok_def)
  have str: "oid_String (c_Hash older) = oid_String (c_Hash newer) \<longleftrightarrow> c_Hash older = c_Hash newer"
    using ok n(1) o(1) stored_in oid_String_inj unfolding store_ok_def by metis
  show ?thesis
  proof (cases "ancestor s (c_Hash newer) (c_Hash older)")
    case True
    then have "ancestorsIndex s older newer = Some (Inl ErrIsReachable)" using ancestorsIndex_ok [OF n, of older] by simp
    then have "MergeBase srt s c other = Some (Inr [older])" by (simp add: MergeBase_def sorted)
    then show ?thesis using best_common_ancestors_reachable [OF ac True] o(1) by simp
  next
    case False
    then have "oid_String (c_Hash older) \<noteq> oid_String (c_Hash newer)" using str ancestor_refl by metis
    then obtain hist where hist: "ancestorsIndex s older newer = Some (Inr hist)" "set hist = {h. ancestor s (c_Hash newer) h}"
      using ancestorsIndex_ok [OF n, of older] False by auto
    let ?L = "\<lambda>c. c_Hash c \<in> set hist"
    have "fi_inv s (c_Hash older) (NewFilterCommitIter older)"
      using o(1) ancestor_refl by (simp add: fi_inv_def NewFilterCommitIter_def)
    from fi.complete_walk [OF this o(2), of ?L ?L] obtain cs where
      cs: "forEachCommit (\<lambda>_. fi_Next s ?L ?L) collect (NewFilterCommitIter older) [] = Some (None, cs)"
        "fi.delivered s ?L (NewFilterCommitIter older) ?L cs" by (auto simp: filtered_walk)
    have F: "c_Hash ` set cs = frontier s (c_Hash newer) (c_Hash older)" "\<forall>c \<in> set cs. stored s c"
      using cs(2) unfolding fi.delivered_def frontier_def hist(2)
      by (auto simp: fi_seen_def fi_pending_def NewFilterCommitIter_def image_iff)
    then have "\<forall>c \<in> set cs. stored s c \<and> complete_history s (c_Hash c)"
      using frontier_common complete_ancestor [OF o(2)] by blast
    from Independents_ok [OF ac srt this] obtain R where
      "Independents srt s cs = Some (Inr R)" "distinct (map c_Hash R)" "set R \<subseteq> set cs"
      "c_Hash ` set R = best_common_ancestors s (c_Hash newer) (c_Hash older)"
      unfolding F(1) independent_frontier [OF ac] by blast
    then show ?thesis using F(2) hist(1) cs(1) by (auto simp: MergeBase_def sorted)
  qed
qed

text \<open>
  \<^bold>\<open>C2\<close>. \<open>MergeBase\<close> returns exactly the best common ancestors: the common ancestors of the two
  commits that are not reachable from another common ancestor, each once, whatever the dates
  of the commits say and in whatever order the sort leaves equal dates. The histories of both
  are complete and without cycles, and the store's hashes are of one format.
\<close>

theorem MergeBase_best_common_ancestors:
  assumes "store_ok s" and "rearranges srt"
    and "stored s c" "complete_history s (c_Hash c)" and "stored s other" "complete_history s (c_Hash other)"
  shows "\<exists>res. MergeBase srt s c other = Some (Inr res) \<and> distinct (map c_Hash res) \<and> (\<forall>b \<in> set res. stored s b) \<and>
    c_Hash ` set res = {h. ancestor s (c_Hash c) h \<and> ancestor s (c_Hash other) h \<and>
      (\<forall>h'. ancestor s (c_Hash c) h' \<and> ancestor s (c_Hash other) h' \<and> ancestor s h' h \<longrightarrow> h' = h)}"
proof -
  have eq: "{h. ancestor s (c_Hash c) h \<and> ancestor s (c_Hash other) h \<and>
      (\<forall>h'. ancestor s (c_Hash c) h' \<and> ancestor s (c_Hash other) h' \<and> ancestor s h' h \<longrightarrow> h' = h)} =
      best_common_ancestors s (c_Hash c) (c_Hash other)"
    by (auto simp: best_common_ancestors_def independent_def)
  from sort_two [OF assms(2)] show ?thesis
    using MergeBase_sorted [OF assms(1,2) _ assms(3-6)] MergeBase_sorted [OF assms(1,2) _ assms(5,6,3,4)]
    unfolding eq by (metis best_common_ancestors_sym)
qed

text \<open>
  \<^bold>\<open>C28\<close>. \<open>Independents\<close> returns exactly the commits of its argument that no other of them reaches,
  each once; the walks it cuts short at commits seen before lose nothing.
\<close>

theorem Independents_not_reachable:
  assumes "acyclic_history s" and "rearranges srt" and "\<forall>c \<in> set cs. stored s c \<and> complete_history s (c_Hash c)"
  shows "\<exists>R. Independents srt s cs = Some (Inr R) \<and> distinct (map c_Hash R) \<and> set R \<subseteq> set cs \<and>
    c_Hash ` set R = {h \<in> c_Hash ` set cs. \<forall>h' \<in> c_Hash ` set cs. ancestor s h' h \<longrightarrow> h' = h}"
  using Independents_ok [OF assms] by (simp only: independent_def)


lemma stable_rearranges: "rearranges stable_by_date" by (simp add: rearranges_def stable_by_date_def)

lemma two_commits_ancestor: "ancestor two_commits h h' \<longleftrightarrow> h' = h \<or> h = oid_n 1 \<and> h' = oid_n 2"
proof
  assume "ancestor two_commits h h'"
  then show "h' = h \<or> h = oid_n 1 \<and> h' = oid_n 2"
    unfolding ancestor_def by (induction rule: reach.induct) (auto simp: two_commits_def GetCommit_def oid_n_def split: if_splits)
next
  have "GetCommit two_commits (oid_n 1) = Inr (hd two_commits)" by (simp add: two_commits_def GetCommit_def)
  from reach.parent [where succs = c_ParentHashes and B = "{}" and ?h2.0 = "oid_n 2", OF reach.start this]
  have "reach two_commits c_ParentHashes {} (oid_n 1) (oid_n 2)" by (simp add: two_commits_def)
  then show "h' = h \<or> h = oid_n 1 \<and> h' = oid_n 2 \<Longrightarrow> ancestor two_commits h h'"
    by (auto simp: ancestor_def intro: reach.start)
qed

lemma two_commits_ok:
  "store_ok two_commits" "stored two_commits (hd two_commits)" "stored two_commits (last two_commits)"
  "complete_history two_commits (oid_n 2)" "c_Hash (hd two_commits) = oid_n 1" "c_Hash (last two_commits) = oid_n 2"
proof -
  have ne: "oid_n 1 \<noteq> oid_n 2" by (simp add: oid_n_def)
  have "acyclic_history two_commits" using ne by (auto simp: acyclic_history_def two_commits_ancestor)
  moreover have "oid_ok (oid_n 1)" "oid_ok (oid_n 2)"
    by (simp_all add: oid_n_def oid_ok_def oid_Size_def nth_Cons')
  ultimately show "store_ok two_commits" by (simp add: store_ok_def two_commits_def oid_n_def)
  show "stored two_commits (hd two_commits)" "stored two_commits (last two_commits)"
    "c_Hash (hd two_commits) = oid_n 1" "c_Hash (last two_commits) = oid_n 2"
    using ne by (simp_all add: two_commits_def stored_def GetCommit_def)
  show "complete_history two_commits (oid_n 2)"
    using complete_ancestor [OF two_commits_complete] two_commits_ancestor by blast
qed

lemma MergeBase_best_common_ancestors_witness:
  "store_ok two_commits \<and> rearranges stable_by_date \<and>
   (\<exists>res. MergeBase stable_by_date two_commits (hd two_commits) (last two_commits) = Some (Inr res) \<and>
     oid_n 2 \<in> c_Hash ` set res)"
proof -
  have "complete_history two_commits (c_Hash (hd two_commits))" "complete_history two_commits (c_Hash (last two_commits))"
    using two_commits_complete two_commits_ok(4-6) by simp_all
  from MergeBase_best_common_ancestors [OF two_commits_ok(1) stable_rearranges two_commits_ok(2) this(1) two_commits_ok(3) this(2)]
  show ?thesis using two_commits_ok(1) stable_rearranges by (auto simp: two_commits_ok(5,6) two_commits_ancestor)
qed

lemma Independents_not_reachable_witness:
  "acyclic_history two_commits \<and>
   (\<exists>R. Independents stable_by_date two_commits two_commits = Some (Inr R) \<and> c_Hash ` set R = {oid_n 1})"
proof -
  have ac: "acyclic_history two_commits" using two_commits_ok(1) by (simp add: store_ok_def)
  have tc: "two_commits = [hd two_commits, last two_commits]" by (simp add: two_commits_def)
  then have "set two_commits = {hd two_commits, last two_commits}" by (metis list.simps(15) empty_set)
  then have "\<forall>c \<in> set two_commits. stored two_commits c \<and> complete_history two_commits (c_Hash c)"
    and "c_Hash ` set two_commits = {oid_n 1, oid_n 2}"
    using two_commits_ok two_commits_complete by auto
  from Independents_not_reachable [OF ac stable_rearranges this(1), unfolded this(2)] ac
  show ?thesis by (auto simp: two_commits_ancestor)
qed

text \<open>The invariant of the walk of \<open>IsAncestor\<close>: the commit has not been met.\<close>

definition searching :: "commit_store \<Rightarrow> Commit \<Rightarrow> ObjectID \<Rightarrow> pre_iter \<Rightarrow> bool \<Rightarrow> bool" where
  "searching s c f w found \<longleftrightarrow> \<not> found \<and> pre_inv s f w \<and> c_Hash c \<notin> pre_blocked w \<and>
     pre_blocked w \<union> reach_from s c_ParentHashes (pre_blocked w) (pre_pending w) = {h. ancestor s f h}"

lemma searching_step:
  assumes "searching s c f w found" and n: "pre_Next s w = (Inr c', w')"
  shows "ancestor s f (c_Hash c')" and "c_Hash c' \<noteq> c_Hash c \<Longrightarrow> searching s c f w' found" and "pre.rank s w' < pre.rank s w"
proof -
  have i: "\<not> found" "pre_inv s f w" "c_Hash c \<notin> pre_blocked w"
    "pre_blocked w \<union> reach_from s c_ParentHashes (pre_blocked w) (pre_pending w) = {h. ancestor s f h}"
    using assms(1) by (simp_all add: searching_def)
  have d: "pre_inv s f w'" "pre_blocked w' = insert (c_Hash c') (pre_blocked w)" using pre.delivers [OF i(2) n] by blast+
  note r = pre.reach_from_delivers [OF i(2) n]
  show "ancestor s f (c_Hash c')" using i(4) r by blast
  show "searching s c f w' found" if "c_Hash c' \<noteq> c_Hash c" using that i d r by (auto simp: searching_def)
  show "pre.rank s w' < pre.rank s w" using pre.rank_decreases [OF i(2) n] .
qed

lemma IsAncestor_walk:
  assumes "stored s other"
  shows "\<exists>r found. forEachCommit (\<lambda>_. pre_Next s) (ancestor_cb c) (NewCommitPreorderIter other [] []) False = Some (r, found) \<and>
    (case r of None \<Rightarrow> found = ancestor s (c_Hash other) (c_Hash c) | Some e \<Rightarrow> \<not> found \<and> missing s (c_Hash other) e)"
proof (rule forEachCommit_rule [where rank = "pre.rank s" and I = "searching s c (c_Hash other)"])
  show "searching s c (c_Hash other) (NewCommitPreorderIter other [] []) False"
    using assms by (simp add: searching_def NewCommitPreorderIter_def pre_inv_def pre_blocked_def pre_pending_def ancestor_refl
        reach_from_def ancestor_def [symmetric])
next
  fix w found c' w' found'
  assume I: "searching s c (c_Hash other) w found" and n: "pre_Next s w = (Inr c', w')"
    and "ancestor_cb c c' found = (Continue, found')"
  then show "searching s c (c_Hash other) w' found' \<and> pre.rank s w' < pre.rank s w"
    using searching_step [OF I n] by (simp add: ancestor_cb_def split: if_splits)
next
  fix w found c' w' found'
  assume I: "searching s c (c_Hash other) w found" and n: "pre_Next s w = (Inr c', w')"
    and "ancestor_cb c c' found = (ErrStop, found')"
  then show "case None of None \<Rightarrow> found' = ancestor s (c_Hash other) (c_Hash c) | Some e \<Rightarrow> \<not> found' \<and> missing s (c_Hash other) e"
    using searching_step(1) [OF I n] by (simp add: ancestor_cb_def split: if_splits)
next
  fix w found w'
  assume I: "searching s c (c_Hash other) w found" and n: "pre_Next s w = (Inl EOF, w')"
  have "pre_blocked w = {h. ancestor s (c_Hash other) h}"
    using I reach_from_empty [OF pre.ends [OF _ n]] unfolding searching_def by blast
  then show "case None of None \<Rightarrow> found = ancestor s (c_Hash other) (c_Hash c) | Some e \<Rightarrow> \<not> found \<and> missing s (c_Hash other) e"
    using I by (auto simp: searching_def)
next
  fix w found w' e
  assume "searching s c (c_Hash other) w found" and n: "pre_Next s w = (Inl e, w')" "e \<noteq> EOF"
  then show "case Some e of None \<Rightarrow> found = ancestor s (c_Hash other) (c_Hash c) | Some e \<Rightarrow> \<not> found \<and> missing s (c_Hash other) e"
    using pre.fails [OF _ n] by (auto simp: searching_def)
qed (auto simp: ancestor_cb_def split: if_splits)

text \<open>
  \<^bold>\<open>C37\<close>. \<open>IsAncestor\<close> always returns, even on a history with cycles or gaps. When it reports no
  error its answer is exact, with an error it never answers yes, and it reports an error only
  when a commit of the history is missing.
\<close>

theorem IsAncestor_iff:
  assumes "stored s other"
  shows "\<exists>found err. IsAncestor s c other = Some (found, err) \<and>
    (err = None \<longrightarrow> (found \<longleftrightarrow> ancestor s (c_Hash other) (c_Hash c))) \<and> (err \<noteq> None \<longrightarrow> \<not> found) \<and>
    (complete_history s (c_Hash other) \<longrightarrow> err = None)"
  using IsAncestor_walk [OF assms, of c] complete_not_missing [of s "c_Hash other"]
  by (fastforce simp: IsAncestor_def split: option.splits)

lemma IsAncestor_iff_witness:
  "stored two_commits (hd two_commits) \<and>
   (\<exists>found err. IsAncestor two_commits (last two_commits) (hd two_commits) = Some (found, err) \<and> found)"
  using IsAncestor_iff [OF two_commits_ok(2), of "last two_commits"] two_commits_ok(2) two_commits_complete
  by (auto simp: two_commits_ok(5,6) two_commits_ancestor)

text \<open>
  \<open>MergeBase\<close> drops the error of its walk over the older commit's history: when a parent of
  the older commit is missing from the store it answers, without an error, that there is no
  common ancestor. The walk over the newer commit's history reports such an error.
\<close>

theorem MergeBase_drops_error:
  assumes "rearranges srt" and "srt [c, other] = [newer, older]"
    and "stored s newer" "complete_history s (c_Hash newer)"
    and "\<not> ancestor s (c_Hash newer) (c_Hash older)" "oid_String (c_Hash older) \<noteq> oid_String (c_Hash newer)"
    and "p \<in> set (c_ParentHashes older)" "GetCommit s p = Inl err" "p \<noteq> c_Hash older"
  shows "MergeBase srt s c other = Some (Inr [])"
proof -
  from ancestorsIndex_ok [OF assms(3,4), of older] assms(5,6) obtain hist where
    hist: "ancestorsIndex s older newer = Some (Inr hist)" "c_Hash older \<notin> set hist" by auto
  let ?L = "\<lambda>c. c_Hash c \<in> set hist" and ?w = "\<lparr>fi_visited = [c_Hash older], fi_queue = [], fi_lastErr = None\<rparr>"
  obtain r w where a: "addToQueue s (c_ParentHashes older) ?w = (r, w)" by fastforce
  have "r \<noteq> None"
  proof
    assume "r = None"
    then have "p \<in> fi_pending w \<union> fi_seen w" using addToQueue_result [OF a] assms(7) by auto
    moreover have "\<forall>c \<in> set (fi_queue w). stored s c" "fi_seen w = {c_Hash older}"
      using addToQueue_frame [OF a] by (auto simp: fi_seen_def)
    ultimately show False using assms(8,9) by (auto simp: fi_pending_def stored_def)
  qed
  then obtain e where "r = Some e" by blast
  then have "fi_round s ?L (NewFilterCommitIter older) = (Inl (StoreError e), fi_close (StoreError e) w)"
    using a hist(2) by (simp add: fi_round_def NewFilterCommitIter_def popNewFromQueue.simps)
  then have "forEachCommit (\<lambda>_. fi_Next s ?L ?L) collect (NewFilterCommitIter older) [] = Some (Some (StoreError e), [])"
    by (simp add: forEachCommit.simps fi_Next.simps)
  moreover have "srt [] = []" using rearranges_set [OF assms(1), of "[]"] by simp
  then have "Independents srt s [] = Some (Inr [])" by (simp add: Independents_def removeDuplicated_def)
  ultimately show ?thesis using hist(1) by (simp add: MergeBase_def assms(2))
qed

lemma MergeBase_drops_error_witness:
  "let newer = \<lparr>c_Hash = oid_n 1, c_ParentHashes = [], c_When = 9\<rparr>;
       older = \<lparr>c_Hash = oid_n 3, c_ParentHashes = [oid_n 4], c_When = 2\<rparr> in
   MergeBase stable_by_date [newer, older] newer older = Some (Inr [])"
proof -
  let ?n = "\<lparr>c_Hash = oid_n 1, c_ParentHashes = [], c_When = 9\<rparr>"
  let ?o = "\<lparr>c_Hash = oid_n 3, c_ParentHashes = [oid_n 4], c_When = 2\<rparr>"
  let ?s = "[?n, ?o]"
  have "h = x" if "reach ?s c_ParentHashes {} x h" "x = oid_n 1" for x h
    using that by (induction rule: reach.induct) (auto simp: GetCommit_def)
  then have anc: "ancestor ?s (oid_n 1) h \<longleftrightarrow> h = oid_n 1" for h by (auto simp: ancestor_def intro: reach.start)
  have g: "GetCommit ?s (oid_n 1) = Inr ?n" "GetCommit ?s (oid_n 4) = Inl ErrObjectNotFound" "oid_n 1 \<noteq> oid_n 3" "oid_n 4 \<noteq> oid_n 3"
    by (simp_all add: GetCommit_def oid_n_def)
  then have "complete_history ?s (c_Hash ?n)" by (auto simp: complete_history_def anc)
  moreover have "stable_by_date [?n, ?o] = [?n, ?o]" by (simp add: stable_by_date_def)
  moreover have "oid_String (oid_n 3) \<noteq> oid_String (oid_n 1)" by code_simp
  ultimately show ?thesis
    using MergeBase_drops_error [OF stable_rearranges, of ?n ?o ?n ?o ?s "oid_n 4" ErrObjectNotFound] g anc
    by (simp add: stored_def)
qed

end
