(* ===== verification/Cache_LRU.thy ===== *)
theory Cache_LRU
  imports Go_Prelude
begin

text \<open>
  The object and buffer caches: \<open>plumbing/cache\<close> (\<open>common.go\<close>, \<open>object_lru.go\<close>, \<open>buffer_lru.go\<close>).
  The state keeps what the code keeps: the elements of a \<open>container/list\<close> in a store of their own
  (an element is an address), the list as the sequence of addresses from front to back, and
  the map from keys to elements, \<open>None\<close> when it is still nil. \<open>FileSize\<close> is \<open>int64\<close>: sizes are integers,
  and the sums and differences of the code wrap.

  \<open>lru_inv\<close> ties the three together. Under it, and as long as the sum of the sizes stays in the range
  of the counter, the operations refine those of a plain list of values, most recently used first, cut
  to the longest prefix that fits: the size limit is never exceeded, and what \<open>Get\<close> returns is what was
  last \<open>Put\<close> under the key. Without that condition the limit can be exceeded
  (\<open>ObjectLRU_overflow\<close>). The contract of the package's interface \<open>Object\<close> is the locale \<open>value_cache\<close>;
  both caches are interpretations.
\<close>

type_synonym FileSize = int

record ('k, 'v) lru =
  MaxSize :: FileSize
  actualSize :: FileSize
  ll :: "nat list"
  elems :: "nat \<Rightarrow> 'v option"
  cache :: "('k \<Rightarrow> nat option) option"
  fresh_elem :: nat

definition NewLRU :: "FileSize \<Rightarrow> ('k, 'v) lru" where
  "NewLRU maxSize =
     \<lparr>MaxSize = maxSize, actualSize = 0, ll = [], elems = (\<lambda>_. None), cache = None, fresh_elem = 0\<rparr>"

subsection \<open>The list of container/list\<close>

definition MoveToFront :: "nat \<Rightarrow> nat list \<Rightarrow> nat list" where
  "MoveToFront e l = (if e \<in> set l then e # filter (\<lambda>x. x \<noteq> e) l else l)"

definition list_Remove :: "nat \<Rightarrow> nat list \<Rightarrow> nat list" where
  "list_Remove e l = filter (\<lambda>x. x \<noteq> e) l"

definition list_Back :: "nat list \<Rightarrow> nat option" where
  "list_Back l = (if l = [] then None else Some (last l))"

subsection \<open>Operations\<close>

text \<open>
  The operations of both caches, over the functions that give a value its key and its size. The
  caches differ in one place: when the eviction loop finds the list empty, \<open>ObjectLRU\<close> resets the
  size and stops, and \<open>BufferLRU\<close> dereferences nil; \<open>on_empty\<close> is that branch and \<open>None\<close> a panic.
\<close>

definition reset_nil :: "('k, 'v) lru \<Rightarrow> ('k, 'v) lru" where
  "reset_nil c =
     (case cache c of None \<Rightarrow> c\<lparr>actualSize := 0, cache := Some (\<lambda>_. None), ll := []\<rparr> | Some _ \<Rightarrow> c)"


function evict :: "('v \<Rightarrow> 'k) \<Rightarrow> ('v \<Rightarrow> FileSize) \<Rightarrow> (('k, 'v) lru \<Rightarrow> ('k, 'v) lru option) \<Rightarrow> ('k, 'v) lru
    \<Rightarrow> ('k, 'v) lru option" where
  "evict key sz on_empty c =
     (if actualSize c > MaxSize c then
        (case list_Back (ll c) of
           None \<Rightarrow> on_empty c
         | Some e \<Rightarrow>
             (case (elems c e, cache c) of
                (Some v, Some m) \<Rightarrow>
                  evict key sz on_empty
                    (c\<lparr>ll := list_Remove e (ll c), cache := Some (m(key v := None)),
                       actualSize := wrap64 (actualSize c - sz v)\<rparr>)
              | _ \<Rightarrow> None))
      else Some c)"
  by pat_completeness auto
termination
  by (relation "measure (\<lambda>(_, _, _, c). length (ll c))")
    (auto simp: list_Back_def list_Remove_def split: if_splits intro!: length_filter_less [where x = "last _"])

declare evict.simps [simp del]

definition lru_Put :: "('v \<Rightarrow> 'k) \<Rightarrow> ('v \<Rightarrow> FileSize) \<Rightarrow> (('k, 'v) lru \<Rightarrow> ('k, 'v) lru option) \<Rightarrow> 'v
    \<Rightarrow> ('k, 'v) lru \<Rightarrow> ('k, 'v) lru option" where
  "lru_Put key sz on_empty obj c0 =
     (let c = reset_nil c0;
          m = the (cache c)
      in (case m (key obj) of
            Some ee \<Rightarrow>
              (case elems c ee of
                 None \<Rightarrow> None
               | Some oldObj \<Rightarrow>
                   evict key sz on_empty
                     (c\<lparr>ll := MoveToFront ee (ll c), elems := (elems c)(ee := Some obj),
                        actualSize := wrap64 (actualSize c + wrap64 (sz obj - sz oldObj))\<rparr>))
          | None \<Rightarrow>
              if sz obj > MaxSize c then Some c
              else
                let ee = fresh_elem c
                in evict key sz on_empty
                     (c\<lparr>ll := ee # ll c, elems := (elems c)(ee := Some obj), cache := Some (m(key obj := Some ee)),
                        fresh_elem := Suc ee, actualSize := wrap64 (actualSize c + sz obj)\<rparr>)))"

definition lru_Get :: "'k \<Rightarrow> ('k, 'v) lru \<Rightarrow> 'v option \<times> ('k, 'v) lru" where
  "lru_Get k c =
     (case Option.bind (cache c) (\<lambda>m. m k) of
        None \<Rightarrow> (None, c)
      | Some ee \<Rightarrow> (elems c ee, c\<lparr>ll := MoveToFront ee (ll c)\<rparr>))"

definition lru_Clear :: "('k, 'v) lru \<Rightarrow> ('k, 'v) lru" where
  "lru_Clear c = c\<lparr>ll := [], cache := None, actualSize := 0\<rparr>"

subsection \<open>The two caches\<close>

text \<open>An object is any value with a hash and a size, the interface \<open>EncodedObject\<close>.\<close>

definition ObjectLRU_Put :: "('o \<Rightarrow> 'h) \<Rightarrow> ('o \<Rightarrow> FileSize) \<Rightarrow> 'o \<Rightarrow> ('h, 'o) lru \<Rightarrow> ('h, 'o) lru option" where
  "ObjectLRU_Put hash sz obj c = lru_Put hash sz (\<lambda>c. Some (c\<lparr>actualSize := 0\<rparr>)) obj c"

definition ObjectLRU_Get :: "'h \<Rightarrow> ('h, 'o) lru \<Rightarrow> 'o option \<times> ('h, 'o) lru" where
  "ObjectLRU_Get k c = lru_Get k c"

type_synonym buffer = "int \<times> bytes"

definition buffer_size :: "buffer \<Rightarrow> FileSize" where
  "buffer_size b = int (length (snd b))"

definition BufferLRU_Put :: "int \<Rightarrow> bytes \<Rightarrow> (int, buffer) lru \<Rightarrow> (int, buffer) lru option" where
  "BufferLRU_Put key buf c = lru_Put fst buffer_size (\<lambda>c. None) (key, buf) c"

definition BufferLRU_Get :: "int \<Rightarrow> (int, buffer) lru \<Rightarrow> bytes option \<times> (int, buffer) lru" where
  "BufferLRU_Get key c = (case lru_Get key c of (v, c') \<Rightarrow> (map_option snd v, c'))"

subsection \<open>The abstract cache\<close>

text \<open>The values in the order of their last use, and the longest prefix of them that fits.\<close>

definition vals :: "('k, 'v) lru \<Rightarrow> 'v list" where
  "vals c = map (\<lambda>e. the (elems c e)) (ll c)"

definition total :: "('v \<Rightarrow> int) \<Rightarrow> 'v list \<Rightarrow> int" where
  "total sz vs = sum_list (map sz vs)"

function fit :: "('v \<Rightarrow> int) \<Rightarrow> int \<Rightarrow> 'v list \<Rightarrow> 'v list" where
  "fit sz mx vs = (if total sz vs \<le> mx \<or> vs = [] then vs else fit sz mx (butlast vs))"
  by pat_completeness auto
termination by (relation "measure (\<lambda>(_, _, vs). length vs)") auto

declare fit.simps [simp del]

definition abs_put :: "('v \<Rightarrow> 'k) \<Rightarrow> ('v \<Rightarrow> int) \<Rightarrow> int \<Rightarrow> 'v \<Rightarrow> 'v list \<Rightarrow> 'v list" where
  "abs_put key sz mx v vs =
     (if (\<exists>w \<in> set vs. key w = key v) \<or> sz v \<le> mx then fit sz mx (v # filter (\<lambda>w. key w \<noteq> key v) vs) else vs)"

definition abs_use :: "('v \<Rightarrow> 'k) \<Rightarrow> 'k \<Rightarrow> 'v list \<Rightarrow> 'v list" where
  "abs_use key k vs = filter (\<lambda>w. key w = k) vs @ filter (\<lambda>w. key w \<noteq> k) vs"

lemma fit_done [simp]: "total sz vs \<le> mx \<Longrightarrow> fit sz mx vs = vs"
  by (simp add: fit.simps)

lemma fit_step: "\<not> total sz (vs @ [v]) \<le> mx \<Longrightarrow> fit sz mx (vs @ [v]) = fit sz mx vs"
  by (subst fit.simps) simp

lemma fit_prefix: "prefix (fit sz mx vs) vs"
proof (induction sz mx vs rule: fit.induct)
  case (1 sz mx vs)
  show ?case
  proof (cases "total sz vs \<le> mx \<or> vs = []")
    case False
    then have "fit sz mx vs = fit sz mx (butlast vs)" by (simp add: fit.simps [of sz mx vs])
    moreover have "prefix (butlast vs) vs" by (simp add: prefixeq_butlast)
    ultimately show ?thesis using "1.IH" [OF False] prefix_order.trans by metis
  qed (simp add: fit.simps [of sz mx vs])
qed

lemma total_fit: "0 \<le> mx \<Longrightarrow> total sz (fit sz mx vs) \<le> mx"
proof (induction sz mx vs rule: fit.induct)
  case (1 sz mx vs)
  then show ?case by (subst fit.simps) (auto simp: total_def)
qed

lemma fit_keeps_head: "sz v \<le> mx \<Longrightarrow> \<exists>ws. fit sz mx (v # vs) = v # ws"
proof (induction vs rule: rev_induct)
  case Nil
  then show ?case by (simp add: total_def)
next
  case (snoc w vs)
  then show ?case using fit_step [of sz "v # vs" w mx]
    by (cases "total sz (v # vs @ [w]) \<le> mx") auto
qed

subsection \<open>The invariant\<close>

definition lru_inv :: "('v \<Rightarrow> 'k) \<Rightarrow> ('v \<Rightarrow> int) \<Rightarrow> ('k, 'v) lru \<Rightarrow> bool" where
  "lru_inv key sz c \<longleftrightarrow>
     distinct (ll c) \<and> (\<forall>e \<in> set (ll c). e < fresh_elem c \<and> elems c e \<noteq> None) \<and>
     actualSize c = wrap64 (total sz (vals c)) \<and>
     (case cache c of
        None \<Rightarrow> ll c = []
      | Some m \<Rightarrow> \<forall>k e. m k = Some e \<longleftrightarrow> e \<in> set (ll c) \<and> (\<exists>v. elems c e = Some v \<and> key v = k))"

lemma lru_inv_New: "lru_inv key sz (NewLRU mx)" "vals (NewLRU mx) = []"
  by (simp_all add: lru_inv_def NewLRU_def vals_def total_def wrap64_id)

lemma lru_inv_reset:
  assumes "lru_inv key sz c"
  shows "lru_inv key sz (reset_nil c)" "vals (reset_nil c) = vals c" "MaxSize (reset_nil c) = MaxSize c"
    "cache (reset_nil c) \<noteq> None"
  using assms by (auto simp: reset_nil_def lru_inv_def vals_def total_def wrap64_id split: option.splits)

lemma lru_inv_cache:
  "lru_inv key sz c \<Longrightarrow> cache c = Some m \<Longrightarrow>
     m k = Some e \<longleftrightarrow> e \<in> set (ll c) \<and> (\<exists>v. elems c e = Some v \<and> key v = k)"
  by (simp add: lru_inv_def)

lemma lru_inv_nil: "lru_inv key sz c \<Longrightarrow> cache c = None \<Longrightarrow> ll c = []"
  by (simp add: lru_inv_def)

lemma lru_inv_elem: "lru_inv key sz c \<Longrightarrow> e \<in> set (ll c) \<Longrightarrow> \<exists>v. elems c e = Some v"
  by (auto simp: lru_inv_def)

lemma lru_inv_basic:
  assumes "lru_inv key sz c"
  shows "distinct (ll c)" "e \<in> set (ll c) \<Longrightarrow> e < fresh_elem c" "actualSize c = wrap64 (total sz (vals c))"
  using assms unfolding lru_inv_def by blast+

lemma lru_invI:
  assumes "distinct (ll c)" and "\<And>e. e \<in> set (ll c) \<Longrightarrow> e < fresh_elem c \<and> elems c e \<noteq> None"
    and "actualSize c = wrap64 (total sz (vals c))" and "cache c = Some m"
    and "\<And>k e. m k = Some e \<longleftrightarrow> e \<in> set (ll c) \<and> (\<exists>v. elems c e = Some v \<and> key v = k)"
  shows "lru_inv key sz c"
  unfolding lru_inv_def assms(4) option.case using assms(1,2,3,5) by blast

lemma lru_keys_inj:
  assumes "lru_inv key sz c" and "e \<in> set (ll c)" and "e' \<in> set (ll c)"
    and "key (the (elems c e)) = key (the (elems c e'))"
  shows "e = e'"
proof -
  from assms(1,2) obtain m where m: "cache c = Some m" using lru_inv_nil [OF assms(1)] by fastforce
  obtain v v' where v: "elems c e = Some v" "elems c e' = Some v'"
    using lru_inv_elem [OF assms(1)] assms(2,3) by blast
  then have "m (key v) = Some e" "m (key v') = Some e'"
    using assms(2,3) by (simp_all add: lru_inv_cache [OF assms(1) m])
  with assms(4) v show ?thesis by simp
qed

lemma evict_step_inv:
  assumes "lru_inv key sz c" and "ll c = l @ [e]" and "elems c e = Some v" and "cache c = Some m"
  defines "c' \<equiv> c\<lparr>ll := list_Remove e (ll c), cache := Some (m(key v := None)), actualSize := wrap64 (actualSize c - sz v)\<rparr>"
  shows "lru_inv key sz c'" "vals c = vals c' @ [v]" "ll c' = l"
proof -
  have e: "e \<notin> set l" using lru_inv_basic(1) [OF assms(1)] assms(2) by simp
  then have "filter (\<lambda>x. x \<noteq> e) l = l" by (auto simp: filter_id_conv)
  then have l: "list_Remove e (ll c) = l" unfolding assms(2) list_Remove_def by simp
  then show ll': "ll c' = l" by (simp add: c'_def)
  show v: "vals c = vals c' @ [v]" using ll' assms(2,3) by (simp add: vals_def c'_def l)
  note mk = lru_inv_cache [OF assms(1,4), unfolded assms(2)]
  have idx: "(m(key v := None)) k = Some e' \<longleftrightarrow> e' \<in> set (ll c') \<and> (\<exists>v. elems c' e' = Some v \<and> key v = k)" for k e'
  proof (cases "k = key v")
    case True
    have "m (key v) = Some e" unfolding mk using assms(3) by simp
    then have "\<not> (e' \<in> set l \<and> (\<exists>v'. elems c e' = Some v' \<and> key v' = key v))" using mk [of "key v" e'] e by auto
    then show ?thesis using True ll' by (simp add: c'_def)
  next
    case False
    then have "(m(key v := None)) k = Some e' \<longleftrightarrow> m k = Some e'" by simp
    also have "\<dots> \<longleftrightarrow> e' \<in> set l \<and> (\<exists>v. elems c e' = Some v \<and> key v = k)"
      unfolding mk using False assms(3) by (cases "e' = e") (simp_all add: e)
    finally show ?thesis unfolding ll' by (simp add: c'_def)
  qed
  show "lru_inv key sz c'"
  proof (rule lru_invI [OF _ _ _ _ idx])
    show "cache c' = Some (m(key v := None))" by (simp add: c'_def)
    show "distinct (ll c')" unfolding ll' using lru_inv_basic(1) [OF assms(1)] assms(2) by simp
    have "actualSize c' = wrap64 (actualSize c - sz v)" by (simp add: c'_def)
    then show "actualSize c' = wrap64 (total sz (vals c'))"
      using lru_inv_basic(3) [OF assms(1)] v by (simp add: total_def wrap64_absorb)
    fix e'
    assume "e' \<in> set (ll c')"
    then have "e' \<in> set (ll c)" unfolding ll' assms(2) by simp
    from lru_inv_basic(2) [OF assms(1) this] lru_inv_elem [OF assms(1) this]
    show "e' < fresh_elem c' \<and> elems c' e' \<noteq> None" by (auto simp: c'_def)
  qed
qed

text \<open>The sizes that the counter can count.\<close>

definition countable_sizes :: "('v \<Rightarrow> FileSize) \<Rightarrow> 'v list \<Rightarrow> bool" where
  "countable_sizes sz vs \<longleftrightarrow> (\<forall>v \<in> set vs. 0 \<le> sz v) \<and> total sz vs < 2 ^ 63"

lemma total_nonneg: "(\<forall>v \<in> set vs. 0 \<le> sz v) \<Longrightarrow> 0 \<le> total sz vs"
  by (induction vs) (auto simp: total_def)

lemma countable_total: "countable_sizes sz vs \<Longrightarrow> wrap64 (total sz vs) = total sz vs"
  using total_nonneg [of vs sz] by (simp add: countable_sizes_def wrap64_id)

lemma countable_butlast: "countable_sizes sz (vs @ [v]) \<Longrightarrow> countable_sizes sz vs"
  by (auto simp: countable_sizes_def total_def)

lemma lru_counter: "lru_inv key sz c \<Longrightarrow> countable_sizes sz (vals c) \<Longrightarrow> actualSize c = total sz (vals c)"
  using lru_inv_basic(3) countable_total by metis

lemma evict_ok:
  assumes "lru_inv key sz c" and "cache c \<noteq> None" and "0 \<le> MaxSize c" and "countable_sizes sz (vals c)"
  shows "\<exists>c'. evict key sz on_empty c = Some c' \<and> lru_inv key sz c' \<and> MaxSize c' = MaxSize c \<and>
    vals c' = fit sz (MaxSize c) (vals c)"
  using assms
proof (induction "length (ll c)" arbitrary: c rule: less_induct)
  case less
  note act = lru_counter [OF less.prems(1,4)]
  show ?case
  proof (cases "actualSize c \<le> MaxSize c")
    case True
    then show ?thesis using less.prems(1) act by (subst evict.simps) auto
  next
    case False
    then have tot: "\<not> total sz (vals c) \<le> MaxSize c" using act by simp
    with less.prems(3) have "ll c \<noteq> []" by (auto simp: vals_def total_def)
    then obtain l e where l: "ll c = l @ [e]" by (metis append_butlast_last_id)
    then obtain v where v: "elems c e = Some v" using less.prems(1) by (auto simp: lru_inv_def)
    from less.prems(2) obtain m where m: "cache c = Some m" by blast
    define c1 where "c1 = c\<lparr>ll := list_Remove e (ll c), cache := Some (m(key v := None)), actualSize := wrap64 (actualSize c - sz v)\<rparr>"
    note step = evict_step_inv [OF less.prems(1) l v m, folded c1_def]
    have "evict key sz on_empty c = evict key sz on_empty c1"
      using False v m l by (subst evict.simps) (simp add: list_Back_def c1_def)
    moreover have "MaxSize c1 = MaxSize c" "cache c1 \<noteq> None" "length (ll c1) < length (ll c)"
      using step(3) l by (simp_all add: c1_def)
    moreover have "fit sz (MaxSize c) (vals c) = fit sz (MaxSize c) (vals c1)"
      using tot step(2) by (simp add: fit_step)
    moreover have "countable_sizes sz (vals c1)" using less.prems(4) countable_butlast [of sz "vals c1" v] step(2) by simp
    ultimately show ?thesis using less.hyps [of c1] step(1) less.prems(3) by simp
  qed
qed

subsection \<open>Refinement\<close>

lemma filter_eq_single: "distinct l \<Longrightarrow> x \<in> set l \<Longrightarrow> filter (\<lambda>e. e = x) l = [x]"
  by (induction l) (auto simp: filter_empty_conv)

text \<open>Looking a key up in the map finds the one value of the list with that key.\<close>

lemma lru_found:
  assumes "lru_inv key sz c" and "cache c = Some m" and "m k = Some ee"
  shows "\<exists>v. elems c ee = Some v \<and> key v = k \<and> ee \<in> set (ll c) \<and>
    filter (\<lambda>w. key w = k) (vals c) = [v] \<and>
    filter (\<lambda>w. key w \<noteq> k) (vals c) = map (\<lambda>e. the (elems c e)) (filter (\<lambda>e. e \<noteq> ee) (ll c))"
proof -
  from assms(3) obtain v where v: "ee \<in> set (ll c)" "elems c ee = Some v" "key v = k"
    unfolding lru_inv_cache [OF assms(1,2)] by blast
  have same: "key (the (elems c e)) = k \<longleftrightarrow> e = ee" if "e \<in> set (ll c)" for e
    using lru_keys_inj [OF assms(1) that v(1)] v(2,3) by auto
  then have "filter (\<lambda>e. key (the (elems c e)) = k) (ll c) = filter (\<lambda>e. e = ee) (ll c)" by (intro filter_cong) auto
  also have "\<dots> = [ee]" by (rule filter_eq_single [OF lru_inv_basic(1) [OF assms(1)] v(1)])
  finally have "filter (\<lambda>w. key w = k) (vals c) = [v]" using v(2) by (simp add: vals_def filter_map o_def)
  moreover have "filter (\<lambda>e. key (the (elems c e)) \<noteq> k) (ll c) = filter (\<lambda>e. e \<noteq> ee) (ll c)"
    using same by (intro filter_cong) auto
  ultimately show ?thesis using v by (simp add: vals_def filter_map o_def)
qed

lemma lru_not_found:
  assumes "lru_inv key sz c" and "Option.bind (cache c) (\<lambda>m. m k) = None"
  shows "w \<in> set (vals c) \<Longrightarrow> key w \<noteq> k"
proof
  assume "w \<in> set (vals c)" and k: "key w = k"
  then obtain e where e: "e \<in> set (ll c)" "w = the (elems c e)" by (auto simp: vals_def)
  from lru_inv_elem [OF assms(1) e(1)] obtain v where v: "elems c e = Some v" by blast
  from e(1) obtain m where m: "cache c = Some m" using lru_inv_nil [OF assms(1)] by fastforce
  then have "m k = Some e" unfolding lru_inv_cache [OF assms(1) m] using e v k by simp
  with assms(2) m show False by simp
qed

lemma total_split: "total sz vs = total sz (filter P vs) + total sz (filter (\<lambda>v. \<not> P v) vs)"
  by (induction vs) (auto simp: total_def)

lemma moved_inv:
  assumes "lru_inv key sz c" and "cache c = Some m" and "m (key obj) = Some ee" and "elems c ee = Some old"
  defines "c' \<equiv> c\<lparr>ll := MoveToFront ee (ll c), elems := (elems c)(ee := Some obj),
                   actualSize := wrap64 (actualSize c + wrap64 (sz obj - sz old))\<rparr>"
  shows "lru_inv key sz c'" "vals c' = obj # filter (\<lambda>w. key w \<noteq> key obj) (vals c)"
proof -
  from lru_found [OF assms(1,2,3)] assms(4) have f: "key old = key obj" "ee \<in> set (ll c)"
    "filter (\<lambda>w. key w = key obj) (vals c) = [old]"
    "filter (\<lambda>w. key w \<noteq> key obj) (vals c) = map (\<lambda>e. the (elems c e)) (filter (\<lambda>e. e \<noteq> ee) (ll c))" by auto
  have ll': "ll c' = ee # filter (\<lambda>e. e \<noteq> ee) (ll c)" using f(2) by (simp add: c'_def MoveToFront_def)
  have el: "elems c' = (elems c)(ee := Some obj)" by (simp add: c'_def)
  show v: "vals c' = obj # filter (\<lambda>w. key w \<noteq> key obj) (vals c)" unfolding vals_def [of c'] ll' el f(4) by simp
  have idx: "m k = Some e \<longleftrightarrow> e \<in> set (ll c') \<and> (\<exists>v. elems c' e = Some v \<and> key v = k)" for k e
    unfolding lru_inv_cache [OF assms(1,2)] ll' el using f(1,2) assms(4) by (cases "e = ee") auto
  have tot: "total sz (vals c) = sz old + total sz (filter (\<lambda>w. key w \<noteq> key obj) (vals c))"
    using total_split [of sz "vals c" "\<lambda>w. key w = key obj"] unfolding f(3) by (simp add: total_def)
  show "lru_inv key sz c'"
  proof (rule lru_invI [OF _ _ _ _ idx])
    show "cache c' = Some m" using assms(2) by (simp add: c'_def)
    show "distinct (ll c')" unfolding ll' using lru_inv_basic(1) [OF assms(1)] by simp
    have "actualSize c' = wrap64 (total sz (vals c) + (sz obj - sz old))"
      using lru_inv_basic(3) [OF assms(1)] by (simp add: c'_def wrap64_absorb)
    then show "actualSize c' = wrap64 (total sz (vals c'))" using tot unfolding v by (simp add: total_def add.commute)
    fix e assume "e \<in> set (ll c')"
    then have "e \<in> set (ll c)" unfolding ll' using f(2) by auto
    from lru_inv_basic(2) [OF assms(1) this] lru_inv_elem [OF assms(1) this]
    show "e < fresh_elem c' \<and> elems c' e \<noteq> None" unfolding el by (auto simp: c'_def)
  qed
qed

lemma pushed_inv:
  assumes "lru_inv key sz c" and "cache c = Some m" and "m (key obj) = None"
  defines "c' \<equiv> c\<lparr>ll := fresh_elem c # ll c, elems := (elems c)(fresh_elem c := Some obj),
                   cache := Some (m(key obj := Some (fresh_elem c))), fresh_elem := Suc (fresh_elem c),
                   actualSize := wrap64 (actualSize c + sz obj)\<rparr>"
  shows "lru_inv key sz c'" "vals c' = obj # vals c"
proof -
  let ?e = "fresh_elem c"
  have new: "?e \<notin> set (ll c)" using lru_inv_basic(2) [OF assms(1)] by blast
  have ll': "ll c' = ?e # ll c" and el: "elems c' = (elems c)(?e := Some obj)" by (simp_all add: c'_def)
  show v: "vals c' = obj # vals c" unfolding vals_def ll' el using new by simp
  have idx: "(m(key obj := Some ?e)) k = Some e \<longleftrightarrow> e \<in> set (ll c') \<and> (\<exists>v. elems c' e = Some v \<and> key v = k)" for k e
  proof -
    have none: "\<not> (e \<in> set (ll c) \<and> (\<exists>v. elems c e = Some v \<and> key v = key obj))" for e
      using lru_inv_cache [OF assms(1,2), of "key obj" e] assms(3) by simp
    have "k \<noteq> key obj \<Longrightarrow> m k = Some e \<Longrightarrow> e \<noteq> ?e" using lru_inv_cache [OF assms(1,2), of k e] new by blast
    then show ?thesis
      unfolding ll' el using new none [of e] lru_inv_cache [OF assms(1,2), of k e]
      by (cases "e = ?e"; cases "k = key obj") auto
  qed
  show "lru_inv key sz c'"
  proof (rule lru_invI [OF _ _ _ _ idx])
    show "cache c' = Some (m(key obj := Some ?e))" by (simp add: c'_def)
    show "distinct (ll c')" unfolding ll' using lru_inv_basic(1) [OF assms(1)] new by simp
    have "actualSize c' = wrap64 (actualSize c + sz obj)" by (simp add: c'_def)
    then show "actualSize c' = wrap64 (total sz (vals c'))"
      using lru_inv_basic(3) [OF assms(1)] unfolding v by (simp add: total_def wrap64_absorb add.commute)
    fix e assume "e \<in> set (ll c')"
    then have "e = ?e \<or> e \<in> set (ll c)" unfolding ll' by simp
    then show "e < fresh_elem c' \<and> elems c' e \<noteq> None"
      using lru_inv_basic(2) [OF assms(1), of e] lru_inv_elem [OF assms(1), of e] unfolding el by (auto simp: c'_def)
  qed
qed

text \<open>What one operation may be given: the sizes stay countable.\<close>

lemma countable_put:
  assumes "\<forall>w \<in> set vs. 0 \<le> sz w" and "0 \<le> sz v" and "total sz vs + sz v < 2 ^ 63"
  shows "countable_sizes sz (v # filter P vs)"
proof -
  have "0 \<le> total sz (filter (\<lambda>x. \<not> P x) vs)" using assms(1) by (intro total_nonneg) auto
  then have "total sz (filter P vs) \<le> total sz vs" using total_split [of sz vs P] by linarith
  then show ?thesis using assms by (auto simp: countable_sizes_def total_def)
qed

lemma lru_Put_refines:
  assumes "lru_inv key sz c" and "0 \<le> MaxSize c"
    and sizes: "\<forall>v \<in> set (vals c). 0 \<le> sz v" "0 \<le> sz obj" "total sz (vals c) + sz obj < 2 ^ 63"
  shows "\<exists>c'. lru_Put key sz on_empty obj c = Some c' \<and> lru_inv key sz c' \<and> MaxSize c' = MaxSize c \<and>
    vals c' = abs_put key sz (MaxSize c) obj (vals c)"
proof -
  define d where "d = reset_nil c"
  note d = lru_inv_reset [OF assms(1), folded d_def]
  from d(4) obtain m where m: "cache d = Some m" by blast
  show ?thesis
  proof (cases "m (key obj)")
    case (Some ee)
    from lru_found [OF d(1) m Some] obtain old where old: "elems d ee = Some old"
      "filter (\<lambda>w. key w = key obj) (vals d) = [old]" by blast
    then have "old \<in> set (filter (\<lambda>w. key w = key obj) (vals d))" by simp
    then have mem: "\<exists>w \<in> set (vals c). key w = key obj" using d(2) by auto
    define c1 where "c1 = d\<lparr>ll := MoveToFront ee (ll d), elems := (elems d)(ee := Some obj),
                   actualSize := wrap64 (actualSize d + wrap64 (sz obj - sz old))\<rparr>"
    note c1 = moved_inv [OF d(1) m Some old(1), folded c1_def]
    have "lru_Put key sz on_empty obj c = evict key sz on_empty c1"
      by (simp add: lru_Put_def d_def [symmetric] m Some old(1) c1_def)
    moreover have "MaxSize c1 = MaxSize c" "cache c1 \<noteq> None" using d(3) m by (simp_all add: c1_def)
    moreover have "countable_sizes sz (vals c1)" unfolding c1(2) d(2) by (rule countable_put [OF sizes])
    ultimately show ?thesis using evict_ok [OF c1(1), of on_empty] assms(2) c1(2) d(2) mem by (auto simp: abs_put_def)
  next
    case None
    have no: "\<not> (\<exists>w \<in> set (vals c). key w = key obj)"
      using lru_not_found [OF d(1)] m None d(2) by simp
    then have flt: "filter (\<lambda>w. key w \<noteq> key obj) (vals c) = vals c" by (auto simp: filter_id_conv)
    show ?thesis
    proof (cases "sz obj > MaxSize c")
      case True
      then have "lru_Put key sz on_empty obj c = Some d"
        by (simp add: lru_Put_def d_def [symmetric] m None d(3))
      then show ?thesis using d True no by (simp add: abs_put_def)
    next
      case False
      define c1 where "c1 = d\<lparr>ll := fresh_elem d # ll d, elems := (elems d)(fresh_elem d := Some obj),
                   cache := Some (m(key obj := Some (fresh_elem d))), fresh_elem := Suc (fresh_elem d),
                   actualSize := wrap64 (actualSize d + sz obj)\<rparr>"
      note c1 = pushed_inv [OF d(1) m None, folded c1_def]
      have "lru_Put key sz on_empty obj c = evict key sz on_empty c1"
        using False by (simp add: lru_Put_def d_def [symmetric] m None d(3) Let_def c1_def)
      moreover have "MaxSize c1 = MaxSize c" "cache c1 \<noteq> None" using d(3) by (simp_all add: c1_def)
      moreover have "countable_sizes sz (vals c1)" unfolding c1(2) d(2) using countable_put [OF sizes, of "\<lambda>_. True"] by simp
      ultimately show ?thesis
        using evict_ok [OF c1(1), of on_empty] assms(2) c1(2) d(2) False flt by (auto simp: abs_put_def)
    qed
  qed
qed

lemma find_of_filter: "filter P xs = x # ys \<Longrightarrow> find P xs = Some x"
  by (induction xs) (auto split: if_splits)

lemma lru_Get_refines:
  assumes "lru_inv key sz c"
  shows "\<exists>c'. lru_Get k c = (find (\<lambda>v. key v = k) (vals c), c') \<and> lru_inv key sz c' \<and>
    MaxSize c' = MaxSize c \<and> vals c' = abs_use key k (vals c)"
proof (cases "Option.bind (cache c) (\<lambda>m. m k)")
  case None
  note no = lru_not_found [OF assms None]
  then have "find (\<lambda>v. key v = k) (vals c) = None" "filter (\<lambda>v. key v = k) (vals c) = []"
    "filter (\<lambda>v. key v \<noteq> k) (vals c) = vals c" by (auto simp: find_None_iff filter_id_conv filter_empty_conv)
  then show ?thesis using None assms by (simp add: lru_Get_def abs_use_def)
next
  case (Some ee)
  then obtain m where m: "cache c = Some m" "m k = Some ee" by (auto simp: bind_eq_Some_conv)
  from lru_found [OF assms m] obtain v where v: "elems c ee = Some v" "key v = k" "ee \<in> set (ll c)"
    "filter (\<lambda>w. key w = k) (vals c) = [v]" by blast
  define c' where "c' = c\<lparr>ll := MoveToFront ee (ll c), elems := (elems c)(ee := Some v),
    actualSize := wrap64 (actualSize c + wrap64 (sz v - sz v))\<rparr>"
  have "wrap64 (actualSize c + wrap64 (sz v - sz v)) = actualSize c"
    using lru_inv_basic(3) [OF assms] wrap64_absorb(1) [of "total sz (vals c)" 0] by (simp add: wrap64_absorb)
  then have c': "c' = c\<lparr>ll := MoveToFront ee (ll c)\<rparr>" using v(1) by (simp add: c'_def fun_upd_idem)
  have "m (key v) = Some ee" using m(2) v(2) by simp
  note mv = moved_inv [OF assms m(1) this v(1), folded c'_def, unfolded v(2)]
  have "find (\<lambda>v. key v = k) (vals c) = Some v"
    by (rule find_of_filter [OF v(4)])
  then show ?thesis using mv Some v(1,4) unfolding c' by (simp add: lru_Get_def abs_use_def)
qed

lemma lru_inv_Clear: "lru_inv key sz (lru_Clear c)" "vals (lru_Clear c) = []"
  by (simp_all add: lru_inv_def lru_Clear_def vals_def total_def wrap64_id)

subsection \<open>The contract of a cache\<close>

text \<open>
  What the interface \<open>Object\<close> promises: \<open>Put\<close> may or may not keep the value and may drop others,
  but keeps no old value under its key; \<open>Get\<close> returns what the cache holds and changes nothing
  of it; \<open>Clear\<close> forgets everything. The promise is for the values that the cache can count.
\<close>

locale value_cache =
  fixes inv :: "'c \<Rightarrow> bool"
    and content :: "'c \<Rightarrow> 'k \<Rightarrow> 'v option"
    and key_of :: "'v \<Rightarrow> 'k"
    and put :: "'v \<Rightarrow> 'c \<Rightarrow> 'c option"
    and get :: "'k \<Rightarrow> 'c \<Rightarrow> 'v option \<times> 'c"
    and clear :: "'c \<Rightarrow> 'c"
    and fits :: "'v \<Rightarrow> bool"
  assumes put_law: "inv c \<Longrightarrow> fits v \<Longrightarrow> \<exists>c'. put v c = Some c' \<and> inv c' \<and> content c' \<subseteq>\<^sub>m (content c)(key_of v \<mapsto> v)"
    and get_law: "inv c \<Longrightarrow> \<exists>c'. get k c = (content c k, c') \<and> inv c' \<and> content c' = content c"
    and clear_law: "inv c \<Longrightarrow> inv (clear c) \<and> content (clear c) = Map.empty"
begin

lemma get_after_put:
  assumes "inv c" and "fits v" and "put v c = Some c'" and "get k c' = (Some w, c'')"
  shows "if k = key_of v then w = v else content c k = Some w"
proof -
  from put_law [OF assms(1,2)] assms(3) have "inv c'" "content c' \<subseteq>\<^sub>m (content c)(key_of v \<mapsto> v)" by auto
  moreover from this(1) have "content c' k = Some w" using get_law [of c' k] assms(4) by auto
  ultimately have "((content c)(key_of v \<mapsto> v)) k = Some w" by (metis domI map_le_def)
  then show ?thesis by (auto split: if_splits)
qed

end

text \<open>Sequences of operations, and the value last put under each key since the last clear.\<close>

datatype ('k, 'v) cache_op = PutOp 'v | GetOp 'k | ClearOp

fun cache_run :: "('v \<Rightarrow> 'c \<Rightarrow> 'c option) \<Rightarrow> ('k \<Rightarrow> 'c \<Rightarrow> 'v option \<times> 'c) \<Rightarrow> ('c \<Rightarrow> 'c)
    \<Rightarrow> ('k, 'v) cache_op list \<Rightarrow> 'c \<Rightarrow> 'c option" where
  "cache_run put get clear [] c = Some c"
| "cache_run put get clear (PutOp v # ops) c = Option.bind (put v c) (cache_run put get clear ops)"
| "cache_run put get clear (GetOp k # ops) c = cache_run put get clear ops (snd (get k c))"
| "cache_run put get clear (ClearOp # ops) c = cache_run put get clear ops (clear c)"

fun history :: "('v \<Rightarrow> 'k) \<Rightarrow> ('k, 'v) cache_op list \<Rightarrow> ('k \<Rightarrow> 'v option) \<Rightarrow> 'k \<Rightarrow> 'v option" where
  "history key [] h = h"
| "history key (PutOp v # ops) h = history key ops (h(key v \<mapsto> v))"
| "history key (GetOp k # ops) h = history key ops h"
| "history key (ClearOp # ops) h = history key ops Map.empty"

lemma map_le_upd_mono: "f \<subseteq>\<^sub>m g \<Longrightarrow> f(k \<mapsto> v) \<subseteq>\<^sub>m g(k \<mapsto> v)"
  by (auto simp: map_le_def)

context value_cache
begin

lemma run_sound:
  assumes "inv c" and "content c \<subseteq>\<^sub>m h" and "\<forall>v. PutOp v \<in> set ops \<longrightarrow> fits v"
  shows "\<exists>c'. cache_run put get clear ops c = Some c' \<and> inv c' \<and> content c' \<subseteq>\<^sub>m history key_of ops h"
  using assms
proof (induction ops arbitrary: c h)
  case (Cons a ops)
  show ?case
  proof (cases a)
    case (PutOp v)
    have "fits v" using Cons.prems(3) PutOp by simp
    from put_law [OF Cons.prems(1) this] obtain c1 where
      c1: "put v c = Some c1" "inv c1" "content c1 \<subseteq>\<^sub>m (content c)(key_of v \<mapsto> v)" by blast
    from c1(3) map_le_upd_mono [OF Cons.prems(2)] have "content c1 \<subseteq>\<^sub>m h(key_of v \<mapsto> v)" by (rule map_le_trans)
    moreover have "\<forall>v. PutOp v \<in> set ops \<longrightarrow> fits v" using Cons.prems(3) by simp
    ultimately show ?thesis using Cons.IH [OF c1(2)]
      unfolding PutOp cache_run.simps history.simps c1(1) Option.bind.simps by blast
  next
    case (GetOp k)
    then show ?thesis using get_law [OF Cons.prems(1), of k] Cons.IH Cons.prems(2,3) by auto
  next
    case ClearOp
    have "content (clear c) \<subseteq>\<^sub>m Map.empty" using clear_law [OF Cons.prems(1)] by simp
    with ClearOp Cons.IH clear_law [OF Cons.prems(1)] Cons.prems(3) show ?thesis by simp
  qed
qed auto

end

subsection \<open>Both caches keep the contract\<close>

definition lru_ok :: "('v \<Rightarrow> 'k) \<Rightarrow> ('v \<Rightarrow> int) \<Rightarrow> int \<Rightarrow> ('k, 'v) lru \<Rightarrow> bool" where
  "lru_ok key sz mx c \<longleftrightarrow> lru_inv key sz c \<and> MaxSize c = mx \<and> 0 \<le> mx \<and> mx < 2 ^ 63 \<and> total sz (vals c) \<le> mx \<and>
     (\<forall>v \<in> set (vals c). 0 \<le> sz v)"

text \<open>A value may be put if its size, added to the maximum, is in the range of the counter.\<close>

definition lru_fits :: "('v \<Rightarrow> FileSize) \<Rightarrow> FileSize \<Rightarrow> 'v \<Rightarrow> bool" where
  "lru_fits sz mx v \<longleftrightarrow> 0 \<le> sz v \<and> mx + sz v < 2 ^ 63"

definition lru_content :: "('v \<Rightarrow> 'k) \<Rightarrow> ('k, 'v) lru \<Rightarrow> 'k \<Rightarrow> 'v option" where
  "lru_content key c k = find (\<lambda>v. key v = k) (vals c)"

lemma find_filter_neq: "k \<noteq> k' \<Longrightarrow> find (\<lambda>v. key v = k) (filter (\<lambda>v. key v \<noteq> k') vs) = find (\<lambda>v. key v = k) vs"
  by (induction vs) auto

lemma find_prefix: "prefix ps vs \<Longrightarrow> find P ps = Some x \<Longrightarrow> find P vs = Some x"
proof -
  have "find P ps = Some x \<Longrightarrow> find P (ps @ ys) = Some x" for ys by (induction ps) auto
  then show "prefix ps vs \<Longrightarrow> find P ps = Some x \<Longrightarrow> find P vs = Some x" by (auto simp: prefix_def)
qed

lemma find_abs_use: "find (\<lambda>v. key v = k) (abs_use key k' vs) = find (\<lambda>v. key v = k) vs"
proof (cases "k = k'")
  case True
  have "find (\<lambda>v. key v = k) (filter (\<lambda>v. key v = k) vs @ filter (\<lambda>v. key v \<noteq> k) vs) = find (\<lambda>v. key v = k) vs"
    by (induction vs) (auto simp: find_append split: option.splits)
  then show ?thesis using True by (simp add: abs_use_def)
next
  case False
  then have "find (\<lambda>v. key v = k) (filter (\<lambda>v. key v = k') vs) = None" by (auto simp: find_None_iff)
  then show ?thesis using False by (simp add: abs_use_def find_append find_filter_neq)
qed

lemma abs_put_content:
  assumes "find (\<lambda>v. key v = k) (abs_put key sz mx v vs) = Some x"
  shows "(if k = key v then x = v else find (\<lambda>v. key v = k) vs = Some x)"
proof (cases "(\<exists>w \<in> set vs. key w = key v) \<or> sz v \<le> mx")
  case True
  then have "find (\<lambda>v. key v = k) (fit sz mx (v # filter (\<lambda>w. key w \<noteq> key v) vs)) = Some x"
    using assms unfolding abs_put_def by (simp only: if_True)
  from find_prefix [OF fit_prefix this] show ?thesis
    using find_filter_neq [of k "key v" key vs] by (cases "k = key v") auto
next
  case False
  then show ?thesis using assms by (auto simp: abs_put_def find_Some_iff split: if_splits)
qed

lemma set_abs_put: "set (abs_put key sz mx v vs) \<subseteq> insert v (set vs)"
  using set_mono_prefix [OF fit_prefix, of sz mx "v # filter (\<lambda>w. key w \<noteq> key v) vs"] by (auto simp: abs_put_def)

lemma countable_abs_put:
  assumes "\<forall>w \<in> set vs. 0 \<le> sz w" and "0 \<le> sz v" and "total sz vs + sz v < 2 ^ 63"
  shows "countable_sizes sz (abs_put key sz mx v vs)"
proof -
  have "0 \<le> total sz vs" by (rule total_nonneg [OF assms(1)])
  then have "countable_sizes sz vs" using assms by (simp add: countable_sizes_def)
  moreover have "countable_sizes sz (fit sz mx xs)" if "countable_sizes sz xs" for xs
    using that
  proof (induction xs rule: rev_induct)
    case (snoc x xs)
    then show ?case using countable_butlast [OF snoc.prems] fit_step [of sz xs x mx] by (cases "total sz (xs @ [x]) \<le> mx") auto
  qed (simp add: fit.simps)
  ultimately show ?thesis using countable_put [OF assms] by (simp add: abs_put_def)
qed

lemma lru_Put_ok:
  assumes "lru_ok key sz mx c" and fits: "lru_fits sz mx v"
  shows "\<exists>c'. lru_Put key sz on_empty v c = Some c' \<and> lru_ok key sz mx c' \<and>
    lru_content key c' \<subseteq>\<^sub>m (lru_content key c)(key v \<mapsto> v)"
proof -
  have "total sz (vals c) + sz v < 2 ^ 63" using assms by (simp add: lru_ok_def lru_fits_def)
  with lru_Put_refines [of key sz c v on_empty] assms obtain c' where c': "lru_Put key sz on_empty v c = Some c'"
    "lru_inv key sz c'" "MaxSize c' = mx" "vals c' = abs_put key sz mx v (vals c)"
    by (auto simp: lru_ok_def lru_fits_def)
  have "\<forall>w \<in> set (vals c'). 0 \<le> sz w"
    using set_abs_put [of key sz mx v "vals c"] assms unfolding c'(4) by (auto simp: lru_ok_def lru_fits_def)
  moreover have "total sz (vals c') \<le> mx" using assms c'(4) by (auto simp: abs_put_def lru_ok_def total_fit)
  moreover have "lru_content key c' \<subseteq>\<^sub>m (lru_content key c)(key v \<mapsto> v)"
    unfolding map_le_def
  proof
    fix k assume "k \<in> dom (lru_content key c')"
    then obtain x where x: "lru_content key c' k = Some x" by blast
    from abs_put_content [of key k sz mx v "vals c" x] x c'(4)
    show "lru_content key c' k = ((lru_content key c)(key v \<mapsto> v)) k"
      by (auto simp: lru_content_def split: if_splits)
  qed
  ultimately show ?thesis using c' assms by (auto simp: lru_ok_def)
qed

lemma lru_Get_ok:
  assumes "lru_ok key sz mx c"
  shows "\<exists>c'. lru_Get k c = (lru_content key c k, c') \<and> lru_ok key sz mx c' \<and> lru_content key c' = lru_content key c"
proof -
  from lru_Get_refines [of key sz c k] assms obtain c' where c': "lru_Get k c = (lru_content key c k, c')"
    "lru_inv key sz c'" "MaxSize c' = mx" "vals c' = abs_use key k (vals c)"
    by (auto simp: lru_ok_def lru_content_def)
  have "total sz (vals c') = total sz (vals c)"
    unfolding c'(4) abs_use_def using total_split [of sz "vals c" "\<lambda>w. key w = k"] by (simp add: total_def)
  moreover have "set (vals c') = set (vals c)" unfolding c'(4) abs_use_def by auto
  moreover have "lru_content key c' = lru_content key c" by (simp add: lru_content_def c'(4) find_abs_use fun_eq_iff)
  ultimately show ?thesis using c' assms by (simp add: lru_ok_def lru_content_def)
qed

lemma lru_Clear_ok:
  assumes "lru_ok key sz mx c"
  shows "lru_ok key sz mx (lru_Clear c) \<and> lru_content key (lru_Clear c) = Map.empty"
proof -
  have "MaxSize (lru_Clear c) = MaxSize c" by (simp add: lru_Clear_def)
  then show ?thesis using assms by (simp add: lru_ok_def lru_inv_Clear lru_content_def total_def fun_eq_iff)
qed

lemma lru_ok_New: "0 \<le> mx \<Longrightarrow> mx < 2 ^ 63 \<Longrightarrow> lru_ok key sz mx (NewLRU mx)"
proof -
  have "MaxSize (NewLRU mx) = mx" by (simp add: NewLRU_def)
  then show "0 \<le> mx \<Longrightarrow> mx < 2 ^ 63 \<Longrightarrow> lru_ok key sz mx (NewLRU mx)" by (simp add: lru_ok_def lru_inv_New total_def)
qed

interpretation object_lru: value_cache "lru_ok hash sz mx" "lru_content hash" hash
  "ObjectLRU_Put hash sz" ObjectLRU_Get lru_Clear "lru_fits sz mx" for hash :: "'o \<Rightarrow> 'h" and sz and mx
  using lru_Put_ok [of hash sz mx] lru_Get_ok [of hash sz mx] lru_Clear_ok [of hash sz mx]
  by unfold_locales (simp_all add: ObjectLRU_Put_def ObjectLRU_Get_def)

interpretation buffer_lru: value_cache "lru_ok fst buffer_size mx" "lru_content fst" fst
  "\<lambda>(k, b). BufferLRU_Put k b" lru_Get lru_Clear "lru_fits buffer_size mx" for mx
  using lru_Put_ok [of fst buffer_size mx] lru_Get_ok [of fst buffer_size mx] lru_Clear_ok [of fst buffer_size mx]
  by unfold_locales (simp_all add: BufferLRU_Put_def split_def)

subsection \<open>Properties\<close>

text \<open>
  \<^bold>\<open>C16\<close>. \<open>ObjectLRU\<close> is the least-recently-used cache it claims to be: its list, element store
  and map stay consistent, \<open>Put\<close> never panics, and in terms of the values in the order of their
  last use, \<open>Put\<close> moves or inserts the object at the front (unless it is new and larger than
  the whole cache) and keeps the longest prefix that fits, \<open>Get\<close> returns the value of the key
  and moves it to the front. The counter is an \<open>int64\<close> and wraps: sizes must not be negative, and the
  size of the object, added to what is held, must be in its range.
\<close>

theorem ObjectLRU_refines_list:
  assumes "lru_inv hash sz c" and "0 \<le> MaxSize c"
    and "\<forall>v \<in> set (vals c). 0 \<le> sz v" and "0 \<le> sz obj" and "total sz (vals c) + sz obj < 2 ^ 63"
  shows "(\<exists>c'. ObjectLRU_Put hash sz obj c = Some c' \<and> lru_inv hash sz c' \<and>
      actualSize c' = total sz (vals c') \<and> vals c' = abs_put hash sz (MaxSize c) obj (vals c)) \<and>
    (\<exists>c'. ObjectLRU_Get k c = (find (\<lambda>v. hash v = k) (vals c), c') \<and> lru_inv hash sz c' \<and>
      vals c' = abs_use hash k (vals c))"
proof -
  obtain c' where c': "ObjectLRU_Put hash sz obj c = Some c'" "lru_inv hash sz c'" "vals c' = abs_put hash sz (MaxSize c) obj (vals c)"
    using lru_Put_refines [OF assms, of "\<lambda>c. Some (c\<lparr>actualSize := 0\<rparr>)"] by (auto simp: ObjectLRU_Put_def)
  then have "actualSize c' = total sz (vals c')" using lru_counter countable_abs_put [OF assms(3-5)] by metis
  with c' lru_Get_refines [OF assms(1), of k] show ?thesis by (auto simp: ObjectLRU_Get_def)
qed

lemma ObjectLRU_refines_list_witness:
  "lru_inv fst snd (NewLRU 10 :: (nat, nat \<times> int) lru) \<and>
   (\<exists>c'. ObjectLRU_Put fst snd (7, 4) (NewLRU 10 :: (nat, nat \<times> int) lru) = Some c' \<and> vals c' = [(7, 4)])"
proof -
  let ?c = "NewLRU 10 :: (nat, nat \<times> int) lru"
  have "MaxSize ?c = 10" by (simp add: NewLRU_def)
  then show ?thesis
    using ObjectLRU_refines_list [of fst snd ?c "(7, 4)" 7] lru_inv_New(1) [of fst snd 10]
    by (auto simp: lru_inv_New abs_put_def total_def)
qed

text \<open>
  \<^bold>\<open>C17\<close>. The promise of \<open>NewObjectLRU\<close>: whatever is put, read and cleared, in any order, no
  operation panics, the size of the objects held never exceeds the maximum, the size counter is
  exact, and every value held is the one last put under its key since the last \<open>Clear\<close>. The
  promise is for objects whose size, added to the maximum, is below \<open>2\<^sup>6\<^sup>3\<close>; \<open>ObjectLRU_overflow\<close> shows
  that it fails beyond.
\<close>

theorem ObjectLRU_bounded_and_sound:
  assumes "0 \<le> mx" and "mx < 2 ^ 63" and "\<forall>v. PutOp v \<in> set ops \<longrightarrow> 0 \<le> sz v \<and> mx + sz v < 2 ^ 63"
  shows "\<exists>c. cache_run (ObjectLRU_Put hash sz) ObjectLRU_Get lru_Clear ops (NewLRU mx) = Some c \<and>
    total sz (vals c) \<le> mx \<and> actualSize c = total sz (vals c) \<and>
    (\<forall>k v. fst (ObjectLRU_Get k c) = Some v \<longrightarrow> history hash ops Map.empty k = Some v)"
proof -
  note ok = lru_ok_New [OF assms(1,2), of hash sz]
  have fits: "\<forall>v. PutOp v \<in> set ops \<longrightarrow> lru_fits sz mx v" using assms(3) by (simp add: lru_fits_def)
  have "lru_content hash (NewLRU mx) \<subseteq>\<^sub>m Map.empty" by (simp add: map_le_def dom_def lru_content_def lru_inv_New)
  from object_lru.run_sound [OF ok this fits] obtain c where
    c: "cache_run (ObjectLRU_Put hash sz) ObjectLRU_Get lru_Clear ops (NewLRU mx) = Some c" "lru_ok hash sz mx c"
      "lru_content hash c \<subseteq>\<^sub>m history hash ops Map.empty" by blast
  have "history hash ops Map.empty k = Some v" if "fst (ObjectLRU_Get k c) = Some v" for k v
  proof -
    have "lru_content hash c k = Some v" using that object_lru.get_law [OF c(2), of k] by auto
    then show ?thesis using c(3) by (metis domI map_le_def)
  qed
  moreover have "lru_inv hash sz c" "countable_sizes sz (vals c)" "total sz (vals c) \<le> mx"
    using c(2) by (auto simp: lru_ok_def countable_sizes_def)
  ultimately show ?thesis using c(1) lru_counter by blast
qed

lemma ObjectLRU_bounded_and_sound_witness:
  "\<exists>c. cache_run (ObjectLRU_Put fst snd) ObjectLRU_Get lru_Clear
        [PutOp (1 :: nat, 4 :: int), PutOp (2, 5), GetOp 1, PutOp (3, 3)] (NewLRU 10) = Some c \<and>
     total snd (vals c) \<le> 10"
  using ObjectLRU_bounded_and_sound [of 10 "[PutOp (1 :: nat, 4 :: int), PutOp (2, 5), GetOp 1, PutOp (3, 3)]" snd fst]
  by auto

text \<open>
  Beyond that the maximum is exceeded: an object that is held is put again with a larger size, the
  counter wraps to a negative number, and nothing is evicted.
\<close>

lemma ObjectLRU_overflow:
  "\<exists>c. cache_run (ObjectLRU_Put fst snd) ObjectLRU_Get lru_Clear
        [PutOp (1 :: nat, 50 :: int), PutOp (2, 1), PutOp (2, 2 ^ 63 - 1)] (NewLRU 100) = Some c \<and>
     actualSize c < 0 \<and> 100 < total snd (vals c)"
  by (simp add: ObjectLRU_Put_def lru_Put_def reset_nil_def NewLRU_def Let_def evict.simps wrap64_def
      MoveToFront_def vals_def total_def)

text \<open>
  \<open>BufferLRU\<close> keeps the same promise although its eviction loop does not test for an empty
  list: with a non-negative maximum the loop stops before the list is empty. A buffer that
  fits is found by the next \<open>Get\<close> of its key.
\<close>

theorem BufferLRU_put_get:
  assumes "lru_ok fst buffer_size mx c" and "int (length buf) \<le> mx" and "mx + int (length buf) < 2 ^ 63"
  shows "\<exists>c'. BufferLRU_Put k buf c = Some c' \<and> lru_ok fst buffer_size mx c' \<and>
    fst (BufferLRU_Get k c') = Some buf"
proof -
  have fits: "lru_fits buffer_size mx (k, buf)" using assms(3) by (simp add: lru_fits_def buffer_size_def)
  have "total buffer_size (vals c) + buffer_size (k, buf) < 2 ^ 63" using assms(1) fits by (simp add: lru_ok_def lru_fits_def)
  with lru_Put_refines [of fst buffer_size c "(k, buf)" "\<lambda>c. None"] assms(1) fits obtain c' where
    c': "BufferLRU_Put k buf c = Some c'" "vals c' = abs_put fst buffer_size mx (k, buf) (vals c)"
    by (auto simp: BufferLRU_Put_def lru_ok_def lru_fits_def)
  have ok: "lru_ok fst buffer_size mx c'" using lru_Put_ok [OF assms(1) fits, of "\<lambda>c. None"] c'(1)
    by (auto simp: BufferLRU_Put_def)
  have s: "buffer_size (k, buf) \<le> mx" using assms(2) by (simp add: buffer_size_def)
  from fit_keeps_head [of buffer_size "(k, buf)", OF s] obtain ws where
    "vals c' = (k, buf) # ws" unfolding c'(2) abs_put_def using s by auto
  then have "lru_content fst c' k = Some (k, buf)" by (simp add: lru_content_def)
  with lru_Get_ok [OF ok, of k] have "fst (BufferLRU_Get k c') = Some buf" by (auto simp: BufferLRU_Get_def)
  with c'(1) ok show ?thesis by blast
qed

lemma BufferLRU_put_get_witness:
  "lru_ok fst buffer_size 10 (NewLRU 10) \<and>
   (\<exists>c'. BufferLRU_Put 7 [1, 2, 3] (NewLRU 10) = Some c' \<and> fst (BufferLRU_Get 7 c') = Some [1, 2, 3])"
proof -
  have "lru_ok fst buffer_size 10 (NewLRU 10)" by (rule lru_ok_New) simp_all
  with BufferLRU_put_get [OF this, of "[1, 2, 3]" 7] show ?thesis by auto
qed

end
