(* ===== verification/Path_Safety.thy ===== *)
theory Path_Safety
  imports Go_Strings
begin

text \<open>
  Path components that a file system resolves to another name: \<open>internal/pathutil\<close>.

  HFS+ drops certain code points and folds case; NTFS trims trailing spaces and periods, cuts a name
  at a colon and knows short names. The code detects by scanning whether a component denotes \<open>.git\<close>
  (or another dot file) on such a file system. \<open>hfs_fold\<close> and \<open>ntfs_trim\<close> say what the file systems
  make of a name; the scans are shown to be comparisons of that with the reserved name, and
  \<open>ValidTreePath\<close> to accept exactly the paths none of whose components resolves to one.

  Strings are bytes. \<open>[]rune(s)\<close> is Go's UTF-8 decoding, in which an invalid byte is the code point
  U+FFFD. \<open>filepath.VolumeName\<close> depends on the operating system and is a parameter.
\<close>

subsection \<open>Code points\<close>

definition ascii :: "string \<Rightarrow> bytes" where "ascii s = map of_char s"

text \<open>The size of the encoding that a first byte announces and the range of its second byte.\<close>

definition utf8_first :: "byte \<Rightarrow> (nat \<times> byte \<times> byte) option" where
  "utf8_first b =
     (if b < 0xC2 then None
      else if b \<le> 0xDF then Some (2, 0x80, 0xBF)
      else if b = 0xE0 then Some (3, 0xA0, 0xBF)
      else if b = 0xED then Some (3, 0x80, 0x9F)
      else if b \<le> 0xEF then Some (3, 0x80, 0xBF)
      else if b = 0xF0 then Some (4, 0x90, 0xBF)
      else if b \<le> 0xF3 then Some (4, 0x80, 0xBF)
      else if b = 0xF4 then Some (4, 0x80, 0x8F)
      else None)"

definition RuneError :: int where "RuneError = 0xFFFD"

text \<open>\<open>utf8.DecodeRune\<close> on a non-empty string: the code point and the number of bytes it takes.\<close>

definition DecodeRune :: "bytes \<Rightarrow> int \<times> nat" where
  "DecodeRune s =
     (let b = hd s in
      if b < 0x80 then (uint b, 1)
      else case utf8_first b of
        None \<Rightarrow> (RuneError, 1)
      | Some (n, lo, hi) \<Rightarrow>
          if length s < n \<or> s ! 1 < lo \<or> hi < s ! 1 \<or> \<not> list_all (\<lambda>c. 0x80 \<le> c \<and> c \<le> 0xBF) (take (n - 2) (drop 2 s))
          then (RuneError, 1)
          else (foldl (\<lambda>r c. r * 64 + uint c mod 64) (uint b mod 2 ^ (7 - n)) (take (n - 1) (drop 1 s)), n))"

lemma utf8_first_size: "utf8_first b = Some (n, lo, hi) \<Longrightarrow> 2 \<le> n \<and> n \<le> 4"
  unfolding utf8_first_def
  by (simp only: option.inject prod.inject split: if_split_asm) auto

lemma DecodeRune_size: "0 < snd (DecodeRune s)"
  using utf8_first_size by (fastforce simp: DecodeRune_def Let_def split: option.split prod.split)

function runes :: "bytes \<Rightarrow> int list" where
  "runes s = (if s = [] then [] else let (r, n) = DecodeRune s in r # runes (drop n s))"
  by pat_completeness auto
termination
proof (relation "measure length", goal_cases)
  case (2 s x r n)
  then have "0 < n" using DecodeRune_size [of s] by (metis snd_conv)
  then show ?case using 2 by (cases s) auto
qed simp

declare runes.simps [simp del]

subsection \<open>Names\<close>

definition asciiToLower :: "byte \<Rightarrow> byte" where
  "asciiToLower c = (if 0x41 \<le> c \<and> c \<le> 0x5A then c + (0x61 - 0x41) else c)"

text \<open>
  \<open>strings.ToLower\<close> as far as a comparison with an ASCII literal sees it: besides the ASCII capitals,
  only U+0130 and U+212A have an ASCII lower case; all other code points stay outside ASCII.
\<close>

definition rune_lower :: "int \<Rightarrow> int" where
  "rune_lower r = (if 0x41 \<le> r \<and> r \<le> 0x5A then r + 0x20 else if r = 0x130 then 0x69 else if r = 0x212A then 0x6B else r)"

definition IsDotGitName :: "bytes \<Rightarrow> bool" where
  "IsDotGitName name = (map rune_lower (runes name) \<in> {map of_char ''.git'', map of_char ''git~1''})"

definition hfsIgnoredCodepoints :: "int list" where
  "hfsIgnoredCodepoints =
     [0x200c, 0x200d, 0x200e, 0x200f, 0x202a, 0x202b, 0x202c, 0x202d, 0x202e,
      0x206a, 0x206b, 0x206c, 0x206d, 0x206e, 0x206f, 0xfeff]"

definition hfs_skip :: "int list \<Rightarrow> int list" where
  "hfs_skip rs = dropWhile (\<lambda>r. r \<in> set hfsIgnoredCodepoints) rs"

text \<open>The loop over the needle; its end skips once more and must be at the end of the component.\<close>

fun hfs_match :: "int list \<Rightarrow> int list \<Rightarrow> bool" where
  "hfs_match [] rs \<longleftrightarrow> hfs_skip rs = []"
| "hfs_match (expected # needle) rs \<longleftrightarrow>
     (case hfs_skip rs of
        [] \<Rightarrow> False
      | r # rs' \<Rightarrow> if r > 127 then False else if rune_lower r \<noteq> expected then False else hfs_match needle rs')"

definition IsHFSDot :: "bytes \<Rightarrow> bytes \<Rightarrow> bool" where
  "IsHFSDot part needle =
     (case hfs_skip (runes part) of
        [] \<Rightarrow> False
      | r # rs \<Rightarrow> if r \<noteq> 0x2E then False else hfs_match (runes needle) rs)"

definition IsHFSDotGit :: "bytes \<Rightarrow> bool" where "IsHFSDotGit part = IsHFSDot part (ascii ''git'')"
definition IsHFSDotGitmodules :: "bytes \<Rightarrow> bool" where "IsHFSDotGitmodules part = IsHFSDot part (ascii ''gitmodules'')"
definition IsHFSDotGitattributes :: "bytes \<Rightarrow> bool" where "IsHFSDotGitattributes part = IsHFSDot part (ascii ''gitattributes'')"
definition IsHFSDotGitignore :: "bytes \<Rightarrow> bool" where "IsHFSDotGitignore part = IsHFSDot part (ascii ''gitignore'')"
definition IsHFSDotMailmap :: "bytes \<Rightarrow> bool" where "IsHFSDotMailmap part = IsHFSDot part (ascii ''mailmap'')"

text \<open>A rest of a name that NTFS trims: spaces and periods, up to the end or a colon.\<close>

fun onlySpacesAndPeriods :: "bytes \<Rightarrow> bool" where
  "onlySpacesAndPeriods [] \<longleftrightarrow> True"
| "onlySpacesAndPeriods (c # s) \<longleftrightarrow>
     (if c = 0x3A then True else if c \<noteq> 0x20 \<and> c \<noteq> 0x2E then False else onlySpacesAndPeriods s)"

definition IsNTFSDotGit :: "bytes \<Rightarrow> bool" where
  "IsNTFSDotGit part =
     (if 4 \<le> length part \<and> part ! 0 = 0x2E \<and> asciiToLower (part ! 1) = 0x67 \<and>
         asciiToLower (part ! 2) = 0x69 \<and> asciiToLower (part ! 3) = 0x74
      then onlySpacesAndPeriods (drop 4 part)
      else if 5 \<le> length part \<and> asciiToLower (part ! 0) = 0x67 \<and> asciiToLower (part ! 1) = 0x69 \<and>
         asciiToLower (part ! 2) = 0x74 \<and> part ! 3 = 0x7E \<and> part ! 4 = 0x31
      then onlySpacesAndPeriods (drop 5 part)
      else False)"

text \<open>
  \<open>strings.EqualFold\<close> of two strings of the same number of bytes, one of them ASCII: a multi-byte code
  point in the other would leave it with fewer code points.
\<close>

definition EqualFold_ascii :: "bytes \<Rightarrow> bytes \<Rightarrow> bool" where
  "EqualFold_ascii a b \<longleftrightarrow> map asciiToLower a = map asciiToLower b"

definition windowsReservedNames :: "bytes list" where
  "windowsReservedNames = map ascii
     [''CON'', ''PRN'', ''AUX'', ''NUL'',
      ''COM1'', ''COM2'', ''COM3'', ''COM4'', ''COM5'', ''COM6'', ''COM7'', ''COM8'', ''COM9'',
      ''LPT1'', ''LPT2'', ''LPT3'', ''LPT4'', ''LPT5'', ''LPT6'', ''LPT7'', ''LPT8'', ''LPT9'',
      ''CONIN$'', ''CONOUT$'']"

definition isWindowsReservedName :: "bytes \<Rightarrow> bool" where
  "isWindowsReservedName part =
     list_ex (\<lambda>name. length name \<le> length part \<and> EqualFold_ascii (take (length name) part) name \<and>
       (length part = length name \<or> part ! length name \<in> {0x20, 0x2E, 0x3A})) windowsReservedNames"

definition WindowsValidPath :: "bytes \<Rightarrow> bool" where
  "WindowsValidPath part = (if IsNTFSDotGit part \<and> \<not> IsDotGitName part then False else \<not> isWindowsReservedName part)"

text \<open>
  The loop of the fall-back short names: the position \<open>i\<close> and whether a tilde has been seen. \<open>Some\<close> is
  the early return; the loop is entered with at least eight bytes of name.
\<close>

function ntfs_short_loop :: "bytes \<Rightarrow> bytes \<Rightarrow> bool \<Rightarrow> nat \<Rightarrow> bool option" where
  "ntfs_short_loop name shortnamePrefix sawTilde i =
     (if \<not> i < 8 then None
      else
        let c = name ! i in
        if sawTilde then
          (if c < 0x30 \<or> c > 0x39 then Some False else ntfs_short_loop name shortnamePrefix sawTilde (i + 1))
        else if c = 0x7E then
          (let i = i + 1 in
           if length name \<le> i \<or> name ! i < 0x31 \<or> name ! i > 0x39 then Some False
           else ntfs_short_loop name shortnamePrefix True (i + 1))
        else if 6 \<le> i then Some False
        else if c AND 0x80 \<noteq> 0 then Some False
        else if asciiToLower c \<noteq> shortnamePrefix ! i then Some False
        else ntfs_short_loop name shortnamePrefix sawTilde (i + 1))"
  by pat_completeness auto
termination by (relation "measure (\<lambda>(n, p, s, i). 8 - i)") auto

declare ntfs_short_loop.simps [simp del]

definition IsNTFSDot :: "bytes \<Rightarrow> bytes \<Rightarrow> bytes \<Rightarrow> bool" where
  "IsNTFSDot name dotgit shortnamePrefix =
     (if length dotgit + 1 \<le> length name \<and> name ! 0 = 0x2E \<and>
         EqualFold_ascii (take (length dotgit) (drop 1 name)) dotgit \<and>
         onlySpacesAndPeriods (drop (length dotgit + 1) name)
      then True
      else if 6 \<le> length dotgit \<and> 8 \<le> length name \<and>
         EqualFold_ascii (take 6 name) (take 6 dotgit) \<and>
         name ! 6 = 0x7E \<and> 0x31 \<le> name ! 7 \<and> name ! 7 \<le> 0x34 \<and>
         onlySpacesAndPeriods (drop 8 name)
      then True
      else if length shortnamePrefix < 6 \<or> length name < 8 then False
      else case ntfs_short_loop name shortnamePrefix False 0 of
        Some r \<Rightarrow> r
      | None \<Rightarrow> onlySpacesAndPeriods (drop 8 name))"

definition IsNTFSDotGitmodules :: "bytes \<Rightarrow> bool" where
  "IsNTFSDotGitmodules part = IsNTFSDot part (ascii ''gitmodules'') (ascii ''gi7eba'')"
definition IsNTFSDotGitattributes :: "bytes \<Rightarrow> bool" where
  "IsNTFSDotGitattributes part = IsNTFSDot part (ascii ''gitattributes'') (ascii ''gi7d29'')"
definition IsNTFSDotGitignore :: "bytes \<Rightarrow> bool" where
  "IsNTFSDotGitignore part = IsNTFSDot part (ascii ''gitignore'') (ascii ''gi250a'')"
definition IsNTFSDotMailmap :: "bytes \<Rightarrow> bool" where
  "IsNTFSDotMailmap part = IsNTFSDot part (ascii ''mailmap'') (ascii ''maba30'')"

subsection \<open>Paths\<close>

definition isPathSep :: "byte \<Rightarrow> bool" where "isPathSep r \<longleftrightarrow> r = 0x2F \<or> r = 0x5C"

text \<open>\<open>strings.FieldsFunc\<close> with a predicate on ASCII symbols: the maximal runs that do not satisfy it.\<close>

function FieldsFunc :: "('a \<Rightarrow> bool) \<Rightarrow> 'a list \<Rightarrow> 'a list list" where
  "FieldsFunc P s =
     (let t = dropWhile P s in
      if t = [] then [] else takeWhile (\<lambda>c. \<not> P c) t # FieldsFunc P (dropWhile (\<lambda>c. \<not> P c) t))"
  by pat_completeness auto
termination
proof (relation "measure (\<lambda>(P, s). length s)", goal_cases)
  case (2 P s t)
  then obtain c u where t: "t = c # u" "\<not> P c" by (metis dropWhile_eq_Cons_conv neq_Nil_conv)
  then have "length (dropWhile (\<lambda>c. \<not> P c) t) < length t"
    by (simp add: length_dropWhile_le le_imp_less_Suc)
  also have "\<dots> \<le> length s" using 2(1) length_dropWhile_le by metis
  finally show ?case by simp
qed simp

declare FieldsFunc.simps [simp del]

definition is_control :: "byte \<Rightarrow> bool" where "is_control c \<longleftrightarrow> c < 0x20 \<or> c = 0x7F"

datatype path_error = HasControl | NoComponent | HasVolume | DotComponent bytes | DotGitComponent

fun ValidTreePath_parts :: "bytes list \<Rightarrow> path_error option" where
  "ValidTreePath_parts [] = None"
| "ValidTreePath_parts (part # parts) =
     (if part = ascii ''.'' \<or> part = ascii ''..'' then Some (DotComponent part)
      else if IsDotGitName part \<or> IsHFSDotGit part \<or> IsNTFSDotGit part then Some DotGitComponent
      else ValidTreePath_parts parts)"

definition ValidTreePath :: "(bytes \<Rightarrow> bytes) \<Rightarrow> bytes \<Rightarrow> path_error option" where
  "ValidTreePath VolumeName p =
     (if list_ex is_control p then Some HasControl
      else let parts = FieldsFunc isPathSep p in
        if parts = [] then Some NoComponent
        else if VolumeName p \<noteq> [] then Some HasVolume
        else ValidTreePath_parts parts)"

definition unsafe_part :: "bytes \<Rightarrow> bool" where
  "unsafe_part part =
     (if list_ex is_control part then True
      else if \<not> list_ex (\<lambda>c. c = 0x2E) part then False
      else IsHFSDot part [] \<or> IsNTFSDot part [] [] \<or> IsHFSDot part (ascii ''.''))"

definition HasUnsafeComponent :: "bytes \<Rightarrow> bool" where
  "HasUnsafeComponent name = list_ex unsafe_part (FieldsFunc isPathSep name)"

subsection \<open>What the file systems make of a name\<close>

definition fold_rune :: "int \<Rightarrow> int" where "fold_rune r = (if r \<le> 127 then rune_lower r else r)"

text \<open>HFS+: without the ignored code points, ASCII in lower case.\<close>

definition hfs_kept :: "int list \<Rightarrow> int list" where
  "hfs_kept rs = filter (\<lambda>r. r \<notin> set hfsIgnoredCodepoints) rs"

definition hfs_fold :: "bytes \<Rightarrow> int list" where
  "hfs_fold part = map fold_rune (hfs_kept (runes part))"

definition trimmed_byte :: "byte \<Rightarrow> bool" where "trimmed_byte c \<longleftrightarrow> c = 0x20 \<or> c = 0x2E"

text \<open>NTFS: up to the first colon, without trailing spaces and periods, in lower case.\<close>

definition ntfs_trim :: "bytes \<Rightarrow> bytes" where
  "ntfs_trim part = map asciiToLower (rev (dropWhile trimmed_byte (rev (takeWhile (\<lambda>c. c \<noteq> 0x3A) part))))"

lemma hfs_kept_skip: "hfs_kept rs = (case hfs_skip rs of [] \<Rightarrow> [] | r # rs' \<Rightarrow> r # hfs_kept rs')"
  by (induction rs) (auto simp: hfs_kept_def hfs_skip_def)

lemma hfs_match_iff:
  "list_all (\<lambda>e. e \<le> 127) needle \<Longrightarrow> hfs_match needle rs \<longleftrightarrow> map fold_rune (hfs_kept rs) = needle"
proof (induction needle arbitrary: rs)
  case Nil
  show ?case using hfs_kept_skip [of rs] by (cases "hfs_skip rs") simp_all
next
  case (Cons e needle)
  have IH: "hfs_match needle rs \<longleftrightarrow> map fold_rune (hfs_kept rs) = needle" for rs
    using Cons by simp
  have *: "fold_rune r = e \<longleftrightarrow> r \<le> 127 \<and> rune_lower r = e" for r
    using Cons.prems by (auto simp: fold_rune_def)
  show ?case using hfs_kept_skip [of rs] by (cases "hfs_skip rs") (simp_all add: IH *)
qed

lemma fold_rune_dot: "fold_rune r = 0x2E \<longleftrightarrow> r = 0x2E"
  by (auto simp: fold_rune_def rune_lower_def split: if_splits)

lemma IsHFSDot_iff:
  assumes "list_all (\<lambda>e. e \<le> 127) (runes needle)"
  shows "IsHFSDot part needle \<longleftrightarrow> hfs_fold part = 0x2E # runes needle"
  unfolding IsHFSDot_def hfs_fold_def
  by (subst hfs_kept_skip) (auto simp: hfs_match_iff [OF assms] fold_rune_dot split: list.split)

lemma onlySpacesAndPeriods_iff: "onlySpacesAndPeriods s \<longleftrightarrow> list_all trimmed_byte (takeWhile (\<lambda>c. c \<noteq> 0x3A) s)"
  by (induction s) (auto simp: trimmed_byte_def)

lemma unat_lower: "c \<le> 0x5A \<Longrightarrow> unat (c + 0x20 :: byte) = unat c + 0x20"
  by (simp add: word_le_nat_alt unat_word_ariths)

lemma asciiToLower_symbol:
  assumes "unat k < 0x61 \<or> 0x7A < unat k" and "unat k < 0x41 \<or> 0x5A < unat k"
  shows "asciiToLower c = k \<longleftrightarrow> c = k"
proof (cases "0x41 \<le> c \<and> c \<le> 0x5A")
  case True
  then have "unat (asciiToLower c) = unat c + 0x20" using unat_lower [of c] by (simp add: asciiToLower_def)
  moreover have "0x41 \<le> unat c" "unat c \<le> 0x5A" using True by (simp_all add: word_le_nat_alt)
  ultimately show ?thesis using assms by auto
qed (auto simp: asciiToLower_def)

lemma asciiToLower_colon: "asciiToLower c = 0x3A \<longleftrightarrow> c = 0x3A"
  by (rule asciiToLower_symbol) simp_all

lemma trimmed_asciiToLower: "trimmed_byte (asciiToLower c) \<longleftrightarrow> trimmed_byte c"
  unfolding trimmed_byte_def
  using asciiToLower_symbol [of "0x20" c] asciiToLower_symbol [of "0x2E" c] by simp

lemma takeWhile_drop: "n \<le> length (takeWhile P s) \<Longrightarrow> takeWhile P (drop n s) = drop n (takeWhile P s)"
proof (induction s arbitrary: n)
  case (Cons x s)
  then show ?case by (cases n) (auto split: if_splits)
qed simp

text \<open>A name with a trimmed rest is one that NTFS resolves to the name before it.\<close>

lemma ntfs_rest_iff:
  assumes "base \<noteq> []" and "0x3A \<notin> set base" and "\<not> trimmed_byte (last base)"
  shows "length base \<le> length s \<and> map asciiToLower (take (length base) s) = base \<and>
      onlySpacesAndPeriods (drop (length base) s) \<longleftrightarrow> ntfs_trim s = base"
    (is "?L \<longleftrightarrow> _")
proof
  assume L: ?L
  define t r where "t = take (length base) s" and "r = drop (length base) s"
  have s: "s = t @ r" and t: "map asciiToLower t = base" and r: "list_all trimmed_byte (takeWhile (\<lambda>c. c \<noteq> 0x3A) r)"
    using L by (auto simp: t_def r_def onlySpacesAndPeriods_iff)
  have "0x3A \<notin> set t" using assms(2) t asciiToLower_colon by force
  then have u: "takeWhile (\<lambda>c. c \<noteq> 0x3A) s = t @ takeWhile (\<lambda>c. c \<noteq> 0x3A) r"
    unfolding s by (intro takeWhile_append2) auto
  have "t \<noteq> []" using assms(1) t by auto
  moreover have "\<not> trimmed_byte (last t)"
    using assms(1,3) t trimmed_asciiToLower by (metis calculation last_map)
  ultimately have "dropWhile trimmed_byte (rev t) = rev t"
    by (metis dropWhile_eq_self_iff hd_rev)
  moreover have "dropWhile trimmed_byte (rev (takeWhile (\<lambda>c. c \<noteq> 0x3A) r) @ rev t) = dropWhile trimmed_byte (rev t)"
    using r by (intro dropWhile_append2) (auto simp: list_all_iff)
  ultimately show "ntfs_trim s = base" using t by (simp add: ntfs_trim_def u)
next
  assume R: "ntfs_trim s = base"
  define u where "u = takeWhile (\<lambda>c. c \<noteq> 0x3A) s"
  define v w where "v = rev (dropWhile trimmed_byte (rev u))" and "w = rev (takeWhile trimmed_byte (rev u))"
  have u: "u = v @ w" by (simp add: v_def w_def flip: rev_append)
  have v: "map asciiToLower v = base" using R by (simp add: ntfs_trim_def v_def u_def)
  then have len: "length v = length base" by auto
  have "length u \<le> length s" unfolding u_def by (rule length_takeWhile_le)
  then have le: "length base \<le> length s" using u len by simp
  have "take (length base) s = take (length base) u"
    using u len takeWhile_eq_take [of "\<lambda>c. c \<noteq> 0x3A" s] by (simp add: u_def min_def)
  then have "take (length base) s = v" using u len by simp
  moreover have "takeWhile (\<lambda>c. c \<noteq> 0x3A) (drop (length base) s) = w"
    using takeWhile_drop [of "length base" "\<lambda>c. c \<noteq> 0x3A" s] u len by (simp flip: u_def)
  moreover have "list_all trimmed_byte w" by (auto simp: w_def list_all_iff dest: set_takeWhileD)
  ultimately show ?L using le v by (simp add: onlySpacesAndPeriods_iff)
qed

lemma ntfs_rest_at:
  assumes "n = length base" and "base \<noteq> []" and "0x3A \<notin> set base" and "\<not> trimmed_byte (last base)"
  shows "n \<le> length s \<and> map asciiToLower (take n s) = base \<and> onlySpacesAndPeriods (drop n s) \<longleftrightarrow> ntfs_trim s = base"
  unfolding assms(1) by (rule ntfs_rest_iff [OF assms(2-4)])

lemma ascii_names:
  "ascii ''.git'' = [0x2E, 0x67, 0x69, 0x74]" "ascii ''git~1'' = [0x67, 0x69, 0x74, 0x7E, 0x31]"
  "ascii ''.'' = [0x2E]" "ascii ''..'' = [0x2E, 0x2E]" "ascii ''git'' = [0x67, 0x69, 0x74]"
  by (simp_all add: ascii_def)

lemma runes_names: "runes (ascii ''git'') = [0x67, 0x69, 0x74]" "runes (ascii ''.'') = [0x2E]" "runes [] = []"
  by code_simp+

lemma IsHFSDotGit_iff: "IsHFSDotGit part \<longleftrightarrow> hfs_fold part = [0x2E, 0x67, 0x69, 0x74]"
  unfolding IsHFSDotGit_def by (subst IsHFSDot_iff) (simp_all add: runes_names)

lemma take_as_nths: "n \<le> length s \<Longrightarrow> take n s = map ((!) s) [0..<n]"
  by (rule nth_equalityI) auto

lemma IsNTFSDotGit_iff: "IsNTFSDotGit part \<longleftrightarrow> ntfs_trim part \<in> {ascii ''.git'', ascii ''git~1''}"
proof -
  have dot: "asciiToLower c = 0x2E \<longleftrightarrow> c = 0x2E" and tilde: "asciiToLower c = 0x7E \<longleftrightarrow> c = 0x7E"
    and one: "asciiToLower c = 0x31 \<longleftrightarrow> c = 0x31" for c
    by (rule asciiToLower_symbol; simp)+
  have 4: "4 \<le> length part \<and> map asciiToLower (take 4 part) = [0x2E, 0x67, 0x69, 0x74] \<longleftrightarrow>
      4 \<le> length part \<and> part ! 0 = 0x2E \<and> asciiToLower (part ! 1) = 0x67 \<and>
         asciiToLower (part ! 2) = 0x69 \<and> asciiToLower (part ! 3) = 0x74"
    by (auto simp: take_as_nths dot upt_rec eval_nat_numeral)
  have 5: "5 \<le> length part \<and> map asciiToLower (take 5 part) = [0x67, 0x69, 0x74, 0x7E, 0x31] \<longleftrightarrow>
      5 \<le> length part \<and> asciiToLower (part ! 0) = 0x67 \<and> asciiToLower (part ! 1) = 0x69 \<and>
         asciiToLower (part ! 2) = 0x74 \<and> part ! 3 = 0x7E \<and> part ! 4 = 0x31"
    by (auto simp: take_as_nths tilde one upt_rec eval_nat_numeral)
  have clash: "asciiToLower 0x2E \<noteq> 0x67" by (simp add: asciiToLower_def)
  have "IsNTFSDotGit part \<longleftrightarrow>
      4 \<le> length part \<and> map asciiToLower (take 4 part) = [0x2E, 0x67, 0x69, 0x74] \<and> onlySpacesAndPeriods (drop 4 part) \<or>
      5 \<le> length part \<and> map asciiToLower (take 5 part) = [0x67, 0x69, 0x74, 0x7E, 0x31] \<and> onlySpacesAndPeriods (drop 5 part)"
    unfolding IsNTFSDotGit_def conj_assoc [symmetric] 4 5
    using clash by (cases "part ! 0 = 0x2E") (simp_all only: simp_thms conj_assoc if_False if_bool_eq_conj, blast+)
  then show ?thesis
    using ntfs_rest_at [of 4 "[0x2E, 0x67, 0x69, 0x74]" part] ntfs_rest_at [of 5 "[0x67, 0x69, 0x74, 0x7E, 0x31]" part]
    by (simp add: ascii_names trimmed_byte_def)
qed

subsection \<open>Components\<close>

text \<open>A component of a path: a maximal run without separators.\<close>

definition path_component :: "bytes \<Rightarrow> bytes \<Rightarrow> bool" where
  "path_component c p \<longleftrightarrow> c \<noteq> [] \<and> \<not> list_ex isPathSep c \<and>
     (\<exists>a b. p = a @ c @ b \<and> (a = [] \<or> isPathSep (last a)) \<and> (b = [] \<or> isPathSep (hd b)))"

lemma FieldsFunc_step:
  assumes "s = a @ c @ b" and "list_all P a" and "c \<noteq> []" and "\<not> list_ex P c" and "b = [] \<or> P (hd b)"
  shows "FieldsFunc P s = c # FieldsFunc P b"
proof -
  have ne: "dropWhile P s = c @ b"
    using assms by (cases c) (auto simp: dropWhile_append2 list_all_iff)
  have "takeWhile (\<lambda>x. \<not> P x) (c @ b) = c" "dropWhile (\<lambda>x. \<not> P x) (c @ b) = b"
    using assms(4,5) by (cases b; auto simp: list_ex_iff takeWhile_append2 dropWhile_append2)+
  then show ?thesis using ne assms(3) by (subst FieldsFunc.simps) simp
qed

lemma FieldsFunc_none: "list_all P s \<Longrightarrow> FieldsFunc P s = []"
  by (subst FieldsFunc.simps) (simp add: list_all_iff dropWhile_eq_Nil_conv)

lemma field_split:
  assumes "\<not> list_all P s"
  obtains a c b where "s = a @ c @ b" "list_all P a" "c \<noteq> []" "\<not> list_ex P c" "b = [] \<or> P (hd b)"
proof -
  let ?t = "dropWhile P s"
  have t: "?t \<noteq> []" using assms by (simp add: list_all_iff dropWhile_eq_Nil_conv)
  note h = hd_dropWhile [OF t]
  show ?thesis
  proof (rule that [of "takeWhile P s" "takeWhile (\<lambda>x. \<not> P x) ?t" "dropWhile (\<lambda>x. \<not> P x) ?t"])
    show "list_all P (takeWhile P s)" by (auto simp: list_all_iff dest: set_takeWhileD)
    show "takeWhile (\<lambda>x. \<not> P x) ?t \<noteq> []" using t h by (cases ?t) (simp_all only: list.sel takeWhile.simps, simp)
    show "\<not> list_ex P (takeWhile (\<lambda>x. \<not> P x) ?t)" by (auto simp: list_ex_iff dest: set_takeWhileD)
    show "dropWhile (\<lambda>x. \<not> P x) ?t = [] \<or> P (hd (dropWhile (\<lambda>x. \<not> P x) ?t))"
      using hd_dropWhile [of "\<lambda>x. \<not> P x" ?t] by blast
  qed simp
qed

text \<open>Where a run of a string with a first run stands: it is that one, or it is in the rest.\<close>

lemma run_cases:
  assumes s: "a @ c @ b = a' @ c' @ b'" and "list_all P a" and "c \<noteq> []" and "\<not> list_ex P c"
    and "b = [] \<or> P (hd b)" and "c' \<noteq> []" and "\<not> list_ex P c'"
    and "a' = [] \<or> P (last a')" and "b' = [] \<or> P (hd b')"
  shows "c' = c \<or> (\<exists>a''. b = a'' @ c' @ b' \<and> (a'' = [] \<or> P (last a'')))"
proof (cases "length a' < length a + length c")
  case True
  have ge: "length a \<le> length a'"
  proof (rule ccontr)
    assume *: "\<not> ?thesis"
    have "hd c' = (a' @ c' @ b') ! length a'" using assms(6) by (simp add: hd_conv_nth nth_append)
    also have "\<dots> = a ! length a'" using * by (simp add: nth_append flip: s)
    finally have "P (hd c')" using assms(2) * by (simp add: list_all_length)
    then show False using assms(6,7) by (cases c') auto
  qed
  have eq: "length a' = length a"
  proof (rule ccontr)
    assume "\<not> ?thesis"
    then have l: "length a < length a'" using ge by simp
    have "last a' = (a' @ c' @ b') ! (length a' - 1)" using l by (cases "a' = []") (auto simp: last_conv_nth nth_append)
    also have "\<dots> = c ! (length a' - 1 - length a)" using l True by (auto simp: nth_append simp flip: s)
    finally have "last a' \<in> set c" using l True by simp
    moreover have "P (last a')" using assms(8) l by auto
    ultimately show False using assms(4) by (auto simp: list_ex_iff)
  qed
  then have cb: "c @ b = c' @ b'" using s by (simp add: append_eq_append_conv)
  have "takeWhile (\<lambda>x. \<not> P x) (c @ b) = c" "takeWhile (\<lambda>x. \<not> P x) (c' @ b') = c'"
    using assms(4,5,7,9) by (cases b; cases b'; auto simp: list_ex_iff takeWhile_append2)+
  then show ?thesis using cb by simp
next
  case False
  have "(a @ c) @ b = a' @ (c' @ b')" using s by simp
  then obtain us where "a @ c = a' @ us \<and> us @ b = c' @ b' \<or> (a @ c) @ us = a' \<and> b = us @ c' @ b'"
    using append_eq_append_conv2 [of "a @ c" b a' "c' @ b'"] by blast
  then show ?thesis
  proof
    assume *: "a @ c = a' @ us \<and> us @ b = c' @ b'"
    then have "us = []" using False by (metis add_diff_cancel_left' length_append length_greater_0_conv less_add_same_cancel1)
    then show ?thesis using * by (intro disjI2 exI [of _ "[]"]) simp
  next
    assume "(a @ c) @ us = a' \<and> b = us @ c' @ b'"
    then show ?thesis using assms(8) by (cases "us = []") auto
  qed
qed

lemma FieldsFunc_iff:
  "c \<in> set (FieldsFunc P s) \<longleftrightarrow> c \<noteq> [] \<and> \<not> list_ex P c \<and>
     (\<exists>a b. s = a @ c @ b \<and> (a = [] \<or> P (last a)) \<and> (b = [] \<or> P (hd b)))"
proof (induction "length s" arbitrary: s rule: less_induct)
  case less
  show ?case
  proof (cases "list_all P s")
    case True
    then show ?thesis by (auto simp: FieldsFunc_none list_all_iff list_ex_iff)
  next
    case False
    then obtain a d b where s: "s = a @ d @ b" and ad: "list_all P a" "d \<noteq> []" "\<not> list_ex P d" "b = [] \<or> P (hd b)"
      by (rule field_split)
    have "length b < length s" using s ad(2) by simp
    note IH = less [OF this]
    have la: "a = [] \<or> P (last a)" using ad(1) by (cases "a = []") (auto simp: list_all_iff)
    have step: "c \<in> set (FieldsFunc P s) \<longleftrightarrow> c = d \<or> c \<in> set (FieldsFunc P b)"
      by (simp add: FieldsFunc_step [OF s ad])
    show ?thesis
    proof
      assume "c \<in> set (FieldsFunc P s)"
      then show "c \<noteq> [] \<and> \<not> list_ex P c \<and> (\<exists>a b. s = a @ c @ b \<and> (a = [] \<or> P (last a)) \<and> (b = [] \<or> P (hd b)))"
      proof (unfold step, elim disjE)
        assume "c \<in> set (FieldsFunc P b)"
        then obtain a' b' where "c \<noteq> []" "\<not> list_ex P c" "b = a' @ c @ b'" "a' = [] \<or> P (last a')" "b' = [] \<or> P (hd b')"
          using IH by blast
        moreover from this ad have "a' \<noteq> []" by (cases a'; cases c) auto
        ultimately show ?thesis using s by (intro conjI exI [of _ "a @ d @ a'"] exI [of _ b']) auto
      qed (use s ad la in auto)
    next
      assume "c \<noteq> [] \<and> \<not> list_ex P c \<and> (\<exists>a b. s = a @ c @ b \<and> (a = [] \<or> P (last a)) \<and> (b = [] \<or> P (hd b)))"
      then obtain a' b' where c: "c \<noteq> []" "\<not> list_ex P c" "s = a' @ c @ b'" "a' = [] \<or> P (last a')" "b' = [] \<or> P (hd b')"
        by blast
      have "a @ d @ b = a' @ c @ b'" using s c(3) by simp
      from run_cases [OF this ad c(1,2,4,5)]
      have "c = d \<or> (\<exists>a''. b = a'' @ c @ b' \<and> (a'' = [] \<or> P (last a'')))" .
      then show "c \<in> set (FieldsFunc P s)" unfolding step using IH c by blast
    qed
  qed
qed

lemma path_component_iff: "path_component c p \<longleftrightarrow> c \<in> set (FieldsFunc isPathSep p)"
  unfolding path_component_def FieldsFunc_iff by blast

subsection \<open>A code point below 128 is a byte of the string\<close>

lemma utf8_first_cases:
  assumes "utf8_first b = Some (n, lo, hi)"
  shows "n = 2 \<and> 0xC2 \<le> unat b \<and> unat b \<le> 0xDF \<or> n = 3 \<and> b = 0xE0 \<and> lo = 0xA0 \<and> hi = 0xBF \<or> n = 3 \<and> 0xE1 \<le> unat b \<and> unat b \<le> 0xEF \<or>
    n = 4 \<and> b = 0xF0 \<and> lo = 0x90 \<and> hi = 0xBF \<or> n = 4 \<and> 0xF1 \<le> unat b \<and> unat b \<le> 0xF4"
proof -
  have ne: "b \<noteq> 0xE0 \<longleftrightarrow> unat b \<noteq> 0xE0" "b \<noteq> 0xF0 \<longleftrightarrow> unat b \<noteq> 0xF0"
    by (auto simp: word_unat_eq_iff)
  from assms show ?thesis
    unfolding utf8_first_def
    by (simp only: option.inject prod.inject split: if_split_asm)
      (use ne in \<open>auto simp: word_le_nat_alt word_less_nat_alt\<close>)
qed

lemma uint_mod_nat: "uint (b :: byte) mod 64 = int (unat b mod 64)" "uint b mod 2 ^ k = int (unat b mod 2 ^ k)"
  by (simp_all add: of_nat_mod)

lemma rune_value:
  "foldl (\<lambda>r c. r * 64 + uint c mod 64) (int a) (cs :: bytes) = int (foldl (\<lambda>r c. r * 64 + unat c mod 64) a cs)"
proof (induction cs arbitrary: a)
  case (Cons c cs)
  have "int a * 64 + uint c mod 64 = int (a * 64 + unat c mod 64)" by (simp add: uint_mod_nat)
  then show ?case using Cons [of "a * 64 + unat c mod 64"] by simp
qed simp

lemma DecodeRune_multi:
  assumes "\<not> hd s < 0x80" and "fst (DecodeRune s) \<noteq> RuneError"
  obtains n lo hi where "utf8_first (hd s) = Some (n, lo, hi)" "n \<le> length s" "lo \<le> s ! 1" "s ! 1 \<le> hi"
    "fst (DecodeRune s) = int (foldl (\<lambda>r c. r * 64 + unat c mod 64) (unat (hd s) mod 2 ^ (7 - n)) (take (n - 1) (drop 1 s)))"
proof (cases "utf8_first (hd s)")
  case None
  then show ?thesis using assms by (simp add: DecodeRune_def)
next
  case (Some f)
  obtain n lo hi where f: "f = (n, lo, hi)" by (cases f)
  let ?bad = "length s < n \<or> s ! 1 < lo \<or> hi < s ! 1 \<or> \<not> list_all (\<lambda>c. 0x80 \<le> c \<and> c \<le> 0xBF) (take (n - 2) (drop 2 s))"
  have "\<not> ?bad"
  proof
    assume ?bad
    then have "fst (DecodeRune s) = RuneError"
      unfolding DecodeRune_def Let_def Some f using assms(1) by (simp only: if_False if_True option.case prod.case fst_conv)
    with assms(2) show False by simp
  qed
  moreover from this have "fst (DecodeRune s) =
      foldl (\<lambda>r c. r * 64 + uint c mod 64) (uint (hd s) mod 2 ^ (7 - n)) (take (n - 1) (drop 1 s))"
    unfolding DecodeRune_def Let_def Some f using assms(1) by (simp only: if_False option.case prod.case fst_conv)
  ultimately show ?thesis using that Some f unfolding uint_mod_nat(2) rune_value by (simp add: not_less)
qed

lemma take_drop1:
  "2 \<le> length s \<Longrightarrow> take 1 (drop 1 s) = [s ! 1]" "3 \<le> length s \<Longrightarrow> take 2 (drop 1 s) = [s ! 1, s ! 2]"
  "4 \<le> length s \<Longrightarrow> take 3 (drop 1 s) = [s ! 1, s ! 2, s ! 3]"
  by (auto simp: take_as_nths upt_rec eval_nat_numeral)

lemma small_digits2: "(a :: nat) * 64 + b < 128 \<Longrightarrow> a < 2"
  by linarith

lemma small_digits3: "((a :: nat) * 64 + b) * 64 + c < 128 \<Longrightarrow> a < 1 \<and> b < 2"
  unfolding distrib_right by linarith

lemma small_digits4: "(((a :: nat) * 64 + b) * 64 + c) * 64 + d < 128 \<Longrightarrow> a < 1 \<and> b < 1"
  unfolding distrib_right by linarith

lemma DecodeRune_small:
  assumes "s \<noteq> []" and "fst (DecodeRune s) < 0x80"
  shows "fst (DecodeRune s) = uint (hd s)"
proof (rule ccontr)
  assume ne: "\<not> ?thesis"
  have big: "\<not> hd s < 0x80"
  proof
    assume "hd s < 0x80"
    then have "fst (DecodeRune s) = uint (hd s)" by (simp add: DecodeRune_def)
    with ne show False by simp
  qed
  have "fst (DecodeRune s) \<noteq> RuneError" using assms(2) by (simp add: RuneError_def)
  then obtain n lo hi where f: "utf8_first (hd s) = Some (n, lo, hi)" and len: "n \<le> length s" and lo: "lo \<le> s ! 1" "s ! 1 \<le> hi"
      and v: "fst (DecodeRune s) = int (foldl (\<lambda>r c. r * 64 + unat c mod 64) (unat (hd s) mod 2 ^ (7 - n)) (take (n - 1) (drop 1 s)))"
    by (rule DecodeRune_multi [OF big])
  define x where "x = foldl (\<lambda>r c. r * 64 + unat c mod 64) (unat (hd s) mod 2 ^ (7 - n)) (take (n - 1) (drop 1 s))"
  have small: "x < 128" using assms(2) v by (simp add: x_def)
  have m32: "x mod 32 = x - 192" if "192 \<le> x" "x < 224" for x :: nat using that by (intro mod_nat_eqI) simp_all
  have m16: "x mod 16 = x - 224" if "224 \<le> x" "x < 240" for x :: nat using that by (intro mod_nat_eqI) simp_all
  have m8: "x mod 8 = x - 240" if "240 \<le> x" "x < 248" for x :: nat using that by (intro mod_nat_eqI) simp_all
  have m64: "x mod 64 = x - 128" if "128 \<le> x" "x < 192" for x :: nat using that by (intro mod_nat_eqI) simp_all
  from utf8_first_cases [OF f] show False
  proof (elim disjE conjE)
    assume n: "n = 2" and b: "0xC2 \<le> unat (hd s)" "unat (hd s) \<le> 0xDF"
    have "x = unat (hd s) mod 32 * 64 + unat (s ! 1) mod 64"
      using len take_drop1(1) [of s] unfolding x_def n by simp
    then have "unat (hd s) mod 32 < 2" using small small_digits2 by metis
    moreover have "unat (hd s) mod 32 = unat (hd s) - 192" using b by (intro m32) simp_all
    ultimately show False using b by linarith
  next
    assume n: "n = 3" and b: "hd s = 0xE0" "lo = 0xA0" "hi = 0xBF"
    have "x = (0 * 64 + unat (s ! 1) mod 64) * 64 + unat (s ! 2) mod 64"
      using len take_drop1(2) [of s] b(1) unfolding x_def n by simp
    then have "unat (s ! 1) mod 64 < 2" using small small_digits3 by metis
    moreover have y: "160 \<le> unat (s ! 1)" "unat (s ! 1) \<le> 191"
      using lo unfolding b(2,3) by (simp_all add: word_le_nat_alt)
    then have "unat (s ! 1) mod 64 = unat (s ! 1) - 128" by (intro m64) simp_all
    ultimately show False using y by linarith
  next
    assume n: "n = 3" and b: "0xE1 \<le> unat (hd s)" "unat (hd s) \<le> 0xEF"
    have "x = (unat (hd s) mod 16 * 64 + unat (s ! 1) mod 64) * 64 + unat (s ! 2) mod 64"
      using len take_drop1(2) [of s] unfolding x_def n by simp
    then have "unat (hd s) mod 16 < 1" using small small_digits3 by metis
    moreover have "unat (hd s) mod 16 = unat (hd s) - 224" using b by (intro m16) simp_all
    ultimately show False using b by linarith
  next
    assume n: "n = 4" and b: "hd s = 0xF0" "lo = 0x90" "hi = 0xBF"
    have "x = ((0 * 64 + unat (s ! 1) mod 64) * 64 + unat (s ! 2) mod 64) * 64 + unat (s ! 3) mod 64"
      using len take_drop1(3) [of s] b(1) unfolding x_def n by simp
    then have "unat (s ! 1) mod 64 < 1" using small small_digits4 by metis
    moreover have y: "144 \<le> unat (s ! 1)" "unat (s ! 1) \<le> 191"
      using lo unfolding b(2,3) by (simp_all add: word_le_nat_alt)
    then have "unat (s ! 1) mod 64 = unat (s ! 1) - 128" by (intro m64) simp_all
    ultimately show False using y by linarith
  next
    assume n: "n = 4" and b: "0xF1 \<le> unat (hd s)" "unat (hd s) \<le> 0xF4"
    have "x = ((unat (hd s) mod 8 * 64 + unat (s ! 1) mod 64) * 64 + unat (s ! 2) mod 64) * 64 + unat (s ! 3) mod 64"
      using len take_drop1(3) [of s] unfolding x_def n by simp
    then have "unat (hd s) mod 8 < 1" using small small_digits4 by metis
    moreover have "unat (hd s) mod 8 = unat (hd s) - 240" using b by (intro m8) simp_all
    ultimately show False using b by linarith
  qed
qed

lemma runes_small: "r \<in> set (runes s) \<Longrightarrow> r < 0x80 \<Longrightarrow> \<exists>c\<in>set s. uint c = r"
proof (induction s rule: runes.induct)
  case (1 s)
  obtain r0 n where d: "DecodeRune s = (r0, n)" by (cases "DecodeRune s")
  have ne: "s \<noteq> []" using "1.prems"(1) by (auto simp: runes.simps [of "[]"])
  from "1.prems"(1) ne d have "r = r0 \<or> r \<in> set (runes (drop n s))"
    by (subst (asm) runes.simps) simp
  then show ?case
  proof
    assume "r = r0"
    then have "uint (hd s) = r" using DecodeRune_small [OF ne] d "1.prems"(2) by simp
    then show ?thesis using ne by (intro bexI [of _ "hd s"]) simp_all
  next
    assume "r \<in> set (runes (drop n s))"
    from "1.IH" [OF ne d [symmetric] refl this "1.prems"(2)] show ?thesis using in_set_dropD by metis
  qed
qed

subsection \<open>The checks as statements about components\<close>

text \<open>A component that some file system resolves to the metadata directory or its short name.\<close>

definition denotes_dotgit :: "bytes \<Rightarrow> bool" where
  "denotes_dotgit c \<longleftrightarrow>
     map rune_lower (runes c) \<in> {map of_char ''.git'', map of_char ''git~1''} \<or>
     hfs_fold c = map of_char ''.git'' \<or>
     ntfs_trim c \<in> {ascii ''.git'', ascii ''git~1''}"

lemma dotgit_runes: "map of_char ''.git'' = [0x2E, 0x67, 0x69, 0x74 :: int]" by simp

lemma denotes_dotgit_iff: "denotes_dotgit c \<longleftrightarrow> IsDotGitName c \<or> IsHFSDotGit c \<or> IsNTFSDotGit c"
  unfolding denotes_dotgit_def IsDotGitName_def IsHFSDotGit_iff IsNTFSDotGit_iff dotgit_runes by (rule refl)

lemma ValidTreePath_parts_None:
  "ValidTreePath_parts parts = None \<longleftrightarrow>
     (\<forall>c\<in>set parts. c \<noteq> ascii ''.'' \<and> c \<noteq> ascii ''..'' \<and> \<not> denotes_dotgit c)"
  by (induction parts) (auto simp: denotes_dotgit_iff)

text \<open>
  \<^bold>\<open>C21\<close>. What \<open>ValidTreePath\<close> accepts: exactly the paths without control characters and volume
  name that have a component and none of whose components, between slashes or backslashes anywhere
  in the path, is a dot, two dots, or a name that resolves to \<open>.git\<close> or \<open>git~1\<close>: ignoring case,
  after dropping the code points that HFS+ ignores, or after NTFS has cut it at a colon and trimmed
  trailing spaces and periods.
\<close>

theorem ValidTreePath_iff:
  "ValidTreePath VolumeName p = None \<longleftrightarrow>
     \<not> list_ex is_control p \<and> VolumeName p = [] \<and> (\<exists>c. path_component c p) \<and>
     (\<forall>c. path_component c p \<longrightarrow> c \<noteq> ascii ''.'' \<and> c \<noteq> ascii ''..'' \<and> \<not> denotes_dotgit c)"
proof -
  have "FieldsFunc isPathSep p \<noteq> [] \<longleftrightarrow> (\<exists>c. path_component c p)"
    by (cases "FieldsFunc isPathSep p") (auto simp: path_component_iff)
  moreover have "ValidTreePath_parts (FieldsFunc isPathSep p) = None \<longleftrightarrow>
      (\<forall>c. path_component c p \<longrightarrow> c \<noteq> ascii ''.'' \<and> c \<noteq> ascii ''..'' \<and> \<not> denotes_dotgit c)"
    unfolding ValidTreePath_parts_None path_component_iff by blast
  ultimately show ?thesis
    by (cases "FieldsFunc isPathSep p = []") (auto simp: ValidTreePath_def Let_def)
qed

lemma ValidTreePath_iff_witness:
  "ValidTreePath (\<lambda>_. []) (ascii ''docs/.gitignore'') = None \<and>
   path_component (ascii ''.gitignore'') (ascii ''docs/.gitignore'') \<and> \<not> denotes_dotgit (ascii ''.gitignore'')"
proof -
  have v: "ValidTreePath (\<lambda>_. []) (ascii ''docs/.gitignore'') = None" by code_simp
  have c: "path_component (ascii ''.gitignore'') (ascii ''docs/.gitignore'')"
    unfolding path_component_iff by code_simp
  from v ValidTreePath_iff [of "\<lambda>_. []" "ascii ''docs/.gitignore''"] c show ?thesis by blast
qed

text \<open>Disguises that the check refuses: a zero-width joiner, a stream suffix, a dotted capital I.\<close>

lemma ValidTreePath_disguises:
  "ValidTreePath (\<lambda>_. []) (ascii ''a/.g'' @ [0xE2, 0x80, 0x8D] @ ascii ''it/config'') = Some DotGitComponent"
  "ValidTreePath (\<lambda>_. []) (ascii ''.GIT . ::$INDEX_ALLOCATION'') = Some DotGitComponent"
  "ValidTreePath (\<lambda>_. []) (ascii ''.g'' @ [0xC4, 0xB0] @ ascii ''t'') = Some DotGitComponent"
  by code_simp+

lemma IsNTFSDot_plain:
  assumes "length dotgit < 6"
  shows "IsNTFSDot part dotgit [] \<longleftrightarrow> length dotgit + 1 \<le> length part \<and> part ! 0 = 0x2E \<and>
    EqualFold_ascii (take (length dotgit) (drop 1 part)) dotgit \<and> onlySpacesAndPeriods (drop (length dotgit + 1) part)"
  using assms by (auto simp: IsNTFSDot_def)

lemma ntfs_trim_Nil: "ntfs_trim s = [] \<longleftrightarrow> onlySpacesAndPeriods s"
  by (simp add: ntfs_trim_def onlySpacesAndPeriods_iff list_all_iff dropWhile_eq_Nil_conv)

lemma IsNTFSDot_empty: "IsNTFSDot part [] [] \<longleftrightarrow> prefix [0x2E] part \<and> ntfs_trim part = []"
  by (cases part) (auto simp: IsNTFSDot_plain EqualFold_ascii_def ntfs_trim_Nil prefix_def)

text \<open>The needle \<open>.\<close> finds nothing for NTFS that the empty needle does not.\<close>

lemma IsNTFSDot_dot_redundant: "IsNTFSDot part (ascii ''.'') [] \<Longrightarrow> IsNTFSDot part [] []"
proof -
  assume "IsNTFSDot part (ascii ''.'') []"
  then have p: "2 \<le> length part" "part ! 0 = 0x2E" "map asciiToLower (take 1 (drop 1 part)) = [asciiToLower 0x2E]"
      "onlySpacesAndPeriods (drop 2 part)"
    by (auto simp: IsNTFSDot_plain EqualFold_ascii_def ascii_names numeral_2_eq_2)
  have one: "asciiToLower c = 0x2E \<longleftrightarrow> c = 0x2E" for c by (rule asciiToLower_symbol) simp_all
  obtain b c r where part: "part = b # c # r" using p(1) by (cases part; cases "tl part") auto
  then have "c = 0x2E" using p(3) one [of c] one [of "0x2E"] by simp
  then show ?thesis using p part by (simp add: IsNTFSDot_empty ntfs_trim_Nil prefix_def)
qed

lemma hfs_dot_in: "hfs_fold part = 0x2E # rs \<Longrightarrow> 0x2E \<in> set part"
proof -
  assume "hfs_fold part = 0x2E # rs"
  then obtain r where "r \<in> set (hfs_kept (runes part))" "fold_rune r = 0x2E"
    unfolding hfs_fold_def by (metis list.set_intros(1) imageE list.set_map)
  then have "0x2E \<in> set (runes part)" by (simp add: fold_rune_dot hfs_kept_def)
  then obtain c where "c \<in> set part" "uint c = 0x2E" using runes_small by fastforce
  then have "c = 0x2E" by (metis uint_word_of_int_eq word_of_int_uint word_of_int_numeral)
  with \<open>c \<in> set part\<close> show ?thesis by simp
qed

lemma IsHFSDot_dots:
  "IsHFSDot part [] \<longleftrightarrow> hfs_fold part = [0x2E]" "IsHFSDot part (ascii ''.'') \<longleftrightarrow> hfs_fold part = [0x2E, 0x2E]"
  by (subst IsHFSDot_iff; simp add: runes_names)+

text \<open>A component that a file system resolves to its own directory or the one above.\<close>

definition denotes_dots :: "bytes \<Rightarrow> bool" where
  "denotes_dots c \<longleftrightarrow> hfs_fold c = [0x2E] \<or> hfs_fold c = [0x2E, 0x2E] \<or> prefix [0x2E] c \<and> ntfs_trim c = []"

lemma unsafe_part_iff: "unsafe_part c \<longleftrightarrow> list_ex is_control c \<or> denotes_dots c"
proof -
  have "list_ex (\<lambda>x. x = 0x2E) c" if "denotes_dots c"
    using that hfs_dot_in [of c] by (auto simp: denotes_dots_def prefix_def list_ex_iff)
  then show ?thesis unfolding unsafe_part_def IsHFSDot_dots IsNTFSDot_empty denotes_dots_def by auto
qed

text \<open>
  \<open>HasUnsafeComponent\<close> reports exactly the names with a component that holds a control
  character or resolves to a dot or two dots: after HFS+ has dropped the code points it ignores, or
  because it starts with a period and NTFS trims it away. Its scan for a literal period, which
  skips the other checks, loses nothing: a code point below 128 is a byte of the string.
\<close>

theorem HasUnsafeComponent_iff:
  "HasUnsafeComponent name \<longleftrightarrow> (\<exists>c. path_component c name \<and> (list_ex is_control c \<or> denotes_dots c))"
  unfolding HasUnsafeComponent_def list_ex_iff path_component_iff unsafe_part_iff by blast

end
