(* ===== verification/Name_Gates.thy ===== *)
theory Name_Gates
  imports Reference_Name Path_Safety
begin

text \<open>
  The checks that names pass before they become paths: references in the file system storage
  (\<open>storage/filesystem/dotgit/dotgit.go\<close>) and in receive-pack
  (\<open>plumbing/transport/receive_pack.go\<close>), submodule names (\<open>config/modules.go\<close>) and paths of the
  work tree (\<open>worktree_fs.go\<close>). They combine the predicates on reference names and on path
  components; the properties say what each gate adds to the others.
\<close>

subsection \<open>References\<close>

datatype gate_error =
    NotSafe | NotUnderRefsNorRoot | UnsafeComponent | LeafTooLong nat | ComponentTooLong nat
  | InvalidName | ErrFunnyRefname

definition maxRefComponentLen :: nat where "maxRefComponentLen = 255"
definition refLockSuffix :: string where "refLockSuffix = ''.lock''"
definition maxRefLeafLen :: nat where "maxRefLeafLen = maxRefComponentLen - length refLockSuffix"

definition validReferenceName :: "ReferenceName \<Rightarrow> gate_error option" where
  "validReferenceName name =
     (if \<not> IsSafe name then Some NotSafe
      else if \<not> IsUnderRefs name \<and> \<not> IsRoot name then Some NotUnderRefsNorRoot
      else if HasUnsafeComponent (ascii name) then Some UnsafeComponent
      else None)"

text \<open>\<open>s[i+1:]\<close> after the last slash, all of \<open>s\<close> without one.\<close>

definition ref_leaf :: "string \<Rightarrow> string" where
  "ref_leaf s = rev (takeWhile (\<lambda>c. c \<noteq> CHR ''/'') (rev s))"

function component_length_loop :: "string \<Rightarrow> gate_error option" where
  "component_length_loop rest =
     (let i = length (takeWhile (\<lambda>c. c \<noteq> CHR ''/'') rest) in
      if i = length rest then None
      else if i > maxRefComponentLen then Some (ComponentTooLong i)
      else component_length_loop (drop (i + 1) rest))"
  by pat_completeness auto
termination
proof (relation "measure length", goal_cases)
  case (2 rest i)
  then have "i < length rest" using length_takeWhile_le [of "\<lambda>c. c \<noteq> CHR ''/''" rest] by simp
  then show ?case by simp
qed simp

declare component_length_loop.simps [simp del]

definition validReferenceNameLength :: "ReferenceName \<Rightarrow> gate_error option" where
  "validReferenceNameLength name =
     (let leaf = ref_leaf name in
      if length leaf > maxRefLeafLen then Some (LeafTooLong (length leaf))
      else component_length_loop name)"

definition validNewReferenceName :: "ReferenceName \<Rightarrow> gate_error option" where
  "validNewReferenceName name =
     (case validReferenceName name of
        Some e \<Rightarrow> Some e
      | None \<Rightarrow>
          (case validReferenceNameLength name of
             Some e \<Rightarrow> Some e
           | None \<Rightarrow>
               if \<not> IsUnderRefs name then None
               else (case Validate name of Inl e \<Rightarrow> Some InvalidName | Inr _ \<Rightarrow> None)))"

definition checkRefname :: "ReferenceName \<Rightarrow> gate_error option" where
  "checkRefname ref =
     (if \<not> IsUnderRefs ref then Some ErrFunnyRefname
      else if \<not> IsSafe ref then Some ErrFunnyRefname
      else if HasUnsafeComponent (ascii ref) then Some ErrFunnyRefname
      else case Validate ref of Inl e \<Rightarrow> Some ErrFunnyRefname | Inr _ \<Rightarrow> None)"

subsection \<open>Submodules\<close>

datatype module_error = ErrModuleBadName | ErrModuleEmptyPath | ErrModuleEmptyURL | ErrModuleBadPath

record Submodule_config =
  sm_Name :: bytes
  sm_Path :: bytes
  sm_URL :: bytes
  sm_Branch :: bytes

definition validSubmoduleName :: "bytes \<Rightarrow> module_error option" where
  "validSubmoduleName name =
     (if name = [] \<or> name = ascii ''.'' then Some ErrModuleBadName
      else if list_ex (\<lambda>seg. IsHFSDot seg (ascii ''.'') \<or> IsNTFSDot seg (ascii ''.'') []) (FieldsFunc isPathSep name)
        then Some ErrModuleBadName
      else if 0 \<in> set name then Some ErrModuleBadName
      else if isPathSep (hd name) \<or> isPathSep (last name) then Some ErrModuleBadName
      else if 2 \<le> length name \<and> name ! 1 = 0x3A then Some ErrModuleBadName
      else None)"

text \<open>
  The regular expression \<open>(^|[/\\])\.\.([/\\]|$)\<close>: two dots between separators or the ends. The
  scan is over the starting positions of a match.
\<close>

definition dotdot_end :: "bytes \<Rightarrow> bool" where
  "dotdot_end s \<longleftrightarrow> prefix [0x2E, 0x2E] s \<and> (length s = 2 \<or> isPathSep (s ! 2))"

fun dotdot_after_sep :: "bytes \<Rightarrow> bool" where
  "dotdot_after_sep [] \<longleftrightarrow> False"
| "dotdot_after_sep (c # s) \<longleftrightarrow> isPathSep c \<and> dotdot_end s \<or> dotdot_after_sep s"

definition dotdotPath :: "bytes \<Rightarrow> bool" where
  "dotdotPath s \<longleftrightarrow> dotdot_end s \<or> dotdot_after_sep s"

definition Submodule_Validate :: "Submodule_config \<Rightarrow> module_error option" where
  "Submodule_Validate m =
     (if validSubmoduleName (sm_Name m) \<noteq> None then Some ErrModuleBadName
      else if sm_Path m = [] then Some ErrModuleEmptyPath
      else if sm_URL m = [] then Some ErrModuleEmptyURL
      else if dotdotPath (sm_Path m) then Some ErrModuleBadPath
      else None)"

subsection \<open>The work tree\<close>

record worktree_flags =
  wf_protectNTFS :: bool
  wf_protectHFS :: bool

definition isDotGitVariant :: "bytes \<Rightarrow> bool \<Rightarrow> bool" where
  "isDotGitVariant part protectHFS =
     (if IsDotGitName part then True else if protectHFS \<and> IsHFSDotGit part then True else False)"

fun validPath_parts :: "worktree_flags \<Rightarrow> nat \<Rightarrow> nat \<Rightarrow> bytes list \<Rightarrow> path_error option" where
  "validPath_parts sfs n i [] = None"
| "validPath_parts sfs n i (part # parts) =
     (if part = ascii ''.'' \<or> part = ascii ''..'' then Some (DotComponent part)
      else if isDotGitVariant part (wf_protectHFS sfs) \<and> (i = 0 \<or> i < n - 1) then Some DotGitComponent
      else if wf_protectNTFS sfs \<and> \<not> WindowsValidPath part then Some HasVolume
      else validPath_parts sfs n (i + 1) parts)"

definition validPath_one :: "(bytes \<Rightarrow> bytes) \<Rightarrow> worktree_flags \<Rightarrow> bytes \<Rightarrow> path_error option" where
  "validPath_one VolumeName sfs p =
     (if list_ex is_control p then Some HasControl
      else let parts = FieldsFunc isPathSep p in
        if parts = [] then Some NoComponent
        else if wf_protectNTFS sfs \<and> VolumeName p \<noteq> [] then Some HasVolume
        else validPath_parts sfs (length parts) 0 parts)"

fun validPath :: "(bytes \<Rightarrow> bytes) \<Rightarrow> worktree_flags \<Rightarrow> bytes list \<Rightarrow> path_error option" where
  "validPath VolumeName sfs [] = None"
| "validPath VolumeName sfs (p # paths) =
     (case validPath_one VolumeName sfs p of Some e \<Rightarrow> Some e | None \<Rightarrow> validPath VolumeName sfs paths)"

text \<open>
  \<open>strings.EqualFold\<close> with an ASCII literal: simple case folding joins U+017F to \<open>s\<close> and U+212A to
  \<open>k\<close>, and no other code point outside ASCII to a letter.
\<close>

definition rune_fold :: "int \<Rightarrow> int" where
  "rune_fold r = (if 0x41 \<le> r \<and> r \<le> 0x5A then r + 0x20 else if r = 0x17F then 0x73 else if r = 0x212A then 0x6B else r)"

definition EqualFold_literal :: "bytes \<Rightarrow> string \<Rightarrow> bool" where
  "EqualFold_literal part lit \<longleftrightarrow> map rune_fold (runes part) = map rune_fold (map of_char lit)"

definition validSymlinkName :: "worktree_flags \<Rightarrow> bytes \<Rightarrow> bool" where
  "validSymlinkName sfs name =
     (\<not> list_ex (\<lambda>part. EqualFold_literal part ''.gitmodules'' \<or>
        wf_protectNTFS sfs \<and> IsNTFSDotGitmodules part \<or> wf_protectHFS sfs \<and> IsHFSDotGitmodules part)
      (FieldsFunc isPathSep name))"

subsection \<open>The length rules as bounds on components\<close>

lemma takeWhile_sep: "c \<notin> set a \<Longrightarrow> takeWhile (\<lambda>x. x \<noteq> c) (a @ c # b) = a" "c \<notin> set a \<Longrightarrow> takeWhile (\<lambda>x. x \<noteq> c) a = a"
  by (induction a) auto

lemma takeWhile_sep_cases:
  obtains "c \<notin> set s" "takeWhile (\<lambda>x. x \<noteq> c) s = s"
  | a b where "s = a @ c # b" "c \<notin> set a" "takeWhile (\<lambda>x. x \<noteq> c) s = a"
proof (cases "c \<in> set s")
  case False
  moreover from this have "takeWhile (\<lambda>x. x \<noteq> c) s = s" by (rule takeWhile_sep)
  ultimately show ?thesis by (rule that(1))
next
  case True
  then obtain a b where "s = a @ c # b" "c \<notin> set a" by (meson split_list_first)
  moreover from this have "takeWhile (\<lambda>x. x \<noteq> c) s = a" by (simp add: takeWhile_sep)
  ultimately show ?thesis using that(2) by blast
qed

lemma component_length_loop_None:
  "component_length_loop s = None \<longleftrightarrow> (\<forall>c\<in>set (butlast (split (CHR ''/'') s)). length c \<le> maxRefComponentLen)"
proof (induction s rule: component_length_loop.induct)
  case (1 s)
  show ?case
  proof (cases rule: takeWhile_sep_cases [of "CHR ''/''" s])
    case 1
    then have "component_length_loop s = None"
      by (subst component_length_loop.simps) (simp only: Let_def if_True simp_thms)
    then show ?thesis using 1 by (simp add: split_no_sep)
  next
    case (2 a b)
    have "component_length_loop s =
        (if maxRefComponentLen < length a then Some (ComponentTooLong (length a)) else component_length_loop b)"
      using 2 by (subst component_length_loop.simps) simp
    then show ?thesis
      using "1.IH" [OF refl] 2 by (auto simp: split_append_sep not_less)
  qed
qed

lemma ref_leaf_last: "ref_leaf s = last (split (CHR ''/'') s)"
proof (cases "CHR ''/'' \<in> set s")
  case False
  then show ?thesis using takeWhile_sep(2) [of "CHR ''/''" "rev s"]
    unfolding ref_leaf_def by (simp only: set_rev simp_thms rev_rev_ident split_no_sep last.simps if_True)
next
  case True
  then obtain a b where s: "s = a @ CHR ''/'' # b" "CHR ''/'' \<notin> set b" by (meson split_list_last)
  then have "split (CHR ''/'') s = split (CHR ''/'') a @ [b]" by (simp add: split_snoc_sep split_no_sep)
  moreover have "ref_leaf s = b" using s by (simp add: ref_leaf_def takeWhile_sep)
  ultimately show ?thesis by simp
qed

text \<open>Every component fits a directory entry, the last one with the suffix of its lock file.\<close>

definition fits_filesystem :: "ReferenceName \<Rightarrow> bool" where
  "fits_filesystem name \<longleftrightarrow> (let parts = split (CHR ''/'') name in
     list_all (\<lambda>c. length c \<le> 255) (butlast parts) \<and> length (last parts @ ''.lock'') \<le> 255)"

lemma validReferenceNameLength_None: "validReferenceNameLength name = None \<longleftrightarrow> fits_filesystem name"
  by (auto simp: validReferenceNameLength_def fits_filesystem_def ref_leaf_last component_length_loop_None
      maxRefLeafLen_def maxRefComponentLen_def refLockSuffix_def list_all_iff Let_def)

text \<open>A root ref: capitals and underscores, so none of its characters is a control or a period.\<close>

lemma root_chars:
  assumes "(CHR ''A'' \<le> c \<and> c \<le> CHR ''Z'') \<or> c = CHR ''_''"
  shows "\<not> is_control (of_char c) \<and> of_char c \<noteq> (0x2E :: byte) \<and> c \<noteq> CHR ''/''"
proof -
  define n where "n = (of_char c :: nat)"
  have n: "65 \<le> n" "n \<le> 95" using assms by (auto simp: n_def less_eq_char_def)
  have w: "(of_char c :: byte) = word_of_nat n" unfolding n_def by (rule of_nat_of_char [symmetric])
  have u: "unat (of_char c :: byte) = n" unfolding w using n by (simp add: unat_of_nat take_bit_nat_eq_self)
  have "c \<noteq> CHR ''/''" using n by (auto simp: n_def)
  then show ?thesis using u n by (auto simp: is_control_def word_less_nat_alt word_unat_eq_iff)
qed

lemma root_ref_gate:
  assumes "IsRoot name"
  shows "validReferenceName name = None \<longleftrightarrow> CHR ''-'' \<notin> set name" "CHR ''/'' \<notin> set name"
proof -
  have c: "(CHR ''A'' \<le> c \<and> c \<le> CHR ''Z'') \<or> c = CHR ''_'' \<or> c = CHR ''-''" if "c \<in> set name" for c
    using assms that by (auto simp: IsRoot_def list_ex_iff not_less split: if_splits)
  have "CHR ''-'' \<noteq> CHR ''/''" by simp
  then show "CHR ''/'' \<notin> set name" using c root_chars by blast
  have "\<not> HasUnsafeComponent (ascii name)" if "CHR ''-'' \<notin> set name"
  proof -
    have ok: "\<not> is_control x \<and> x \<noteq> 0x2E" if "x \<in> set (ascii name)" for x
      using that c root_chars \<open>CHR ''-'' \<notin> set name\<close> by (auto simp: ascii_def)
    have "\<not> unsafe_part p" if "p \<in> set (FieldsFunc isPathSep (ascii name))" for p
    proof -
      have "path_component p (ascii name)" using that by (simp add: path_component_iff)
      then obtain a b where "ascii name = a @ p @ b" by (auto simp: path_component_def)
      then have "set p \<subseteq> set (ascii name)" by auto
      then show ?thesis using ok by (auto simp: unsafe_part_def list_ex_iff)
    qed
    then show ?thesis by (auto simp: HasUnsafeComponent_def list_ex_iff)
  qed
  then show "validReferenceName name = None \<longleftrightarrow> CHR ''-'' \<notin> set name"
    using IsRoot_facts [OF assms] assms by (auto simp: validReferenceName_def)
qed

text \<open>
  \<^bold>\<open>C25\<close>. The two gates for references that a peer names. The storage accepts a new reference iff
  receive-pack accepts its name and every component fits a directory entry of 255 bytes, the last one
  together with \<open>.lock\<close>, or it is a root ref such as \<open>HEAD\<close> without a hyphen, of at most 250 characters.
  Receive-pack refuses every root ref: it accepts the names under \<open>refs/\<close> without an unsafe component that
  \<open>Validate\<close> accepts, its test for safety being implied. What receive-pack accepts, the storage accepts
  for reading and deleting.
\<close>

theorem reference_gates_agree:
  "(validNewReferenceName name = None \<longleftrightarrow>
      checkRefname name = None \<and> fits_filesystem name \<or> IsRoot name \<and> CHR ''-'' \<notin> set name \<and> length name \<le> 250) \<and>
   (checkRefname name = None \<longleftrightarrow>
     IsUnderRefs name \<and> \<not> HasUnsafeComponent (ascii name) \<and> Validate name = Inr ()) \<and>
   (checkRefname name = None \<longrightarrow> validReferenceName name = None)"
proof -
  have v: "(case Validate name of Inl e \<Rightarrow> Some x | Inr _ \<Rightarrow> None) = None \<longleftrightarrow> Validate name = Inr ()" for x :: gate_error
    by (cases "Validate name") auto
  have c: "checkRefname name = None \<longleftrightarrow>
     IsUnderRefs name \<and> \<not> HasUnsafeComponent (ascii name) \<and> Validate name = Inr ()"
    using Validate_IsSafe [of name] by (auto simp: checkRefname_def v)
  moreover have "validNewReferenceName name = None \<and> IsUnderRefs name \<longleftrightarrow> checkRefname name = None \<and> fits_filesystem name"
    unfolding c using Validate_IsSafe [of name]
    by (auto simp: validNewReferenceName_def validReferenceName_def v validReferenceNameLength_None
        split: option.splits if_splits simp flip: validReferenceNameLength_None)
  moreover have "validNewReferenceName name = None \<and> \<not> IsUnderRefs name \<longleftrightarrow> IsRoot name \<and> CHR ''-'' \<notin> set name \<and> length name \<le> 250"
  proof (cases "IsRoot name")
    case True
    have "fits_filesystem name \<longleftrightarrow> length name \<le> 250"
      by (simp add: fits_filesystem_def split_no_sep [OF root_ref_gate(2) [OF True]] Let_def)
    then show ?thesis using True IsRoot_facts [OF True] root_ref_gate(1) [OF True]
      by (auto simp: validNewReferenceName_def validReferenceNameLength_None split: option.splits
          simp flip: validReferenceNameLength_None)
  qed (auto simp: validNewReferenceName_def validReferenceName_def split: option.splits if_splits)
  moreover have "checkRefname name = None \<longrightarrow> validReferenceName name = None"
    by (auto simp: checkRefname_def validReferenceName_def split: if_splits)
  ultimately show ?thesis by blast
qed

lemma reference_gates_agree_witness:
  "checkRefname ''refs/heads/main'' = None \<and> validReferenceName ''refs/heads/main'' = None \<and>
   validNewReferenceName ''refs/heads/main'' = None \<and> validNewReferenceName ''HEAD'' = None"
proof -
  have r: "IsRoot ''HEAD''" by code_simp
  have c: "checkRefname ''refs/heads/main'' = None" by code_simp
  have f: "fits_filesystem ''refs/heads/main''" by code_simp
  from c f r reference_gates_agree [of "''refs/heads/main''"] reference_gates_agree [of "''HEAD''"] show ?thesis by simp
qed

subsection \<open>Tree paths and work tree paths\<close>

lemma validPath_parts_None:
  "validPath_parts sfs n i parts = None \<longleftrightarrow>
     (\<forall>k < length parts. parts ! k \<noteq> ascii ''.'' \<and> parts ! k \<noteq> ascii ''..'' \<and>
        (isDotGitVariant (parts ! k) (wf_protectHFS sfs) \<longrightarrow> 0 < i + k \<and> n - 1 \<le> i + k) \<and>
        (wf_protectNTFS sfs \<longrightarrow> WindowsValidPath (parts ! k)))"
proof (induction parts arbitrary: i)
  case (Cons p parts)
  show ?case by (simp add: Cons All_less_Suc2) auto
qed simp

lemma ValidTreePath_facts:
  assumes "ValidTreePath VolumeName p = None"
  shows "\<not> list_ex is_control p" "FieldsFunc isPathSep p \<noteq> []" "VolumeName p = []"
    "\<forall>c\<in>set (FieldsFunc isPathSep p). c \<noteq> ascii ''.'' \<and> c \<noteq> ascii ''..'' \<and>
       \<not> IsDotGitName c \<and> \<not> IsHFSDotGit c \<and> \<not> IsNTFSDotGit c"
  using assms ValidTreePath_parts_None [of "FieldsFunc isPathSep p"]
  by (auto simp: ValidTreePath_def Let_def denotes_dotgit_iff split: if_splits)

text \<open>
  The check of tree paths is at least as strict as that of work tree paths, up to the device
  names of Windows: a path that \<open>ValidTreePath\<close> accepts is refused by the work tree only when it
  protects NTFS and a component of the path is one of those names. The work tree in turn tolerates
  \<open>.git\<close> at one place that tree paths do not: as the last of several components.
\<close>

theorem validPath_ValidTreePath:
  "(ValidTreePath VolumeName p = None \<longrightarrow>
      (validPath VolumeName sfs [p] = None \<longleftrightarrow>
        \<not> (wf_protectNTFS sfs \<and> (\<exists>c. path_component c p \<and> isWindowsReservedName c)))) \<and>
   (validPath VolumeName sfs [p] = None \<longrightarrow>
      (\<forall>k < length (FieldsFunc isPathSep p). IsDotGitName (FieldsFunc isPathSep p ! k) \<longrightarrow>
         0 < k \<and> k = length (FieldsFunc isPathSep p) - 1))"
proof -
  let ?parts = "FieldsFunc isPathSep p"
  have one: "validPath VolumeName sfs [p] = validPath_one VolumeName sfs p"
    by (simp split: option.split)
  have "validPath VolumeName sfs [p] = None \<longleftrightarrow>
      \<not> (wf_protectNTFS sfs \<and> (\<exists>c. path_component c p \<and> isWindowsReservedName c))"
    if v: "ValidTreePath VolumeName p = None"
  proof -
    note f = ValidTreePath_facts [OF v]
    have "validPath_parts sfs (length ?parts) 0 ?parts = None \<longleftrightarrow>
        (\<forall>k < length ?parts. wf_protectNTFS sfs \<longrightarrow> \<not> isWindowsReservedName (?parts ! k))"
      unfolding validPath_parts_None using f(4) by (auto simp: isDotGitVariant_def WindowsValidPath_def)
    then show ?thesis using f(1-3)
      by (auto simp: one validPath_one_def Let_def path_component_iff in_set_conv_nth)
  qed
  moreover have "\<forall>k < length ?parts. IsDotGitName (?parts ! k) \<longrightarrow> 0 < k \<and> k = length ?parts - 1"
    if "validPath VolumeName sfs [p] = None"
  proof -
    have "validPath_parts sfs (length ?parts) 0 ?parts = None"
      using that unfolding one validPath_one_def Let_def by (auto split: if_splits)
    then show ?thesis unfolding validPath_parts_None by (auto simp: isDotGitVariant_def)
  qed
  ultimately show ?thesis by blast
qed

lemma validPath_ValidTreePath_witness:
  "ValidTreePath (\<lambda>_. []) (ascii ''src/aux'') = None \<and>
   validPath (\<lambda>_. []) \<lparr>wf_protectNTFS = False, wf_protectHFS = True\<rparr> [ascii ''src/aux''] = None"
proof -
  have "ValidTreePath (\<lambda>_. []) (ascii ''src/aux'') = None" by code_simp
  with validPath_ValidTreePath [of "\<lambda>_. []" "ascii ''src/aux''" "\<lparr>wf_protectNTFS = False, wf_protectHFS = True\<rparr>"]
  show ?thesis by simp
qed

end
