(* ===== verification/Git_Tree.thy ===== *)
theory Git_Tree
  imports Filemode Object_ID Path_Safety
begin

text \<open>
  Tree objects: \<open>plumbing/object/tree.go\<close>.

  \<^item> The encoding: \<open>Encode\<close> writes a tree that passes \<open>Validate\<close>, \<open>Decode\<close> reads it back. The reader
    is the list of the bytes still to come; the errors that wrap \<open>ErrMalformedTree\<close> are one value, so
    the pieces in which \<open>bufio\<close> delivers a long field do not matter.
  \<^item> The lookup of an entry: by binary search in a tree whose entries are in git's order (directories
    as if their names ended in a slash), by a scan otherwise. Both find the first entry of the name.
  \<^item> \<open>FindEntry\<close> along a path, with the receiver's cache of the trees on the way, which is threaded
    through as state. The object storer is a parameter: the content of the tree object of an
    identifier, or an error; the object it returns carries the identifier it was asked for.
\<close>

datatype tree_error =
    TreeEOF | ErrMalformedTree | ErrUnsupportedObject | ErrObjectNotFound | StorerErr string
  | ErrEntryNotFound | ErrDirectoryNotFound | ErrFileNotFound | ErrInvalidPath path_error | ErrMaxTreeDepth

record TreeEntry =
  te_Name :: bytes
  te_Mode :: FileMode
  te_Hash :: ObjectID

record Tree =
  tr_Entries :: "TreeEntry list"
  tr_Hash :: ObjectID
  tr_entriesSorted :: bool

type_synonym tree_store = "ObjectID \<Rightarrow> tree_error + bytes"

definition treeEntrySortName :: "TreeEntry \<Rightarrow> bytes" where
  "treeEntrySortName e = (if te_Mode e = Dir then te_Name e @ [0x2F] else te_Name e)"

subsection \<open>Decoding\<close>

text \<open>The digits of a mode: overflow wraps, keeping the low 32 bits.\<close>

fun mode_digits :: "bytes \<Rightarrow> u32 \<Rightarrow> u32 option" where
  "mode_digits [] mode = Some mode"
| "mode_digits (c # cs) mode =
     (if c < 0x30 \<or> c > 0x37 then None else mode_digits cs (push_bit 3 mode OR ucast (c - 0x30)))"

definition readTreeEntryMode :: "bytes \<Rightarrow> tree_error + FileMode \<times> bytes" where
  "readTreeEntryMode r =
     (if r = [] then Inl TreeEOF
      else case cut 0x20 r of
        None \<Rightarrow> Inl ErrMalformedTree
      | Some (chunk, r) \<Rightarrow>
          if chunk = [] then Inl ErrMalformedTree
          else case mode_digits chunk 0 of
            None \<Rightarrow> Inl ErrMalformedTree
          | Some mode \<Rightarrow> Inr (mode, r))"

lemma cut_shorter: "cut c s = Some (a, b) \<Longrightarrow> length b < length s"
  by (auto simp: cut_Some_iff)

lemma readTreeEntryMode_shorter: "readTreeEntryMode r = Inr (m, r') \<Longrightarrow> length r' < length r"
  by (auto simp: readTreeEntryMode_def split: if_splits option.splits dest: cut_shorter)

text \<open>One entry: its mode, its name up to the NUL, its identifier.\<close>

definition read_entry :: "ObjectID \<Rightarrow> bytes \<Rightarrow> tree_error + TreeEntry \<times> bytes" where
  "read_entry treeHash r =
     rbind (readTreeEntryMode r) (\<lambda>(mode, r).
       let mode = Canonical mode in
       case cut 0 r of
         None \<Rightarrow> Inl ErrMalformedTree
       | Some (name, r) \<Rightarrow>
           if name = [] then Inl ErrMalformedTree
           else
             let hash = ResetBySize ZeroHash (oid_Size treeHash) in
             (case oid_ReadFrom hash r of
                (hash, None, r) \<Rightarrow> Inl ErrMalformedTree
              | (hash, Some n, r) \<Rightarrow> Inr (\<lparr>te_Name = name, te_Mode = mode, te_Hash = hash\<rparr>, r)))"

lemma read_entry_Inr:
  assumes "read_entry h r = Inr (e, r')"
  obtains mode r1 name r2 where "readTreeEntryMode r = Inr (mode, r1)" "cut 0 r1 = Some (name, r2)" "name \<noteq> []"
    "oid_ReadFrom (ResetBySize ZeroHash (oid_Size h)) r2 =
       (te_Hash e, Some (oid_Size (ResetBySize ZeroHash (oid_Size h))), r')"
    "e = \<lparr>te_Name = name, te_Mode = Canonical mode, te_Hash = te_Hash e\<rparr>"
proof -
  from assms obtain mode r1 where 1: "readTreeEntryMode r = Inr (mode, r1)"
    by (auto simp: read_entry_def result_simps)
  with assms obtain name r2 where 2: "cut 0 r1 = Some (name, r2)" "name \<noteq> []"
    by (auto simp: read_entry_def Let_def split: option.splits if_split_asm)
  have "oid_ReadFrom (ResetBySize ZeroHash (oid_Size h)) r2 =
       (te_Hash e, Some (oid_Size (ResetBySize ZeroHash (oid_Size h))), r') \<and>
     e = \<lparr>te_Name = name, te_Mode = Canonical mode, te_Hash = te_Hash e\<rparr>"
    using assms 1 2 by (auto simp: read_entry_def oid_ReadFrom_def Let_def split: if_split_asm)
  with 1 2 show thesis using that by blast
qed

lemma read_entry_shorter: "read_entry h r = Inr (e, r') \<Longrightarrow> length r' < length r"
proof (elim read_entry_Inr)
  fix mode r1 name r2
  assume "readTreeEntryMode r = Inr (mode, r1)" "cut 0 r1 = Some (name, r2)"
    "oid_ReadFrom (ResetBySize ZeroHash (oid_Size h)) r2 =
       (te_Hash e, Some (oid_Size (ResetBySize ZeroHash (oid_Size h))), r')"
  then have "length r1 < length r" "length r2 < length r1" "length r' \<le> length r2"
    by (auto simp: oid_ReadFrom_def dest: readTreeEntryMode_shorter cut_shorter split: if_split_asm)
  then show ?thesis by simp
qed

function decode_loop :: "Tree \<Rightarrow> bytes \<Rightarrow> bytes \<Rightarrow> tree_error + Tree" where
  "decode_loop t prevSortName r =
     (case read_entry (tr_Hash t) r of
        Inl err \<Rightarrow> if err = TreeEOF then Inr t else Inl err
      | Inr (entry, r') \<Rightarrow>
          let sortName = treeEntrySortName entry;
              t = (if tr_Entries t \<noteq> [] \<and> prevSortName > sortName then t\<lparr>tr_entriesSorted := False\<rparr> else t)
          in decode_loop (t\<lparr>tr_Entries := tr_Entries t @ [entry]\<rparr>) sortName r')"
  by pat_completeness auto
termination
  by (relation "measure (\<lambda>(t, p, r). length r)") (auto intro: read_entry_shorter)

declare decode_loop.simps [simp del]

definition Tree_Decode :: "bool \<Rightarrow> ObjectID \<Rightarrow> bytes \<Rightarrow> tree_error + Tree" where
  "Tree_Decode isTree hash content =
     (if \<not> isTree then Inl ErrUnsupportedObject
      else
        let t = \<lparr>tr_Entries = [], tr_Hash = hash, tr_entriesSorted = True\<rparr> in
        if length content = 0 then Inr t else decode_loop t [] content)"

definition GetTree :: "tree_store \<Rightarrow> ObjectID \<Rightarrow> tree_error + Tree" where
  "GetTree s h = rbind (s h) (Tree_Decode True h)"

subsection \<open>Validation and encoding\<close>

datatype tree_rule =
    NullHash | EmptyName | SlashInName | BadPath path_error | ErrDuplicateEntry | NameTooLong
  | BadMode | DotfileSymlink string | ErrEntriesNotSorted

definition maxTreeEntryNameLen :: nat where "maxTreeEntryNameLen = 4096"

definition isValidTreeMode :: "FileMode \<Rightarrow> bool" where
  "isValidTreeMode mode = (mode \<in> {Regular, Executable, Symlink, Dir, Submodule, Deprecated})"

definition symlink_rule :: "bytes \<Rightarrow> tree_rule list" where
  "symlink_rule name =
     (if IsHFSDotGitmodules name \<or> IsNTFSDotGitmodules name then [DotfileSymlink ''.gitmodules'']
      else if IsHFSDotGitattributes name \<or> IsNTFSDotGitattributes name then [DotfileSymlink ''.gitattributes'']
      else if IsHFSDotGitignore name \<or> IsNTFSDotGitignore name then [DotfileSymlink ''.gitignore'']
      else if IsHFSDotMailmap name \<or> IsNTFSDotMailmap name then [DotfileSymlink ''.mailmap'']
      else [])"

text \<open>The rules that one entry breaks, given the names seen and, past the first entry, the sort name before it.\<close>

definition entry_rules :: "(bytes \<Rightarrow> bytes) \<Rightarrow> bytes list \<Rightarrow> bytes option \<Rightarrow> TreeEntry \<Rightarrow> tree_rule list" where
  "entry_rules VolumeName seen prevSortName e =
     (if IsZero (te_Hash e) then [NullHash] else []) @
     (if te_Name e = [] then [EmptyName]
      else if 0x2F \<in> set (te_Name e) then [SlashInName]
      else
        (case ValidTreePath VolumeName (te_Name e) of Some err \<Rightarrow> [BadPath err] | None \<Rightarrow> []) @
        (if te_Name e \<in> set seen then [ErrDuplicateEntry] else []) @
        (if length (te_Name e) > maxTreeEntryNameLen then [NameTooLong] else [])) @
     (if \<not> isValidTreeMode (te_Mode e) then [BadMode] else []) @
     (if te_Mode e = Symlink then symlink_rule (te_Name e) else []) @
     (case prevSortName of None \<Rightarrow> []
      | Some prev \<Rightarrow> if prev > treeEntrySortName e then [ErrEntriesNotSorted] else [])"

fun validate_loop :: "(bytes \<Rightarrow> bytes) \<Rightarrow> bytes list \<Rightarrow> bytes option \<Rightarrow> TreeEntry list \<Rightarrow> tree_rule list" where
  "validate_loop VolumeName seen prevSortName [] = []"
| "validate_loop VolumeName seen prevSortName (e # es) =
     entry_rules VolumeName seen prevSortName e @
     validate_loop VolumeName
       (if te_Name e \<noteq> [] \<and> 0x2F \<notin> set (te_Name e) then te_Name e # seen else seen)
       (Some (treeEntrySortName e)) es"

definition Tree_Validate :: "(bytes \<Rightarrow> bytes) \<Rightarrow> Tree \<Rightarrow> tree_rule list" where
  "Tree_Validate VolumeName t = validate_loop VolumeName [] None (tr_Entries t)"

definition encode_entry :: "TreeEntry \<Rightarrow> bytes" where
  "encode_entry entry = octal (unat (te_Mode entry)) @ [0x20] @ te_Name entry @ [0] @ oid_WriteTo (te_Hash entry)"

definition Tree_Encode :: "(bytes \<Rightarrow> bytes) \<Rightarrow> Tree \<Rightarrow> tree_rule list + bytes" where
  "Tree_Encode VolumeName t =
     (if Tree_Validate VolumeName t \<noteq> [] then Inl (Tree_Validate VolumeName t)
      else Inr (concat (map encode_entry (tr_Entries t))))"

subsection \<open>Looking up an entry\<close>

text \<open>\<open>sort.Search\<close>.\<close>

function sort_Search_loop :: "(nat \<Rightarrow> bool) \<Rightarrow> nat \<Rightarrow> nat \<Rightarrow> nat" where
  "sort_Search_loop f i j =
     (if i < j then
        let h = (i + j) div 2 in
        if \<not> f h then sort_Search_loop f (h + 1) j else sort_Search_loop f i h
      else i)"
  by pat_completeness auto
termination by (relation "measure (\<lambda>(f, i, j). j - i)") auto

declare sort_Search_loop.simps [simp del]

definition sort_Search :: "nat \<Rightarrow> (nat \<Rightarrow> bool) \<Rightarrow> nat" where
  "sort_Search n f = sort_Search_loop f 0 n"

definition searchEntryIndex :: "Tree \<Rightarrow> bytes \<Rightarrow> nat" where
  "searchEntryIndex t name = sort_Search (length (tr_Entries t)) (\<lambda>i. treeEntrySortName (tr_Entries t ! i) \<ge> name)"

definition searchEntry :: "Tree \<Rightarrow> bytes \<Rightarrow> TreeEntry option" where
  "searchEntry t baseName =
     (let i = searchEntryIndex t baseName in
      if i < length (tr_Entries t) \<and> te_Name (tr_Entries t ! i) = baseName then Some (tr_Entries t ! i)
      else
        let i = searchEntryIndex t (baseName @ [0x2F]) in
        if i < length (tr_Entries t) \<and> te_Name (tr_Entries t ! i) = baseName then Some (tr_Entries t ! i)
        else None)"

fun scanEntry :: "bytes \<Rightarrow> bytes \<Rightarrow> TreeEntry list \<Rightarrow> TreeEntry option" where
  "scanEntry baseName pastName [] = None"
| "scanEntry baseName pastName (entry # es) =
     (if te_Name entry = baseName then Some entry
      else if treeEntrySortName entry > pastName then None
      else scanEntry baseName pastName es)"

definition Tree_entry :: "Tree \<Rightarrow> bytes \<Rightarrow> tree_error + TreeEntry" where
  "Tree_entry t baseName =
     (if tr_entriesSorted t then note_err ErrEntryNotFound (searchEntry t baseName)
      else note_err ErrEntryNotFound (scanEntry baseName (baseName @ [0x2F]) (tr_Entries t)))"

definition Tree_dir :: "tree_store \<Rightarrow> Tree \<Rightarrow> bytes \<Rightarrow> tree_error + Tree" where
  "Tree_dir s t baseName =
     (case Tree_entry t baseName of
        Inl _ \<Rightarrow> Inl ErrDirectoryNotFound
      | Inr entry \<Rightarrow> GetTree s (te_Hash entry))"

text \<open>
  \<open>filepath.Join\<close> of elements that have no slash and are neither a dot nor two dots, as the parts of a
  valid path are: the elements that are not empty, with slashes between them.
\<close>

definition filepath_Join :: "bytes list \<Rightarrow> bytes" where
  "filepath_Join parts = join 0x2F (filter (\<lambda>p. p \<noteq> []) parts)"

type_synonym tree_cache = "bytes \<rightharpoonup> Tree"

text \<open>The search for the longest cached path: the number of parts it covers, and the tree.\<close>

fun cached_start :: "tree_cache \<Rightarrow> bytes list \<Rightarrow> nat \<Rightarrow> (nat \<times> Tree) option" where
  "cached_start c pathParts 0 = None"
| "cached_start c pathParts (Suc i) =
     (case c (filepath_Join (take (Suc i) pathParts)) of
        Some tree \<Rightarrow> Some (Suc i, tree)
      | None \<Rightarrow> cached_start c pathParts i)"

fun find_loop :: "tree_store \<Rightarrow> Tree \<Rightarrow> bytes \<Rightarrow> bytes list \<Rightarrow> tree_cache \<Rightarrow> (tree_error + TreeEntry) \<times> tree_cache" where
  "find_loop s tree pathCurrent [] c = (Inl ErrEntryNotFound, c)"
| "find_loop s tree pathCurrent [part] c = (Tree_entry tree part, c)"
| "find_loop s tree pathCurrent (part # rest) c =
     (case Tree_dir s tree part of
        Inl err \<Rightarrow> (Inl err, c)
      | Inr tree' \<Rightarrow>
          let pathCurrent = filepath_Join [pathCurrent, part] in
          find_loop s tree' pathCurrent rest (c(pathCurrent \<mapsto> tree')))"

definition FindEntry ::
  "(bytes \<Rightarrow> bytes) \<Rightarrow> tree_store \<Rightarrow> Tree \<Rightarrow> bytes \<Rightarrow> tree_cache \<Rightarrow> (tree_error + TreeEntry) \<times> tree_cache" where
  "FindEntry VolumeName s t path c =
     (case ValidTreePath VolumeName path of
        Some err \<Rightarrow> (Inl (ErrInvalidPath err), c)
      | None \<Rightarrow>
          let pathParts = split 0x2F path in
          case cached_start c pathParts (length pathParts - 1) of
            None \<Rightarrow> find_loop s t [] pathParts c
          | Some (i, tree) \<Rightarrow> find_loop s tree (filepath_Join (take i pathParts)) (drop i pathParts) c)"

definition Tree_Tree ::
  "(bytes \<Rightarrow> bytes) \<Rightarrow> tree_store \<Rightarrow> Tree \<Rightarrow> bytes \<Rightarrow> tree_cache \<Rightarrow> (tree_error + Tree) \<times> tree_cache" where
  "Tree_Tree VolumeName s t path c =
     (case FindEntry VolumeName s t path c of
        (Inl _, c) \<Rightarrow> (Inl ErrDirectoryNotFound, c)
      | (Inr e, c) \<Rightarrow>
          ((case GetTree s (te_Hash e) of
              Inl err \<Rightarrow> if err = ErrObjectNotFound then Inl ErrDirectoryNotFound else Inl err
            | Inr tree \<Rightarrow> Inr tree), c))"

subsection \<open>The encoding reads back\<close>

lemma valid_mode_digits:
  assumes "isValidTreeMode m"
  shows "mode_digits (octal (unat m)) 0 = Some m \<and> 0x20 \<notin> set (octal (unat m))"
  using assms unfolding isValidTreeMode_def
  by (elim insertE emptyE) (simp_all add: mode_defs octal.simps)

lemma ValidTreePath_no_NUL: "ValidTreePath vol p = None \<Longrightarrow> 0 \<notin> set p \<and> p \<noteq> []"
  using FieldsFunc_none [of isPathSep p]
  by (auto simp: ValidTreePath_def Let_def list_ex_iff is_control_def split: if_split_asm)

text \<open>What a tree that passes \<open>Validate\<close> promises of each entry.\<close>

definition valid_entry :: "(bytes \<Rightarrow> bytes) \<Rightarrow> TreeEntry \<Rightarrow> bool" where
  "valid_entry vol e \<longleftrightarrow> \<not> IsZero (te_Hash e) \<and> te_Name e \<noteq> [] \<and> 0x2F \<notin> set (te_Name e) \<and>
     ValidTreePath vol (te_Name e) = None \<and> length (te_Name e) \<le> maxTreeEntryNameLen \<and>
     isValidTreeMode (te_Mode e) \<and> (te_Mode e = Symlink \<longrightarrow> symlink_rule (te_Name e) = [])"

lemma entry_rules_Nil_iff:
  "entry_rules vol seen prev e = [] \<longleftrightarrow>
     valid_entry vol e \<and> te_Name e \<notin> set seen \<and> (\<forall>p. prev = Some p \<longrightarrow> p \<le> treeEntrySortName e)"
  unfolding entry_rules_def valid_entry_def append_is_Nil_conv
  by (cases prev; cases "ValidTreePath vol (te_Name e)") (auto simp: not_less dest: leD)

lemma validate_loop_Nil_iff:
  "validate_loop vol seen prev es = [] \<longleftrightarrow>
     list_all (valid_entry vol) es \<and> distinct (map te_Name es) \<and> set (map te_Name es) \<inter> set seen = {} \<and>
     sorted (map treeEntrySortName es) \<and>
     (\<forall>p. prev = Some p \<longrightarrow> es \<noteq> [] \<longrightarrow> p \<le> treeEntrySortName (hd es))"
proof (induction es arbitrary: seen prev)
  case (Cons e es)
  have "sorted (map treeEntrySortName (e # es)) \<longleftrightarrow>
      sorted (map treeEntrySortName es) \<and> (es \<noteq> [] \<longrightarrow> treeEntrySortName e \<le> treeEntrySortName (hd es))"
    by (cases es) (auto simp: intro: order_trans)
  moreover have "te_Name e \<noteq> [] \<and> 0x2F \<notin> set (te_Name e)" if "valid_entry vol e"
    using that by (simp add: valid_entry_def)
  ultimately show ?case
    by (auto simp: Cons.IH entry_rules_Nil_iff)
qed simp

lemma Tree_Validate_Nil_iff:
  "Tree_Validate vol t = [] \<longleftrightarrow> list_all (valid_entry vol) (tr_Entries t) \<and> distinct (map te_Name (tr_Entries t)) \<and>
     sorted (map treeEntrySortName (tr_Entries t))"
  by (simp add: Tree_Validate_def validate_loop_Nil_iff)

lemma cut_append: "c \<notin> set a \<Longrightarrow> cut c (a @ c # b) = Some (a, b)"
  by (simp add: cut_Some_iff)

definition canonical_entry :: "TreeEntry \<Rightarrow> TreeEntry" where
  "canonical_entry e = e\<lparr>te_Mode := Canonical (te_Mode e)\<rparr>"

definition entry_id_ok :: "ObjectID \<Rightarrow> TreeEntry \<Rightarrow> bool" where
  "entry_id_ok h e \<longleftrightarrow> oid_ok (te_Hash e) \<and> oid_format (te_Hash e) = (if oid_Size h = 32 then SHA256 else UnsetObjectFormat)"

lemma oid_ReadFrom_entry:
  assumes "entry_id_ok h e"
  shows "oid_ReadFrom (ResetBySize ZeroHash (oid_Size h)) (oid_WriteTo (te_Hash e) @ rest) =
    (te_Hash e, Some (oid_Size (te_Hash e)), rest)"
proof -
  have "length (oid_Bytes (te_Hash e)) = oid_Size (te_Hash e)"
    "oid_hash (te_Hash e) = oid_Bytes (te_Hash e) @ replicate (32 - oid_Size (te_Hash e)) 0"
    using assms by (simp_all add: entry_id_ok_def oid_ok_iff)
  moreover have "ResetBySize ZeroHash (oid_Size h) = ObjectID (replicate 32 0) (oid_format (te_Hash e))"
    using assms by (auto simp: entry_id_ok_def ResetBySize_def ZeroHash_def)
  ultimately show ?thesis
    by (simp add: oid_ReadFrom_def oid_WriteTo_def) (simp add: oid_Size_def ObjectID.expand)
qed

lemma read_encode_entry:
  assumes "valid_entry vol e" and "entry_id_ok h e"
  shows "read_entry h (encode_entry e @ rest) = Inr (canonical_entry e, rest)"
proof -
  have m: "mode_digits (octal (unat (te_Mode e))) 0 = Some (te_Mode e)" "0x20 \<notin> set (octal (unat (te_Mode e)))"
    using assms(1) valid_mode_digits by (auto simp: valid_entry_def)
  have n: "0 \<notin> set (te_Name e)" "te_Name e \<noteq> []"
    using assms(1) ValidTreePath_no_NUL by (auto simp: valid_entry_def)
  show ?thesis
    using oid_ReadFrom_entry [OF assms(2), of rest]
    by (simp add: read_entry_def readTreeEntryMode_def encode_entry_def cut_append m n Let_def canonical_entry_def)
qed

lemma Canonical_Dir: "isValidTreeMode m \<Longrightarrow> Canonical m = Dir \<longleftrightarrow> m = Dir"
  unfolding isValidTreeMode_def by (elim insertE emptyE) (simp_all add: mode_defs Canonical_def)

lemma canonical_entry_Name [simp]: "te_Name (canonical_entry e) = te_Name e"
  by (simp add: canonical_entry_def)

lemma Canonical_valid:
  assumes "isValidTreeMode m"
  shows "isValidTreeMode (Canonical m) \<and> (Canonical m = Symlink \<longleftrightarrow> m = Symlink) \<and> (m \<noteq> Deprecated \<longrightarrow> Canonical m = m)"
  using assms unfolding isValidTreeMode_def by (elim insertE emptyE) (simp_all add: mode_defs Canonical_def)

lemma valid_entry_canonical: "valid_entry vol e \<Longrightarrow> valid_entry vol (canonical_entry e)"
  using Canonical_valid [of "te_Mode e"] by (simp add: valid_entry_def canonical_entry_def)

lemma sortName_canonical:
  "valid_entry vol e \<Longrightarrow> treeEntrySortName (canonical_entry e) = treeEntrySortName e"
  by (simp add: treeEntrySortName_def canonical_entry_def valid_entry_def Canonical_Dir)

lemma decode_loop_encode:
  assumes "list_all (valid_entry vol) es" and "list_all (entry_id_ok (tr_Hash t)) es"
    and "sorted (map treeEntrySortName es)"
    and "tr_Entries t \<noteq> [] \<Longrightarrow> es \<noteq> [] \<Longrightarrow> prev \<le> treeEntrySortName (hd es)"
  shows "decode_loop t prev (concat (map encode_entry es)) = Inr (t\<lparr>tr_Entries := tr_Entries t @ map canonical_entry es\<rparr>)"
  using assms
proof (induction es arbitrary: t prev)
  case Nil
  then show ?case by (simp add: decode_loop.simps read_entry_def readTreeEntryMode_def)
next
  case (Cons e es)
  have r: "read_entry (tr_Hash t) (encode_entry e @ concat (map encode_entry es)) =
      Inr (canonical_entry e, concat (map encode_entry es))"
    using Cons.prems by (intro read_encode_entry) auto
  have s: "treeEntrySortName (canonical_entry e) = treeEntrySortName e"
    using Cons.prems by (intro sortName_canonical) auto
  have hd: "es \<noteq> [] \<Longrightarrow> treeEntrySortName e \<le> treeEntrySortName (hd es)"
    using Cons.prems(3) by (cases es) auto
  have le: "\<not> (tr_Entries t \<noteq> [] \<and> treeEntrySortName e < prev)"
    using Cons.prems(4) by (auto simp: not_less)
  have "decode_loop t prev (concat (map encode_entry (e # es))) =
      decode_loop (t\<lparr>tr_Entries := tr_Entries t @ [canonical_entry e]\<rparr>) (treeEntrySortName e) (concat (map encode_entry es))"
    using le by (subst decode_loop.simps) (auto simp: r s Let_def)
  also have "\<dots> = Inr (t\<lparr>tr_Entries := tr_Entries t @ map canonical_entry (e # es)\<rparr>)"
    using Cons.prems hd by (subst Cons.IH) auto
  finally show ?case .
qed

lemma encode_entry_canonical:
  assumes "valid_entry vol e"
  shows "length (encode_entry (canonical_entry e)) = length (encode_entry e) \<and>
    (encode_entry (canonical_entry e) = encode_entry e \<longleftrightarrow> te_Mode e \<noteq> Deprecated)"
proof (cases "te_Mode e = Deprecated")
  case True
  then show ?thesis
    by (simp add: encode_entry_def canonical_entry_def Canonical_def mode_defs octal.simps)
next
  case False
  then have "canonical_entry e = e"
    using assms Canonical_valid [of "te_Mode e"] by (simp add: canonical_entry_def valid_entry_def)
  then show ?thesis using False by simp
qed

lemma encode_canonical:
  assumes "list_all (valid_entry vol) es"
  shows "concat (map encode_entry (map canonical_entry es)) = concat (map encode_entry es) \<longleftrightarrow>
    list_all (\<lambda>e. te_Mode e \<noteq> Deprecated) es"
proof -
  have "concat (map encode_entry (map canonical_entry es)) = concat (map encode_entry es) \<longleftrightarrow>
      map encode_entry (map canonical_entry es) = map encode_entry es"
    using assms encode_entry_canonical
    by (intro concat_eq_concat_iff) (auto simp: list_all_iff set_zip, metis nth_mem)
  then show ?thesis using assms encode_entry_canonical by (auto simp: list_all_iff)
qed

text \<open>
  \<^bold>\<open>C18\<close>. A tree that \<open>Encode\<close> accepts reads back: \<open>Decode\<close> of the bytes gives the same entries in the
  same order, recognises them as sorted, and has only the file modes canonical (a \<open>0100664\<close> file
  becomes a regular one); the tree read passes \<open>Validate\<close> and encodes again, to the same bytes exactly when
  no entry has the mode \<open>0100664\<close>. The identifiers of the entries must have the width of the tree's own.
\<close>

theorem Tree_Encode_roundtrip:
  assumes "Tree_Encode vol t = Inr bs" and "list_all (entry_id_ok h) (tr_Entries t)"
  shows "\<exists>t'. Tree_Decode True h bs = Inr t' \<and> tr_Entries t' = map canonical_entry (tr_Entries t) \<and>
    tr_entriesSorted t' \<and> Tree_Validate vol t' = [] \<and>
    (list_all (\<lambda>e. te_Mode e \<noteq> Deprecated) (tr_Entries t) \<longrightarrow> tr_Entries t' = tr_Entries t) \<and>
    (\<exists>bs'. Tree_Encode vol t' = Inr bs' \<and> (bs' = bs \<longleftrightarrow> list_all (\<lambda>e. te_Mode e \<noteq> Deprecated) (tr_Entries t)))"
proof -
  from assms(1) have v: "Tree_Validate vol t = []" and bs: "bs = concat (map encode_entry (tr_Entries t))"
    by (auto simp: Tree_Encode_def split: if_split_asm)
  define t' where "t' = \<lparr>tr_Entries = map canonical_entry (tr_Entries t), tr_Hash = h, tr_entriesSorted = True\<rparr>"
  have valid: "list_all (valid_entry vol) (tr_Entries t)" and sorted: "sorted (map treeEntrySortName (tr_Entries t))"
    using v by (auto simp: Tree_Validate_Nil_iff)
  have "Tree_Decode True h bs = Inr t'"
    using decode_loop_encode [OF valid _ sorted, of "\<lparr>tr_Entries = [], tr_Hash = h, tr_entriesSorted = True\<rparr>" "[]"] assms(2)
    by (auto simp: Tree_Decode_def bs t'_def Let_def encode_entry_def)
  moreover have "map treeEntrySortName (map canonical_entry (tr_Entries t)) = map treeEntrySortName (tr_Entries t)"
    "list_all (valid_entry vol) (map canonical_entry (tr_Entries t))"
    "map te_Name (map canonical_entry (tr_Entries t)) = map te_Name (tr_Entries t)"
    using valid by (auto simp: list_all_iff sortName_canonical valid_entry_canonical)
  then have "Tree_Validate vol t' = []"
    using v unfolding Tree_Validate_Nil_iff t'_def by (simp only: Tree.simps)
  moreover have "tr_Entries t' = tr_Entries t" if "list_all (\<lambda>e. te_Mode e \<noteq> Deprecated) (tr_Entries t)"
  proof -
    have "canonical_entry e = e" if "e \<in> set (tr_Entries t)" for e
      using that valid Canonical_valid [of "te_Mode e"] \<open>list_all (\<lambda>e. te_Mode e \<noteq> Deprecated) (tr_Entries t)\<close>
      by (simp add: list_all_iff canonical_entry_def valid_entry_def)
    then show ?thesis by (simp add: t'_def map_idI)
  qed
  moreover have "concat (map encode_entry (tr_Entries t')) = bs \<longleftrightarrow> list_all (\<lambda>e. te_Mode e \<noteq> Deprecated) (tr_Entries t)"
    unfolding bs t'_def by (simp add: encode_canonical [OF valid] del: map_map)
  ultimately show ?thesis by (intro exI [of _ t']) (auto simp: t'_def Tree_Encode_def)
qed

lemma IsZero_first: "IsZero (ObjectID (x # replicate 31 0) f) \<longleftrightarrow> x = 0"
  by (simp add: IsZero_def numeral_eq_Suc)

lemma Tree_Encode_roundtrip_witness:
  "\<exists>bs t'. Tree_Encode (\<lambda>_. []) \<lparr>tr_Entries = [
       \<lparr>te_Name = [0x61], te_Mode = Deprecated, te_Hash = ObjectID (7 # replicate 31 0) UnsetObjectFormat\<rparr>,
       \<lparr>te_Name = [0x62], te_Mode = Dir, te_Hash = ObjectID (8 # replicate 31 0) UnsetObjectFormat\<rparr>],
     tr_Hash = ZeroHash, tr_entriesSorted = False\<rparr> = Inr bs \<and>
   Tree_Decode True ZeroHash bs = Inr t' \<and> map te_Mode (tr_Entries t') = [Regular, Dir]"
proof -
  let ?a = "\<lparr>te_Name = [0x61], te_Mode = Deprecated, te_Hash = ObjectID (7 # replicate 31 0) UnsetObjectFormat\<rparr>"
  let ?b = "\<lparr>te_Name = [0x62], te_Mode = Dir, te_Hash = ObjectID (8 # replicate 31 0) UnsetObjectFormat\<rparr>"
  let ?t = "\<lparr>tr_Entries = [?a, ?b], tr_Hash = ZeroHash, tr_entriesSorted = False\<rparr>"
  have p: "ValidTreePath (\<lambda>_. []) [0x61] = None" "ValidTreePath (\<lambda>_. []) [0x62] = None" by code_simp+
  have "Tree_Validate (\<lambda>_. []) ?t = []"
    by (simp add: Tree_Validate_Nil_iff valid_entry_def IsZero_first p maxTreeEntryNameLen_def isValidTreeMode_def
        treeEntrySortName_def mode_defs)
  then have e: "Tree_Encode (\<lambda>_. []) ?t = Inr (encode_entry ?a @ encode_entry ?b)"
    by (simp add: Tree_Encode_def)
  have "list_all (entry_id_ok ZeroHash) (tr_Entries ?t)"
    by (simp add: entry_id_ok_def oid_ok_def oid_Size_def ZeroHash_def nth_Cons')
  from Tree_Encode_roundtrip [OF e this] e show ?thesis
    by (auto simp: canonical_entry_def Canonical_def mode_defs)
qed

subsection \<open>Looking up an entry finds the first of its name\<close>

lemma sort_Search_loop_spec:
  assumes mono: "\<And>a b. a \<le> b \<Longrightarrow> b < n \<Longrightarrow> f a \<Longrightarrow> f b"
    and "i \<le> j" and "j \<le> n" and "\<And>k. k < i \<Longrightarrow> \<not> f k" and "\<And>k. j \<le> k \<Longrightarrow> k < n \<Longrightarrow> f k"
  shows "sort_Search_loop f i j \<le> n \<and> (\<forall>k < n. f k \<longleftrightarrow> sort_Search_loop f i j \<le> k)"
  using assms(2-5)
proof (induction "j - i" arbitrary: i j rule: less_induct)
  case less
  show ?case
  proof (cases "i < j")
    case False
    then have "sort_Search_loop f i j = i" by (simp add: sort_Search_loop.simps)
    moreover have "f k \<longleftrightarrow> i \<le> k" if "k < n" for k
      using less.prems(1) less.prems(3) [of k] less.prems(4) [of k] that False by (cases "k < i") auto
    ultimately show ?thesis using less.prems by simp
  next
    case True
    define h where "h = (i + j) div 2"
    have h: "i \<le> h" "h < j" using True by (auto simp: h_def)
    have step: "sort_Search_loop f i j = (if \<not> f h then sort_Search_loop f (h + 1) j else sort_Search_loop f i h)"
      using True by (subst sort_Search_loop.simps) (simp add: h_def)
    show ?thesis
    proof (cases "f h")
      case True
      have "f k" if "h \<le> k" "k < n" for k using mono [OF that True] .
      then show ?thesis unfolding step using True h less.prems by (simp only: not_True_eq_False if_False) (intro less.hyps; simp)
    next
      case False
      have "\<not> f k" if "k < h + 1" for k using mono [of k h] False that h less.prems(2) by auto
      then show ?thesis unfolding step using False h less.prems by (simp only: not_False_eq_True if_True) (intro less.hyps; simp)
    qed
  qed
qed

lemma sort_Search_spec:
  assumes "\<And>a b. a \<le> b \<Longrightarrow> b < n \<Longrightarrow> f a \<Longrightarrow> f b"
  shows "sort_Search n f \<le> n \<and> (\<forall>k < n. f k \<longleftrightarrow> sort_Search n f \<le> k)"
  unfolding sort_Search_def by (rule sort_Search_loop_spec) (use assms in auto)

lemma le_append_bytes: "(a :: bytes) \<le> a @ b"
  by (induction a) auto

definition slash_free :: "TreeEntry \<Rightarrow> bool" where
  "slash_free e \<longleftrightarrow> 0x2F \<notin> set (te_Name e)"

lemma sortName_cases: "te_Name e = base \<Longrightarrow> treeEntrySortName e \<in> {base, base @ [0x2F]}"
  by (simp add: treeEntrySortName_def)

lemma named_by_sortName:
  assumes "slash_free e" and "0x2F \<notin> set base" and "treeEntrySortName e \<in> {base, base @ [0x2F]}"
  shows "te_Name e = base"
  using assms by (auto simp: treeEntrySortName_def slash_free_def split: if_split_asm)

lemma searchEntryIndex_spec:
  assumes "sorted (map treeEntrySortName (tr_Entries t))"
  shows "searchEntryIndex t x \<le> length (tr_Entries t) \<and>
    (\<forall>k < length (tr_Entries t). x \<le> treeEntrySortName (tr_Entries t ! k) \<longleftrightarrow> searchEntryIndex t x \<le> k)"
  unfolding searchEntryIndex_def
proof (rule sort_Search_spec)
  fix a b assume "a \<le> b" "b < length (tr_Entries t)" "x \<le> treeEntrySortName (tr_Entries t ! a)"
  moreover from this assms have "treeEntrySortName (tr_Entries t ! a) \<le> treeEntrySortName (tr_Entries t ! b)"
    using sorted_nth_mono [of "map treeEntrySortName (tr_Entries t)" a b] by simp
  ultimately show "x \<le> treeEntrySortName (tr_Entries t ! b)" by order
qed

text \<open>
  If some entry has the sort name \<open>x\<close>, the index for \<open>x\<close> points to one that has it.
\<close>

lemma searchEntryIndex_hit:
  assumes s: "sorted (map treeEntrySortName (tr_Entries t))"
    and k: "k < length (tr_Entries t)" "treeEntrySortName (tr_Entries t ! k) = x"
  shows "searchEntryIndex t x \<le> k \<and> treeEntrySortName (tr_Entries t ! searchEntryIndex t x) = x"
proof -
  let ?i = "searchEntryIndex t x"
  have i: "?i \<le> k" using searchEntryIndex_spec [OF s, of x] k by auto
  then have "x \<le> treeEntrySortName (tr_Entries t ! ?i)"
    using searchEntryIndex_spec [OF s, of x] k(1) by auto
  moreover have "treeEntrySortName (tr_Entries t ! ?i) \<le> x"
    using sorted_nth_mono [OF s i] k i by simp
  ultimately show ?thesis using i by simp
qed

lemma searchEntry_find:
  assumes s: "sorted (map treeEntrySortName (tr_Entries t))" and f: "list_all slash_free (tr_Entries t)"
    and b: "0x2F \<notin> set base"
  shows "searchEntry t base = find (\<lambda>e. te_Name e = base) (tr_Entries t)"
proof -
  let ?es = "tr_Entries t" and ?i = "searchEntryIndex t base" and ?d = "searchEntryIndex t (base @ [0x2F])"
  let ?hit = "\<lambda>i. i < length ?es \<and> te_Name (?es ! i) = base"
  have sf: "k < length ?es \<Longrightarrow> slash_free (?es ! k)" for k using f by (simp add: list_all_length)
  have plain: "?hit ?i" if "k < length ?es" "treeEntrySortName (?es ! k) = base" for k
    using searchEntryIndex_hit [OF s that] named_by_sortName [OF sf b, of ?i] that(1) by auto
  have dir: "?hit ?d" if "k < length ?es" "treeEntrySortName (?es ! k) = base @ [0x2F]" for k
    using searchEntryIndex_hit [OF s that] named_by_sortName [OF sf b, of ?d] that(1) by auto
  have below: "treeEntrySortName (?es ! k) < x" if "k < length ?es" "k < searchEntryIndex t x" for k x
    using searchEntryIndex_spec [OF s, of x] that by (meson leD not_le)
  have before_i: "te_Name (?es ! k) \<noteq> base" if "k < length ?es" "k < ?i" for k
    using below [OF that] sortName_cases [of "?es ! k" base] le_append_bytes [of base "[0x2F]"] by auto
  have before_d: "te_Name (?es ! k) \<noteq> base" if "k < length ?es" "k < ?d" "\<not> ?hit ?i" for k
    using below [OF that(1,2)] that(3) sortName_cases [of "?es ! k" base] plain [OF that(1)] by auto
  consider "?hit ?i" | "\<not> ?hit ?i" "?hit ?d" | "\<not> ?hit ?i" "\<not> ?hit ?d" by blast
  then show ?thesis
  proof cases
    case 1
    then have "find (\<lambda>e. te_Name e = base) ?es = Some (?es ! ?i)"
      unfolding find_Some_iff using before_i by (intro exI [of _ ?i]) auto
    with 1 show ?thesis by (simp add: searchEntry_def)
  next
    case 2
    then have "find (\<lambda>e. te_Name e = base) ?es = Some (?es ! ?d)"
      unfolding find_Some_iff using before_d by (intro exI [of _ ?d]) auto
    with 2 show ?thesis by (auto simp: searchEntry_def Let_def)
  next
    case 3
    then have "find (\<lambda>e. te_Name e = base) ?es = None"
      using plain dir sortName_cases unfolding find_None_iff in_set_conv_nth by blast
    with 3 show ?thesis by (auto simp: searchEntry_def Let_def)
  qed
qed

lemma scanEntry_find:
  assumes "sorted (map treeEntrySortName es)"
  shows "scanEntry base (base @ [0x2F]) es = find (\<lambda>e. te_Name e = base) es"
  using assms
proof (induction es)
  case (Cons e es)
  show ?case
  proof (cases "base @ [0x2F] < treeEntrySortName e")
    case True
    have "te_Name x \<noteq> base" if "x \<in> set es" for x
      using Cons.prems that True sortName_cases [of x base] le_append_bytes [of base "[0x2F]"] by fastforce
    then have "find (\<lambda>e. te_Name e = base) es = None" by (auto simp: find_None_iff)
    with True show ?thesis by auto
  qed (use Cons in simp)
qed simp

definition decode_inv :: "Tree \<Rightarrow> bytes \<Rightarrow> bool" where
  "decode_inv t prev \<longleftrightarrow> (tr_entriesSorted t \<longleftrightarrow> sorted (map treeEntrySortName (tr_Entries t))) \<and>
     (tr_Entries t \<noteq> [] \<longrightarrow> prev = treeEntrySortName (last (tr_Entries t)))"

lemma sorted_snoc_last: "sorted (xs @ [x :: 'a :: linorder]) \<longleftrightarrow> sorted xs \<and> (xs \<noteq> [] \<longrightarrow> last xs \<le> x)"
proof (induction xs)
  case (Cons y xs)
  then show ?case by (cases "xs = []") (auto intro: order_trans)
qed simp

lemma decode_loop_flag:
  assumes "decode_loop t prev r = Inr t'" and "decode_inv t prev"
  shows "(tr_entriesSorted t' \<longleftrightarrow> sorted (map treeEntrySortName (tr_Entries t'))) \<and> tr_Hash t' = tr_Hash t"
  using assms
proof (induction t prev r rule: decode_loop.induct)
  case (1 t prev r)
  show ?case
  proof (cases "read_entry (tr_Hash t) r")
    case (Inl err)
    with 1 show ?thesis by (auto simp: decode_loop.simps decode_inv_def split: if_split_asm)
  next
    case (Inr er)
    obtain e r' where er: "er = (e, r')" by (cases er)
    define t2 where "t2 = (if tr_Entries t \<noteq> [] \<and> treeEntrySortName e < prev then t\<lparr>tr_entriesSorted := False\<rparr> else t)
      \<lparr>tr_Entries := tr_Entries t @ [e]\<rparr>"
    have step: "decode_loop t prev r = decode_loop t2 (treeEntrySortName e) r'"
      using Inr er by (subst decode_loop.simps) (auto simp: Let_def t2_def)
    have "decode_inv t2 (treeEntrySortName e)"
      using 1(3) sorted_snoc_last [of "map treeEntrySortName (tr_Entries t)" "treeEntrySortName e"]
      by (auto simp: decode_inv_def t2_def last_map not_less)
    moreover have "tr_Hash t2 = tr_Hash t" by (simp add: t2_def)
    ultimately show ?thesis
      using 1(1) [OF Inr er [symmetric] refl refl] 1(2) step by (simp add: t2_def split: if_split_asm)
  qed
qed

lemma Tree_Decode_flag:
  "Tree_Decode isTree h c = Inr t \<Longrightarrow> (tr_entriesSorted t \<longleftrightarrow> sorted (map treeEntrySortName (tr_Entries t))) \<and> tr_Hash t = h"
  by (auto simp: Tree_Decode_def Let_def decode_inv_def split: if_split_asm dest!: decode_loop_flag)

text \<open>
  \<^bold>\<open>C24\<close>. The flag that \<open>Decode\<close> computes while it reads is exactly whether the entries are in git's
  order, and the two ways in which \<open>entry\<close> looks up a name agree where the flag lets it take the fast
  one: in a sorted tree whose names have no slash, the two binary searches (for the name as a file and
  as a directory) and the scan that stops early both return the first entry of that name, and
  \<open>ErrEntryNotFound\<close> if and only if there is none.
\<close>

theorem Tree_entry_finds:
  assumes "Tree_Decode isTree h c = Inr t" and "list_all slash_free (tr_Entries t)" and "0x2F \<notin> set base"
  shows "(tr_entriesSorted t \<longleftrightarrow> sorted (map treeEntrySortName (tr_Entries t))) \<and>
    (tr_entriesSorted t \<longrightarrow>
       Tree_entry t base = note_err ErrEntryNotFound (find (\<lambda>e. te_Name e = base) (tr_Entries t)) \<and>
       Tree_entry (t\<lparr>tr_entriesSorted := False\<rparr>) base = Tree_entry t base)"
  using Tree_Decode_flag [OF assms(1)] assms(2,3) by (auto simp: Tree_entry_def searchEntry_find scanEntry_find)

lemma Tree_entry_finds_witness:
  "\<exists>t. Tree_Decode True ZeroHash (encode_entry \<lparr>te_Name = [0x61], te_Mode = Dir,
       te_Hash = ObjectID (7 # replicate 31 0) UnsetObjectFormat\<rparr>) = Inr t \<and>
     tr_entriesSorted t \<and>
     Tree_entry t [0x61] = Inr \<lparr>te_Name = [0x61], te_Mode = Dir, te_Hash = ObjectID (7 # replicate 31 0) UnsetObjectFormat\<rparr>"
proof -
  let ?e = "\<lparr>te_Name = [0x61], te_Mode = Dir, te_Hash = ObjectID (7 # replicate 31 0) UnsetObjectFormat\<rparr>"
  let ?t = "\<lparr>tr_Entries = [?e], tr_Hash = ZeroHash, tr_entriesSorted = True\<rparr>"
  have "ValidTreePath (\<lambda>_. []) [0x61] = None" by code_simp
  then have "valid_entry (\<lambda>_. []) ?e"
    by (simp add: valid_entry_def IsZero_first maxTreeEntryNameLen_def isValidTreeMode_def mode_defs)
  then have "Tree_Decode True ZeroHash (encode_entry ?e) = Inr ?t"
    using decode_loop_encode [of "\<lambda>_. []" "[?e]" "\<lparr>tr_Entries = [], tr_Hash = ZeroHash, tr_entriesSorted = True\<rparr>" "[]"]
    by (simp add: Tree_Decode_def encode_entry_def entry_id_ok_def oid_ok_def oid_Size_def ZeroHash_def nth_Cons'
        canonical_entry_def Canonical_def mode_defs)
  then show ?thesis
    using Tree_entry_finds [of True ZeroHash "encode_entry ?e" ?t "[0x61]"] by (simp add: slash_free_def)
qed

subsection \<open>The path cache\<close>

text \<open>
  The reference: walk down the directories, then look the last name up. A cache is good for a tree if each
  path in it leads, by that walk, to the tree that it holds.
\<close>

fun walk_dirs :: "tree_store \<Rightarrow> Tree \<Rightarrow> bytes list \<Rightarrow> tree_error + Tree" where
  "walk_dirs s t [] = Inr t"
| "walk_dirs s t (p # ps) = rbind (Tree_dir s t p) (\<lambda>t'. walk_dirs s t' ps)"

definition name_ok :: "bytes \<Rightarrow> bool" where
  "name_ok p \<longleftrightarrow> p \<noteq> [] \<and> 0x2F \<notin> set p"

definition cache_ok :: "tree_store \<Rightarrow> Tree \<Rightarrow> tree_cache \<Rightarrow> bool" where
  "cache_ok s t c \<longleftrightarrow> (\<forall>p T. c p = Some T \<longrightarrow>
     (\<exists>ps. ps \<noteq> [] \<and> list_all name_ok ps \<and> p = join 0x2F ps \<and> walk_dirs s t ps = Inr T))"

lemma walk_dirs_append: "walk_dirs s t (ps @ qs) = rbind (walk_dirs s t ps) (\<lambda>t'. walk_dirs s t' qs)"
  by (induction ps arbitrary: t) (simp_all add: rbind_assoc)

lemma fst_find_loop:
  "parts \<noteq> [] \<Longrightarrow> fst (find_loop s t pc parts c) = rbind (walk_dirs s t (butlast parts)) (\<lambda>t'. Tree_entry t' (last parts))"
proof (induction s t pc parts c rule: find_loop.induct)
  case (3 s tree pc part p' rest c)
  then show ?case by (cases "Tree_dir s tree part") (auto simp: Let_def fun_upd_def)
qed simp_all

lemma split_join_ok: "ps \<noteq> [] \<Longrightarrow> list_all name_ok ps \<Longrightarrow> split 0x2F (join 0x2F ps) = ps"
  by (rule split_join) (auto simp: list_all_iff name_ok_def)

lemma join_name_ok_inj:
  assumes "ps \<noteq> []" "qs \<noteq> []" "list_all name_ok ps" "list_all name_ok qs" "join 0x2F ps = join 0x2F qs"
  shows "ps = qs"
  using split_join_ok [OF assms(1,3)] split_join_ok [OF assms(2,4)] assms(5) by argo

lemma filter_name_ok: "\<forall>p\<in>set parts. 0x2F \<notin> set p \<Longrightarrow> list_all name_ok (filter (\<lambda>p. p \<noteq> []) parts)"
  by (auto simp: list_all_iff name_ok_def)

lemma cached_start_Some:
  assumes "cached_start c parts n = Some (i, T)"
  shows "1 \<le> i \<and> i \<le> n \<and> c (filepath_Join (take i parts)) = Some T"
  using assms by (induction c parts n rule: cached_start.induct) (auto split: option.splits)

lemma cache_walk:
  assumes "cache_ok s t c" and "c (filepath_Join parts) = Some T" and "\<forall>p\<in>set parts. 0x2F \<notin> set p"
  shows "walk_dirs s t (filter (\<lambda>p. p \<noteq> []) parts) = Inr T \<and> filter (\<lambda>p. p \<noteq> []) parts \<noteq> []"
proof -
  let ?qs = "filter (\<lambda>p. p \<noteq> []) parts"
  from assms(1,2) obtain ps where ps: "ps \<noteq> []" "list_all name_ok ps" "join 0x2F ?qs = join 0x2F ps" "walk_dirs s t ps = Inr T"
    by (auto simp: cache_ok_def filepath_Join_def)
  have "join 0x2F ps \<noteq> []" using ps(1,2) by (cases ps; cases "tl ps") (auto simp: name_ok_def)
  with ps(3) have "?qs \<noteq> []" by auto
  with join_name_ok_inj [OF ps(1) _ ps(2) filter_name_ok [OF assms(3)]] ps(3,4) show ?thesis by simp
qed

definition no_empty :: "Tree \<Rightarrow> bool" where
  "no_empty t \<longleftrightarrow> list_all (\<lambda>e. te_Name e \<noteq> []) (tr_Entries t)"

lemma scanEntry_Some: "scanEntry base pastName es = Some e \<Longrightarrow> te_Name e = base \<and> e \<in> set es"
  by (induction es) (auto split: if_split_asm)

lemma Tree_entry_Inr: "Tree_entry t base = Inr e \<Longrightarrow> te_Name e = base \<and> e \<in> set (tr_Entries t)"
  by (auto simp: Tree_entry_def searchEntry_def Let_def result_simps in_set_conv_nth split: if_split_asm dest!: scanEntry_Some)

lemma decode_loop_no_empty: "decode_loop t prev r = Inr t' \<Longrightarrow> no_empty t \<Longrightarrow> no_empty t'"
proof (induction t prev r rule: decode_loop.induct)
  case (1 t prev r)
  show ?case
  proof (cases "read_entry (tr_Hash t) r")
    case (Inl err)
    with 1 show ?thesis by (auto simp: decode_loop.simps split: if_split_asm)
  next
    case (Inr er)
    obtain e r' where er: "er = (e, r')" by (cases er)
    then have "te_Name e \<noteq> []" using Inr by (metis TreeEntry.select_convs(1) read_entry_Inr)
    then show ?thesis
      using 1(1) [OF Inr er [symmetric] refl refl] 1(2,3) Inr er
      by (auto simp: decode_loop.simps [of t prev r] Let_def no_empty_def)
  qed
qed

lemma Tree_dir_no_empty: "Tree_dir s t p = Inr t' \<Longrightarrow> no_empty t'"
  by (auto simp: Tree_dir_def GetTree_def Tree_Decode_def Let_def result_simps no_empty_def [of "\<lparr>tr_Entries = [], tr_Hash = h, tr_entriesSorted = b\<rparr>" for h b]
      split: sum.splits if_split_asm dest: decode_loop_no_empty)

lemma Tree_dir_empty: "no_empty t \<Longrightarrow> Tree_dir s t [] = Inl ErrDirectoryNotFound"
  by (auto simp: Tree_dir_def no_empty_def list_all_iff split: sum.splits dest: Tree_entry_Inr)

lemma walk_dirs_no_empty: "no_empty t \<Longrightarrow> walk_dirs s t ps = Inr t' \<Longrightarrow> no_empty t'"
  by (induction ps arbitrary: t) (auto simp: result_simps dest: Tree_dir_no_empty)

lemma join_snoc: "ps \<noteq> [] \<Longrightarrow> join c (ps @ [x]) = join c ps @ c # x"
  by (induction c ps rule: join.induct) auto

lemma join_name_ok_not_Nil: "ps \<noteq> [] \<Longrightarrow> list_all name_ok ps \<Longrightarrow> join 0x2F ps \<noteq> []"
  by (cases ps; cases "tl ps") (auto simp: name_ok_def)

lemma filepath_Join_snoc:
  assumes "list_all name_ok dn" and "part \<noteq> []"
  shows "filepath_Join [join 0x2F dn, part] = join 0x2F (dn @ [part])"
  using assms join_name_ok_not_Nil [of dn] join_snoc [of dn "0x2F" part] by (cases "dn = []") (simp_all add: filepath_Join_def)

lemma find_loop_cache_ok:
  assumes "cache_ok s t c" and "walk_dirs s t dn = Inr tree" and "list_all name_ok dn" and "no_empty tree"
    and "pc = join 0x2F dn" and "\<forall>p\<in>set parts. 0x2F \<notin> set p"
  shows "cache_ok s t (snd (find_loop s tree pc parts c))"
  using assms
proof (induction s tree pc parts c arbitrary: dn rule: find_loop.induct)
  case (3 s tree pc part p' rest c)
  show ?case
  proof (cases "Tree_dir s tree part")
    case (Inr tree')
    have part: "name_ok part" using Inr 3 Tree_dir_empty by (auto simp: name_ok_def)
    then have pc': "filepath_Join [pc, part] = join 0x2F (dn @ [part])"
      using 3(4,6) filepath_Join_snoc unfolding name_ok_def by blast
    have w: "walk_dirs s t (dn @ [part]) = Inr tree'" using 3 Inr by (simp add: walk_dirs_append)
    moreover have ok: "list_all name_ok (dn @ [part])" using 3 part by simp
    ultimately have "cache_ok s t (c(filepath_Join [pc, part] \<mapsto> tree'))"
      using 3(2) unfolding cache_ok_def pc' by (metis fun_upd_apply option.inject snoc_eq_iff_butlast)
    then have "cache_ok s t (snd (find_loop s tree' (filepath_Join [pc, part]) (p' # rest) (c(filepath_Join [pc, part] \<mapsto> tree'))))"
      using 3(1) [OF Inr refl, of "dn @ [part]"] w ok Tree_dir_no_empty [OF Inr] pc' 3(7) by (simp add: fun_upd_def)
    then show ?thesis by (simp add: Inr Let_def)
  qed (use 3 in simp)
qed simp_all

lemma FindEntry_cache_ok:
  assumes "no_empty t" and "cache_ok s t c"
  shows "cache_ok s t (snd (FindEntry vol s t path c))"
proof -
  have sf: "\<forall>p\<in>set (split 0x2F path). 0x2F \<notin> set p" by (auto dest: set_split)
  show ?thesis
  proof (cases "cached_start c (split 0x2F path) (length (split 0x2F path) - 1)")
    case None
    then show ?thesis
      using find_loop_cache_ok [of s t c "[]" t "[]" "split 0x2F path"] assms sf
      by (auto simp: FindEntry_def Let_def split: option.splits)
  next
    case (Some iT)
    obtain i T where iT: "iT = (i, T)" by (cases iT)
    let ?parts = "split 0x2F path"
    let ?dn = "filter (\<lambda>p. p \<noteq> []) (take i ?parts)"
    have c: "c (filepath_Join (take i ?parts)) = Some T" using cached_start_Some Some iT by blast
    have t: "\<forall>p\<in>set (take i ?parts). 0x2F \<notin> set p" "\<forall>p\<in>set (drop i ?parts). 0x2F \<notin> set p"
      using sf by (auto dest: in_set_takeD in_set_dropD)
    have w: "walk_dirs s t ?dn = Inr T" using cache_walk [OF assms(2) c t(1)] by simp
    have "cache_ok s t (snd (find_loop s T (filepath_Join (take i ?parts)) (drop i ?parts) c))"
      using find_loop_cache_ok [OF assms(2) w filter_name_ok [OF t(1)] walk_dirs_no_empty [OF assms(1) w] _ t(2)]
      by (simp add: filepath_Join_def)
    then show ?thesis using Some iT assms(2) by (auto simp: FindEntry_def Let_def split: option.splits)
  qed
qed

lemma FindEntry_value:
  assumes "cache_ok s t c" and "[] \<notin> set (split 0x2F path)"
  shows "fst (FindEntry vol s t path c) =
    (case ValidTreePath vol path of
       Some err \<Rightarrow> Inl (ErrInvalidPath err)
     | None \<Rightarrow> rbind (walk_dirs s t (butlast (split 0x2F path))) (\<lambda>t'. Tree_entry t' (last (split 0x2F path))))"
proof -
  let ?parts = "split 0x2F path"
  have from_cache: "fst (find_loop s T pc (drop i ?parts) c) =
      rbind (walk_dirs s t (butlast ?parts)) (\<lambda>t'. Tree_entry t' (last ?parts))"
    if "cached_start c ?parts (length ?parts - 1) = Some (i, T)" for i T pc
  proof -
    have i: "i \<le> length ?parts - 1" "c (filepath_Join (take i ?parts)) = Some T"
      using cached_start_Some [OF that] by auto
    have lt: "i < length ?parts" using i(1) split_not_Nil [of "0x2F" path] by (cases ?parts) auto
    have "\<forall>p\<in>set (take i ?parts). 0x2F \<notin> set p" by (auto dest!: in_set_takeD set_split)
    then have "walk_dirs s t (filter (\<lambda>p. p \<noteq> []) (take i ?parts)) = Inr T" using cache_walk [OF assms(1) i(2)] by simp
    moreover have "filter (\<lambda>p. p \<noteq> []) (take i ?parts) = take i ?parts"
      using assms(2) by (auto simp: filter_id_conv dest: in_set_takeD)
    moreover have "butlast ?parts = take i ?parts @ butlast (drop i ?parts)"
      using lt butlast_append [of "take i ?parts" "drop i ?parts"] by simp
    ultimately show ?thesis using lt by (simp add: fst_find_loop walk_dirs_append last_drop)
  qed
  show ?thesis
    by (auto simp: FindEntry_def Let_def fst_find_loop from_cache split: option.splits)
qed

text \<open>
  \<^bold>\<open>C19\<close>. The cache of a tree is transparent: whatever was looked up before, \<open>FindEntry\<close> of a path
  without empty components gives what walking down from the tree itself gives (the entry, or the same
  error), and leaves a cache that holds, for each path in it, the tree at that path. The tree must have
  no entry with an empty name, which \<open>Decode\<close> never reads.
\<close>

theorem FindEntry_cache_transparent:
  assumes "no_empty t" and "cache_ok s t c" and "[] \<notin> set (split 0x2F path)"
  shows "cache_ok s t (snd (FindEntry vol s t path c)) \<and>
    fst (FindEntry vol s t path c) = fst (FindEntry vol s t path Map.empty) \<and>
    (ValidTreePath vol path = None \<longrightarrow> fst (FindEntry vol s t path c) =
       rbind (walk_dirs s t (butlast (split 0x2F path))) (\<lambda>t'. Tree_entry t' (last (split 0x2F path))))"
  using FindEntry_cache_ok [OF assms(1,2)] FindEntry_value [OF assms(2,3)]
    FindEntry_value [OF _ assms(3), of s t Map.empty] by (simp add: cache_ok_def [of s t Map.empty])

lemma FindEntry_cache_transparent_witness:
  "fst (FindEntry (\<lambda>_. []) (\<lambda>_. Inr []) \<lparr>tr_Entries = [\<lparr>te_Name = [0x61], te_Mode = Dir, te_Hash = ZeroHash\<rparr>],
       tr_Hash = ZeroHash, tr_entriesSorted = True\<rparr> [0x61, 0x2F, 0x62]
     [[0x61] \<mapsto> \<lparr>tr_Entries = [], tr_Hash = ZeroHash, tr_entriesSorted = True\<rparr>]) = Inl ErrEntryNotFound"
proof -
  let ?t = "\<lparr>tr_Entries = [\<lparr>te_Name = [0x61], te_Mode = Dir, te_Hash = ZeroHash\<rparr>],
       tr_Hash = ZeroHash, tr_entriesSorted = True\<rparr>"
  let ?T = "\<lparr>tr_Entries = [], tr_Hash = ZeroHash, tr_entriesSorted = True\<rparr>"
  have d: "Tree_dir (\<lambda>_. Inr []) ?t [0x61] = Inr ?T" "Tree_entry ?T [0x62] = Inl ErrEntryNotFound" by code_simp+
  have "cache_ok (\<lambda>_. Inr []) ?t [[0x61] \<mapsto> ?T]"
    unfolding cache_ok_def by (auto simp: d name_ok_def intro!: exI [of _ "[[0x61]]"])
  moreover have "ValidTreePath (\<lambda>_. []) [0x61, 0x2F, 0x62] = None" by code_simp
  moreover have "no_empty ?t" and p: "split 0x2F [0x61, 0x2F, 0x62 :: byte] = [[0x61], [0x62]]" by (simp_all add: no_empty_def)
  ultimately have "fst (FindEntry (\<lambda>_. []) (\<lambda>_. Inr []) ?t [0x61, 0x2F, 0x62] [[0x61] \<mapsto> ?T]) =
      rbind (walk_dirs (\<lambda>_. Inr []) ?t [[0x61]]) (\<lambda>t'. Tree_entry t' [0x62])"
    using FindEntry_cache_transparent [of ?t "\<lambda>_. Inr []" "[[0x61] \<mapsto> ?T]" "[0x61, 0x2F, 0x62]" "\<lambda>_. []"]
    unfolding p by fastforce
  then show ?thesis by (simp add: d)
qed

text \<open>
  With an empty component the cache shows: \<open>a//b\<close> is a valid path, and is not found in a fresh tree (no
  directory has an entry without a name), but once \<open>a\<close> is in the cache it is found, because the key
  that \<open>filepath.Join\<close> makes of \<open>a\<close> and the empty component is \<open>a\<close> again.
\<close>

lemma FindEntry_empty_component:
  assumes "no_empty t" and "name_ok a" and "name_ok b" and "ValidTreePath vol (a @ [0x2F, 0x2F] @ b) = None"
    and "Tree_dir s t a = Inr t'" and "Tree_entry t' b = Inr e"
  shows "fst (FindEntry vol s t (a @ [0x2F, 0x2F] @ b) Map.empty) = Inl ErrDirectoryNotFound \<and>
    fst (FindEntry vol s t (a @ [0x2F, 0x2F] @ b) [a \<mapsto> t']) = Inr e \<and>
    (ValidTreePath vol (a @ [0x2F] @ b) = None \<longrightarrow> snd (FindEntry vol s t (a @ [0x2F] @ b) Map.empty) = [a \<mapsto> t'])"
proof -
  have p: "split 0x2F (a @ 0x2F # 0x2F # b) = [a, [], b]" "split 0x2F (a @ 0x2F # b) = [a, b]"
    using assms(2,3) by (simp_all add: name_ok_def split_append_sep split_no_sep)
  have "Tree_dir s t' [] = Inl ErrDirectoryNotFound"
    using Tree_dir_empty [OF Tree_dir_no_empty [OF assms(5)]] .
  moreover have "filepath_Join [a, []] = a" "filepath_Join [[], a] = a"
    using assms(2) by (simp_all add: filepath_Join_def name_ok_def)
  ultimately show ?thesis using assms(4-6) by (simp add: FindEntry_def p numeral_2_eq_2 Let_def)
qed

end
