(* ===== verification/Tree_Walk.thy ===== *)
theory Tree_Walk
  imports Git_Tree
begin

text \<open>
  Walking a git tree: \<open>TreeWalker\<close> of \<open>plumbing/object/tree.go\<close> and \<open>FileIter\<close> of
  \<open>plumbing/object/file.go\<close>.

  \<^item> \<open>Next\<close> on the stack of iterators, top at the end as in the source; the objects are a parameter.
    One call ends because it pops or advances; a whole walk ends on every store, self-referencing
    trees included, because the stack is bounded by \<open>maxTreeDepth\<close>: the vector of what is left at
    each depth decreases lexicographically.
  \<^item> \<open>preorder\<close> is the reference: the pre-order listing by recursion on the trees, in which a directory
    whose tree cannot be read is passed over, as the comment of \<open>Next\<close> has it. The stack machine computes
    it wherever the trees can be read. \<open>listing\<close> is what the code does on every store: at a tree that
    cannot be read it ends the walk.
\<close>

definition maxTreeDepth :: nat where "maxTreeDepth = 1024"

record treeEntryIter =
  ti_t :: Tree
  ti_pos :: nat

definition treeEntryIter_Next :: "treeEntryIter \<Rightarrow> (tree_error + TreeEntry) \<times> treeEntryIter" where
  "treeEntryIter_Next iter =
     (if ti_pos iter \<ge> length (tr_Entries (ti_t iter)) then (Inl TreeEOF, iter)
      else (Inr (tr_Entries (ti_t iter) ! ti_pos iter), iter\<lparr>ti_pos := ti_pos iter + 1\<rparr>))"

record TreeWalker =
  tw_stack :: "treeEntryIter list"
  tw_base :: bytes
  tw_recursive :: bool
  tw_seen :: "ObjectID \<Rightarrow> bool"
  tw_skipPathValidation :: bool
  tw_t :: Tree

definition NewTreeWalker :: "Tree \<Rightarrow> bool \<Rightarrow> (ObjectID \<Rightarrow> bool) \<Rightarrow> TreeWalker" where
  "NewTreeWalker t recursive seen =
     \<lparr>tw_stack = [\<lparr>ti_t = t, ti_pos = 0\<rparr>], tw_base = [], tw_recursive = recursive, tw_seen = seen,
      tw_skipPathValidation = False, tw_t = t\<rparr>"

definition simpleJoin :: "bytes \<Rightarrow> bytes \<Rightarrow> bytes" where
  "simpleJoin parent child = (if length parent > 0 then parent @ [0x2F] @ child else child)"

text \<open>\<open>path.Split\<close> of the base, and the slash that it leaves at the end trimmed.\<close>

definition path_Split_dir :: "bytes \<Rightarrow> bytes" where
  "path_Split_dir p = rev (dropWhile (\<lambda>c. c \<noteq> 0x2F) (rev p))"

definition parent_base :: "bytes \<Rightarrow> bytes" where
  "parent_base base =
     (let dir = path_Split_dir base in if suffix [0x2F] dir then butlast dir else dir)"

definition iter_left :: "treeEntryIter \<Rightarrow> nat" where
  "iter_left iter = Suc (length (tr_Entries (ti_t iter)) - ti_pos iter)"

lemma treeEntryIter_Next_left:
  "treeEntryIter_Next iter = (Inr e, iter') \<Longrightarrow> iter_left iter' < iter_left iter"
  by (auto simp: treeEntryIter_Next_def iter_left_def split: if_split_asm)

lemma sum_list_butlast: "xs \<noteq> [] \<Longrightarrow> sum_list (map f (butlast xs)) + f (last xs) = sum_list (map f xs :: nat list)"
  by (cases xs rule: rev_cases) auto

function TreeWalker_Next ::
  "(bytes \<Rightarrow> bytes) \<Rightarrow> tree_store \<Rightarrow> TreeWalker \<Rightarrow> (tree_error + bytes \<times> TreeEntry) \<times> TreeWalker" where
  "TreeWalker_Next VolumeName s w =
     (if tw_stack w = [] then (Inl TreeEOF, w)
      else if length (tw_stack w) - 1 > maxTreeDepth then (Inl ErrMaxTreeDepth, w)
      else case treeEntryIter_Next (last (tw_stack w)) of
        (Inl _, iter) \<Rightarrow>
          TreeWalker_Next VolumeName s (w\<lparr>tw_stack := butlast (tw_stack w), tw_base := parent_base (tw_base w)\<rparr>)
      | (Inr entry, iter) \<Rightarrow>
          let w = w\<lparr>tw_stack := butlast (tw_stack w) @ [iter]\<rparr> in
          if tw_seen w (te_Hash entry) then TreeWalker_Next VolumeName s w
          else case (if tw_skipPathValidation w then None else ValidTreePath VolumeName (te_Name entry)) of
            Some err \<Rightarrow> (Inl (ErrInvalidPath err), w)
          | None \<Rightarrow>
              let name = simpleJoin (tw_base w) (te_Name entry) in
              if te_Mode entry = Dir then
                (case GetTree s (te_Hash entry) of
                   Inl _ \<Rightarrow> (Inl TreeEOF, w)
                 | Inr obj \<Rightarrow>
                     (Inr (name, entry),
                      if \<not> tw_recursive w then w
                      else w\<lparr>tw_stack := tw_stack w @ [\<lparr>ti_t = obj, ti_pos = 0\<rparr>], tw_base := name\<rparr>))
              else (Inr (name, entry), w))"
  by pat_completeness auto
termination
proof (relation "measure (\<lambda>(vol, s, w). sum_list (map iter_left (tw_stack w)))", goal_cases)
  case (2 vol s w r iter e)
  then show ?case using sum_list_butlast [of "tw_stack w" iter_left]
    by (auto simp: iter_left_def) 
next
  case (3 vol s w r iter entry w')
  then show ?case
    using sum_list_butlast [of "tw_stack w" iter_left] treeEntryIter_Next_left [of "last (tw_stack w)" entry iter]
    by auto
qed simp

declare TreeWalker_Next.simps [simp del]

text \<open>\<open>TreeWalker.Tree\<close>: the tree of the most recent operation. With an empty stack the source indexes out of range.\<close>

definition TreeWalker_Tree :: "TreeWalker \<Rightarrow> Tree option option" where
  "TreeWalker_Tree w =
     (if tw_stack w = [] then None
      else Some (if ti_pos (last (tw_stack w)) = 0
        then (if length (tw_stack w) = 1 then None else Some (ti_t (tw_stack w ! (length (tw_stack w) - 2))))
        else Some (ti_t (last (tw_stack w)))))"

definition TreeWalker_Close :: "TreeWalker \<Rightarrow> TreeWalker" where
  "TreeWalker_Close w = w\<lparr>tw_stack := []\<rparr>"

subsection \<open>A whole walk ends\<close>

definition stack_ranks :: "treeEntryIter list \<Rightarrow> nat list" where
  "stack_ranks st = take (maxTreeDepth + 2) (map iter_left st @ replicate (maxTreeDepth + 2) 0)"

definition walk_order :: "((TreeWalker \<times> TreeWalker)) set" where
  "walk_order = inv_image (lex less_than) (\<lambda>w. stack_ranks (tw_stack w))"

lemma wf_walk_order [simp]: "wf walk_order"
  by (simp add: walk_order_def wf_inv_image wf_lex)

lemma trans_walk_order: "trans walk_order"
  unfolding walk_order_def by (intro trans_inv_image lex_transI trans_less_than)

lemma ranks_less:
  assumes "length bs \<le> maxTreeDepth" and "k < iter_left it"
    and "xs = map iter_left bs @ k # us" and "maxTreeDepth + 2 \<le> length xs"
  shows "(take (maxTreeDepth + 2) xs, stack_ranks (bs @ [it])) \<in> lex less_than"
proof -
  let ?us = "take (maxTreeDepth + 1 - length bs)"
  have "take (maxTreeDepth + 2) xs = map iter_left bs @ k # ?us us"
    using assms(1) by (simp add: assms(3) take_Cons' Suc_diff_le)
  moreover have "stack_ranks (bs @ [it]) = map iter_left bs @ iter_left it # ?us (replicate (maxTreeDepth + 2) 0)"
    using assms(1) by (simp add: stack_ranks_def take_Cons' Suc_diff_le)
  moreover have "length (take (maxTreeDepth + 2) xs) = length (stack_ranks (bs @ [it]))"
    using assms(4) by (simp add: stack_ranks_def)
  ultimately show ?thesis using assms(2) unfolding lex_conv less_than_iff mem_Collect_eq case_prod_conv by blast
qed

lemma ranks_pop:
  assumes "length bs \<le> maxTreeDepth"
  shows "(stack_ranks bs, stack_ranks (bs @ [it])) \<in> lex less_than"
  unfolding stack_ranks_def [of bs]
  by (rule ranks_less [of bs 0 it _ "replicate (maxTreeDepth + 1) 0", OF assms]) (simp_all add: iter_left_def)

lemma ranks_advance:
  assumes "length bs \<le> maxTreeDepth" and "iter_left it' < iter_left it"
  shows "(stack_ranks (bs @ it' # rest), stack_ranks (bs @ [it])) \<in> lex less_than"
  unfolding stack_ranks_def [of "bs @ it' # rest"]
  by (rule ranks_less [OF assms, of _ "map iter_left rest @ replicate (maxTreeDepth + 2) 0"]) simp_all

lemma TreeWalker_Next_decreases:
  "TreeWalker_Next vol s w = (Inr x, w') \<Longrightarrow> (w', w) \<in> walk_order"
proof (induction vol s w rule: TreeWalker_Next.induct)
  case (1 vol s w)
  note step = 1(3) [unfolded TreeWalker_Next.simps [of vol s w]]
  from step obtain bs it where st: "tw_stack w = bs @ [it]" by (cases "tw_stack w" rule: rev_cases) auto
  from step have len: "length bs \<le> maxTreeDepth" by (auto simp: st split: if_split_asm)
  have trans: "(v, w) \<in> walk_order \<Longrightarrow> (w', v) \<in> walk_order \<Longrightarrow> (w', w) \<in> walk_order" for v
    using trans_walk_order by (meson transD)
  obtain r iter where n: "treeEntryIter_Next it = (r, iter)" by fastforce
  show ?case
  proof (cases r)
    case (Inl e)
    let ?w = "w\<lparr>tw_stack := butlast (tw_stack w), tw_base := parent_base (tw_base w)\<rparr>"
    have "(w', ?w) \<in> walk_order" using 1(1) step st len n Inl by simp
    moreover have "(?w, w) \<in> walk_order" using ranks_pop [OF len] by (simp add: walk_order_def st)
    ultimately show ?thesis using trans by blast
  next
    case (Inr entry)
    let ?w = "w\<lparr>tw_stack := butlast (tw_stack w) @ [iter]\<rparr>"
    have adv: "(w\<lparr>tw_stack := bs @ iter # rest, tw_base := b\<rparr>, w) \<in> walk_order" for rest b
      using ranks_advance [OF len] treeEntryIter_Next_left n Inr by (simp add: walk_order_def st)
    from adv [of "tw_base w" "[]"] have a: "(?w, w) \<in> walk_order" by (simp add: st walk_order_def)
    show ?thesis
    proof (cases "tw_seen w (te_Hash entry)")
      case True
      have "(w', ?w) \<in> walk_order" using 1(2) step st len n Inr True by simp
      then show ?thesis using a trans by blast
    next
      case False
      then show ?thesis using step len n Inr a adv
        by (auto simp: st Let_def split: option.splits sum.splits if_split_asm)
    qed
  qed
qed

text \<open>The loop of the walker's clients: the entries up to the first error, which is \<open>io.EOF\<close> at the end.\<close>

function TreeWalker_all ::
  "(bytes \<Rightarrow> bytes) \<Rightarrow> tree_store \<Rightarrow> TreeWalker \<Rightarrow> (bytes \<times> TreeEntry) list \<times> tree_error" where
  "TreeWalker_all vol s w =
     (case TreeWalker_Next vol s w of
        (Inl err, w') \<Rightarrow> ([], err)
      | (Inr x, w') \<Rightarrow> apfst ((#) x) (TreeWalker_all vol s w'))"
  by pat_completeness auto
termination
  by (relation "inv_image walk_order (\<lambda>(vol, s, w). w)") (auto dest: TreeWalker_Next_decreases [OF sym])

declare TreeWalker_all.simps [simp del]

subsection \<open>The listing that a walk computes\<close>

text \<open>
  Pre-order by recursion: the entries of a tree at a base path, with \<open>d\<close> levels below it. The second
  component is the error that ended the walk inside, if one did. \<open>listing\<close> ends as the code does at a tree
  that cannot be read.
\<close>

type_synonym listing_result = "(bytes \<times> TreeEntry) list \<times> tree_error option"

fun listing_then :: "listing_result \<Rightarrow> listing_result \<Rightarrow> listing_result" where
  "listing_then (xs, Some err) r = (xs, Some err)"
| "listing_then (xs, None) r = apfst ((@) xs) r"

function listing ::
  "(bytes \<Rightarrow> bytes) \<Rightarrow> tree_store \<Rightarrow> bool \<Rightarrow> (ObjectID \<Rightarrow> bool) \<Rightarrow> bool \<Rightarrow> nat \<Rightarrow> bytes \<Rightarrow> TreeEntry list \<Rightarrow> listing_result" where
  "listing vol s recursive seen skip d base [] = ([], None)"
| "listing vol s recursive seen skip d base (e # es) =
     (if seen (te_Hash e) then listing vol s recursive seen skip d base es
      else case (if skip then None else ValidTreePath vol (te_Name e)) of
        Some err \<Rightarrow> ([], Some (ErrInvalidPath err))
      | None \<Rightarrow>
          let name = simpleJoin base (te_Name e) in
          if te_Mode e = Dir then
            (case GetTree s (te_Hash e) of
               Inl _ \<Rightarrow> ([], Some TreeEOF)
             | Inr t \<Rightarrow>
                 listing_then
                   (apfst ((#) (name, e))
                     (if \<not> recursive then ([], None)
                      else if d = 0 then ([], Some ErrMaxTreeDepth)
                      else listing vol s recursive seen skip (d - 1) name (tr_Entries t)))
                   (listing vol s recursive seen skip d base es))
          else apfst ((#) (name, e)) (listing vol s recursive seen skip d base es))"
  by pat_completeness auto
termination
  by (relation "measures [\<lambda>(vol, s, recursive, seen, skip, d, base, es). d, \<lambda>(vol, s, recursive, seen, skip, d, base, es). length es]")
    auto

lemma listing_then_Cons: "listing_then (apfst ((#) x) r1) r2 = apfst ((#) x) (listing_then r1 r2)"
  by (cases r1; cases "snd r1"; cases r2) auto

text \<open>
  The listing as the comment of \<open>Next\<close> describes it: in order, subtrees included, trees that cannot be read
  skipped, ended by the first name that is not valid.
\<close>

function preorder ::
  "(bytes \<Rightarrow> bytes) \<Rightarrow> tree_store \<Rightarrow> bool \<Rightarrow> (ObjectID \<Rightarrow> bool) \<Rightarrow> nat \<Rightarrow> bytes \<Rightarrow> TreeEntry list \<Rightarrow> listing_result" where
  "preorder vol s recursive seen d base [] = ([], None)"
| "preorder vol s recursive seen d base (e # es) =
     (let rest = preorder vol s recursive seen d base es; name = simpleJoin base (te_Name e) in
      if seen (te_Hash e) then rest
      else case ValidTreePath vol (te_Name e) of
        Some err \<Rightarrow> ([], Some (ErrInvalidPath err))
      | None \<Rightarrow>
          if te_Mode e \<noteq> Dir then apfst ((#) (name, e)) rest
          else case GetTree s (te_Hash e) of
            Inl _ \<Rightarrow> rest
          | Inr t \<Rightarrow>
              apfst ((#) (name, e))
                (if \<not> recursive then rest
                 else if d = 0 then ([], Some ErrMaxTreeDepth)
                 else listing_then (preorder vol s recursive seen (d - 1) name (tr_Entries t)) rest))"
  by pat_completeness auto
termination
  by (relation "measures [\<lambda>(vol, s, recursive, seen, d, base, es). d, \<lambda>(vol, s, recursive, seen, d, base, es). length es]")
    auto

lemma append_Nil_id [simp]: "(@) [] = id"
  by auto

definition subtrees_readable :: "tree_store \<Rightarrow> (ObjectID \<Rightarrow> bool) \<Rightarrow> TreeEntry list \<Rightarrow> bool" where
  "subtrees_readable s seen es \<longleftrightarrow>
     list_all (\<lambda>e. te_Mode e = Dir \<and> \<not> seen (te_Hash e) \<longrightarrow> (\<exists>t. GetTree s (te_Hash e) = Inr t)) es"

definition readable_store :: "tree_store \<Rightarrow> (ObjectID \<Rightarrow> bool) \<Rightarrow> bool" where
  "readable_store s seen \<longleftrightarrow> (\<forall>h t. GetTree s h = Inr t \<longrightarrow> subtrees_readable s seen (tr_Entries t))"

lemma preorder_listing:
  assumes "readable_store s seen" and "subtrees_readable s seen es"
  shows "preorder vol s recursive seen d base es = listing vol s recursive seen False d base es"
  using assms
proof (induction vol s recursive seen d base es rule: preorder.induct)
  case (2 vol s recursive seen d base e es)
  have es: "subtrees_readable s seen es" using 2(4) by (simp add: subtrees_readable_def)
  note IH = 2(1) [OF 2(3) es]
  show ?case
  proof (cases "te_Mode e = Dir \<and> \<not> seen (te_Hash e)")
    case True
    then obtain t where t: "GetTree s (te_Hash e) = Inr t"
      using 2(4) by (cases "GetTree s (te_Hash e)") (auto simp: subtrees_readable_def)
    then have "subtrees_readable s seen (tr_Entries t)" using 2(3) by (simp add: readable_store_def)
    then show ?thesis
      using 2(2) True t 2(3) IH
      by (auto simp: Let_def listing_then_Cons split: option.split)
  next
    case False
    then show ?thesis using IH by (auto simp: Let_def split: option.split)
  qed
qed simp

lemma parent_base_simpleJoin:
  assumes "0x2F \<notin> set name"
  shows "parent_base (simpleJoin base name) = base"
proof -
  have 1: "dropWhile (\<lambda>c. c \<noteq> 0x2F) (rev name) = []" using assms by (auto simp: dropWhile_eq_Nil_conv)
  have 2: "dropWhile (\<lambda>c. c \<noteq> 0x2F) (rev name @ 0x2F # rev base) = 0x2F # rev base"
    using assms by (subst dropWhile_append2) auto
  show ?thesis
    by (cases "base = []") (simp_all add: parent_base_def path_Split_dir_def simpleJoin_def suffix_def Let_def 1 2)
qed

definition resume :: "(bytes \<Rightarrow> bytes) \<Rightarrow> tree_store \<Rightarrow> TreeWalker \<Rightarrow> listing_result \<Rightarrow> (bytes \<times> TreeEntry) list \<times> tree_error" where
  "resume vol s w r = (case r of (xs, Some err) \<Rightarrow> (xs, err) | (xs, None) \<Rightarrow> apfst ((@) xs) (TreeWalker_all vol s w))"

lemma resume_simps [simp]:
  "resume vol s w (xs, Some err) = (xs, err)" "resume vol s w (xs, None) = apfst ((@) xs) (TreeWalker_all vol s w)"
  by (simp_all add: resume_def)

lemma resume_Cons: "resume vol s w (apfst ((#) x) r) = apfst ((#) x) (resume vol s w r)"
  by (cases r; cases "snd r"; cases "TreeWalker_all vol s w") auto

lemma resume_append: "resume vol s w (apfst ((@) xs) r) = apfst ((@) xs) (resume vol s w r)"
  by (cases r; cases "snd r"; cases "TreeWalker_all vol s w") auto

text \<open>The cases of one call, at the top iterator.\<close>

lemma Next_pop:
  assumes "tw_stack w = bs @ [it]" and "length bs \<le> maxTreeDepth" and "drop (ti_pos it) (tr_Entries (ti_t it)) = []"
  shows "TreeWalker_Next vol s w = TreeWalker_Next vol s (w\<lparr>tw_stack := bs, tw_base := parent_base (tw_base w)\<rparr>)"
  using assms by (subst TreeWalker_Next.simps) (simp add: treeEntryIter_Next_def)

lemma Next_read:
  assumes "tw_stack w = bs @ [it]" and "length bs \<le> maxTreeDepth" and "drop (ti_pos it) (tr_Entries (ti_t it)) = e # es"
    and v: "v = w\<lparr>tw_stack := bs @ [it\<lparr>ti_pos := ti_pos it + 1\<rparr>]\<rparr>"
  shows "TreeWalker_Next vol s w =
    (if tw_seen w (te_Hash e) then TreeWalker_Next vol s v
     else case (if tw_skipPathValidation w then None else ValidTreePath vol (te_Name e)) of
       Some err \<Rightarrow> (Inl (ErrInvalidPath err), v)
     | None \<Rightarrow>
         if te_Mode e = Dir then
           (case GetTree s (te_Hash e) of
              Inl _ \<Rightarrow> (Inl TreeEOF, v)
            | Inr obj \<Rightarrow> (Inr (simpleJoin (tw_base w) (te_Name e), e),
                if \<not> tw_recursive w then v
                else v\<lparr>tw_stack := tw_stack v @ [\<lparr>ti_t = obj, ti_pos = 0\<rparr>], tw_base := simpleJoin (tw_base w) (te_Name e)\<rparr>))
         else (Inr (simpleJoin (tw_base w) (te_Name e), e), v))"
proof -
  have "ti_pos it < length (tr_Entries (ti_t it))" using assms(3) by (metis drop_eq_Nil list.distinct(1) not_le)
  moreover have "tr_Entries (ti_t it) ! ti_pos it = e" using assms(3) calculation by (metis hd_drop_conv_nth list.sel(1))
  ultimately show ?thesis
    using assms(1,2) by (subst TreeWalker_Next.simps) (auto simp: treeEntryIter_Next_def v Let_def split: option.splits sum.splits)
qed

definition slash_free_store :: "tree_store \<Rightarrow> bool" where
  "slash_free_store s \<longleftrightarrow> (\<forall>h t. GetTree s h = Inr t \<longrightarrow> list_all slash_free (tr_Entries t))"

lemma all_cong_Next: "TreeWalker_Next vol s w = TreeWalker_Next vol s v \<Longrightarrow> TreeWalker_all vol s w = TreeWalker_all vol s v"
  by (simp add: TreeWalker_all.simps)

lemma all_step: "TreeWalker_Next vol s w = (Inr x, v) \<Longrightarrow> TreeWalker_all vol s w = apfst ((#) x) (TreeWalker_all vol s v)"
  by (simp add: TreeWalker_all.simps [of vol s w])

lemma all_stop: "TreeWalker_Next vol s w = (Inl err, v) \<Longrightarrow> TreeWalker_all vol s w = ([], err)"
  by (simp add: TreeWalker_all.simps)

lemma drop_next: "drop n xs = y # ys \<Longrightarrow> drop (n + 1) xs = ys"
  by (metis Suc_eq_plus1 drop_Suc list.sel(3) tl_drop)

lemma apfst_append_Nil [simp]: "apfst ((@) []) r = r" "apfst ((@) (x # xs)) r = apfst ((#) x) (apfst ((@) xs) r)"
  by (cases r; simp)+

text \<open>The walker at an iterator with the entries \<open>es\<close> left computes their listing and goes on below.\<close>

definition at_entries ::
  "bool \<Rightarrow> (ObjectID \<Rightarrow> bool) \<Rightarrow> bool \<Rightarrow> nat \<Rightarrow> bytes \<Rightarrow> TreeEntry list \<Rightarrow> TreeWalker \<Rightarrow> treeEntryIter list \<Rightarrow> treeEntryIter \<Rightarrow> bool" where
  "at_entries recursive seen skip d base es w bs it \<longleftrightarrow>
     tw_stack w = bs @ [it] \<and> length bs + d = maxTreeDepth \<and> drop (ti_pos it) (tr_Entries (ti_t it)) = es \<and>
     tw_recursive w = recursive \<and> tw_seen w = seen \<and> tw_skipPathValidation w = skip \<and> tw_base w = base"

definition walks ::
  "(bytes \<Rightarrow> bytes) \<Rightarrow> tree_store \<Rightarrow> bool \<Rightarrow> (ObjectID \<Rightarrow> bool) \<Rightarrow> bool \<Rightarrow> nat \<Rightarrow> bytes \<Rightarrow> TreeEntry list \<Rightarrow> bool" where
  "walks vol s recursive seen skip d base es \<longleftrightarrow>
     (\<forall>w bs it. at_entries recursive seen skip d base es w bs it \<longrightarrow>
        TreeWalker_all vol s w =
          resume vol s (w\<lparr>tw_stack := bs, tw_base := parent_base base\<rparr>) (listing vol s recursive seen skip d base es))"

lemma at_entries_advance:
  assumes "at_entries recursive seen skip d base (e # es) w bs it"
  shows "at_entries recursive seen skip d base es (w\<lparr>tw_stack := bs @ [it\<lparr>ti_pos := ti_pos it + 1\<rparr>]\<rparr>) bs (it\<lparr>ti_pos := ti_pos it + 1\<rparr>)"
  using assms drop_next by (auto simp: at_entries_def)

lemma at_entries_push:
  assumes "at_entries recursive seen skip (Suc d) base es w bs it"
  shows "at_entries recursive seen skip d name (tr_Entries t)
    (w\<lparr>tw_stack := tw_stack w @ [\<lparr>ti_t = t, ti_pos = 0\<rparr>], tw_base := name\<rparr>) (bs @ [it]) \<lparr>ti_t = t, ti_pos = 0\<rparr>"
  using assms by (auto simp: at_entries_def)

lemma walks_Nil: "walks vol s recursive seen skip d base []"
  unfolding walks_def
proof (intro allI impI)
  fix w bs it assume a: "at_entries recursive seen skip d base [] w bs it"
  then have "TreeWalker_all vol s w = TreeWalker_all vol s (w\<lparr>tw_stack := bs, tw_base := parent_base base\<rparr>)"
    using Next_pop [of w bs it vol s] by (intro all_cong_Next) (auto simp: at_entries_def)
  then show "TreeWalker_all vol s w =
      resume vol s (w\<lparr>tw_stack := bs, tw_base := parent_base base\<rparr>) (listing vol s recursive seen skip d base [])"
    by simp
qed

lemma TreeWalker_empty_depth:
  "length (tw_stack w) = maxTreeDepth + 2 \<Longrightarrow> TreeWalker_all vol s w = ([], ErrMaxTreeDepth)"
  by (rule all_stop [of _ _ _ _ w]) (auto simp: TreeWalker_Next.simps)

lemma walks_Cons:
  assumes es: "walks vol s recursive seen skip d base es"
    and below: "\<And>t. GetTree s (te_Hash e) = Inr t \<Longrightarrow> recursive \<Longrightarrow> d \<noteq> 0 \<Longrightarrow>
      walks vol s recursive seen skip (d - 1) (simpleJoin base (te_Name e)) (tr_Entries t)"
    and sf: "slash_free e"
  shows "walks vol s recursive seen skip d base (e # es)"
  unfolding walks_def
proof (intro allI impI)
  fix w bs it assume a: "at_entries recursive seen skip d base (e # es) w bs it"
  let ?name = "simpleJoin base (te_Name e)" and ?it = "it\<lparr>ti_pos := ti_pos it + 1\<rparr>"
  let ?v = "w\<lparr>tw_stack := bs @ [?it]\<rparr>" and ?w0 = "w\<lparr>tw_stack := bs, tw_base := parent_base base\<rparr>"
  let ?R = "listing vol s recursive seen skip d base es"
  have av: "at_entries recursive seen skip d base es ?v bs ?it" by (rule at_entries_advance [OF a])
  have v: "TreeWalker_all vol s ?v = resume vol s ?w0 ?R" using es av unfolding walks_def by fastforce
  have o: "tw_seen w = seen" "tw_skipPathValidation w = skip" "tw_recursive w = recursive" "tw_base w = base"
    using a by (auto simp: at_entries_def)
  have nr: "tw_stack w = bs @ [it]" "length bs \<le> maxTreeDepth" "drop (ti_pos it) (tr_Entries (ti_t it)) = e # es"
    using a by (auto simp: at_entries_def)
  have rd: "TreeWalker_Next vol s w =
     (if seen (te_Hash e) then TreeWalker_Next vol s ?v
     else case (if skip then None else ValidTreePath vol (te_Name e)) of
       Some err \<Rightarrow> (Inl (ErrInvalidPath err), ?v)
     | None \<Rightarrow>
         if te_Mode e = Dir then
           (case GetTree s (te_Hash e) of
              Inl _ \<Rightarrow> (Inl TreeEOF, ?v)
            | Inr obj \<Rightarrow> (Inr (?name, e),
                if \<not> recursive then ?v
                else ?v\<lparr>tw_stack := tw_stack ?v @ [\<lparr>ti_t = obj, ti_pos = 0\<rparr>], tw_base := ?name\<rparr>))
         else (Inr (?name, e), ?v))"
    unfolding Next_read [OF nr refl] o by (rule refl)
  have below': "TreeWalker_all vol s (?v\<lparr>tw_stack := tw_stack ?v @ [\<lparr>ti_t = t, ti_pos = 0\<rparr>], tw_base := ?name\<rparr>) =
      resume vol s ?w0 (listing_then (if d = 0 then ([], Some ErrMaxTreeDepth)
         else listing vol s recursive seen skip (d - 1) ?name (tr_Entries t)) ?R)"
    if "GetTree s (te_Hash e) = Inr t" recursive for t
  proof (cases d)
    case 0
    then show ?thesis using a by (auto simp: at_entries_def intro!: TreeWalker_empty_depth)
  next
    case (Suc d')
    let ?u = "?v\<lparr>tw_stack := tw_stack ?v @ [\<lparr>ti_t = t, ti_pos = 0\<rparr>], tw_base := ?name\<rparr>"
    have "walks vol s recursive seen skip d' ?name (tr_Entries t)" using below [OF that] Suc by simp
    then have "TreeWalker_all vol s ?u =
        resume vol s (?u\<lparr>tw_stack := bs @ [?it], tw_base := parent_base ?name\<rparr>)
          (listing vol s recursive seen skip d' ?name (tr_Entries t))"
      using at_entries_push [OF av [unfolded Suc], of ?name t] unfolding walks_def by blast
    moreover have "?u\<lparr>tw_stack := bs @ [?it], tw_base := parent_base ?name\<rparr> = ?v"
      using sf by (simp add: slash_free_def parent_base_simpleJoin flip: o(4))
    moreover obtain xs r where L: "listing vol s recursive seen skip d' ?name (tr_Entries t) = (xs, r)" by fastforce
    ultimately show ?thesis using Suc v by (cases r) (simp_all add: resume_append L)
  qed
  show "TreeWalker_all vol s w = resume vol s ?w0 (listing vol s recursive seen skip d base (e # es))"
  proof (cases "seen (te_Hash e)")
    case True
    then show ?thesis using v all_cong_Next [of vol s w ?v] rd by simp
  next
    case False
    show ?thesis
    proof (cases "if skip then None else ValidTreePath vol (te_Name e)")
      case (Some err)
      then show ?thesis using False all_stop [of vol s w] rd by simp
    next
      case None
      show ?thesis
      proof (cases "te_Mode e = Dir")
        case True
        show ?thesis
        proof (cases "GetTree s (te_Hash e)")
          case (Inl err)
          then show ?thesis using False None True all_stop [of vol s w] rd by simp
        next
          case (Inr t)
          let ?A = "if \<not> recursive then ([], None) else if d = 0 then ([], Some ErrMaxTreeDepth)
            else listing vol s recursive seen skip (d - 1) ?name (tr_Entries t)"
          let ?u = "if \<not> recursive then ?v else ?v\<lparr>tw_stack := tw_stack ?v @ [\<lparr>ti_t = t, ti_pos = 0\<rparr>], tw_base := ?name\<rparr>"
          have "TreeWalker_Next vol s w = (Inr (?name, e), ?u)" unfolding rd using False None True Inr by simp
          then have "TreeWalker_all vol s w = apfst ((#) (?name, e)) (TreeWalker_all vol s ?u)" by (rule all_step)
          also have "TreeWalker_all vol s ?u = resume vol s ?w0 (listing_then ?A ?R)"
            using v below' [OF Inr] by (cases recursive) simp_all
          also have "apfst ((#) (?name, e)) (resume vol s ?w0 (listing_then ?A ?R)) = resume vol s ?w0 (listing_then (apfst ((#) (?name, e)) ?A) ?R)"
            by (simp only: resume_Cons listing_then_Cons)
          also have "listing_then (apfst ((#) (?name, e)) ?A) ?R = listing vol s recursive seen skip d base (e # es)"
            using False None True Inr by (simp add: Let_def)
          finally show ?thesis .
        qed
      next
        case notdir: False
        then show ?thesis using False None all_step [of vol s w "(?name, e)" ?v] rd v by (simp add: resume_Cons Let_def)
      qed
    qed
  qed
qed

lemma walks_listing:
  assumes s: "slash_free_store s"
  shows "list_all slash_free es \<Longrightarrow> walks vol s recursive seen skip d base es"
proof (induction d arbitrary: base es rule: less_induct)
  case (less d)
  from less.prems show ?case
  proof (induction es)
    case (Cons e es)
    have "walks vol s recursive seen skip (d - 1) b (tr_Entries t)" if "GetTree s h = Inr t" "d \<noteq> 0" for t h b
      using that s by (intro less.IH) (auto simp: slash_free_store_def)
    then show ?case using Cons by (intro walks_Cons) auto
  qed (simp add: walks_Nil)
qed

lemma TreeWalker_all_listing:
  assumes "slash_free_store s" and "list_all slash_free (tr_Entries t)"
  shows "TreeWalker_all vol s ((NewTreeWalker t recursive seen)\<lparr>tw_skipPathValidation := skip\<rparr>) =
    (case listing vol s recursive seen skip maxTreeDepth [] (tr_Entries t) of
       (xs, None) \<Rightarrow> (xs, TreeEOF) | (xs, Some err) \<Rightarrow> (xs, err))"
proof -
  let ?w = "(NewTreeWalker t recursive seen)\<lparr>tw_skipPathValidation := skip\<rparr>"
  have "at_entries recursive seen skip maxTreeDepth [] (tr_Entries t) ?w [] \<lparr>ti_t = t, ti_pos = 0\<rparr>"
    by (simp add: at_entries_def NewTreeWalker_def)
  then have "TreeWalker_all vol s ?w =
      resume vol s (?w\<lparr>tw_stack := [], tw_base := parent_base []\<rparr>) (listing vol s recursive seen skip maxTreeDepth [] (tr_Entries t))"
    using walks_listing [OF assms] unfolding walks_def by blast
  moreover have "TreeWalker_all vol s (?w\<lparr>tw_stack := [], tw_base := parent_base []\<rparr>) = ([], TreeEOF)"
    by (rule all_stop) (simp add: TreeWalker_Next.simps)
  ultimately show ?thesis
    by (simp add: resume_def split: prod.split option.split)
qed

text \<open>
  \<^bold>\<open>C20\<close>. The walker lists a tree in pre-order: over objects whose subtrees can be read, the entries and
  paths that the calls of \<open>Next\<close> return, and the error that ends them, are those of the recursive listing,
  which goes into every directory right after its entry, at most \<open>maxTreeDepth\<close> levels deep, passes over
  the identifiers in \<open>seen\<close>, and stops at the first name that is not valid. The names in the trees must have
  no slash. Where a tree cannot be read the code parts from its comment, which says that it is skipped: see
  \<open>TreeWalker_missing_subtree\<close>.
\<close>

theorem TreeWalker_lists_preorder:
  assumes "slash_free_store s" and "list_all slash_free (tr_Entries t)"
    and "readable_store s seen" and "subtrees_readable s seen (tr_Entries t)"
  shows "TreeWalker_all vol s (NewTreeWalker t recursive seen) =
    (case preorder vol s recursive seen maxTreeDepth [] (tr_Entries t) of
       (xs, None) \<Rightarrow> (xs, TreeEOF) | (xs, Some err) \<Rightarrow> (xs, err))"
  using TreeWalker_all_listing [OF assms(1,2), of vol False recursive seen]
  by (simp add: NewTreeWalker_def preorder_listing [OF assms(3,4)])

text \<open>
  \<^bold>\<open>C26\<close>. Every walk comes to its end, whatever the objects are, trees that contain themselves
  included: there is no infinite sequence of calls of \<open>Next\<close> that all return an entry.
\<close>

theorem TreeWalker_ends:
  "\<not> (\<exists>f. f 0 = w \<and> (\<forall>i. \<exists>x. TreeWalker_Next vol s (f i) = (Inr x, f (Suc i))))"
proof
  assume "\<exists>f. f 0 = w \<and> (\<forall>i. \<exists>x. TreeWalker_Next vol s (f i) = (Inr x, f (Suc i)))"
  then obtain f where "\<forall>i. (f (Suc i), f i) \<in> walk_order" using TreeWalker_Next_decreases by blast
  then show False using wf_walk_order unfolding wf_iff_no_infinite_down_chain by blast
qed

text \<open>
  A directory whose tree is not in the store ends the walk as if the tree were at its end: what follows
  the entry is lost without an error.
\<close>

lemma TreeWalker_missing_subtree:
  assumes "slash_free_store s" and "list_all slash_free (tr_Entries t)" and "tr_Entries t = e # es"
    and "te_Mode e = Dir" and "ValidTreePath vol (te_Name e) = None" and "GetTree s (te_Hash e) = Inl ErrObjectNotFound"
  shows "TreeWalker_all vol s (NewTreeWalker t recursive (\<lambda>_. False)) = ([], TreeEOF)"
  using TreeWalker_all_listing [OF assms(1,2), of vol False recursive "\<lambda>_. False"] assms(3-6) by (simp add: NewTreeWalker_def)

lemma TreeWalker_lists_preorder_witness:
  "slash_free_store (\<lambda>_. Inr []) \<and> readable_store (\<lambda>_. Inr []) (\<lambda>_. False) \<and>
   TreeWalker_all (\<lambda>_. []) (\<lambda>_. Inr []) (NewTreeWalker
     \<lparr>tr_Entries = [\<lparr>te_Name = [0x61], te_Mode = Dir, te_Hash = ZeroHash\<rparr>, \<lparr>te_Name = [0x62], te_Mode = Regular, te_Hash = ZeroHash\<rparr>],
      tr_Hash = ZeroHash, tr_entriesSorted = True\<rparr> True (\<lambda>_. False)) =
   ([([0x61], \<lparr>te_Name = [0x61], te_Mode = Dir, te_Hash = ZeroHash\<rparr>), ([0x62], \<lparr>te_Name = [0x62], te_Mode = Regular, te_Hash = ZeroHash\<rparr>)], TreeEOF)"
proof -
  let ?t = "\<lparr>tr_Entries = [\<lparr>te_Name = [0x61], te_Mode = Dir, te_Hash = ZeroHash\<rparr>, \<lparr>te_Name = [0x62], te_Mode = Regular, te_Hash = ZeroHash\<rparr>],
      tr_Hash = ZeroHash, tr_entriesSorted = True\<rparr>"
  have s: "slash_free_store (\<lambda>_. Inr [])" by (auto simp: slash_free_store_def GetTree_def Tree_Decode_def Let_def)
  have r: "readable_store (\<lambda>_. Inr []) (\<lambda>_. False)"
    by (auto simp: readable_store_def subtrees_readable_def GetTree_def Tree_Decode_def Let_def)
  have "ValidTreePath (\<lambda>_. []) [0x61] = None" "ValidTreePath (\<lambda>_. []) [0x62] = None" by code_simp+
  then show ?thesis
    using TreeWalker_lists_preorder [OF s _ r, of ?t "\<lambda>_. []" True] s r
    by (simp add: slash_free_def subtrees_readable_def GetTree_def Tree_Decode_def Let_def simpleJoin_def maxTreeDepth_def mode_defs)
qed

subsection \<open>Files\<close>

record Blob =
  bl_Hash :: ObjectID
  bl_Size :: nat
  bl_content :: bytes

record File =
  fl_Name :: bytes
  fl_Mode :: FileMode
  fl_Blob :: Blob

type_synonym blob_store = "ObjectID \<Rightarrow> tree_error + bytes"

definition Blob_Decode :: "bool \<Rightarrow> ObjectID \<Rightarrow> bytes \<Rightarrow> tree_error + Blob" where
  "Blob_Decode isBlob h content =
     (if \<not> isBlob then Inl ErrUnsupportedObject
      else Inr \<lparr>bl_Hash = h, bl_Size = length content, bl_content = content\<rparr>)"

definition GetBlob :: "blob_store \<Rightarrow> ObjectID \<Rightarrow> tree_error + Blob" where
  "GetBlob s h = rbind (s h) (Blob_Decode True h)"

definition NewFile :: "bytes \<Rightarrow> FileMode \<Rightarrow> Blob \<Rightarrow> File" where
  "NewFile name m b = \<lparr>fl_Name = name, fl_Mode = m, fl_Blob = b\<rparr>"

definition File_Contents :: "File \<Rightarrow> bytes" where
  "File_Contents f = bl_content (fl_Blob f)"

definition File_Lines :: "File \<Rightarrow> bytes list" where
  "File_Lines f =
     (let splits = split 0x0A (File_Contents f) in
      if last splits = [] then butlast splits else splits)"

definition Tree_File ::
  "(bytes \<Rightarrow> bytes) \<Rightarrow> tree_store \<Rightarrow> blob_store \<Rightarrow> Tree \<Rightarrow> bytes \<Rightarrow> tree_cache \<Rightarrow> (tree_error + File) \<times> tree_cache" where
  "Tree_File VolumeName s bs t path c =
     (case FindEntry VolumeName s t path c of
        (Inl _, c) \<Rightarrow> (Inl ErrFileNotFound, c)
      | (Inr e, c) \<Rightarrow>
          ((case GetBlob bs (te_Hash e) of
              Inl err \<Rightarrow> if err = ErrObjectNotFound then Inl ErrFileNotFound else Inl err
            | Inr blob \<Rightarrow> Inr (NewFile path (te_Mode e) blob)), c))"

definition Tree_Size ::
  "(bytes \<Rightarrow> bytes) \<Rightarrow> tree_store \<Rightarrow> (ObjectID \<Rightarrow> tree_error + nat) \<Rightarrow> Tree \<Rightarrow> bytes \<Rightarrow> tree_cache \<Rightarrow> (tree_error + nat) \<times> tree_cache" where
  "Tree_Size VolumeName s EncodedObjectSize t path c =
     (case FindEntry VolumeName s t path c of
        (Inl _, c) \<Rightarrow> (Inl ErrEntryNotFound, c)
      | (Inr e, c) \<Rightarrow> (EncodedObjectSize (te_Hash e), c))"

definition TreeEntryFile :: "(bytes \<Rightarrow> bytes) \<Rightarrow> blob_store \<Rightarrow> TreeEntry \<Rightarrow> tree_error + File" where
  "TreeEntryFile VolumeName bs e =
     (case ValidTreePath VolumeName (te_Name e) of
        Some err \<Rightarrow> Inl (ErrInvalidPath err)
      | None \<Rightarrow> rbind (GetBlob bs (te_Hash e)) (\<lambda>blob. Inr (NewFile (te_Name e) (te_Mode e) blob)))"

text \<open>The iterator over the files: a walker; directories and submodules are passed over.\<close>

definition NewFileIter :: "Tree \<Rightarrow> TreeWalker" where
  "NewFileIter t = NewTreeWalker t True (\<lambda>_. False)"

function FileIter_Next ::
  "(bytes \<Rightarrow> bytes) \<Rightarrow> tree_store \<Rightarrow> blob_store \<Rightarrow> TreeWalker \<Rightarrow> (tree_error + File) \<times> TreeWalker" where
  "FileIter_Next VolumeName s bs w =
     (case TreeWalker_Next VolumeName s w of
        (Inl err, w') \<Rightarrow> (Inl err, w')
      | (Inr (name, entry), w') \<Rightarrow>
          if te_Mode entry = Dir \<or> te_Mode entry = Submodule then FileIter_Next VolumeName s bs w'
          else (rbind (GetBlob bs (te_Hash entry)) (\<lambda>blob. Inr (NewFile name (te_Mode entry) blob)), w'))"
  by pat_completeness auto
termination
  by (relation "inv_image walk_order (\<lambda>(vol, s, bs, w). w)") (auto dest: TreeWalker_Next_decreases [OF sym])

declare FileIter_Next.simps [simp del]

lemma FileIter_Next_decreases: "FileIter_Next vol s bs w = (Inr f, w') \<Longrightarrow> (w', w) \<in> walk_order"
proof (induction vol s bs w rule: FileIter_Next.induct)
  case (1 vol s bs w)
  obtain r v where n: "TreeWalker_Next vol s w = (r, v)" by fastforce
  with 1(2) obtain name e where r: "r = Inr (name, e)" by (auto simp: FileIter_Next.simps split: sum.splits)
  have v: "(v, w) \<in> walk_order" using TreeWalker_Next_decreases n r by blast
  show ?case
  proof (cases "te_Mode e = Dir \<or> te_Mode e = Submodule")
    case True
    then have "FileIter_Next vol s bs v = (Inr f, w')" using 1(2) n r by (simp add: FileIter_Next.simps [of vol s bs w])
    then have "(w', v) \<in> walk_order" using 1(1) [OF n [symmetric] r refl True] by simp
    then show ?thesis using v trans_walk_order by (meson transD)
  next
    case False
    then have "w' = v" using 1(2) n r by (simp add: FileIter_Next.simps [of vol s bs w])
    then show ?thesis using v by simp
  qed
qed

text \<open>
  \<open>FileIter.ForEach\<close>: the callback has a state of its own and may ask to stop, which is no error. The
  iterator is closed on every way out.
\<close>

datatype 'e cb_result = CbOk | ErrStop | CbErr 'e

function FileIter_ForEach ::
  "(bytes \<Rightarrow> bytes) \<Rightarrow> tree_store \<Rightarrow> blob_store \<Rightarrow> (File \<Rightarrow> 'st \<Rightarrow> 'st \<times> tree_error cb_result) \<Rightarrow> TreeWalker \<Rightarrow> 'st \<Rightarrow>
     (tree_error + unit) \<times> 'st" where
  "FileIter_ForEach VolumeName s bs cb w st =
     (case FileIter_Next VolumeName s bs w of
        (Inl err, w') \<Rightarrow> (if err = TreeEOF then Inr () else Inl err, st)
      | (Inr f, w') \<Rightarrow>
          (case cb f st of
             (st', CbOk) \<Rightarrow> FileIter_ForEach VolumeName s bs cb w' st'
           | (st', ErrStop) \<Rightarrow> (Inr (), st')
           | (st', CbErr err) \<Rightarrow> (Inl err, st')))"
  by pat_completeness auto
termination
  by (relation "inv_image walk_order (\<lambda>(vol, s, bs, cb, w, st). w)") (auto dest: FileIter_Next_decreases [OF sym])

declare FileIter_ForEach.simps [simp del]

definition is_file :: "bytes \<times> TreeEntry \<Rightarrow> bool" where
  "is_file x \<longleftrightarrow> te_Mode (snd x) \<noteq> Dir \<and> te_Mode (snd x) \<noteq> Submodule"

definition file_at :: "(ObjectID \<Rightarrow> bytes) \<Rightarrow> bytes \<times> TreeEntry \<Rightarrow> File" where
  "file_at content x = NewFile (fst x) (te_Mode (snd x))
     \<lparr>bl_Hash = te_Hash (snd x), bl_Size = length (content (te_Hash (snd x))), bl_content = content (te_Hash (snd x))\<rparr>"

lemma FileIter_Next_all:
  "FileIter_Next vol s (\<lambda>h. Inr (content h)) w = (r, w') \<Longrightarrow>
     (case r of Inl err \<Rightarrow> filter is_file (fst (TreeWalker_all vol s w)) = [] \<and> snd (TreeWalker_all vol s w) = err
      | Inr f \<Rightarrow> \<exists>x. f = file_at content x \<and>
          filter is_file (fst (TreeWalker_all vol s w)) = x # filter is_file (fst (TreeWalker_all vol s w')) \<and>
          snd (TreeWalker_all vol s w) = snd (TreeWalker_all vol s w'))"
proof (induction vol s "\<lambda>h. Inr (content h) :: tree_error + bytes" w rule: FileIter_Next.induct)
  case (1 vol s w)
  obtain q v where n: "TreeWalker_Next vol s w = (q, v)" by fastforce
  show ?case
  proof (cases q)
    case (Inl err)
    then show ?thesis using 1(2) n all_stop by (auto simp: FileIter_Next.simps)
  next
    case (Inr x)
    obtain name e where x: "x = (name, e)" by (cases x)
    have a: "TreeWalker_all vol s w = apfst ((#) x) (TreeWalker_all vol s v)" using all_step n Inr by blast
    show ?thesis
    proof (cases "te_Mode e = Dir \<or> te_Mode e = Submodule")
      case True
      then have "FileIter_Next vol s (\<lambda>h. Inr (content h)) v = (r, w')"
        using 1(2) n Inr x by (simp add: FileIter_Next.simps [of vol s _ w])
      from 1(1) [OF n [symmetric] Inr x [symmetric] True this] True show ?thesis by (cases r) (auto simp: a x is_file_def)
    next
      case False
      then have "r = Inr (file_at content x)" "w' = v"
        using 1(2) n Inr x by (auto simp: FileIter_Next.simps [of vol s _ w] GetBlob_def Blob_Decode_def file_at_def)
      then show ?thesis using False by (simp add: a x is_file_def)
    qed
  qed
qed

text \<open>
  \<open>ForEach\<close> over the files of a tree whose blobs can all be read calls the callback on exactly
  the entries of the walk that are neither directories nor submodules, in the order of the walk, with their
  paths, modes and contents, as long as it asks to go on; it returns no error if the walk ends with
  \<open>io.EOF\<close>, and the walk's error otherwise.
\<close>

theorem FileIter_ForEach_visits:
  fixes cb :: "File \<Rightarrow> 'st \<Rightarrow> 'st"
  shows "FileIter_ForEach vol s (\<lambda>h. Inr (content h)) (\<lambda>f st. (cb f st, CbOk)) w st =
    ((if snd (TreeWalker_all vol s w) = TreeEOF then Inr () else Inl (snd (TreeWalker_all vol s w))),
     fold (\<lambda>x. cb (file_at content x)) (filter is_file (fst (TreeWalker_all vol s w))) st)"
proof (induction vol s "\<lambda>h. Inr (content h) :: tree_error + bytes" "\<lambda>f st. (cb f st, CbOk :: tree_error cb_result)" w st
    rule: FileIter_ForEach.induct)
  case (1 vol s w st)
  obtain r v where n: "FileIter_Next vol s (\<lambda>h. Inr (content h)) w = (r, v)" by fastforce
  show ?case
  proof (cases r)
    case (Inl err)
    then show ?thesis using FileIter_Next_all [OF n] n by (simp add: FileIter_ForEach.simps)
  next
    case (Inr f)
    then obtain x where x: "f = file_at content x" "snd (TreeWalker_all vol s w) = snd (TreeWalker_all vol s v)"
      "filter is_file (fst (TreeWalker_all vol s w)) = x # filter is_file (fst (TreeWalker_all vol s v))"
      using FileIter_Next_all [OF n] by auto
    have "FileIter_ForEach vol s (\<lambda>h. Inr (content h)) (\<lambda>f st. (cb f st, CbOk)) w st =
        FileIter_ForEach vol s (\<lambda>h. Inr (content h)) (\<lambda>f st. (cb f st, CbOk)) v (cb f st)"
      using n Inr by (subst FileIter_ForEach.simps) simp
    then show ?thesis using 1 [OF n [symmetric] Inr] x by simp
  qed
qed

end
