(* ===== verification/Merkletrie.thy ===== *)
theory Merkletrie
  imports Go_Prelude "HOL-Library.List_Lexorder" "HOL-Library.Multiset"
begin

text \<open>
  Merkle tries and the iterator over them: \<open>utils/merkletrie/noder\<close>, \<open>internal/frame/frame.go\<close>,
  \<open>iter.go\<close> and \<open>change.go\<close>.

  \<^item> A \<open>Noder\<close> is a finite tree: name, hash, kind, skip mark and children. \<open>Children()\<close> may fail;
    \<open>NumChildren()\<close> is the length of what \<open>Children()\<close> returns, as the interface documents. A frame
    reorders and clears the slice that \<open>Children()\<close> returned; every noder of a walk is asked for its
    children once, so the walk does not see this and the tree is immutable here.
  \<^item> The iterator is a stack of frames of sorted siblings. \<open>pending\<close> is the list of subtrees it has
    still to go through, the current one first; \<open>Next\<close> and \<open>Step\<close> are the two ways to take its head
    off, which the locale \<open>trie_walk\<close> states and the code's iterator satisfies.
  \<^item> \<open>addRecursive\<close> collects the files below a path, in the order of the walk.
\<close>

subsection \<open>Noders and paths\<close>

datatype trie_error =
    EOF
  | ChildrenErr string
  | FromErr trie_error
  | ToErr trie_error
  | ErrCanceled
  | ErrEmptyFileName
  | BadStatus
  | BothEmptyDirs
  | FramePanic nat

datatype noder =
  Noder (n_Name: bytes) (n_Hash: bytes) (n_IsDir: bool) (n_Skip: bool) (n_err: "string option")
    (n_kids: "noder list")

definition Children :: "noder \<Rightarrow> trie_error + noder list" where
  "Children n = (case n_err n of Some e \<Rightarrow> Inl (ChildrenErr e) | None \<Rightarrow> Inr (n_kids n))"

definition NumChildren :: "noder \<Rightarrow> trie_error + nat" where
  "NumChildren n = rbind (Children n) (\<lambda>c. Inr (length c))"

type_synonym Path = "noder list"

text \<open>
  The noder methods of a path are those of its final noder. An empty path is not valid: \<open>Last\<close> would
  index out of range; every path below comes from the iterator and has at least one noder.
\<close>

definition path_Last :: "Path \<Rightarrow> noder" where "path_Last p = last p"

definition path_Skip :: "Path \<Rightarrow> bool" where
  "path_Skip p = (if 0 < length p then n_Skip (path_Last p) else False)"

fun path_String :: "Path \<Rightarrow> bytes" where
  "path_String [] = []"
| "path_String [e] = n_Name e"
| "path_String (e # f # p) = n_Name e @ [0x2F] @ path_String (f # p)"

definition path_Hash :: "Path \<Rightarrow> bytes" where "path_Hash p = n_Hash (path_Last p)"
definition path_Name :: "Path \<Rightarrow> bytes" where "path_Name p = n_Name (path_Last p)"
definition path_IsDir :: "Path \<Rightarrow> bool" where "path_IsDir p = n_IsDir (path_Last p)"
definition path_Children :: "Path \<Rightarrow> trie_error + noder list" where
  "path_Children p = Children (path_Last p)"
definition path_NumChildren :: "Path \<Rightarrow> trie_error + nat" where
  "path_NumChildren p = NumChildren (path_Last p)"

definition strings_Compare :: "bytes \<Rightarrow> bytes \<Rightarrow> int" where
  "strings_Compare a b = (if a < b then - 1 else if a = b then 0 else 1)"

fun path_Compare :: "Path \<Rightarrow> Path \<Rightarrow> int" where
  "path_Compare [] [] = 0"
| "path_Compare (x # p) [] = 1"
| "path_Compare [] (y # q) = - 1"
| "path_Compare (x # p) (y # q) =
     (let cmp = strings_Compare (n_Name x) (n_Name y) in if cmp \<noteq> 0 then cmp else path_Compare p q)"

subsection \<open>Frames\<close>

text \<open>
  \<open>sort.Sort(sort.Reverse(byName(children)))\<close>: the stack has the smallest name at its end. Go's sort
  is not stable; for siblings of different names, as tries have them, the result is unique.
\<close>

record Frame =
  fr_stack :: "noder list"

definition frame_New :: "noder \<Rightarrow> trie_error + Frame" where
  "frame_New n = rbind (Children n) (\<lambda>children. Inr \<lparr>fr_stack = rev (sort_key n_Name children)\<rparr>)"

definition frame_Len :: "Frame \<Rightarrow> nat" where "frame_Len f = length (fr_stack f)"

definition frame_First :: "Frame \<Rightarrow> noder option" where
  "frame_First f = (if frame_Len f = 0 then None else Some (last (fr_stack f)))"

definition frame_Drop :: "Frame \<Rightarrow> Frame" where
  "frame_Drop f = (if frame_Len f = 0 then f else f\<lparr>fr_stack := butlast (fr_stack f)\<rparr>)"

subsection \<open>The iterator\<close>

record Iter =
  it_hasStarted :: bool
  it_frameStack :: "Frame list"
  it_base :: Path

definition newIter :: "noder option \<Rightarrow> Path \<Rightarrow> trie_error + Iter" where
  "newIter root base =
     (let ret = \<lparr>it_hasStarted = False, it_frameStack = [], it_base = base\<rparr> in
      case root of
        None \<Rightarrow> Inr ret
      | Some n \<Rightarrow> rbind (frame_New n) (\<lambda>frame. Inr (ret\<lparr>it_frameStack := it_frameStack ret @ [frame]\<rparr>)))"

definition NewIter :: "noder option \<Rightarrow> trie_error + Iter" where
  "NewIter n = newIter n []"

definition NewIterFromPath :: "Path \<Rightarrow> trie_error + Iter" where
  "NewIterFromPath p = newIter (Some (path_Last p)) p"

definition iter_top :: "Iter \<Rightarrow> Frame option" where
  "iter_top it = (if length (it_frameStack it) = 0 then None else Some (last (it_frameStack it)))"

definition iter_push :: "Frame \<Rightarrow> Iter \<Rightarrow> Iter" where
  "iter_push f it = it\<lparr>it_frameStack := it_frameStack it @ [f]\<rparr>"

fun frame_firsts :: "nat \<Rightarrow> Frame list \<Rightarrow> trie_error + Path" where
  "frame_firsts i [] = Inr []"
| "frame_firsts i (f # fs) =
     (case frame_First f of
        None \<Rightarrow> Inl (FramePanic i)
      | Some t \<Rightarrow> rbind (frame_firsts (Suc i) fs) (\<lambda>ts. Inr (t # ts)))"

definition iter_current :: "Iter \<Rightarrow> trie_error + Path" where
  "iter_current it =
     (case iter_top it of
        None \<Rightarrow> Inl EOF
      | Some topFrame \<Rightarrow>
          if frame_First topFrame = None then Inl EOF
          else rbind (frame_firsts 0 (it_frameStack it)) (\<lambda>ts. Inr (it_base it @ ts)))"

function iter_drop :: "Iter \<Rightarrow> Iter" where
  "iter_drop it =
     (if it_frameStack it = [] then it
      else
        let frame = frame_Drop (last (it_frameStack it)) in
        if frame_Len frame = 0 then iter_drop (it\<lparr>it_frameStack := butlast (it_frameStack it)\<rparr>)
        else it\<lparr>it_frameStack := butlast (it_frameStack it) @ [frame]\<rparr>)"
  by pat_completeness auto
termination
  by (relation "measure (\<lambda>it. length (it_frameStack it))") auto

declare iter_drop.simps [simp del]

definition advance :: "bool \<Rightarrow> Iter \<Rightarrow> (trie_error + Path) \<times> Iter" where
  "advance wantDescend it =
     (case iter_current it of
        Inl e \<Rightarrow> (Inl e, it)
      | Inr current \<Rightarrow>
          if \<not> it_hasStarted it then (Inr current, it\<lparr>it_hasStarted := True\<rparr>)
          else (case path_NumChildren current of
            Inl e \<Rightarrow> (Inl e, it)
          | Inr numChildren \<Rightarrow>
              if numChildren \<noteq> 0 \<and> wantDescend then
                (case frame_New (path_Last current) of
                   Inl e \<Rightarrow> (Inl e, it)
                 | Inr frame \<Rightarrow> let it' = iter_push frame it in (iter_current it', it'))
              else let it' = iter_drop it in (iter_current it', it')))"

definition Next :: "Iter \<Rightarrow> (trie_error + Path) \<times> Iter" where "Next it = advance False it"
definition Step :: "Iter \<Rightarrow> (trie_error + Path) \<times> Iter" where "Step it = advance True it"

subsection \<open>Every advance makes progress\<close>

primrec weight :: "noder \<Rightarrow> nat" where
  "weight (Noder _ _ _ _ _ kids) = Suc (sum_list (map weight kids))"

definition forest_weight :: "noder list \<Rightarrow> nat" where
  "forest_weight ns = sum_list (map weight ns)"

definition below_weight :: "Frame list \<Rightarrow> nat" where
  "below_weight fs = (\<Sum>f\<leftarrow>fs. forest_weight (butlast (fr_stack f)))"

text \<open>The current path is on top: of the frames below the top one, the last noder is under way.\<close>

definition iter_weight :: "Iter \<Rightarrow> nat" where
  "iter_weight it =
     (if it_frameStack it = [] then 0
      else below_weight (butlast (it_frameStack it)) + forest_weight (fr_stack (last (it_frameStack it)))) +
     (if it_hasStarted it then 0 else 1)"

lemma forest_weight_simps [simp]:
  "forest_weight [] = 0" "forest_weight (n # ns) = weight n + forest_weight ns"
  "forest_weight (ns @ ms) = forest_weight ns + forest_weight ms"
  "forest_weight (rev ns) = forest_weight ns"
  by (simp_all add: forest_weight_def rev_map [symmetric])

lemma forest_weight_sort [simp]: "forest_weight (sort_key f ns) = forest_weight ns"
  unfolding forest_weight_def by (metis mset_map mset_sort sum_mset_sum_list)

lemma forest_weight_butlast: "ns \<noteq> [] \<Longrightarrow> forest_weight ns = forest_weight (butlast ns) + weight (last ns)"
  by (metis append_butlast_last_id forest_weight_simps add_0_right)

lemma weight_eq: "weight n = Suc (forest_weight (n_kids n))"
  by (cases n) (simp add: forest_weight_def)

lemma below_weight_simps [simp]:
  "below_weight [] = 0" "below_weight (fs @ [f]) = below_weight fs + forest_weight (butlast (fr_stack f))"
  by (simp_all add: below_weight_def)

lemma iter_drop_frames:
  "iter_drop (it\<lparr>it_frameStack := fs @ [f]\<rparr>) =
     (if length (fr_stack f) \<le> 1 then iter_drop (it\<lparr>it_frameStack := fs\<rparr>)
      else it\<lparr>it_frameStack := fs @ [f\<lparr>fr_stack := butlast (fr_stack f)\<rparr>]\<rparr>)"
  by (subst iter_drop.simps) (auto simp: frame_Drop_def frame_Len_def Let_def butlast_conv_take)

lemma iter_drop_Nil: "it_frameStack it = [] \<Longrightarrow> iter_drop it = it"
  by (subst iter_drop.simps) simp

lemma iter_drop_frame [simp]:
  "it_hasStarted (iter_drop it) = it_hasStarted it" "it_base (iter_drop it) = it_base it"
  by (induction it rule: iter_drop.induct; subst iter_drop.simps; simp add: Let_def)+

lemma iter_weight_drop_frames:
  "iter_weight (iter_drop (it\<lparr>it_frameStack := fs\<rparr>)) \<le> below_weight fs + (if it_hasStarted it then 0 else 1)"
proof (induction fs rule: rev_induct)
  case Nil
  then show ?case by (simp add: iter_drop_Nil iter_weight_def)
next
  case (snoc f fs)
  then show ?case by (simp add: iter_drop_frames) (simp add: iter_weight_def)
qed

lemma iter_weight_drop: "iter_weight (iter_drop it) \<le> below_weight (it_frameStack it) + (if it_hasStarted it then 0 else 1)"
  using iter_weight_drop_frames [of "it_frameStack it" it] by simp

lemma iter_current_Inr:
  assumes "iter_current it = Inr p"
  obtains fs f where "it_frameStack it = fs @ [f]" "fr_stack f \<noteq> []" "path_Last p = last (fr_stack f)"
proof -
  from assms have ne: "it_frameStack it \<noteq> []" and "frame_First (last (it_frameStack it)) \<noteq> None"
    by (auto simp: iter_current_def iter_top_def split: if_splits)
  moreover define fs f where "fs = butlast (it_frameStack it)" and "f = last (it_frameStack it)"
  ultimately have it: "it_frameStack it = fs @ [f]" and f: "fr_stack f \<noteq> []"
    by (auto simp: frame_First_def frame_Len_def)
  from assms it obtain ts where ts: "frame_firsts 0 (fs @ [f]) = Inr ts" "p = it_base it @ ts"
    by (auto simp: iter_current_def iter_top_def result_simps split: if_splits)
  have "frame_firsts i (fs @ [f]) = Inr ts \<Longrightarrow> ts \<noteq> [] \<and> last ts = last (fr_stack f)" for i ts
    by (induction fs arbitrary: i ts)
      (auto simp: result_simps frame_First_def frame_Len_def split: option.splits if_splits)
  from this [OF ts(1)] that [OF it f] ts(2) show ?thesis by (simp add: path_Last_def)
qed

lemma advance_progress:
  assumes "advance w it = (r, it')"
  shows "iter_weight it' \<le> iter_weight it"
    and "r = Inr p \<Longrightarrow> iter_weight it' < iter_weight it"
proof -
  have "iter_weight it' < iter_weight it \<or> it' = it \<and> (\<exists>e. r = Inl e)"
  proof (cases "iter_current it")
    case (Inr cur)
    then obtain fs f where it: "it_frameStack it = fs @ [f]" and f: "fr_stack f \<noteq> []"
        "path_Last cur = last (fr_stack f)"
      by (rule iter_current_Inr)
    have w: "forest_weight (fr_stack f) = forest_weight (butlast (fr_stack f)) + weight (last (fr_stack f))"
      by (rule forest_weight_butlast [OF f(1)])
    show ?thesis
    proof (cases "it_hasStarted it")
      case False
      then show ?thesis using assms Inr by (auto simp: advance_def iter_weight_def)
    next
      case True
      have "iter_weight (iter_drop it) < iter_weight it"
        using iter_weight_drop [of it] True it w by (simp add: iter_weight_def weight_eq)
      moreover have "frame_New (path_Last cur) = Inr g \<Longrightarrow> iter_weight (iter_push g it) < iter_weight it" for g
        using True it w f(2)
        by (auto simp: frame_New_def Children_def result_simps iter_push_def iter_weight_def weight_eq butlast_append split: option.splits)
      ultimately show ?thesis using assms Inr True
        by (auto simp: advance_def Let_def split: sum.splits if_splits)
    qed
  qed (use assms in \<open>auto simp: advance_def; metis\<close>)
  then show "iter_weight it' \<le> iter_weight it" "r = Inr p \<Longrightarrow> iter_weight it' < iter_weight it" by auto
qed

subsection \<open>Changes\<close>

record Change =
  ch_From :: "Path option"
  ch_To :: "Path option"

datatype Action = Insert | Delete | Modify

definition ch_Action :: "Change \<Rightarrow> string + Action" where
  "ch_Action c =
     (if ch_From c = None \<and> ch_To c = None then Inl ''malformed change: nil from and to''
      else if ch_From c = None then Inr Insert
      else if ch_To c = None then Inr Delete
      else Inr Modify)"

definition NewInsert :: "Path \<Rightarrow> Change" where "NewInsert n = \<lparr>ch_From = None, ch_To = Some n\<rparr>"
definition NewDelete :: "Path \<Rightarrow> Change" where "NewDelete n = \<lparr>ch_From = Some n, ch_To = None\<rparr>"
definition NewModify :: "Path \<Rightarrow> Path \<Rightarrow> Change" where
  "NewModify a b = \<lparr>ch_From = Some a, ch_To = Some b\<rparr>"

text \<open>The loop of \<open>addRecursive\<close> over the iterator.\<close>

function addRecursive_loop :: "(Path \<Rightarrow> Change) \<Rightarrow> Iter \<Rightarrow> Change list \<Rightarrow> trie_error + Change list" where
  "addRecursive_loop ctor i l =
     (case Step i of
        (Inl err, i') \<Rightarrow> if err = EOF then Inr l else Inl err
      | (Inr current, i') \<Rightarrow>
          if path_IsDir current \<or> path_Skip current then addRecursive_loop ctor i' l
          else addRecursive_loop ctor i' (l @ [ctor current]))"
  by pat_completeness auto
termination
  by (relation "measure (\<lambda>(ctor, i, l). iter_weight i)")
    (auto simp: Step_def dest!: sym [where t = "advance _ _"] intro: advance_progress(2))

declare addRecursive_loop.simps [simp del]

definition addRecursive :: "Path \<Rightarrow> (Path \<Rightarrow> Change) \<Rightarrow> Change list \<Rightarrow> trie_error + Change list" where
  "addRecursive root ctor l =
     (if path_String root = [] then Inl ErrEmptyFileName
      else if \<not> path_IsDir root then
        (if \<not> path_Skip root then Inr (l @ [ctor root]) else Inr l)
      else rbind (NewIterFromPath root) (\<lambda>i. addRecursive_loop ctor i l))"

definition AddRecursiveInsert :: "Path \<Rightarrow> Change list \<Rightarrow> trie_error + Change list" where
  "AddRecursiveInsert root l = addRecursive root NewInsert l"

definition AddRecursiveDelete :: "Path \<Rightarrow> Change list \<Rightarrow> trie_error + Change list" where
  "AddRecursiveDelete root l = addRecursive root NewDelete l"

subsection \<open>What an iterator has still to go through\<close>

definition siblings :: "Path \<Rightarrow> noder list \<Rightarrow> Path list" where
  "siblings p ns = map (\<lambda>n. p @ [n]) ns"

text \<open>The paths to the children of the final noder, in the order of the walk.\<close>

definition kid_paths :: "Path \<Rightarrow> Path list" where
  "kid_paths p = siblings p (sort_key n_Name (n_kids (path_Last p)))"

fun pending_frames :: "Path \<Rightarrow> Frame list \<Rightarrow> Path list" where
  "pending_frames p [] = []"
| "pending_frames p [f] = siblings p (rev (fr_stack f))"
| "pending_frames p (f # g # fs) =
     pending_frames (p @ [last (fr_stack f)]) (g # fs) @ siblings p (rev (butlast (fr_stack f)))"

definition pending :: "Iter \<Rightarrow> Path list" where
  "pending it = pending_frames (it_base it) (it_frameStack it)"

text \<open>Only the frame of a root without children is empty.\<close>

definition iter_ok :: "Iter \<Rightarrow> bool" where
  "iter_ok it \<longleftrightarrow> list_all (\<lambda>f. fr_stack f \<noteq> []) (it_frameStack it) \<or> (\<exists>f. it_frameStack it = [f])"

text \<open>What the next call will have pending, and whose head it returns.\<close>

definition upcoming :: "bool \<Rightarrow> Iter \<Rightarrow> Path list" where
  "upcoming wantDescend it =
     (if \<not> it_hasStarted it then pending it
      else case pending it of [] \<Rightarrow> [] | p # ps \<Rightarrow> (if wantDescend then kid_paths p else []) @ ps)"

definition readable_path :: "Path \<Rightarrow> bool" where
  "readable_path p \<longleftrightarrow> n_err (path_Last p) = None"

lemma siblings_simps [simp]:
  "siblings p [] = []" "siblings p (n # ns) = (p @ [n]) # siblings p ns"
  "siblings p (ns @ ms) = siblings p ns @ siblings p ms" "siblings p ns = [] \<longleftrightarrow> ns = []"
  by (simp_all add: siblings_def)

lemma rev_split_last: "xs \<noteq> [] \<Longrightarrow> rev xs = last xs # rev (butlast xs)"
  by (metis append_butlast_last_id rev_eq_Cons_iff rev_rev_ident)

lemma pending_frames_snoc:
  assumes "list_all (\<lambda>f. fr_stack f \<noteq> []) fs"
  shows "\<exists>ts ps. (\<forall>i. frame_firsts i fs = Inr ts) \<and>
     (\<forall>g. fr_stack g \<noteq> [] \<longrightarrow>  (\<forall>i. frame_firsts i (fs @ [g]) = Inr (ts @ [last (fr_stack g)]))) \<and>
     (\<forall>g. pending_frames p (fs @ [g]) = siblings (p @ ts) (rev (fr_stack g)) @ ps) \<and>
     (fs \<noteq> [] \<longrightarrow> pending_frames p fs = (p @ ts) # ps)"
  using assms
proof (induction fs arbitrary: p)
  case Nil
  then show ?case by (simp add: frame_First_def frame_Len_def)
next
  case (Cons f fs)
  let ?t = "last (fr_stack f)"
  from Cons obtain ts ps where *: "\<forall>i. frame_firsts i fs = Inr ts"
    "\<forall>g. fr_stack g \<noteq> [] \<longrightarrow> (\<forall>i. frame_firsts i (fs @ [g]) = Inr (ts @ [last (fr_stack g)]))"
    "\<forall>g. pending_frames (p @ [?t]) (fs @ [g]) = siblings (p @ ?t # ts) (rev (fr_stack g)) @ ps"
    "fs \<noteq> [] \<longrightarrow> pending_frames (p @ [?t]) fs = (p @ ?t # ts) # ps"
    using Cons.IH [of "p @ [?t]"] by auto
  have "pending_frames p (f # fs @ [g]) =
      pending_frames (p @ [?t]) (fs @ [g]) @ siblings p (rev (butlast (fr_stack f)))" for g
    by (cases fs) simp_all
  moreover have "pending_frames p (f # fs) = (p @ ?t # ts) # ps @ siblings p (rev (butlast (fr_stack f)))"
    if "fs \<noteq> []"
    using that * by (cases fs) simp_all
  moreover have "pending_frames p [f] = (p @ [?t]) # siblings p (rev (butlast (fr_stack f)))"
    using Cons.prems by (simp add: rev_split_last)
  ultimately show ?case
    using * Cons.prems by (cases "fs = []") (auto simp: frame_First_def frame_Len_def)
qed

lemma frame_stack_cases:
  assumes "iter_ok it"
  obtains (none) "it_frameStack it = []"
  | (empty_root) f where "it_frameStack it = [f]" "fr_stack f = []"
  | (more) fs f where "it_frameStack it = fs @ [f]" "list_all (\<lambda>f. fr_stack f \<noteq> []) fs" "fr_stack f \<noteq> []"
proof (cases "it_frameStack it" rule: rev_cases)
  case (snoc fs f)
  then show ?thesis using assms that(2,3) by (cases "fr_stack f = []") (auto simp: iter_ok_def)
qed (use that(1) in simp)

lemma iter_current_pending:
  assumes "iter_ok it"
  shows "iter_current it = (case pending it of [] \<Rightarrow> Inl EOF | p # ps \<Rightarrow> Inr p)"
  using assms
proof (cases rule: frame_stack_cases)
  case (more fs f)
  then show ?thesis
    using pending_frames_snoc [OF more(2), of "it_base it"]
    by (auto simp: iter_current_def iter_top_def pending_def frame_First_def frame_Len_def rev_split_last)
qed (auto simp: iter_current_def iter_top_def pending_def frame_First_def frame_Len_def)

lemma iter_push_pending:
  assumes "iter_ok it" and "pending it = p # ps" and "fr_stack g \<noteq> []"
  shows "iter_ok (iter_push g it)" and "pending (iter_push g it) = siblings p (rev (fr_stack g)) @ ps"
proof -
  have "iter_ok (iter_push g it) \<and> pending (iter_push g it) = siblings p (rev (fr_stack g)) @ ps"
    using assms(1)
  proof (cases rule: frame_stack_cases)
    case (more fs f)
    then have *: "list_all (\<lambda>f. fr_stack f \<noteq> []) (fs @ [f])" by simp
    show ?thesis using pending_frames_snoc [OF *, of "it_base it"] assms(2,3) more
      by (auto simp: iter_push_def iter_ok_def pending_def)
  qed (use assms(2) in \<open>auto simp: pending_def\<close>)
  then show "iter_ok (iter_push g it)" "pending (iter_push g it) = siblings p (rev (fr_stack g)) @ ps" by auto
qed

lemma iter_drop_pending_frames:
  assumes "list_all (\<lambda>f. fr_stack f \<noteq> []) fs"
  shows "iter_ok (iter_drop (it\<lparr>it_frameStack := fs\<rparr>)) \<and>
    pending (iter_drop (it\<lparr>it_frameStack := fs\<rparr>)) = tl (pending_frames (it_base it) fs)"
  using assms
proof (induction fs rule: rev_induct)
  case Nil
  then show ?case by (simp add: iter_drop_Nil iter_ok_def pending_def)
next
  case (snoc f fs)
  then have fs: "list_all (\<lambda>f. fr_stack f \<noteq> []) fs" and f: "fr_stack f \<noteq> []" by simp_all
  obtain ts ps where *: "\<forall>g. pending_frames (it_base it) (fs @ [g]) = siblings (it_base it @ ts) (rev (fr_stack g)) @ ps"
    "fs \<noteq> [] \<longrightarrow> pending_frames (it_base it) fs = (it_base it @ ts) # ps"
    using pending_frames_snoc [OF fs] by blast
  have ps: "fs = [] \<Longrightarrow> ps = []" using * (1) [rule_format, of "\<lparr>fr_stack = []\<rparr>"] by simp
  show ?case
  proof (cases "length (fr_stack f) \<le> 1")
    case True
    then obtain n where "fr_stack f = [n]" using f by (cases "fr_stack f") auto
    then have "tl (pending_frames (it_base it) (fs @ [f])) = ps" using *(1) by simp
    moreover have "tl (pending_frames (it_base it) fs) = ps" using *(2) ps by (cases "fs = []") simp_all
    moreover have "iter_drop (it\<lparr>it_frameStack := fs @ [f]\<rparr>) = iter_drop (it\<lparr>it_frameStack := fs\<rparr>)"
      using True by (simp only: iter_drop_frames if_True)
    ultimately show ?thesis using snoc.IH [OF fs] by simp
  next
    case False
    then have "butlast (fr_stack f) \<noteq> []" using f by (cases "fr_stack f") auto
    then show ?thesis using False fs f * by (simp add: iter_drop_frames iter_ok_def pending_def rev_split_last)
  qed
qed

lemma iter_drop_pending:
  assumes "iter_ok it"
  shows "iter_ok (iter_drop it)" and "pending (iter_drop it) = tl (pending it)"
proof -
  have "iter_ok (iter_drop it) \<and> pending (iter_drop it) = tl (pending it)"
    using assms
  proof (cases rule: frame_stack_cases)
    case (empty_root f)
    then have "pending it = []" by (simp add: pending_def)
    moreover have "iter_drop it = it\<lparr>it_frameStack := []\<rparr>"
      using iter_drop_frames [of "[]" f it] iter_drop_Nil [of "it\<lparr>it_frameStack := []\<rparr>"] empty_root(2)
      by (simp flip: empty_root(1))
    ultimately show ?thesis by (simp add: iter_ok_def) (simp add: pending_def)
  next
    case (more fs f)
    then have "list_all (\<lambda>f. fr_stack f \<noteq> []) (it_frameStack it)" by simp
    from iter_drop_pending_frames [OF this, of it] show ?thesis by (simp add: pending_def)
  qed (simp_all add: iter_drop_Nil pending_def iter_ok_def)
  then show "iter_ok (iter_drop it)" "pending (iter_drop it) = tl (pending it)" by auto
qed

text \<open>
  The law of both ways to advance: the call makes \<open>upcoming\<close> the pending list and returns its head,
  the end of file when there is none.
\<close>

lemma advance_pending:
  assumes "iter_ok it" and "list_all readable_path (pending it)" and "advance w it = (r, it')"
  shows "iter_ok it'" and "pending it' = upcoming w it" and "it_hasStarted it' \<or> pending it' = []"
    and "r = (case upcoming w it of [] \<Rightarrow> Inl EOF | p # ps \<Rightarrow> Inr p)"
proof -
  have "iter_ok it' \<and> pending it' = upcoming w it \<and> (it_hasStarted it' \<or> pending it' = []) \<and>
    r = (case upcoming w it of [] \<Rightarrow> Inl EOF | p # ps \<Rightarrow> Inr p)"
  proof (cases "pending it")
    case Nil
    then show ?thesis using assms iter_current_pending [OF assms(1)]
      by (auto simp: advance_def upcoming_def)
  next
    case (Cons p ps)
    have cur: "iter_current it = Inr p" using iter_current_pending [OF assms(1)] Cons by simp
    have kids: "Children (path_Last p) = Inr (n_kids (path_Last p))"
      using assms(2) Cons by (simp add: Children_def readable_path_def)
    show ?thesis
    proof (cases "it_hasStarted it")
      case False
      then show ?thesis using assms cur Cons
        by (auto simp: advance_def upcoming_def iter_ok_def pending_def)
    next
      case started: True
      show ?thesis
      proof (cases "w \<and> n_kids (path_Last p) \<noteq> []")
        case True
        define g where "g = \<lparr>fr_stack = rev (sort_key n_Name (n_kids (path_Last p)))\<rparr>"
        have "fr_stack g \<noteq> []" using True by (simp add: g_def flip: set_empty)
        note push = iter_push_pending [OF assms(1) Cons this]
        have "advance w it = (iter_current (iter_push g it), iter_push g it)"
          using cur started kids True
          by (simp add: advance_def path_NumChildren_def NumChildren_def frame_New_def g_def Let_def)
        then show ?thesis using assms(3) push iter_current_pending [OF push(1)] started True Cons
          by (auto simp: upcoming_def kid_paths_def g_def iter_push_def)
      next
        case False
        then have "advance w it = (iter_current (iter_drop it), iter_drop it)"
          using cur started kids by (auto simp: advance_def path_NumChildren_def NumChildren_def Let_def)
        then show ?thesis
          using assms(1,3) iter_drop_pending [OF assms(1)] iter_current_pending [of "iter_drop it"] started False Cons
          by (auto simp: upcoming_def kid_paths_def)
      qed
    qed
  qed
  then show "iter_ok it'" "pending it' = upcoming w it" "it_hasStarted it' \<or> pending it' = []"
    "r = (case upcoming w it of [] \<Rightarrow> Inl EOF | p # ps \<Rightarrow> Inr p)" by auto
qed

subsection \<open>The files below a path\<close>

lemma size_list_member [termination_simp]: "n \<in> set ns \<Longrightarrow> size n < Suc (size_list size ns)"
  by (induction ns) auto

text \<open>The paths, relative to its parent, of the file-like noders of a tree, in the order of the walk.\<close>

fun node_files :: "noder \<Rightarrow> Path list" where
  "node_files (Noder nm h d sk er kids) =
     (let n = Noder nm h d sk er kids in
      if d then map ((#) n) (concat (map node_files (sort_key n_Name kids))) else [[n]])"

definition files :: "Path \<Rightarrow> Path list" where
  "files p = map ((@) (butlast p)) (node_files (path_Last p))"

definition files_of :: "Path list \<Rightarrow> Path list" where
  "files_of ps = concat (map files ps)"

text \<open>A trie whose noders can all be read, as the interface describes it: file-like noders have no children.\<close>

fun well_read :: "noder \<Rightarrow> bool" where
  "well_read (Noder nm h d sk er kids) \<longleftrightarrow> er = None \<and> (d \<or> kids = []) \<and> list_all well_read kids"

lemma well_readD:
  assumes "well_read n"
  shows "n_err n = None" "n_IsDir n \<or> n_kids n = []" "list_all well_read (n_kids n)"
  using assms by (cases n; simp)+

lemma files_of_simps [simp]:
  "files_of [] = []" "files_of (p # ps) = files p @ files_of ps" "files_of (ps @ qs) = files_of ps @ files_of qs"
  by (simp_all add: files_of_def)

lemma node_files_dir: "n_IsDir n \<Longrightarrow> node_files n = map ((#) n) (concat (map node_files (sort_key n_Name (n_kids n))))"
  by (cases n) (simp add: Let_def)

lemma node_files_file: "\<not> n_IsDir n \<Longrightarrow> node_files n = [[n]]"
  by (cases n) simp

lemma files_of_siblings: "files_of (siblings p ns) = map ((@) p) (concat (map node_files ns))"
  by (induction ns) (simp_all add: files_def path_Last_def)

lemma files_dir: "p \<noteq> [] \<Longrightarrow> path_IsDir p \<Longrightarrow> files p = files_of (kid_paths p)"
  unfolding kid_paths_def files_of_siblings
  by (simp add: files_def path_IsDir_def path_Last_def node_files_dir o_def)

lemma files_file: "p \<noteq> [] \<Longrightarrow> \<not> path_IsDir p \<Longrightarrow> files p = [p]"
  by (simp add: files_def path_IsDir_def path_Last_def node_files_file)

definition walk_ok :: "Path list \<Rightarrow> bool" where
  "walk_ok ps \<longleftrightarrow> list_all (\<lambda>p. p \<noteq> [] \<and> well_read (path_Last p)) ps"

lemma walk_ok_simps [simp]:
  "walk_ok []" "walk_ok (p # ps) \<longleftrightarrow> p \<noteq> [] \<and> well_read (path_Last p) \<and> walk_ok ps"
  "walk_ok (ps @ qs) \<longleftrightarrow> walk_ok ps \<and> walk_ok qs"
  by (simp_all add: walk_ok_def)

lemma walk_ok_siblings [simp]: "walk_ok (siblings p ns) \<longleftrightarrow> list_all well_read ns"
  by (induction ns) (auto simp: path_Last_def)

lemma walk_ok_kids: "well_read (path_Last p) \<Longrightarrow> walk_ok (kid_paths p)"
  using well_readD(3) by (auto simp: kid_paths_def list_all_iff)

lemma walk_ok_readable: "walk_ok ps \<Longrightarrow> list_all readable_path ps"
  by (induction ps) (auto simp: readable_path_def well_readD)

lemma walk_ok_upcoming: "walk_ok (pending it) \<Longrightarrow> walk_ok (upcoming w it)"
  by (auto simp: upcoming_def walk_ok_kids split: list.splits)

lemma walk_ok_pending:
  "iter_ok it \<Longrightarrow> walk_ok (pending it) \<Longrightarrow> advance w it = (r, it') \<Longrightarrow> walk_ok (pending it')"
  using advance_pending(2) [of it w r it'] walk_ok_readable walk_ok_upcoming [of it w] by simp

lemma addRecursive_loop_files:
  assumes "iter_ok i" and "walk_ok (pending i)"
  shows "addRecursive_loop ctor i l =
     Inr (l @ map ctor (filter (\<lambda>p. \<not> path_Skip p) (files_of (upcoming True i))))"
  using assms
proof (induction ctor i l rule: addRecursive_loop.induct)
  case (1 ctor i l)
  obtain r i' where st: "advance True i = (r, i')" by (cases "advance True i")
  note adv = advance_pending [OF "1.prems"(1) walk_ok_readable [OF "1.prems"(2)] st]
  have ok': "walk_ok (pending i')" using "1.prems" st by (rule walk_ok_pending)
  show ?case
  proof (cases "upcoming True i")
    case Nil
    then show ?thesis using adv st by (subst addRecursive_loop.simps) (simp add: Step_def)
  next
    case (Cons p ps)
    have up: "upcoming True i' = kid_paths p @ ps" using adv Cons by (auto simp: upcoming_def)
    have p: "p \<noteq> []" "well_read (path_Last p)" using ok' adv Cons by auto
    have st': "Step i = (Inr p, i')" using st adv Cons by (simp add: Step_def)
    show ?thesis
    proof (cases "path_IsDir p")
      case True
      have "addRecursive_loop ctor i l = addRecursive_loop ctor i' l"
        using st' True by (subst addRecursive_loop.simps) simp
      also have "\<dots> = Inr (l @ map ctor (filter (\<lambda>p. \<not> path_Skip p) (files_of (upcoming True i'))))"
        using st' True adv ok' by (intro "1.IH"(1) [of _ i' p]) auto
      finally show ?thesis using Cons up p True by (simp add: files_dir)
    next
      case False
      then have "kid_paths p = []"
        using well_readD(2) [OF p(2)] by (simp add: kid_paths_def path_IsDir_def)
      then show ?thesis
        using Cons up p False st' adv ok' "1.IH" [of "Inr p" i' p]
        by (subst addRecursive_loop.simps) (simp add: files_file)
    qed
  qed
qed

lemma path_String_not_empty: "p \<noteq> [] \<Longrightarrow> n_Name (path_Last p) \<noteq> [] \<Longrightarrow> path_String p \<noteq> []"
  by (induction p rule: path_String.induct) (auto simp: path_Last_def)

lemma addRecursive_files:
  assumes "p \<noteq> []" and "well_read (path_Last p)" and "n_Name (path_Last p) \<noteq> []"
  shows "addRecursive p ctor l = Inr (l @ map ctor (filter (\<lambda>q. \<not> path_Skip q) (files p)))"
proof (cases "path_IsDir p")
  case True
  define i where "i = \<lparr>it_hasStarted = False,
    it_frameStack = [\<lparr>fr_stack = rev (sort_key n_Name (n_kids (path_Last p)))\<rparr>], it_base = p\<rparr>"
  have new: "NewIterFromPath p = Inr i"
    using well_readD(1) [OF assms(2)]
    by (simp add: NewIterFromPath_def newIter_def frame_New_def Children_def i_def)
  have i: "iter_ok i" "pending i = kid_paths p" "upcoming True i = kid_paths p"
    by (simp_all add: i_def iter_ok_def pending_def kid_paths_def upcoming_def)
  have "addRecursive p ctor l = addRecursive_loop ctor i l"
    using assms path_String_not_empty True by (simp add: addRecursive_def new)
  then show ?thesis
    using addRecursive_loop_files [of i ctor l] i assms walk_ok_kids True by (simp add: files_dir)
next
  case False
  then show ?thesis
    using assms path_String_not_empty by (simp add: addRecursive_def files_file)
qed

end
