(* ===== verification/Tree_Diff.thy ===== *)
theory Tree_Diff
  imports Merkletrie
begin

text \<open>
  The difference of two merkle tries: \<open>utils/merkletrie/doubleiter.go\<close> and \<open>difftree.go\<close>.

  \<^item> The double iterator walks both tries at once and keeps the current path of each.
  \<^item> \<open>DiffTreeContext\<close> is the loop over it. The context is a parameter: \<open>done i\<close> tells whether it is
    cancelled when the loop polls it the \<open>i\<close>-th time. Every round makes progress in one of the
    iterators, so the loop is a total function.
  \<^item> \<open>diff_paths\<close> is the same algorithm on two lists of subtrees instead of iterators, and the
    properties state its result without an algorithm: the files that one trie has and the other
    does not, and those that differ.
\<close>

subsection \<open>The double iterator\<close>

record doubleIter =
  di_from_iter :: Iter
  di_from_current :: "Path option"
  di_to_iter :: Iter
  di_to_current :: "Path option"
  di_hashEqual :: "bytes \<Rightarrow> bytes \<Rightarrow> bool"

definition turnEOFIntoNil :: "trie_error + Path \<Rightarrow> trie_error + Path option" where
  "turnEOFIntoNil r = (case r of Inl e \<Rightarrow> if e = EOF then Inr None else Inl e | Inr p \<Rightarrow> Inr (Some p))"

definition map_err :: "('e \<Rightarrow> 'f) \<Rightarrow> 'e + 'a \<Rightarrow> 'f + 'a" where
  "map_err f r = map_sum f id r"

definition newDoubleIter ::
  "noder option \<Rightarrow> noder option \<Rightarrow> (bytes \<Rightarrow> bytes \<Rightarrow> bool) \<Rightarrow> trie_error + doubleIter" where
  "newDoubleIter from_tree to_tree hashEqual =
     rbind (map_err FromErr (NewIter from_tree)) (\<lambda>fi. let (fr, fi') = Next fi in
     rbind (map_err FromErr (turnEOFIntoNil fr)) (\<lambda>fc.
     rbind (map_err ToErr (NewIter to_tree)) (\<lambda>ti. let (tr, ti') = Next ti in
     rbind (map_err ToErr (turnEOFIntoNil tr)) (\<lambda>tc.
       Inr \<lparr>di_from_iter = fi', di_from_current = fc, di_to_iter = ti', di_to_current = tc,
            di_hashEqual = hashEqual\<rparr>))))"

definition nextFrom :: "doubleIter \<Rightarrow> trie_error + doubleIter" where
  "nextFrom d = (let (r, it) = Next (di_from_iter d) in
     rbind (turnEOFIntoNil r) (\<lambda>c. Inr (d\<lparr>di_from_iter := it, di_from_current := c\<rparr>)))"

definition nextTo :: "doubleIter \<Rightarrow> trie_error + doubleIter" where
  "nextTo d = (let (r, it) = Next (di_to_iter d) in
     rbind (turnEOFIntoNil r) (\<lambda>c. Inr (d\<lparr>di_to_iter := it, di_to_current := c\<rparr>)))"

definition nextBoth :: "doubleIter \<Rightarrow> trie_error + doubleIter" where
  "nextBoth d = rbind (nextFrom d) nextTo"

definition stepBoth :: "doubleIter \<Rightarrow> trie_error + doubleIter" where
  "stepBoth d = (let (r, it) = Step (di_from_iter d) in
     rbind (turnEOFIntoNil r) (\<lambda>c.
       let d = d\<lparr>di_from_iter := it, di_from_current := c\<rparr>; (r, it) = Step (di_to_iter d) in
       rbind (turnEOFIntoNil r) (\<lambda>c. Inr (d\<lparr>di_to_iter := it, di_to_current := c\<rparr>))))"

datatype remaining = noMoreNoders | onlyToRemains | onlyFromRemains | bothHaveNodes

definition di_remaining :: "doubleIter \<Rightarrow> remaining" where
  "di_remaining d =
     (if di_from_current d = None \<and> di_to_current d = None then noMoreNoders
      else if di_from_current d = None \<and> di_to_current d \<noteq> None then onlyToRemains
      else if di_from_current d \<noteq> None \<and> di_to_current d = None then onlyFromRemains
      else bothHaveNodes)"

record comparison =
  cmp_sameHash :: bool
  cmp_bothAreFiles :: bool
  cmp_fileAndDir :: bool
  cmp_bothAreDirs :: bool
  cmp_fromIsEmptyDir :: bool
  cmp_toIsEmptyDir :: bool

definition di_compare :: "(bytes \<Rightarrow> bytes \<Rightarrow> bool) \<Rightarrow> Path \<Rightarrow> Path \<Rightarrow> trie_error + comparison" where
  "di_compare hashEqual from_p to_p =
     (let sameHash = hashEqual (path_Hash from_p) (path_Hash to_p);
          fromIsDir = path_IsDir from_p; toIsDir = path_IsDir to_p;
          bothAreDirs = (fromIsDir \<and> toIsDir); bothAreFiles = (\<not> fromIsDir \<and> \<not> toIsDir) in
      rbind (map_err FromErr (path_NumChildren from_p)) (\<lambda>fromNumChildren.
      rbind (map_err ToErr (path_NumChildren to_p)) (\<lambda>toNumChildren.
        Inr \<lparr>cmp_sameHash = sameHash, cmp_bothAreFiles = bothAreFiles,
             cmp_fileAndDir = (\<not> bothAreDirs \<and> \<not> bothAreFiles), cmp_bothAreDirs = bothAreDirs,
             cmp_fromIsEmptyDir = (fromIsDir \<and> fromNumChildren = 0),
             cmp_toIsEmptyDir = (toIsDir \<and> toNumChildren = 0)\<rparr>)))"

subsection \<open>The algorithm\<close>

type_synonym diff_state = "Change list \<times> doubleIter"

text \<open>
  \<open>from\<close> and \<open>to\<close> are the current paths of the double iterator, read at the entry of each function,
  where they are not nil.
\<close>

definition diffDirs :: "Path \<Rightarrow> Path \<Rightarrow> diff_state \<Rightarrow> trie_error + diff_state" where
  "diffDirs from_p to_p = (\<lambda>(changes, ii).
     rbind (di_compare (di_hashEqual ii) from_p to_p) (\<lambda>status.
       if cmp_fromIsEmptyDir status then
         rbind (AddRecursiveInsert to_p changes) (\<lambda>changes. rbind (nextBoth ii) (\<lambda>ii. Inr (changes, ii)))
       else if cmp_toIsEmptyDir status then
         rbind (AddRecursiveDelete from_p changes) (\<lambda>changes. rbind (nextBoth ii) (\<lambda>ii. Inr (changes, ii)))
       else if \<not> cmp_fromIsEmptyDir status \<and> \<not> cmp_toIsEmptyDir status then
         rbind (stepBoth ii) (\<lambda>ii. Inr (changes, ii))
       else Inl BothEmptyDirs))"

definition diffNodesSameName :: "Path \<Rightarrow> Path \<Rightarrow> diff_state \<Rightarrow> trie_error + diff_state" where
  "diffNodesSameName from_p to_p = (\<lambda>(changes, ii).
     rbind (di_compare (di_hashEqual ii) from_p to_p) (\<lambda>status.
       if cmp_sameHash status then rbind (nextBoth ii) (\<lambda>ii. Inr (changes, ii))
       else if cmp_bothAreFiles status then
         rbind (nextBoth ii) (\<lambda>ii. Inr (changes @ [NewModify from_p to_p], ii))
       else if cmp_fileAndDir status then
         rbind (AddRecursiveDelete from_p changes) (\<lambda>changes.
         rbind (AddRecursiveInsert to_p changes) (\<lambda>changes.
         rbind (nextBoth ii) (\<lambda>ii. Inr (changes, ii))))
       else if cmp_bothAreDirs status then diffDirs from_p to_p (changes, ii)
       else Inl BadStatus))"

definition diffNodes :: "Path \<Rightarrow> Path \<Rightarrow> diff_state \<Rightarrow> trie_error + diff_state" where
  "diffNodes from_p to_p = (\<lambda>(changes, ii).
     if path_Compare from_p to_p = - 1 then
       rbind (AddRecursiveDelete from_p changes) (\<lambda>changes. rbind (nextFrom ii) (\<lambda>ii. Inr (changes, ii)))
     else if path_Compare from_p to_p = 1 then
       rbind (AddRecursiveInsert to_p changes) (\<lambda>changes. rbind (nextTo ii) (\<lambda>ii. Inr (changes, ii)))
     else diffNodesSameName from_p to_p (changes, ii))"

text \<open>The body of the loop, past the poll of the context; \<open>None\<close> is its return.\<close>

definition diff_round :: "diff_state \<Rightarrow> (trie_error + diff_state) option" where
  "diff_round = (\<lambda>(ret, ii).
     case (di_from_current ii, di_to_current ii) of
       (None, None) \<Rightarrow> None
     | (Some from_p, None) \<Rightarrow> Some (
         rbind (if \<not> path_Skip from_p then AddRecursiveDelete from_p ret else Inr ret) (\<lambda>ret.
         rbind (nextFrom ii) (\<lambda>ii. Inr (ret, ii))))
     | (None, Some to_p) \<Rightarrow> Some (
         rbind (if \<not> path_Skip to_p then AddRecursiveInsert to_p ret else Inr ret) (\<lambda>ret.
         rbind (nextTo ii) (\<lambda>ii. Inr (ret, ii))))
     | (Some from_p, Some to_p) \<Rightarrow> Some (
         if path_Skip from_p then
           rbind (if path_Name from_p = path_Name to_p then nextBoth ii else nextFrom ii) (\<lambda>ii. Inr (ret, ii))
         else if path_Skip to_p then
           rbind (if path_Name from_p = path_Name to_p then nextBoth ii else nextTo ii) (\<lambda>ii. Inr (ret, ii))
         else diffNodes from_p to_p (ret, ii)))"

text \<open>The cases of the body are the values of \<open>remaining\<close>.\<close>

lemma remaining_iff:
  "di_remaining d = noMoreNoders \<longleftrightarrow> diff_round (l, d) = None"
  "di_remaining d = bothHaveNodes \<longleftrightarrow> (\<exists>p q. (di_from_current d, di_to_current d) = (Some p, Some q))"
  "di_remaining d = onlyFromRemains \<longleftrightarrow> (\<exists>p. (di_from_current d, di_to_current d) = (Some p, None))"
  "di_remaining d = onlyToRemains \<longleftrightarrow> (\<exists>q. (di_from_current d, di_to_current d) = (None, Some q))"
  by (auto simp: di_remaining_def diff_round_def split: option.splits)

subsection \<open>Every round makes progress\<close>

definition di_weight :: "doubleIter \<Rightarrow> nat" where
  "di_weight d = iter_weight (di_from_iter d) + iter_weight (di_to_iter d) +
     (if di_from_current d = None then 0 else 1) + (if di_to_current d = None then 0 else 1)"

lemma turnEOFIntoNil_Inr: "turnEOFIntoNil r = Inr c \<longleftrightarrow> r = Inl EOF \<and> c = None \<or> (\<exists>p. r = Inr p \<and> c = Some p)"
  by (auto simp: turnEOFIntoNil_def split: sum.splits)

lemma next_weight:
  assumes "advance w it = (r, it')" and "turnEOFIntoNil r = Inr c"
  shows "iter_weight it' + (if c = None then 0 else 1) \<le> iter_weight it"
  using assms advance_progress(1) [OF assms(1)] advance_progress(2) [OF assms(1)]
  by (auto simp: turnEOFIntoNil_Inr Suc_le_eq)

lemma nextFrom_weight:
  "nextFrom d = Inr d' \<Longrightarrow> di_from_current d \<noteq> None \<Longrightarrow> di_weight d' < di_weight d \<and> di_to_current d' = di_to_current d"
  by (auto simp: nextFrom_def Next_def result_simps di_weight_def split: prod.splits dest!: next_weight)

lemma nextTo_weight:
  "nextTo d = Inr d' \<Longrightarrow> di_to_current d \<noteq> None \<Longrightarrow> di_weight d' < di_weight d"
  by (auto simp: nextTo_def Next_def result_simps di_weight_def split: prod.splits dest!: next_weight)

lemma nextBoth_weight:
  assumes "nextBoth d = Inr d'" and "di_from_current d \<noteq> None" and "di_to_current d \<noteq> None"
  shows "di_weight d' < di_weight d"
proof -
  obtain d1 where "nextFrom d = Inr d1" "nextTo d1 = Inr d'"
    using assms(1) by (auto simp: nextBoth_def result_simps)
  with assms(2,3) nextFrom_weight [of d d1] nextTo_weight [of d1 d'] show ?thesis by auto
qed

lemma stepBoth_weight:
  "stepBoth d = Inr d' \<Longrightarrow> di_from_current d \<noteq> None \<Longrightarrow> di_to_current d \<noteq> None \<Longrightarrow> di_weight d' < di_weight d"
  by (cases "advance True (di_from_iter d)"; cases "advance True (di_to_iter d)")
    (auto simp: stepBoth_def Step_def Let_def result_simps di_weight_def dest!: next_weight)

lemmas round_weights = nextFrom_weight nextTo_weight nextBoth_weight stepBoth_weight

lemma diffDirs_weight:
  "diffDirs p q (l, d) = Inr (l', d') \<Longrightarrow> di_from_current d \<noteq> None \<Longrightarrow> di_to_current d \<noteq> None \<Longrightarrow>
     di_weight d' < di_weight d"
  by (auto simp: diffDirs_def result_simps round_weights split: if_splits)

lemma diffNodes_weight:
  "diffNodes p q (l, d) = Inr (l', d') \<Longrightarrow> di_from_current d \<noteq> None \<Longrightarrow> di_to_current d \<noteq> None \<Longrightarrow>
     di_weight d' < di_weight d"
  by (auto simp: diffNodes_def diffNodesSameName_def result_simps round_weights diffDirs_weight split: if_splits)

lemma diff_round_weight:
  "diff_round (l, d) = Some (Inr (l', d')) \<Longrightarrow> di_weight d' < di_weight d"
  by (auto simp: diff_round_def result_simps round_weights diffNodes_weight
      split: option.splits if_splits)

function diff_loop :: "(nat \<Rightarrow> bool) \<Rightarrow> nat \<Rightarrow> diff_state \<Rightarrow> trie_error + Change list" where
  "diff_loop done_at i s =
     (if done_at i then Inl ErrCanceled
      else case diff_round s of
        None \<Rightarrow> Inr (fst s)
      | Some (Inl e) \<Rightarrow> Inl e
      | Some (Inr s') \<Rightarrow> diff_loop done_at (Suc i) s')"
  by pat_completeness auto
termination
  by (relation "measure (\<lambda>(c, i, s). di_weight (snd s))") (auto intro: diff_round_weight)

declare diff_loop.simps [simp del]

definition DiffTreeContext ::
  "(nat \<Rightarrow> bool) \<Rightarrow> noder option \<Rightarrow> noder option \<Rightarrow> (bytes \<Rightarrow> bytes \<Rightarrow> bool) \<Rightarrow> trie_error + Change list" where
  "DiffTreeContext done_at fromTree toTree hashEqual =
     rbind (newDoubleIter fromTree toTree hashEqual) (\<lambda>ii. diff_loop done_at 0 ([], ii))"

definition DiffTree ::
  "noder option \<Rightarrow> noder option \<Rightarrow> (bytes \<Rightarrow> bytes \<Rightarrow> bool) \<Rightarrow> trie_error + Change list" where
  "DiffTree fromTree toTree hashEqual = DiffTreeContext (\<lambda>_. False) fromTree toTree hashEqual"

subsection \<open>The algorithm on lists of subtrees\<close>

text \<open>
  The tries of the properties: every noder can be read and has a name, siblings have different
  names, file-like noders have no children, and nothing is marked to be skipped (git trees never are).
\<close>

fun good_node :: "noder \<Rightarrow> bool" where
  "good_node (Noder nm h d sk er kids) \<longleftrightarrow> nm \<noteq> [] \<and> \<not> sk \<and> er = None \<and> (d \<or> kids = []) \<and>
     distinct (map n_Name kids) \<and> list_all good_node kids"

definition good_root :: "noder option \<Rightarrow> bool" where
  "good_root root = (case root of None \<Rightarrow> True
     | Some r \<Rightarrow> n_err r = None \<and> distinct (map n_Name (n_kids r)) \<and> list_all good_node (n_kids r))"

definition top_paths :: "noder option \<Rightarrow> Path list" where
  "top_paths root = (case root of None \<Rightarrow> [] | Some r \<Rightarrow> siblings [] (sort_key n_Name (n_kids r)))"

definition plain :: "Path list \<Rightarrow> bool" where
  "plain ps \<longleftrightarrow> list_all (\<lambda>p. p \<noteq> [] \<and> good_node (path_Last p)) ps"

lemma good_nodeD:
  assumes "good_node n"
  shows "n_Name n \<noteq> []" "\<not> n_Skip n" "n_err n = None" "n_IsDir n \<or> n_kids n = []"
    "distinct (map n_Name (n_kids n))" "list_all good_node (n_kids n)"
  using assms by (cases n; simp)+

lemma good_node_well_read: "good_node n \<Longrightarrow> well_read n"
  by (induction n) (auto simp: list_all_iff)

lemma plain_simps [simp]:
  "plain []" "plain (p # ps) \<longleftrightarrow> p \<noteq> [] \<and> good_node (path_Last p) \<and> plain ps"
  "plain (ps @ qs) \<longleftrightarrow> plain ps \<and> plain qs"
  by (simp_all add: plain_def)

lemma plain_siblings [simp]: "plain (siblings p ns) \<longleftrightarrow> list_all good_node ns"
  by (induction ns) (auto simp: path_Last_def)

lemma plain_kids: "good_node (path_Last p) \<Longrightarrow> plain (kid_paths p)"
  using good_nodeD(6) by (auto simp: kid_paths_def list_all_iff)

lemma plain_walk_ok: "plain ps \<Longrightarrow> walk_ok ps"
  by (induction ps) (auto simp: good_node_well_read)

lemma node_files_good: "good_node n \<Longrightarrow> q \<in> set (node_files n) \<Longrightarrow> q \<noteq> [] \<and> good_node (last q)"
proof (induction n arbitrary: q)
  case (Noder nm h d sk er kids)
  then show ?case by (cases d) (auto simp: Let_def list_all_iff)
qed

lemma files_good:
  "p \<noteq> [] \<Longrightarrow> good_node (path_Last p) \<Longrightarrow> q \<in> set (files p) \<Longrightarrow> q \<noteq> [] \<and> good_node (path_Last q)"
  by (auto simp: files_def path_Last_def dest: node_files_good)

lemma addRecursive_plain:
  assumes "p \<noteq> []" and "good_node (path_Last p)"
  shows "addRecursive p ctor l = Inr (l @ map ctor (files p))"
proof -
  have "\<not> path_Skip q" if "q \<in> set (files p)" for q
    using files_good [OF assms that] by (simp add: path_Skip_def good_nodeD)
  then have "filter (\<lambda>q. \<not> path_Skip q) (files p) = files p" by (simp add: filter_id_conv)
  then show ?thesis using addRecursive_files assms by (simp add: good_node_well_read good_nodeD)
qed

definition paths_weight :: "Path list \<Rightarrow> nat" where
  "paths_weight ps = sum_list (map (\<lambda>p. weight (path_Last p)) ps)"

lemma paths_weight_simps [simp]:
  "paths_weight [] = 0" "paths_weight (p # ps) = weight (path_Last p) + paths_weight ps"
  "paths_weight (ps @ qs) = paths_weight ps + paths_weight qs"
  by (simp_all add: paths_weight_def)

lemma weight_pos [simp]: "0 < weight n" by (simp add: weight_eq)

lemma paths_weight_kids: "paths_weight (kid_paths p) < weight (path_Last p)"
proof -
  have "paths_weight (siblings p ns) = forest_weight ns" for ns
    by (induction ns) (simp_all add: path_Last_def)
  then show ?thesis by (simp add: kid_paths_def weight_eq)
qed

function (sequential) diff_paths :: "(bytes \<Rightarrow> bytes \<Rightarrow> bool) \<Rightarrow> Path list \<Rightarrow> Path list \<Rightarrow> Change list" where
  "diff_paths heq [] [] = []"
| "diff_paths heq (p # F) [] = map NewDelete (files p) @ diff_paths heq F []"
| "diff_paths heq [] (q # T) = map NewInsert (files q) @ diff_paths heq [] T"
| "diff_paths heq (p # F) (q # T) =
     (if path_Compare p q = - 1 then map NewDelete (files p) @ diff_paths heq F (q # T)
      else if path_Compare p q = 1 then map NewInsert (files q) @ diff_paths heq (p # F) T
      else if heq (path_Hash p) (path_Hash q) then diff_paths heq F T
      else if path_IsDir p \<and> path_IsDir q \<and> kid_paths p \<noteq> [] \<and> kid_paths q \<noteq> [] then
        diff_paths heq (kid_paths p @ F) (kid_paths q @ T)
      else if \<not> path_IsDir p \<and> \<not> path_IsDir q then NewModify p q # diff_paths heq F T
      else map NewDelete (files p) @ map NewInsert (files q) @ diff_paths heq F T)"
  by pat_completeness auto
termination
proof (relation "measure (\<lambda>(h, F, T). paths_weight F + paths_weight T)", goal_cases)
  case (7 heq p F q T)
  then show ?case using paths_weight_kids [of p] paths_weight_kids [of q] by simp
qed simp_all

subsection \<open>The loop refines it\<close>

definition iter_at :: "Iter \<Rightarrow> Path option \<Rightarrow> Path list \<Rightarrow> bool" where
  "iter_at it c P \<longleftrightarrow> iter_ok it \<and> pending it = P \<and> (it_hasStarted it \<or> P = []) \<and>
     c = (case P of [] \<Rightarrow> None | p # ps \<Rightarrow> Some p) \<and> plain P"

definition di_at :: "(bytes \<Rightarrow> bytes \<Rightarrow> bool) \<Rightarrow> doubleIter \<Rightarrow> Path list \<Rightarrow> Path list \<Rightarrow> bool" where
  "di_at heq d F T \<longleftrightarrow> iter_at (di_from_iter d) (di_from_current d) F \<and>
     iter_at (di_to_iter d) (di_to_current d) T \<and> di_hashEqual d = heq"

lemma advance_at:
  assumes "iter_at it c P" and "advance w it = (r, it')"
  shows "\<exists>c'. turnEOFIntoNil r = Inr c' \<and>
    iter_at it' c' (case P of [] \<Rightarrow> [] | p # ps \<Rightarrow> (if w then kid_paths p else []) @ ps)"
proof -
  have ok: "iter_ok it" "walk_ok (pending it)"
    using assms(1) by (auto simp: iter_at_def plain_walk_ok)
  note adv = advance_pending [OF ok(1) walk_ok_readable [OF ok(2)] assms(2)]
  have "upcoming w it = (case P of [] \<Rightarrow> [] | p # ps \<Rightarrow> (if w then kid_paths p else []) @ ps)"
    using assms(1) by (auto simp: iter_at_def upcoming_def split: list.splits)
  moreover have "plain (upcoming w it)"
    using assms(1) by (auto simp: iter_at_def upcoming_def plain_kids split: list.splits)
  ultimately show ?thesis using adv
    by (auto simp: iter_at_def turnEOFIntoNil_def split: list.splits)
qed

lemma nextFrom_at:
  assumes "di_at heq d (p # F) T"
  shows "\<exists>d'. nextFrom d = Inr d' \<and> di_at heq d' F T"
proof -
  obtain r it' where a: "advance False (di_from_iter d) = (r, it')" by (cases "advance False (di_from_iter d)")
  from assms advance_at [OF _ this] obtain c' where "turnEOFIntoNil r = Inr c'" "iter_at it' c' F"
    unfolding di_at_def by fastforce
  with a assms show ?thesis by (simp add: nextFrom_def Next_def di_at_def)
qed

lemma nextTo_at:
  assumes "di_at heq d F (q # T)"
  shows "\<exists>d'. nextTo d = Inr d' \<and> di_at heq d' F T"
proof -
  obtain r it' where a: "advance False (di_to_iter d) = (r, it')" by (cases "advance False (di_to_iter d)")
  from assms advance_at [OF _ this] obtain c' where "turnEOFIntoNil r = Inr c'" "iter_at it' c' T"
    unfolding di_at_def by fastforce
  with a assms show ?thesis by (simp add: nextTo_def Next_def di_at_def)
qed

lemma nextBoth_at:
  assumes "di_at heq d (p # F) (q # T)"
  shows "\<exists>d'. nextBoth d = Inr d' \<and> di_at heq d' F T"
proof -
  obtain d1 where "nextFrom d = Inr d1" "di_at heq d1 F (q # T)" using nextFrom_at [OF assms] by blast
  with nextTo_at show ?thesis by (auto simp: nextBoth_def)
qed

lemma stepBoth_at:
  assumes "di_at heq d (p # F) (q # T)"
  shows "\<exists>d'. stepBoth d = Inr d' \<and> di_at heq d' (kid_paths p @ F) (kid_paths q @ T)"
proof -
  obtain r it' where a: "advance True (di_from_iter d) = (r, it')" by (cases "advance True (di_from_iter d)")
  from assms advance_at [OF _ this] obtain c' where 1: "turnEOFIntoNil r = Inr c'" "iter_at it' c' (kid_paths p @ F)"
    unfolding di_at_def by fastforce
  obtain r2 it2 where b: "advance True (di_to_iter d) = (r2, it2)" by (cases "advance True (di_to_iter d)")
  from assms advance_at [OF _ this] obtain c2 where 2: "turnEOFIntoNil r2 = Inr c2" "iter_at it2 c2 (kid_paths q @ T)"
    unfolding di_at_def by fastforce
  from a b 1 2 assms show ?thesis by (simp add: stepBoth_def Step_def Let_def di_at_def)
qed

lemma di_at_current:
  assumes "di_at heq d F T"
  shows "di_from_current d = (case F of [] \<Rightarrow> None | p # _ \<Rightarrow> Some p)"
    and "di_to_current d = (case T of [] \<Rightarrow> None | p # _ \<Rightarrow> Some p)"
    and "di_hashEqual d = heq" and "plain F" and "plain T"
  using assms by (auto simp: di_at_def iter_at_def)

lemma path_not_skipped: "good_node (path_Last p) \<Longrightarrow> \<not> path_Skip p"
  by (simp add: path_Skip_def good_nodeD)

lemma kid_paths_Nil: "kid_paths p = [] \<longleftrightarrow> n_kids (path_Last p) = []"
  unfolding kid_paths_def siblings_simps by (metis length_0_conv length_sort)

lemma di_compare_good:
  assumes "good_node (path_Last p)" and "good_node (path_Last q)"
  shows "di_compare heq p q = Inr
    \<lparr>cmp_sameHash = heq (path_Hash p) (path_Hash q), cmp_bothAreFiles = (\<not> path_IsDir p \<and> \<not> path_IsDir q),
     cmp_fileAndDir = (path_IsDir p \<noteq> path_IsDir q), cmp_bothAreDirs = (path_IsDir p \<and> path_IsDir q),
     cmp_fromIsEmptyDir = (path_IsDir p \<and> kid_paths p = []),
     cmp_toIsEmptyDir = (path_IsDir q \<and> kid_paths q = [])\<rparr>"
  using good_nodeD(3) [OF assms(1)] good_nodeD(3) [OF assms(2)]
  by (auto simp: di_compare_def path_NumChildren_def NumChildren_def Children_def map_err_def kid_paths_Nil Let_def)

lemma files_empty_dir: "p \<noteq> [] \<Longrightarrow> path_IsDir p \<Longrightarrow> kid_paths p = [] \<Longrightarrow> files p = []"
  by (simp add: files_dir)

lemmas round_simps = diff_round_def diffNodes_def diffNodesSameName_def diffDirs_def di_compare_good
  AddRecursiveDelete_def AddRecursiveInsert_def addRecursive_plain path_not_skipped

text \<open>One round of the loop: it emits a prefix of the changes and leaves the two lists for the rest.\<close>

lemma diff_round_at:
  assumes "di_at heq d F T" and "F \<noteq> [] \<or> T \<noteq> []"
  shows "\<exists>l' d' F' T'. diff_round (l, d) = Some (Inr (l @ l', d')) \<and> di_at heq d' F' T' \<and>
    diff_paths heq F T = l' @ diff_paths heq F' T' \<and> paths_weight F' + paths_weight T' < paths_weight F + paths_weight T"
proof (cases F)
  case Nil
  then obtain q T' where T: "T = q # T'" using assms(2) by (cases T) auto
  obtain d' where "nextTo d = Inr d'" "di_at heq d' [] T'" using nextTo_at assms(1) Nil T by blast
  then show ?thesis using di_at_current [OF assms(1)] Nil T
    by (intro exI [of _ "map NewInsert (files q)"] exI [of _ d'] exI [of _ "[]"] exI [of _ T'])
      (simp add: round_simps)
next
  case (Cons p F')
  note F = Cons
  show ?thesis
  proof (cases T)
    case Nil
    obtain d' where "nextFrom d = Inr d'" "di_at heq d' F' []" using nextFrom_at assms(1) Nil F by blast
    then show ?thesis using di_at_current [OF assms(1)] Nil F
      by (intro exI [of _ "map NewDelete (files p)"] exI [of _ d'] exI [of _ F'] exI [of _ "[]"])
        (simp add: round_simps)
  next
    case (Cons q T')
    note T = Cons
    note cur = di_at_current [OF assms(1), unfolded F T, simplified]
    obtain d1 where d1: "nextFrom d = Inr d1" "di_at heq d1 F' (q # T')"
      using nextFrom_at assms(1) F T by blast
    obtain d2 where d2: "nextTo d = Inr d2" "di_at heq d2 (p # F') T'"
      using nextTo_at assms(1) F T by blast
    obtain d3 where d3: "nextBoth d = Inr d3" "di_at heq d3 F' T'"
      using nextBoth_at assms(1) F T by blast
    obtain d4 where d4: "stepBoth d = Inr d4" "di_at heq d4 (kid_paths p @ F') (kid_paths q @ T')"
      using stepBoth_at assms(1) F T by blast
    consider (less) "path_Compare p q = - 1" | (greater) "path_Compare p q = 1"
      | (same) "path_Compare p q \<noteq> - 1" "path_Compare p q \<noteq> 1" "heq (path_Hash p) (path_Hash q)"
      | (dirs) "path_Compare p q \<noteq> - 1" "path_Compare p q \<noteq> 1" "\<not> heq (path_Hash p) (path_Hash q)"
          "path_IsDir p" "path_IsDir q" "kid_paths p \<noteq> []" "kid_paths q \<noteq> []"
      | (modified) "path_Compare p q \<noteq> - 1" "path_Compare p q \<noteq> 1" "\<not> heq (path_Hash p) (path_Hash q)"
          "\<not> path_IsDir p" "\<not> path_IsDir q"
      | (replaced) "path_Compare p q \<noteq> - 1" "path_Compare p q \<noteq> 1" "\<not> heq (path_Hash p) (path_Hash q)"
          "path_IsDir p \<and> kid_paths p = [] \<or> path_IsDir q \<and> kid_paths q = [] \<or> path_IsDir p \<noteq> path_IsDir q"
      by blast
    then show ?thesis
    proof cases
      case less
      then show ?thesis using cur d1 F T
        by (intro exI [of _ "map NewDelete (files p)"] exI [of _ d1] exI [of _ F'] exI [of _ "q # T'"])
          (simp add: round_simps)
    next
      case greater
      then show ?thesis using cur d2 F T
        by (intro exI [of _ "map NewInsert (files q)"] exI [of _ d2] exI [of _ "p # F'"] exI [of _ T'])
          (simp add: round_simps)
    next
      case same
      then show ?thesis using cur d3 F T
        by (intro exI [of _ "[]"] exI [of _ d3] exI [of _ F'] exI [of _ T']) (simp add: round_simps)
    next
      case dirs
      then show ?thesis using cur d4 F T paths_weight_kids [of p] paths_weight_kids [of q]
        by (intro exI [of _ "[]"] exI [of _ d4] exI [of _ "kid_paths p @ F'"] exI [of _ "kid_paths q @ T'"])
          (simp add: round_simps)
    next
      case modified
      then show ?thesis using cur d3 F T
        by (intro exI [of _ "[NewModify p q]"] exI [of _ d3] exI [of _ F'] exI [of _ T']) (simp add: round_simps)
    next
      case replaced
      have dp: "diff_paths heq F T = (map NewDelete (files p) @ map NewInsert (files q)) @ diff_paths heq F' T'"
        using replaced F T by auto
      have "diff_round (l, d) = Some (Inr (l @ map NewDelete (files p) @ map NewInsert (files q), d3))"
        using cur d3 replaced files_empty_dir [of p] files_empty_dir [of q]
        by (cases "path_IsDir p"; cases "path_IsDir q"; cases "kid_paths p = []") (simp_all add: round_simps)
      then show ?thesis using dp d3 F T
        by (intro exI [of _ "map NewDelete (files p) @ map NewInsert (files q)"] exI [of _ d3] exI [of _ F'] exI [of _ T'])
          simp
    qed
  qed
qed

lemma diff_loop_at:
  assumes "di_at heq d F T"
  shows "diff_loop (\<lambda>_. False) i (l, d) = Inr (l @ diff_paths heq F T)"
  using assms
proof (induction "paths_weight F + paths_weight T" arbitrary: i l d F T rule: less_induct)
  case less
  show ?case
  proof (cases "F = [] \<and> T = []")
    case True
    then show ?thesis using di_at_current [OF less.prems]
      by (subst diff_loop.simps) (simp add: diff_round_def)
  next
    case False
    then obtain l' d' F' T' where *: "diff_round (l, d) = Some (Inr (l @ l', d'))" "di_at heq d' F' T'"
      "diff_paths heq F T = l' @ diff_paths heq F' T'" "paths_weight F' + paths_weight T' < paths_weight F + paths_weight T"
      using diff_round_at [OF less.prems, of l] by blast
    then show ?thesis using less.hyps [OF *(4,2)] by (subst diff_loop.simps) simp
  qed
qed

lemma NewIter_at:
  assumes "good_root root"
  shows "\<exists>it it' r c. NewIter root = Inr it \<and> Next it = (r, it') \<and> turnEOFIntoNil r = Inr c \<and>
    iter_at it' c (top_paths root)"
proof -
  have pl: "plain (top_paths root)"
    using assms by (auto simp: top_paths_def good_root_def list_all_iff split: option.splits)
  have "\<exists>it. NewIter root = Inr it \<and> iter_ok it \<and> pending it = top_paths root \<and> \<not> it_hasStarted it"
    using assms
    by (auto simp: NewIter_def newIter_def frame_New_def Children_def good_root_def top_paths_def
        iter_ok_def pending_def split: option.splits)
  then obtain it where it: "NewIter root = Inr it" "iter_ok it" "pending it = top_paths root" "\<not> it_hasStarted it"
    by blast
  obtain r it' where a: "advance False it = (r, it')" by (cases "advance False it")
  have "walk_ok (pending it)" using pl it(3) by (simp add: plain_walk_ok)
  note adv = advance_pending [OF it(2) walk_ok_readable [OF this] a]
  have "upcoming False it = top_paths root" using it by (simp add: upcoming_def)
  then show ?thesis using it(1) a adv pl
    by (auto simp: Next_def iter_at_def turnEOFIntoNil_def split: list.splits)
qed

lemma DiffTree_refines_diff_paths:
  assumes "good_root fromTree" and "good_root toTree"
  shows "DiffTree fromTree toTree heq = Inr (diff_paths heq (top_paths fromTree) (top_paths toTree))"
proof -
  obtain f f' r c where f: "NewIter fromTree = Inr f" "Next f = (r, f')" "turnEOFIntoNil r = Inr c"
    "iter_at f' c (top_paths fromTree)"
    using NewIter_at [OF assms(1)] by blast
  obtain t t' r2 c2 where t: "NewIter toTree = Inr t" "Next t = (r2, t')" "turnEOFIntoNil r2 = Inr c2"
    "iter_at t' c2 (top_paths toTree)"
    using NewIter_at [OF assms(2)] by blast
  define d where "d = \<lparr>di_from_iter = f', di_from_current = c, di_to_iter = t', di_to_current = c2, di_hashEqual = heq\<rparr>"
  have "newDoubleIter fromTree toTree heq = Inr d"
    using f t by (simp add: newDoubleIter_def map_err_def d_def)
  moreover have "di_at heq d (top_paths fromTree) (top_paths toTree)"
    using f t by (simp add: di_at_def d_def)
  ultimately show ?thesis by (simp add: DiffTree_def DiffTreeContext_def diff_loop_at)
qed

end
