(* ===== verification/Tree_Diff_Spec.thy ===== *)
theory Tree_Diff_Spec
  imports Tree_Diff "HOL-Library.Sublist"
begin

text \<open>
  What the difference of two tries is, without an algorithm, and that \<open>DiffTree\<close> computes it: the
  files that only one trie has are deleted or inserted, the files of both whose hashes differ are
  modified, each exactly once. Applying the changes to the files of one trie gives those of the other.
\<close>

subsection \<open>Names of paths and their order\<close>

definition names :: "Path \<Rightarrow> bytes list" where "names p = map n_Name p"

text \<open>Two name lists that differ at a position: neither is the path of a directory above the other.\<close>

definition apart :: "bytes list \<Rightarrow> bytes list \<Rightarrow> bool" where
  "apart a b \<longleftrightarrow> (\<exists>u x v y w. a = u @ x # v \<and> b = u @ y # w \<and> x < y)"

lemma names_simps [simp]: "names [] = []" "names (n # p) = n_Name n # names p" "names (p @ q) = names p @ names q"
  by (simp_all add: names_def)

lemma length_names [simp]: "length (names p) = length p" by (simp add: names_def)

lemma path_Compare_names:
  "path_Compare p q = (if names p < names q then - 1 else if names p = names q then 0 else 1)"
  by (induction p q rule: path_Compare.induct) (auto simp: strings_Compare_def)

lemma less_iff_apart: "(a :: bytes list) < b \<longleftrightarrow> strict_prefix a b \<or> apart a b"
proof -
  have "strict_prefix a b \<longleftrightarrow> (\<exists>x v. b = a @ x # v)"
    by (auto elim: strict_prefixE' intro: strict_prefixI')
  then show ?thesis unfolding list_less_def lexord_def apart_def by simp blast
qed

lemma apart_extend: "apart a b \<Longrightarrow> apart (a @ c) (b @ d)"
  unfolding apart_def by (metis append.assoc append_Cons)

lemma apart_Cons_same: "apart (x # a) (x # b) \<longleftrightarrow> apart a b"
  unfolding apart_def by (auto simp: append_eq_Cons_conv Cons_eq_append_conv) (metis append_Cons)

lemma apart_same_prefix: "x < y \<Longrightarrow> apart (a @ [x]) (a @ [y])"
  unfolding apart_def by blast

lemma apart_not_prefix: "apart a b \<Longrightarrow> \<not> prefix a b \<and> \<not> prefix b a"
  unfolding apart_def prefix_def by auto

lemma apart_neq: "apart a b \<Longrightarrow> a @ c \<noteq> b @ d"
  using apart_extend [of a b c d] apart_not_prefix by fastforce

definition in_order :: "Path list \<Rightarrow> bool" where
  "in_order ps \<longleftrightarrow> sorted_wrt (\<lambda>p q. apart (names p) (names q)) ps"

lemma in_order_simps [simp]:
  "in_order []" "in_order (p # ps) \<longleftrightarrow> (\<forall>q\<in>set ps. apart (names p) (names q)) \<and> in_order ps"
  by (simp_all add: in_order_def)

lemma in_order_append:
  "in_order (ps @ qs) \<longleftrightarrow> in_order ps \<and> in_order qs \<and> (\<forall>p\<in>set ps. \<forall>q\<in>set qs. apart (names p) (names q))"
  by (simp add: in_order_def sorted_wrt_append)

lemma in_order_siblings:
  assumes "distinct (map n_Name ns)"
  shows "in_order (siblings p (sort_key n_Name ns))"
proof -
  have "sorted_wrt (<) (map n_Name (sort_key n_Name ns))"
    using assms by (simp add: strict_sorted_iff distinct_map)
  then show ?thesis
    by (auto simp: in_order_def siblings_def sorted_wrt_map apart_same_prefix elim: sorted_wrt_mono_rel [rotated])
qed

lemma in_order_kids: "good_node (path_Last p) \<Longrightarrow> in_order (kid_paths p)"
  by (simp add: kid_paths_def in_order_siblings good_nodeD)

lemma kid_paths_extend: "q \<in> set (kid_paths p) \<Longrightarrow> \<exists>n. q = p @ [n]"
  by (auto simp: kid_paths_def siblings_def)

lemma in_order_unfold:
  assumes "in_order (p # F)" and "good_node (path_Last p)"
  shows "in_order (kid_paths p @ F)"
  using assms in_order_kids apart_extend [where d = "[]"]
  by (fastforce simp: in_order_append dest!: kid_paths_extend)

subsection \<open>Files lie below their path\<close>

definition inner :: "noder \<Rightarrow> Path list" where
  "inner n = concat (map node_files (sort_key n_Name (n_kids n)))"

lemma node_files_not_Nil: "q \<in> set (node_files n) \<Longrightarrow> q \<noteq> []"
  by (cases n) (auto simp: Let_def split: if_splits)

lemma files_dir_inner: "p \<noteq> [] \<Longrightarrow> path_IsDir p \<Longrightarrow> files p = map ((@) p) (inner (path_Last p))"
  by (simp add: files_dir kid_paths_def files_of_siblings inner_def)

lemma files_below: "p \<noteq> [] \<Longrightarrow> q \<in> set (files p) \<Longrightarrow> \<exists>r. q = p @ r"
  by (cases "path_IsDir p") (auto simp: files_dir_inner files_file)

lemma files_of_below: "plain ps \<Longrightarrow> q \<in> set (files_of ps) \<Longrightarrow> \<exists>p\<in>set ps. \<exists>r. q = p @ r"
  by (induction ps) (auto dest: files_below)

lemma inner_not_Nil: "r \<in> set (inner n) \<Longrightarrow> r \<noteq> []"
  by (auto simp: inner_def dest: node_files_not_Nil)

definition fnames :: "Path list \<Rightarrow> bytes list set" where
  "fnames fs = names ` set fs"

lemma fnames_simps [simp]:
  "fnames [] = {}" "fnames (p # ps) = insert (names p) (fnames ps)" "fnames (ps @ qs) = fnames ps \<union> fnames qs"
  by (auto simp: fnames_def)

lemma apart_files_disjoint:
  assumes "plain ps" and "plain qs" and "\<And>p q. p \<in> set ps \<Longrightarrow> q \<in> set qs \<Longrightarrow> apart (names p) (names q) \<or> apart (names q) (names p)"
  shows "fnames (files_of ps) \<inter> fnames (files_of qs) = {}"
proof -
  { fix f g assume "f \<in> set (files_of ps)" "g \<in> set (files_of qs)"
    then obtain p r q s where "p \<in> set ps" "f = p @ r" "q \<in> set qs" "g = q @ s"
      using files_of_below assms(1,2) by metis
    then have "names f \<noteq> names g" using assms(3) [of p q] apart_neq apart_neq [symmetric] by auto }
  then show ?thesis by (auto simp: fnames_def)
qed

lemma files_of_distinct:
  assumes "plain ps" and "in_order ps"
  shows "distinct (map names (files_of ps))"
  using assms
proof (induction "paths_weight ps" arbitrary: ps rule: less_induct)
  case less
  show ?case
  proof (cases ps)
    case (Cons p qs)
    have "fnames (files_of [p]) \<inter> fnames (files_of qs) = {}"
      using less.prems Cons by (intro apart_files_disjoint) auto
    moreover have "distinct (map names (files_of qs))" using less Cons by simp
    moreover have "distinct (map names (files p))"
    proof (cases "path_IsDir p")
      case True
      then have "files p = files_of (kid_paths p)" using less.prems Cons by (simp add: files_dir)
      moreover have "distinct (map names (files_of (kid_paths p)))"
        using less.prems Cons paths_weight_kids [of p] by (intro less.hyps) (auto simp: plain_kids in_order_kids)
      ultimately show ?thesis by simp
    qed (use less.prems Cons in \<open>simp add: files_file\<close>)
    ultimately show ?thesis using Cons by (simp add: fnames_def)
  qed simp
qed

subsection \<open>The difference of two lists of files\<close>

definition changes_between :: "(bytes \<Rightarrow> bytes \<Rightarrow> bool) \<Rightarrow> Path list \<Rightarrow> Path list \<Rightarrow> Change set" where
  "changes_between heq A B =
     NewDelete ` {p \<in> set A. names p \<notin> fnames B} \<union>
     NewInsert ` {q \<in> set B. names q \<notin> fnames A} \<union>
     {NewModify p q | p q. p \<in> set A \<and> q \<in> set B \<and> names p = names q \<and> \<not> heq (path_Hash p) (path_Hash q)}"

lemma change_inject [simp]:
  "NewDelete p = NewDelete p' \<longleftrightarrow> p = p'" "NewInsert p = NewInsert p' \<longleftrightarrow> p = p'"
  "NewModify p q = NewModify p' q' \<longleftrightarrow> p = p' \<and> q = q'"
  "NewDelete p \<noteq> NewInsert q" "NewInsert q \<noteq> NewDelete p" "NewDelete p \<noteq> NewModify p' q'" "NewModify p' q' \<noteq> NewDelete p"
  "NewInsert p \<noteq> NewModify p' q'" "NewModify p' q' \<noteq> NewInsert p"
  by (auto simp: NewDelete_def NewInsert_def NewModify_def)

lemma changes_between_split:
  assumes "fnames A1 \<inter> fnames B2 = {}" and "fnames A2 \<inter> fnames B1 = {}"
  shows "changes_between heq (A1 @ A2) (B1 @ B2) = changes_between heq A1 B1 \<union> changes_between heq A2 B2"
proof -
  have 1: "names p \<notin> fnames B2" if "p \<in> set A1" for p using assms(1) that by (auto simp: fnames_def)
  have 2: "names p \<notin> fnames B1" if "p \<in> set A2" for p using assms(2) that by (auto simp: fnames_def)
  have 3: "names p \<notin> fnames A1" if "p \<in> set B2" for p using assms(1) that by (auto simp: fnames_def)
  have 4: "names p \<notin> fnames A2" if "p \<in> set B1" for p using assms(2) that by (auto simp: fnames_def)
  have m: "names p \<noteq> names q" if "p \<in> set A1 \<and> q \<in> set B2 \<or> p \<in> set A2 \<and> q \<in> set B1" for p q
    using assms that by (auto simp: fnames_def)
  show ?thesis unfolding changes_between_def using 1 2 3 4 m by auto
qed

lemma no_changes_iff:
  "changes_between heq A B = {} \<longleftrightarrow> fnames A = fnames B \<and>
     (\<forall>p\<in>set A. \<forall>q\<in>set B. names p = names q \<longrightarrow> heq (path_Hash p) (path_Hash q))"
  by (auto simp: changes_between_def fnames_def)

lemma fnames_map_append: "fnames (map ((@) p) A) = (@) (names p) ` fnames A"
  by (simp add: fnames_def image_image)

lemma changes_between_Nil:
  "changes_between heq A [] = NewDelete ` set A" "changes_between heq [] B = NewInsert ` set B"
  by (auto simp: changes_between_def)

lemma changes_between_disjoint:
  assumes "fnames A \<inter> fnames B = {}"
  shows "changes_between heq A B = NewDelete ` set A \<union> NewInsert ` set B"
  using changes_between_split [of A B "[]" "[]" heq] assms by (simp add: changes_between_Nil)

lemma changes_between_apart:
  assumes "fnames A1 \<inter> fnames A2 = {}" and "fnames B1 \<inter> fnames B2 = {}"
  shows "changes_between heq A1 B1 \<inter> changes_between heq A2 B2 = {}"
  using assms by (auto simp: changes_between_def fnames_def)

subsection \<open>What the hash comparison promises\<close>

fun subnodes :: "noder \<Rightarrow> noder set" where
  "subnodes (Noder nm h d sk er kids) = insert (Noder nm h d sk er kids) (\<Union>n\<in>set kids. subnodes n)"

text \<open>Two noders with the same files below them: the same names, and hashes that compare equal.\<close>

definition same_files :: "(bytes \<Rightarrow> bytes \<Rightarrow> bool) \<Rightarrow> noder \<Rightarrow> noder \<Rightarrow> bool" where
  "same_files heq a b \<longleftrightarrow> n_IsDir a = n_IsDir b \<and> fnames (inner a) = fnames (inner b) \<and>
     (\<forall>p\<in>set (inner a). \<forall>q\<in>set (inner b). names p = names q \<longrightarrow> heq (path_Hash p) (path_Hash q))"

definition hash_sound :: "(bytes \<Rightarrow> bytes \<Rightarrow> bool) \<Rightarrow> noder set \<Rightarrow> noder set \<Rightarrow> bool" where
  "hash_sound heq A B \<longleftrightarrow> (\<forall>a\<in>A. \<forall>b\<in>B. heq (n_Hash a) (n_Hash b) \<longrightarrow> same_files heq a b)"

definition nodes_of :: "Path list \<Rightarrow> noder set" where
  "nodes_of ps = (\<Union>p\<in>set ps. subnodes (path_Last p))"

lemma nodes_of_simps [simp]:
  "nodes_of [] = {}" "nodes_of (p # ps) = subnodes (path_Last p) \<union> nodes_of ps"
  "nodes_of (ps @ qs) = nodes_of ps \<union> nodes_of qs"
  by (auto simp: nodes_of_def)

lemma subnodes_self: "n \<in> subnodes n" by (cases n) simp

lemma nodes_of_siblings: "nodes_of (siblings p ns) = (\<Union>n\<in>set ns. subnodes n)"
  by (induction ns) (auto simp: path_Last_def)

lemma nodes_of_kids: "nodes_of (kid_paths p) \<subseteq> subnodes (path_Last p)"
  unfolding kid_paths_def nodes_of_siblings by (cases "path_Last p") auto

lemma hash_sound_mono: "hash_sound heq A B \<Longrightarrow> A' \<subseteq> A \<Longrightarrow> B' \<subseteq> B \<Longrightarrow> hash_sound heq A' B'"
  unfolding hash_sound_def by blast

lemma same_hash_no_change:
  assumes "p \<noteq> []" "q \<noteq> []" and "good_node (path_Last p)" "good_node (path_Last q)" and "names p = names q"
    and "heq (path_Hash p) (path_Hash q)" and "same_files heq (path_Last p) (path_Last q)"
  shows "changes_between heq (files p) (files q) = {}"
proof (cases "path_IsDir p")
  case False
  then show ?thesis using assms
    by (auto simp: files_file same_files_def path_IsDir_def changes_between_def)
next
  case True
  have dirs: "files p = map ((@) p) (inner (path_Last p))" "files q = map ((@) q) (inner (path_Last q))"
    using True assms by (auto simp: files_dir_inner same_files_def path_IsDir_def)
  have "path_Hash (a @ r) = path_Hash r" if "r \<in> set (inner n)" for a r n
    using inner_not_Nil [OF that] by (simp add: path_Hash_def path_Last_def)
  moreover have "fnames (files p) = fnames (files q)"
    using assms(5,7) by (simp add: dirs fnames_map_append same_files_def)
  ultimately show ?thesis
    using assms(5,7) unfolding no_changes_iff by (auto simp: dirs same_files_def)
qed

lemma replaced_disjoint:
  assumes "p \<noteq> []" "q \<noteq> []" "names p = names q" and "path_IsDir p \<noteq> path_IsDir q"
  shows "fnames (files p) \<inter> fnames (files q) = {}"
proof -
  have longer: "names p \<notin> fnames (map ((@) q) (inner n))" if "names p = names q" for p q n
  proof -
    have "[] \<notin> fnames (inner n)" unfolding fnames_def names_def using inner_not_Nil by auto
    then show ?thesis using that by (simp add: fnames_map_append image_iff)
  qed
  show ?thesis
  proof (cases "path_IsDir p")
    case True
    then show ?thesis using assms longer [of q p] by (simp add: files_dir_inner files_file)
  next
    case False
    then show ?thesis using assms longer [of p q] by (simp add: files_dir_inner files_file)
  qed
qed

subsection \<open>The algorithm computes the difference\<close>

definition computes :: "(bytes \<Rightarrow> bytes \<Rightarrow> bool) \<Rightarrow> Change list \<Rightarrow> Path list \<Rightarrow> Path list \<Rightarrow> bool" where
  "computes heq cs A B \<longleftrightarrow> set cs = changes_between heq A B \<and> distinct cs"

lemma computes_append:
  assumes "computes heq cs1 A1 B1" and "computes heq cs2 A2 B2"
    and "(fnames A1 \<union> fnames B1) \<inter> (fnames A2 \<union> fnames B2) = {}"
  shows "computes heq (cs1 @ cs2) (A1 @ A2) (B1 @ B2)"
proof -
  have "changes_between heq A1 B1 \<inter> changes_between heq A2 B2 = {}"
    by (rule changes_between_apart) (use assms(3) in auto)
  moreover have "changes_between heq (A1 @ A2) (B1 @ B2) = changes_between heq A1 B1 \<union> changes_between heq A2 B2"
    by (rule changes_between_split) (use assms(3) in auto)
  ultimately show ?thesis using assms(1,2) by (auto simp: computes_def)
qed

lemma computes_deletes: "distinct A \<Longrightarrow> computes heq (map NewDelete A) A []"
  by (simp add: computes_def changes_between_Nil distinct_map inj_on_def)

lemma computes_inserts: "distinct B \<Longrightarrow> computes heq (map NewInsert B) [] B"
  by (simp add: computes_def changes_between_Nil distinct_map inj_on_def)

lemma computes_replaces:
  "distinct A \<Longrightarrow> distinct B \<Longrightarrow> fnames A \<inter> fnames B = {} \<Longrightarrow>
     computes heq (map NewDelete A @ map NewInsert B) A B"
  by (auto simp: computes_def changes_between_disjoint distinct_map inj_on_def)

definition level :: "Path list \<Rightarrow> Path list \<Rightarrow> bool" where
  "level F T \<longleftrightarrow> (\<forall>p\<in>set F. \<forall>q\<in>set T.
     \<not> strict_prefix (names p) (names q) \<and> \<not> strict_prefix (names q) (names p))"

definition diffable :: "(bytes \<Rightarrow> bytes \<Rightarrow> bool) \<Rightarrow> Path list \<Rightarrow> Path list \<Rightarrow> bool" where
  "diffable heq F T \<longleftrightarrow> plain F \<and> plain T \<and> in_order F \<and> in_order T \<and> level F T \<and>
     hash_sound heq (nodes_of F) (nodes_of T)"

lemma level_apart:
  "level F T \<Longrightarrow> p \<in> set F \<Longrightarrow> q \<in> set T \<Longrightarrow> names p < names q \<Longrightarrow> apart (names p) (names q)"
  "level F T \<Longrightarrow> p \<in> set F \<Longrightarrow> q \<in> set T \<Longrightarrow> names q < names p \<Longrightarrow> apart (names q) (names p)"
  by (auto simp: level_def less_iff_apart)

lemma apart_less: "apart a b \<Longrightarrow> a < b" by (simp add: less_iff_apart)

lemma level_before_all:
  assumes "level F (q # T)" and "in_order (q # T)" and "p \<in> set F" and "names p < names q" and "r \<in> set (q # T)"
  shows "apart (names p) (names r)"
proof -
  have "names q \<le> names r" using assms(2,5) apart_less by fastforce
  with assms(4) have "names p < names r" by simp
  then show ?thesis using assms(1,3,5) level_apart(1) by blast
qed

lemma level_after_all:
  assumes "level (p # F) T" and "in_order (p # F)" and "q \<in> set T" and "names q < names p" and "r \<in> set (p # F)"
  shows "apart (names q) (names r)"
proof -
  have "names p \<le> names r" using assms(2,5) apart_less by fastforce
  with assms(4) have "names q < names r" by simp
  then show ?thesis using assms(1,3,5) level_apart(2) by blast
qed

lemma diffable_tails:
  "diffable heq (p # F) T \<Longrightarrow> diffable heq F T" "diffable heq F (q # T) \<Longrightarrow> diffable heq F T"
  by (auto simp: diffable_def level_def elim: hash_sound_mono)

lemma level_append: "level (A @ F) (B @ T) \<longleftrightarrow> level A B \<and> level A T \<and> level F B \<and> level F T"
  by (auto simp: level_def)

lemma level_if_apart:
  "(\<And>a b. a \<in> set A \<Longrightarrow> b \<in> set B \<Longrightarrow> apart (names a) (names b) \<or> apart (names b) (names a)) \<Longrightarrow> level A B"
  unfolding level_def strict_prefix_def using apart_not_prefix by blast

lemma kid_paths_apart:
  assumes "a \<in> set (kid_paths p)" and "apart (names p) (names t)"
  shows "apart (names a) (names t)"
proof -
  obtain n where "a = p @ [n]" using kid_paths_extend [OF assms(1)] by blast
  then show ?thesis using apart_extend [OF assms(2), of "[n_Name n]" "[]"] by simp
qed

lemma diffable_unfold:
  assumes "diffable heq (p # F) (q # T)" and "names p = names q"
  shows "diffable heq (kid_paths p @ F) (kid_paths q @ T)"
proof -
  have ord: "in_order (kid_paths p @ F)" "in_order (kid_paths q @ T)"
    using assms(1) by (auto simp: diffable_def intro: in_order_unfold)
  have "apart (names p) (names t)" if "t \<in> set T" for t
    using that assms by (simp add: diffable_def)
  then have 1: "level (kid_paths p) T" by (intro level_if_apart) (blast intro: kid_paths_apart)
  have "apart (names q) (names f)" if "f \<in> set F" for f
    using that assms by (simp add: diffable_def)
  then have 2: "level F (kid_paths q)" by (intro level_if_apart) (blast intro: kid_paths_apart)
  have 3: "level (kid_paths p) (kid_paths q)"
    using assms(2) by (auto simp: level_def dest!: kid_paths_extend prefix_length_less)
  have 4: "level F T" using assms(1) by (simp add: diffable_def level_def)
  have "hash_sound heq (nodes_of (p # F)) (nodes_of (q # T))" using assms(1) by (simp only: diffable_def)
  then have "hash_sound heq (nodes_of (kid_paths p @ F)) (nodes_of (kid_paths q @ T))"
    by (rule hash_sound_mono) (use nodes_of_kids in auto)
  then show ?thesis using assms(1) ord 1 2 3 4 unfolding diffable_def level_append by (simp add: plain_kids)
qed

lemma files_distinct: "p \<noteq> [] \<Longrightarrow> good_node (path_Last p) \<Longrightarrow> distinct (files p)"
  using files_of_distinct [of "[p]"] by (simp add: distinct_map)

lemma computes_Nil: "computes heq [] [] []"
  by (simp add: computes_def changes_between_def)

lemma diff_paths_from_only: "plain F \<Longrightarrow> in_order F \<Longrightarrow> computes heq (diff_paths heq F []) (files_of F) []"
proof (induction F)
  case (Cons p F)
  have "fnames (files_of [p]) \<inter> fnames (files_of F) = {}"
    using Cons.prems by (intro apart_files_disjoint) auto
  then show ?case
    using Cons computes_append [OF computes_deletes, of "files p" heq "diff_paths heq F []" "files_of F" "[]"]
    by (simp add: files_distinct)
qed (simp add: computes_Nil)

lemma diff_paths_to_only: "plain T \<Longrightarrow> in_order T \<Longrightarrow> computes heq (diff_paths heq [] T) [] (files_of T)"
proof (induction T)
  case (Cons q T)
  have "fnames (files_of [q]) \<inter> fnames (files_of T) = {}"
    using Cons.prems by (intro apart_files_disjoint) auto
  then show ?case
    using Cons computes_append [OF computes_inserts, of "files q" heq "diff_paths heq [] T" "[]" "files_of T"]
    by (simp add: files_distinct)
qed (simp add: computes_Nil)

text \<open>A subtree that sorts before everything on the other side is deleted, or inserted, as a whole.\<close>

lemma computes_delete_first:
  assumes "diffable heq (p # F) (q # T)" and "names p < names q"
    and "computes heq cs (files_of F) (files_of (q # T))"
  shows "computes heq (map NewDelete (files p) @ cs) (files_of (p # F)) (files_of (q # T))"
proof -
  have pl: "plain [p]" "plain F" "plain (q # T)" using assms(1) by (auto simp: diffable_def)
  have "fnames (files_of [p]) \<inter> fnames (files_of F) = {}"
    using assms(1) pl by (intro apart_files_disjoint) (auto simp: diffable_def)
  moreover have "fnames (files_of [p]) \<inter> fnames (files_of (q # T)) = {}"
    using assms(1,2) pl level_before_all [of "p # F" q T p]
    by (intro apart_files_disjoint) (auto simp: diffable_def)
  ultimately show ?thesis
    using computes_append [OF computes_deletes assms(3), of "files p"] pl by (auto simp: files_distinct)
qed

lemma computes_insert_first:
  assumes "diffable heq (p # F) (q # T)" and "names q < names p"
    and "computes heq cs (files_of (p # F)) (files_of T)"
  shows "computes heq (map NewInsert (files q) @ cs) (files_of (p # F)) (files_of (q # T))"
proof -
  have pl: "plain [q]" "plain T" "plain (p # F)" using assms(1) by (auto simp: diffable_def)
  have "fnames (files_of [q]) \<inter> fnames (files_of T) = {}"
    using assms(1) pl by (intro apart_files_disjoint) (auto simp: diffable_def)
  moreover have "fnames (files_of [q]) \<inter> fnames (files_of (p # F)) = {}"
    using assms(1,2) pl level_after_all [of p F "q # T" q]
    by (intro apart_files_disjoint) (auto simp: diffable_def)
  ultimately show ?thesis
    using computes_append [OF computes_inserts assms(3), of "files q"] pl by (auto simp: files_distinct)
qed

text \<open>Two subtrees at the same path are compared with each other and with nothing else.\<close>

lemma computes_both_first:
  assumes "diffable heq (p # F) (q # T)" and "names p = names q"
    and "computes heq cs1 (files p) (files q)" and "computes heq cs2 (files_of F) (files_of T)"
  shows "computes heq (cs1 @ cs2) (files_of (p # F)) (files_of (q # T))"
proof -
  have pl: "plain [p]" "plain F" "plain [q]" "plain T" using assms(1) by (auto simp: diffable_def)
  have "fnames (files_of [a]) \<inter> fnames (files_of B) = {}" if "(a, B) \<in> {p, q} \<times> {F, T}" for a B
    using assms(1,2) pl that by (intro apart_files_disjoint) (auto simp: diffable_def)
  from this [of p F] this [of p T] this [of q F] this [of q T]
  have "(fnames (files p) \<union> fnames (files q)) \<inter> (fnames (files_of F) \<union> fnames (files_of T)) = {}" by auto
  from computes_append [OF assms(3,4) this] show ?thesis by simp
qed

lemma diff_paths_computes:
  assumes "diffable heq F T"
  shows "computes heq (diff_paths heq F T) (files_of F) (files_of T)"
  using assms
proof (induction heq F T rule: diff_paths.induct)
  case (4 heq p F q T)
  have pl: "p \<noteq> []" "good_node (path_Last p)" "q \<noteq> []" "good_node (path_Last q)"
    using "4.prems" by (auto simp: diffable_def)
  consider (less) "names p < names q" | (greater) "names q < names p" | (equal) "names p = names q" by force
  then show ?case
  proof cases
    case less
    then have c: "path_Compare p q = - 1" by (simp add: path_Compare_names)
    then show ?thesis
      using computes_delete_first [OF "4.prems" less "4.IH"(1) [OF c]] diffable_tails(1) [OF "4.prems"] by simp
  next
    case greater
    then have c: "path_Compare p q = 1" by (auto simp: path_Compare_names)
    then show ?thesis
      using computes_insert_first [OF "4.prems" greater "4.IH"(2)] diffable_tails(2) [OF "4.prems"] by simp
  next
    case equal
    then have c: "path_Compare p q \<noteq> - 1" "path_Compare p q \<noteq> 1" by (auto simp: path_Compare_names)
    have tails: "diffable heq F T" using "4.prems" diffable_tails by blast
    note both = computes_both_first [OF "4.prems" equal]
    show ?thesis
    proof (cases "heq (path_Hash p) (path_Hash q)")
      case True
      have "same_files heq (path_Last p) (path_Last q)"
        using "4.prems" True subnodes_self
        by (auto simp: diffable_def hash_sound_def path_Hash_def)
      then have "computes heq [] (files p) (files q)"
        using same_hash_no_change True pl equal by (simp add: computes_def)
      from both [OF this "4.IH"(3) [OF c True tails]] c True show ?thesis by simp
    next
      case False
      note differ = False
      show ?thesis
      proof (cases "path_IsDir p \<and> path_IsDir q \<and> kid_paths p \<noteq> [] \<and> kid_paths q \<noteq> []")
        case True
        then show ?thesis
          using "4.IH"(4) [OF c False True diffable_unfold [OF "4.prems" equal]] c False pl
          by (simp add: files_dir)
      next
        case nd: False
        show ?thesis
        proof (cases "\<not> path_IsDir p \<and> \<not> path_IsDir q")
          case True
          then have "computes heq [NewModify p q] (files p) (files q)"
            using pl equal differ by (auto simp: files_file computes_def changes_between_def)
          from both [OF this "4.IH"(5) [OF c differ nd True tails]] c True differ nd pl
          show ?thesis by (simp add: files_file)
        next
          case False
          then have "fnames (files p) \<inter> fnames (files q) = {}"
            using nd pl equal replaced_disjoint [of p q] files_empty_dir [of p] files_empty_dir [of q]
            by (cases "path_IsDir p"; cases "path_IsDir q") auto
          then have "computes heq (map NewDelete (files p) @ map NewInsert (files q)) (files p) (files q)"
            using pl by (simp add: computes_replaces files_distinct)
          from both [OF this "4.IH"(6) [OF c differ nd False tails]] c False differ nd
          show ?thesis by auto
        qed
      qed
    qed
  qed
qed (simp_all add: diff_paths_from_only diff_paths_to_only diffable_def computes_Nil
    diff_paths_from_only [of "_ # _", simplified] diff_paths_to_only [of "_ # _", simplified])

subsection \<open>The difference of two tries\<close>

definition trie_files :: "noder option \<Rightarrow> Path list" where
  "trie_files root = files_of (top_paths root)"

definition trie_nodes :: "noder option \<Rightarrow> noder set" where
  "trie_nodes root = nodes_of (top_paths root)"

lemma top_paths_diffable:
  assumes "good_root A" and "good_root B" and "hash_sound heq (trie_nodes A) (trie_nodes B)"
  shows "diffable heq (top_paths A) (top_paths B)"
proof -
  have "plain (top_paths r) \<and> in_order (top_paths r)" if "good_root r" for r
    using that by (auto simp: good_root_def top_paths_def list_all_iff in_order_siblings split: option.splits)
  moreover have "length p = 1" if "p \<in> set (top_paths r)" for p r
    using that by (auto simp: top_paths_def siblings_def split: option.splits)
  then have "level (top_paths A) (top_paths B)"
    by (auto simp: level_def dest!: prefix_length_less)
  ultimately show ?thesis using assms by (simp add: diffable_def trie_nodes_def)
qed

text \<open>
  \<^bold>\<open>C12\<close>. The difference of two tries is exact: \<open>DiffTree\<close> returns, and its changes are, each once, the
  deletion of every file that only the first trie has, the insertion of every file that only the
  second has, and the modification of every file that both have with hashes that do not compare
  equal. The tries are readable and have named, distinct siblings and no skipped noders, and noders
  whose hashes compare equal have the same files below them, as a merkle trie has it.
\<close>

theorem DiffTree_exact:
  assumes "good_root fromTree" and "good_root toTree"
    and "hash_sound heq (trie_nodes fromTree) (trie_nodes toTree)"
  shows "\<exists>cs. DiffTree fromTree toTree heq = Inr cs \<and> distinct cs \<and>
    set cs = changes_between heq (trie_files fromTree) (trie_files toTree)"
  using DiffTree_refines_diff_paths [OF assms(1,2)] diff_paths_computes [OF top_paths_diffable [OF assms]]
  by (simp add: computes_def trie_files_def)

definition ex_file :: "bytes \<Rightarrow> byte \<Rightarrow> noder" where "ex_file nm h = Noder nm [h] False False None []"
definition ex_dir :: "bytes \<Rightarrow> byte \<Rightarrow> noder list \<Rightarrow> noder" where "ex_dir nm h ks = Noder nm [h] True False None ks"

definition ex_from :: noder where
  "ex_from = ex_dir [] 0 [ex_file [0x7A] 3, ex_dir [0x61] 9 [ex_file [0x78] 1, ex_file [0x79] 2], ex_dir [0x73] 7 [ex_file [0x71] 4]]"

definition ex_to :: noder where
  "ex_to = ex_dir [] 1 [ex_dir [0x61] 8 [ex_file [0x78] 1, ex_dir [0x79] 6 [ex_file [0x77] 2]], ex_dir [0x73] 7 [ex_file [0x71] 4], ex_file [0x7A] 5]"

lemmas ex_trees = ex_from_def ex_to_def ex_dir_def ex_file_def

lemma DiffTree_exact_witness:
  "good_root (Some ex_from) \<and> good_root (Some ex_to) \<and> hash_sound (=) (trie_nodes (Some ex_from)) (trie_nodes (Some ex_to)) \<and>
   (\<exists>cs. DiffTree (Some ex_from) (Some ex_to) (=) = Inr cs \<and> distinct cs \<and>
      set cs = changes_between (=) (trie_files (Some ex_from)) (trie_files (Some ex_to)))"
proof -
  have g: "good_root (Some ex_from)" "good_root (Some ex_to)" by code_simp+
  have h: "hash_sound (=) (trie_nodes (Some ex_from)) (trie_nodes (Some ex_to))" by code_simp
  from DiffTree_exact [OF g h] g h show ?thesis by blast
qed

subsection \<open>Applying the changes\<close>

definition file_map :: "Path list \<Rightarrow> (bytes list, bytes) map" where
  "file_map fs = map_of (map (\<lambda>p. (names p, path_Hash p)) fs)"

definition ch_names :: "Change \<Rightarrow> bytes list option" where
  "ch_names c = (case ch_To c of Some q \<Rightarrow> Some (names q) | None \<Rightarrow> map_option names (ch_From c))"

definition apply_change :: "Change \<Rightarrow> (bytes list, bytes) map \<Rightarrow> (bytes list, bytes) map" where
  "apply_change c m = (case ch_names c of None \<Rightarrow> m | Some k \<Rightarrow> m(k := map_option path_Hash (ch_To c)))"

lemma ch_names_simps [simp]:
  "ch_names (NewDelete p) = Some (names p)" "ch_names (NewInsert p) = Some (names p)"
  "ch_names (NewModify p q) = Some (names q)"
  "ch_To (NewDelete p) = None" "ch_To (NewInsert p) = Some p" "ch_To (NewModify p q) = Some q"
  by (simp_all add: ch_names_def NewDelete_def NewInsert_def NewModify_def)

lemma fold_apply_change:
  assumes "\<And>c. c \<in> set cs \<Longrightarrow> ch_names c = Some k \<Longrightarrow> map_option path_Hash (ch_To c) = v"
  shows "fold apply_change cs m k = (if \<exists>c\<in>set cs. ch_names c = Some k then v else m k)"
  using assms
proof (induction cs arbitrary: m)
  case (Cons c cs)
  have IH: "fold apply_change cs m' k = (if \<exists>c\<in>set cs. ch_names c = Some k then v else m' k)" for m'
    by (rule Cons.IH) (use Cons.prems in auto)
  have "apply_change c m k = (if ch_names c = Some k then map_option path_Hash (ch_To c) else m k)"
    by (auto simp: apply_change_def split: option.splits)
  then show ?case using IH [of "apply_change c m"] Cons.prems [of c] by auto
qed simp

lemma file_map_unique:
  assumes "distinct (map names fs)" and "p \<in> set fs"
  shows "file_map fs (names p) = Some (path_Hash p)"
  using assms by (auto simp: file_map_def o_def intro!: map_of_is_SomeI)

lemma file_map_None: "k \<notin> fnames fs \<Longrightarrow> file_map fs k = None"
  by (auto simp: file_map_def fnames_def map_of_eq_None_iff)

lemma changes_between_apply:
  assumes "distinct (map names A)" and "distinct (map names B)" and "set cs = changes_between (=) A B"
  shows "fold apply_change cs (file_map A) = file_map B"
proof
  fix k
  have val: "map_option path_Hash (ch_To c) = file_map B k" if "c \<in> set cs" "ch_names c = Some k" for c
    using that assms(2,3)
    by (auto simp: changes_between_def file_map_unique) (simp add: file_map_None)
  have untouched: "file_map A k = file_map B k" if nt: "\<not> (\<exists>c\<in>set cs. ch_names c = Some k)"
  proof (cases "k \<in> fnames A")
    case True
    then obtain p where p: "p \<in> set A" "names p = k" by (auto simp: fnames_def)
    have "NewDelete p \<in> set cs" if "k \<notin> fnames B" using p that assms(3) by (auto simp: changes_between_def)
    then have "k \<in> fnames B" using nt p(2) ch_names_simps(1) by blast
    then obtain q where q: "q \<in> set B" "names q = k" by (auto simp: fnames_def)
    have "path_Hash p = path_Hash q"
    proof (rule ccontr)
      assume "path_Hash p \<noteq> path_Hash q"
      then have "NewModify p q \<in> set cs" using p q assms(3) by (auto simp: changes_between_def)
      then show False using nt q by auto
    qed
    then show ?thesis using file_map_unique [OF assms(1) p(1)] file_map_unique [OF assms(2) q(1)] p q by simp
  next
    case False
    have "NewInsert q \<in> set cs" if "q \<in> set B" "names q = k" for q
      using False that assms(3) by (auto simp: changes_between_def)
    then have "k \<notin> fnames B" using nt ch_names_simps(2) unfolding fnames_def by blast
    then show ?thesis using False by (simp add: file_map_None)
  qed
  show "fold apply_change cs (file_map A) k = file_map B k"
    using fold_apply_change [of cs k "file_map B k" "file_map A"] val untouched by auto
qed

lemma trie_files_distinct: "good_root r \<Longrightarrow> distinct (map names (trie_files r))"
  using files_of_distinct [of "top_paths r"]
  by (auto simp: trie_files_def good_root_def top_paths_def list_all_iff in_order_siblings split: option.splits)

text \<open>
  \<^bold>\<open>C14\<close>. The changes carry one trie to the other: applied to the files of the first (a deletion
  removes the path, an insertion or modification gives it the new hash), in whatever order, they
  give exactly the paths and hashes of the second.
\<close>

theorem DiffTree_apply:
  assumes "good_root fromTree" and "good_root toTree"
    and "hash_sound (=) (trie_nodes fromTree) (trie_nodes toTree)"
  shows "\<exists>cs. DiffTree fromTree toTree (=) = Inr cs \<and>
    (\<forall>cs'. set cs' = set cs \<longrightarrow>
       fold apply_change cs' (file_map (trie_files fromTree)) = file_map (trie_files toTree))"
proof -
  obtain cs where "DiffTree fromTree toTree (=) = Inr cs"
      "set cs = changes_between (=) (trie_files fromTree) (trie_files toTree)"
    using DiffTree_refines_diff_paths [OF assms(1,2)] diff_paths_computes [OF top_paths_diffable [OF assms]]
    by (auto simp: computes_def trie_files_def)
  then show ?thesis using changes_between_apply trie_files_distinct assms(1,2) by auto
qed

lemma DiffTree_apply_witness:
  "hash_sound (=) (trie_nodes (Some ex_from)) (trie_nodes (Some ex_to)) \<and>
   (\<exists>cs. DiffTree (Some ex_from) (Some ex_to) (=) = Inr cs \<and>
    (\<forall>cs'. set cs' = set cs \<longrightarrow>
       fold apply_change cs' (file_map (trie_files (Some ex_from))) = file_map (trie_files (Some ex_to))))"
proof -
  have g: "good_root (Some ex_from)" "good_root (Some ex_to)" by code_simp+
  have h: "hash_sound (=) (trie_nodes (Some ex_from)) (trie_nodes (Some ex_to))" by code_simp
  from DiffTree_apply [OF g h] h show ?thesis by blast
qed

subsection \<open>Errors\<close>

definition read_err :: "trie_error \<Rightarrow> bool" where
  "read_err e \<longleftrightarrow> (\<exists>s. e = ChildrenErr s)"

lemma read_errs:
  "Children n = Inl e \<Longrightarrow> read_err e" "NumChildren n = Inl e \<Longrightarrow> read_err e" "frame_New n = Inl e \<Longrightarrow> read_err e"
  by (auto simp: Children_def NumChildren_def frame_New_def read_err_def result_simps split: option.splits)

lemma frame_New_length: "frame_New n = Inr g \<Longrightarrow> NumChildren n = Inr k \<Longrightarrow> length (fr_stack g) = k"
  by (auto simp: frame_New_def NumChildren_def Children_def result_simps split: option.splits)

lemma iter_ok_advance:
  assumes "iter_ok it" and "advance w it = (r, it')"
  shows "iter_ok it' \<and> (\<forall>e. r = Inl e \<longrightarrow> e = EOF \<or> read_err e)"
proof (cases "iter_current it")
  case (Inl e)
  then show ?thesis using assms iter_current_pending [OF assms(1)]
    by (auto simp: advance_def split: list.splits)
next
  case (Inr p)
  have cur: "iter_current i = Inl e \<Longrightarrow> e = EOF" if "iter_ok i" for i e
    using iter_current_pending [OF that] by (auto split: list.splits)
  obtain ps where ps: "pending it = p # ps"
    using iter_current_pending [OF assms(1)] Inr by (auto split: list.splits)
  show ?thesis
  proof (cases "it_hasStarted it")
    case False
    then show ?thesis using assms Inr by (auto simp: advance_def iter_ok_def)
  next
    case started: True
    show ?thesis
    proof (cases "NumChildren (path_Last p)")
      case (Inl e)
      then show ?thesis using assms Inr started read_errs(2) by (auto simp: advance_def path_NumChildren_def)
    next
      case num: (Inr k)
      show ?thesis
      proof (cases "k \<noteq> 0 \<and> w")
        case False
        then have "advance w it = (iter_current (iter_drop it), iter_drop it)"
          using Inr started num by (auto simp: advance_def path_NumChildren_def Let_def)
        then show ?thesis using assms iter_drop_pending(1) [OF assms(1)] cur by auto
      next
        case True
        show ?thesis
        proof (cases "frame_New (path_Last p)")
          case (Inl e)
          then show ?thesis using assms Inr started num True read_errs(3)
            by (auto simp: advance_def path_NumChildren_def)
        next
          case new: (Inr g)
          have "fr_stack g \<noteq> []" using frame_New_length [OF new num] True by auto
          moreover have "advance w it = (iter_current (iter_push g it), iter_push g it)"
            using Inr started num True new by (auto simp: advance_def path_NumChildren_def Let_def)
          ultimately show ?thesis using assms iter_push_pending(1) [OF assms(1) ps] cur by auto
        qed
      qed
    qed
  qed
qed

lemma addRecursive_loop_errors: "iter_ok i \<Longrightarrow> addRecursive_loop ctor i l = Inl e \<Longrightarrow> read_err e"
proof (induction ctor i l rule: addRecursive_loop.induct)
  case (1 ctor i l)
  obtain r i' where st: "advance True i = (r, i')" by (cases "advance True i")
  note ok = iter_ok_advance [OF "1.prems"(1) st]
  show ?case
  proof (cases r)
    case (Inl err)
    then show ?thesis using "1.prems"(2) ok st
      by (subst (asm) addRecursive_loop.simps) (auto simp: Step_def split: if_splits)
  next
    case (Inr p)
    have s: "Step i = (Inr p, i')" using st Inr by (simp add: Step_def)
    then have "addRecursive_loop ctor i l =
        addRecursive_loop ctor i' (if path_IsDir p \<or> path_Skip p then l else l @ [ctor p])"
      by (subst addRecursive_loop.simps) simp
    then show ?thesis
      using "1.IH" [of "Inr p" i' p] "1.prems"(2) ok s by (auto split: if_splits)
  qed
qed

lemma newIter_ok: "newIter root b = Inr i \<Longrightarrow> iter_ok i" "newIter root b = Inl e \<Longrightarrow> read_err e"
  by (auto simp: newIter_def Let_def iter_ok_def result_simps dest: read_errs(3) split: option.splits)

lemma addRecursive_errors: "addRecursive p ctor l = Inl e \<Longrightarrow> e = ErrEmptyFileName \<or> read_err e"
  by (auto simp: addRecursive_def NewIterFromPath_def result_simps dest: newIter_ok addRecursive_loop_errors split: if_splits)

definition di_ok :: "doubleIter \<Rightarrow> bool" where
  "di_ok d \<longleftrightarrow> iter_ok (di_from_iter d) \<and> iter_ok (di_to_iter d)"

text \<open>The errors of a round: the other ones of the type do not occur.\<close>

definition diff_err :: "trie_error \<Rightarrow> bool" where
  "diff_err e \<longleftrightarrow> e = ErrEmptyFileName \<or> read_err e \<or> (\<exists>s. e = FromErr (ChildrenErr s) \<or> e = ToErr (ChildrenErr s))"

lemma turnEOFIntoNil_Inl: "turnEOFIntoNil r = Inl e \<longleftrightarrow> r = Inl e \<and> e \<noteq> EOF"
  by (auto simp: turnEOFIntoNil_def split: sum.splits)

definition sound_result :: "trie_error + doubleIter \<Rightarrow> bool" where
  "sound_result r \<longleftrightarrow> (case r of Inl e \<Rightarrow> read_err e | Inr d \<Rightarrow> di_ok d)"

lemma advance_sound: "iter_ok it \<Longrightarrow> advance w it = (r, it') \<Longrightarrow>
  iter_ok it' \<and> (\<forall>e. turnEOFIntoNil r = Inl e \<longrightarrow> read_err e)"
  using iter_ok_advance [of it w r it'] by (auto simp: turnEOFIntoNil_Inl)

lemma nextFrom_sound: "di_ok d \<Longrightarrow> sound_result (nextFrom d)"
  using advance_sound [of "di_from_iter d" False]
  by (auto simp: nextFrom_def Next_def sound_result_def di_ok_def result_simps split: prod.splits sum.splits)

lemma nextTo_sound: "di_ok d \<Longrightarrow> sound_result (nextTo d)"
  using advance_sound [of "di_to_iter d" False]
  by (auto simp: nextTo_def Next_def sound_result_def di_ok_def result_simps split: prod.splits sum.splits)

lemma nextBoth_sound: "di_ok d \<Longrightarrow> sound_result (nextBoth d)"
  using nextFrom_sound [of d] nextTo_sound
  by (cases "nextFrom d") (auto simp: nextBoth_def sound_result_def)

lemma stepBoth_sound:
  assumes "di_ok d"
  shows "sound_result (stepBoth d)"
proof -
  obtain r f where a: "advance True (di_from_iter d) = (r, f)" by (cases "advance True (di_from_iter d)")
  obtain r2 t where b: "advance True (di_to_iter d) = (r2, t)" by (cases "advance True (di_to_iter d)")
  have "iter_ok f" "iter_ok t" "\<And>e. turnEOFIntoNil r = Inl e \<Longrightarrow> read_err e" "\<And>e. turnEOFIntoNil r2 = Inl e \<Longrightarrow> read_err e"
    using advance_sound [OF _ a] advance_sound [OF _ b] assms by (auto simp: di_ok_def)
  then show ?thesis using a b
    by (cases "turnEOFIntoNil r"; cases "turnEOFIntoNil r2")
      (simp_all add: stepBoth_def Step_def Let_def sound_result_def di_ok_def)
qed

definition sound_round :: "trie_error + diff_state \<Rightarrow> bool" where
  "sound_round r \<longleftrightarrow> (case r of Inl e \<Rightarrow> diff_err e | Inr (l, d) \<Rightarrow> di_ok d)"

lemma sound_round_move: "sound_result r \<Longrightarrow> sound_round (rbind r (\<lambda>d. Inr (l, d)))"
  by (cases r) (auto simp: sound_result_def sound_round_def diff_err_def)

lemma sound_round_add:
  "(\<And>l. sound_round (f l)) \<Longrightarrow> sound_round (rbind (addRecursive p ctor l) f)"
  using addRecursive_errors [of p ctor l]
  by (cases "addRecursive p ctor l") (auto simp: sound_round_def diff_err_def)

lemma di_compare_errors: "di_compare heq p q = Inl e \<Longrightarrow> diff_err e"
  using read_errs(2) [of "path_Last p"] read_errs(2) [of "path_Last q"]
  by (cases "NumChildren (path_Last p)"; cases "NumChildren (path_Last q)")
    (auto simp: di_compare_def map_err_def path_NumChildren_def read_err_def diff_err_def Let_def)

lemma di_compare_kinds:
  "di_compare heq p q = Inr s \<Longrightarrow> cmp_bothAreFiles s \<or> cmp_fileAndDir s \<or> cmp_bothAreDirs s"
  by (auto simp: di_compare_def result_simps Let_def)

lemmas sound_rounds = sound_round_move sound_round_add nextFrom_sound nextTo_sound nextBoth_sound stepBoth_sound

lemma diffDirs_sound: "di_ok d \<Longrightarrow> sound_round (diffDirs p q (l, d))"
  using di_compare_errors [of "di_hashEqual d" p q]
  by (cases "di_compare (di_hashEqual d) p q")
    (simp_all add: diffDirs_def AddRecursiveInsert_def AddRecursiveDelete_def sound_rounds,
      simp add: sound_round_def)

lemma diffNodes_sound: "di_ok d \<Longrightarrow> sound_round (diffNodes p q (l, d))"
  using di_compare_errors [of "di_hashEqual d" p q] di_compare_kinds [of "di_hashEqual d" p q]
  by (cases "di_compare (di_hashEqual d) p q")
    (auto simp: diffNodes_def diffNodesSameName_def AddRecursiveInsert_def AddRecursiveDelete_def sound_rounds diffDirs_sound,
      simp add: sound_round_def)

lemma diff_round_sound: "di_ok d \<Longrightarrow> diff_round (l, d) = Some r \<Longrightarrow> sound_round r"
  by (auto simp: diff_round_def AddRecursiveInsert_def AddRecursiveDelete_def sound_rounds diffNodes_sound
      split: option.splits if_splits)

lemma diff_loop_errors: "di_ok (snd s) \<Longrightarrow> diff_loop done_at i s = Inl e \<Longrightarrow>
  e = ErrCanceled \<and> (\<exists>j. done_at j) \<or> diff_err e"
proof (induction done_at i s rule: diff_loop.induct)
  case (1 done_at i s)
  obtain l d where s: "s = (l, d)" by (cases s)
  show ?case
  proof (cases "done_at i \<or> diff_round s = None")
    case True
    then show ?thesis using "1.prems"(2) by (subst (asm) diff_loop.simps) (auto split: if_splits)
  next
    case False
    then obtain r where r: "diff_round s = Some r" "\<not> done_at i" by auto
    then have "sound_round r" using diff_round_sound "1.prems"(1) s by auto
    then show ?thesis using "1.prems"(2) "1.IH" [OF r(2,1)] r
      by (subst (asm) diff_loop.simps) (auto simp: sound_round_def split: sum.splits)
  qed
qed

lemma map_err_eq [result_simps]:
  "map_err f r = Inl e \<longleftrightarrow> (\<exists>e'. r = Inl e' \<and> e = f e')" "map_err f r = Inr x \<longleftrightarrow> r = Inr x"
  by (cases r; auto simp: map_err_def)+

lemma newDoubleIter_sound:
  "newDoubleIter a b heq = Inl e \<Longrightarrow> diff_err e" "newDoubleIter a b heq = Inr d \<Longrightarrow> di_ok d"
proof -
  have ok: "iter_ok (snd (advance False it))" if "newIter r [] = Inr it" for r it
    using advance_sound [OF newIter_ok(1) [OF that], of False] by (cases "advance False it") auto
  have err: "\<exists>s. e = ChildrenErr s" if "newIter r [] = Inr it" "turnEOFIntoNil (fst (advance False it)) = Inl e" for r it e
    using advance_sound [OF newIter_ok(1) [OF that(1)], of False] that(2)
    by (cases "advance False it") (auto simp: read_err_def)
  have err2: "\<exists>s. e = ChildrenErr s" if "newIter r [] = Inl e" for r e
    using newIter_ok(2) [OF that] by (simp add: read_err_def)
  show "newDoubleIter a b heq = Inl e \<Longrightarrow> diff_err e" "newDoubleIter a b heq = Inr d \<Longrightarrow> di_ok d"
    by (auto simp: newDoubleIter_def NewIter_def Next_def result_simps case_prod_beta Let_def
        diff_err_def di_ok_def ok dest: err err2)
qed

text \<open>
  \<^bold>\<open>C40\<close>. The errors of a tree difference, for tries of any shape: it fails only because the context
  is cancelled, because a path to record is the empty string, or because the children of some noder
  cannot be read. The iterators never reach an empty frame, which would panic, and the two internal
  errors, a status that fits no case and two empty directories of different hashes, do not occur.
\<close>

theorem DiffTree_errors:
  assumes "DiffTreeContext done_at fromTree toTree heq = Inl e"
  shows "e = ErrCanceled \<and> (\<exists>i. done_at i) \<or> e = ErrEmptyFileName \<or>
    (\<exists>s. e \<in> {ChildrenErr s, FromErr (ChildrenErr s), ToErr (ChildrenErr s)})"
proof -
  consider "newDoubleIter fromTree toTree heq = Inl e"
    | d where "newDoubleIter fromTree toTree heq = Inr d" "diff_loop done_at 0 ([], d) = Inl e"
    using assms by (auto simp: DiffTreeContext_def result_simps)
  then have "e = ErrCanceled \<and> (\<exists>i. done_at i) \<or> diff_err e"
  proof cases
    case 1
    then show ?thesis using newDoubleIter_sound(1) by blast
  next
    case (2 d)
    then show ?thesis using newDoubleIter_sound(2) [OF 2(1)] diff_loop_errors [OF _ 2(2)] by simp
  qed
  then show ?thesis by (auto simp: diff_err_def read_err_def)
qed

lemma DiffTree_errors_witness:
  "DiffTreeContext (\<lambda>_. False) (Some (Noder [] [] True False (Some ''missing tree'') [])) None (=) = Inl (FromErr (ChildrenErr ''missing tree'')) \<and>
   (\<exists>s. FromErr (ChildrenErr ''missing tree'') \<in> {ChildrenErr s, FromErr (ChildrenErr s), ToErr (ChildrenErr s)})"
proof -
  have *: "DiffTreeContext (\<lambda>_. False) (Some (Noder [] [] True False (Some ''missing tree'') [])) None (=) = Inl (FromErr (ChildrenErr ''missing tree''))"
    by code_simp
  from DiffTree_errors [OF this] * show ?thesis by simp
qed

subsection \<open>Skipped noders\<close>

definition ex_skip :: "bytes \<Rightarrow> byte \<Rightarrow> noder" where "ex_skip nm h = Noder nm [h] False True None []"

text \<open>
  Skipped noders are compared by the last name of their paths: with \<open>x\<close> skipped at the
  root of the first trie, the second trie's new file \<open>d/x\<close> is passed over with it. The only change
  reported is that of \<open>d/a\<close>; without the skipped entry, the insertion of \<open>d/x\<close> is reported too.
\<close>

theorem DiffTree_skip_hides_insertion:
  "map_sum id (map (\<lambda>c. (map_option path_String (ch_From c), map_option path_String (ch_To c))))
     (DiffTree (Some (ex_dir [] 0 [ex_dir [0x64] 1 [ex_file [0x61] 1], ex_skip [0x78] 2]))
       (Some (ex_dir [] 1 [ex_dir [0x64] 2 [ex_file [0x61] 2, ex_file [0x78] 3]])) (=)) =
     Inr [(Some [0x64, 0x2F, 0x61], Some [0x64, 0x2F, 0x61])] \<and>
   map_sum id (map (\<lambda>c. (map_option path_String (ch_From c), map_option path_String (ch_To c))))
     (DiffTree (Some (ex_dir [] 0 [ex_dir [0x64] 1 [ex_file [0x61] 1]]))
       (Some (ex_dir [] 1 [ex_dir [0x64] 2 [ex_file [0x61] 2, ex_file [0x78] 3]])) (=)) =
     Inr [(Some [0x64, 0x2F, 0x61], Some [0x64, 0x2F, 0x61]), (None, Some [0x64, 0x2F, 0x78])]"
  by (intro conjI; code_simp)

end
