(* ===== verification/Git_Noder.thy ===== *)
theory Git_Noder
  imports Tree_Walk Tree_Diff_Spec
begin

text \<open>
  Git trees as merkle tries: \<open>plumbing/object/treenoder.go\<close>, and the difference of two git trees that
  \<open>plumbing/object/difftree.go\<close> computes through them.

  \<^item> A \<open>treeNoder\<close> finds its children on demand. The trie is what one gets by asking for all of them;
    \<open>noder_of\<close> does that to a depth, and is \<open>None\<close> if the trees go deeper, so that nothing is assumed
    of stores whose trees contain themselves. A lookup by name goes through the path cache of the
    parent, which \<open>FindEntry_value\<close> shows to be transparent; it is empty here.
  \<^item> Noders of one store whose hashes are equal have the same children, so the condition under which
    the difference of two tries is exact holds of git trees.
\<close>

record treeNoder =
  tn_parent :: "Tree option"
  tn_name :: bytes
  tn_mode :: FileMode
  tn_hash :: ObjectID

definition NewTreeRootNode :: "Tree option \<Rightarrow> treeNoder" where
  "NewTreeRootNode t =
     (case t of
        None \<Rightarrow> \<lparr>tn_parent = None, tn_name = [], tn_mode = Empty, tn_hash = ZeroHash\<rparr>
      | Some t \<Rightarrow> \<lparr>tn_parent = Some t, tn_name = [], tn_mode = Dir, tn_hash = tr_Hash t\<rparr>)"

definition treeNoder_isRoot :: "treeNoder \<Rightarrow> bool" where
  "treeNoder_isRoot t \<longleftrightarrow> tn_name t = []"

definition treeNoder_Hash :: "treeNoder \<Rightarrow> bytes" where
  "treeNoder_Hash t =
     (if tn_mode t = Deprecated then oid_Bytes (tn_hash t) @ FileMode_Bytes Regular
      else oid_Bytes (tn_hash t) @ FileMode_Bytes (tn_mode t))"

definition treeNoder_IsDir :: "treeNoder \<Rightarrow> bool" where
  "treeNoder_IsDir t \<longleftrightarrow> tn_mode t = Dir"

definition entry_noder :: "Tree \<Rightarrow> TreeEntry \<Rightarrow> treeNoder" where
  "entry_noder t e = \<lparr>tn_parent = Some t, tn_name = te_Name e, tn_mode = te_Mode e, tn_hash = te_Hash e\<rparr>"

definition transformChildren :: "(bytes \<Rightarrow> bytes) \<Rightarrow> tree_store \<Rightarrow> Tree \<Rightarrow> tree_error + treeNoder list" where
  "transformChildren VolumeName s t =
     (case TreeWalker_all VolumeName s ((NewTreeWalker t False (\<lambda>_. False))\<lparr>tw_skipPathValidation := True\<rparr>) of
        (xs, err) \<Rightarrow> if err = TreeEOF then Inr (map (\<lambda>(_, e). entry_noder t e) xs) else Inl err)"

definition treeNoder_Children :: "(bytes \<Rightarrow> bytes) \<Rightarrow> tree_store \<Rightarrow> treeNoder \<Rightarrow> tree_error + treeNoder list" where
  "treeNoder_Children VolumeName s t =
     (if tn_mode t \<noteq> Dir then Inr []
      else case tn_parent t of
        None \<Rightarrow> Inr []
      | Some parent \<Rightarrow>
          if treeNoder_isRoot t then transformChildren VolumeName s parent
          else rbind (fst (Tree_Tree VolumeName s parent (tn_name t) Map.empty)) (transformChildren VolumeName s))"

fun tree_error_String :: "tree_error \<Rightarrow> string" where
  "tree_error_String TreeEOF = ''EOF''"
| "tree_error_String ErrMalformedTree = ''malformed tree''"
| "tree_error_String ErrUnsupportedObject = ''unsupported object type''"
| "tree_error_String ErrObjectNotFound = ''object not found''"
| "tree_error_String (StorerErr m) = m"
| "tree_error_String ErrEntryNotFound = ''entry not found''"
| "tree_error_String ErrDirectoryNotFound = ''directory not found''"
| "tree_error_String ErrFileNotFound = ''file not found''"
| "tree_error_String (ErrInvalidPath e) = ''invalid path''"
| "tree_error_String ErrMaxTreeDepth = ''maximum tree depth exceeded''"

fun noder_of :: "(bytes \<Rightarrow> bytes) \<Rightarrow> tree_store \<Rightarrow> nat \<Rightarrow> treeNoder \<Rightarrow> noder option" where
  "noder_of vol s 0 t = None"
| "noder_of vol s (Suc n) t =
     (case treeNoder_Children vol s t of
        Inl err \<Rightarrow> Some (Noder (tn_name t) (treeNoder_Hash t) (treeNoder_IsDir t) False (Some (tree_error_String err)) [])
      | Inr ks \<Rightarrow> map_option (Noder (tn_name t) (treeNoder_Hash t) (treeNoder_IsDir t) False None) (those (map (noder_of vol s n) ks)))"

text \<open>\<open>object.DiffTree\<close>, as far as the changes between the tries: byte-wise comparison of the hashes.\<close>

definition object_DiffTree ::
  "(bytes \<Rightarrow> bytes) \<Rightarrow> tree_store \<Rightarrow> nat \<Rightarrow> Tree option \<Rightarrow> Tree option \<Rightarrow> (trie_error + Change list) option" where
  "object_DiffTree vol s depth a b =
     (case (noder_of vol s depth (NewTreeRootNode a), noder_of vol s depth (NewTreeRootNode b)) of
        (Some from, Some to) \<Rightarrow> Some (DiffTree (Some from) (Some to) (=))
      | _ \<Rightarrow> None)"

subsection \<open>The trie of a sound tree\<close>

text \<open>
  A tree that can be read to depth \<open>n\<close>: its entries have distinct, non-empty names without slashes and
  are in git's order, their identifiers have the format \<open>f\<close>, and the directories have valid names
  and can be read in turn.
\<close>

definition sound_entries :: "ObjectFormat \<Rightarrow> Tree \<Rightarrow> bool" where
  "sound_entries f t \<longleftrightarrow> distinct (map te_Name (tr_Entries t)) \<and> sorted (map treeEntrySortName (tr_Entries t)) \<and>
     list_all (\<lambda>e. name_ok (te_Name e) \<and> oid_ok (te_Hash e) \<and> oid_format (te_Hash e) = f) (tr_Entries t)"

fun sound_tree :: "(bytes \<Rightarrow> bytes) \<Rightarrow> tree_store \<Rightarrow> ObjectFormat \<Rightarrow> nat \<Rightarrow> Tree \<Rightarrow> bool" where
  "sound_tree vol s f 0 t \<longleftrightarrow> sound_entries f t \<and> list_all (\<lambda>e. te_Mode e \<noteq> Dir) (tr_Entries t)"
| "sound_tree vol s f (Suc n) t \<longleftrightarrow> sound_entries f t \<and>
     list_all (\<lambda>e. te_Mode e = Dir \<longrightarrow> ValidTreePath vol (te_Name e) = None \<and>
       (case GetTree s (te_Hash e) of Inl _ \<Rightarrow> False | Inr t' \<Rightarrow> sound_tree vol s f n t')) (tr_Entries t)"

text \<open>The trie of an entry, from its identifier alone.\<close>

fun git_noder :: "tree_store \<Rightarrow> nat \<Rightarrow> TreeEntry \<Rightarrow> noder" where
  "git_noder s n e = Noder (te_Name e) (treeNoder_Hash (entry_noder undefined e)) (te_Mode e = Dir) False None
     (if te_Mode e = Dir then
        (case n of 0 \<Rightarrow> []
         | Suc m \<Rightarrow> (case GetTree s (te_Hash e) of Inl _ \<Rightarrow> [] | Inr t \<Rightarrow> map (git_noder s m) (tr_Entries t)))
      else [])"

declare git_noder.simps [simp del]

lemma git_noder_simps [simp]:
  "n_Name (git_noder s n e) = te_Name e" "n_IsDir (git_noder s n e) \<longleftrightarrow> te_Mode e = Dir" "\<not> n_Skip (git_noder s n e)"
  "n_err (git_noder s n e) = None" "n_Hash (git_noder s n e) = treeNoder_Hash (entry_noder undefined e)"
  by (simp_all add: git_noder.simps)

lemma entry_noder_simps [simp]:
  "tn_name (entry_noder t e) = te_Name e" "tn_mode (entry_noder t e) = te_Mode e" "tn_hash (entry_noder t e) = te_Hash e"
  "tn_parent (entry_noder t e) = Some t"
  by (simp_all add: entry_noder_def)

lemma entry_noder_Hash: "treeNoder_Hash (entry_noder t e) = treeNoder_Hash (entry_noder undefined e)"
  by (simp add: treeNoder_Hash_def)

lemma sound_tree_entries: "sound_tree vol s f n t \<Longrightarrow> sound_entries f t"
  by (cases n) simp_all

lemma sound_tree_dir:
  assumes "sound_tree vol s f n t" and "e \<in> set (tr_Entries t)" and "te_Mode e = Dir"
  obtains m t' where "n = Suc m" "ValidTreePath vol (te_Name e) = None" "GetTree s (te_Hash e) = Inr t'" "sound_tree vol s f m t'"
  using assms by (cases n; cases "GetTree s (te_Hash e)") (fastforce simp: list_all_iff)+

lemma sound_entries_slash_free: "sound_entries f t \<Longrightarrow> list_all slash_free (tr_Entries t)"
  by (auto simp: sound_entries_def list_all_iff name_ok_def slash_free_def)

lemma find_distinct:
  "distinct (map f xs) \<Longrightarrow> x \<in> set xs \<Longrightarrow> find (\<lambda>y. f y = f x) xs = Some x"
  by (induction xs) auto

lemma Tree_entry_sound:
  assumes "sound_entries f t" and "e \<in> set (tr_Entries t)"
  shows "Tree_entry t (te_Name e) = Inr e"
proof -
  have sf: "list_all slash_free (tr_Entries t)" using sound_entries_slash_free assms(1) .
  have "0x2F \<notin> set (te_Name e)" using sf assms(2) by (auto simp: list_all_iff slash_free_def)
  moreover have "find (\<lambda>y. te_Name y = te_Name e) (tr_Entries t) = Some e"
    using assms(1) find_distinct [OF _ assms(2), of te_Name] by (simp add: sound_entries_def)
  moreover have "sorted (map treeEntrySortName (tr_Entries t))" using assms(1) by (simp add: sound_entries_def)
  ultimately show ?thesis using sf by (simp add: Tree_entry_def searchEntry_find scanEntry_find)
qed

lemma Tree_Tree_sound:
  assumes "sound_entries f t" and "e \<in> set (tr_Entries t)" and "ValidTreePath vol (te_Name e) = None"
    and "GetTree s (te_Hash e) = Inr t'"
  shows "fst (Tree_Tree vol s t (te_Name e) Map.empty) = Inr t'"
proof -
  have "0x2F \<notin> set (te_Name e)"
    using sound_entries_slash_free [OF assms(1)] assms(2) by (auto simp: list_all_iff slash_free_def)
  then show ?thesis
    using assms(3,4) Tree_entry_sound [OF assms(1,2)] by (simp add: Tree_Tree_def FindEntry_def split_no_sep)
qed

lemma listing_flat:
  assumes "list_all (\<lambda>e. te_Mode e = Dir \<longrightarrow> (\<exists>t'. GetTree s (te_Hash e) = Inr t')) es"
  shows "listing vol s False (\<lambda>_. False) True d [] es = (map (\<lambda>e. (te_Name e, e)) es, None)"
  using assms
proof (induction es)
  case (Cons e es)
  then have "listing vol s False (\<lambda>_. False) True d [] es = (map (\<lambda>e. (te_Name e, e)) es, None)" by simp
  then show ?case using Cons.prems by (auto simp: Let_def simpleJoin_def)
qed simp

lemma transformChildren_sound:
  assumes "slash_free_store s" and "sound_tree vol s f n t"
  shows "transformChildren vol s t = Inr (map (entry_noder t) (tr_Entries t))"
proof -
  have sf: "list_all slash_free (tr_Entries t)"
    using sound_entries_slash_free [OF sound_tree_entries [OF assms(2)]] .
  have "list_all (\<lambda>e. te_Mode e = Dir \<longrightarrow> (\<exists>t'. GetTree s (te_Hash e) = Inr t')) (tr_Entries t)"
    unfolding list_all_iff using sound_tree_dir [OF assms(2)] by metis
  from listing_flat [OF this] TreeWalker_all_listing [OF assms(1) sf, of vol True False "\<lambda>_. False"]
  show ?thesis by (simp add: transformChildren_def o_def)
qed

lemma those_map_Some: "(\<And>x. x \<in> set xs \<Longrightarrow> f x = Some (g x)) \<Longrightarrow> those (map f xs) = Some (map g xs)"
  by (induction xs) auto

lemma noder_of_entry:
  assumes "slash_free_store s"
  shows "sound_tree vol s f n t \<Longrightarrow> e \<in> set (tr_Entries t) \<Longrightarrow> noder_of vol s (Suc n) (entry_noder t e) = Some (git_noder s n e)"
proof (induction n arbitrary: t e)
  case 0
  then have "te_Mode e \<noteq> Dir" by (auto simp: list_all_iff)
  then show ?case by (simp add: treeNoder_Children_def treeNoder_IsDir_def git_noder.simps entry_noder_Hash [of t])
next
  case (Suc n)
  show ?case
  proof (cases "te_Mode e = Dir")
    case False
    then show ?thesis by (simp add: treeNoder_Children_def treeNoder_IsDir_def git_noder.simps entry_noder_Hash [of t])
  next
    case True
    obtain t' where t': "ValidTreePath vol (te_Name e) = None" "GetTree s (te_Hash e) = Inr t'" "sound_tree vol s f n t'"
      using sound_tree_dir [OF Suc.prems True] by blast
    have "te_Name e \<noteq> []"
      using sound_tree_entries [OF Suc.prems(1)] Suc.prems(2) by (auto simp: sound_entries_def list_all_iff name_ok_def)
    then have "treeNoder_Children vol s (entry_noder t e) = Inr (map (entry_noder t') (tr_Entries t'))"
      using True Tree_Tree_sound [OF sound_tree_entries [OF Suc.prems(1)] Suc.prems(2) t'(1,2)]
        transformChildren_sound [OF assms t'(3)]
      by (simp add: treeNoder_Children_def treeNoder_isRoot_def)
    moreover have "those (map (\<lambda>e. noder_of vol s (Suc n) (entry_noder t' e)) (tr_Entries t')) = Some (map (git_noder s n) (tr_Entries t'))"
      using Suc.IH [OF t'(3)] by (intro those_map_Some) simp
    ultimately show ?thesis
      using True t'(2) by (simp add: treeNoder_IsDir_def git_noder.simps [of s "Suc n"] entry_noder_Hash [of t] o_def del: noder_of.simps(2)
          add: noder_of.simps(2) [of vol s "Suc n"])
  qed
qed

definition git_root :: "tree_store \<Rightarrow> nat \<Rightarrow> Tree \<Rightarrow> noder" where
  "git_root s n t = Noder [] (treeNoder_Hash (NewTreeRootNode (Some t))) True False None (map (git_noder s n) (tr_Entries t))"

lemma noder_of_root:
  assumes "slash_free_store s" and "sound_tree vol s f n t"
  shows "noder_of vol s (Suc (Suc n)) (NewTreeRootNode (Some t)) = Some (git_root s n t)"
proof -
  have "treeNoder_Children vol s (NewTreeRootNode (Some t)) = Inr (map (entry_noder t) (tr_Entries t))"
    using transformChildren_sound [OF assms] by (simp add: treeNoder_Children_def NewTreeRootNode_def treeNoder_isRoot_def)
  moreover have "those (map (\<lambda>e. noder_of vol s (Suc n) (entry_noder t e)) (tr_Entries t)) = Some (map (git_noder s n) (tr_Entries t))"
    using noder_of_entry [OF assms] by (intro those_map_Some) simp
  ultimately show ?thesis
    by (simp add: treeNoder_IsDir_def git_root_def o_def del: noder_of.simps(2) add: noder_of.simps(2) [of vol s "Suc n"])
      (simp add: NewTreeRootNode_def)
qed

subsection \<open>Equal hashes, equal files\<close>

lemma FileMode_Bytes_inj: "FileMode_Bytes a = FileMode_Bytes b \<Longrightarrow> a = b"
proof (rule bit_word_eqI)
  fix n assume eq: "FileMode_Bytes a = FileMode_Bytes b" and n: "n < LENGTH(32)"
  let ?i = "n div 8" and ?j = "n mod 8"
  have i: "?i < 4" using n by simp
  then have "FileMode_Bytes a ! ?i = FileMode_Bytes b ! ?i" using eq by simp
  then have "(ucast (drop_bit (8 * ?i) a) :: byte) = ucast (drop_bit (8 * ?i) b)"
    using i by (simp add: FileMode_Bytes_def)
  then have "bit (ucast (drop_bit (8 * ?i) a) :: byte) ?j = bit (ucast (drop_bit (8 * ?i) b) :: byte) ?j" by simp
  moreover have "8 * ?i + ?j = n" by simp
  ultimately show "bit a n = bit b n" using n by (simp add: bit_simps)
qed

lemma length_FileMode_Bytes [simp]: "length (FileMode_Bytes m) = 4"
  by (simp add: FileMode_Bytes_def)

lemma treeNoder_Hash_eq:
  assumes "treeNoder_Hash a = treeNoder_Hash b" and "oid_ok (tn_hash a)" "oid_ok (tn_hash b)"
    and "oid_format (tn_hash a) = oid_format (tn_hash b)"
  shows "tn_hash a = tn_hash b \<and> (tn_mode a = Dir \<longleftrightarrow> tn_mode b = Dir)"
proof -
  let ?m = "\<lambda>t. if tn_mode t = Deprecated then Regular else tn_mode t"
  have "oid_Bytes (tn_hash a) @ FileMode_Bytes (?m a) = oid_Bytes (tn_hash b) @ FileMode_Bytes (?m b)"
    using assms(1) by (simp add: treeNoder_Hash_def split: if_split_asm)
  then have bytes: "oid_Bytes (tn_hash a) = oid_Bytes (tn_hash b)" "FileMode_Bytes (?m a) = FileMode_Bytes (?m b)"
    unfolding append_eq_append_conv [OF disjI2 [OF trans [OF length_FileMode_Bytes length_FileMode_Bytes [symmetric]]]]
    by blast+
  have "tn_hash a = tn_hash b" using oid_eqI [OF assms(2-4) bytes(1)] .
  moreover have "Dir \<noteq> Deprecated" "Dir \<noteq> Regular" by (simp_all add: mode_defs)
  with FileMode_Bytes_inj [OF bytes(2)] have "tn_mode a = Dir \<longleftrightarrow> tn_mode b = Dir" by (auto split: if_split_asm)
  ultimately show ?thesis by blast
qed

lemma git_noder_depth:
  "sound_tree vol s f n t \<Longrightarrow> sound_tree vol s f m t \<Longrightarrow> e \<in> set (tr_Entries t) \<Longrightarrow> git_noder s n e = git_noder s m e"
proof (induction n arbitrary: m t e)
  case 0
  then show ?case by (auto simp: git_noder.simps list_all_iff)
next
  case (Suc n)
  show ?case
  proof (cases "te_Mode e = Dir")
    case True
    obtain t' where t': "GetTree s (te_Hash e) = Inr t'" "sound_tree vol s f n t'"
      using sound_tree_dir [OF Suc.prems(1,3) True] by blast
    obtain m' where m': "m = Suc m'" "sound_tree vol s f m' t'"
      using sound_tree_dir [OF Suc.prems(2,3) True] t'(1) by (metis sum.inject(2))
    have "map (git_noder s n) (tr_Entries t') = map (git_noder s m') (tr_Entries t')"
      using Suc.IH [OF t'(2) m'(2)] by simp
    then show ?thesis using True t'(1) m'(1) by (simp add: git_noder.simps [of s "Suc _"])
  qed (simp add: git_noder.simps)
qed

definition sound_nodes :: "(bytes \<Rightarrow> bytes) \<Rightarrow> tree_store \<Rightarrow> ObjectFormat \<Rightarrow> noder set" where
  "sound_nodes vol s f = {git_noder s n e | n t e. sound_tree vol s f n t \<and> e \<in> set (tr_Entries t)}"

lemma git_noder_kids:
  assumes "sound_tree vol s f n t" and "e \<in> set (tr_Entries t)"
  shows "te_Mode e \<noteq> Dir \<and> n_kids (git_noder s n e) = [] \<or>
    te_Mode e = Dir \<and> (\<exists>m t'. GetTree s (te_Hash e) = Inr t' \<and> sound_tree vol s f m t' \<and> n = Suc m \<and>
      n_kids (git_noder s n e) = map (git_noder s m) (tr_Entries t'))"
proof (cases "te_Mode e = Dir")
  case True
  obtain m t' where m: "n = Suc m" "GetTree s (te_Hash e) = Inr t'" "sound_tree vol s f m t'"
    using sound_tree_dir [OF assms True] by blast
  then have "n_kids (git_noder s n e) = map (git_noder s m) (tr_Entries t')" using True by (simp add: git_noder.simps [of s "Suc _"])
  with True m show ?thesis by blast
qed (simp add: git_noder.simps)

lemma good_node_iff:
  "good_node n \<longleftrightarrow> n_Name n \<noteq> [] \<and> \<not> n_Skip n \<and> n_err n = None \<and> (n_IsDir n \<or> n_kids n = []) \<and>
     distinct (map n_Name (n_kids n)) \<and> list_all good_node (n_kids n)"
  by (cases n) simp

lemma git_noder_good: "sound_tree vol s f n t \<Longrightarrow> e \<in> set (tr_Entries t) \<Longrightarrow> good_node (git_noder s n e)"
proof (induction n arbitrary: t e)
  case (Suc n)
  have "te_Name e \<noteq> []"
    using sound_tree_entries [OF Suc.prems(1)] Suc.prems(2) by (auto simp: sound_entries_def list_all_iff name_ok_def)
  moreover have "distinct (map te_Name (tr_Entries t'))" if "sound_tree vol s f n t'" for t'
    using sound_tree_entries [OF that] by (simp add: sound_entries_def)
  ultimately show ?case using git_noder_kids [OF Suc.prems] Suc.IH
    by (auto simp: good_node_iff [of "git_noder s (Suc n) e"] list_all_iff o_def)
next
  case 0
  then show ?case using git_noder_kids [OF 0] sound_tree_entries [OF 0(1)]
    by (auto simp: good_node_iff [of "git_noder s 0 e"] sound_entries_def list_all_iff name_ok_def)
qed

lemma subnodes_iff: "subnodes n = insert n (\<Union>k\<in>set (n_kids n). subnodes k)"
  by (cases n) simp

lemma subnodes_sound:
  "sound_tree vol s f n t \<Longrightarrow> e \<in> set (tr_Entries t) \<Longrightarrow> subnodes (git_noder s n e) \<subseteq> sound_nodes vol s f"
proof (induction n arbitrary: t e)
  case (Suc n)
  have "git_noder s (Suc n) e \<in> sound_nodes vol s f" using Suc.prems by (auto simp: sound_nodes_def simp del: sound_tree.simps)
  then show ?case using git_noder_kids [OF Suc.prems] Suc.IH by (subst subnodes_iff) fastforce
next
  case 0
  have "git_noder s 0 e \<in> sound_nodes vol s f" using 0 by (auto simp: sound_nodes_def simp del: sound_tree.simps)
  then show ?case using git_noder_kids [OF 0] by (subst subnodes_iff) auto
qed

lemma inner_distinct:
  assumes "good_node n"
  shows "distinct (map names (inner n))"
proof -
  let ?ps = "siblings [] (sort_key n_Name (n_kids n))"
  have "plain ?ps" "in_order ?ps" using good_nodeD(5,6) [OF assms] in_order_siblings by (auto simp: list_all_iff)
  from files_of_distinct [OF this] show ?thesis by (simp add: files_of_siblings inner_def o_def)
qed

lemma same_files_inner:
  assumes "good_node a" and "n_kids a = n_kids b" and "n_IsDir a = n_IsDir b"
  shows "same_files (=) a b"
proof -
  have "inner a = inner b" using assms(2) by (simp add: inner_def)
  moreover have "p = q" if "p \<in> set (inner a)" "q \<in> set (inner a)" "names p = names q" for p q
    using inner_distinct [OF assms(1)] that by (auto simp: distinct_map inj_on_def)
  ultimately show ?thesis using assms(3) unfolding same_files_def by auto
qed

lemma sound_nodes_hash_sound: "hash_sound (=) (sound_nodes vol s f) (sound_nodes vol s f)"
  unfolding hash_sound_def
proof (intro ballI impI)
  fix a b assume "a \<in> sound_nodes vol s f" "b \<in> sound_nodes vol s f" and h: "n_Hash a = n_Hash b"
  then obtain n t e m u e' where a: "a = git_noder s n e" "sound_tree vol s f n t" "e \<in> set (tr_Entries t)"
    and b: "b = git_noder s m e'" "sound_tree vol s f m u" "e' \<in> set (tr_Entries u)"
    by (auto simp: sound_nodes_def)
  have ids: "oid_ok (te_Hash e)" "oid_ok (te_Hash e')" "oid_format (te_Hash e) = oid_format (te_Hash e')"
    using sound_tree_entries [OF a(2)] sound_tree_entries [OF b(2)] a(3) b(3) by (auto simp: sound_entries_def list_all_iff)
  have eq: "te_Hash e = te_Hash e'" "te_Mode e = Dir \<longleftrightarrow> te_Mode e' = Dir"
    using treeNoder_Hash_eq [of "entry_noder undefined e" "entry_noder undefined e'"] h ids by (simp_all add: a(1) b(1))
  have "n_kids a = n_kids b"
  proof (cases "te_Mode e = Dir")
    case True
    obtain n' t' where n': "GetTree s (te_Hash e) = Inr t'" "sound_tree vol s f n' t'" "n_kids a = map (git_noder s n') (tr_Entries t')"
      using git_noder_kids [OF a(2,3)] True a(1) by blast
    obtain m' t2 where m': "GetTree s (te_Hash e') = Inr t2" "sound_tree vol s f m' t2" "n_kids b = map (git_noder s m') (tr_Entries t2)"
      using git_noder_kids [OF b(2,3)] True b(1) eq(2) by blast
    have "t2 = t'" using n'(1) m'(1) eq(1) by simp
    then have "git_noder s n' x = git_noder s m' x" if "x \<in> set (tr_Entries t')" for x
      using git_noder_depth [OF n'(2)] m'(2) that by blast
    then show ?thesis using n'(3) m'(3) \<open>t2 = t'\<close> by simp
  next
    case False
    then show ?thesis using git_noder_kids [OF a(2,3)] git_noder_kids [OF b(2,3)] a(1) b(1) eq(2) by simp
  qed
  then show "same_files (=) a b"
    using git_noder_good [OF a(2,3)] eq(2) by (intro same_files_inner) (simp_all add: a(1) b(1))
qed

lemma git_root_good: "sound_tree vol s f n t \<Longrightarrow> good_root (Some (git_root s n t))"
  using sound_tree_entries [of vol s f n t]
  by (auto simp: good_root_def git_root_def list_all_iff sound_entries_def o_def intro: git_noder_good)

lemma git_root_nodes: "sound_tree vol s f n t \<Longrightarrow> trie_nodes (Some (git_root s n t)) \<subseteq> sound_nodes vol s f"
  unfolding trie_nodes_def top_paths_def option.case nodes_of_siblings
  using subnodes_sound by (fastforce simp: git_root_def)

text \<open>
  \<^bold>\<open>C13\<close>. The difference of two git trees of one store is exact: with every directory readable, names
  valid, distinct and sorted, the trie of each tree can be built, \<open>DiffTree\<close> returns, and its changes are,
  each once, the deletions, insertions and modifications between the two sets of files. That equal hashes
  mean equal subtrees, which lets the walk skip whole directories, is not assumed: an identifier and a
  mode determine all that lies below them in the store.
\<close>

theorem object_DiffTree_exact:
  assumes "slash_free_store s" and "sound_tree vol s f n a" and "sound_tree vol s f n b"
  shows "\<exists>cs. object_DiffTree vol s (n + 2) (Some a) (Some b) = Some (Inr cs) \<and> distinct cs \<and>
    set cs = changes_between (=) (trie_files (Some (git_root s n a))) (trie_files (Some (git_root s n b)))"
proof -
  have h: "hash_sound (=) (trie_nodes (Some (git_root s n a))) (trie_nodes (Some (git_root s n b)))"
    using hash_sound_mono [OF sound_nodes_hash_sound git_root_nodes git_root_nodes] assms by blast
  note g = git_root_good [OF assms(2)] git_root_good [OF assms(3)]
  have "object_DiffTree vol s (n + 2) (Some a) (Some b) = Some (DiffTree (Some (git_root s n a)) (Some (git_root s n b)) (=))"
    using noder_of_root [OF assms(1,2)] noder_of_root [OF assms(1,3)] by (simp add: object_DiffTree_def numeral_2_eq_2)
  then show ?thesis
    using DiffTree_refines_diff_paths [OF g] diff_paths_computes [OF top_paths_diffable [OF g h]]
    by (simp add: computes_def trie_files_def)
qed

lemma object_DiffTree_exact_witness:
  "\<exists>cs. object_DiffTree (\<lambda>_. []) (\<lambda>_. Inr []) 3
     (Some \<lparr>tr_Entries = [\<lparr>te_Name = [0x61], te_Mode = Dir, te_Hash = ZeroHash\<rparr>, \<lparr>te_Name = [0x62], te_Mode = Regular, te_Hash = ZeroHash\<rparr>],
        tr_Hash = ZeroHash, tr_entriesSorted = True\<rparr>)
     (Some \<lparr>tr_Entries = [\<lparr>te_Name = [0x62], te_Mode = Executable, te_Hash = ZeroHash\<rparr>], tr_Hash = ZeroHash, tr_entriesSorted = True\<rparr>) =
   Some (Inr cs)"
proof -
  let ?a = "\<lparr>tr_Entries = [\<lparr>te_Name = [0x61], te_Mode = Dir, te_Hash = ZeroHash\<rparr>, \<lparr>te_Name = [0x62], te_Mode = Regular, te_Hash = ZeroHash\<rparr>],
      tr_Hash = ZeroHash, tr_entriesSorted = True\<rparr>"
  let ?b = "\<lparr>tr_Entries = [\<lparr>te_Name = [0x62], te_Mode = Executable, te_Hash = ZeroHash\<rparr>], tr_Hash = ZeroHash, tr_entriesSorted = True\<rparr>"
  have s: "slash_free_store (\<lambda>_. Inr [])" by (auto simp: slash_free_store_def GetTree_def Tree_Decode_def Let_def)
  have v: "ValidTreePath (\<lambda>_. []) [0x61] = None" by code_simp
  have z: "oid_ok ZeroHash" "oid_format ZeroHash = UnsetObjectFormat" by (simp_all add: ZeroHash_def)
  have "sound_tree (\<lambda>_. []) (\<lambda>_. Inr []) UnsetObjectFormat 1 ?a" "sound_tree (\<lambda>_. []) (\<lambda>_. Inr []) UnsetObjectFormat 1 ?b"
    by (simp_all add: sound_entries_def name_ok_def treeEntrySortName_def GetTree_def Tree_Decode_def Let_def v z mode_defs)
  from object_DiffTree_exact [OF s this] show ?thesis by (auto simp: numeral_3_eq_3 numeral_2_eq_2)
qed

subsection \<open>What the trie leaves out\<close>

text \<open>
  The walk under \<open>transformChildren\<close> takes a directory whose tree is not in the store for the end of the
  parent: it and the entries after it are missing from the trie, and no error is returned.
\<close>

lemma transformChildren_missing_subtree:
  assumes "slash_free_store s" and "list_all slash_free (tr_Entries t)" and "tr_Entries t = xs @ e # es"
    and "list_all (\<lambda>e. te_Mode e \<noteq> Dir) xs" and "te_Mode e = Dir" and "GetTree s (te_Hash e) = Inl ErrObjectNotFound"
  shows "transformChildren vol s t = Inr (map (entry_noder t) xs)"
proof -
  have "listing vol s False (\<lambda>_. False) True d [] (xs @ e # es) = (map (\<lambda>e. (te_Name e, e)) xs, Some TreeEOF)" for d
    using assms(4-6) by (induction xs) (auto simp: Let_def simpleJoin_def)
  then show ?thesis
    using TreeWalker_all_listing [OF assms(1,2), of vol True False "\<lambda>_. False"] by (simp add: transformChildren_def assms(3) o_def)
qed

text \<open>
  A directory with a name that \<open>ValidTreePath\<close> refuses is among the children of its parent, but its own
  children cannot be read: the lookup by name refuses it.
\<close>

lemma treeNoder_unsafe_directory:
  assumes "te_Mode e = Dir" and "ValidTreePath vol (te_Name e) = Some err" and "te_Name e \<noteq> []"
  shows "treeNoder_Children vol s (entry_noder t e) = Inl ErrDirectoryNotFound"
  using assms by (simp add: treeNoder_Children_def treeNoder_isRoot_def Tree_Tree_def FindEntry_def)

end
