(* ===== verification/Pack_Index.thy ===== *)
theory Pack_Index
  imports Object_ID Varint
begin

text \<open>
  The index of a packfile in memory: \<open>plumbing/format/idxfile/idxfile.go\<close>.

  \<^item> \<open>MemoryIndex\<close> has the fan-out table, the slices of names, checksums and offsets per first byte,
    and the table of 64-bit offsets; a slice or index expression out of range is \<open>None\<close>, the panic
    of the source.
  \<^item> \<open>layout\<close> is what the tables hold: rows, cut into buckets by the fan-out table, and the long
    offsets. On an index with a layout no operation panics, whatever the rows are; if the rows are
    sorted and in their buckets, the lookups find what is there and nothing else.
  \<^item> The interface \<open>Index\<close> of the source is the locale \<open>pack_index\<close>.
\<close>

subsection \<open>Data\<close>

datatype idx_error =
    IdxEOF | IdxRead varint_error | ErrUnsupportedVersion | ErrMalformedIdxFile | IdxObjectNotFound
  | HashSizeMismatch | IdxNotFinished | IdxClosed

record Entry =
  pe_Hash :: ObjectID
  pe_CRC32 :: u32
  pe_Offset :: u64

record MemoryIndex =
  mi_Version :: u32
  mi_Fanout :: "u32 list"
  mi_FanoutMapping :: "int list"
  mi_Names :: "bytes list"
  mi_Offset32 :: "bytes list"
  mi_CRC32 :: "bytes list"
  mi_Offset64 :: bytes
  mi_PackfileChecksum :: ObjectID
  mi_IdxChecksum :: ObjectID
  mi_offsetHash :: "(u64 \<rightharpoonup> ObjectID) option"
  mi_built :: bool
  mi_objectIDSize :: nat

definition VersionSupported :: u32 where "VersionSupported = 2"
definition noMapping :: int where "noMapping = -1"
definition idxHeader :: bytes where "idxHeader = [255, 0x74, 0x4F, 0x63]"

definition NewMemoryIndex :: "nat \<Rightarrow> MemoryIndex" where
  "NewMemoryIndex objectIDSize =
     \<lparr>mi_Version = 0, mi_Fanout = replicate 256 0, mi_FanoutMapping = replicate 256 0, mi_Names = [],
      mi_Offset32 = [], mi_CRC32 = [], mi_Offset64 = [],
      mi_PackfileChecksum = ResetBySize ZeroHash objectIDSize, mi_IdxChecksum = ResetBySize ZeroHash objectIDSize,
      mi_offsetHash = None, mi_built = False, mi_objectIDSize = objectIDSize\<rparr>"

definition idSize :: "MemoryIndex \<Rightarrow> nat" where
  "idSize idx = (if mi_objectIDSize idx \<noteq> 0 then mi_objectIDSize idx else 20)"

subsection \<open>Lookups\<close>

text \<open>\<open>h.Bytes()[0]\<close>, and an element of a slice of slices at an \<open>int\<close> position.\<close>

definition first_byte :: "ObjectID \<Rightarrow> nat option" where
  "first_byte h = map_option unat (index (oid_Bytes h) 0)"

definition at_int :: "'a list \<Rightarrow> int \<Rightarrow> 'a option" where
  "at_int xs k = (if k < 0 then None else index xs (nat k))"

function findHashIndex_loop :: "nat \<Rightarrow> bytes \<Rightarrow> ObjectID \<Rightarrow> nat \<Rightarrow> nat \<Rightarrow> nat option option" where
  "findHashIndex_loop sz names h low high =
     (let mid = (low + high) div 2; offset = mid * sz in
      case slice names offset (offset + sz) of
        None \<Rightarrow> None
      | Some name \<Rightarrow>
          let cmp = oid_Compare h name in
          if cmp < 0 then (if low \<ge> mid then Some None else findHashIndex_loop sz names h low mid)
          else if cmp = 0 then Some (Some mid)
          else (if mid + 1 \<ge> high then Some None else findHashIndex_loop sz names h (mid + 1) high))"
  by pat_completeness auto
termination
  by (relation "measure (\<lambda>(sz, names, h, low, high). high - low)") auto

declare findHashIndex_loop.simps [simp del]

definition findHashIndex :: "MemoryIndex \<Rightarrow> ObjectID \<Rightarrow> nat option option" where
  "findHashIndex idx h =
     Option.bind (first_byte h) (\<lambda>b. Option.bind (index (mi_FanoutMapping idx) b) (\<lambda>k.
       if k = noMapping then Some None
       else if int (length (mi_Names idx)) \<le> k then Some None
       else Option.bind (at_int (mi_Names idx) k) (\<lambda>names. Option.bind (at_int (mi_Offset32 idx) k) (\<lambda>ofs.
         let high = length ofs div 4 in
         if high = 0 then Some None else findHashIndex_loop (idSize idx) names h 0 high))))"

definition MayContain :: "MemoryIndex \<Rightarrow> ObjectID \<Rightarrow> bool option" where
  "MayContain idx h =
     Option.bind (first_byte h) (\<lambda>b. map_option (\<lambda>k. k \<noteq> noMapping) (index (mi_FanoutMapping idx) b))"

definition Contains :: "MemoryIndex \<Rightarrow> ObjectID \<Rightarrow> bool option" where
  "Contains idx h = map_option (\<lambda>r. r \<noteq> None) (findHashIndex idx h)"

text \<open>The offsets: the top bit of the 32-bit value selects the table of 64-bit offsets.\<close>

definition isO64 :: "u32 \<Rightarrow> bool" where "isO64 ofs \<longleftrightarrow> bit ofs 31"
definition o64_index :: "u32 \<Rightarrow> nat" where "o64_index ofs = unat (take_bit 31 ofs)"

definition be32 :: "bytes \<Rightarrow> u32" where "be32 b = word_of_nat (be_uint b)"
definition be64 :: "bytes \<Rightarrow> u64" where "be64 b = word_of_nat (be_uint b)"

definition offset_in :: "bytes \<Rightarrow> bytes \<Rightarrow> nat \<Rightarrow> (idx_error + u64) option" where
  "offset_in offset32 offset64 pos =
     Option.bind (slice offset32 (4 * pos) (4 * pos + 4)) (\<lambda>b.
       let ofs = be32 b in
       if isO64 ofs then
         let offset = 8 * o64_index ofs; l = length offset64 in
         if l < 8 \<or> offset > l - 8 then Some (Inl ErrMalformedIdxFile)
         else map_option (\<lambda>b. Inr (be64 b)) (slice offset64 offset (offset + 8))
       else Some (Inr (ucast ofs)))"

definition getOffset :: "MemoryIndex \<Rightarrow> int \<Rightarrow> nat \<Rightarrow> (idx_error + u64) option" where
  "getOffset idx firstLevel secondLevel =
     Option.bind (at_int (mi_Offset32 idx) firstLevel) (\<lambda>ofs. offset_in ofs (mi_Offset64 idx) secondLevel)"

definition getCRC32 :: "MemoryIndex \<Rightarrow> int \<Rightarrow> nat \<Rightarrow> u32 option" where
  "getCRC32 idx firstLevel secondLevel =
     Option.bind (at_int (mi_CRC32 idx) firstLevel) (\<lambda>crc.
       map_option be32 (slice crc (4 * secondLevel) (4 * secondLevel + 4)))"

text \<open>
  \<open>FindOffset\<close> remembers the offset for the reverse lookup. Its result, an \<open>int64\<close> in the source, is the
  same bit pattern as a word: offsets of \<open>2\<^sup>6\<^sup>3\<close> and more are the negative numbers of the source.
\<close>

definition FindOffset :: "MemoryIndex \<Rightarrow> ObjectID \<Rightarrow> ((idx_error + u64) \<times> MemoryIndex) option" where
  "FindOffset idx h =
     Option.bind (first_byte h) (\<lambda>fo.
       if length (mi_FanoutMapping idx) \<le> fo then Some (Inl IdxObjectNotFound, idx)
       else Option.bind (findHashIndex idx h) (\<lambda>r.
         case r of
           None \<Rightarrow> Some (Inl IdxObjectNotFound, idx)
         | Some i \<Rightarrow> Option.bind (getOffset idx (mi_FanoutMapping idx ! fo) i) (\<lambda>res.
             case res of
               Inl err \<Rightarrow> Some (Inl err, idx)
             | Inr offset \<Rightarrow>
                 let m = (case mi_offsetHash idx of None \<Rightarrow> Map.empty | Some m \<Rightarrow> m) in
                 Some (Inr offset, idx\<lparr>mi_offsetHash := Some (m(offset \<mapsto> h))\<rparr>))))"

definition FindCRC32 :: "MemoryIndex \<Rightarrow> ObjectID \<Rightarrow> (idx_error + u32) option" where
  "FindCRC32 idx h =
     Option.bind (first_byte h) (\<lambda>b. Option.bind (index (mi_FanoutMapping idx) b) (\<lambda>k.
       Option.bind (findHashIndex idx h) (\<lambda>r.
         case r of None \<Rightarrow> Some (Inl IdxObjectNotFound)
         | Some i \<Rightarrow> map_option Inr (getCRC32 idx k i))))"

definition Count :: "MemoryIndex \<Rightarrow> nat option" where
  "Count idx = map_option unat (index (mi_Fanout idx) 255)"

subsection \<open>The reverse lookup\<close>

text \<open>
  \<open>genOffsetHash\<close>: \<open>hash.Write\<close> copies as much of the rest of the bucket as fits the array, and the
  same \<open>hash\<close> serves for all entries. The second level is a \<open>uint32\<close>, and so is its product with the size.
\<close>

fun gen_bucket ::
  "MemoryIndex \<Rightarrow> int \<Rightarrow> nat \<Rightarrow> nat \<Rightarrow> ObjectID \<Rightarrow> (u64 \<rightharpoonup> ObjectID) \<Rightarrow> (idx_error + ObjectID \<times> (u64 \<rightharpoonup> ObjectID)) option" where
  "gen_bucket idx k secondLevel 0 hash m = Some (Inr (hash, m))"
| "gen_bucket idx k secondLevel (Suc n) hash m =
     Option.bind (at_int (mi_Names idx) k) (\<lambda>names.
     Option.bind (slice names ((secondLevel * idSize idx) mod 2 ^ 32) (length names)) (\<lambda>inp.
       let hash = fst (oid_Write hash inp) in
       Option.bind (getOffset idx k secondLevel) (\<lambda>off.
         case off of
           Inl err \<Rightarrow> Some (Inl err)
         | Inr off \<Rightarrow> gen_bucket idx k (secondLevel + 1) n hash (m(off \<mapsto> hash)))))"

fun gen_levels ::
  "MemoryIndex \<Rightarrow> (u32 \<times> int) list \<Rightarrow> nat \<Rightarrow> ObjectID \<Rightarrow> (u64 \<rightharpoonup> ObjectID) \<Rightarrow> (idx_error + (u64 \<rightharpoonup> ObjectID)) option" where
  "gen_levels idx [] i hash m = Some (Inr m)"
| "gen_levels idx ((fanoutValue, k) # levels) i hash m =
     Option.bind (gen_bucket idx k 0 (unat fanoutValue - i) hash m) (\<lambda>r.
       case r of
         Inl err \<Rightarrow> Some (Inl err)
       | Inr (hash, m) \<Rightarrow> gen_levels idx levels (max i (unat fanoutValue)) hash m)"

definition genOffsetHash :: "MemoryIndex \<Rightarrow> ((idx_error + unit) \<times> MemoryIndex) option" where
  "genOffsetHash idx =
     Option.bind (gen_levels idx (zip (mi_Fanout idx) (mi_FanoutMapping idx)) 0
         (ResetBySize ZeroHash (mi_objectIDSize idx)) Map.empty) (\<lambda>r.
       case r of
         Inl err \<Rightarrow> Some (Inl err, idx)
       | Inr m \<Rightarrow> Some (Inr (), idx\<lparr>mi_offsetHash := Some m\<rparr>))"

definition offset_lookup :: "MemoryIndex \<Rightarrow> u64 \<Rightarrow> ObjectID option" where
  "offset_lookup idx off = Option.bind (mi_offsetHash idx) (\<lambda>m. m off)"

text \<open>The map is generated once, by \<open>sync.Once\<close>, whether that fails or not.\<close>

definition FindHash :: "MemoryIndex \<Rightarrow> u64 \<Rightarrow> ((idx_error + ObjectID) \<times> MemoryIndex) option" where
  "FindHash idx off =
     (case offset_lookup idx off of
        Some hash \<Rightarrow> Some (Inr hash, idx)
      | None \<Rightarrow>
          Option.bind (if mi_built idx then Some (Inr (), idx) else genOffsetHash idx) (\<lambda>(r, idx).
            let idx = idx\<lparr>mi_built := True\<rparr> in
            case r of
              Inl err \<Rightarrow> Some (Inl err, idx)
            | Inr _ \<Rightarrow> Some (note_err IdxObjectNotFound (offset_lookup idx off), idx)))"

subsection \<open>What the tables hold\<close>

text \<open>A row: the name, the checksum and the 32-bit offset.\<close>

type_synonym idx_row = "bytes \<times> u32 \<times> u32"

abbreviation (input) row_name :: "idx_row \<Rightarrow> bytes" where "row_name r \<equiv> fst r"
abbreviation (input) row_crc :: "idx_row \<Rightarrow> u32" where "row_crc r \<equiv> fst (snd r)"
abbreviation (input) row_ofs :: "idx_row \<Rightarrow> u32" where "row_ofs r \<equiv> snd (snd r)"

definition names_of :: "idx_row list \<Rightarrow> bytes" where "names_of rs = concat (map (\<lambda>r. row_name r) rs)"
definition crcs_of :: "idx_row list \<Rightarrow> bytes" where "crcs_of rs = concat (map (\<lambda>r. WriteUint32 (row_crc r)) rs)"
definition ofs_of :: "idx_row list \<Rightarrow> bytes" where "ofs_of rs = concat (map (\<lambda>r. WriteUint32 (row_ofs r)) rs)"

definition fan_lo :: "u32 list \<Rightarrow> nat \<Rightarrow> nat" where
  "fan_lo F b = (if b = 0 then 0 else unat (F ! (b - 1)))"

definition bucket :: "u32 list \<Rightarrow> idx_row list \<Rightarrow> nat \<Rightarrow> idx_row list" where
  "bucket F rows b = take (unat (F ! b) - fan_lo F b) (drop (fan_lo F b) rows)"

definition row_offset :: "u64 list \<Rightarrow> u32 \<Rightarrow> idx_error + u64" where
  "row_offset o64 ofs =
     (if isO64 ofs then (if o64_index ofs < length o64 then Inr (o64 ! o64_index ofs) else Inl ErrMalformedIdxFile)
      else Inr (ucast ofs))"

definition holds_bucket :: "MemoryIndex \<Rightarrow> nat \<Rightarrow> idx_row list \<Rightarrow> bool" where
  "holds_bucket idx k rs \<longleftrightarrow> k < length (mi_Names idx) \<and> k < length (mi_Offset32 idx) \<and> k < length (mi_CRC32 idx) \<and>
     mi_Names idx ! k = names_of rs \<and> mi_Offset32 idx ! k = ofs_of rs \<and> mi_CRC32 idx ! k = crcs_of rs"

definition fan_ok :: "u32 list \<Rightarrow> nat \<Rightarrow> bool" where
  "fan_ok F n \<longleftrightarrow> length F = 256 \<and> (\<forall>a b. a \<le> b \<longrightarrow> b < 256 \<longrightarrow> unat (F ! a) \<le> unat (F ! b)) \<and> unat (F ! 255) = n"

definition layout :: "MemoryIndex \<Rightarrow> idx_row list \<Rightarrow> u64 list \<Rightarrow> bool" where
  "layout idx rows o64 \<longleftrightarrow> fan_ok (mi_Fanout idx) (length rows) \<and> length (mi_FanoutMapping idx) = 256 \<and>
     list_all (\<lambda>r. length (row_name r) = idSize idx) rows \<and> mi_Offset64 idx = concat (map WriteUint64 o64) \<and>
     (\<forall>b < 256. if bucket (mi_Fanout idx) rows b = [] then mi_FanoutMapping idx ! b = noMapping
        else \<exists>k. mi_FanoutMapping idx ! b = int k \<and> holds_bucket idx k (bucket (mi_Fanout idx) rows b))"

lemma idSize_pos: "0 < idSize idx" by (simp add: idSize_def)

lemma drop_concat_fixed:
  "list_all (\<lambda>r. length (f r) = n) rs \<Longrightarrow> drop (i * n) (concat (map f rs)) = concat (map f (drop i rs))"
proof (induction rs arbitrary: i)
  case (Cons r rs)
  then show ?case by (cases i) simp_all
qed simp

lemma length_concat_fixed: "list_all (\<lambda>r. length (f r) = n) rs \<Longrightarrow> length (concat (map f rs)) = length rs * n"
  by (induction rs) auto

lemma slice_concat_fixed:
  assumes "list_all (\<lambda>r. length (f r) = n) rs" and "i < length rs"
  shows "slice (concat (map f rs)) (i * n) (i * n + n) = Some (f (rs ! i))"
proof -
  have "drop i rs = rs ! i # drop (Suc i) rs" using assms(2) by (simp add: Cons_nth_drop_Suc)
  moreover have "length (f (rs ! i)) = n" using assms by (simp add: list_all_length)
  moreover have "i * n + n \<le> length rs * n" using assms(2) by (metis Suc_leI add.commute mult_Suc mult_le_mono1)
  ultimately show ?thesis
    using drop_concat_fixed [OF assms(1), of i] length_concat_fixed [OF assms(1)] by (simp add: slice_def)
qed

lemma WriteUint_fixed:
  "list_all (\<lambda>r. length (WriteUint32 (f r)) = 4) rs" "list_all (\<lambda>r. length (WriteUint64 (g r)) = 8) rs'"
  by (simp_all add: list_all_iff)

lemma be_Write [simp]: "be32 (WriteUint32 w) = w" "be64 (WriteUint64 v) = v"
  using uint_codecs(2) [of w "[]"] uint_codecs(1) [of v "[]"]
  by (simp_all add: ReadUint32_def ReadUint64_def be32_def be64_def read_full_def)

lemma slice_tables:
  assumes "i < length rs"
  shows "slice (ofs_of rs) (4 * i) (4 * i + 4) = Some (WriteUint32 (row_ofs (rs ! i)))"
    "slice (crcs_of rs) (4 * i) (4 * i + 4) = Some (WriteUint32 (row_crc (rs ! i)))"
  using slice_concat_fixed [OF WriteUint_fixed(1) assms] by (simp_all add: ofs_of_def crcs_of_def mult.commute)

lemma length_tables [simp]: "length (ofs_of rs) = 4 * length rs" "length (crcs_of rs) = 4 * length rs"
  using length_concat_fixed [OF WriteUint_fixed(1)] by (simp_all add: ofs_of_def crcs_of_def mult.commute)

lemma slice_names:
  assumes "list_all (\<lambda>r. length (row_name r) = n) rs" and "i < length rs"
  shows "slice (names_of rs) (i * n) (i * n + n) = Some (row_name (rs ! i))"
  using slice_concat_fixed [OF assms(1,2)] by (simp add: names_of_def)

lemma offset_in_rows:
  assumes "i < length rs"
  shows "offset_in (ofs_of rs) (concat (map WriteUint64 o64)) i = Some (row_offset o64 (row_ofs (rs ! i)))"
proof -
  let ?ofs = "row_ofs (rs ! i)" and ?t = "concat (map WriteUint64 o64)"
  have l: "length ?t = 8 * length o64" using length_concat_fixed [OF WriteUint_fixed(2), of "\<lambda>x. x" o64] by simp
  have s: "slice ?t (8 * j) (8 * j + 8) = Some (WriteUint64 (o64 ! j))" if "j < length o64" for j
    using slice_concat_fixed [OF WriteUint_fixed(2), of j o64 "\<lambda>x. x"] that by (simp add: mult.commute)
  have "(length ?t < 8 \<or> 8 * o64_index ?ofs > length ?t - 8) \<longleftrightarrow> \<not> o64_index ?ofs < length o64"
    unfolding l by (cases o64) auto
  then show ?thesis
    using s [of "o64_index ?ofs"] by (simp add: offset_in_def slice_tables [OF assms] row_offset_def Let_def)
qed

subsection \<open>Searching a bucket\<close>

text \<open>What a search between two positions promises: a hit is one, and in sorted rows a miss is a miss.\<close>

abbreviation (input) rows_sorted :: "idx_row list \<Rightarrow> bool" where
  "rows_sorted rs \<equiv> sorted_wrt (\<lambda>x y. row_name x < row_name y) rs"

definition search_result :: "idx_row list \<Rightarrow> bytes \<Rightarrow> nat \<Rightarrow> nat \<Rightarrow> nat option \<Rightarrow> bool" where
  "search_result rs name low high r \<longleftrightarrow>
     (case r of
        Some i \<Rightarrow> low \<le> i \<and> i < high \<and> row_name (rs ! i) = name
      | None \<Rightarrow> rows_sorted rs \<longrightarrow> (\<forall>i. low \<le> i \<longrightarrow> i < high \<longrightarrow> row_name (rs ! i) \<noteq> name))"

lemma rows_sorted_nth: "rows_sorted rs \<Longrightarrow> i < j \<Longrightarrow> j < length rs \<Longrightarrow> row_name (rs ! i) < row_name (rs ! j)"
  using sorted_wrt_nth_less [of "\<lambda>x y. row_name x < row_name y" rs i j] by simp

lemma search_left:
  assumes "name < row_name (rs ! mid)" and "mid < high" and "high \<le> length rs" and "search_result rs name low mid r"
  shows "search_result rs name low high r"
proof -
  have "row_name (rs ! i) \<noteq> name" if "rows_sorted rs" "mid \<le> i" "i < high" for i
    using assms(1,3) rows_sorted_nth [OF that(1), of mid i] that(2,3) by (cases "mid = i") auto
  then show ?thesis using assms(2,4) by (force simp: search_result_def not_le split: option.splits)
qed

lemma search_right:
  assumes "row_name (rs ! mid) < name" and "low \<le> mid" and "mid < length rs" and "search_result rs name (mid + 1) high r"
  shows "search_result rs name low high r"
proof -
  have "row_name (rs ! i) \<noteq> name" if "rows_sorted rs" "i \<le> mid" for i
    using assms(1,3) rows_sorted_nth [OF that(1), of i mid] that(2) by (cases "i = mid") auto
  then have "row_name (rs ! i) \<noteq> name" if "rows_sorted rs" "r = None" "i < high" for i
    using assms(4) that by (cases "i \<le> mid") (auto simp: search_result_def)
  then show ?thesis using assms(2,4) by (cases r) (auto simp: search_result_def)
qed

lemma search_nothing: "high \<le> low \<Longrightarrow> search_result rs name low high None"
  by (simp add: search_result_def)

lemma oid_Compare_cases:
  "(oid_Compare h name < 0 \<longleftrightarrow> oid_Bytes h < name) \<and> (oid_Compare h name = 0 \<longleftrightarrow> oid_Bytes h = name)"
  by (simp add: oid_Compare_def bytes_Compare_less bytes_Compare_eq)

lemma findHashIndex_loop_spec:
  assumes names: "list_all (\<lambda>r. length (row_name r) = sz) rs" and "low < high" and "high \<le> length rs"
  shows "\<exists>r. findHashIndex_loop sz (names_of rs) h low high = Some r \<and> search_result rs (oid_Bytes h) low high r"
  using assms(2,3)
proof (induction "high - low" arbitrary: low high rule: less_induct)
  case less
  define mid where "mid = (low + high) div 2"
  have mid: "low \<le> mid" "mid < high" using less.prems(1) by (auto simp: mid_def)
  let ?loop = "findHashIndex_loop sz (names_of rs) h" and ?name = "row_name (rs ! mid)"
  have step: "?loop low high =
      (if oid_Bytes h < ?name then (if low \<ge> mid then Some None else ?loop low mid)
       else if oid_Bytes h = ?name then Some (Some mid)
       else (if mid + 1 \<ge> high then Some None else ?loop (mid + 1) high))"
    using slice_names [OF names, of mid] mid less.prems(2) oid_Compare_cases [of h ?name]
    by (subst findHashIndex_loop.simps) (simp add: Let_def flip: mid_def)
  consider "oid_Bytes h < ?name" | "oid_Bytes h = ?name" | "?name < oid_Bytes h" by fastforce
  then show ?case
  proof cases
    case 1
    have "\<exists>r. ?loop low high = Some r \<and> search_result rs (oid_Bytes h) low mid r"
      using less.hyps [of mid low] 1 mid less.prems search_nothing [of mid low]
      unfolding step by (cases "low < mid") auto
    then show ?thesis using search_left [OF 1] mid less.prems by blast
  next
    case 2
    then show ?thesis using mid by (auto simp: step search_result_def)
  next
    case 3
    have "\<exists>r. ?loop low high = Some r \<and> search_result rs (oid_Bytes h) (mid + 1) high r"
      using less.hyps [of high "mid + 1"] 3 mid less.prems search_nothing [of high "mid + 1"]
      unfolding step by (cases "mid + 1 < high") auto
    then show ?thesis using search_right [OF 3] mid less.prems by (meson less_le_trans)
  qed
qed

subsection \<open>Lookups in an index with a layout\<close>

lemma first_byte_Some:
  assumes "oid_ok h"
  shows "first_byte h = Some (unat (hd (oid_Bytes h)))" "oid_Bytes h \<noteq> []" "unat (hd (oid_Bytes h)) < 256"
proof -
  have "0 < oid_Size h" by (cases "oid_format h") (simp_all add: oid_Size_def)
  then have "0 < length (oid_Bytes h)" using assms by (simp add: oid_ok_iff)
  then show "first_byte h = Some (unat (hd (oid_Bytes h)))" "oid_Bytes h \<noteq> []"
    by (auto simp: first_byte_def index_def hd_conv_nth)
qed (rule unat_byte_less)

lemma fan_bounds:
  assumes "fan_ok F n" and "b < 256"
  shows "fan_lo F b \<le> unat (F ! b)" "unat (F ! b) \<le> n"
  using assms by (auto simp: fan_ok_def fan_lo_def)

lemma length_bucket:
  assumes "fan_ok F (length rows)" and "b < 256"
  shows "length (bucket F rows b) = unat (F ! b) - fan_lo F b"
  using fan_bounds [OF assms] by (simp add: bucket_def)

lemma bucket_nth:
  assumes "fan_ok F (length rows)" and "b < 256" and "i < length (bucket F rows b)"
  shows "bucket F rows b ! i = rows ! (fan_lo F b + i)" "fan_lo F b + i < length rows"
  using fan_bounds [OF assms(1,2)] assms(3) by (simp_all add: bucket_def)

lemma set_bucket: "set (bucket F rows b) \<subseteq> set rows"
  unfolding bucket_def by (meson set_drop_subset set_take_subset subset_trans)

lemma layout_names: "layout idx rows o64 \<Longrightarrow> list_all (\<lambda>r. length (row_name r) = idSize idx) (bucket F rows b)"
  using set_bucket [of F rows b] by (auto simp: layout_def list_all_iff)

lemma layout_bucket:
  assumes "layout idx rows o64" and "b < 256" and "bucket (mi_Fanout idx) rows b \<noteq> []"
  obtains k where "mi_FanoutMapping idx ! b = int k" "holds_bucket idx k (bucket (mi_Fanout idx) rows b)"
  using assms by (auto simp: layout_def dest!: spec [of _ b])

lemma layout_empty:
  assumes "layout idx rows o64" and "b < 256" and "bucket (mi_Fanout idx) rows b = []"
  shows "mi_FanoutMapping idx ! b = noMapping"
  using assms by (auto simp: layout_def)

lemma layout_mapping: "layout idx rows o64 \<Longrightarrow> b < 256 \<Longrightarrow> index (mi_FanoutMapping idx) b = Some (mi_FanoutMapping idx ! b)"
  by (simp add: layout_def index_def)

lemma holds_tables:
  assumes "holds_bucket idx k rs" and "mi_Offset64 idx = concat (map WriteUint64 o64)" and "i < length rs"
  shows "getOffset idx (int k) i = Some (row_offset o64 (row_ofs (rs ! i)))"
    "getCRC32 idx (int k) i = Some (row_crc (rs ! i))"
  using assms offset_in_rows [OF assms(3)] slice_tables [OF assms(3)]
  by (simp_all add: holds_bucket_def getOffset_def getCRC32_def at_int_def index_def)

lemma findHashIndex_layout:
  assumes "layout idx rows o64" and "first_byte h = Some b" and "b < 256"
  shows "\<exists>r. findHashIndex idx h = Some r \<and>
    search_result (bucket (mi_Fanout idx) rows b) (oid_Bytes h) 0 (length (bucket (mi_Fanout idx) rows b)) r"
proof (cases "bucket (mi_Fanout idx) rows b = []")
  case True
  then show ?thesis using assms layout_empty layout_mapping by (auto simp: findHashIndex_def search_nothing)
next
  case False
  obtain k where k: "mi_FanoutMapping idx ! b = int k" "holds_bucket idx k (bucket (mi_Fanout idx) rows b)"
    using layout_bucket [OF assms(1,3) False] .
  have "findHashIndex idx h =
      findHashIndex_loop (idSize idx) (names_of (bucket (mi_Fanout idx) rows b)) h 0 (length (bucket (mi_Fanout idx) rows b))"
    using k False assms(2) layout_mapping [OF assms(1,3)]
    by (simp add: findHashIndex_def noMapping_def holds_bucket_def at_int_def index_def Let_def)
  then show ?thesis using findHashIndex_loop_spec [OF layout_names [OF assms(1)]] False by simp
qed

text \<open>
  On an index with a layout, whatever its rows are, the lookups return: no slice expression is out of
  range. What they return is read from a row with the name.
\<close>

definition lookup_result :: "MemoryIndex \<Rightarrow> idx_row list \<Rightarrow> u64 list \<Rightarrow> ObjectID \<Rightarrow> nat option \<Rightarrow> bool" where
  "lookup_result idx rows o64 h r \<longleftrightarrow>
     (let rs = bucket (mi_Fanout idx) rows (unat (hd (oid_Bytes h))) in
      search_result rs (oid_Bytes h) 0 (length rs) r \<and>
      findHashIndex idx h = Some r \<and> Contains idx h = Some (r \<noteq> None) \<and>
      FindCRC32 idx h = Some (case r of None \<Rightarrow> Inl IdxObjectNotFound | Some i \<Rightarrow> Inr (row_crc (rs ! i))) \<and>
      map_option fst (FindOffset idx h) =
        Some (case r of None \<Rightarrow> Inl IdxObjectNotFound | Some i \<Rightarrow> row_offset o64 (row_ofs (rs ! i))))"

lemma lookups_return:
  assumes "layout idx rows o64" and "oid_ok h"
  shows "\<exists>r. lookup_result idx rows o64 h r"
proof -
  let ?b = "unat (hd (oid_Bytes h))" and ?B = "bucket (mi_Fanout idx) rows (unat (hd (oid_Bytes h)))"
  note fb = first_byte_Some [OF assms(2)]
  obtain r where r: "findHashIndex idx h = Some r" "search_result ?B (oid_Bytes h) 0 (length ?B) r"
    using findHashIndex_layout [OF assms(1) fb(1,3)] by blast
  have len: "length (mi_FanoutMapping idx) = 256" and tab: "mi_Offset64 idx = concat (map WriteUint64 o64)"
    using assms(1) by (simp_all add: layout_def)
  note m = layout_mapping [OF assms(1) fb(3)]
  have "lookup_result idx rows o64 h r"
  proof (cases r)
    case None
    then show ?thesis using r fb len m by (simp add: lookup_result_def Contains_def FindCRC32_def FindOffset_def)
  next
    case (Some i)
    then have i: "i < length ?B" using r(2) by (simp add: search_result_def)
    then have "?B \<noteq> []" by auto
    from layout_bucket [OF assms(1) fb(3) this]
    obtain k where k: "mi_FanoutMapping idx ! ?b = int k" "holds_bucket idx k ?B" .
    show ?thesis
      using r fb len m k Some holds_tables [OF k(2) tab i]
      by (simp add: lookup_result_def Contains_def FindCRC32_def FindOffset_def Let_def split: sum.split)
  qed
  then show ?thesis ..
qed

subsection \<open>The entries that an index shows\<close>

abbreviation (input) entry_name :: "Entry \<Rightarrow> bytes" where "entry_name e \<equiv> oid_Bytes (pe_Hash e)"

definition entries_ok :: "Entry list \<Rightarrow> bool" where
  "entries_ok es \<longleftrightarrow> sorted_wrt (\<lambda>a b. entry_name a < entry_name b) es \<and> list_all (\<lambda>e. oid_ok (pe_Hash e)) es"

definition row_entry :: "u64 list \<Rightarrow> idx_row \<Rightarrow> Entry \<Rightarrow> bool" where
  "row_entry o64 r e \<longleftrightarrow> row_name r = entry_name e \<and> row_crc r = pe_CRC32 e \<and> row_offset o64 (row_ofs r) = Inr (pe_Offset e)"

text \<open>Every row is in the bucket of its first byte.\<close>

definition buckets_ok :: "u32 list \<Rightarrow> idx_row list \<Rightarrow> bool" where
  "buckets_ok F rows \<longleftrightarrow> (\<forall>b < 256. \<forall>r \<in> set (bucket F rows b). row_name r \<noteq> [] \<and> unat (hd (row_name r)) = b)"

definition table_shows :: "u32 list \<Rightarrow> idx_row list \<Rightarrow> u64 list \<Rightarrow> Entry list \<Rightarrow> bool" where
  "table_shows F rows o64 es \<longleftrightarrow> fan_ok F (length rows) \<and> buckets_ok F rows \<and> list_all2 (row_entry o64) rows es \<and> entries_ok es"

lemma bucket_exists:
  assumes "fan_ok F (length rows)" and "i < length rows"
  obtains b where "b < 256" "fan_lo F b \<le> i" "i < unat (F ! b)"
proof -
  let ?P = "\<lambda>b. b < 256 \<and> i < unat (F ! b)"
  have ex: "?P 255" using assms by (simp add: fan_ok_def)
  define b where "b = (LEAST b. ?P b)"
  have b: "?P b" unfolding b_def by (rule LeastI [of ?P, OF ex])
  have "fan_lo F b \<le> i"
  proof (cases b)
    case (Suc a)
    then have "\<not> ?P a" using not_less_Least [of a ?P] by (simp add: b_def)
    then show ?thesis using b Suc by (simp add: fan_lo_def not_less)
  qed (simp add: fan_lo_def)
  with b show thesis using that by blast
qed

lemma row_position:
  assumes "fan_ok F (length rows)" and "buckets_ok F rows" and "i < length rows"
  shows "\<exists>j < length (bucket F rows (unat (hd (row_name (rows ! i))))).
    fan_lo F (unat (hd (row_name (rows ! i)))) + j = i"
proof -
  obtain b where b: "b < 256" "fan_lo F b \<le> i" "i < unat (F ! b)" by (rule bucket_exists [OF assms(1,3)])
  let ?j = "i - fan_lo F b"
  have j: "?j < length (bucket F rows b)" using b length_bucket [OF assms(1) b(1)] by simp
  then have "bucket F rows b ! ?j = rows ! i" using bucket_nth(1) [OF assms(1) b(1) j] b(2) by simp
  then have "unat (hd (row_name (rows ! i))) = b"
    using assms(2) b(1) nth_mem [OF j] by (auto simp: buckets_ok_def)
  then show ?thesis using j b(2) by (intro exI [of _ ?j]) simp
qed

lemma find_unique:
  assumes "x \<in> set xs" and "P x" and "\<And>y. y \<in> set xs \<Longrightarrow> P y \<Longrightarrow> y = x"
  shows "find P xs = Some x"
proof (cases "find P xs")
  case None
  then show ?thesis using assms(1,2) by (auto simp: find_None_iff)
next
  case (Some y)
  then have "y \<in> set xs" "P y" by (auto simp: find_Some_iff)
  then show ?thesis using Some assms(3) by simp
qed

lemma entries_inj:
  assumes "entries_ok es" and "a \<in> set es" and "b \<in> set es" and "entry_name a = entry_name b"
  shows "a = b"
proof -
  obtain i j where ij: "i < length es" "j < length es" "a = es ! i" "b = es ! j"
    using assms(2,3) by (auto simp: in_set_conv_nth)
  have "i = j"
    using assms(1,4) ij sorted_wrt_nth_less [of "\<lambda>a b. entry_name a < entry_name b" es i j]
      sorted_wrt_nth_less [of "\<lambda>a b. entry_name a < entry_name b" es j i]
    by (cases i j rule: linorder_cases) (auto simp: entries_ok_def)
  with ij show ?thesis by simp
qed

lemma table_rows_sorted:
  assumes "table_shows F rows o64 es"
  shows "rows_sorted rows"
proof (unfold sorted_wrt_iff_nth_less, intro allI impI)
  fix i j assume ij: "i < j" "j < length rows"
  have "entry_name (es ! i) < entry_name (es ! j)"
    using assms ij sorted_wrt_nth_less [of "\<lambda>a b. entry_name a < entry_name b" es i j]
    by (auto simp: table_shows_def entries_ok_def dest: list_all2_lengthD)
  then show "row_name (rows ! i) < row_name (rows ! j)"
    using assms ij by (auto simp: table_shows_def list_all2_conv_all_nth row_entry_def)
qed

lemma sorted_wrt_bucket: "rows_sorted rows \<Longrightarrow> rows_sorted (bucket F rows b)"
  unfolding bucket_def by (intro sorted_wrt_take sorted_wrt_drop)

text \<open>The search of a bucket, in terms of the entries.\<close>

lemma search_entries:
  assumes T: "table_shows F rows o64 es" and h: "oid_ok h"
    and r: "search_result (bucket F rows (unat (hd (oid_Bytes h)))) (oid_Bytes h) 0
      (length (bucket F rows (unat (hd (oid_Bytes h))))) r"
  shows "case r of
      None \<Rightarrow> find (\<lambda>e. entry_name e = oid_Bytes h) es = None
    | Some i \<Rightarrow> \<exists>e. find (\<lambda>e. entry_name e = oid_Bytes h) es = Some e \<and>
        row_entry o64 (bucket F rows (unat (hd (oid_Bytes h))) ! i) e"
proof -
  let ?b = "unat (hd (oid_Bytes h))"
  let ?B = "bucket F rows ?b"
  have fan: "fan_ok F (length rows)" and bo: "buckets_ok F rows" and re: "list_all2 (row_entry o64) rows es" and ok: "entries_ok es"
    using T by (auto simp: table_shows_def)
  have b: "?b < 256" by (rule unat_byte_less)
  show ?thesis
  proof (cases r)
    case (Some i)
    then have i: "i < length ?B" "row_name (?B ! i) = oid_Bytes h" using r by (auto simp: search_result_def)
    let ?e = "es ! (fan_lo F ?b + i)"
    note nth = bucket_nth [OF fan b i(1)]
    have re': "row_entry o64 (?B ! i) ?e" and mem: "?e \<in> set es"
      using re nth by (auto simp: list_all2_conv_all_nth)
    have "find (\<lambda>e. entry_name e = oid_Bytes h) es = Some ?e"
    proof (rule find_unique [OF mem])
      show n: "entry_name ?e = oid_Bytes h" using re' i(2) by (simp add: row_entry_def)
      show "y = ?e" if "y \<in> set es" "entry_name y = oid_Bytes h" for y
        using entries_inj [OF ok that(1) mem] that(2) n by simp
    qed
    then show ?thesis using Some re' by auto
  next
    case None
    have "entry_name e \<noteq> oid_Bytes h" if e: "e \<in> set es" for e
    proof
      assume n: "entry_name e = oid_Bytes h"
      obtain i where i: "i < length rows" "e = es ! i" using e re by (auto simp: in_set_conv_nth dest: list_all2_lengthD)
      then have nm: "row_name (rows ! i) = oid_Bytes h"
        using re n by (auto simp: list_all2_conv_all_nth row_entry_def)
      obtain j where j: "j < length ?B" "fan_lo F ?b + j = i"
        using row_position [OF fan bo i(1)] unfolding nm by blast
      have "row_name (?B ! j) = oid_Bytes h" using bucket_nth(1) [OF fan b j(1)] j(2) nm by simp
      then show False
        using r None j(1) sorted_wrt_bucket [OF table_rows_sorted [OF T]] by (auto simp: search_result_def)
    qed
    then show ?thesis using None by (simp add: find_None_iff)
  qed
qed

subsection \<open>The contract of an index\<close>

text \<open>
  The interface \<open>Index\<close>: a value may show a list of entries; then its operations are lookups in that
  list. A panic is \<open>None\<close>.
\<close>

locale pack_index =
  fixes shows_entries :: "'s \<Rightarrow> Entry list \<Rightarrow> bool"
    and fits :: "'s \<Rightarrow> ObjectID \<Rightarrow> bool"
    and contains :: "'s \<Rightarrow> ObjectID \<Rightarrow> (idx_error + bool) option"
    and may_contain :: "'s \<Rightarrow> ObjectID \<Rightarrow> bool option"
    and find_offset :: "'s \<Rightarrow> ObjectID \<Rightarrow> (idx_error + u64) option"
    and find_crc :: "'s \<Rightarrow> ObjectID \<Rightarrow> (idx_error + u32) option"
    and find_hash :: "'s \<Rightarrow> u64 \<Rightarrow> (idx_error + ObjectID) option"
    and count :: "'s \<Rightarrow> nat option"
  assumes shows_ok: "shows_entries s es \<Longrightarrow> entries_ok es"
    and contains_find: "shows_entries s es \<Longrightarrow> fits s h \<Longrightarrow>
      contains s h = Some (Inr (find (\<lambda>e. entry_name e = oid_Bytes h) es \<noteq> None))"
    and may_contain_find: "shows_entries s es \<Longrightarrow> fits s h \<Longrightarrow>
      \<exists>m. may_contain s h = Some m \<and> (find (\<lambda>e. entry_name e = oid_Bytes h) es \<noteq> None \<longrightarrow> m)"
    and offset_find: "shows_entries s es \<Longrightarrow> fits s h \<Longrightarrow>
      find_offset s h = Some (note_err IdxObjectNotFound (map_option pe_Offset (find (\<lambda>e. entry_name e = oid_Bytes h) es)))"
    and crc_find: "shows_entries s es \<Longrightarrow> fits s h \<Longrightarrow>
      find_crc s h = Some (note_err IdxObjectNotFound (map_option pe_CRC32 (find (\<lambda>e. entry_name e = oid_Bytes h) es)))"
    and hash_find: "shows_entries s es \<Longrightarrow> distinct (map pe_Offset es) \<Longrightarrow>
      map_option (map_sum id oid_Bytes) (find_hash s off) =
        Some (note_err IdxObjectNotFound (map_option (\<lambda>e. entry_name e) (find (\<lambda>e. pe_Offset e = off) es)))"
    and count_entries: "shows_entries s es \<Longrightarrow> count s = Some (length es)"
begin

lemma offset_iff:
  assumes "shows_entries s es" and "fits s h"
  shows "find_offset s h = Some (Inr off) \<longleftrightarrow> (\<exists>e \<in> set es. entry_name e = oid_Bytes h \<and> pe_Offset e = off)"
proof (cases "find (\<lambda>e. entry_name e = oid_Bytes h) es")
  case None
  note o = offset_find [OF assms, unfolded None option.map note_err_simps]
  have n: "entry_name e \<noteq> oid_Bytes h" if "e \<in> set es" for e
    using None that by (simp only: find_None_iff) blast
  show ?thesis unfolding o using n by blast
next
  case (Some e)
  note o = offset_find [OF assms, unfolded Some option.map note_err_simps]
  have e: "e \<in> set es" "entry_name e = oid_Bytes h" using Some by (auto simp only: find_Some_iff nth_mem)
  have u: "e' = e" if "e' \<in> set es" "entry_name e' = oid_Bytes h" for e'
    using entries_inj [OF shows_ok [OF assms(1)] that(1) e(1)] that(2) e(2) by simp
  show ?thesis unfolding o using e u by blast
qed

lemma hash_of_offset:
  assumes "shows_entries s es" and "fits s h" and "distinct (map pe_Offset es)" and "find_offset s h = Some (Inr off)"
  shows "\<exists>h'. find_hash s off = Some (Inr h') \<and> oid_Bytes h' = oid_Bytes h"
proof -
  obtain e where e: "e \<in> set es" "entry_name e = oid_Bytes h" "pe_Offset e = off"
    using assms(4) offset_iff [OF assms(1,2)] by blast
  have "find (\<lambda>e. pe_Offset e = off) es = Some e"
    by (rule find_unique [OF e(1)]) (use assms(3) e in \<open>auto simp: distinct_map inj_on_def\<close>)
  then have "map_option (map_sum id oid_Bytes) (find_hash s off) = Some (Inr (oid_Bytes h))"
    using hash_find [OF assms(1,3), of off] e(2) by simp
  then obtain r where r: "find_hash s off = Some r" "map_sum id oid_Bytes r = Inr (oid_Bytes h)" by auto
  then show ?thesis by (cases r) auto
qed

lemma no_panic:
  assumes "shows_entries s es" and "fits s h"
  shows "contains s h \<noteq> None \<and> may_contain s h \<noteq> None \<and> find_offset s h \<noteq> None \<and> find_crc s h \<noteq> None"
  using contains_find [OF assms] may_contain_find [OF assms] offset_find [OF assms] crc_find [OF assms] by auto

lemma fast_path_sound:
  assumes "shows_entries s es" and "fits s h" and "may_contain s h = Some False"
  shows "find_offset s h = Some (Inl IdxObjectNotFound) \<and> contains s h = Some (Inr False)"
  using may_contain_find [OF assms(1,2)] offset_find [OF assms(1,2)] contains_find [OF assms(1,2)] assms(3)
  by (cases "find (\<lambda>e. entry_name e = oid_Bytes h) es") auto

end

subsection \<open>The index in memory keeps the contract\<close>

text \<open>
  The map from offsets to identifiers: what it has is right, and after it was generated it has everything.
  The identifiers in it are compared by their bytes; what is in their arrays beyond is left open.
\<close>

definition offsets_ok :: "MemoryIndex \<Rightarrow> Entry list \<Rightarrow> bool" where
  "offsets_ok idx es \<longleftrightarrow>
     (\<forall>off h. offset_lookup idx off = Some h \<longrightarrow> (\<exists>e \<in> set es. pe_Offset e = off \<and> entry_name e = oid_Bytes h)) \<and>
     (mi_built idx \<longrightarrow> (\<forall>e \<in> set es. offset_lookup idx (pe_Offset e) \<noteq> None))"

definition mem_shows :: "MemoryIndex \<Rightarrow> Entry list \<Rightarrow> bool" where
  "mem_shows idx es \<longleftrightarrow>
     (\<exists>rows o64. layout idx rows o64 \<and> table_shows (mi_Fanout idx) rows o64 es) \<and>
     mi_objectIDSize idx \<in> {20, 32} \<and> length es * idSize idx < 2 ^ 32 \<and> offsets_ok idx es"

definition mem_fits :: "MemoryIndex \<Rightarrow> ObjectID \<Rightarrow> bool" where
  "mem_fits idx h \<longleftrightarrow> oid_ok h"

lemma mem_lookups:
  assumes "layout idx rows o64" and "table_shows (mi_Fanout idx) rows o64 es" and "oid_ok h"
  shows "Contains idx h = Some (find (\<lambda>e. entry_name e = oid_Bytes h) es \<noteq> None) \<and>
    FindCRC32 idx h = Some (note_err IdxObjectNotFound (map_option pe_CRC32 (find (\<lambda>e. entry_name e = oid_Bytes h) es))) \<and>
    map_option fst (FindOffset idx h) =
      Some (note_err IdxObjectNotFound (map_option pe_Offset (find (\<lambda>e. entry_name e = oid_Bytes h) es)))"
proof -
  obtain r where r: "lookup_result idx rows o64 h r" using lookups_return [OF assms(1,3)] ..
  then have s: "search_result (bucket (mi_Fanout idx) rows (unat (hd (oid_Bytes h)))) (oid_Bytes h) 0
      (length (bucket (mi_Fanout idx) rows (unat (hd (oid_Bytes h))))) r"
    by (simp add: lookup_result_def Let_def)
  show ?thesis
    using search_entries [OF assms(2,3) s] r
    by (cases r) (auto simp: lookup_result_def Let_def row_entry_def)
qed

lemma mem_may_contain:
  assumes L: "layout idx rows o64" and T: "table_shows (mi_Fanout idx) rows o64 es" and h: "oid_ok h"
  shows "\<exists>m. MayContain idx h = Some m \<and> (find (\<lambda>e. entry_name e = oid_Bytes h) es \<noteq> None \<longrightarrow> m)"
proof -
  let ?b = "unat (hd (oid_Bytes h))"
  let ?B = "bucket (mi_Fanout idx) rows ?b"
  note fb = first_byte_Some [OF h]
  have m: "MayContain idx h = Some (mi_FanoutMapping idx ! ?b \<noteq> noMapping)"
    using fb(1) layout_mapping [OF L fb(3)] by (simp add: MayContain_def)
  have "mi_FanoutMapping idx ! ?b \<noteq> noMapping" if f: "find (\<lambda>e. entry_name e = oid_Bytes h) es \<noteq> None"
  proof
    assume k: "mi_FanoutMapping idx ! ?b = noMapping"
    have "?B = []"
    proof (rule ccontr)
      assume "?B \<noteq> []"
      from layout_bucket [OF L fb(3) this] k show False by (simp add: noMapping_def)
    qed
    then have "search_result ?B (oid_Bytes h) 0 (length ?B) None" by (simp add: search_nothing)
    from search_entries [OF T h this] f show False by simp
  qed
  with m show ?thesis by blast
qed


text \<open>What generating the map from rows adds to it.\<close>

definition grown :: "u64 list \<Rightarrow> idx_row list \<Rightarrow> (u64 \<rightharpoonup> ObjectID) \<Rightarrow> (u64 \<rightharpoonup> ObjectID) \<Rightarrow> bool" where
  "grown o64 rs m m' \<longleftrightarrow>
     (\<forall>off h. m' off = Some h \<longrightarrow> m off = Some h \<or> (\<exists>r \<in> set rs. row_offset o64 (row_ofs r) = Inr off \<and> row_name r = oid_Bytes h)) \<and>
     (\<forall>off. m off \<noteq> None \<or> (\<exists>r \<in> set rs. row_offset o64 (row_ofs r) = Inr off) \<longrightarrow> m' off \<noteq> None)"

lemma grown_Nil: "grown o64 [] m m" by (simp add: grown_def)

lemma grown_Cons:
  assumes "row_offset o64 (row_ofs r) = Inr off" and "row_name r = oid_Bytes h" and "grown o64 rs (m(off \<mapsto> h)) m'"
  shows "grown o64 (r # rs) m m'"
  unfolding grown_def
proof (intro conjI allI impI)
  fix off' h' assume "m' off' = Some h'"
  with assms(3) have "(m(off \<mapsto> h)) off' = Some h' \<or>
      (\<exists>r \<in> set rs. row_offset o64 (row_ofs r) = Inr off' \<and> row_name r = oid_Bytes h')"
    unfolding grown_def by blast
  then show "m off' = Some h' \<or> (\<exists>r \<in> set (r # rs). row_offset o64 (row_ofs r) = Inr off' \<and> row_name r = oid_Bytes h')"
    using assms(1,2) by (cases "off' = off") auto
next
  fix off' assume "m off' \<noteq> None \<or> (\<exists>r \<in> set (r # rs). row_offset o64 (row_ofs r) = Inr off')"
  then have "(m(off \<mapsto> h)) off' \<noteq> None \<or> (\<exists>r \<in> set rs. row_offset o64 (row_ofs r) = Inr off')"
    using assms(1) by auto
  with assms(3) show "m' off' \<noteq> None" unfolding grown_def by blast
qed

lemma grown_append: "grown o64 rs m m' \<Longrightarrow> grown o64 rs' m' m'' \<Longrightarrow> grown o64 (rs @ rs') m m''"
  unfolding grown_def by (simp only: set_append bex_Un) blast

definition hash_buffer :: "MemoryIndex \<Rightarrow> ObjectID \<Rightarrow> bool" where
  "hash_buffer idx h \<longleftrightarrow> oid_Size h = idSize idx \<and> length (oid_hash h) = 32"

lemma hash_buffer_Write:
  assumes "hash_buffer idx h" and "length name = idSize idx"
  shows "hash_buffer idx (fst (oid_Write h (name @ rest)))" "oid_Bytes (fst (oid_Write h (name @ rest))) = name"
  using assms oid_Size_le [of h] by (auto simp: hash_buffer_def oid_Write_def Let_def oid_Bytes_def oid_Size_def min_def)

lemma slice_tail: "i \<le> length xs \<Longrightarrow> slice xs i (length xs) = Some (drop i xs)"
  by (simp add: slice_def)

lemma rest_of_names:
  assumes "list_all (\<lambda>r. length (row_name r) = n) rs" and "i < length rs"
  shows "slice (names_of rs) (i * n) (length (names_of rs)) = Some (row_name (rs ! i) @ names_of (drop (Suc i) rs))"
proof -
  have "drop (i * n) (names_of rs) = names_of (drop i rs)"
    using drop_concat_fixed [OF assms(1)] by (simp add: names_of_def)
  moreover have "drop i rs = rs ! i # drop (Suc i) rs" using assms(2) by (simp add: Cons_nth_drop_Suc)
  moreover have "i * n \<le> length (names_of rs)"
    using length_concat_fixed [OF assms(1)] assms(2) by (simp add: names_of_def)
  ultimately show ?thesis by (simp only: slice_tail) (simp add: names_of_def)
qed

lemma gen_bucket_rows:
  assumes H: "holds_bucket idx k rs" and tab: "mi_Offset64 idx = concat (map WriteUint64 o64)"
    and names: "list_all (\<lambda>r. length (row_name r) = idSize idx) rs"
    and offs: "\<forall>r \<in> set rs. \<exists>off. row_offset o64 (row_ofs r) = Inr off"
    and small: "length rs * idSize idx < 2 ^ 32"
  shows "j + n = length rs \<Longrightarrow> hash_buffer idx hash \<Longrightarrow>
    \<exists>hash' m'. gen_bucket idx (int k) j n hash m = Some (Inr (hash', m')) \<and> hash_buffer idx hash' \<and> grown o64 (drop j rs) m m'"
proof (induction n arbitrary: j hash m)
  case 0
  then show ?case by (simp add: grown_Nil)
next
  case (Suc n)
  then have j: "j < length rs" by simp
  have "j * idSize idx \<le> length rs * idSize idx" using j by simp
  then have "(j * idSize idx) mod 2 ^ 32 = j * idSize idx" using small by (intro mod_less) linarith
  moreover have "at_int (mi_Names idx) (int k) = Some (names_of rs)" using H by (simp add: holds_bucket_def at_int_def index_def)
  moreover have len: "length (row_name (rs ! j)) = idSize idx" using names j by (simp add: list_all_length)
  moreover obtain off where off: "row_offset o64 (row_ofs (rs ! j)) = Inr off" using offs nth_mem [OF j] by blast
  define h where "h = fst (oid_Write hash (row_name (rs ! j) @ names_of (drop (Suc j) rs)))"
  note hb = hash_buffer_Write [OF Suc.prems(2) len, of "names_of (drop (Suc j) rs)", folded h_def]
  ultimately have step: "gen_bucket idx (int k) j (Suc n) hash m = gen_bucket idx (int k) (j + 1) n h (m(off \<mapsto> h))"
    using rest_of_names [OF names j] holds_tables(1) [OF H tab j] off
    by (simp only: gen_bucket.simps bind.bind_lunit h_def Let_def sum.case)
  obtain hash' m' where ih: "gen_bucket idx (int k) (j + 1) n h (m(off \<mapsto> h)) = Some (Inr (hash', m'))"
      "hash_buffer idx hash'" "grown o64 (drop (j + 1) rs) (m(off \<mapsto> h)) m'"
    using Suc.IH [OF _ hb(1), of "j + 1" "m(off \<mapsto> h)"] Suc.prems(1) by (auto simp del: fun_upd_apply)
  have "grown o64 (drop j rs) m m'"
    using grown_Cons [OF off hb(2) [symmetric] ih(3)] j by (simp add: Cons_nth_drop_Suc)
  with step ih show ?case by auto
qed


lemma fan_lo_Suc [simp]: "fan_lo F (Suc b) = unat (F ! b)" by (simp add: fan_lo_def)

lemma bucket_split:
  assumes "fan_ok F (length rows)" and "b < 256"
  shows "drop (fan_lo F b) rows = bucket F rows b @ drop (fan_lo F (Suc b)) rows"
proof -
  have "drop (fan_lo F b) rows = bucket F rows b @ drop (unat (F ! b) - fan_lo F b) (drop (fan_lo F b) rows)"
    by (simp only: bucket_def append_take_drop_id)
  then show ?thesis using fan_bounds(1) [OF assms] by (simp add: add.commute)
qed

lemma gen_levels_rows:
  assumes L: "layout idx rows o64" and offs: "\<forall>r \<in> set rows. \<exists>off. row_offset o64 (row_ofs r) = Inr off"
    and small: "length rows * idSize idx < 2 ^ 32"
  shows "n = 256 - b \<Longrightarrow> b \<le> 256 \<Longrightarrow> hash_buffer idx hash \<Longrightarrow>
    \<exists>m'. gen_levels idx (drop b (zip (mi_Fanout idx) (mi_FanoutMapping idx))) (fan_lo (mi_Fanout idx) b) hash m = Some (Inr m') \<and>
      grown o64 (drop (fan_lo (mi_Fanout idx) b) rows) m m'"
proof (induction n arbitrary: b hash m)
  case 0
  then have b: "b = 256" by simp
  have "fan_lo (mi_Fanout idx) 256 = length rows" "length (mi_Fanout idx) = 256"
    using L by (auto simp: fan_lo_def layout_def fan_ok_def)
  then show ?case by (simp add: b grown_Nil)
next
  case (Suc n)
  let ?F = "mi_Fanout idx"
  have b: "b < 256" and n: "n = 256 - Suc b" using Suc.prems by auto
  have fan: "fan_ok ?F (length rows)" and tab: "mi_Offset64 idx = concat (map WriteUint64 o64)"
      and len: "length (mi_FanoutMapping idx) = 256" "length ?F = 256"
    using L by (auto simp: layout_def fan_ok_def)
  let ?B = "bucket ?F rows b" and ?M = "mi_FanoutMapping idx ! b"
  have zip: "drop b (zip ?F (mi_FanoutMapping idx)) = (?F ! b, ?M) # drop (Suc b) (zip ?F (mi_FanoutMapping idx))"
    using b len by (simp add: Cons_nth_drop_Suc [symmetric])
  have "\<exists>hash' m'. gen_bucket idx ?M 0 (unat (?F ! b) - fan_lo ?F b) hash m = Some (Inr (hash', m')) \<and>
      hash_buffer idx hash' \<and> grown o64 ?B m m'"
  proof (cases "?B = []")
    case True
    then have "unat (?F ! b) - fan_lo ?F b = 0" using length_bucket [OF fan b] by simp
    then show ?thesis using True Suc.prems(3) by (simp only: gen_bucket.simps) (auto simp: grown_Nil)
  next
    case False
    obtain k where k: "?M = int k" "holds_bucket idx k ?B" using layout_bucket [OF L b False] .
    have "length ?B * idSize idx \<le> length rows * idSize idx"
      using length_bucket [OF fan b] fan_bounds [OF fan b] by (intro mult_le_mono1) linarith
    then have "length ?B * idSize idx < 2 ^ 32" using small by linarith
    moreover have "\<forall>r \<in> set ?B. \<exists>off. row_offset o64 (row_ofs r) = Inr off" using offs set_bucket by blast
    ultimately show ?thesis
      using gen_bucket_rows [OF k(2) tab layout_names [OF L], of 0] Suc.prems(3) length_bucket [OF fan b] k(1) by simp
  qed
  then obtain hash' m' where g: "gen_bucket idx ?M 0 (unat (?F ! b) - fan_lo ?F b) hash m = Some (Inr (hash', m'))"
      "hash_buffer idx hash'" "grown o64 ?B m m'" by blast
  obtain m'' where ih: "gen_levels idx (drop (Suc b) (zip ?F (mi_FanoutMapping idx))) (fan_lo ?F (Suc b)) hash' m' = Some (Inr m'')"
      "grown o64 (drop (fan_lo ?F (Suc b)) rows) m' m''"
    using Suc.IH [OF n _ g(2), of m'] b by auto
  have "max (fan_lo ?F b) (unat (?F ! b)) = fan_lo ?F (Suc b)" using fan_bounds(1) [OF fan b] by simp
  then show ?case
    using ih(1) g(1) grown_append [OF g(3) ih(2)] bucket_split [OF fan b] unfolding zip by simp
qed

lemma genOffsetHash_rows:
  assumes L: "layout idx rows o64" and offs: "\<forall>r \<in> set rows. \<exists>off. row_offset o64 (row_ofs r) = Inr off"
    and small: "length rows * idSize idx < 2 ^ 32" and size: "mi_objectIDSize idx \<in> {20, 32}"
  obtains m where "genOffsetHash idx = Some (Inr (), idx\<lparr>mi_offsetHash := Some m\<rparr>)" "grown o64 rows Map.empty m"
proof -
  have "hash_buffer idx (ResetBySize ZeroHash (mi_objectIDSize idx))"
    using size by (auto simp: hash_buffer_def ResetBySize_def ZeroHash_def oid_Size_def idSize_def)
  from gen_levels_rows [OF L offs small refl _ this, of 0 Map.empty]
  obtain m where "gen_levels idx (zip (mi_Fanout idx) (mi_FanoutMapping idx)) 0
      (ResetBySize ZeroHash (mi_objectIDSize idx)) Map.empty = Some (Inr m)" "grown o64 rows Map.empty m"
    by (auto simp: fan_lo_def)
  then show thesis using that [of m] by (simp add: genOffsetHash_def)
qed


lemma table_offsets: "table_shows F rows o64 es \<Longrightarrow> \<forall>r \<in> set rows. \<exists>off. row_offset o64 (row_ofs r) = Inr off"
proof
  fix r assume T: "table_shows F rows o64 es" and r: "r \<in> set rows"
  have "list_all2 (row_entry o64) rows es" using T by (simp add: table_shows_def)
  with r obtain e where "row_entry o64 r e" by (auto simp: in_set_conv_nth list_all2_conv_all_nth)
  then show "\<exists>off. row_offset o64 (row_ofs r) = Inr off" by (auto simp: row_entry_def)
qed

lemma table_row_of:
  assumes "table_shows F rows o64 es"
  shows "(\<exists>r \<in> set rows. row_offset o64 (row_ofs r) = Inr off \<and> row_name r = name) \<longleftrightarrow>
    (\<exists>e \<in> set es. pe_Offset e = off \<and> entry_name e = name)"
proof -
  have "list_all2 (row_entry o64) rows es" using assms by (simp add: table_shows_def)
  then show ?thesis by (induction rule: list_all2_induct) (auto simp: row_entry_def)
qed

text \<open>The state of the map does not touch the tables.\<close>

lemma layout_update [simp]:
  "layout (idx\<lparr>mi_offsetHash := m\<rparr>) rows o64 = layout idx rows o64" "layout (idx\<lparr>mi_built := d\<rparr>) rows o64 = layout idx rows o64"
  "idSize (idx\<lparr>mi_offsetHash := m\<rparr>) = idSize idx" "idSize (idx\<lparr>mi_built := d\<rparr>) = idSize idx"
  by (simp_all add: layout_def holds_bucket_def idSize_def)

lemma genOffsetHash_ok:
  assumes S: "mem_shows idx es"
  obtains m where "genOffsetHash idx = Some (Inr (), idx\<lparr>mi_offsetHash := Some m\<rparr>)"
    "mem_shows (idx\<lparr>mi_offsetHash := Some m, mi_built := True\<rparr>) es"
proof -
  obtain rows o64 where L: "layout idx rows o64" and T: "table_shows (mi_Fanout idx) rows o64 es"
    using S by (auto simp: mem_shows_def)
  have len: "length rows = length es" using T by (auto simp: table_shows_def dest: list_all2_lengthD)
  obtain m where m: "genOffsetHash idx = Some (Inr (), idx\<lparr>mi_offsetHash := Some m\<rparr>)" "grown o64 rows Map.empty m"
    by (rule genOffsetHash_rows [OF L table_offsets [OF T]]) (use S len in \<open>auto simp: mem_shows_def\<close>)
  have "\<exists>e \<in> set es. pe_Offset e = off \<and> entry_name e = oid_Bytes h" if "m off = Some h" for off h
    using m(2) that table_row_of [OF T, of off "oid_Bytes h"] by (simp add: grown_def) 
  moreover have "m (pe_Offset e) \<noteq> None" if "e \<in> set es" for e
    using m(2) that table_row_of [OF T, of "pe_Offset e" "entry_name e"] unfolding grown_def by blast
  ultimately have "offsets_ok (idx\<lparr>mi_offsetHash := Some m, mi_built := True\<rparr>) es"
    by (simp add: offsets_ok_def offset_lookup_def)
  then have "mem_shows (idx\<lparr>mi_offsetHash := Some m, mi_built := True\<rparr>) es"
    using S by (simp add: mem_shows_def)
  with m(1) show thesis by (rule that)
qed


lemma FindOffset_state:
  assumes "FindOffset idx h = Some (r, idx')"
  shows "(\<exists>err. r = Inl err \<and> idx' = idx) \<or>
    (\<exists>off. r = Inr off \<and> idx' = idx\<lparr>mi_offsetHash := Some ((offset_lookup idx)(off \<mapsto> h))\<rparr>)"
proof -
  have m: "(case mi_offsetHash idx of None \<Rightarrow> Map.empty | Some m \<Rightarrow> m) = offset_lookup idx"
    by (rule ext) (simp add: offset_lookup_def split: option.split)
  note u = assms [unfolded FindOffset_def m Let_def]
  from u obtain fo where fo: "first_byte h = Some fo" by (cases "first_byte h") simp_all
  show ?thesis
  proof (cases "length (mi_FanoutMapping idx) \<le> fo \<or> findHashIndex idx h = Some None")
    case True
    then show ?thesis using u fo by (auto split: if_split_asm)
  next
    case False
    then obtain i where i: "findHashIndex idx h = Some (Some i)" using u fo by (cases "findHashIndex idx h") auto
    then obtain res where "getOffset idx (mi_FanoutMapping idx ! fo) i = Some res"
      using u fo False by (cases "getOffset idx (mi_FanoutMapping idx ! fo) i") simp_all
    then show ?thesis using u fo False i by (cases res) auto
  qed
qed

lemma FindOffset_shows:
  assumes S: "mem_shows idx es" and h: "oid_ok h" and f: "FindOffset idx h = Some (r, idx')"
  shows "mem_shows idx' es"
proof -
  obtain rows o64 where L: "layout idx rows o64" and T: "table_shows (mi_Fanout idx) rows o64 es"
    using S by (auto simp: mem_shows_def)
  consider (same) "idx' = idx"
    | (upd) off where "r = Inr off" "idx' = idx\<lparr>mi_offsetHash := Some ((offset_lookup idx)(off \<mapsto> h))\<rparr>"
    using FindOffset_state [OF f] by blast
  then show ?thesis
  proof cases
    case upd
    have "Some r = Some (note_err IdxObjectNotFound (map_option pe_Offset (find (\<lambda>e. entry_name e = oid_Bytes h) es)))"
      using mem_lookups [OF L T h] f by simp
    then obtain e where "find (\<lambda>e. entry_name e = oid_Bytes h) es = Some e" "pe_Offset e = off"
      using upd(1) by (cases "find (\<lambda>e. entry_name e = oid_Bytes h) es") auto
    then have "e \<in> set es \<and> pe_Offset e = off \<and> entry_name e = oid_Bytes h" by (auto simp: find_Some_iff)
    then have "offsets_ok idx' es" using S upd(2) by (auto simp: mem_shows_def offsets_ok_def offset_lookup_def)
    then show ?thesis using S upd(2) by (simp add: mem_shows_def)
  qed (use S in simp)
qed

definition right_hash :: "Entry list \<Rightarrow> u64 \<Rightarrow> idx_error + ObjectID \<Rightarrow> bool" where
  "right_hash es off r \<longleftrightarrow>
     (case r of
        Inl err \<Rightarrow> err = IdxObjectNotFound \<and> off \<notin> pe_Offset ` set es
      | Inr h \<Rightarrow> \<exists>e \<in> set es. pe_Offset e = off \<and> entry_name e = oid_Bytes h)"

lemma right_hash_lookup:
  assumes "offsets_ok idx es" and "mi_built idx"
  shows "right_hash es off (note_err IdxObjectNotFound (offset_lookup idx off))"
  using assms by (cases "offset_lookup idx off") (auto simp: offsets_ok_def right_hash_def)

lemma FindHash_shows:
  assumes S: "mem_shows idx es"
  shows "\<exists>r idx'. FindHash idx off = Some (r, idx') \<and> mem_shows idx' es \<and> right_hash es off r"
proof (cases "offset_lookup idx off")
  case (Some h)
  then show ?thesis using S by (auto simp: FindHash_def right_hash_def mem_shows_def offsets_ok_def)
next
  case None
  show ?thesis
  proof (cases "mi_built idx")
    case True
    then have same: "idx\<lparr>mi_built := True\<rparr> = idx" by simp
    have "FindHash idx off = Some (note_err IdxObjectNotFound (offset_lookup idx off), idx)"
      using None True by (simp add: FindHash_def Let_def same)
    then show ?thesis using True S right_hash_lookup [of idx es off] by (auto simp: mem_shows_def)
  next
    case False
    obtain m where m: "genOffsetHash idx = Some (Inr (), idx\<lparr>mi_offsetHash := Some m\<rparr>)"
        "mem_shows (idx\<lparr>mi_offsetHash := Some m, mi_built := True\<rparr>) es"
      by (rule genOffsetHash_ok [OF S])
    then show ?thesis
      using None False right_hash_lookup [of "idx\<lparr>mi_offsetHash := Some m, mi_built := True\<rparr>" es off]
      by (simp add: FindHash_def Let_def mem_shows_def)
  qed
qed

lemma right_hash_unique:
  assumes "distinct (map pe_Offset es)" and "right_hash es off r"
  shows "map_sum id oid_Bytes r = note_err IdxObjectNotFound (map_option (\<lambda>e. entry_name e) (find (\<lambda>e. pe_Offset e = off) es))"
proof (cases r)
  case (Inl err)
  then have "find (\<lambda>e. pe_Offset e = off) es = None" using assms(2) by (auto simp: right_hash_def find_None_iff)
  then show ?thesis using assms(2) Inl by (simp add: right_hash_def)
next
  case (Inr h)
  then obtain e where e: "e \<in> set es" "pe_Offset e = off" "entry_name e = oid_Bytes h" using assms(2) by (auto simp: right_hash_def)
  have "find (\<lambda>e. pe_Offset e = off) es = Some e"
    by (rule find_unique [OF e(1)]) (use assms(1) e in \<open>auto simp: distinct_map inj_on_def\<close>)
  then show ?thesis using Inr e(3) by simp
qed

lemma Count_shows:
  assumes "mem_shows idx es"
  shows "Count idx = Some (length es)"
proof -
  obtain rows o64 where "fan_ok (mi_Fanout idx) (length rows)" "list_all2 (row_entry o64) rows es"
    using assms by (auto simp: mem_shows_def table_shows_def)
  then show ?thesis by (auto simp: Count_def fan_ok_def index_def dest: list_all2_lengthD)
qed

interpretation mem_index: pack_index mem_shows mem_fits "\<lambda>idx h. map_option Inr (Contains idx h)" MayContain
  "\<lambda>idx h. map_option fst (FindOffset idx h)" FindCRC32 "\<lambda>idx off. map_option fst (FindHash idx off)" Count
proof unfold_locales
  fix idx es h off
  assume S: "mem_shows idx es"
  then obtain rows o64 where L: "layout idx rows o64" and T: "table_shows (mi_Fanout idx) rows o64 es"
    by (auto simp: mem_shows_def)
  show "entries_ok es" using T by (simp add: table_shows_def)
  show "Count idx = Some (length es)" using S by (rule Count_shows)
  show "map_option (map_sum id oid_Bytes) (map_option fst (FindHash idx off)) =
      Some (note_err IdxObjectNotFound (map_option (\<lambda>e. entry_name e) (find (\<lambda>e. pe_Offset e = off) es)))"
    if d: "distinct (map pe_Offset es)"
    using FindHash_shows [OF S, of off] right_hash_unique [OF d, of off] by auto
  assume "mem_fits idx h"
  then have h: "oid_ok h" by (simp add: mem_fits_def)
  note l = mem_lookups [OF L T h]
  show "map_option Inr (Contains idx h) = Some (Inr (find (\<lambda>e. entry_name e = oid_Bytes h) es \<noteq> None))" using l by simp
  show "map_option fst (FindOffset idx h) =
      Some (note_err IdxObjectNotFound (map_option pe_Offset (find (\<lambda>e. entry_name e = oid_Bytes h) es)))" using l by simp
  show "FindCRC32 idx h =
      Some (note_err IdxObjectNotFound (map_option pe_CRC32 (find (\<lambda>e. entry_name e = oid_Bytes h) es)))" using l by simp
  show "\<exists>m. MayContain idx h = Some m \<and> (find (\<lambda>e. entry_name e = oid_Bytes h) es \<noteq> None \<longrightarrow> m)"
    by (rule mem_may_contain [OF L T h])
qed

end
