(* ===== verification/Index_Writer.thy ===== *)
theory Index_Writer
  imports Pack_Index
begin

text \<open>
  The writer of a pack index, \<open>plumbing/format/idxfile/writer.go\<close>: the observer of a packfile parser,
  which collects the objects and builds the tables of a \<open>MemoryIndex\<close> at the end. The index that it
  builds shows the objects that were added, each at its first offset.
\<close>

subsection \<open>State and operations\<close>

text \<open>The field \<open>index\<close> is a pointer: \<open>createIndex\<close> fills what it points to, and leaves it there on an error.\<close>

record Writer =
  w_count :: u32
  w_checksum :: ObjectID
  w_objects :: "Entry list"
  w_offset64 :: u32
  w_finished :: bool
  w_index :: "MemoryIndex option"
  w_added :: "ObjectID set"

definition new_Writer :: Writer where
  "new_Writer = \<lparr>w_count = 0, w_checksum = ZeroHash, w_objects = [], w_offset64 = 0, w_finished = False,
     w_index = None, w_added = {}\<rparr>"

definition Writer_Add :: "ObjectID \<Rightarrow> u64 \<Rightarrow> u32 \<Rightarrow> Writer \<Rightarrow> Writer" where
  "Writer_Add h pos crc w =
     (if IsZero h then w
      else if h \<in> w_added w then w
      else w\<lparr>w_added := insert h (w_added w),
             w_objects := w_objects w @ [\<lparr>pe_Hash = h, pe_CRC32 = crc, pe_Offset = pos\<rparr>]\<rparr>)"

definition Finished :: "Writer \<Rightarrow> bool" where "Finished w = w_finished w"

definition OnHeader :: "u32 \<Rightarrow> Writer \<Rightarrow> Writer" where
  "OnHeader cnt w = w\<lparr>w_count := cnt, w_objects := []\<rparr>"

definition OnInflatedObjectContent :: "ObjectID \<Rightarrow> u64 \<Rightarrow> u32 \<Rightarrow> Writer \<Rightarrow> Writer" where
  "OnInflatedObjectContent h pos crc w = Writer_Add h pos crc w"

text \<open>\<open>objects.Less\<close>.\<close>

definition objects_Less :: "Entry \<Rightarrow> Entry \<Rightarrow> bool" where
  "objects_Less a b \<longleftrightarrow> oid_Compare (pe_Hash a) (oid_Bytes (pe_Hash b)) < 0"

text \<open>The variables of the loop of \<open>createIndex\<close>, with the counter of the writer.\<close>

record create_state =
  cs_idx :: MemoryIndex
  cs_offset64 :: u32
  cs_last :: int
  cs_bucket :: int

definition addOffset64 :: "u64 \<Rightarrow> create_state \<Rightarrow> u64 \<times> create_state" where
  "addOffset64 pos st =
     (let idx = cs_idx st in
      (ucast (cs_offset64 st OR push_bit 31 1),
       st\<lparr>cs_idx := idx\<lparr>mi_Offset64 := mi_Offset64 idx @ WriteUint64 pos\<rparr>, cs_offset64 := cs_offset64 st + 1\<rparr>))"

definition fill_fan :: "nat \<Rightarrow> nat \<Rightarrow> u32 \<Rightarrow> u32 list \<Rightarrow> u32 list" where
  "fill_fan lo hi v F = foldl (\<lambda>F j. F[j := v]) F [lo..<hi]"

definition append_at :: "bytes list \<Rightarrow> int \<Rightarrow> bytes \<Rightarrow> bytes list option" where
  "append_at xs k b = map_option (\<lambda>x. xs[nat k := x @ b]) (at_int xs k)"

definition move_bucket :: "nat \<Rightarrow> create_state \<Rightarrow> create_state" where
  "move_bucket fan st =
     (if cs_last st \<noteq> int fan then
        let idx = cs_idx st; bucket = cs_bucket st + 1 in
        st\<lparr>cs_bucket := bucket, cs_last := int fan,
           cs_idx := idx\<lparr>mi_FanoutMapping := (mi_FanoutMapping idx)[fan := bucket], mi_Names := mi_Names idx @ [[]],
                         mi_Offset32 := mi_Offset32 idx @ [[]], mi_CRC32 := mi_CRC32 idx @ [[]]\<rparr>\<rparr>
      else st)"

definition put_row :: "Entry \<Rightarrow> create_state \<Rightarrow> create_state option" where
  "put_row obj st =
     Option.bind (append_at (mi_Names (cs_idx st)) (cs_bucket st) (oid_Bytes (pe_Hash obj))) (\<lambda>names.
       let st = st\<lparr>cs_idx := (cs_idx st)\<lparr>mi_Names := names\<rparr>\<rparr>;
           (offset, st) = (if pe_Offset obj > 0x7FFFFFFF then addOffset64 (pe_Offset obj) st else (pe_Offset obj, st)) in
       Option.bind (append_at (mi_Offset32 (cs_idx st)) (cs_bucket st) (WriteUint32 (ucast offset))) (\<lambda>o32.
       Option.bind (append_at (mi_CRC32 (cs_idx st)) (cs_bucket st) (WriteUint32 (pe_CRC32 obj))) (\<lambda>crc.
         Some (st\<lparr>cs_idx := (cs_idx st)\<lparr>mi_Offset32 := o32, mi_CRC32 := crc\<rparr>\<rparr>))))"

fun create_loop :: "ObjectID \<Rightarrow> nat \<Rightarrow> Entry list \<Rightarrow> create_state \<Rightarrow> ((idx_error + unit) \<times> create_state) option" where
  "create_loop checksum i [] st = Some (Inr (), st)"
| "create_loop checksum i (obj # objs) st =
     (if oid_Size (pe_Hash obj) \<noteq> oid_Size checksum then Some (Inl HashSizeMismatch, st)
      else Option.bind (first_byte (pe_Hash obj)) (\<lambda>fan.
        let F = fill_fan (nat (cs_last st + 1)) fan (word_of_nat i) (mi_Fanout (cs_idx st));
            F = F[fan := word_of_nat (i + 1)];
            st = move_bucket fan (st\<lparr>cs_idx := (cs_idx st)\<lparr>mi_Fanout := F\<rparr>\<rparr>) in
        Option.bind (put_row obj st) (\<lambda>st. create_loop checksum (i + 1) objs st)))"

definition createIndex :: "Writer \<Rightarrow> ((idx_error + MemoryIndex) \<times> Writer) option" where
  "createIndex w =
     (if \<not> w_finished w then Some (Inl IdxNotFinished, w)
      else
        let idx = NewMemoryIndex (oid_Size (w_checksum w));
            objs = sort_key (\<lambda>e. oid_Bytes (pe_Hash e)) (w_objects w);
            st = \<lparr>cs_idx = idx\<lparr>mi_FanoutMapping := replicate 256 noMapping\<rparr>, cs_offset64 = w_offset64 w, cs_last = -1, cs_bucket = -1\<rparr> in
        Option.bind (create_loop (w_checksum w) 0 objs st) (\<lambda>(r, st).
          let w = w\<lparr>w_objects := objs, w_offset64 := cs_offset64 st, w_index := Some (cs_idx st)\<rparr> in
          case r of
            Inl err \<Rightarrow> Some (Inl err, w)
          | Inr _ \<Rightarrow>
              let idx = cs_idx st;
                  F = fill_fan (nat (cs_last st + 1)) 256 (word_of_nat (length objs)) (mi_Fanout idx);
                  idx = idx\<lparr>mi_Fanout := F, mi_Version := VersionSupported, mi_PackfileChecksum := w_checksum w\<rparr> in
              Some (Inr idx, w\<lparr>w_index := Some idx\<rparr>)))"

definition OnFooter :: "ObjectID \<Rightarrow> Writer \<Rightarrow> ((idx_error + unit) \<times> Writer) option" where
  "OnFooter h w =
     map_option (\<lambda>(r, w). (map_sum id (\<lambda>_. ()) r, w)) (createIndex (w\<lparr>w_checksum := h, w_finished := True\<rparr>))"

definition Writer_Index :: "Writer \<Rightarrow> ((idx_error + MemoryIndex) \<times> Writer) option" where
  "Writer_Index w = (case w_index w of None \<Rightarrow> createIndex w | Some idx \<Rightarrow> Some (Inr idx, w))"

text \<open>The order that \<open>sort.Sort\<close> sorts the objects by is that of the names.\<close>

lemma objects_Less_iff: "objects_Less a b \<longleftrightarrow> oid_Bytes (pe_Hash a) < oid_Bytes (pe_Hash b)"
  by (simp add: objects_Less_def oid_Compare_cases)


subsection \<open>Counting by the first byte\<close>

definition fan_of :: "idx_row \<Rightarrow> nat" where "fan_of r = unat (hd (row_name r))"

definition in_bucket :: "idx_row list \<Rightarrow> nat \<Rightarrow> idx_row list" where
  "in_bucket rows b = filter (\<lambda>r. fan_of r = b) rows"

lemma length_fill_fan [simp]: "length (fill_fan lo hi v F) = length F"
proof -
  have "length (foldl (\<lambda>F j. F[j := v]) F js) = length F" for js by (induction js arbitrary: F) simp_all
  then show ?thesis by (simp add: fill_fan_def)
qed

lemma fill_fan_nth:
  assumes "j < length F"
  shows "fill_fan lo hi v F ! j = (if lo \<le> j \<and> j < hi then v else F ! j)"
proof -
  have "foldl (\<lambda>F j. F[j := v]) F js ! j = (if j \<in> set js then v else F ! j)" if "j < length F" for js F
    using that by (induction js arbitrary: F) (auto simp: nth_list_update)
  from this [OF assms, of "[lo..<hi]"] show ?thesis by (simp add: fill_fan_def)
qed

lemma filter_le_split:
  "sorted (map f xs) \<Longrightarrow> filter (\<lambda>x. f x \<le> (b :: nat)) xs = filter (\<lambda>x. f x < b) xs @ filter (\<lambda>x. f x = b) xs"
proof (induction xs)
  case (Cons x xs)
  show ?case
  proof (cases "b \<le> f x")
    case True
    then have "filter (\<lambda>x. f x < b) xs = []" using Cons.prems by (auto simp: filter_empty_conv)
    then show ?thesis using Cons True by simp
  qed (use Cons in simp)
qed simp

lemma filter_le_prefix:
  "sorted (map f xs) \<Longrightarrow> take (length (filter (\<lambda>x. f x \<le> (b :: nat)) xs)) xs = filter (\<lambda>x. f x \<le> b) xs"
proof (induction xs)
  case (Cons x xs)
  show ?case
  proof (cases "f x \<le> b")
    case False
    then have "filter (\<lambda>x. f x \<le> b) xs = []" using Cons.prems by (auto simp: filter_empty_conv)
    then show ?thesis using False by simp
  qed (use Cons in simp)
qed simp

definition counted :: "u32 list \<Rightarrow> idx_row list \<Rightarrow> int \<Rightarrow> bool" where
  "counted F rows l \<longleftrightarrow> length F = 256 \<and>
     (\<forall>b < 256. int b \<le> l \<longrightarrow> unat (F ! b) = length (filter (\<lambda>r. fan_of r \<le> b) rows))"

lemma counted_bucket:
  assumes "counted F rows 255" and "sorted (map fan_of rows)" and "b < 256"
  shows "bucket F rows b = in_bucket rows b"
proof -
  have "fan_lo F b = length (filter (\<lambda>r. fan_of r < b) rows)"
    using assms(1,3) by (cases b) (auto simp: fan_lo_def counted_def less_Suc_eq_le)
  moreover have "take (unat (F ! b)) rows = filter (\<lambda>r. fan_of r < b) rows @ in_bucket rows b"
    using assms filter_le_prefix [OF assms(2), of b] filter_le_split [OF assms(2), of b]
    by (simp add: counted_def in_bucket_def)
  ultimately show ?thesis by (simp add: bucket_def drop_take)
    (metis append_eq_conv_conj drop_take)
qed

lemma counted_fan_ok:
  assumes "counted F rows 255" and "\<forall>r \<in> set rows. fan_of r < 256"
  shows "fan_ok F (length rows)"
proof -
  have "length (filter (\<lambda>r. fan_of r \<le> a) rows) \<le> length (filter (\<lambda>r. fan_of r \<le> b) rows)" if "a \<le> b" for a b
    using that by (induction rows) auto
  moreover have "filter (\<lambda>r. fan_of r \<le> 255) rows = rows" using assms(2) by (auto simp: filter_id_conv)
  ultimately show ?thesis using assms(1) by (auto simp: counted_def fan_ok_def)
qed


subsection \<open>The loop of createIndex\<close>

text \<open>
  The slots: every bucket before the last byte is in its slot, and the last slot has the bucket of the
  last byte, which is the only one that rows are appended to.
\<close>

definition slot_ok :: "MemoryIndex \<Rightarrow> int \<Rightarrow> nat \<Rightarrow> idx_row list \<Rightarrow> bool" where
  "slot_ok idx k b rs \<longleftrightarrow>
     (if rs = [] then mi_FanoutMapping idx ! b = noMapping
      else \<exists>j. mi_FanoutMapping idx ! b = int j \<and> int j < k \<and> holds_bucket idx j rs)"

definition slots :: "MemoryIndex \<Rightarrow> int \<Rightarrow> int \<Rightarrow> idx_row list \<Rightarrow> bool" where
  "slots idx l k rows \<longleftrightarrow> -1 \<le> l \<and> l < 256 \<and> -1 \<le> k \<and> length (mi_FanoutMapping idx) = 256 \<and>
     length (mi_Names idx) = nat (k + 1) \<and> length (mi_Offset32 idx) = nat (k + 1) \<and> length (mi_CRC32 idx) = nat (k + 1) \<and>
     (\<forall>b < 256. int b \<noteq> l \<longrightarrow> slot_ok idx k b (in_bucket rows b)) \<and>
     (0 \<le> l \<longrightarrow> 0 \<le> k \<and> mi_FanoutMapping idx ! nat l = k \<and> holds_bucket idx (nat k) (in_bucket rows (nat l)))"

lemma holds_bucket_cong:
  assumes "holds_bucket idx j rs" and "mi_Names idx' ! j = mi_Names idx ! j" and "mi_Offset32 idx' ! j = mi_Offset32 idx ! j"
    and "mi_CRC32 idx' ! j = mi_CRC32 idx ! j" and "length (mi_Names idx) \<le> length (mi_Names idx')"
    and "length (mi_Offset32 idx) \<le> length (mi_Offset32 idx')" and "length (mi_CRC32 idx) \<le> length (mi_CRC32 idx')"
  shows "holds_bucket idx' j rs"
  using assms by (simp add: holds_bucket_def)

lemma slot_ok_cong:
  assumes "slot_ok idx k b rs" and "mi_FanoutMapping idx' ! b = mi_FanoutMapping idx ! b" and "k \<le> k'"
    and "\<And>j. int j < k \<Longrightarrow> holds_bucket idx j rs \<Longrightarrow> holds_bucket idx' j rs"
  shows "slot_ok idx' k' b rs"
proof (cases "rs = []")
  case True
  then show ?thesis using assms(1,2) by (simp add: slot_ok_def)
next
  case False
  then obtain j where "mi_FanoutMapping idx ! b = int j" "int j < k" "holds_bucket idx j rs"
    using assms(1) by (auto simp: slot_ok_def)
  then show ?thesis using False assms(2-4) by (auto simp: slot_ok_def)
qed

lemma slots_close:
  assumes "slots idx l k rows" and "0 \<le> l \<Longrightarrow> in_bucket rows (nat l) \<noteq> []" and "b < 256"
  shows "slot_ok idx (k + 1) b (in_bucket rows b)"
proof (cases "int b = l")
  case True
  then show ?thesis using assms by (auto simp: slots_def slot_ok_def intro!: exI [of _ "nat k"])
next
  case False
  then have "slot_ok idx k b (in_bucket rows b)" using assms(1,3) by (simp add: slots_def)
  then show ?thesis by (rule slot_ok_cong) auto
qed

lemma slots_move:
  assumes S: "slots (cs_idx st) (cs_last st) (cs_bucket st) rows" and fan: "fan < 256" "cs_last st \<le> int fan"
    and ne: "0 \<le> cs_last st \<Longrightarrow> in_bucket rows (nat (cs_last st)) \<noteq> []"
    and new: "cs_last st \<noteq> int fan \<Longrightarrow> in_bucket rows fan = []"
  shows "slots (cs_idx (move_bucket fan st)) (int fan) (cs_bucket (move_bucket fan st)) rows"
proof (cases "cs_last st = int fan")
  case True
  then show ?thesis using S by (simp add: move_bucket_def)
next
  case False
  let ?idx = "cs_idx st" and ?idx' = "cs_idx (move_bucket fan st)" and ?k = "cs_bucket st"
  have mb: "mi_FanoutMapping ?idx' = (mi_FanoutMapping ?idx)[fan := ?k + 1]" "mi_Names ?idx' = mi_Names ?idx @ [[]]"
      "mi_Offset32 ?idx' = mi_Offset32 ?idx @ [[]]" "mi_CRC32 ?idx' = mi_CRC32 ?idx @ [[]]"
      "cs_bucket (move_bucket fan st) = ?k + 1"
    using False by (simp_all add: move_bucket_def Let_def)
  have len: "length (mi_FanoutMapping ?idx) = 256" "length (mi_Names ?idx) = nat (?k + 1)" "length (mi_Offset32 ?idx) = nat (?k + 1)"
      "length (mi_CRC32 ?idx) = nat (?k + 1)" "-1 \<le> ?k"
    using S by (auto simp: slots_def)
  have "slot_ok ?idx' (?k + 1) b (in_bucket rows b)" if b: "b < 256" "int b \<noteq> int fan" for b
  proof (rule slot_ok_cong [OF slots_close [OF S ne b(1)]])
    fix j assume j: "int j < ?k + 1" and h: "holds_bucket ?idx j (in_bucket rows b)"
    show "holds_bucket ?idx' j (in_bucket rows b)"
      using len j by (intro holds_bucket_cong [OF h]) (auto simp: mb nth_append)
  qed (use b in \<open>simp_all add: mb\<close>)
  moreover have "holds_bucket ?idx' (nat (?k + 1)) (in_bucket rows fan)"
    using new [OF False] len by (simp add: holds_bucket_def mb names_of_def ofs_of_def crcs_of_def nth_append)
  moreover have "length (mi_FanoutMapping ?idx') = 256" "length (mi_Names ?idx') = nat (?k + 1 + 1)"
      "length (mi_Offset32 ?idx') = nat (?k + 1 + 1)" "length (mi_CRC32 ?idx') = nat (?k + 1 + 1)" "mi_FanoutMapping ?idx' ! fan = ?k + 1"
    using len fan(1) by (auto simp: mb)
  ultimately show ?thesis using len(5) fan(1) unfolding slots_def mb(5) by simp
qed

lemma in_bucket_append: "in_bucket (rows @ [r]) b = in_bucket rows b @ (if fan_of r = b then [r] else [])"
  by (simp add: in_bucket_def)

lemma tables_append: "names_of (rs @ [r]) = names_of rs @ row_name r" "ofs_of (rs @ [r]) = ofs_of rs @ WriteUint32 (row_ofs r)"
  "crcs_of (rs @ [r]) = crcs_of rs @ WriteUint32 (row_crc r)"
  by (simp_all add: names_of_def ofs_of_def crcs_of_def)

lemma slots_put:
  assumes S: "slots idx (int fan) k rows" and r: "fan_of r = fan" and same: "mi_FanoutMapping idx' = mi_FanoutMapping idx"
    and N: "mi_Names idx' = (mi_Names idx)[nat k := mi_Names idx ! nat k @ row_name r]"
    and O: "mi_Offset32 idx' = (mi_Offset32 idx)[nat k := mi_Offset32 idx ! nat k @ WriteUint32 (row_ofs r)]"
    and C: "mi_CRC32 idx' = (mi_CRC32 idx)[nat k := mi_CRC32 idx ! nat k @ WriteUint32 (row_crc r)]"
  shows "slots idx' (int fan) k (rows @ [r])"
proof -
  have k: "0 \<le> k" "mi_FanoutMapping idx ! fan = k" "holds_bucket idx (nat k) (in_bucket rows fan)" using S by (auto simp: slots_def)
  have "holds_bucket idx' (nat k) (in_bucket (rows @ [r]) fan)"
    using k(3) r by (simp add: holds_bucket_def in_bucket_append tables_append N O C)
  moreover have "slot_ok idx' k b (in_bucket (rows @ [r]) b)" if b: "b < 256" "int b \<noteq> int fan" for b
  proof -
    have "slot_ok idx k b (in_bucket rows b)" using S b by (simp add: slots_def)
    then have "slot_ok idx' k b (in_bucket rows b)"
    proof (rule slot_ok_cong)
      fix j assume j: "int j < k" and h: "holds_bucket idx j (in_bucket rows b)"
      show "holds_bucket idx' j (in_bucket rows b)"
        using k(1) j by (intro holds_bucket_cong [OF h]) (auto simp: N O C)
    qed (simp_all add: same)
    then show ?thesis using b r by (simp add: in_bucket_append)
  qed
  ultimately show ?thesis using S k unfolding slots_def by (simp add: same N O C)
qed


text \<open>The 32-bit offset of a row: small offsets as they are, long ones as a position with the top bit set.\<close>

definition long_ofs :: "nat \<Rightarrow> u32" where "long_ofs n = word_of_nat n OR push_bit 31 1"

lemma long_ofs_bits:
  assumes "n < 2 ^ 31"
  shows "isO64 (long_ofs n)" "o64_index (long_ofs n) = n"
proof -
  show "isO64 (long_ofs n)" by (simp add: isO64_def long_ofs_def bit_or_iff bit_push_bit_iff)
  have "take_bit 31 (push_bit 31 (1 :: u32)) = 0" by (rule bit_eqI) (auto simp: bit_take_bit_iff bit_push_bit_iff bit_1_iff)
  moreover have "take_bit 31 (word_of_nat n :: u32) = word_of_nat n"
    using take_bit_nat_eq_self [OF assms] by (simp add: take_bit_of_nat)
  ultimately have "take_bit 31 (long_ofs n) = word_of_nat n" by (simp add: long_ofs_def)
  then show "o64_index (long_ofs n) = n" using assms by (simp add: o64_index_def unat_of_nat)
qed

lemma short_ofs_bits:
  fixes off :: u64
  assumes "off \<le> 0x7FFFFFFF"
  shows "\<not> isO64 (ucast off)" "ucast (ucast off :: u32) = off"
proof -
  have "unat off \<le> 0x7FFFFFFF" using assms by (simp add: word_le_nat_alt)
  then have u: "unat off < 2 ^ 31" by simp
  then have t: "take_bit n (unat off) = unat off" if "31 \<le> n" for n
    using power_increasing [OF that, of "2 :: nat"] by (intro take_bit_nat_eq_self) linarith
  have "take_bit 31 off = off" by (simp add: word_unat_eq_iff unsigned_take_bit_eq t)
  then have "\<not> bit off 31" by (metis bit_take_bit_iff less_irrefl)
  then show "\<not> isO64 (ucast off)" by (simp add: isO64_def bit_ucast_iff)
  show "ucast (ucast off :: u32) = off" by (simp add: word_unat_eq_iff unsigned_ucast_eq unsigned_take_bit_eq t)
qed


lemma ucast_up_down [simp]: "ucast (ucast (x :: u32) :: u64) = x"
  by (rule bit_word_eqI) (auto simp: bit_simps)

definition new_row :: "u64 list \<Rightarrow> Entry \<Rightarrow> idx_row" where
  "new_row o64 obj = (entry_name obj, pe_CRC32 obj, if pe_Offset obj > 0x7FFFFFFF then long_ofs (length o64) else ucast (pe_Offset obj))"

definition new_o64 :: "u64 list \<Rightarrow> Entry \<Rightarrow> u64 list" where
  "new_o64 o64 obj = (if pe_Offset obj > 0x7FFFFFFF then o64 @ [pe_Offset obj] else o64)"

lemma new_row_entry:
  assumes "length o64 < 2 ^ 31"
  shows "row_entry (new_o64 o64 obj) (new_row o64 obj) obj"
  using long_ofs_bits [OF assms] short_ofs_bits [of "pe_Offset obj"]
  by (auto simp: row_entry_def new_row_def new_o64_def row_offset_def not_less)

lemma row_entry_new_o64: "row_entry o64 r e \<Longrightarrow> row_entry (new_o64 o64 obj) r e"
  by (auto simp: row_entry_def row_offset_def new_o64_def nth_append split: if_splits)

text \<open>The state after the objects of a list.\<close>

definition o64_exact :: "idx_row list \<Rightarrow> u64 list \<Rightarrow> bool" where
  "o64_exact rows o64 \<longleftrightarrow> length o64 = length (filter (\<lambda>r. isO64 (row_ofs r)) rows)"

lemma o64_exact_le: "o64_exact rows o64 \<Longrightarrow> length o64 \<le> length rows"
  by (simp add: o64_exact_def)

lemma o64_exact_new:
  assumes "o64_exact rows o64" and "length o64 < 2 ^ 31"
  shows "o64_exact (rows @ [new_row o64 obj]) (new_o64 o64 obj)"
  using assms(1) long_ofs_bits(1) [OF assms(2)] short_ofs_bits(1) [of "pe_Offset obj"]
  by (auto simp: o64_exact_def new_row_def new_o64_def not_less)

definition long_rows :: "idx_row list \<Rightarrow> Entry list \<Rightarrow> bool" where
  "long_rows rows es \<longleftrightarrow> list_all2 (\<lambda>r e. isO64 (row_ofs r) \<longleftrightarrow> pe_Offset e > 0x7FFFFFFF) rows es"

lemma long_rows_new:
  assumes "long_rows rows es" and "length o64 < 2 ^ 31"
  shows "long_rows (rows @ [new_row o64 obj]) (es @ [obj])"
  using assms(1) long_ofs_bits(1) [OF assms(2)] short_ofs_bits(1) [of "pe_Offset obj"]
  unfolding long_rows_def by (intro list_all2_appendI) (auto simp: new_row_def not_less)

lemma o64_fewer:
  assumes "o64_exact rows o64" and "long_rows rows es" and "e \<in> set es" and "pe_Offset e \<le> 0x7FFFFFFF"
  shows "length o64 \<le> length rows - 1"
proof -
  obtain i where "i < length rows" "\<not> isO64 (row_ofs (rows ! i))"
    using assms(2-4) by (auto simp: long_rows_def list_all2_conv_all_nth in_set_conv_nth not_less)
  then have "length (filter (\<lambda>r. isO64 (row_ofs r)) rows) < length rows" using nth_mem by (intro length_filter_less)
  then show ?thesis using assms(1) by (simp add: o64_exact_def)
qed

definition idents :: "MemoryIndex \<Rightarrow> nat \<times> ObjectID" where
  "idents idx = (mi_objectIDSize idx, mi_IdxChecksum idx)"

definition created :: "Entry list \<Rightarrow> create_state \<Rightarrow> idx_row list \<Rightarrow> u64 list \<Rightarrow> bool" where
  "created es st rows o64 \<longleftrightarrow>
     list_all2 (row_entry o64) rows es \<and> counted (mi_Fanout (cs_idx st)) rows (cs_last st) \<and>
     slots (cs_idx st) (cs_last st) (cs_bucket st) rows \<and> (\<forall>r \<in> set rows. int (fan_of r) \<le> cs_last st) \<and>
     (0 \<le> cs_last st \<longrightarrow> in_bucket rows (nat (cs_last st)) \<noteq> []) \<and>
     mi_Offset64 (cs_idx st) = concat (map WriteUint64 o64) \<and> cs_offset64 st = word_of_nat (length o64) \<and> o64_exact rows o64 \<and> long_rows rows es \<and>
     mi_offsetHash (cs_idx st) = None \<and> \<not> mi_built (cs_idx st)"

lemma append_at_in: "0 \<le> k \<Longrightarrow> nat k < length xs \<Longrightarrow> append_at xs k b = Some (xs[nat k := xs ! nat k @ b])"
  by (simp add: append_at_def at_int_def index_def)

lemma put_row_slots:
  assumes S: "slots (cs_idx st) (int fan) (cs_bucket st) rows" and fan: "fan_of (new_row o64 obj) = fan"
    and O: "mi_Offset64 (cs_idx st) = concat (map WriteUint64 o64)" "cs_offset64 st = word_of_nat (length o64)"
  obtains st' where "put_row obj st = Some st'" "slots (cs_idx st') (int fan) (cs_bucket st') (rows @ [new_row o64 obj])"
    "mi_Offset64 (cs_idx st') = concat (map WriteUint64 (new_o64 o64 obj))" "cs_offset64 st' = word_of_nat (length (new_o64 o64 obj))"
    "mi_Fanout (cs_idx st') = mi_Fanout (cs_idx st)" "cs_last st' = cs_last st"
    "mi_offsetHash (cs_idx st') = mi_offsetHash (cs_idx st)" "mi_built (cs_idx st') = mi_built (cs_idx st)"
    "idents (cs_idx st') = idents (cs_idx st)"
proof -
  let ?idx = "cs_idx st" and ?k = "cs_bucket st" and ?r = "new_row o64 obj"
  have k: "0 \<le> ?k" "nat ?k < length (mi_Names ?idx)" "nat ?k < length (mi_Offset32 ?idx)" "nat ?k < length (mi_CRC32 ?idx)"
    using S by (auto simp: slots_def)
  define idx' where "idx' = ?idx\<lparr>mi_Names := (mi_Names ?idx)[nat ?k := mi_Names ?idx ! nat ?k @ row_name ?r],
     mi_Offset32 := (mi_Offset32 ?idx)[nat ?k := mi_Offset32 ?idx ! nat ?k @ WriteUint32 (row_ofs ?r)],
     mi_CRC32 := (mi_CRC32 ?idx)[nat ?k := mi_CRC32 ?idx ! nat ?k @ WriteUint32 (row_crc ?r)],
     mi_Offset64 := concat (map WriteUint64 (new_o64 o64 obj))\<rparr>"
  define st' where "st' = st\<lparr>cs_idx := idx', cs_offset64 := word_of_nat (length (new_o64 o64 obj))\<rparr>"
  have "put_row obj st = Some st'"
  proof (cases "pe_Offset obj > 0x7FFFFFFF")
    case True
    then show ?thesis
      using append_at_in [OF k(1,2)] append_at_in [OF k(1,3)] append_at_in [OF k(1,4)] O
      by (auto simp: put_row_def addOffset64_def Let_def st'_def idx'_def new_row_def new_o64_def long_ofs_def add.commute
          intro!: create_state.equality MemoryIndex.equality)
  next
    case False
    then show ?thesis
      using append_at_in [OF k(1,2)] append_at_in [OF k(1,3)] append_at_in [OF k(1,4)] O
      by (auto simp: put_row_def Let_def st'_def idx'_def new_row_def new_o64_def
          intro!: create_state.equality MemoryIndex.equality)
  qed
  moreover have "slots (cs_idx st') (int fan) (cs_bucket st') (rows @ [?r])"
    unfolding st'_def by (simp, rule slots_put [OF S fan]) (simp_all add: idx'_def)
  ultimately show thesis by (rule that) (simp_all add: st'_def idx'_def idents_def)
qed


lemma counted_step:
  assumes C: "counted F rows l" and below: "\<forall>r \<in> set rows. int (fan_of r) \<le> l" and fan: "fan_of r < 256" "l \<le> int (fan_of r)"
    and small: "length rows + 1 < 2 ^ 32" and i: "i = length rows"
  shows "counted ((fill_fan (nat (l + 1)) (fan_of r) (word_of_nat i) F)[fan_of r := word_of_nat (i + 1)]) (rows @ [r]) (int (fan_of r))"
  unfolding counted_def
proof (intro conjI allI impI)
  have len: "length F = 256" using C by (simp add: counted_def)
  let ?G = "(fill_fan (nat (l + 1)) (fan_of r) (word_of_nat i) F)[fan_of r := word_of_nat (i + 1)]"
  show "length ?G = 256" using len by simp
  fix b assume b: "b < 256" "int b \<le> int (fan_of r)"
  have u: "unat (word_of_nat i :: u32) = length rows" "unat (word_of_nat (i + 1) :: u32) = length rows + 1"
    using small i by (simp_all only: unat_of_nat) simp_all
  have all: "filter (\<lambda>r. fan_of r \<le> b) rows = rows" if "l \<le> int b" using below that by (auto simp: filter_id_conv)
  consider "b = fan_of r" | "b < fan_of r" "l < int b" | "b < fan_of r" "int b \<le> l" using b(2) by linarith
  then show "unat (?G ! b) = length (filter (\<lambda>r. fan_of r \<le> b) (rows @ [r]))"
  proof cases
    case 1
    then show ?thesis using all fan(2) len fan(1) u(2) by simp
  next
    case 2
    then have "nat (l + 1) \<le> b" by linarith
    then show ?thesis using 2 all len u(1) b(1) by (simp add: fill_fan_nth)
  next
    case 3
    then have "unat (F ! b) = length (filter (\<lambda>r. fan_of r \<le> b) rows)" using C b(1) by (simp add: counted_def)
    moreover have "\<not> nat (l + 1) \<le> b" using 3 by linarith
    ultimately show ?thesis using 3 len b(1) by (simp add: fill_fan_nth)
  qed
qed

lemma move_bucket_keeps:
  "mi_Fanout (cs_idx (move_bucket fan st)) = mi_Fanout (cs_idx st)" "mi_Offset64 (cs_idx (move_bucket fan st)) = mi_Offset64 (cs_idx st)"
  "cs_offset64 (move_bucket fan st) = cs_offset64 st" "mi_offsetHash (cs_idx (move_bucket fan st)) = mi_offsetHash (cs_idx st)"
  "mi_built (cs_idx (move_bucket fan st)) = mi_built (cs_idx st)" "idents (cs_idx (move_bucket fan st)) = idents (cs_idx st)"
  "cs_last (move_bucket fan st) = int fan"
  by (simp_all add: move_bucket_def Let_def idents_def)

lemma slots_Fanout: "slots (idx\<lparr>mi_Fanout := F\<rparr>) l k rows = slots idx l k rows"
  by (simp add: slots_def slot_ok_def holds_bucket_def)

lemma create_step:
  assumes C: "created es st rows o64" and h: "oid_ok (pe_Hash obj)" "oid_Size (pe_Hash obj) = oid_Size checksum"
    and ge: "cs_last st \<le> int (unat (hd (entry_name obj)))" and small: "length es + 1 < 2 ^ 31"
  obtains st' where "create_loop checksum (length es) (obj # objs) st = create_loop checksum (length es + 1) objs st'"
    "created (es @ [obj]) st' (rows @ [new_row o64 obj]) (new_o64 o64 obj)" "cs_last st' = int (unat (hd (entry_name obj)))"
    "idents (cs_idx st') = idents (cs_idx st)"
proof -
  let ?r = "new_row o64 obj" and ?idx = "cs_idx st" and ?fan = "unat (hd (entry_name obj))"
  have fan: "fan_of ?r = ?fan" by (simp add: fan_of_def new_row_def)
  have fan256: "?fan < 256" by (rule unat_byte_less)
  have re: "list_all2 (row_entry o64) rows es" and cnt: "counted (mi_Fanout ?idx) rows (cs_last st)"
      and sl: "slots ?idx (cs_last st) (cs_bucket st) rows" and below: "\<forall>r \<in> set rows. int (fan_of r) \<le> cs_last st"
      and ne: "0 \<le> cs_last st \<Longrightarrow> in_bucket rows (nat (cs_last st)) \<noteq> []"
      and O: "mi_Offset64 ?idx = concat (map WriteUint64 o64)" "cs_offset64 st = word_of_nat (length o64)" "o64_exact rows o64"
    using C by (auto simp: created_def)
  have len: "length rows = length es" using list_all2_lengthD [OF re] .
  have o31: "length o64 < 2 ^ 31" using o64_exact_le [OF O(3)] len small by linarith
  define F where "F = (fill_fan (nat (cs_last st + 1)) ?fan (word_of_nat (length es)) (mi_Fanout ?idx))[?fan := word_of_nat (length es + 1)]"
  define st1 where "st1 = st\<lparr>cs_idx := ?idx\<lparr>mi_Fanout := F\<rparr>\<rparr>"
  have "slots (cs_idx st1) (cs_last st1) (cs_bucket st1) rows" using sl by (simp add: st1_def slots_Fanout)
  moreover have "in_bucket rows ?fan = []" if "cs_last st1 \<noteq> int ?fan"
  proof -
    have "fan_of r \<noteq> ?fan" if "r \<in> set rows" for r
    proof
      assume "fan_of r = ?fan"
      then have "cs_last st = int ?fan" using bspec [OF below that] ge by simp
      then show False using \<open>cs_last st1 \<noteq> int ?fan\<close> by (simp add: st1_def)
    qed
    then show ?thesis by (simp add: in_bucket_def filter_empty_conv)
  qed
  ultimately have s2: "slots (cs_idx (move_bucket ?fan st1)) (int ?fan) (cs_bucket (move_bucket ?fan st1)) rows"
    using ne ge by (intro slots_move fan256) (simp_all add: st1_def)
  have O2: "mi_Offset64 (cs_idx (move_bucket ?fan st1)) = concat (map WriteUint64 o64)"
      "cs_offset64 (move_bucket ?fan st1) = word_of_nat (length o64)"
    using O by (simp_all add: move_bucket_keeps st1_def)
  have keeps: "mi_Fanout (cs_idx st1) = F" "mi_offsetHash (cs_idx st1) = mi_offsetHash ?idx"
      "mi_built (cs_idx st1) = mi_built ?idx" "idents (cs_idx st1) = idents ?idx"
    by (simp_all add: st1_def idents_def)
  obtain st' where p: "put_row obj (move_bucket ?fan st1) = Some st'" "slots (cs_idx st') (int ?fan) (cs_bucket st') (rows @ [?r])"
      "mi_Offset64 (cs_idx st') = concat (map WriteUint64 (new_o64 o64 obj))" "cs_offset64 st' = word_of_nat (length (new_o64 o64 obj))"
      "mi_Fanout (cs_idx st') = mi_Fanout (cs_idx (move_bucket ?fan st1))" "cs_last st' = cs_last (move_bucket ?fan st1)"
      "mi_offsetHash (cs_idx st') = mi_offsetHash (cs_idx (move_bucket ?fan st1))"
      "mi_built (cs_idx st') = mi_built (cs_idx (move_bucket ?fan st1))"
      "idents (cs_idx st') = idents (cs_idx (move_bucket ?fan st1))"
    using put_row_slots [OF s2 fan O2] .
  note st' = p [unfolded move_bucket_keeps keeps]
  have "create_loop checksum (length es) (obj # objs) st = create_loop checksum (length es + 1) objs st'"
    unfolding create_loop.simps(2) first_byte_Some(1) [OF h(1)] bind.bind_lunit Let_def F_def [symmetric] st1_def [symmetric] st'(1)
    using h(2) by simp
  moreover have "counted F (rows @ [?r]) (int ?fan)"
    by (rule counted_step [OF cnt below, of ?r "length es", unfolded fan, OF fan256 ge _ len [symmetric], folded F_def])
      (use small in \<open>simp add: len\<close>)
  then have "created (es @ [obj]) st' (rows @ [?r]) (new_o64 o64 obj)"
    unfolding created_def st'(5,6)
  proof (intro conjI)
    show "list_all2 (row_entry (new_o64 o64 obj)) (rows @ [?r]) (es @ [obj])"
    proof (rule list_all2_appendI)
      show "list_all2 (row_entry (new_o64 o64 obj)) rows es" by (rule list_all2_mono [OF re row_entry_new_o64])
      show "list_all2 (row_entry (new_o64 o64 obj)) [?r] [obj]" using o31 by (simp add: new_row_entry)
    qed
    have "int (fan_of r) \<le> int ?fan" if "r \<in> set rows" for r using below ge that order_trans by blast
    then show "\<forall>r \<in> set (rows @ [?r]). int (fan_of r) \<le> int ?fan" using fan by simp
    show "0 \<le> int ?fan \<longrightarrow> in_bucket (rows @ [?r]) (nat (int ?fan)) \<noteq> []" using fan by (simp add: in_bucket_append)
    show "o64_exact (rows @ [?r]) (new_o64 o64 obj)" by (rule o64_exact_new [OF O(3) o31])
    show "long_rows (rows @ [?r]) (es @ [obj])" using C by (intro long_rows_new [OF _ o31]) (simp add: created_def)
    show "mi_offsetHash (cs_idx st') = None" "\<not> mi_built (cs_idx st')" using C st'(7,8) by (simp_all add: created_def)
    show "slots (cs_idx st') (int ?fan) (cs_bucket st') (rows @ [?r])" by (rule st'(2))
  qed (assumption | rule st'(3,4))+
  ultimately show thesis using st'(6,9) by (rule that)
qed


lemma create_loop_created:
  assumes "created es st rows o64" and "\<forall>obj \<in> set objs. oid_ok (pe_Hash obj) \<and> oid_Size (pe_Hash obj) = oid_Size checksum"
    and "sorted (map (\<lambda>e. unat (hd (entry_name e))) objs)" and "\<forall>obj \<in> set objs. cs_last st \<le> int (unat (hd (entry_name obj)))"
    and "length es + length objs < 2 ^ 31"
  shows "\<exists>st' rows' o64'. create_loop checksum (length es) objs st = Some (Inr (), st') \<and> created (es @ objs) st' rows' o64' \<and>
    idents (cs_idx st') = idents (cs_idx st)"
  using assms
proof (induction objs arbitrary: es st rows o64)
  case (Cons obj objs)
  obtain st' where st': "create_loop checksum (length es) (obj # objs) st = create_loop checksum (length es + 1) objs st'"
      "created (es @ [obj]) st' (rows @ [new_row o64 obj]) (new_o64 o64 obj)" "cs_last st' = int (unat (hd (entry_name obj)))"
      "idents (cs_idx st') = idents (cs_idx st)"
    by (rule create_step [OF Cons.prems(1), of obj checksum]) (use Cons.prems in auto)
  have "\<exists>st'' rows' o64'. create_loop checksum (length (es @ [obj])) objs st' = Some (Inr (), st'') \<and>
      created ((es @ [obj]) @ objs) st'' rows' o64' \<and> idents (cs_idx st'') = idents (cs_idx st')"
    by (rule Cons.IH [OF st'(2)]) (use Cons.prems st'(3) in \<open>auto simp flip: word_le_def word_le_nat_alt\<close>)
  then show ?case using st'(1,4) by simp
qed auto

lemma hd_mono_lex: "(xs :: bytes) < ys \<Longrightarrow> xs \<noteq> [] \<Longrightarrow> hd xs \<le> hd ys"
  by (cases xs; cases ys) auto

lemma created_start:
  "created [] \<lparr>cs_idx = (NewMemoryIndex n)\<lparr>mi_FanoutMapping := replicate 256 noMapping\<rparr>, cs_offset64 = 0, cs_last = -1, cs_bucket = -1\<rparr> [] []"
  by (simp add: created_def counted_def slots_def slot_ok_def in_bucket_def NewMemoryIndex_def o64_exact_def long_rows_def)

text \<open>The counts of all bytes, once the rest of the table is filled.\<close>

lemma counted_fill:
  assumes "counted F rows l" and "-1 \<le> l" and "\<forall>r \<in> set rows. int (fan_of r) \<le> l" and "length rows < 2 ^ 32"
  shows "counted (fill_fan (nat (l + 1)) 256 (word_of_nat (length rows)) F) rows 255"
  unfolding counted_def
proof (intro conjI allI impI)
  have len: "length F = 256" using assms(1) by (simp add: counted_def)
  then show "length (fill_fan (nat (l + 1)) 256 (word_of_nat (length rows)) F) = 256" by simp
  fix b assume b: "b < (256 :: nat)"
  show "unat (fill_fan (nat (l + 1)) 256 (word_of_nat (length rows)) F ! b) = length (filter (\<lambda>r. fan_of r \<le> b) rows)"
  proof (cases "int b \<le> l")
    case True
    then have "\<not> nat (l + 1) \<le> b" using assms(2) by linarith
    then show ?thesis using assms(1) b True len by (simp add: fill_fan_nth counted_def)
  next
    case False
    then have "nat (l + 1) \<le> b" by linarith
    moreover have "filter (\<lambda>r. fan_of r \<le> b) rows = rows" using assms(3) False by (auto simp: filter_id_conv)
    ultimately show ?thesis using b len assms(4) by (simp add: fill_fan_nth unat_of_nat)
  qed
qed

lemma created_sorted:
  assumes "list_all2 (row_entry o64) rows es" and "entries_ok es"
  shows "sorted (map fan_of rows)" "\<forall>r \<in> set rows. row_name r \<noteq> [] \<and> fan_of r < 256"
proof -
  have e: "fan_of (rows ! i) = unat (hd (entry_name (es ! i)))" "row_name (rows ! i) = entry_name (es ! i)" if "i < length rows" for i
    using assms(1) that by (auto simp: list_all2_conv_all_nth row_entry_def fan_of_def)
  have len: "length rows = length es" using list_all2_lengthD [OF assms(1)] .
  have "entry_name (es ! i) \<noteq> []" if "i < length es" for i
    using assms(2) that first_byte_Some(2) by (auto simp: entries_ok_def list_all_length)
  moreover have "entry_name (es ! i) < entry_name (es ! j)" if "i < j" "j < length es" for i j
    using assms(2) sorted_wrt_nth_less [of "\<lambda>a b. entry_name a < entry_name b" es i j] that by (simp add: entries_ok_def)
  ultimately have "fan_of (rows ! i) \<le> fan_of (rows ! j)" if "i < j" "j < length rows" for i j
    using that len e hd_mono_lex [of "entry_name (es ! i)" "entry_name (es ! j)"] by (simp add: word_le_nat_alt)
  then show "sorted (map fan_of rows)" by (auto simp: sorted_iff_nth_mono_less)
  show "\<forall>r \<in> set rows. row_name r \<noteq> [] \<and> fan_of r < 256"
    using e len \<open>\<And>i. i < length es \<Longrightarrow> entry_name (es ! i) \<noteq> []\<close> unat_byte_less
    by (metis (no_types, lifting) fan_of_def in_set_conv_nth)
qed


subsection \<open>The index that the writer builds\<close>

text \<open>What a parser adds: identifiers of one size, in normal form and different, and not too many of them.\<close>

definition writer_ok :: "Writer \<Rightarrow> bool" where
  "writer_ok w \<longleftrightarrow>
     list_all (\<lambda>e. oid_ok (pe_Hash e) \<and> oid_Size (pe_Hash e) = oid_Size (w_checksum w)) (w_objects w) \<and>
     distinct (map (\<lambda>e. entry_name e) (w_objects w)) \<and> length (w_objects w) * 32 < 2 ^ 32 \<and> w_offset64 w = 0"

definition sorted_objects :: "Writer \<Rightarrow> Entry list" where
  "sorted_objects w = sort_key (\<lambda>e. entry_name e) (w_objects w)"

lemma sorted_objects_ok: "writer_ok w \<Longrightarrow> entries_ok (sorted_objects w)"
proof -
  assume w: "writer_ok w"
  let ?es = "sorted_objects w"
  have "mset ?es = mset (w_objects w)" by (simp add: sorted_objects_def)
  then have "distinct (map (\<lambda>e. entry_name e) ?es)"
    using w unfolding writer_ok_def by (metis mset_eq_imp_distinct_iff mset_map)
  moreover have "sorted (map (\<lambda>e. entry_name e) ?es)" by (simp add: sorted_objects_def)
  ultimately have "sorted_wrt (<) (map (\<lambda>e. entry_name e) ?es)" by (simp add: strict_sorted_iff)
  then show ?thesis using w by (simp add: entries_ok_def sorted_wrt_map writer_ok_def sorted_objects_def list_all_iff)
qed

lemma layout_of_created:
  assumes C: "created es st rows o64" and ok: "entries_ok es" and small: "length es < 2 ^ 32"
    and size: "\<forall>e \<in> set es. length (entry_name e) = idSize (cs_idx st)"
    and idx: "idx = (cs_idx st)\<lparr>mi_Fanout := fill_fan (nat (cs_last st + 1)) 256 (word_of_nat (length es)) (mi_Fanout (cs_idx st)),
        mi_Version := v, mi_PackfileChecksum := c\<rparr>"
  shows "layout idx rows o64 \<and> table_shows (mi_Fanout idx) rows o64 es"
proof -
  have re: "list_all2 (row_entry o64) rows es" and cnt: "counted (mi_Fanout (cs_idx st)) rows (cs_last st)"
      and sl: "slots (cs_idx st) (cs_last st) (cs_bucket st) rows" and below: "\<forall>r \<in> set rows. int (fan_of r) \<le> cs_last st"
      and ne: "0 \<le> cs_last st \<Longrightarrow> in_bucket rows (nat (cs_last st)) \<noteq> []"
      and O: "mi_Offset64 (cs_idx st) = concat (map WriteUint64 o64)"
    using C by (auto simp: created_def)
  have len: "length rows = length es" using list_all2_lengthD [OF re] .
  note sorted = created_sorted [OF re ok]
  have "-1 \<le> cs_last st" using sl by (simp add: slots_def)
  from counted_fill [OF cnt this below] have cnt': "counted (mi_Fanout idx) rows 255" using small by (simp add: idx len)
  have fan: "fan_ok (mi_Fanout idx) (length rows)" using counted_fan_ok [OF cnt'] sorted(2) by blast
  have b: "bucket (mi_Fanout idx) rows b = in_bucket rows b" if "b < 256" for b by (rule counted_bucket [OF cnt' sorted(1) that])
  have "buckets_ok (mi_Fanout idx) rows"
    using b sorted(2) by (auto simp: buckets_ok_def in_bucket_def fan_of_def)
  moreover have "list_all (\<lambda>r. length (row_name r) = idSize idx) rows"
    using re size by (auto simp: list_all_length list_all2_conv_all_nth row_entry_def idx idSize_def)
  moreover have "if in_bucket rows b = [] then mi_FanoutMapping idx ! b = noMapping
      else \<exists>k. mi_FanoutMapping idx ! b = int k \<and> holds_bucket idx k (in_bucket rows b)" if "b < 256" for b
    using slots_close [OF sl ne that] by (auto simp: slot_ok_def holds_bucket_def idx)
  moreover have "length (mi_FanoutMapping idx) = 256" "mi_Offset64 idx = concat (map WriteUint64 o64)"
    using sl O by (simp_all add: slots_def idx)
  ultimately show ?thesis using fan re ok b by (simp add: layout_def table_shows_def)
qed

lemma createIndex_shows:
  assumes w: "writer_ok w" and f: "w_finished w"
  obtains idx w' where "createIndex w = Some (Inr idx, w')" "mem_shows idx (sorted_objects w)" "w_index w' = Some idx"
    "mi_PackfileChecksum idx = w_checksum w" "mi_Version idx = VersionSupported" "mi_IdxChecksum idx = ResetBySize ZeroHash (oid_Size (w_checksum w))"
    "\<exists>rows o64. layout idx rows o64 \<and> table_shows (mi_Fanout idx) rows o64 (sorted_objects w) \<and> o64_exact rows o64 \<and> long_rows rows (sorted_objects w)"
    "mi_objectIDSize idx = oid_Size (w_checksum w)"
proof -
  let ?es = "sorted_objects w" and ?sz = "oid_Size (w_checksum w)"
  let ?st = "\<lparr>cs_idx = (NewMemoryIndex ?sz)\<lparr>mi_FanoutMapping := replicate 256 noMapping\<rparr>, cs_offset64 = 0, cs_last = -1, cs_bucket = -1\<rparr>"
  note ok = sorted_objects_ok [OF w]
  have len: "length ?es * 32 < 2 ^ 32" using w by (simp add: writer_ok_def sorted_objects_def)
  have objs: "oid_ok (pe_Hash e) \<and> oid_Size (pe_Hash e) = ?sz" if "e \<in> set ?es" for e
    using w that by (auto simp: writer_ok_def sorted_objects_def list_all_iff)
  have "sorted_wrt (\<lambda>a b. unat (hd (entry_name a)) \<le> unat (hd (entry_name b))) ?es"
    using ok first_byte_Some(2) hd_mono_lex unfolding entries_ok_def list_all_iff
    by (elim conjE, elim sorted_wrt_mono_rel [rotated]) (auto simp: word_le_nat_alt)
  then have "sorted (map (\<lambda>e. unat (hd (entry_name e))) ?es)" by (simp add: sorted_map)
  moreover have "- 1 \<le> uint (hd (entry_name e))" for e :: Entry by (rule order_trans [of _ 0]) simp_all
  ultimately obtain st rows o64 where l: "create_loop (w_checksum w) 0 ?es ?st = Some (Inr (), st)" "created ?es st rows o64"
      "idents (cs_idx st) = idents (cs_idx ?st)"
    using create_loop_created [OF created_start [of ?sz], of ?es "w_checksum w"] objs len by auto
  define idx where "idx = (cs_idx st)\<lparr>mi_Fanout := fill_fan (nat (cs_last st + 1)) 256 (word_of_nat (length ?es)) (mi_Fanout (cs_idx st)),
      mi_Version := VersionSupported, mi_PackfileChecksum := w_checksum w\<rparr>"
  have size: "mi_objectIDSize (cs_idx st) = ?sz" "?sz = 20 \<or> ?sz = 32"
    using l(3) by (cases "oid_format (w_checksum w)"; simp add: NewMemoryIndex_def oid_Size_def idents_def)+
  have "length (entry_name e) = idSize (cs_idx st)" if "e \<in> set ?es" for e
    using objs [OF that] size by (auto simp: oid_ok_iff idSize_def)
  then have L: "layout idx rows o64" "table_shows (mi_Fanout idx) rows o64 ?es"
    using layout_of_created [OF l(2) ok _ _ idx_def] len by auto
  have "offsets_ok idx ?es" using l(2) by (simp add: offsets_ok_def offset_lookup_def created_def idx_def)
  then have m: "mem_shows idx ?es" using L size len by (auto simp: mem_shows_def idSize_def idx_def)
  have c: "createIndex w = Some (Inr idx, w\<lparr>w_objects := ?es, w_offset64 := cs_offset64 st, w_index := Some idx\<rparr>)"
    using f w l(1) by (simp add: createIndex_def Let_def writer_ok_def sorted_objects_def idx_def)
  have "mi_IdxChecksum idx = ResetBySize ZeroHash ?sz" using l(3) by (simp add: idx_def idents_def NewMemoryIndex_def)
  moreover have "o64_exact rows o64" "long_rows rows ?es" using l(2) by (simp_all add: created_def)
  ultimately show thesis using L size(1) by (intro that [OF c m]) (auto simp: idx_def)
qed


text \<open>The objects of a packfile, one after the other: what counts is the first time that one is added.\<close>

definition add_all :: "(ObjectID \<times> u64 \<times> u32) list \<Rightarrow> Writer \<Rightarrow> Writer" where
  "add_all adds w = foldl (\<lambda>w (h, pos, crc). OnInflatedObjectContent h pos crc w) w adds"

definition first_add :: "(ObjectID \<times> u64 \<times> u32) list \<Rightarrow> ObjectID \<Rightarrow> (u64 \<times> u32) option" where
  "first_add adds h = map_option snd (find (\<lambda>a. fst a = h) adds)"

definition entry_of :: "ObjectID \<times> u64 \<times> u32 \<Rightarrow> Entry" where
  "entry_of a = \<lparr>pe_Hash = fst a, pe_CRC32 = snd (snd a), pe_Offset = fst (snd a)\<rparr>"

definition adding :: "Writer \<Rightarrow> bool" where
  "adding w \<longleftrightarrow> w_added w = pe_Hash ` set (w_objects w) \<and> distinct (map pe_Hash (w_objects w))"

lemma find_cong_set: "(\<And>x. x \<in> set xs \<Longrightarrow> P x = Q x) \<Longrightarrow> find P xs = find Q xs"
  by (induction xs) auto

lemma Writer_Add_adding:
  assumes "adding w"
  shows "adding (Writer_Add h pos crc w)" "w_checksum (Writer_Add h pos crc w) = w_checksum w"
    "w_offset64 (Writer_Add h pos crc w) = w_offset64 w" "length (w_objects (Writer_Add h pos crc w)) \<le> length (w_objects w) + 1"
    "set (w_objects (Writer_Add h pos crc w)) \<subseteq> insert (entry_of (h, pos, crc)) (set (w_objects w))"
  using assms by (auto simp: adding_def Writer_Add_def entry_of_def)

lemma Writer_Add_find:
  assumes "adding w" and "\<not> IsZero g"
  shows "find (\<lambda>e. pe_Hash e = g) (w_objects (Writer_Add h pos crc w)) =
    (case find (\<lambda>e. pe_Hash e = g) (w_objects w) of None \<Rightarrow> (if h = g then Some (entry_of (h, pos, crc)) else None) | Some e \<Rightarrow> Some e)"
proof (cases "find (\<lambda>e. pe_Hash e = g) (w_objects w)")
  case None
  then have "g \<notin> w_added w" using assms(1) by (auto simp: adding_def find_None_iff)
  then show ?thesis using None assms(2) by (auto simp: Writer_Add_def find_append entry_of_def)
next
  case (Some e)
  then show ?thesis by (simp add: Writer_Add_def find_append)
qed

lemma add_all_adding:
  assumes "adding w"
  shows "adding (add_all adds w) \<and> w_checksum (add_all adds w) = w_checksum w \<and> w_offset64 (add_all adds w) = w_offset64 w \<and>
    length (w_objects (add_all adds w)) \<le> length (w_objects w) + length adds \<and>
    set (w_objects (add_all adds w)) \<subseteq> entry_of ` set adds \<union> set (w_objects w)"
  using assms
proof (induction adds arbitrary: w)
  case (Cons a adds)
  obtain h pos crc where a: "a = (h, pos, crc)" by (cases a)
  note step = Writer_Add_adding [OF Cons.prems, of h pos crc]
  have "add_all (a # adds) w = add_all adds (Writer_Add h pos crc w)" by (simp add: add_all_def a OnInflatedObjectContent_def)
  then show ?case using Cons.IH [OF step(1)] step(2-5) a by auto
qed (simp add: add_all_def)

lemma add_all_find:
  assumes "adding w" and "\<not> IsZero g"
  shows "find (\<lambda>e. pe_Hash e = g) (w_objects (add_all adds w)) =
    (case find (\<lambda>e. pe_Hash e = g) (w_objects w) of None \<Rightarrow> map_option entry_of (find (\<lambda>a. fst a = g) adds) | Some e \<Rightarrow> Some e)"
  using assms(1)
proof (induction adds arbitrary: w)
  case Nil
  then show ?case by (simp add: add_all_def split: option.split)
next
  case (Cons a adds)
  obtain h pos crc where a: "a = (h, pos, crc)" by (cases a)
  have "add_all (a # adds) w = add_all adds (Writer_Add h pos crc w)" by (simp add: add_all_def a OnInflatedObjectContent_def)
  then show ?case
    using Cons.IH [OF Writer_Add_adding(1) [OF Cons.prems]] Writer_Add_find [OF Cons.prems assms(2), of h pos crc]
    by (cases "find (\<lambda>e. pe_Hash e = g) (w_objects w)") (auto simp: a)
qed


lemma find_perm:
  assumes "mset xs = mset ys" and "distinct (map f xs)"
  shows "find (\<lambda>x. f x = k) xs = find (\<lambda>x. f x = k) ys"
proof -
  have s: "set xs = set ys" using assms(1) by (rule mset_eq_setD)
  show ?thesis
  proof (cases "find (\<lambda>x. f x = k) ys")
    case None
    then have "find (\<lambda>x. f x = k) xs = None" using s by (simp add: find_None_iff)
    then show ?thesis using None by simp
  next
    case (Some y)
    then have y: "y \<in> set xs" "f y = k" using s by (auto simp: find_Some_iff)
    have "find (\<lambda>x. f x = k) xs = Some y"
      by (rule find_unique [OF y(1)]) (use y assms(2) in \<open>auto simp: distinct_map inj_on_def\<close>)
    then show ?thesis using Some by simp
  qed
qed

lemma session_ok:
  assumes adds: "\<forall>a \<in> set adds. oid_ok (fst a) \<and> oid_format (fst a) = oid_format c" and small: "length adds * 32 < 2 ^ 32"
    and w: "w = (add_all adds (OnHeader n new_Writer))\<lparr>w_checksum := c, w_finished := True\<rparr>"
  shows "writer_ok w" and "\<And>g. oid_ok g \<Longrightarrow> oid_format g = oid_format c \<Longrightarrow> \<not> IsZero g \<Longrightarrow>
    find (\<lambda>e. entry_name e = oid_Bytes g) (sorted_objects w) = map_option entry_of (find (\<lambda>a. fst a = g) adds)"
proof -
  have a0: "adding (OnHeader n new_Writer)" by (simp add: adding_def OnHeader_def new_Writer_def)
  note inv = add_all_adding [OF a0, of adds]
  have objs: "oid_ok (pe_Hash e) \<and> oid_format (pe_Hash e) = oid_format c" if "e \<in> set (w_objects w)" for e
    using inv that adds by (fastforce simp: w OnHeader_def new_Writer_def entry_of_def)
  then have inj: "inj_on (\<lambda>e. oid_Bytes e) (pe_Hash ` set (w_objects w))" by (auto simp: inj_on_def intro: oid_eqI)
  have "distinct (map pe_Hash (w_objects w))" using inv by (simp add: adding_def w)
  then have d: "distinct (map (\<lambda>e. entry_name e) (w_objects w))"
    using inj by (auto simp: distinct_map inj_on_def)
  have "length (w_objects w) * 32 < 2 ^ 32" using inv small by (simp add: w OnHeader_def new_Writer_def)
  then show ok: "writer_ok w"
    using d objs inv by (auto simp: writer_ok_def list_all_iff oid_Size_def w OnHeader_def new_Writer_def)
  fix g assume g: "oid_ok g" "oid_format g = oid_format c" "\<not> IsZero g"
  have "find (\<lambda>e. entry_name e = oid_Bytes g) (sorted_objects w) = find (\<lambda>e. entry_name e = oid_Bytes g) (w_objects w)"
    by (rule find_perm [symmetric]) (simp_all add: sorted_objects_def d)
  also have "\<dots> = find (\<lambda>e. pe_Hash e = g) (w_objects w)"
    by (rule find_cong_set) (use objs g in \<open>auto intro: oid_eqI\<close>)
  also have "\<dots> = map_option entry_of (find (\<lambda>a. fst a = g) adds)"
    using add_all_find [OF a0 g(3), of adds] by (simp add: w OnHeader_def new_Writer_def)
  finally show "find (\<lambda>e. entry_name e = oid_Bytes g) (sorted_objects w) = map_option entry_of (find (\<lambda>a. fst a = g) adds)" .
qed

definition one_hash :: ObjectID where "one_hash = ObjectID (1 # replicate 31 0) UnsetObjectFormat"

lemma one_hash_facts: "oid_ok one_hash" "oid_format one_hash = UnsetObjectFormat" "\<not> IsZero one_hash"
proof -
  show "oid_ok one_hash" by (simp add: oid_ok_iff one_hash_def oid_Bytes_def oid_Size_def numeral_eq_Suc)
  show "oid_format one_hash = UnsetObjectFormat" by (simp add: one_hash_def)
  show "\<not> IsZero one_hash" by (simp add: IsZero_def one_hash_def numeral_eq_Suc)
qed

lemma one_entry_pack:
  obtains idx where "mem_shows idx [\<lparr>pe_Hash = one_hash, pe_CRC32 = 7, pe_Offset = 12\<rparr>]" "mi_PackfileChecksum idx = ZeroHash"
proof -
  define w where "w = (add_all [(one_hash, 12, 7)] (OnHeader 1 new_Writer))\<lparr>w_checksum := ZeroHash, w_finished := True\<rparr>"
  have "writer_ok w"
    by (rule session_ok(1) [of "[(one_hash, 12, 7)]" ZeroHash w 1]) (use one_hash_facts in \<open>simp_all add: w_def ZeroHash_def\<close>)
  moreover have "w_finished w" "w_checksum w = ZeroHash" by (simp_all add: w_def)
  ultimately obtain idx where "mem_shows idx (sorted_objects w)" "mi_PackfileChecksum idx = ZeroHash" using createIndex_shows by metis
  moreover have "sorted_objects w = [\<lparr>pe_Hash = one_hash, pe_CRC32 = 7, pe_Offset = 12\<rparr>]"
    using one_hash_facts(3)
    by (simp add: w_def sorted_objects_def add_all_def OnInflatedObjectContent_def Writer_Add_def OnHeader_def new_Writer_def)
  ultimately show thesis using that by simp
qed

lemma one_entry_index:
  obtains idx where "mem_shows idx [\<lparr>pe_Hash = one_hash, pe_CRC32 = 7, pe_Offset = 12\<rparr>]"
  using one_entry_pack by blast

text \<open>
  The writer as the observer of a parser: after the header, the objects of the packfile in any
  order and with any repetitions, and the footer, \<open>Index\<close> returns an index; looking up an identifier in
  it gives the offset and the checksum with which it was added first, and the error for one that was
  not added. Nothing panics.
\<close>

theorem writer_session:
  assumes "\<forall>a \<in> set adds. oid_ok (fst a) \<and> oid_format (fst a) = oid_format c" and "length adds * 32 < 2 ^ 32"
  shows "\<exists>w idx. OnFooter c (add_all adds (OnHeader n new_Writer)) = Some (Inr (), w) \<and> Writer_Index w = Some (Inr idx, w) \<and>
    (\<forall>h. oid_ok h \<longrightarrow> oid_format h = oid_format c \<longrightarrow> \<not> IsZero h \<longrightarrow>
       map_option fst (FindOffset idx h) = Some (note_err IdxObjectNotFound (map_option fst (first_add adds h))) \<and>
       FindCRC32 idx h = Some (note_err IdxObjectNotFound (map_option snd (first_add adds h))))"
proof -
  let ?w = "(add_all adds (OnHeader n new_Writer))\<lparr>w_checksum := c, w_finished := True\<rparr>"
  note ok = session_ok [OF assms, of ?w n, OF refl]
  obtain idx w' where c: "createIndex ?w = Some (Inr idx, w')" "mem_shows idx (sorted_objects ?w)" "w_index w' = Some idx"
    by (rule createIndex_shows [OF ok(1)]) simp
  have "map_option fst (FindOffset idx h) = Some (note_err IdxObjectNotFound (map_option fst (first_add adds h))) \<and>
      FindCRC32 idx h = Some (note_err IdxObjectNotFound (map_option snd (first_add adds h)))"
    if h: "oid_ok h" "oid_format h = oid_format c" "\<not> IsZero h" for h
    using mem_index.offset_find [OF c(2), of h] mem_index.crc_find [OF c(2), of h] ok(2) [OF h] h(1)
    by (simp add: mem_fits_def first_add_def entry_of_def option.map_comp comp_def)
  then show ?thesis using c(1,3) by (simp add: OnFooter_def Writer_Index_def)
qed


theorem writer_session_witness:
  "\<exists>w idx. OnFooter ZeroHash (add_all [(one_hash, 12, 7), (one_hash, 99, 8)] (OnHeader 2 new_Writer)) = Some (Inr (), w) \<and>
    Writer_Index w = Some (Inr idx, w) \<and> map_option fst (FindOffset idx one_hash) = Some (Inr 12)"
proof -
  have z: "oid_format ZeroHash = UnsetObjectFormat" by (simp add: ZeroHash_def)
  obtain w idx where
      "OnFooter ZeroHash (add_all [(one_hash, 12, 7), (one_hash, 99, 8)] (OnHeader 2 new_Writer)) = Some (Inr (), w)"
      "Writer_Index w = Some (Inr idx, w)"
      "\<forall>h. oid_ok h \<longrightarrow> oid_format h = oid_format ZeroHash \<longrightarrow> \<not> IsZero h \<longrightarrow>
         map_option fst (FindOffset idx h) = Some (note_err IdxObjectNotFound (map_option fst (first_add [(one_hash, 12, 7), (one_hash, 99, 8)] h))) \<and>
         FindCRC32 idx h = Some (note_err IdxObjectNotFound (map_option snd (first_add [(one_hash, 12, 7), (one_hash, 99, 8)] h)))"
    using writer_session [of "[(one_hash, 12, 7), (one_hash, 99, 8)]" ZeroHash 2] one_hash_facts z by auto
  moreover from spec [OF this(3), of one_hash] have "map_option fst (FindOffset idx one_hash) = Some (Inr 12)"
    using one_hash_facts z by (simp add: first_add_def)
  ultimately show ?thesis by blast
qed

end
