(* ===== verification/Index_Iterators.thy ===== *)
theory Index_Iterators
  imports Index_Writer
begin

text \<open>
  The iterators over the index of a packfile, \<open>plumbing/format/idxfile/idxfile.go\<close>: over all entries,
  by offset, and over the entries whose name has a prefix. On an index that shows entries
  (\<open>Pack_Index\<close>) the first gives all of them in order and then ends, the second the same sorted by
  offset, and the third those with the prefix and no others; none panics. The identifiers of the
  first two have the right bytes but are not in normal form.
\<close>

subsection \<open>Iterators\<close>

record idxfileEntryIter =
  ei_total :: nat
  ei_firstLevel :: nat
  ei_secondLevel :: nat

definition Entries :: idxfileEntryIter where
  "Entries = \<lparr>ei_total = 0, ei_firstLevel = 0, ei_secondLevel = 0\<rparr>"

function EntryIter_Next :: "MemoryIndex \<Rightarrow> idxfileEntryIter \<Rightarrow> ((idx_error + Entry) \<times> idxfileEntryIter) option" where
  "EntryIter_Next idx i =
     (if ei_firstLevel i \<ge> 256 then Some (Inl IdxEOF, i)
      else Option.bind (index (mi_Fanout idx) (ei_firstLevel i)) (\<lambda>fo.
        if ei_total i \<ge> unat fo
        then EntryIter_Next idx (i\<lparr>ei_firstLevel := ei_firstLevel i + 1, ei_secondLevel := 0\<rparr>)
        else
          Option.bind (index (mi_FanoutMapping idx) (ei_firstLevel i)) (\<lambda>k.
          Option.bind (at_int (mi_Names idx) k) (\<lambda>names.
          Option.bind (slice names (ei_secondLevel i * idSize idx) (length names)) (\<lambda>inp.
            let hash = fst (oid_Write (ResetBySize ZeroHash (idSize idx)) inp) in
            Option.bind (getOffset idx k (ei_secondLevel i)) (\<lambda>off.
              case off of
                Inl err \<Rightarrow> Some (Inl err, i)
              | Inr off \<Rightarrow>
                  Option.bind (getCRC32 idx k (ei_secondLevel i)) (\<lambda>crc.
                    Some (Inr \<lparr>pe_Hash = hash, pe_CRC32 = crc, pe_Offset = off\<rparr>,
                          i\<lparr>ei_secondLevel := ei_secondLevel i + 1, ei_total := ei_total i + 1\<rparr>))))))))"
  by pat_completeness auto
termination
  by (relation "measure (\<lambda>(idx, i). 256 - ei_firstLevel i)") auto

declare EntryIter_Next.simps [simp del]

definition EntryIter_Close :: "idxfileEntryIter \<Rightarrow> idxfileEntryIter" where
  "EntryIter_Close i = i\<lparr>ei_firstLevel := 256\<rparr>"

text \<open>\<open>EntriesByOffset\<close>: as many entries as the count says, sorted by their offsets.\<close>

fun collect_entries :: "MemoryIndex \<Rightarrow> nat \<Rightarrow> idxfileEntryIter \<Rightarrow> (idx_error + Entry list) option" where
  "collect_entries idx 0 i = Some (Inr [])"
| "collect_entries idx (Suc n) i =
     Option.bind (EntryIter_Next idx i) (\<lambda>(r, i').
       case r of
         Inl err \<Rightarrow> Some (Inl err)
       | Inr e \<Rightarrow> map_option (map_sum id ((#) e)) (collect_entries idx n i'))"

definition EntriesByOffset :: "MemoryIndex \<Rightarrow> (idx_error + Entry list) option" where
  "EntriesByOffset idx =
     Option.bind (Count idx) (\<lambda>n. map_option (map_sum id (sort_key pe_Offset)) (collect_entries idx n Entries))"

text \<open>The entries with a prefix: the position of the first by binary search, then on while they match.\<close>

record idxfilePrefixIter =
  pi_idSize :: nat
  pi_prefix :: bytes
  pi_names :: bytes
  pi_offset32 :: bytes
  pi_crc32 :: bytes
  pi_offset64 :: bytes
  pi_pos :: nat
  pi_done :: bool

function prefix_search :: "nat \<Rightarrow> bytes \<Rightarrow> bytes \<Rightarrow> nat \<Rightarrow> nat \<Rightarrow> nat option" where
  "prefix_search sz names target lo hi =
     (if lo < hi then
        let mid = (lo + hi) div 2 in
        case slice names (mid * sz) ((mid + 1) * sz) of
          None \<Rightarrow> None
        | Some slot \<Rightarrow>
            if bytes_Compare slot target < 0 then prefix_search sz names target (mid + 1) hi
            else prefix_search sz names target lo mid
      else Some lo)"
  by pat_completeness auto
termination
  by (relation "measure (\<lambda>(sz, names, target, lo, hi). hi - lo)") auto

declare prefix_search.simps [simp del]

definition prefix_target :: "nat \<Rightarrow> bytes \<Rightarrow> bytes" where
  "prefix_target sz pre = take sz pre @ replicate (sz - length pre) 0"

text \<open>The first alternative of the result is the iterator over all entries.\<close>

definition EntriesWithPrefix :: "MemoryIndex \<Rightarrow> bytes \<Rightarrow> (idxfileEntryIter + idxfilePrefixIter) option" where
  "EntriesWithPrefix idx pre =
     (if length pre = 0 then Some (Inl Entries)
      else Option.bind (index (mi_FanoutMapping idx) (unat (hd pre))) (\<lambda>bucket.
        if bucket = noMapping
        then Some (Inr \<lparr>pi_idSize = 0, pi_prefix = [], pi_names = [], pi_offset32 = [], pi_crc32 = [],
                        pi_offset64 = [], pi_pos = 0, pi_done = True\<rparr>)
        else
          Option.bind (at_int (mi_Names idx) bucket) (\<lambda>names.
            let sz = idSize idx in
            Option.bind (prefix_search sz names (prefix_target sz pre) 0 (length names div sz)) (\<lambda>lo.
            Option.bind (at_int (mi_Offset32 idx) bucket) (\<lambda>o32.
            Option.bind (at_int (mi_CRC32 idx) bucket) (\<lambda>crc.
              Some (Inr \<lparr>pi_idSize = sz, pi_prefix = pre, pi_names = names, pi_offset32 = o32, pi_crc32 = crc,
                         pi_offset64 = mi_Offset64 idx, pi_pos = lo, pi_done = False\<rparr>)))))))"

definition PrefixIter_Next :: "idxfilePrefixIter \<Rightarrow> ((idx_error + Entry) \<times> idxfilePrefixIter) option" where
  "PrefixIter_Next i =
     (if pi_done i then Some (Inl IdxEOF, i)
      else
        let offset = pi_pos i * pi_idSize i in
        if offset + pi_idSize i > length (pi_names i) then Some (Inl IdxEOF, i\<lparr>pi_done := True\<rparr>)
        else
          Option.bind (slice (pi_names i) offset (offset + pi_idSize i)) (\<lambda>hashBytes.
            if \<not> prefix (pi_prefix i) hashBytes then Some (Inl IdxEOF, i\<lparr>pi_done := True\<rparr>)
            else
              Option.bind (offset_in (pi_offset32 i) (pi_offset64 i) (pi_pos i)) (\<lambda>off.
                case off of
                  Inl err \<Rightarrow> Some (Inl err, i)
                | Inr off \<Rightarrow>
                    Option.bind (slice (pi_crc32 i) (4 * pi_pos i) (4 * pi_pos i + 4)) (\<lambda>crc.
                      Some (Inr \<lparr>pe_Hash = fst (oid_Write (ResetBySize ZeroHash (pi_idSize i)) hashBytes),
                                 pe_CRC32 = be32 crc, pe_Offset = off\<rparr>,
                            i\<lparr>pi_pos := pi_pos i + 1\<rparr>)))))"

definition PrefixIter_Close :: "idxfilePrefixIter \<Rightarrow> idxfilePrefixIter" where
  "PrefixIter_Close i = i\<lparr>pi_done := True\<rparr>"

record idxfileEntryOffsetIter =
  oi_entries :: "Entry list"
  oi_pos :: nat

definition OffsetIter_Next :: "idxfileEntryOffsetIter \<Rightarrow> (idx_error + Entry) \<times> idxfileEntryOffsetIter" where
  "OffsetIter_Next i =
     (if oi_pos i \<ge> length (oi_entries i) then (Inl IdxEOF, i)
      else (Inr (oi_entries i ! oi_pos i), i\<lparr>oi_pos := oi_pos i + 1\<rparr>))"

definition OffsetIter_Close :: "idxfileEntryOffsetIter \<Rightarrow> idxfileEntryOffsetIter" where
  "OffsetIter_Close i = i\<lparr>oi_pos := length (oi_entries i) + 1\<rparr>"

subsection \<open>Iterating over an index\<close>

text \<open>
  The iterator is at a position: everything before is out. Its entries have the bytes of the names,
  but a SHA-1 identifier in them is not in normal form: its array goes on with the next name.
\<close>

definition iter_at :: "u32 list \<Rightarrow> nat \<Rightarrow> nat \<Rightarrow> idxfileEntryIter \<Rightarrow> bool" where
  "iter_at F n t i \<longleftrightarrow> ei_total i = t \<and>
     (if ei_firstLevel i < 256
      then fan_lo F (ei_firstLevel i) \<le> t \<and> t \<le> unat (F ! ei_firstLevel i) \<and> ei_secondLevel i = t - fan_lo F (ei_firstLevel i)
      else t = n)"

lemma iter_at_start: "iter_at F n 0 Entries"
  by (simp add: iter_at_def Entries_def fan_lo_def)

lemma iter_at_level:
  assumes "fan_ok F n" and "iter_at F n t i" and "ei_firstLevel i < 256" and "t \<ge> unat (F ! ei_firstLevel i)"
  shows "iter_at F n t (i\<lparr>ei_firstLevel := ei_firstLevel i + 1, ei_secondLevel := 0\<rparr>)"
proof -
  have t: "t = unat (F ! ei_firstLevel i)" using assms(2,3,4) by (simp add: iter_at_def)
  show ?thesis
  proof (cases "ei_firstLevel i + 1 < 256")
    case True
    then show ?thesis using assms(1,2) fan_bounds(1) [OF assms(1), of "Suc (ei_firstLevel i)"] by (simp add: iter_at_def t)
  next
    case False
    then have "ei_firstLevel i = 255" using assms(3) by simp
    then show ?thesis using assms(1,2) by (simp add: iter_at_def t fan_ok_def)
  qed
qed

lemma EntryIter_Next_layout:
  assumes L: "layout idx rows o64" and size: "mi_objectIDSize idx \<in> {20, 32}"
    and offs: "\<forall>r \<in> set rows. \<exists>off. row_offset o64 (row_ofs r) = Inr off"
  shows "iter_at (mi_Fanout idx) (length rows) t i \<Longrightarrow>
    (if t < length rows
     then \<exists>e i'. EntryIter_Next idx i = Some (Inr e, i') \<and> row_entry o64 (rows ! t) e \<and> iter_at (mi_Fanout idx) (length rows) (t + 1) i'
     else \<exists>i'. EntryIter_Next idx i = Some (Inl IdxEOF, i'))"
proof (induction "256 - ei_firstLevel i" arbitrary: i rule: less_induct)
  case less
  let ?F = "mi_Fanout idx" and ?b = "ei_firstLevel i"
  have fan: "fan_ok ?F (length rows)" and tab: "mi_Offset64 idx = concat (map WriteUint64 o64)"
    using L by (auto simp: layout_def)
  have tot: "ei_total i = t" using less.prems by (simp add: iter_at_def)
  consider (eof) "256 \<le> ?b" | (level) "?b < 256" "unat (?F ! ?b) \<le> t" | (entry) "?b < 256" "t < unat (?F ! ?b)" by linarith
  then show ?case
  proof cases
    case eof
    then show ?thesis using less.prems by (subst EntryIter_Next.simps) (simp add: iter_at_def)
  next
    case level
    let ?i = "i\<lparr>ei_firstLevel := ?b + 1, ei_secondLevel := 0\<rparr>"
    have eq: "EntryIter_Next idx i = EntryIter_Next idx ?i"
      using level fan tot by (subst EntryIter_Next.simps) (simp add: index_def fan_ok_def)
    have "256 - ei_firstLevel ?i < 256 - ?b" using level(1) by simp
    then show ?thesis unfolding eq by (rule less.hyps [OF _ iter_at_level [OF fan less.prems level]])
  next
    case entry
    let ?B = "bucket ?F rows ?b" and ?j = "ei_secondLevel i"
    have at: "fan_lo ?F ?b \<le> t" "?j = t - fan_lo ?F ?b" using less.prems entry(1) by (auto simp: iter_at_def)
    have j: "?j < length ?B" using at entry(2) length_bucket [OF fan entry(1)] by simp
    have r: "?B ! ?j = rows ! t" and t: "t < length rows" using bucket_nth [OF fan entry(1) j] at by auto
    have ne: "?B \<noteq> []" using j by auto
    obtain k where k: "mi_FanoutMapping idx ! ?b = int k" "holds_bucket idx k ?B" using layout_bucket [OF L entry(1) ne] .
    obtain off where off: "row_offset o64 (row_ofs (rows ! t)) = Inr off" using offs nth_mem [OF t] by blast
    note names = layout_names [OF L, of ?F ?b]
    have "hash_buffer idx (ResetBySize ZeroHash (idSize idx))"
      using size by (auto simp: hash_buffer_def ResetBySize_def ZeroHash_def oid_Size_def idSize_def)
    moreover have "length (row_name (rows ! t)) = idSize idx" using names j r by (auto simp: list_all_length)
    ultimately have w: "oid_Bytes (fst (oid_Write (ResetBySize ZeroHash (idSize idx))
        (row_name (rows ! t) @ names_of (drop (Suc ?j) ?B)))) = row_name (rows ! t)"
      by (rule hash_buffer_Write(2))
    have "at_int (mi_Names idx) (int k) = Some (names_of ?B)" using k(2) by (simp add: holds_bucket_def at_int_def index_def)
    then have "EntryIter_Next idx i = Some (Inr \<lparr>pe_Hash = fst (oid_Write (ResetBySize ZeroHash (idSize idx))
        (row_name (rows ! t) @ names_of (drop (Suc ?j) ?B))), pe_CRC32 = row_crc (rows ! t), pe_Offset = off\<rparr>,
        i\<lparr>ei_secondLevel := ?j + 1, ei_total := ei_total i + 1\<rparr>)"
      using entry tot fan k(1) layout_mapping [OF L entry(1)] rest_of_names [OF names j] holds_tables [OF k(2) tab j] r off
      by (subst EntryIter_Next.simps) (simp add: index_def fan_ok_def Let_def)
    moreover have "iter_at ?F (length rows) (t + 1) (i\<lparr>ei_secondLevel := ?j + 1, ei_total := ei_total i + 1\<rparr>)"
      using at entry tot by (simp add: iter_at_def)
    ultimately show ?thesis using t off w by (simp add: row_entry_def)
  qed
qed


text \<open>Two entries that agree but for the bytes behind the name.\<close>

definition same_entry :: "Entry \<Rightarrow> Entry \<Rightarrow> bool" where
  "same_entry a b \<longleftrightarrow> entry_name a = entry_name b \<and> pe_CRC32 a = pe_CRC32 b \<and> pe_Offset a = pe_Offset b"

lemma collect_entries_layout:
  assumes L: "layout idx rows o64" and size: "mi_objectIDSize idx \<in> {20, 32}"
    and T: "table_shows (mi_Fanout idx) rows o64 es"
  shows "t + n = length rows \<Longrightarrow> iter_at (mi_Fanout idx) (length rows) t i \<Longrightarrow>
    \<exists>es'. collect_entries idx n i = Some (Inr es') \<and> list_all2 same_entry (drop t es) es'"
proof (induction n arbitrary: t i)
  case 0
  then show ?case using T by (auto simp: table_shows_def dest: list_all2_lengthD)
next
  case (Suc n)
  then have t: "t < length rows" by simp
  obtain e i' where e: "EntryIter_Next idx i = Some (Inr e, i')" "row_entry o64 (rows ! t) e"
      "iter_at (mi_Fanout idx) (length rows) (t + 1) i'"
    using EntryIter_Next_layout [OF L size table_offsets [OF T] Suc.prems(2)] t by auto
  have re: "list_all2 (row_entry o64) rows es" using T by (simp add: table_shows_def)
  then have "t < length es" and "row_entry o64 (rows ! t) (es ! t)" using t by (auto simp: list_all2_conv_all_nth)
  then have d: "drop t es = es ! t # drop (t + 1) es" and s: "same_entry (es ! t) e"
    using e(2) by (auto simp: Cons_nth_drop_Suc same_entry_def row_entry_def)
  obtain es' where "collect_entries idx n i' = Some (Inr es')" "list_all2 same_entry (drop (t + 1) es) es'"
    using Suc.IH [OF _ e(3)] Suc.prems(1) by auto
  then show ?case using e(1) d s by simp
qed

lemma entries_all:
  assumes "mem_shows idx es"
  obtains es' where "collect_entries idx (length es) Entries = Some (Inr es')" "list_all2 same_entry es es'"
proof -
  obtain rows o64 where L: "layout idx rows o64" and T: "table_shows (mi_Fanout idx) rows o64 es"
    and size: "mi_objectIDSize idx \<in> {20, 32}"
    using assms by (auto simp: mem_shows_def)
  have "length rows = length es" using T by (auto simp: table_shows_def dest: list_all2_lengthD)
  then show thesis
    using collect_entries_layout [OF L size T _ iter_at_start, of "length es"] that by auto
qed

lemma sort_key_same_entry:
  assumes "list_all2 same_entry es es'"
  shows "list_all2 same_entry (sort_key pe_Offset es) (sort_key pe_Offset es')"
proof -
  have ins: "list_all2 same_entry (insort_key pe_Offset a xs) (insort_key pe_Offset b ys)"
    if "same_entry a b" "list_all2 same_entry xs ys" for a b xs ys
    using that(2,1) by (induction rule: list_all2_induct) (auto simp: same_entry_def)
  show ?thesis using assms by (induction rule: list_all2_induct) (auto intro: ins)
qed

lemma EntriesByOffset_all:
  assumes "mem_shows idx es"
  shows "\<exists>es'. EntriesByOffset idx = Some (Inr es') \<and> sorted (map pe_Offset es') \<and>
    list_all2 same_entry (sort_key pe_Offset es) es'"
proof -
  obtain es' where "collect_entries idx (length es) Entries = Some (Inr es')" "list_all2 same_entry es es'"
    by (rule entries_all [OF assms])
  then show ?thesis
    using Count_shows [OF assms] sort_key_same_entry [of es es'] by (simp add: EntriesByOffset_def)
qed


subsection \<open>The entries with a prefix\<close>

lemma prefix_search_spec:
  assumes names: "list_all (\<lambda>r. length (row_name r) = sz) rs" and s: "rows_sorted rs"
  shows "lo \<le> hi \<Longrightarrow> hi \<le> length rs \<Longrightarrow> (\<forall>i < lo. row_name (rs ! i) < target) \<Longrightarrow>
    (\<forall>i. hi \<le> i \<longrightarrow> i < length rs \<longrightarrow> target \<le> row_name (rs ! i)) \<Longrightarrow>
    \<exists>r \<le> length rs. prefix_search sz (names_of rs) target lo hi = Some r \<and> (\<forall>i < r. row_name (rs ! i) < target) \<and>
      (\<forall>i. r \<le> i \<longrightarrow> i < length rs \<longrightarrow> target \<le> row_name (rs ! i))"
proof (induction "hi - lo" arbitrary: lo hi rule: less_induct)
  case less
  show ?case
  proof (cases "lo < hi")
    case False
    then show ?thesis using less.prems by (subst prefix_search.simps) (auto intro!: exI [of _ lo])
  next
    case True
    define mid where "mid = (lo + hi) div 2"
    have mid: "lo \<le> mid" "mid < hi" using True by (auto simp: mid_def)
    let ?n = "row_name (rs ! mid)" and ?ps = "prefix_search sz (names_of rs) target"
    have "slice (names_of rs) (mid * sz) ((mid + 1) * sz) = Some ?n"
      using slice_names [OF names, of mid] mid less.prems(2) by (simp add: add.commute)
    then have step: "?ps lo hi = (if ?n < target then ?ps (mid + 1) hi else ?ps lo mid)"
      using True by (subst prefix_search.simps) (simp add: bytes_Compare_less Let_def flip: mid_def)
    show ?thesis
    proof (cases "?n < target")
      case lt: True
      have "row_name (rs ! i) < target" if "i < mid + 1" for i
        using that lt rows_sorted_nth [OF s, of i mid] mid less.prems(2) by (cases "i = mid") auto
      then show ?thesis using less.hyps [of hi "mid + 1"] mid less.prems(2,4) lt step by simp
    next
      case ge: False
      have "target \<le> row_name (rs ! i)" if "mid \<le> i" "i < length rs" for i
        using that ge rows_sorted_nth [OF s, of mid i] by (cases "i = mid") auto
      then show ?thesis using less.hyps [of mid lo] mid less.prems(2,3) ge step by simp
    qed
  qed
qed

lemma take_mono_lex: "(xs :: bytes) \<le> ys \<Longrightarrow> take n xs \<le> take n ys"
proof (induction xs arbitrary: ys n)
  case (Cons x xs)
  then show ?case by (cases ys; cases n) auto
qed simp

lemma prefix_take: "prefix pre xs \<longleftrightarrow> length pre \<le> length xs \<and> take (length pre) xs = pre"
  by (metis append_eq_conv_conj append_take_drop_id length_take min.absorb2 nat_le_linear prefixE prefixI prefix_length_le)

lemma target_le:
  assumes "prefix pre name" and "length name = sz"
  shows "prefix_target sz pre \<le> name"
proof -
  obtain s where s: "name = pre @ s" using assms(1) by (auto simp: prefix_def)
  have "replicate (length s) 0 \<le> s" for s :: bytes by (induction s) (auto simp: word_gt_0)
  then have "pre @ replicate (length s) 0 \<le> pre @ s" by (induction pre) auto
  moreover have "prefix_target sz pre = pre @ replicate (length s) 0" using s assms(2) by (auto simp: prefix_target_def)
  ultimately show ?thesis by (simp add: s)
qed

lemma target_between:
  assumes "prefix_target sz pre \<le> a" and "a \<le> b" and "prefix pre b" and "length a = sz" and "length b = sz"
  shows "prefix pre a"
proof -
  let ?n = "length pre"
  have n: "?n \<le> sz" using assms(3,5) by (simp add: prefix_take)
  have "pre \<le> take ?n a" using take_mono_lex [OF assms(1), of ?n] n by (simp add: prefix_target_def)
  moreover have "take ?n a \<le> pre" using take_mono_lex [OF assms(2), of ?n] assms(3) by (simp add: prefix_take)
  ultimately show ?thesis using n assms(4) by (simp add: prefix_take)
qed


text \<open>The prefix iterator, called until the end; every call but the last gives an entry.\<close>

fun drain :: "nat \<Rightarrow> idxfilePrefixIter \<Rightarrow> (idx_error + Entry list) option" where
  "drain 0 i = None"
| "drain (Suc n) i =
     Option.bind (PrefixIter_Next i) (\<lambda>(r, i').
       case r of
         Inr e \<Rightarrow> map_option (map_sum id ((#) e)) (drain n i')
       | Inl err \<Rightarrow> Some (if err = IdxEOF then Inr [] else Inl err))"

definition prefix_iter_of :: "nat \<Rightarrow> bytes \<Rightarrow> idx_row list \<Rightarrow> u64 list \<Rightarrow> nat \<Rightarrow> idxfilePrefixIter" where
  "prefix_iter_of sz pre rs o64 pos =
     \<lparr>pi_idSize = sz, pi_prefix = pre, pi_names = names_of rs, pi_offset32 = ofs_of rs, pi_crc32 = crcs_of rs,
      pi_offset64 = concat (map WriteUint64 o64), pi_pos = pos, pi_done = False\<rparr>"

lemma length_names_of: "list_all (\<lambda>r. length (row_name r) = sz) rs \<Longrightarrow> length (names_of rs) = length rs * sz"
  using length_concat_fixed [of "\<lambda>r. row_name r" sz rs] by (simp add: names_of_def)

lemma PrefixIter_Next_end:
  assumes names: "list_all (\<lambda>r. length (row_name r) = sz) rs" and sz: "0 < sz"
    and stop: "pos < length rs \<Longrightarrow> \<not> prefix pre (row_name (rs ! pos))"
  shows "\<exists>i'. PrefixIter_Next (prefix_iter_of sz pre rs o64 pos) = Some (Inl IdxEOF, i')"
proof (cases "pos < length rs")
  case True
  then have "(pos + 1) * sz \<le> length rs * sz" by (intro mult_le_mono1) simp
  then show ?thesis
    using slice_names [OF names True] stop [OF True] length_names_of [OF names]
    by (simp add: PrefixIter_Next_def prefix_iter_of_def Let_def add.commute)
next
  case False
  then have "length rs * sz \<le> pos * sz" by (intro mult_le_mono1) simp
  then have "pos * sz + sz > length (names_of rs)" using length_names_of [OF names] sz by linarith
  then show ?thesis by (simp add: PrefixIter_Next_def prefix_iter_of_def)
qed

lemma PrefixIter_Next_row:
  assumes names: "list_all (\<lambda>r. length (row_name r) = sz) rs" and sz: "sz \<in> {20, 32}" and pos: "pos < length rs"
    and pre: "prefix pre (row_name (rs ! pos))" and off: "row_offset o64 (row_ofs (rs ! pos)) = Inr off"
  shows "\<exists>e. PrefixIter_Next (prefix_iter_of sz pre rs o64 pos) = Some (Inr e, prefix_iter_of sz pre rs o64 (pos + 1)) \<and>
    row_entry o64 (rs ! pos) e \<and> oid_ok (pe_Hash e)"
proof -
  have len: "length (row_name (rs ! pos)) = sz" using names pos by (simp add: list_all_length)
  define e where "e = \<lparr>pe_Hash = fst (oid_Write (ResetBySize ZeroHash sz) (row_name (rs ! pos))),
    pe_CRC32 = row_crc (rs ! pos), pe_Offset = off\<rparr>"
  have "(pos + 1) * sz \<le> length rs * sz" using pos by (intro mult_le_mono1) simp
  then have "PrefixIter_Next (prefix_iter_of sz pre rs o64 pos) = Some (Inr e, prefix_iter_of sz pre rs o64 (pos + 1))"
    using slice_names [OF names pos] pre length_names_of [OF names] offset_in_rows [OF pos, of o64] slice_tables(2) [OF pos] off
    by (simp add: PrefixIter_Next_def prefix_iter_of_def e_def Let_def add.commute)
  moreover have "oid_ok (pe_Hash e) \<and> oid_Bytes (pe_Hash e) = row_name (rs ! pos)"
    using oid_Write_zero [of "row_name (rs ! pos)"] len sz by (auto simp: e_def ResetBySize_def ZeroHash_def)
  ultimately show ?thesis using off by (auto simp: row_entry_def e_def)
qed

lemma drain_rows:
  assumes names: "list_all (\<lambda>r. length (row_name r) = sz) rs" and sz: "sz \<in> {20, 32}"
    and offs: "\<forall>r \<in> set rs. \<exists>off. row_offset o64 (row_ofs r) = Inr off"
  shows "length rs - pos \<le> n \<Longrightarrow>
    \<exists>es. drain (Suc n) (prefix_iter_of sz pre rs o64 pos) = Some (Inr es) \<and>
      list_all2 (\<lambda>r e. row_entry o64 r e \<and> oid_ok (pe_Hash e)) (takeWhile (\<lambda>r. prefix pre (row_name r)) (drop pos rs)) es"
proof (induction n arbitrary: pos)
  case 0
  then have "drop pos rs = []" by simp
  moreover obtain i' where "PrefixIter_Next (prefix_iter_of sz pre rs o64 pos) = Some (Inl IdxEOF, i')"
    using PrefixIter_Next_end [OF names, of pos pre o64] sz 0 by auto
  ultimately show ?case by simp
next
  case (Suc n)
  show ?case
  proof (cases "pos < length rs \<and> prefix pre (row_name (rs ! pos))")
    case False
    then have "takeWhile (\<lambda>r. prefix pre (row_name r)) (drop pos rs) = []"
      by (cases "pos < length rs") (simp_all add: Cons_nth_drop_Suc [symmetric])
    moreover obtain i' where "PrefixIter_Next (prefix_iter_of sz pre rs o64 pos) = Some (Inl IdxEOF, i')"
      using PrefixIter_Next_end [OF names, of pos pre o64] sz False by auto
    ultimately show ?thesis by (simp only: drain.simps) simp
  next
    case True
    then have pos: "pos < length rs" and pre: "prefix pre (row_name (rs ! pos))" by auto
    obtain off where off: "row_offset o64 (row_ofs (rs ! pos)) = Inr off" using offs nth_mem [OF pos] by blast
    obtain e where e: "PrefixIter_Next (prefix_iter_of sz pre rs o64 pos) = Some (Inr e, prefix_iter_of sz pre rs o64 (pos + 1))"
        "row_entry o64 (rs ! pos) e" "oid_ok (pe_Hash e)"
      using PrefixIter_Next_row [OF names sz pos pre off] by blast
    have "length rs - (pos + 1) \<le> n" using Suc.prems by simp
    from Suc.IH [OF this] obtain es where es: "drain (Suc n) (prefix_iter_of sz pre rs o64 (pos + 1)) = Some (Inr es)"
        "list_all2 (\<lambda>r e. row_entry o64 r e \<and> oid_ok (pe_Hash e)) (takeWhile (\<lambda>r. prefix pre (row_name r)) (drop (pos + 1) rs)) es"
      by blast
    have "drain (Suc (Suc n)) (prefix_iter_of sz pre rs o64 pos) = Some (Inr (e # es))"
      by (simp only: drain.simps(2) [of "Suc n"] e(1) es(1) bind.bind_lunit prod.case sum.case option.map map_sum.simps id_apply)
    moreover have "drop pos rs = rs ! pos # drop (pos + 1) rs" using pos by (simp add: Cons_nth_drop_Suc)
    ultimately show ?thesis using es(2) e(2,3) pre by simp
  qed
qed


text \<open>From the position of the search on, the rows with the prefix come first; before it there are none.\<close>

lemma prefix_rows:
  assumes names: "list_all (\<lambda>r. length (row_name r) = sz) rs" and s: "rows_sorted rs" and r: "r \<le> length rs"
    and below: "\<forall>i < r. row_name (rs ! i) < prefix_target sz pre"
    and above: "\<forall>i. r \<le> i \<longrightarrow> i < length rs \<longrightarrow> prefix_target sz pre \<le> row_name (rs ! i)"
  shows "takeWhile (\<lambda>r. prefix pre (row_name r)) (drop r rs) = filter (\<lambda>r. prefix pre (row_name r)) rs"
proof -
  let ?P = "\<lambda>r. prefix pre (row_name r)"
  have len: "length (row_name (rs ! i)) = sz" if "i < length rs" for i using names that by (simp add: list_all_length)
  have "\<not> ?P x" if x: "x \<in> set (take r rs)" for x
  proof -
    obtain i where i: "i < r" "x = rs ! i" using x r by (auto simp: in_set_conv_nth)
    then have "\<not> prefix_target sz pre \<le> row_name x" using below by auto
    then show ?thesis using target_le [of pre "row_name x" sz] len [of i] i r by auto
  qed
  then have "filter ?P (take r rs) = []" by (simp add: filter_empty_conv)
  moreover have "filter ?P (take r rs) @ filter ?P (drop r rs) = filter ?P rs"
    by (simp only: filter_append [symmetric] append_take_drop_id)
  moreover have "takeWhile ?P (drop r rs) = filter ?P (drop r rs)"
  proof -
    let ?d = "dropWhile ?P (drop r rs)"
    have "\<not> ?P y" if y: "y \<in> set ?d" for y
    proof
      assume p: "?P y"
      let ?k = "r + length (takeWhile ?P (drop r rs))"
      have d: "?d = drop ?k rs" by (simp add: dropWhile_eq_drop add.commute)
      obtain j where "j < length (drop ?k rs)" "y = drop ?k rs ! j" using y unfolding d in_set_conv_nth by blast
      then have j: "?k + j < length rs" "y = rs ! (?k + j)" by auto
      have hd: "hd ?d = rs ! ?k" using d j by (simp add: hd_drop_conv_nth)
      have "?d \<noteq> []"
      proof
        assume "?d = []"
        from y [unfolded this] show False by simp
      qed
      from hd_dropWhile [OF this] have n: "\<not> ?P (rs ! ?k)" unfolding hd .
      have le: "row_name (rs ! ?k) \<le> row_name y"
        using rows_sorted_nth [OF s, of ?k "?k + j"] j by (cases "j = 0") auto
      have k: "?k < length rs" using j(1) by (rule add_lessD1)
      have "prefix_target sz pre \<le> row_name (rs ! ?k)" using above k le_add1 by blast
      from target_between [OF this le p len [OF k]] n show False using len [OF j(1)] j(2) by blast
    qed
    then have "filter ?P ?d = []" by (simp only: filter_empty_conv) blast
    moreover have "filter ?P (takeWhile ?P (drop r rs)) = takeWhile ?P (drop r rs)"
      unfolding filter_id_conv by (meson set_takeWhileD)
    moreover have "filter ?P (drop r rs) = filter ?P (takeWhile ?P (drop r rs)) @ filter ?P ?d"
      by (simp only: filter_append [symmetric] takeWhile_dropWhile_id)
    ultimately show ?thesis by (simp only: append_Nil2)
  qed
  ultimately show ?thesis by (simp only: append_Nil)
qed

lemma filter_bucket:
  assumes fan: "fan_ok F (length rows)" and bo: "buckets_ok F rows" and b: "b < 256"
    and P: "\<And>r. r \<in> set rows \<Longrightarrow> P r \<Longrightarrow> unat (hd (row_name r)) = b"
  shows "filter P rows = filter P (bucket F rows b)"
proof -
  have out: "fan_lo F b \<le> i \<and> i < unat (F ! b)" if "i < length rows" "P (rows ! i)" for i
    using row_position [OF fan bo that(1)] length_bucket [OF fan b] fan_bounds(1) [OF fan b]
    unfolding P [OF nth_mem [OF that(1)] that(2)] by auto
  have "filter P (take (fan_lo F b) rows) = []"
    using out by (fastforce simp: filter_empty_conv in_set_conv_nth)
  moreover have "\<not> P x" if x: "x \<in> set (drop (fan_lo F (Suc b)) rows)" for x
  proof -
    obtain i where "i < length rows - unat (F ! b)" "x = rows ! (unat (F ! b) + i)"
      using x unfolding in_set_conv_nth fan_lo_Suc by auto
    moreover from this(1) have "unat (F ! b) + i < length rows" by linarith
    ultimately show ?thesis using out [of "unat (F ! b) + i"] by auto
  qed
  then have "filter P (drop (fan_lo F (Suc b)) rows) = []" by (simp add: filter_empty_conv)
  moreover have "rows = take (fan_lo F b) rows @ bucket F rows b @ drop (fan_lo F (Suc b)) rows"
    using bucket_split [OF fan b] by (metis append_take_drop_id)
  ultimately show ?thesis by (metis append.left_neutral append.right_neutral filter_append)
qed


lemma list_all2_filter:
  assumes "list_all2 R xs ys" and "\<And>x y. R x y \<Longrightarrow> P x = Q y"
  shows "list_all2 R (filter P xs) (filter Q ys)"
  using assms(1) by (induction rule: list_all2_induct) (auto simp: assms(2))

lemma row_entry_same: "row_entry o64 r e \<Longrightarrow> row_entry o64 r e' \<Longrightarrow> same_entry e e'"
  by (auto simp: row_entry_def same_entry_def)

lemma rows_entries_same:
  assumes "list_all2 (row_entry o64) rs es" and "list_all2 (\<lambda>r e. row_entry o64 r e \<and> oid_ok (pe_Hash e)) rs es'"
  shows "list_all2 same_entry es es' \<and> list_all (\<lambda>e. oid_ok (pe_Hash e)) es'"
  using assms
proof (induction arbitrary: es' rule: list_all2_induct)
  case (Cons r rs e es)
  obtain e' es'' where "es' = e' # es''" using Cons.prems by (cases es') auto
  with Cons show ?case using row_entry_same [of o64 r e e'] by auto
qed simp

text \<open>
  \<^bold>\<open>C22\<close>. The iterator over a prefix gives exactly the entries whose names start with it, in order, and then
  ends; the binary search for the first of them and the stop at the first name without the prefix
  lose nothing. The identifiers that it gives are in normal form.
\<close>

theorem prefix_iteration:
  assumes S: "mem_shows idx es" and pre: "pre \<noteq> []"
  shows "\<exists>it es'. EntriesWithPrefix idx pre = Some (Inr it) \<and> drain (Suc (length es)) it = Some (Inr es') \<and>
    list_all2 same_entry (filter (\<lambda>e. prefix pre (entry_name e)) es) es' \<and> list_all (\<lambda>e. oid_ok (pe_Hash e)) es'"
proof -
  obtain rows o64 where L: "layout idx rows o64" and T: "table_shows (mi_Fanout idx) rows o64 es"
    and size: "mi_objectIDSize idx \<in> {20, 32}"
    using S by (auto simp: mem_shows_def)
  let ?F = "mi_Fanout idx" and ?b = "unat (hd pre)" and ?P = "\<lambda>r. prefix pre (row_name r)"
  let ?B = "bucket ?F rows ?b"
  have fan: "fan_ok ?F (length rows)" and bo: "buckets_ok ?F rows" and re: "list_all2 (row_entry o64) rows es"
    using T by (auto simp: table_shows_def)
  have b: "?b < 256" by (rule unat_byte_less)
  have "filter ?P rows = filter ?P ?B"
    by (rule filter_bucket [OF fan bo b]) (use pre in \<open>auto simp: prefix_def\<close>)
  moreover have "list_all2 (row_entry o64) (filter ?P rows) (filter (\<lambda>e. prefix pre (entry_name e)) es)"
    by (rule list_all2_filter [OF re]) (simp add: row_entry_def)
  ultimately have re': "list_all2 (row_entry o64) (filter ?P ?B) (filter (\<lambda>e. prefix pre (entry_name e)) es)" by simp
  show ?thesis
  proof (cases "?B = []")
    case True
    have "EntriesWithPrefix idx pre = Some (Inr \<lparr>pi_idSize = 0, pi_prefix = [], pi_names = [], pi_offset32 = [],
        pi_crc32 = [], pi_offset64 = [], pi_pos = 0, pi_done = True\<rparr>)"
      using layout_empty [OF L b True] layout_mapping [OF L b] pre by (simp add: EntriesWithPrefix_def)
    moreover have "filter (\<lambda>e. prefix pre (entry_name e)) es = []" using re' True by simp
    ultimately show ?thesis by (simp add: PrefixIter_Next_def)
  next
    case False
    obtain k where k: "mi_FanoutMapping idx ! ?b = int k" "holds_bucket idx k ?B" using layout_bucket [OF L b False] .
    note names = layout_names [OF L, of ?F ?b] and s = sorted_wrt_bucket [OF table_rows_sorted [OF T], of ?F ?b]
    obtain r where r: "r \<le> length ?B" "prefix_search (idSize idx) (names_of ?B) (prefix_target (idSize idx) pre) 0 (length ?B) = Some r"
        "\<forall>i < r. row_name (?B ! i) < prefix_target (idSize idx) pre"
        "\<forall>i. r \<le> i \<longrightarrow> i < length ?B \<longrightarrow> prefix_target (idSize idx) pre \<le> row_name (?B ! i)"
      using prefix_search_spec [OF names s, of 0 "length ?B" "prefix_target (idSize idx) pre"] by auto
    have "length (names_of ?B) div idSize idx = length ?B" using length_names_of [OF names] idSize_pos [of idx] by simp
    then have it: "EntriesWithPrefix idx pre = Some (Inr (prefix_iter_of (idSize idx) pre ?B o64 r))"
      using k layout_mapping [OF L b] pre r(2) L
      by (simp add: EntriesWithPrefix_def prefix_iter_of_def noMapping_def holds_bucket_def at_int_def index_def Let_def layout_def)
    have offs: "\<forall>r \<in> set ?B. \<exists>off. row_offset o64 (row_ofs r) = Inr off" using table_offsets [OF T] set_bucket by blast
    have "length ?B \<le> length rows" using length_bucket [OF fan b] fan_bounds(2) [OF fan b] by simp
    then have "length ?B - r \<le> length es" using list_all2_lengthD [OF re] by simp
    moreover have "idSize idx \<in> {20, 32}" using size by (auto simp: idSize_def)
    ultimately obtain es' where "drain (Suc (length es)) (prefix_iter_of (idSize idx) pre ?B o64 r) = Some (Inr es')"
        "list_all2 (\<lambda>r e. row_entry o64 r e \<and> oid_ok (pe_Hash e)) (filter ?P ?B) es'"
      using drain_rows [OF names _ offs, of r "length es" pre] prefix_rows [OF names s r(1,3,4)] by auto
    then show ?thesis using it rows_entries_same [OF re'] by blast
  qed
qed

lemma closed_iterators:
  "EntryIter_Next idx (EntryIter_Close i) = Some (Inl IdxEOF, EntryIter_Close i)"
  "PrefixIter_Next (PrefixIter_Close j) = Some (Inl IdxEOF, PrefixIter_Close j)"
  "OffsetIter_Next (OffsetIter_Close k) = (Inl IdxEOF, OffsetIter_Close k)"
  by (subst EntryIter_Next.simps)
    (simp_all add: EntryIter_Close_def PrefixIter_Close_def PrefixIter_Next_def OffsetIter_Close_def OffsetIter_Next_def)


subsection \<open>Properties\<close>

text \<open>A sequence of the lookups that change the index: by name and by offset.\<close>

fun run_lookups :: "(ObjectID + u64) list \<Rightarrow> MemoryIndex \<Rightarrow> MemoryIndex option" where
  "run_lookups [] idx = Some idx"
| "run_lookups (Inl h # ops) idx = Option.bind (FindOffset idx h) (\<lambda>(r, idx). run_lookups ops idx)"
| "run_lookups (Inr off # ops) idx = Option.bind (FindHash idx off) (\<lambda>(r, idx). run_lookups ops idx)"

lemma run_lookups_shows:
  assumes "mem_shows idx es" and "\<forall>h. Inl h \<in> set ops \<longrightarrow> oid_ok h"
  shows "\<exists>idx'. run_lookups ops idx = Some idx' \<and> mem_shows idx' es"
  using assms
proof (induction ops arbitrary: idx)
  case (Cons op ops)
  show ?case
  proof (cases op)
    case (Inl h)
    then have h: "oid_ok h" using Cons.prems(2) by simp
    then have "FindOffset idx h \<noteq> None" using mem_index.no_panic [OF Cons.prems(1), of h] by (auto simp: mem_fits_def)
    then obtain r idx1 where f: "FindOffset idx h = Some (r, idx1)" by auto
    then show ?thesis using FindOffset_shows [OF Cons.prems(1) h f] Cons.IH [of idx1] Cons.prems(2) Inl by simp
  next
    case (Inr off)
    obtain r idx1 where "FindHash idx off = Some (r, idx1)" "mem_shows idx1 es" using FindHash_shows [OF Cons.prems(1)] by blast
    then show ?thesis using Cons.IH [of idx1] Cons.prems(2) Inr by simp
  qed
qed simp

text \<open>
  \<^bold>\<open>C6\<close>. An index that shows entries answers as a lookup in their list, whatever was looked up before:
  after any sequence of lookups by name and by offset, which fill its map from offsets to names,
  \<open>FindOffset\<close> finds an offset exactly if an entry has the name and the offset, a negative answer of
  \<open>MayContain\<close> is final, \<open>Count\<close> is their number, and if the offsets are different \<open>FindHash\<close> leads back from
  the offset to the name.
\<close>

theorem index_answers:
  assumes "mem_shows idx es" and "\<forall>g. Inl g \<in> set ops \<longrightarrow> oid_ok g" and "oid_ok h"
  shows "\<exists>idx'. run_lookups ops idx = Some idx' \<and>
    (\<forall>off. map_option fst (FindOffset idx' h) = Some (Inr off) \<longleftrightarrow> (\<exists>e \<in> set es. entry_name e = oid_Bytes h \<and> pe_Offset e = off)) \<and>
    (MayContain idx' h = Some False \<longrightarrow> Contains idx' h = Some False) \<and> Count idx' = Some (length es) \<and>
    (\<forall>off. distinct (map pe_Offset es) \<longrightarrow> map_option fst (FindOffset idx' h) = Some (Inr off) \<longrightarrow>
       (\<exists>g. map_option fst (FindHash idx' off) = Some (Inr g) \<and> oid_Bytes g = oid_Bytes h))"
proof -
  obtain idx' where r: "run_lookups ops idx = Some idx'" "mem_shows idx' es" using run_lookups_shows [OF assms(1,2)] by blast
  have fit: "mem_fits idx' h" using assms(3) by (simp add: mem_fits_def)
  have "MayContain idx' h = Some False \<longrightarrow> Contains idx' h = Some False"
    using mem_index.fast_path_sound [OF r(2) fit] by auto
  moreover note mem_index.offset_iff [OF r(2) fit] mem_index.hash_of_offset [OF r(2) fit] mem_index.count_entries [OF r(2)]
  ultimately show ?thesis using r(1) by blast
qed

theorem index_answers_witness:
  "\<exists>idx idx'. mem_shows idx [\<lparr>pe_Hash = one_hash, pe_CRC32 = 7, pe_Offset = 12\<rparr>] \<and>
    run_lookups [Inr 12, Inl ZeroHash] idx = Some idx' \<and> map_option fst (FindOffset idx' one_hash) = Some (Inr 12)"
proof -
  obtain idx where i: "mem_shows idx [\<lparr>pe_Hash = one_hash, pe_CRC32 = 7, pe_Offset = 12\<rparr>]" by (rule one_entry_index)
  have "\<forall>g. Inl g \<in> set [Inr 12, Inl ZeroHash] \<longrightarrow> oid_ok g" by (simp add: ZeroHash_def)
  from index_answers [OF i this one_hash_facts(1)] obtain idx' where "run_lookups [Inr 12, Inl ZeroHash] idx = Some idx'"
      "map_option fst (FindOffset idx' one_hash) = Some (Inr 12)" by auto
  with i show ?thesis by blast
qed

theorem prefix_iteration_witness:
  "\<exists>idx it es'. mem_shows idx [\<lparr>pe_Hash = one_hash, pe_CRC32 = 7, pe_Offset = 12\<rparr>] \<and>
    EntriesWithPrefix idx [1, 0] = Some (Inr it) \<and> drain (Suc (Suc 0)) it = Some (Inr es') \<and> length es' = 1"
proof -
  obtain idx where i: "mem_shows idx [\<lparr>pe_Hash = one_hash, pe_CRC32 = 7, pe_Offset = 12\<rparr>]" by (rule one_entry_index)
  have p: "prefix [1, 0] (oid_Bytes one_hash)" by (simp add: one_hash_def oid_Bytes_def oid_Size_def numeral_eq_Suc)
  obtain it es' where e: "EntriesWithPrefix idx [1, 0] = Some (Inr it)" "drain (Suc (Suc 0)) it = Some (Inr es')"
      "list_all2 same_entry [\<lparr>pe_Hash = one_hash, pe_CRC32 = 7, pe_Offset = 12\<rparr>] es'"
    using prefix_iteration [OF i, of "[1, 0]"] p by (auto simp del: drain.simps)
  from list_all2_lengthD [OF e(3)] have "length es' = 1" by simp
  with i e(1,2) show ?thesis by blast
qed

end
