(* ===== verification/Index_Codec.thy ===== *)
theory Index_Codec
  imports Index_Writer
begin

text \<open>
  The files of pack indexes: \<open>plumbing/format/idxfile/encoder.go\<close> and \<open>decoder.go\<close>.

  \<^item> The hash function is an argument: \<open>hsum\<close> gives the checksum of the bytes that went through it.
  \<^item> A reader is the list of the bytes to come; a panic is \<open>None\<close>.
  \<^item> \<open>Encode\<close> of an index with a layout writes the rows table by table; \<open>Decode\<close> gives back an index
    with a layout from whatever file it accepts, so that no lookup in it panics, and the rows that
    were written from the file that \<open>Encode\<close> wrote.
\<close>

subsection \<open>Encoding\<close>

text \<open>The states of the encoder are functions; a state returns the next one.\<close>

datatype stateFnEncode = writeHeader | writeFanout | writeHashes | writeCRC32 | writeOffsets | writeChecksums

record encoder =
  e_out :: bytes
  e_idx :: MemoryIndex

fun write_slots :: "int list \<Rightarrow> bytes list \<Rightarrow> (idx_error + bytes) option" where
  "write_slots [] tab = Some (Inr [])"
| "write_slots (pos # ps) tab =
     (if pos = noMapping then write_slots ps tab
      else if pos \<ge> int (length tab) then Some (Inl ErrMalformedIdxFile)
      else Option.bind (at_int tab pos) (\<lambda>b. map_option (map_sum id ((@) b)) (write_slots ps tab)))"

definition enc_slots :: "bytes list \<Rightarrow> stateFnEncode \<Rightarrow> encoder \<Rightarrow> (idx_error + stateFnEncode option \<times> encoder) option" where
  "enc_slots tab nxt e =
     map_option (map_sum id (\<lambda>b. (Some nxt, e\<lparr>e_out := e_out e @ b\<rparr>))) (write_slots (mi_FanoutMapping (e_idx e)) tab)"

fun enc_step :: "(bytes \<Rightarrow> bytes) \<Rightarrow> stateFnEncode \<Rightarrow> encoder \<Rightarrow> (idx_error + stateFnEncode option \<times> encoder) option" where
  "enc_step hsum writeHeader e =
     (if mi_Version (e_idx e) \<noteq> VersionSupported then Some (Inl ErrUnsupportedVersion)
      else Some (Inr (Some writeFanout, e\<lparr>e_out := e_out e @ idxHeader @ WriteUint32 (mi_Version (e_idx e))\<rparr>)))"
| "enc_step hsum writeFanout e =
     Some (Inr (Some writeHashes, e\<lparr>e_out := e_out e @ concat (map WriteUint32 (mi_Fanout (e_idx e)))\<rparr>))"
| "enc_step hsum writeHashes e = enc_slots (mi_Names (e_idx e)) writeCRC32 e"
| "enc_step hsum writeCRC32 e = enc_slots (mi_CRC32 (e_idx e)) writeOffsets e"
| "enc_step hsum writeOffsets e =
     map_option (map_sum id (\<lambda>(nxt, e).
         (nxt, if length (mi_Offset64 (e_idx e)) > 0 then e\<lparr>e_out := e_out e @ mi_Offset64 (e_idx e)\<rparr> else e)))
       (enc_slots (mi_Offset32 (e_idx e)) writeChecksums e)"
| "enc_step hsum writeChecksums e =
     (let out = e_out e @ oid_Bytes (mi_PackfileChecksum (e_idx e));
          checksum = fst (oid_Write (mi_IdxChecksum (e_idx e)) (hsum out)) in
      Some (Inr (None, e\<lparr>e_out := out @ oid_Bytes checksum, e_idx := (e_idx e)\<lparr>mi_IdxChecksum := checksum\<rparr>\<rparr>)))"

text \<open>The loop over the states; six steps are enough, see below.\<close>

fun enc_run :: "(bytes \<Rightarrow> bytes) \<Rightarrow> nat \<Rightarrow> stateFnEncode \<Rightarrow> encoder \<Rightarrow> (idx_error + encoder) option" where
  "enc_run hsum 0 st e = None"
| "enc_run hsum (Suc n) st e =
     Option.bind (enc_step hsum st e) (\<lambda>r.
       case r of
         Inl err \<Rightarrow> Some (Inl err)
       | Inr (None, e) \<Rightarrow> Some (Inr e)
       | Inr (Some st, e) \<Rightarrow> enc_run hsum n st e)"

definition Encode :: "(bytes \<Rightarrow> bytes) \<Rightarrow> MemoryIndex \<Rightarrow> (idx_error + bytes \<times> MemoryIndex) option" where
  "Encode hsum idx =
     map_option (map_sum id (\<lambda>e. (e_out e, e_idx e))) (enc_run hsum 6 writeHeader \<lparr>e_out = [], e_idx = idx\<rparr>)"

subsection \<open>Sizes\<close>

text \<open>The division of \<open>int64\<close> truncates towards zero.\<close>

definition quot64 :: "int \<Rightarrow> int \<Rightarrow> int" where "quot64 a b = sgn a * sgn b * (\<bar>a\<bar> div \<bar>b\<bar>)"

definition mulInt64 :: "int \<Rightarrow> int \<Rightarrow> int \<times> bool" where
  "mulInt64 a b =
     (if a < 0 \<or> b < 0 then (0, False)
      else if a = 0 \<or> b = 0 then (0, True)
      else let c = wrap64 (a * b) in if quot64 c b \<noteq> a then (0, False) else (c, True))"

definition addInt64 :: "int \<Rightarrow> int \<Rightarrow> int \<times> bool" where
  "addInt64 a b =
     (if a < 0 \<or> b < 0 then (0, False)
      else let c = wrap64 (a + b) in if c < a then (0, False) else (c, True))"

definition minIdxV2Size :: "int \<Rightarrow> int \<Rightarrow> int" where
  "minIdxV2Size nr hashsz =
     (let perObject = wrap64 (hashsz + 4 + 4);
          fixed = wrap64 (8 + 256 * 4 + 2 * hashsz);
          (objects, ok) = mulInt64 nr perObject in
      if \<not> ok then -1
      else let (s, ok) = addInt64 fixed objects in if \<not> ok then -1 else s)"

definition maxIdxV2Size :: "int \<Rightarrow> int \<Rightarrow> int" where
  "maxIdxV2Size nr hashsz =
     (let minSize = minIdxV2Size nr hashsz in
      if minSize < 0 then -1
      else if nr = 0 then minSize
      else let (overflow, ok) = mulInt64 (nr - 1) 8 in
        if \<not> ok then -1
        else let (s, ok) = addInt64 minSize overflow in if \<not> ok then -1 else s)"

definition validateIdxV2Size :: "MemoryIndex \<Rightarrow> int \<Rightarrow> idx_error + unit" where
  "validateIdxV2Size idx idxSize =
     (let nr = uint (mi_Fanout idx ! 255); hashsz = int (idSize idx);
          minSize = minIdxV2Size nr hashsz; maxSize = maxIdxV2Size nr hashsz in
      if minSize < 0 \<or> maxSize < 0 then Inl ErrMalformedIdxFile
      else if idxSize < minSize \<or> idxSize > maxSize then Inl ErrMalformedIdxFile
      else Inr ())"

subsection \<open>Decoding\<close>

definition map_err :: "('e \<Rightarrow> 'f) \<Rightarrow> 'e + 'a \<Rightarrow> 'f + 'a" where "map_err f = map_sum f id"

definition validateHeader :: "bytes \<Rightarrow> idx_error + bytes" where
  "validateHeader r = rbind (map_err IdxRead (read_full r 4)) (\<lambda>(h, r). if h \<noteq> idxHeader then Inl ErrMalformedIdxFile else Inr r)"

definition readVersion :: "MemoryIndex \<times> bytes \<Rightarrow> idx_error + MemoryIndex \<times> bytes" where
  "readVersion = (\<lambda>(idx, r). rbind (map_err IdxRead (ReadUint32 r)) (\<lambda>(v, r).
     if v \<noteq> VersionSupported then Inl ErrUnsupportedVersion else Inr (idx\<lparr>mi_Version := v\<rparr>, r)))"

fun readFanout_loop :: "nat list \<Rightarrow> MemoryIndex \<times> bytes \<Rightarrow> idx_error + MemoryIndex \<times> bytes" where
  "readFanout_loop [] (idx, r) = Inr (idx, r)"
| "readFanout_loop (k # ks) (idx, r) =
     rbind (map_err IdxRead (ReadUint32 r)) (\<lambda>(n, r).
       if k > 0 \<and> n < mi_Fanout idx ! (k - 1) then Inl ErrMalformedIdxFile
       else readFanout_loop ks
         (idx\<lparr>mi_Fanout := (mi_Fanout idx)[k := n], mi_FanoutMapping := (mi_FanoutMapping idx)[k := noMapping]\<rparr>, r))"

definition readFanout :: "MemoryIndex \<times> bytes \<Rightarrow> idx_error + MemoryIndex \<times> bytes" where
  "readFanout = readFanout_loop [0..<256]"

text \<open>The number of objects in a bucket and the length of its names are 32-bit words; both wrap.\<close>

definition bucket_count :: "u32 list \<Rightarrow> nat \<Rightarrow> u32" where
  "bucket_count F k = (if k = 0 then F ! k else F ! k - F ! (k - 1))"

fun readObjectNames_loop :: "nat list \<Rightarrow> MemoryIndex \<times> bytes \<Rightarrow> idx_error + MemoryIndex \<times> bytes" where
  "readObjectNames_loop [] (idx, r) = Inr (idx, r)"
| "readObjectNames_loop (k # ks) (idx, r) =
     (let buckets = bucket_count (mi_Fanout idx) k in
      if buckets = 0 then readObjectNames_loop ks (idx, r)
      else
        let nameLen = unat (buckets * word_of_nat (idSize idx)) in
        rbind (map_err IdxRead (read_full r nameLen)) (\<lambda>(bin, r).
          readObjectNames_loop ks
            (idx\<lparr>mi_FanoutMapping := (mi_FanoutMapping idx)[k := int (length (mi_Names idx))], mi_Names := mi_Names idx @ [bin],
                 mi_Offset32 := mi_Offset32 idx @ [replicate (unat (buckets * 4)) 0],
                 mi_CRC32 := mi_CRC32 idx @ [replicate (unat (buckets * 4)) 0]\<rparr>, r)))"

definition readObjectNames :: "MemoryIndex \<times> bytes \<Rightarrow> idx_error + MemoryIndex \<times> bytes" where
  "readObjectNames = readObjectNames_loop [0..<256]"

fun read_slots :: "int list \<Rightarrow> bytes list \<Rightarrow> bytes \<Rightarrow> (idx_error + bytes list \<times> bytes) option" where
  "read_slots [] tab r = Some (Inr (tab, r))"
| "read_slots (pos # ps) tab r =
     (if pos = noMapping then read_slots ps tab r
      else Option.bind (at_int tab pos) (\<lambda>buf.
        case read_full r (length buf) of
          Inl err \<Rightarrow> Some (Inl (IdxRead err))
        | Inr (b, r) \<Rightarrow> read_slots ps (tab[nat pos := b]) r))"

definition readCRC32 :: "MemoryIndex \<times> bytes \<Rightarrow> (idx_error + MemoryIndex \<times> bytes) option" where
  "readCRC32 = (\<lambda>(idx, r).
     map_option (map_sum id (\<lambda>(tab, r). (idx\<lparr>mi_CRC32 := tab\<rparr>, r))) (read_slots (mi_FanoutMapping idx) (mi_CRC32 idx) r))"

text \<open>The entries of a table of offsets whose first byte has the top bit.\<close>

fun count_o64 :: "bytes \<Rightarrow> nat" where
  "count_o64 [] = 0"
| "count_o64 (b # bs) = (if b AND push_bit 7 1 > 0 then 1 else 0) + count_o64 (drop 3 bs)"

fun count_slots :: "int list \<Rightarrow> bytes list \<Rightarrow> nat" where
  "count_slots [] tab = 0"
| "count_slots (pos # ps) tab = (if pos = noMapping then 0 else count_o64 (tab ! nat pos)) + count_slots ps tab"

definition readOffsets :: "MemoryIndex \<times> bytes \<Rightarrow> (idx_error + MemoryIndex \<times> bytes) option" where
  "readOffsets = (\<lambda>(idx, r).
     map_option (\<lambda>res. rbind res (\<lambda>(tab, r).
         let o64cnt = count_slots (mi_FanoutMapping idx) tab; idx = idx\<lparr>mi_Offset32 := tab\<rparr> in
         if o64cnt > 0
         then rbind (map_err IdxRead (read_full r (o64cnt * 8))) (\<lambda>(b, r). Inr (idx\<lparr>mi_Offset64 := b\<rparr>, r))
         else Inr (idx, r)))
       (read_slots (mi_FanoutMapping idx) (mi_Offset32 idx) r))"

definition read_checksum :: "MemoryIndex \<Rightarrow> ObjectID \<Rightarrow> bytes \<Rightarrow> idx_error + ObjectID \<times> bytes" where
  "read_checksum idx c r =
     (case oid_ReadFrom (ResetBySize c (idSize idx)) r of
        (c, None, _) \<Rightarrow> Inl (IdxRead (if r = [] then EOF else ErrUnexpectedEOF))
      | (c, Some _, r) \<Rightarrow> Inr (c, r))"

definition readPackChecksum :: "MemoryIndex \<times> bytes \<Rightarrow> idx_error + MemoryIndex \<times> bytes" where
  "readPackChecksum = (\<lambda>(idx, r).
     rbind (read_checksum idx (mi_PackfileChecksum idx) r) (\<lambda>(c, r). Inr (idx\<lparr>mi_PackfileChecksum := c\<rparr>, r)))"

definition readIdxChecksum :: "MemoryIndex \<times> bytes \<Rightarrow> idx_error + MemoryIndex \<times> bytes" where
  "readIdxChecksum = (\<lambda>(idx, r).
     rbind (read_checksum idx (mi_IdxChecksum idx) r) (\<lambda>(c, r). Inr (idx\<lparr>mi_IdxChecksum := c\<rparr>, r)))"

definition bindO :: "('e + 'a) option \<Rightarrow> ('a \<Rightarrow> ('e + 'b) option) \<Rightarrow> ('e + 'b) option" where
  "bindO m f = (case m of None \<Rightarrow> None | Some (Inl e) \<Rightarrow> Some (Inl e) | Some (Inr x) \<Rightarrow> f x)"

text \<open>\<open>idxSize\<close> is what \<open>Stat\<close> reports; the \<open>TeeReader\<close> hashes what was read so far.\<close>

definition Decode :: "(bytes \<Rightarrow> bytes) \<Rightarrow> int \<Rightarrow> bytes \<Rightarrow> MemoryIndex \<Rightarrow> (idx_error + MemoryIndex) option" where
  "Decode hsum idxSize file idx =
     bindO (Some (rbind (validateHeader file) (\<lambda>r. rbind (readVersion (idx, r)) readFanout))) (\<lambda>(idx, r).
     bindO (Some (validateIdxV2Size idx idxSize)) (\<lambda>_.
     bindO (Some (readObjectNames (idx, r))) (\<lambda>(idx, r).
     bindO (readCRC32 (idx, r)) (\<lambda>(idx, r).
     bindO (readOffsets (idx, r)) (\<lambda>(idx, r).
     bindO (Some (readPackChecksum (idx, r))) (\<lambda>(idx, r).
       let actual = hsum (take (length file - length r) file) in
       bindO (Some (readIdxChecksum (idx, r))) (\<lambda>(idx, r).
         if oid_Compare (mi_IdxChecksum idx) actual \<noteq> 0 then Some (Inl ErrMalformedIdxFile)
         else Some (Inr idx))))))))"


subsection \<open>The tables bucket by bucket\<close>

definition full_buckets :: "u32 list \<Rightarrow> idx_row list \<Rightarrow> nat list" where
  "full_buckets F rows = filter (\<lambda>b. bucket F rows b \<noteq> []) [0..<256]"

lemma concat_buckets:
  assumes fan: "fan_ok F (length rows)" and nil: "f [] = []" and app: "\<And>xs ys. f (xs @ ys) = f xs @ f ys"
  shows "n = 256 - b \<Longrightarrow> b \<le> 256 \<Longrightarrow>
    concat (map (\<lambda>b. f (bucket F rows b)) (filter (\<lambda>b. bucket F rows b \<noteq> []) [b..<256])) = f (drop (fan_lo F b) rows)"
proof (induction n arbitrary: b)
  case 0
  then have "fan_lo F b = length rows" using fan by (simp add: fan_lo_def fan_ok_def)
  then show ?case using 0 nil by simp
next
  case (Suc n)
  then have b: "b < 256" by simp
  then have "[b..<256] = b # [Suc b..<256]" by (simp add: upt_conv_Cons)
  moreover have "concat (map (\<lambda>b. f (bucket F rows b)) (filter (\<lambda>b. bucket F rows b \<noteq> []) [Suc b..<256])) = f (drop (fan_lo F (Suc b)) rows)"
    using Suc.IH [of "Suc b"] Suc.prems b by simp
  ultimately show ?case using bucket_split [OF fan b] app nil by simp
qed

lemma tables_append_rows:
  "names_of (xs @ ys) = names_of xs @ names_of ys" "ofs_of (xs @ ys) = ofs_of xs @ ofs_of ys" "crcs_of (xs @ ys) = crcs_of xs @ crcs_of ys"
  "names_of [] = []" "ofs_of [] = []" "crcs_of [] = []"
  by (simp_all add: names_of_def ofs_of_def crcs_of_def)

lemma concat_full_buckets:
  assumes "fan_ok F (length rows)"
  shows "concat (map (\<lambda>b. names_of (bucket F rows b)) (full_buckets F rows)) = names_of rows"
    "concat (map (\<lambda>b. ofs_of (bucket F rows b)) (full_buckets F rows)) = ofs_of rows"
    "concat (map (\<lambda>b. crcs_of (bucket F rows b)) (full_buckets F rows)) = crcs_of rows"
  using concat_buckets [OF assms, of names_of 256 0] concat_buckets [OF assms, of ofs_of 256 0] concat_buckets [OF assms, of crcs_of 256 0]
  by (simp_all add: full_buckets_def tables_append_rows fan_lo_def)

text \<open>The slots of an index with a layout, written in order.\<close>

lemma write_slots_buckets:
  assumes "\<forall>b \<in> set bs. if g b = [] then M ! b = noMapping else \<exists>k < length tab. M ! b = int k \<and> tab ! k = f (g b)"
  shows "write_slots (map (\<lambda>b. M ! b) bs) tab = Some (Inr (concat (map (\<lambda>b. f (g b)) (filter (\<lambda>b. g b \<noteq> []) bs))))"
  using assms
proof (induction bs)
  case (Cons b bs)
  then have ih: "write_slots (map (\<lambda>b. M ! b) bs) tab = Some (Inr (concat (map (\<lambda>b. f (g b)) (filter (\<lambda>b. g b \<noteq> []) bs))))" by simp
  show ?case
  proof (cases "g b = []")
    case True
    then show ?thesis using Cons.prems ih by simp
  next
    case False
    then obtain k where "k < length tab" "M ! b = int k" "tab ! k = f (g b)" using Cons.prems by auto
    then show ?thesis using ih False by (simp add: noMapping_def at_int_def index_def)
  qed
qed simp

definition idx_body :: "u32 list \<Rightarrow> idx_row list \<Rightarrow> u64 list \<Rightarrow> bytes \<Rightarrow> bytes" where
  "idx_body F rows o64 pack =
     idxHeader @ WriteUint32 VersionSupported @ concat (map WriteUint32 F) @ names_of rows @ crcs_of rows @ ofs_of rows @
     concat (map WriteUint64 o64) @ pack"

definition idx_file :: "(bytes \<Rightarrow> bytes) \<Rightarrow> u32 list \<Rightarrow> idx_row list \<Rightarrow> u64 list \<Rightarrow> bytes \<Rightarrow> bytes" where
  "idx_file hsum F rows o64 pack = idx_body F rows o64 pack @ hsum (idx_body F rows o64 pack)"

lemma layout_write_slots:
  assumes L: "layout idx rows o64"
  shows "write_slots (mi_FanoutMapping idx) (mi_Names idx) = Some (Inr (names_of rows))"
    "write_slots (mi_FanoutMapping idx) (mi_CRC32 idx) = Some (Inr (crcs_of rows))"
    "write_slots (mi_FanoutMapping idx) (mi_Offset32 idx) = Some (Inr (ofs_of rows))"
proof -
  let ?F = "mi_Fanout idx" and ?M = "mi_FanoutMapping idx"
  have len: "length ?M = 256" and fan: "fan_ok ?F (length rows)" using L by (auto simp: layout_def)
  have M: "map (\<lambda>b. ?M ! b) [0..<256] = ?M" using map_nth [of ?M] len by simp
  have slot: "if bucket ?F rows b = [] then ?M ! b = noMapping
      else \<exists>k. ?M ! b = int k \<and> holds_bucket idx k (bucket ?F rows b)" if "b \<in> set [0..<256]" for b
    using L that by (simp add: layout_def)
  show "write_slots ?M (mi_Names idx) = Some (Inr (names_of rows))"
    using write_slots_buckets [of "[0..<256]" "bucket ?F rows" ?M "mi_Names idx" names_of] slot concat_full_buckets(1) [OF fan]
    unfolding M full_buckets_def by (fastforce simp: holds_bucket_def)
  show "write_slots ?M (mi_CRC32 idx) = Some (Inr (crcs_of rows))"
    using write_slots_buckets [of "[0..<256]" "bucket ?F rows" ?M "mi_CRC32 idx" crcs_of] slot concat_full_buckets(3) [OF fan]
    unfolding M full_buckets_def by (fastforce simp: holds_bucket_def)
  show "write_slots ?M (mi_Offset32 idx) = Some (Inr (ofs_of rows))"
    using write_slots_buckets [of "[0..<256]" "bucket ?F rows" ?M "mi_Offset32 idx" ofs_of] slot concat_full_buckets(2) [OF fan]
    unfolding M full_buckets_def by (fastforce simp: holds_bucket_def)
qed

lemma Encode_layout:
  assumes L: "layout idx rows o64" and v: "mi_Version idx = VersionSupported"
    and h: "\<And>x. length (hsum x) = oid_Size (mi_IdxChecksum idx)" and c: "length (oid_hash (mi_IdxChecksum idx)) = 32"
  shows "\<exists>idx'. Encode hsum idx = Some (Inr (idx_file hsum (mi_Fanout idx) rows o64 (oid_Bytes (mi_PackfileChecksum idx)), idx'))"
proof -
  have "oid_Bytes (fst (oid_Write (mi_IdxChecksum idx) (hsum x))) = hsum x" for x
    using h [of x] c oid_Size_le [of "mi_IdxChecksum idx"]
    by (simp add: oid_Write_def Let_def oid_Bytes_def oid_Size_def min_def)
  moreover have "mi_Offset64 idx = concat (map WriteUint64 o64)" using L by (simp add: layout_def)
  moreover have "WriteUint64 x \<noteq> []" for x using length_WriteUint(1) [of x] by (metis list.size(3) zero_neq_numeral)
  ultimately show ?thesis
    using v layout_write_slots [OF L]
    by (cases o64) (simp_all add: Encode_def numeral_eq_Suc enc_slots_def Let_def idx_file_def idx_body_def)
qed


subsection \<open>The guards on sizes\<close>

lemma wrap64_less: "0 \<le> n \<Longrightarrow> 2 ^ 63 \<le> n \<Longrightarrow> wrap64 n < n"
  using wrap64_range [of n] by linarith

text \<open>The tests for overflow are exact.\<close>

lemma mulInt64_exact:
  assumes "0 \<le> a" and "a < 2 ^ 63" and "0 \<le> b" and "b < 2 ^ 63"
  shows "mulInt64 a b = (if a * b < 2 ^ 63 then (a * b, True) else (0, False))"
proof (cases "a = 0 \<or> b = 0")
  case True
  then show ?thesis using assms by (auto simp: mulInt64_def)
next
  case False
  then have ab: "0 < a" "0 < b" using assms by auto
  show ?thesis
  proof (cases "a * b < 2 ^ 63")
    case True
    have p: "0 < a * b" using ab by simp
    then have "wrap64 (a * b) = a * b" using True by (intro wrap64_id) linarith+
    moreover have "quot64 (a * b) b = a" using ab p by (simp add: quot64_def)
    ultimately show ?thesis using True ab by (simp add: mulInt64_def Let_def)
  next
    case no: False
    let ?c = "wrap64 (a * b)"
    have "quot64 ?c b \<noteq> a"
    proof
      assume q: "quot64 ?c b = a"
      have "0 < ?c"
      proof (rule ccontr)
        assume c: "\<not> 0 < ?c"
        have "0 \<le> \<bar>?c\<bar> div \<bar>b\<bar>" using ab(2) by (simp add: pos_imp_zdiv_nonneg_iff)
        moreover have "quot64 ?c b = sgn ?c * (\<bar>?c\<bar> div \<bar>b\<bar>)" using ab(2) by (simp add: quot64_def)
        moreover have "sgn ?c = 0 \<or> sgn ?c = -1" using c by (auto simp: sgn_if)
        ultimately have "quot64 ?c b \<le> 0" by auto
        then show False using q ab(1) by linarith
      qed
      then have "?c div b = a" using q ab(2) by (simp add: quot64_def)
      moreover have "?c div b * b \<le> ?c" using div_mult_mod_eq [of ?c b] pos_mod_sign [OF ab(2), of ?c] by linarith
      ultimately have "a * b \<le> ?c" by simp
      moreover have "0 \<le> a * b" using ab by simp
      ultimately show False using wrap64_less [of "a * b"] no by linarith
    qed
    then show ?thesis using no ab by (simp add: mulInt64_def Let_def)
  qed
qed

lemma addInt64_exact:
  assumes "0 \<le> a" and "a < 2 ^ 63" and "0 \<le> b" and "b < 2 ^ 63"
  shows "addInt64 a b = (if a + b < 2 ^ 63 then (a + b, True) else (0, False))"
proof (cases "a + b < 2 ^ 63")
  case True
  then have "wrap64 (a + b) = a + b" using assms by (intro wrap64_id) auto
  then show ?thesis using True assms by (simp add: addInt64_def)
next
  case False
  then have "(a + b + 2 ^ 63 - 2 ^ 64) mod 2 ^ 64 = a + b + 2 ^ 63 - 2 ^ 64"
    using assms by (intro mod_pos_pos_trivial) simp_all
  then have "(a + b + 2 ^ 63) mod 2 ^ 64 = a + b + 2 ^ 63 - 2 ^ 64" by (simp only: minus_mod_self2)
  then have "wrap64 (a + b) < a" using assms by (simp add: wrap64_def)
  then show ?thesis using False assms by (simp add: addInt64_def)
qed

text \<open>For a count of 32 bits and the two sizes of identifiers nothing overflows.\<close>

lemma idx_sizes:
  assumes "0 \<le> nr" and "nr < 2 ^ 32" and "sz \<in> {20, 32}"
  shows "minIdxV2Size nr sz = 1032 + 2 * sz + nr * (sz + 8)"
    "maxIdxV2Size nr sz = 1032 + 2 * sz + nr * (sz + 8) + 8 * (if nr = 0 then 0 else nr - 1)"
proof -
  have sz: "0 \<le> sz + 8" "sz + 8 \<le> 40" "wrap64 (sz + 4 + 4) = sz + 8" "wrap64 (8 + 256 * 4 + 2 * sz) = 1032 + 2 * sz"
    using assms(3) by (auto simp: wrap64_def)
  have m: "0 \<le> nr * (sz + 8)" "nr * (sz + 8) \<le> 2 ^ 32 * 40"
    using assms sz by (auto intro!: mult_mono)
  have mul: "mulInt64 nr (sz + 8) = (nr * (sz + 8), True)" using mulInt64_exact [of nr "sz + 8"] assms(1,2) sz m by simp
  have add: "addInt64 (1032 + 2 * sz) (nr * (sz + 8)) = (1032 + 2 * sz + nr * (sz + 8), True)"
    using addInt64_exact [of "1032 + 2 * sz" "nr * (sz + 8)"] assms(3) m by auto
  show min: "minIdxV2Size nr sz = 1032 + 2 * sz + nr * (sz + 8)" 
    unfolding minIdxV2Size_def Let_def sz mul prod.case add by simp
  have "mulInt64 (nr - 1) 8 = ((nr - 1) * 8, True)" if "nr \<noteq> 0" using mulInt64_exact [of "nr - 1" 8] assms(1,2) that by simp
  moreover have "addInt64 (1032 + 2 * sz + nr * (sz + 8)) ((nr - 1) * 8) = (1032 + 2 * sz + nr * (sz + 8) + (nr - 1) * 8, True)" if "nr \<noteq> 0"
    using addInt64_exact [of "1032 + 2 * sz + nr * (sz + 8)" "(nr - 1) * 8"] assms that m by auto
  moreover have "0 \<le> 1032 + 2 * sz + nr * (sz + 8)" using m(1) assms(3) by auto
  ultimately show "maxIdxV2Size nr sz = 1032 + 2 * sz + nr * (sz + 8) + 8 * (if nr = 0 then 0 else nr - 1)"
    unfolding maxIdxV2Size_def min by (cases "nr = 0") (simp_all add: Let_def)
qed


subsection \<open>Reading what was written\<close>

lemma be_uint_inj: "length a = length b \<Longrightarrow> be_uint a = be_uint b \<Longrightarrow> a = b"
proof (induction a b rule: list_induct2)
  case (Cons x xs y ys)
  let ?B = "256 ^ length ys :: nat"
  have l: "be_uint xs < ?B" "be_uint ys < ?B" using be_uint_less [of xs] be_uint_less [of ys] Cons.hyps by simp_all
  have eq: "unat x * ?B + be_uint xs = unat y * ?B + be_uint ys" using Cons.prems Cons.hyps by simp
  have "(unat x * ?B + be_uint xs) div ?B = unat x" "(unat x * ?B + be_uint xs) mod ?B = be_uint xs"
    "(unat y * ?B + be_uint ys) div ?B = unat y" "(unat y * ?B + be_uint ys) mod ?B = be_uint ys"
    using l by simp_all
  then have "unat x = unat y" "be_uint xs = be_uint ys" using eq by metis+
  then show ?case using Cons.IH by (simp add: word_unat_eq_iff)
qed simp

lemma be_bytes_be_uint: "be_bytes (length b) (be_uint b) = b"
  by (rule be_uint_inj) (simp_all add: be_uint_be_bytes be_uint_less)

lemma WriteUint_be:
  "length b = 4 \<Longrightarrow> WriteUint32 (be32 b) = b" "length c = 8 \<Longrightarrow> WriteUint64 (be64 c) = c"
proof -
  assume l: "length b = 4"
  then have "unat (be32 b) = be_uint b" using be_uint_less [of b] by (simp add: be32_def unat_of_nat take_bit_nat_eq_self)
  then show "WriteUint32 (be32 b) = b" using be_bytes_be_uint [of b] l by (simp add: WriteUint32_def del: be_bytes.simps)
next
  assume l: "length c = 8"
  then have "unat (be64 c) = be_uint c" using be_uint_less [of c] by (simp add: be64_def unat_of_nat take_bit_nat_eq_self)
  then show "WriteUint64 (be64 c) = c" using be_bytes_be_uint [of c] l by (simp add: WriteUint64_def del: be_bytes.simps)
qed

lemma ReadUint32_inv: "ReadUint32 r = Inr (n, r') \<Longrightarrow> r = WriteUint32 n @ r'"
proof -
  assume a: "ReadUint32 r = Inr (n, r')"
  then have l: "length r \<ge> 4" by (cases "length r \<ge> 4") (auto simp: ReadUint32_def read_full_def split: if_splits)
  then have "n = be32 (take 4 r)" "r' = drop 4 r" using a by (auto simp: ReadUint32_def read_full_def be32_def)
  then show ?thesis using WriteUint_be(1) [of "take 4 r"] l by simp
qed

text \<open>Bytes of the right lengths are the tables of some rows.\<close>

lemma rows_exist:
  "length A = n * sz \<Longrightarrow> length C = n * 4 \<Longrightarrow> length D = n * 4 \<Longrightarrow>
    \<exists>rows. length rows = n \<and> list_all (\<lambda>r. length (row_name r) = sz) rows \<and> names_of rows = A \<and> crcs_of rows = C \<and> ofs_of rows = D"
proof (induction n arbitrary: A C D)
  case 0
  then show ?case by (simp add: tables_append_rows)
next
  case (Suc n)
  obtain rows where rows: "length rows = n" "list_all (\<lambda>r. length (row_name r) = sz) rows" "names_of rows = drop sz A"
      "crcs_of rows = drop 4 C" "ofs_of rows = drop 4 D"
    using Suc.IH [of "drop sz A" "drop 4 C" "drop 4 D"] Suc.prems by auto
  let ?r = "(take sz A, be32 (take 4 C), be32 (take 4 D))"
  have "names_of (?r # rows) = A" "crcs_of (?r # rows) = C" "ofs_of (?r # rows) = D"
    using rows Suc.prems WriteUint_be(1) [of "take 4 C"] WriteUint_be(1) [of "take 4 D"]
    by (simp_all add: names_of_def crcs_of_def ofs_of_def)
  moreover have "list_all (\<lambda>r. length (row_name r) = sz) (?r # rows)" using rows(2) Suc.prems by simp
  ultimately show ?case using rows(1) by (intro exI [of _ "?r # rows"]) simp
qed

lemma o64_exist: "length B = n * 8 \<Longrightarrow> \<exists>o64. length o64 = n \<and> concat (map WriteUint64 o64) = B"
proof (induction n arbitrary: B)
  case (Suc n)
  obtain o64 where "length o64 = n" "concat (map WriteUint64 o64) = drop 8 B" using Suc.IH [of "drop 8 B"] Suc.prems by auto
  then show ?case using WriteUint_be(2) [of "take 8 B"] Suc.prems by (intro exI [of _ "be64 (take 8 B) # o64"]) simp
qed simp

text \<open>The slots, read back in order.\<close>

lemma slots_Cons:
  assumes "filter (\<lambda>p. p \<noteq> noMapping) (p # M) = map int [j..<n]" and "p \<noteq> noMapping"
  shows "j < n" "p = int j" "filter (\<lambda>p. p \<noteq> noMapping) M = map int [Suc j..<n]"
proof -
  have "map int [j..<n] = p # filter (\<lambda>p. p \<noteq> noMapping) M" using assms by simp
  moreover from this show jn: "j < n" by (cases "j < n") simp_all
  ultimately show "p = int j" "filter (\<lambda>p. p \<noteq> noMapping) M = map int [Suc j..<n]" by (simp_all add: upt_conv_Cons)
qed

lemma read_slots_eval:
  assumes "filter (\<lambda>p. p \<noteq> noMapping) M = map int [j..<length tab]" and "j \<le> length tab"
    and "map length bs = map length (drop j tab)"
  shows "read_slots M tab (concat bs @ rest) = Some (Inr (take j tab @ bs, rest))"
  using assms
proof (induction M arbitrary: j tab bs)
  case Nil
  then have "\<not> j < length tab" by (cases "j < length tab") simp_all
  then show ?case using Nil by simp
next
  case (Cons p M)
  show ?case
  proof (cases "p = noMapping")
    case True
    then show ?thesis using Cons by simp
  next
    case False
    note s = slots_Cons [OF Cons.prems(1) False]
    have "drop j tab = tab ! j # drop (Suc j) tab" using s(1) by (simp add: Cons_nth_drop_Suc)
    then obtain b bs' where bs: "bs = b # bs'" "length b = length (tab ! j)" "map length bs' = map length (drop (Suc j) tab)"
      using Cons.prems(3) by (cases bs) auto
    have "read_slots (p # M) tab (concat bs @ rest) = read_slots M (tab[j := b]) (concat bs' @ rest)"
      using False s(1,2) bs by (simp add: at_int_def index_def)
    also have "\<dots> = Some (Inr (take (Suc j) (tab[j := b]) @ bs', rest))"
      using Cons.IH [of "Suc j" "tab[j := b]" bs'] s(1,3) bs(3) by simp
    finally show ?thesis using s(1) bs(1) by (simp add: take_Suc_conv_app_nth)
  qed
qed

lemma read_slots_length:
  assumes "filter (\<lambda>p. p \<noteq> noMapping) M = map int [j..<length tab]"
  shows "\<exists>res. read_slots M tab r = Some res \<and> (\<forall>tab' r'. res = Inr (tab', r') \<longrightarrow> length r = length r' + sum_list (map length (drop j tab)))"
  using assms
proof (induction M arbitrary: j tab r)
  case Nil
  then have "\<not> j < length tab" by (cases "j < length tab") simp_all
  then show ?case by simp
next
  case (Cons p M)
  show ?case
  proof (cases "p = noMapping")
    case True
    then show ?thesis using Cons by simp
  next
    case False
    note s = slots_Cons [OF Cons.prems(1) False]
    have d: "drop j tab = tab ! j # drop (Suc j) tab" using s(1) by (simp add: Cons_nth_drop_Suc)
    show ?thesis
    proof (cases "read_full r (length (tab ! j))")
      case (Inl e)
      then show ?thesis using False s(1,2) by (simp add: at_int_def index_def)
    next
      case (Inr x)
      obtain b r1 where x: "x = (b, r1)" by (cases x)
      then have l: "length r = length r1 + length (tab ! j)" using Inr by (auto simp: read_full_def split: if_splits)
      have "read_slots (p # M) tab r = read_slots M (tab[j := b]) r1"
        using False s(1,2) Inr x by (simp add: at_int_def index_def)
      then show ?thesis using Cons.IH [of "Suc j" "tab[j := b]" r1] s(3) l d by auto
    qed
  qed
qed


lemma count_slots_tab:
  assumes "filter (\<lambda>p. p \<noteq> noMapping) M = map int [j..<length tab]"
  shows "count_slots M tab = sum_list (map count_o64 (drop j tab))"
  using assms
proof (induction M arbitrary: j)
  case Nil
  then have "\<not> j < length tab" by (cases "j < length tab") simp_all
  then show ?case by simp
next
  case (Cons p M)
  show ?case
  proof (cases "p = noMapping")
    case True
    then show ?thesis using Cons by simp
  next
    case False
    note s = slots_Cons [OF Cons.prems(1) False]
    then show ?thesis using Cons.IH [OF s(3)] False by (simp add: Cons_nth_drop_Suc [symmetric])
  qed
qed

lemma top_bit_byte: "0 < b AND push_bit 7 1 \<longleftrightarrow> bit b 7" for b :: byte
proof -
  have "push_bit 7 (1 :: byte) = 128" by (simp add: push_bit_of_1)
  then show ?thesis using byte_and_128_zero [of b] by (simp only: word_gt_0) simp
qed

lemma WriteUint32_top: "\<exists>b c. WriteUint32 w = b # c \<and> length c = 3 \<and> (bit b 7 \<longleftrightarrow> isO64 w)"
proof (intro exI conjI)
  have four: "(4 :: nat) = Suc 3" by simp
  show "WriteUint32 w = word_of_nat (unat w div 256 ^ 3) # be_bytes 3 (unat w)"
    unfolding WriteUint32_def four by (rule be_bytes.simps(2))
  show "length (be_bytes 3 (unat w)) = 3" by (rule length_be_bytes)
  have "unat w div 256 ^ 3 = drop_bit 24 (unat w)" by (simp add: drop_bit_eq_div)
  then show "bit (word_of_nat (unat w div 256 ^ 3) :: byte) 7 \<longleftrightarrow> isO64 w"
    by (simp only: isO64_def bit_of_nat_iff bit_drop_bit_eq comp_def) (simp add: bit_unsigned_iff)
qed

lemma count_o64_ofs: "count_o64 (ofs_of rs @ D) = length (filter (\<lambda>r. isO64 (row_ofs r)) rs) + count_o64 D"
proof (induction rs)
  case (Cons r rs)
  obtain b c where "WriteUint32 (row_ofs r) = b # c" "length c = 3" "bit b 7 \<longleftrightarrow> isO64 (row_ofs r)"
    using WriteUint32_top by blast
  then show ?case using Cons top_bit_byte [of b] by (simp add: ofs_of_def)
qed (simp add: ofs_of_def)


text \<open>The fan-out table.\<close>

definition rising :: "u32 list \<Rightarrow> bool" where
  "rising F \<longleftrightarrow> length F = 256 \<and> (\<forall>k. 0 < k \<longrightarrow> k < 256 \<longrightarrow> F ! (k - 1) \<le> F ! k)"

lemma rising_mono:
  assumes "rising F"
  shows "a \<le> b \<Longrightarrow> b < 256 \<Longrightarrow> F ! a \<le> F ! b"
proof (induction b)
  case (Suc b)
  show ?case
  proof (cases "a = Suc b")
    case False
    then have "F ! a \<le> F ! b" using Suc by simp
    moreover have "F ! b \<le> F ! Suc b" using assms Suc.prems(2) by (fastforce simp: rising_def)
    ultimately show ?thesis by (rule order_trans)
  qed simp
qed simp

lemma rising_fan_ok: "rising F \<longleftrightarrow> fan_ok F (unat (F ! 255))"
proof
  assume "rising F"
  then show "fan_ok F (unat (F ! 255))" using rising_mono [of F] by (auto simp: fan_ok_def rising_def simp flip: word_le_nat_alt)
next
  assume "fan_ok F (unat (F ! 255))"
  then show "rising F" by (simp add: fan_ok_def rising_def word_le_nat_alt)
qed

lemma readFanout_loop_eval:
  assumes G: "rising G"
  shows "n = 256 - b \<Longrightarrow> b \<le> 256 \<Longrightarrow> length (mi_Fanout idx) = 256 \<Longrightarrow> length (mi_FanoutMapping idx) = 256 \<Longrightarrow>
    take b (mi_Fanout idx) = take b G \<Longrightarrow>
    readFanout_loop [b..<256] (idx, concat (map WriteUint32 (drop b G)) @ rest) =
      Inr (idx\<lparr>mi_Fanout := G, mi_FanoutMapping := take b (mi_FanoutMapping idx) @ replicate (256 - b) noMapping\<rparr>, rest)"
proof (induction n arbitrary: b idx)
  case 0
  then have "b = 256" by simp
  then show ?case using 0 G by (simp add: rising_def)
next
  case (Suc n)
  have b: "b < 256" and len: "length G = 256" using Suc.prems G by (auto simp: rising_def)
  have d: "[b..<256] = b # [Suc b..<256]" "drop b G = G ! b # drop (Suc b) G"
    using b len by (simp_all add: upt_conv_Cons Cons_nth_drop_Suc)
  have p: "mi_Fanout idx ! (b - 1) = G ! (b - 1)" if "0 < b" using Suc.prems(5) that by (metis diff_less nth_take zero_less_one)
  let ?idx = "idx\<lparr>mi_Fanout := (mi_Fanout idx)[b := G ! b], mi_FanoutMapping := (mi_FanoutMapping idx)[b := noMapping]\<rparr>"
  have "readFanout_loop [b..<256] (idx, concat (map WriteUint32 (drop b G)) @ rest) =
      readFanout_loop [Suc b..<256] (?idx, concat (map WriteUint32 (drop (Suc b) G)) @ rest)"
  proof -
    have "\<not> (b > 0 \<and> G ! b < mi_Fanout idx ! (b - 1))"
      using rising_mono [OF G, of "b - 1" b] b p by (cases "b = 0") (simp_all add: not_less)
    then show ?thesis unfolding d by (auto simp: map_err_def uint_codecs simp del: One_nat_def)
  qed
  also have "\<dots> = Inr (?idx\<lparr>mi_Fanout := G, mi_FanoutMapping := take (Suc b) (mi_FanoutMapping ?idx) @ replicate (256 - Suc b) noMapping\<rparr>, rest)"
    by (rule Suc.IH) (use Suc.prems b len in \<open>auto simp: take_Suc_conv_app_nth\<close>)
  also have "256 - b = Suc (256 - Suc b)" using b by simp
  then have "take (Suc b) (mi_FanoutMapping ?idx) @ replicate (256 - Suc b) noMapping =
      take b (mi_FanoutMapping idx) @ replicate (256 - b) noMapping"
    using Suc.prems(4) b by (simp add: take_Suc_conv_app_nth)
  finally show ?case by simp
qed

lemma readFanout_loop_inv:
  "n = 256 - b \<Longrightarrow> b \<le> 256 \<Longrightarrow> length (mi_Fanout idx) = 256 \<Longrightarrow> (\<forall>k. 0 < k \<longrightarrow> k < b \<longrightarrow> mi_Fanout idx ! (k - 1) \<le> mi_Fanout idx ! k) \<Longrightarrow>
    readFanout_loop [b..<256] (idx, r) = Inr (idx', r') \<Longrightarrow>
    rising (mi_Fanout idx') \<and> take b (mi_Fanout idx') = take b (mi_Fanout idx) \<and> r = concat (map WriteUint32 (drop b (mi_Fanout idx'))) @ r'"
proof (induction n arbitrary: b idx r)
  case 0
  then have "b = 256" by simp
  then show ?case using 0 by (simp add: rising_def)
next
  case (Suc n)
  have b: "b < 256" using Suc.prems by auto
  then have d: "[b..<256] = b # [Suc b..<256]" by (simp add: upt_conv_Cons)
  obtain v r1 where rd: "ReadUint32 r = Inr (v, r1)" "\<not> (b > 0 \<and> v < mi_Fanout idx ! (b - 1))"
    and nx: "readFanout_loop [Suc b..<256]
      (idx\<lparr>mi_Fanout := (mi_Fanout idx)[b := v], mi_FanoutMapping := (mi_FanoutMapping idx)[b := noMapping]\<rparr>, r1) = Inr (idx', r')"
    using Suc.prems(5) unfolding d by (cases "ReadUint32 r") (auto simp: map_err_def split: if_splits)
  let ?idx = "idx\<lparr>mi_Fanout := (mi_Fanout idx)[b := v], mi_FanoutMapping := (mi_FanoutMapping idx)[b := noMapping]\<rparr>"
  have "mi_Fanout ?idx ! (k - 1) \<le> mi_Fanout ?idx ! k" if "0 < k" "k < Suc b" for k
    using Suc.prems(3,4) rd(2) b that by (cases "k = b") (auto simp: not_less)
  then have ih: "rising (mi_Fanout idx')" "take (Suc b) (mi_Fanout idx') = take (Suc b) ((mi_Fanout idx)[b := v])"
      "r1 = concat (map WriteUint32 (drop (Suc b) (mi_Fanout idx'))) @ r'"
    using Suc.IH [of "Suc b" ?idx r1] Suc.prems(1,3) b nx by auto
  have len: "length (mi_Fanout idx') = 256" using ih(1) by (simp add: rising_def)
  have "mi_Fanout idx' ! b = v" using arg_cong [OF ih(2), of "\<lambda>xs. xs ! b"] b Suc.prems(3) by simp
  moreover have "take b (mi_Fanout idx') = take b (mi_Fanout idx)" using arg_cong [OF ih(2), of "take b"] by simp
  moreover have "drop b (mi_Fanout idx') = mi_Fanout idx' ! b # drop (Suc b) (mi_Fanout idx')" using b len by (simp add: Cons_nth_drop_Suc)
  ultimately show ?case using ih ReadUint32_inv [OF rd(1)] by simp
qed


text \<open>The names, with the slots of the buckets.\<close>

lemma unat_bucket_count:
  assumes "fan_ok F n" and "k < 256"
  shows "unat (bucket_count F k) = unat (F ! k) - fan_lo F k"
proof (cases "k = 0")
  case False
  then have "F ! (k - 1) \<le> F ! k" using assms by (simp add: fan_ok_def word_le_nat_alt)
  then show ?thesis using False by (simp add: bucket_count_def fan_lo_def unat_sub)
qed (simp add: bucket_count_def fan_lo_def)

lemma unat_mult_small:
  fixes a :: u32
  assumes "unat a * m < 2 ^ 32"
  shows "unat (a * word_of_nat m) = unat a * m"
proof -
  have "a * word_of_nat m = word_of_nat (unat a * m)" by simp
  then show ?thesis using assms by (simp only: unat_of_nat) (simp add: take_bit_nat_eq_self)
qed

definition slot_map :: "u32 list \<Rightarrow> idx_row list \<Rightarrow> nat \<Rightarrow> nat \<Rightarrow> int list \<Rightarrow> int list" where
  "slot_map F rows n b M =
     map (\<lambda>c. if b \<le> c \<and> bucket F rows c \<noteq> [] then int (n + length (filter (\<lambda>b. bucket F rows b \<noteq> []) [b..<c])) else M ! c) [0..<256]"

lemma slot_map_skip:
  assumes "b < 256" and "bucket F rows b = []"
  shows "slot_map F rows n b M = slot_map F rows n (Suc b) M"
proof -
  have "[b..<c] = b # [Suc b..<c]" if "b < c" for c using that by (rule upt_conv_Cons)
  then show ?thesis using assms(2) unfolding slot_map_def by (intro map_cong refl) (auto simp: le_less Suc_le_eq)
qed

lemma slot_map_take:
  assumes "b < 256" and "bucket F rows b \<noteq> []" and "length M = 256"
  shows "slot_map F rows n b M = slot_map F rows (Suc n) (Suc b) (M[b := int n])"
proof -
  have "[b..<c] = b # [Suc b..<c]" if "b < c" for c using that by (rule upt_conv_Cons)
  then show ?thesis using assms unfolding slot_map_def by (intro map_cong refl) (auto simp: le_less Suc_le_eq nth_list_update)
qed

definition with_names :: "MemoryIndex \<Rightarrow> u32 list \<Rightarrow> idx_row list \<Rightarrow> nat \<Rightarrow> MemoryIndex" where
  "with_names idx F rows b =
     (let bs = filter (\<lambda>b. bucket F rows b \<noteq> []) [b..<256]; zeros = map (\<lambda>b. replicate (4 * length (bucket F rows b)) 0) bs in
      idx\<lparr>mi_FanoutMapping := slot_map F rows (length (mi_Names idx)) b (mi_FanoutMapping idx),
          mi_Names := mi_Names idx @ map (\<lambda>b. names_of (bucket F rows b)) bs,
          mi_Offset32 := mi_Offset32 idx @ zeros, mi_CRC32 := mi_CRC32 idx @ zeros\<rparr>)"

lemma bucket_small:
  assumes "fan_ok F (length rows)" and "b < 256" and "length rows * sz < 2 ^ 32" and "4 \<le> sz"
  shows "unat (bucket_count F b) = length (bucket F rows b)"
    "unat (bucket_count F b * word_of_nat sz) = length (bucket F rows b) * sz" "unat (bucket_count F b * 4) = 4 * length (bucket F rows b)"
proof -
  show n: "unat (bucket_count F b) = length (bucket F rows b)"
    using unat_bucket_count [OF assms(1,2)] length_bucket [OF assms(1,2)] by simp
  have "length (bucket F rows b) \<le> length rows" using length_bucket [OF assms(1,2)] fan_bounds(2) [OF assms(1,2)] by simp
  then have "length (bucket F rows b) * sz \<le> length rows * sz" by (rule mult_le_mono1)
  then have s: "length (bucket F rows b) * sz < 2 ^ 32" using assms(3) by linarith
  then show "unat (bucket_count F b * word_of_nat sz) = length (bucket F rows b) * sz" using unat_mult_small [of "bucket_count F b" sz] n by simp
  have "length (bucket F rows b) * 4 \<le> length (bucket F rows b) * sz" using assms(4) by (rule mult_le_mono2)
  then have "length (bucket F rows b) * 4 < 2 ^ 32" using s by linarith
  then show "unat (bucket_count F b * 4) = 4 * length (bucket F rows b)" using unat_mult_small [of "bucket_count F b" 4] n by simp
qed

lemma idSize_ge: "mi_objectIDSize idx \<in> {20, 32} \<Longrightarrow> 4 \<le> idSize idx"
  by (auto simp: idSize_def)

lemma readObjectNames_loop_eval:
  assumes fan: "fan_ok F (length rows)" and names: "list_all (\<lambda>r. length (row_name r) = sz) rows"
    and small: "length rows * sz < 2 ^ 32" "4 \<le> sz"
  shows "n = 256 - b \<Longrightarrow> b \<le> 256 \<Longrightarrow> mi_Fanout idx = F \<Longrightarrow> idSize idx = sz \<Longrightarrow> length (mi_FanoutMapping idx) = 256 \<Longrightarrow>
    readObjectNames_loop [b..<256] (idx, names_of (drop (fan_lo F b) rows) @ rest) = Inr (with_names idx F rows b, rest)"
proof (induction n arbitrary: b idx)
  case 0
  then have b: "b = 256" by simp
  have "slot_map F rows (length (mi_Names idx)) 256 (mi_FanoutMapping idx) = mi_FanoutMapping idx"
  proof -
    have "slot_map F rows (length (mi_Names idx)) 256 (mi_FanoutMapping idx) = map (\<lambda>c. mi_FanoutMapping idx ! c) [0..<256]"
      unfolding slot_map_def by (rule map_cong) auto
    then show ?thesis using map_nth [of "mi_FanoutMapping idx"] 0 by simp
  qed
  moreover have "fan_lo F 256 = length rows" using fan by (simp add: fan_lo_def fan_ok_def)
  ultimately show ?case by (simp add: b with_names_def tables_append_rows)
next
  case (Suc n)
  have b: "b < 256" and n: "n = 256 - Suc b" using Suc.prems by auto
  have d: "[b..<256] = b # [Suc b..<256]" using b by (simp add: upt_conv_Cons)
  let ?B = "bucket F rows b"
  note cnt = bucket_small [OF fan b small]
  have sp: "names_of (drop (fan_lo F b) rows) = names_of ?B @ names_of (drop (fan_lo F (Suc b)) rows)"
    using bucket_split [OF fan b] by (simp add: tables_append_rows)
  show ?case
  proof (cases "?B = []")
    case True
    then have "bucket_count F b = 0" using cnt(1) by (simp add: unat_eq_0)
    moreover have "with_names idx F rows b = with_names idx F rows (Suc b)"
      using True by (simp add: with_names_def slot_map_skip [OF b True] d Let_def)
    ultimately show ?thesis
      using Suc.IH [OF n] Suc.prems b True sp unfolding d by (simp add: tables_append_rows)
  next
    case False
    then have ne: "bucket_count F b \<noteq> 0" using cnt(1) by auto
    have len: "length (names_of ?B) = length ?B * sz"
      using names set_bucket [of F rows b] length_concat_fixed [of "\<lambda>r. row_name r" sz ?B] by (auto simp: names_of_def list_all_iff)
    let ?idx = "idx\<lparr>mi_FanoutMapping := (mi_FanoutMapping idx)[b := int (length (mi_Names idx))], mi_Names := mi_Names idx @ [names_of ?B],
        mi_Offset32 := mi_Offset32 idx @ [replicate (4 * length ?B) 0], mi_CRC32 := mi_CRC32 idx @ [replicate (4 * length ?B) 0]\<rparr>"
    have "readObjectNames_loop [b..<256] (idx, names_of (drop (fan_lo F b) rows) @ rest) =
        readObjectNames_loop [Suc b..<256] (?idx, names_of (drop (fan_lo F (Suc b)) rows) @ rest)"
      unfolding d sp using Suc.prems(3,4) ne len cnt(2,3) by (simp add: map_err_def Let_def)
    also have "\<dots> = Inr (with_names ?idx F rows (Suc b), rest)"
      by (rule Suc.IH [OF n]) (use Suc.prems b in \<open>auto simp: idSize_def\<close>)
    also have "with_names ?idx F rows (Suc b) = with_names idx F rows b"
      using False Suc.prems(5) by (simp add: with_names_def slot_map_take [OF b False] d Let_def)
    finally show ?thesis .
  qed
qed


lemma readObjectNames_loop_length:
  assumes fan: "fan_ok F nr" and small: "nr * sz < 2 ^ 32"
  shows "n = 256 - b \<Longrightarrow> b \<le> 256 \<Longrightarrow> mi_Fanout idx = F \<Longrightarrow> idSize idx = sz \<Longrightarrow>
    readObjectNames_loop [b..<256] (idx, r) = Inr (idx', r') \<Longrightarrow> length r = length r' + (nr - fan_lo F b) * sz"
proof (induction n arbitrary: b idx r)
  case 0
  then have "b = 256" by simp
  moreover have "fan_lo F 256 = nr" using fan by (simp add: fan_lo_def fan_ok_def)
  ultimately show ?case using 0 by simp
next
  case (Suc n)
  have b: "b < 256" and n: "n = 256 - Suc b" using Suc.prems by auto
  have d: "[b..<256] = b # [Suc b..<256]" using b by (simp add: upt_conv_Cons)
  note cnt = unat_bucket_count [OF fan b] and bd = fan_bounds [OF fan b]
  let ?c = "unat (F ! b) - fan_lo F b"
  have "?c * sz \<le> nr * sz" using bd by (intro mult_le_mono1) linarith
  then have "?c * sz < 2 ^ 32" using small by linarith
  then have m: "unat (bucket_count F b * word_of_nat sz) = ?c * sz" using unat_mult_small [of "bucket_count F b" sz] cnt by simp
  have sp: "(nr - fan_lo F b) * sz = ?c * sz + (nr - fan_lo F (Suc b)) * sz" using bd by (simp flip: add_mult_distrib)
  show ?case
  proof (cases "bucket_count F b = 0")
    case True
    then have "?c = 0" using cnt by simp
    then have "fan_lo F b = fan_lo F (Suc b)" using bd(1) by simp
    then show ?thesis using Suc.IH [OF n, of idx r] Suc.prems b True unfolding d by simp
  next
    case False
    then have "rbind (map_err IdxRead (read_full r (?c * sz))) (\<lambda>(bin, r).
          readObjectNames_loop [Suc b..<256]
            (idx\<lparr>mi_FanoutMapping := (mi_FanoutMapping idx)[b := int (length (mi_Names idx))], mi_Names := mi_Names idx @ [bin],
                 mi_Offset32 := mi_Offset32 idx @ [replicate (unat (bucket_count F b * 4)) 0],
                 mi_CRC32 := mi_CRC32 idx @ [replicate (unat (bucket_count F b * 4)) 0]\<rparr>, r)) = Inr (idx', r')"
      using Suc.prems(3-5) m unfolding d by (simp only: readObjectNames_loop.simps Let_def) simp
    then obtain bin r1 idx1 where rf: "read_full r (?c * sz) = Inr (bin, r1)"
      and i1: "idx1 = idx\<lparr>mi_FanoutMapping := (mi_FanoutMapping idx)[b := int (length (mi_Names idx))], mi_Names := mi_Names idx @ [bin],
                 mi_Offset32 := mi_Offset32 idx @ [replicate (unat (bucket_count F b * 4)) 0],
                 mi_CRC32 := mi_CRC32 idx @ [replicate (unat (bucket_count F b * 4)) 0]\<rparr>"
      and nx: "readObjectNames_loop [Suc b..<256] (idx1, r1) = Inr (idx', r')"
      by (cases "read_full r (?c * sz)") (auto simp: map_err_def)
    have "idSize idx1 = idSize idx" by (simp add: i1 idSize_def)
    then have "mi_Fanout idx1 = F" "idSize idx1 = sz" using Suc.prems(3,4) by (simp_all add: i1)
    then have "length r1 = length r' + (nr - fan_lo F (Suc b)) * sz" using Suc.IH [OF n _ _ _ nx] b by simp
    moreover have "length r = length r1 + ?c * sz" using rf by (auto simp: read_full_def split: if_splits)
    ultimately show ?thesis using sp by simp
  qed
qed

text \<open>The slots of a fresh index are numbered in the order of the buckets.\<close>

lemma filter_numbered:
  "filter (\<lambda>p. p \<noteq> noMapping) (map (\<lambda>c. if P c then int (length (filter P [0..<c])) else noMapping) [0..<m]) =
    map int [0..<length (filter P [0..<m])]"
  by (induction m) (simp_all add: noMapping_def)

lemma slot_map_fresh:
  "slot_map F rows 0 0 (replicate 256 noMapping) =
    map (\<lambda>c. if bucket F rows c \<noteq> [] then int (length (filter (\<lambda>b. bucket F rows b \<noteq> []) [0..<c])) else noMapping) [0..<256]"
  unfolding slot_map_def by (rule map_cong) auto

lemma filter_nth_numbered:
  assumes "P b" and "b < m"
  shows "length (filter P [0..<b]) < length (filter P [0..<m])" "filter P [0..<m] ! length (filter P [0..<b]) = b"
proof -
  have "[0..<m] = [0..<b] @ b # [Suc b..<m]" using assms(2) by (metis le_add_same_cancel1 less_imp_le upt_add_eq_append upt_conv_Cons le_add_diff_inverse zero_le)
  then have "filter P [0..<m] = filter P [0..<b] @ b # filter P [Suc b..<m]" using assms(1) by simp
  then show "length (filter P [0..<b]) < length (filter P [0..<m])" "filter P [0..<m] ! length (filter P [0..<b]) = b"
    by (simp_all add: nth_append)
qed


subsection \<open>The tables of a decoded index\<close>

text \<open>An index after its fan-out table was read, and with its tables.\<close>

definition blank :: "MemoryIndex \<Rightarrow> u32 list \<Rightarrow> bool" where
  "blank idx F \<longleftrightarrow> mi_Fanout idx = F \<and> mi_FanoutMapping idx = replicate 256 noMapping \<and> mi_Names idx = [] \<and> mi_Offset32 idx = [] \<and>
     mi_CRC32 idx = [] \<and> mi_Offset64 idx = [] \<and> mi_objectIDSize idx \<in> {20, 32}"

definition with_tables :: "MemoryIndex \<Rightarrow> u32 list \<Rightarrow> idx_row list \<Rightarrow> u64 list \<Rightarrow> MemoryIndex" where
  "with_tables idx F rows o64 =
     idx\<lparr>mi_FanoutMapping := slot_map F rows 0 0 (replicate 256 noMapping),
         mi_Names := map (\<lambda>b. names_of (bucket F rows b)) (full_buckets F rows),
         mi_Offset32 := map (\<lambda>b. ofs_of (bucket F rows b)) (full_buckets F rows),
         mi_CRC32 := map (\<lambda>b. crcs_of (bucket F rows b)) (full_buckets F rows), mi_Offset64 := concat (map WriteUint64 o64)\<rparr>"

definition rows_fit :: "u32 list \<Rightarrow> idx_row list \<Rightarrow> nat \<Rightarrow> bool" where
  "rows_fit F rows sz \<longleftrightarrow> fan_ok F (length rows) \<and> list_all (\<lambda>r. length (row_name r) = sz) rows \<and> length rows * sz < 2 ^ 32"

definition names_read :: "MemoryIndex \<Rightarrow> u32 list \<Rightarrow> idx_row list \<Rightarrow> MemoryIndex" where
  "names_read idx F rows = with_names idx F rows 0"

lemma names_read_fields:
  assumes "blank idx F"
  shows "mi_FanoutMapping (names_read idx F rows) = slot_map F rows 0 0 (replicate 256 noMapping)"
    "mi_Names (names_read idx F rows) = map (\<lambda>b. names_of (bucket F rows b)) (full_buckets F rows)"
    "mi_Offset32 (names_read idx F rows) = map (\<lambda>b. replicate (4 * length (bucket F rows b)) 0) (full_buckets F rows)"
    "mi_CRC32 (names_read idx F rows) = map (\<lambda>b. replicate (4 * length (bucket F rows b)) 0) (full_buckets F rows)"
    "mi_Offset64 (names_read idx F rows) = []"
  using assms by (simp_all add: names_read_def with_names_def full_buckets_def Let_def blank_def)

lemma fresh_slots:
  "filter (\<lambda>p. p \<noteq> noMapping) (slot_map F rows 0 0 (replicate 256 noMapping)) = map int [0..<length (full_buckets F rows)]"
  unfolding slot_map_fresh full_buckets_def by (rule filter_numbered)

lemma readObjectNames_eval:
  assumes "blank idx F" and "rows_fit F rows (idSize idx)"
  shows "readObjectNames (idx, names_of rows @ r) = Inr (names_read idx F rows, r)"
proof -
  have "4 \<le> idSize idx" using assms(1) by (intro idSize_ge) (simp add: blank_def)
  then show ?thesis
    using readObjectNames_loop_eval [of F rows "idSize idx" 256 0 idx r] assms
    by (simp add: readObjectNames_def names_read_def blank_def rows_fit_def fan_lo_def)
qed

lemma readCRC32_eval:
  assumes B: "blank idx F" and fan: "fan_ok F (length rows)"
  shows "readCRC32 (names_read idx F rows, crcs_of rows @ r) =
    Some (Inr ((names_read idx F rows)\<lparr>mi_CRC32 := map (\<lambda>b. crcs_of (bucket F rows b)) (full_buckets F rows)\<rparr>, r))"
proof -
  let ?bs = "map (\<lambda>b. crcs_of (bucket F rows b)) (full_buckets F rows)"
  have "read_slots (mi_FanoutMapping (names_read idx F rows)) (mi_CRC32 (names_read idx F rows)) (concat ?bs @ r) = Some (Inr (?bs, r))"
    using read_slots_eval [of "mi_FanoutMapping (names_read idx F rows)" 0 "mi_CRC32 (names_read idx F rows)" ?bs r] fresh_slots [of F rows]
    by (simp add: names_read_fields [OF B] comp_def)
  then show ?thesis by (simp add: readCRC32_def concat_full_buckets(3) [OF fan])
qed

lemma sum_count_buckets:
  "sum_list (map count_o64 (map (\<lambda>b. ofs_of (bucket F rows b)) bs)) =
    count_o64 (concat (map (\<lambda>b. ofs_of (bucket F rows b)) bs))"
proof (induction bs)
  case (Cons b bs)
  then show ?case
    using count_o64_ofs [of "bucket F rows b" "[]"] count_o64_ofs [of "bucket F rows b" "concat (map (\<lambda>b. ofs_of (bucket F rows b)) bs)"] by simp
qed simp

lemma readOffsets_step:
  assumes B: "blank idx F" and fan: "fan_ok F (length rows)" and cnt: "n = length (filter (\<lambda>r. isO64 (row_ofs r)) rows)"
    and idx1: "idx1 = (names_read idx F rows)\<lparr>mi_CRC32 := map (\<lambda>b. crcs_of (bucket F rows b)) (full_buckets F rows)\<rparr>"
  shows "readOffsets (idx1, ofs_of rows @ r) =
    Some (rbind (map_err IdxRead (read_full r (n * 8))) (\<lambda>(b, r). Inr ((with_tables idx F rows [])\<lparr>mi_Offset64 := b\<rparr>, r)))"
proof -
  let ?bs = "map (\<lambda>b. ofs_of (bucket F rows b)) (full_buckets F rows)"
  have f: "mi_FanoutMapping idx1 = slot_map F rows 0 0 (replicate 256 noMapping)"
      "mi_Offset32 idx1 = map (\<lambda>b. replicate (4 * length (bucket F rows b)) 0) (full_buckets F rows)"
    by (simp_all add: idx1 names_read_fields [OF B])
  have rs: "read_slots (mi_FanoutMapping idx1) (mi_Offset32 idx1) (concat ?bs @ r) = Some (Inr (?bs, r))"
    using read_slots_eval [of "mi_FanoutMapping idx1" 0 "mi_Offset32 idx1" ?bs r] fresh_slots [of F rows] by (simp add: f comp_def)
  have "count_slots (mi_FanoutMapping idx1) ?bs = count_o64 (ofs_of rows)"
    using count_slots_tab [of "mi_FanoutMapping idx1" 0 ?bs] fresh_slots [of F rows] sum_count_buckets [of F rows "full_buckets F rows"]
    by (simp add: f concat_full_buckets(2) [OF fan])
  then have c: "count_slots (mi_FanoutMapping idx1) ?bs = n" using count_o64_ofs [of rows "[]"] cnt by simp
  have eq: "idx1\<lparr>mi_Offset32 := ?bs\<rparr> = with_tables idx F rows []"
    using B by (cases idx) (simp add: idx1 names_read_def with_names_def with_tables_def full_buckets_def blank_def Let_def)
  have z: "(with_tables idx F rows [])\<lparr>mi_Offset64 := []\<rparr> = with_tables idx F rows []" by (simp add: with_tables_def)
  have "readOffsets (idx1, ofs_of rows @ r) = Some (if n > 0 then rbind (map_err IdxRead (read_full r (n * 8)))
      (\<lambda>(b, r). Inr ((with_tables idx F rows [])\<lparr>mi_Offset64 := b\<rparr>, r)) else Inr (with_tables idx F rows [], r))"
    using rs unfolding concat_full_buckets(2) [OF fan] by (simp add: readOffsets_def Let_def c eq)
  then show ?thesis using z by (simp add: map_err_def read_full_def)
qed

lemma with_tables_o64: "(with_tables idx F rows [])\<lparr>mi_Offset64 := concat (map WriteUint64 o64)\<rparr> = with_tables idx F rows o64"
  by (simp add: with_tables_def)

lemma readOffsets_eval:
  assumes "blank idx F" and "fan_ok F (length rows)" and "o64_exact rows o64"
    and "idx1 = (names_read idx F rows)\<lparr>mi_CRC32 := map (\<lambda>b. crcs_of (bucket F rows b)) (full_buckets F rows)\<rparr>"
  shows "readOffsets (idx1, ofs_of rows @ concat (map WriteUint64 o64) @ r) = Some (Inr (with_tables idx F rows o64, r))"
proof -
  have "length (concat (map WriteUint64 o64)) = length o64 * 8"
    using length_concat_fixed [OF WriteUint_fixed(2), of "\<lambda>x. x" o64] by simp
  then show ?thesis
    using readOffsets_step [OF assms(1,2) _ assms(4), of "length o64" "concat (map WriteUint64 o64) @ r"] assms(3)
    by (simp add: o64_exact_def map_err_def with_tables_o64)
qed

lemma readOffsets_inv:
  assumes "blank idx F" and "fan_ok F (length rows)"
    and "idx1 = (names_read idx F rows)\<lparr>mi_CRC32 := map (\<lambda>b. crcs_of (bucket F rows b)) (full_buckets F rows)\<rparr>"
    and r: "readOffsets (idx1, ofs_of rows @ r) = Some (Inr (idx2, r2))"
  obtains o64 where "o64_exact rows o64" "idx2 = with_tables idx F rows o64" "r = concat (map WriteUint64 o64) @ r2"
proof -
  let ?n = "length (filter (\<lambda>r. isO64 (row_ofs r)) rows)"
  define n where "n = ?n"
  define wt where "wt = with_tables idx F rows []"
  have e: "rbind (map_err IdxRead (read_full r (n * 8))) (\<lambda>(b, r). Inr (wt\<lparr>mi_Offset64 := b\<rparr>, r)) = Inr (idx2, r2)"
    using r unfolding readOffsets_step [OF assms(1,2) n_def assms(3)] wt_def by (simp only: option.inject)
  have l: "n * 8 \<le> length r"
  proof (rule ccontr)
    assume "\<not> n * 8 \<le> length r"
    then have "read_full r (n * 8) = Inl (if r = [] then EOF else ErrUnexpectedEOF)" by (simp add: read_full_def)
    with e show False by (simp add: map_err_def)
  qed
  then have s: "idx2 = wt\<lparr>mi_Offset64 := take (n * 8) r\<rparr>" "r2 = drop (n * 8) r"
    using e by (simp_all add: map_err_def read_full_def)
  obtain o64 where o: "length o64 = n" "concat (map WriteUint64 o64) = take (n * 8) r" using o64_exist [of "take (n * 8) r" n] l by auto
  have "idx2 = with_tables idx F rows o64" using with_tables_o64 [of o64 idx F rows] unfolding s(1) wt_def o(2) .
  moreover have "r = concat (map WriteUint64 o64) @ r2" unfolding o(2) s(2) by simp
  moreover have "o64_exact rows o64" using o(1) by (simp add: o64_exact_def n_def)
  ultimately show thesis using that by blast
qed

lemma with_tables_layout:
  assumes B: "blank idx F" and fit: "rows_fit F rows (idSize idx)"
  shows "layout (with_tables idx F rows o64) rows o64"
proof -
  let ?idx = "with_tables idx F rows o64"
  have M: "mi_FanoutMapping ?idx ! b = (if bucket F rows b \<noteq> [] then int (length (filter (\<lambda>b. bucket F rows b \<noteq> []) [0..<b])) else noMapping)"
    if "b < 256" for b using that by (simp add: with_tables_def slot_map_fresh)
  have "holds_bucket ?idx (length (filter (\<lambda>b. bucket F rows b \<noteq> []) [0..<b])) (bucket F rows b)" if "b < 256" "bucket F rows b \<noteq> []" for b
    using filter_nth_numbered [of "\<lambda>b. bucket F rows b \<noteq> []" b 256] that by (simp add: holds_bucket_def with_tables_def full_buckets_def)
  moreover have "mi_Fanout ?idx = F" "idSize ?idx = idSize idx" "length (mi_FanoutMapping ?idx) = 256"
    using B by (simp_all add: with_tables_def blank_def idSize_def slot_map_def)
  moreover have "mi_Offset64 ?idx = concat (map WriteUint64 o64)" by (simp add: with_tables_def)
  ultimately show ?thesis using fit M by (auto simp: layout_def rows_fit_def)
qed


subsection \<open>Decoding\<close>

lemma readFanout_eval:
  assumes "rising G" and "length (mi_Fanout idx) = 256" and "length (mi_FanoutMapping idx) = 256"
  shows "readFanout (idx, concat (map WriteUint32 G) @ r) = Inr (idx\<lparr>mi_Fanout := G, mi_FanoutMapping := replicate 256 noMapping\<rparr>, r)"
  using readFanout_loop_eval [OF assms(1), of 256 0 idx r] assms(2,3) by (simp add: readFanout_def)

lemma readFanout_inv:
  assumes "readFanout (idx, r) = Inr (idx', r')" and "length (mi_Fanout idx) = 256" and "length (mi_FanoutMapping idx) = 256"
  shows "rising (mi_Fanout idx')" "r = concat (map WriteUint32 (mi_Fanout idx')) @ r'"
    "idx' = idx\<lparr>mi_Fanout := mi_Fanout idx', mi_FanoutMapping := replicate 256 noMapping\<rparr>"
proof -
  have i: "rising (mi_Fanout idx') \<and> take 0 (mi_Fanout idx') = take 0 (mi_Fanout idx) \<and> r = concat (map WriteUint32 (drop 0 (mi_Fanout idx'))) @ r'"
    by (rule readFanout_loop_inv [of 256]) (use assms in \<open>simp_all add: readFanout_def\<close>)
  then show "rising (mi_Fanout idx')" and r: "r = concat (map WriteUint32 (mi_Fanout idx')) @ r'" by simp_all
  then show "idx' = idx\<lparr>mi_Fanout := mi_Fanout idx', mi_FanoutMapping := replicate 256 noMapping\<rparr>"
    using assms(1) readFanout_eval [OF _ assms(2,3), of "mi_Fanout idx'" r'] by simp
qed

lemma read_checksum_eval:
  assumes "length c = idSize idx" and "mi_objectIDSize idx \<in> {20, 32}" and "length (oid_hash d) = 32"
  shows "\<exists>e. read_checksum idx d (c @ r) = Inr (e, r) \<and> oid_Bytes e = c"
  using assms by (auto simp: read_checksum_def oid_ReadFrom_def ResetBySize_def oid_Size_def oid_Bytes_def idSize_def)

text \<open>What \<open>Decode\<close> starts from.\<close>

definition fresh :: "MemoryIndex \<Rightarrow> bool" where
  "fresh idx \<longleftrightarrow> length (mi_Fanout idx) = 256 \<and> length (mi_FanoutMapping idx) = 256 \<and> mi_Names idx = [] \<and> mi_Offset32 idx = [] \<and>
     mi_CRC32 idx = [] \<and> mi_Offset64 idx = [] \<and> mi_objectIDSize idx \<in> {20, 32} \<and> mi_offsetHash idx = None \<and> \<not> mi_built idx \<and>
     length (oid_hash (mi_PackfileChecksum idx)) = 32 \<and> length (oid_hash (mi_IdxChecksum idx)) = 32"

lemma NewMemoryIndex_fresh: "n \<in> {20, 32} \<Longrightarrow> fresh (NewMemoryIndex n)"
  by (simp add: fresh_def NewMemoryIndex_def ResetBySize_def ZeroHash_def)

definition fanned :: "MemoryIndex \<Rightarrow> u32 list \<Rightarrow> MemoryIndex" where
  "fanned idx F = idx\<lparr>mi_Version := VersionSupported, mi_Fanout := F, mi_FanoutMapping := replicate 256 noMapping\<rparr>"

lemma fanned_blank: "fresh idx \<Longrightarrow> blank (fanned idx F) F \<and> idSize (fanned idx F) = idSize idx"
  by (simp add: fresh_def blank_def fanned_def idSize_def)

lemma header_eval:
  assumes "fresh idx" and "rising F"
  shows "rbind (validateHeader (idxHeader @ WriteUint32 VersionSupported @ concat (map WriteUint32 F) @ r))
    (\<lambda>r. rbind (readVersion (idx, r)) readFanout) = Inr (fanned idx F, r)"
proof -
  have "length idxHeader = 4" by (simp add: idxHeader_def)
  then show ?thesis
    using readFanout_eval [OF assms(2), of "idx\<lparr>mi_Version := VersionSupported\<rparr>" r] assms(1)
    by (simp add: validateHeader_def readVersion_def map_err_def uint_codecs fresh_def fanned_def)
qed

lemma header_inv:
  assumes "fresh idx" and h: "rbind (validateHeader file) (\<lambda>r. rbind (readVersion (idx, r)) readFanout) = Inr (idx', r')"
  shows "\<exists>F. rising F \<and> idx' = fanned idx F \<and> file = idxHeader @ WriteUint32 VersionSupported @ concat (map WriteUint32 F) @ r'"
proof -
  obtain r1 where r1: "validateHeader file = Inr r1" "rbind (readVersion (idx, r1)) readFanout = Inr (idx', r')"
    using h by (auto simp: result_simps)
  then have f: "file = idxHeader @ r1"
    by (cases "read_full file 4") (auto simp: validateHeader_def map_err_def read_full_def split: if_splits, metis append_take_drop_id)
  obtain r2 where r2: "ReadUint32 r1 = Inr (VersionSupported, r2)" "readFanout (idx\<lparr>mi_Version := VersionSupported\<rparr>, r2) = Inr (idx', r')"
    using r1(2) by (cases "ReadUint32 r1") (auto simp: readVersion_def map_err_def split: if_splits)
  show ?thesis
    using readFanout_inv [OF r2(2)] assms(1) ReadUint32_inv [OF r2(1)] f
    by (intro exI [of _ "mi_Fanout idx'"]) (simp add: fresh_def fanned_def)
qed


lemma bindO_simps [simp]: "bindO (Some (Inr x)) f = f x" "bindO (Some (Inl e)) f = Some (Inl e)" "bindO None f = None"
  by (simp_all add: bindO_def)

lemma layout_checksums [simp]:
  "layout (idx\<lparr>mi_PackfileChecksum := c\<rparr>) rows o64 = layout idx rows o64" "layout (idx\<lparr>mi_IdxChecksum := c\<rparr>) rows o64 = layout idx rows o64"
  "idSize (idx\<lparr>mi_PackfileChecksum := c\<rparr>) = idSize idx" "idSize (idx\<lparr>mi_IdxChecksum := c\<rparr>) = idSize idx"
  by (simp_all add: layout_def holds_bucket_def idSize_def)

lemma with_tables_fields:
  "idSize (with_tables idx F rows o64) = idSize idx" "mi_Fanout (with_tables idx F rows o64) = mi_Fanout idx"
  "mi_objectIDSize (with_tables idx F rows o64) = mi_objectIDSize idx" "mi_offsetHash (with_tables idx F rows o64) = mi_offsetHash idx"
  "mi_built (with_tables idx F rows o64) = mi_built idx" "mi_PackfileChecksum (with_tables idx F rows o64) = mi_PackfileChecksum idx"
  "mi_IdxChecksum (with_tables idx F rows o64) = mi_IdxChecksum idx"
  by (simp_all add: with_tables_def idSize_def)

lemma fanned_fields:
  "mi_objectIDSize (fanned idx F) = mi_objectIDSize idx" "mi_offsetHash (fanned idx F) = mi_offsetHash idx" "mi_built (fanned idx F) = mi_built idx"
  "mi_PackfileChecksum (fanned idx F) = mi_PackfileChecksum idx" "mi_IdxChecksum (fanned idx F) = mi_IdxChecksum idx" "mi_Fanout (fanned idx F) = F"
  by (simp_all add: fanned_def)

lemma validate_iff:
  assumes "mi_objectIDSize idx \<in> {20, 32}" and "nr = unat (mi_Fanout idx ! 255)"
  shows "validateIdxV2Size idx n = (if int (1032 + 2 * idSize idx + nr * (idSize idx + 8)) \<le> n \<and>
      n \<le> int (1032 + 2 * idSize idx + nr * (idSize idx + 8) + 8 * (nr - 1)) then Inr () else Inl ErrMalformedIdxFile)"
proof -
  let ?nr = "uint (mi_Fanout idx ! 255)" and ?sz = "int (idSize idx)"
  have u: "?nr = int nr" "0 \<le> ?nr" "?nr < 2 ^ 32"
    using unsigned_less [of "mi_Fanout idx ! 255", where 'a = int] by (simp_all add: assms(2))
  have sz: "?sz \<in> {20, 32}" using assms(1) by (auto simp: idSize_def)
  define A where "A = 1032 + 2 * idSize idx + nr * (idSize idx + 8)"
  have "8 * (if ?nr = 0 then 0 else ?nr - 1) = int (8 * (nr - 1))" using u by auto
  then have "minIdxV2Size ?nr ?sz = int A" "maxIdxV2Size ?nr ?sz = int (A + 8 * (nr - 1))"
    using idx_sizes [OF u(2,3) sz] u(1) by (simp_all add: A_def)
  then show ?thesis unfolding validateIdxV2Size_def Let_def A_def [symmetric] by auto
qed

lemma oid_Compare_self: "oid_Bytes c = b \<Longrightarrow> oid_Compare c b = 0"
  by (simp add: oid_Compare_cases)

text \<open>What \<open>Decode\<close> makes of the file of some rows.\<close>

lemma Decode_file:
  assumes f: "fresh idx" and fit: "rows_fit F rows (idSize idx)" and o64: "o64_exact rows o64" "length o64 \<le> length rows - 1"
    and pack: "length pack = idSize idx" and h: "\<And>x. length (hsum x) = idSize idx"
  shows "\<exists>idx'. Decode hsum (int (length (idx_file hsum F rows o64 pack))) (idx_file hsum F rows o64 pack) idx = Some (Inr idx') \<and>
    layout idx' rows o64 \<and> mi_Fanout idx' = F \<and> oid_Bytes (mi_PackfileChecksum idx') = pack \<and> mi_objectIDSize idx' = mi_objectIDSize idx \<and>
    mi_offsetHash idx' = None \<and> \<not> mi_built idx'"
proof -
  let ?file = "idx_file hsum F rows o64 pack" and ?sz = "idSize idx" and ?i = "fanned idx F"
  let ?t = "with_tables ?i F rows o64" and ?sumb = "hsum (idx_body F rows o64 pack)"
  have sz: "mi_objectIDSize idx \<in> {20, 32}" using f by (simp add: fresh_def)
  have fan: "fan_ok F (length rows)" and nr: "unat (F ! 255) = length rows" using fit by (auto simp: rows_fit_def fan_ok_def)
  then have ris: "rising F" using rising_fan_ok by metis
  note B = fanned_blank [OF f, of F]
  have fit': "rows_fit F rows (idSize ?i)" using fit B by simp
  have o64l: "length (concat (map WriteUint64 o64)) = 8 * length o64"
    using length_concat_fixed [OF WriteUint_fixed(2), of "\<lambda>x. x" o64] by simp
  have fl: "length (concat (map WriteUint32 F)) = 1024"
    using length_concat_fixed [OF WriteUint_fixed(1), of "\<lambda>x. x" F] ris by (simp add: rising_def)
  have nl: "length (names_of rows) = length rows * ?sz"
    using length_concat_fixed [of "\<lambda>r. row_name r" ?sz rows] fit by (simp add: names_of_def rows_fit_def)
  have len: "length ?file = 1032 + 2 * ?sz + length rows * (?sz + 8) + 8 * length o64"
    using o64l fl nl pack h by (simp add: idx_file_def idx_body_def idxHeader_def algebra_simps)
  have val: "validateIdxV2Size ?i (int (length ?file)) = Inr ()"
    using validate_iff [of ?i "length rows" "int (length ?file)"] sz nr o64(2) B by (simp add: fanned_fields len)
  obtain c where c: "read_checksum ?t (mi_PackfileChecksum ?t) (pack @ ?sumb) = Inr (c, ?sumb)" "oid_Bytes c = pack"
    using read_checksum_eval [of pack ?t "mi_PackfileChecksum ?t" ?sumb] pack B sz f
    by (auto simp: with_tables_fields fanned_fields fresh_def)
  let ?u = "?t\<lparr>mi_PackfileChecksum := c\<rparr>"
  obtain d where d: "read_checksum ?u (mi_IdxChecksum ?u) ?sumb = Inr (d, [])" "oid_Bytes d = ?sumb"
    using read_checksum_eval [of ?sumb ?u "mi_IdxChecksum ?u" "[]"] h B sz f
    by (auto simp: with_tables_fields fanned_fields fresh_def)
  have tk: "take (length ?file - length ?sumb) ?file = idx_body F rows o64 pack" by (simp add: idx_file_def)
  let ?r4 = "pack @ ?sumb" let ?r3 = "concat (map WriteUint64 o64) @ ?r4"
  have file_eq: "?file = idxHeader @ WriteUint32 VersionSupported @ concat (map WriteUint32 F) @ names_of rows @ crcs_of rows @ ofs_of rows @ ?r3"
    by (simp add: idx_file_def idx_body_def)
  have hdr: "rbind (validateHeader ?file) (\<lambda>r. rbind (readVersion (idx, r)) readFanout) = Inr (?i, names_of rows @ crcs_of rows @ ofs_of rows @ ?r3)"
    unfolding file_eq by (rule header_eval [OF f ris])
  note nms = readObjectNames_eval [OF conjunct1 [OF B] fit', of "crcs_of rows @ ofs_of rows @ ?r3"]
  note crc = readCRC32_eval [OF conjunct1 [OF B] fan, of "ofs_of rows @ ?r3"]
  note ofs = readOffsets_eval [OF conjunct1 [OF B] fan o64(1) refl, of ?r4]
  have chk: "readPackChecksum (?t, ?r4) = Inr (?u, ?sumb)" "readIdxChecksum (?u, ?sumb) = Inr (?u\<lparr>mi_IdxChecksum := d\<rparr>, [])"
    using c(1) d(1) by (simp_all add: readPackChecksum_def readIdxChecksum_def)
  have "Decode hsum (int (length ?file)) ?file idx = Some (Inr (?u\<lparr>mi_IdxChecksum := d\<rparr>))"
    unfolding Decode_def hdr bindO_simps prod.case val nms crc ofs chk Let_def tk using oid_Compare_self [OF d(2)] by simp
  moreover have "layout (?u\<lparr>mi_IdxChecksum := d\<rparr>) rows o64" using with_tables_layout [OF conjunct1 [OF B] fit'] by simp
  ultimately show ?thesis using c(2) f by (simp add: with_tables_fields fanned_fields fresh_def)
qed


text \<open>The stages of the body, on any bytes: what they read has the length of the tables.\<close>

lemma sum_zeros:
  assumes "fan_ok F (length rows)"
  shows "sum_list (map length (map (\<lambda>b. replicate (4 * length (bucket F rows b)) (0 :: byte)) (full_buckets F rows))) = 4 * length rows"
proof -
  have "sum_list (map length (map (\<lambda>b. crcs_of (bucket F rows b)) (full_buckets F rows))) = length (crcs_of rows)"
    unfolding concat_full_buckets(3) [OF assms, symmetric] by (simp add: length_concat)
  then show ?thesis by (simp add: comp_def)
qed

lemma readCRC32_length:
  assumes B: "blank idx F" and fan: "fan_ok F (length rows)"
  shows "\<exists>res. readCRC32 (names_read idx F rows, r) = Some res \<and> (\<forall>idx' r'. res = Inr (idx', r') \<longrightarrow> length r = length r' + 4 * length rows)"
proof -
  let ?i = "names_read idx F rows"
  obtain res where res: "read_slots (mi_FanoutMapping ?i) (mi_CRC32 ?i) r = Some res"
      "\<forall>tab' r'. res = Inr (tab', r') \<longrightarrow> length r = length r' + sum_list (map length (drop 0 (mi_CRC32 ?i)))"
    using read_slots_length [of "mi_FanoutMapping ?i" 0 "mi_CRC32 ?i" r] fresh_slots [of F rows] names_read_fields(1,4) [OF B] by auto
  then show ?thesis
    using sum_zeros [OF fan] by (cases res) (auto simp: readCRC32_def names_read_fields(4) [OF B])
qed

lemma readOffsets_length:
  assumes B: "blank idx F" and fan: "fan_ok F (length rows)" and i: "idx1 = (names_read idx F rows)\<lparr>mi_CRC32 := tab\<rparr>"
  shows "\<exists>res. readOffsets (idx1, r) = Some res \<and> (\<forall>x. res = Inr x \<longrightarrow> 4 * length rows \<le> length r)"
proof -
  have f: "mi_FanoutMapping idx1 = mi_FanoutMapping (names_read idx F rows)" "mi_Offset32 idx1 = mi_Offset32 (names_read idx F rows)"
    by (simp_all add: i)
  obtain res where res: "read_slots (mi_FanoutMapping idx1) (mi_Offset32 idx1) r = Some res"
      "\<forall>tab' r'. res = Inr (tab', r') \<longrightarrow> length r = length r' + sum_list (map length (drop 0 (mi_Offset32 idx1)))"
    using read_slots_length [of "mi_FanoutMapping idx1" 0 "mi_Offset32 idx1" r] fresh_slots [of F rows] names_read_fields(1,3) [OF B]
    unfolding f by auto
  have l: "\<forall>tab' r'. res = Inr (tab', r') \<longrightarrow> 4 * length rows \<le> length r"
    using res(2) sum_zeros [OF fan] by (simp add: f names_read_fields(3) [OF B])
  show ?thesis
  proof (cases res)
    case (Inl e)
    then show ?thesis using res(1) by (simp add: readOffsets_def)
  next
    case (Inr x)
    then show ?thesis using res(1) l by (cases x) (simp add: readOffsets_def)
  qed
qed

lemma readCRC32_update:
  assumes "readCRC32 (idx, r) = Some (Inr (idx', r'))"
  shows "\<exists>tab. idx' = idx\<lparr>mi_CRC32 := tab\<rparr>"
proof -
  obtain res where "read_slots (mi_FanoutMapping idx) (mi_CRC32 idx) r = Some res" "map_sum id (\<lambda>(tab, r). (idx\<lparr>mi_CRC32 := tab\<rparr>, r)) res = Inr (idx', r')"
    using assms by (auto simp: readCRC32_def)
  then show ?thesis by (cases res) auto
qed

text \<open>The tables that the body reads, if it reads them.\<close>

lemma read_body:
  assumes B: "blank idx F" and fan: "fan_ok F nr" and small: "nr * idSize idx < 2 ^ 32"
    and n: "readObjectNames (idx, r) = Inr (idx1, r1)"
  shows "\<exists>res. readCRC32 (idx1, r1) = Some res \<and> (\<forall>idx2 r2. res = Inr (idx2, r2) \<longrightarrow>
    (\<exists>res. readOffsets (idx2, r2) = Some res \<and> (\<forall>idx3 r3. res = Inr (idx3, r3) \<longrightarrow>
       (\<exists>rows o64. rows_fit F rows (idSize idx) \<and> o64_exact rows o64 \<and> idx3 = with_tables idx F rows o64))))"
proof -
  let ?sz = "idSize idx"
  have l1: "length r = length r1 + nr * ?sz"
    using readObjectNames_loop_length [OF fan small, of 256 0 idx r idx1 r1] B n by (simp add: readObjectNames_def blank_def fan_lo_def)
  let ?A = "take (nr * ?sz) r"
  have names: "readObjectNames (idx, r) = Inr (names_read idx F rows, drop (nr * ?sz) r)"
    if "length rows = nr" "list_all (\<lambda>r. length (row_name r) = ?sz) rows" "names_of rows = ?A" for rows
    using readObjectNames_eval [OF B, of rows "drop (nr * ?sz) r"] that fan small by (simp add: rows_fit_def)
  obtain rows0 where r0: "length rows0 = nr" "list_all (\<lambda>r. length (row_name r) = ?sz) rows0" "names_of rows0 = ?A"
    using rows_exist [of ?A nr ?sz "replicate (nr * 4) 0" "replicate (nr * 4) 0"] l1 by auto
  have i1: "idx1 = names_read idx F rows0" "r1 = drop (nr * ?sz) r" using names [OF r0] n by auto
  have fan0: "fan_ok F (length rows0)" using fan r0(1) by simp
  obtain res where res: "readCRC32 (idx1, r1) = Some res" "\<forall>idx' r'. res = Inr (idx', r') \<longrightarrow> length r1 = length r' + 4 * nr"
    using readCRC32_length [OF B fan0, of r1] i1 r0(1) by auto
  have "\<exists>res2. readOffsets (idx2, r2) = Some res2 \<and> (\<forall>idx3 r3. res2 = Inr (idx3, r3) \<longrightarrow>
      (\<exists>rows o64. rows_fit F rows ?sz \<and> o64_exact rows o64 \<and> idx3 = with_tables idx F rows o64))" if inr: "res = Inr (idx2, r2)" for idx2 r2
  proof -
    have l2: "length r1 = length r2 + 4 * nr" using res(2) inr by simp
    obtain tab where "idx2 = idx1\<lparr>mi_CRC32 := tab\<rparr>" using readCRC32_update res(1) inr by blast
    then obtain res2 where res2: "readOffsets (idx2, r2) = Some res2" "\<forall>x. res2 = Inr x \<longrightarrow> 4 * nr \<le> length r2"
      using readOffsets_length [OF B fan0, of idx2 tab r2] i1(1) r0(1) by auto
    have "\<exists>rows o64. rows_fit F rows ?sz \<and> o64_exact rows o64 \<and> idx3 = with_tables idx F rows o64" if i3: "res2 = Inr (idx3, r3)" for idx3 r3
    proof -
      have l3: "4 * nr \<le> length r2" using res2(2) i3 by blast
      let ?C = "take (4 * nr) r1" and ?D = "take (4 * nr) (drop (4 * nr) r1)"
      obtain rows where rows: "length rows = nr" "list_all (\<lambda>r. length (row_name r) = ?sz) rows" "names_of rows = ?A"
          "crcs_of rows = ?C" "ofs_of rows = ?D"
        using rows_exist [of ?A nr ?sz ?C ?D] l1 l2 l3 by (auto simp: mult.commute)
      have fan1: "fan_ok F (length rows)" and fit: "rows_fit F rows ?sz" using fan rows(1,2) small by (simp_all add: rows_fit_def)
      have e1: "idx1 = names_read idx F rows" using names [OF rows(1-3)] n by simp
      let ?i2 = "(names_read idx F rows)\<lparr>mi_CRC32 := map (\<lambda>b. crcs_of (bucket F rows b)) (full_buckets F rows)\<rparr>"
      have "readCRC32 (idx1, r1) = Some (Inr (?i2, drop (4 * nr) r1))"
        using readCRC32_eval [OF B fan1, of "drop (4 * nr) r1"] rows(4) e1 by simp
      then have e2: "idx2 = ?i2" "r2 = ofs_of rows @ drop (4 * nr) (drop (4 * nr) r1)"
        using res(1) inr rows(5) by (simp_all only: option.inject sum.inject prod.inject append_take_drop_id)
      obtain o64 where "o64_exact rows o64" "idx3 = with_tables idx F rows o64"
        by (rule readOffsets_inv [OF B fan1 e2(1), of "drop (4 * nr) (drop (4 * nr) r1)" idx3 r3]) (use res2(1) i3 e2(2) in simp_all)
      then show ?thesis using fit by blast
    qed
    then show ?thesis using res2(1) by blast
  qed
  then show ?thesis using res(1) by blast
qed


text \<open>\<open>Decode\<close> returns on every file, and what it returns has a layout.\<close>

lemma checksum_update:
  "readPackChecksum (idx, r) = Inr (idx', r') \<Longrightarrow> \<exists>c. idx' = idx\<lparr>mi_PackfileChecksum := c\<rparr>"
  "readIdxChecksum (idx, r) = Inr (idx', r') \<Longrightarrow> \<exists>c. idx' = idx\<lparr>mi_IdxChecksum := c\<rparr>"
  by (auto simp: readPackChecksum_def readIdxChecksum_def result_simps)

lemma Decode_tail:
  assumes "layout idx rows o64"
  shows "\<exists>res. bindO (Some (readPackChecksum (idx, r))) (\<lambda>(idx, r).
       let actual = hsum (take (length file - length r) file) in
       bindO (Some (readIdxChecksum (idx, r))) (\<lambda>(idx, r).
         if oid_Compare (mi_IdxChecksum idx) actual \<noteq> 0 then Some (Inl ErrMalformedIdxFile)
         else Some (Inr idx))) = Some res \<and> (\<forall>idx'. res = Inr idx' \<longrightarrow> layout idx' rows o64)"
proof (cases "readPackChecksum (idx, r)")
  case (Inr x)
  obtain idx1 r1 where x: "x = (idx1, r1)" by (cases x)
  then have l: "layout idx1 rows o64" using checksum_update(1) Inr assms by fastforce
  show ?thesis
  proof (cases "readIdxChecksum (idx1, r1)")
    case (Inr y)
    obtain idx2 r2 where y: "y = (idx2, r2)" by (cases y)
    then have "layout idx2 rows o64" using checksum_update(2) Inr l by fastforce
    then show ?thesis using Inr y \<open>readPackChecksum (idx, r) = Inr x\<close> x by (simp add: Let_def)
  qed (use Inr x in \<open>simp add: Let_def\<close>)
qed simp

lemma Decode_total:
  assumes f: "fresh idx" and n: "n < 2 ^ 32"
  shows "\<exists>res. Decode hsum n file idx = Some res \<and> (\<forall>idx'. res = Inr idx' \<longrightarrow> (\<exists>rows o64. layout idx' rows o64))"
proof (cases "rbind (validateHeader file) (\<lambda>r. rbind (readVersion (idx, r)) readFanout)")
  case hdr: (Inr x)
  obtain idx1 r1 where x: "x = (idx1, r1)" by (cases x)
  obtain F where F: "rising F" "idx1 = fanned idx F" using header_inv [OF f] hdr x by blast
  note B = fanned_blank [OF f, of F]
  let ?nr = "unat (F ! 255)" and ?sz = "idSize idx"
  have fan: "fan_ok F ?nr" using F(1) by (simp add: rising_fan_ok)
  have size: "mi_objectIDSize idx1 \<in> {20, 32}" using f by (simp add: F(2) fanned_fields fresh_def)
  show ?thesis
  proof (cases "validateIdxV2Size idx1 n")
    case val: (Inr u)
    have "int (1032 + 2 * ?sz + ?nr * (?sz + 8)) \<le> n"
      using val validate_iff [OF size, of ?nr n] B F(2) by (simp add: fanned_fields split: if_splits)
    then have small: "?nr * ?sz < 2 ^ 32" using n by (simp add: algebra_simps flip: of_nat_mult)
    show ?thesis
    proof (cases "readObjectNames (idx1, r1)")
      case nms: (Inr y)
      obtain idx2 r2 where y: "y = (idx2, r2)" by (cases y)
      have "?nr * idSize idx1 < 2 ^ 32" using small B F(2) by simp
      from read_body [OF _ fan this] B F(2) nms y
      obtain res where crc: "readCRC32 (idx2, r2) = Some res" and nx: "\<forall>idx2 r2. res = Inr (idx2, r2) \<longrightarrow>
          (\<exists>res. readOffsets (idx2, r2) = Some res \<and> (\<forall>idx3 r3. res = Inr (idx3, r3) \<longrightarrow>
             (\<exists>rows o64. rows_fit F rows (idSize idx1) \<and> o64_exact rows o64 \<and> idx3 = with_tables idx1 F rows o64)))"
        by blast
      show ?thesis
      proof (cases res)
        case (Inl e)
        then show ?thesis using hdr x val nms y crc by (simp add: Decode_def)
      next
        case (Inr z)
        obtain idx3 r3 where z: "z = (idx3, r3)" by (cases z)
        obtain res2 where ofs: "readOffsets (idx3, r3) = Some res2" and nx2: "\<forall>idx4 r4. res2 = Inr (idx4, r4) \<longrightarrow>
            (\<exists>rows o64. rows_fit F rows (idSize idx1) \<and> o64_exact rows o64 \<and> idx4 = with_tables idx1 F rows o64)"
          using nx Inr z by blast
        show ?thesis
        proof (cases res2)
          case (Inl e)
          then show ?thesis using hdr x val nms y crc Inr z ofs \<open>res = Inr z\<close> by (simp add: Decode_def)
        next
          case inr2: (Inr v)
          obtain idx4 r4 where v: "v = (idx4, r4)" by (cases v)
          obtain rows o64 where "rows_fit F rows (idSize idx1)" "idx4 = with_tables idx1 F rows o64" using nx2 inr2 v by blast
          then have "layout idx4 rows o64" using with_tables_layout [of idx1 F rows o64] B F(2) by simp
          from Decode_tail [OF this, of r4 hsum "file"] show ?thesis
            using hdr x val nms y crc \<open>res = Inr z\<close> z ofs inr2 v by (simp add: Decode_def) blast
        qed
      qed
    qed (use hdr x val in \<open>simp add: Decode_def\<close>)
  qed (use hdr x in \<open>simp add: Decode_def\<close>)
qed (simp add: Decode_def)


subsection \<open>Properties\<close>

text \<open>
  \<^bold>\<open>C23\<close>. The guards against overflow in the size formula are exact: for any two \<open>int64\<close> values
  \<open>mulInt64\<close> and \<open>addInt64\<close> report success if and only if both are not negative and the product or sum
  fits, with the right value, and failure with the value zero for all others, although the machine
  operations that they use wrap.
\<close>

theorem overflow_guards_exact:
  assumes "- (2 ^ 63) \<le> a" and "a < 2 ^ 63" and "- (2 ^ 63) \<le> b" and "b < 2 ^ 63"
  shows "mulInt64 a b = (if 0 \<le> a \<and> 0 \<le> b \<and> a * b < 2 ^ 63 then (a * b, True) else (0, False)) \<and>
    addInt64 a b = (if 0 \<le> a \<and> 0 \<le> b \<and> a + b < 2 ^ 63 then (a + b, True) else (0, False))"
proof (cases "0 \<le> a \<and> 0 \<le> b")
  case True
  then show ?thesis using mulInt64_exact [of a b] addInt64_exact [of a b] assms by simp
next
  case False
  then have "a < 0 \<or> b < 0" by auto
  then show ?thesis unfolding mulInt64_def addInt64_def by auto
qed

theorem overflow_guards_exact_witness:
  "mulInt64 (2 ^ 32) (2 ^ 31) = (0, False) \<and> addInt64 (2 ^ 62) 5 = (2 ^ 62 + 5, True) \<and>
    mulInt64 (-1) (-1) = (0, False) \<and> addInt64 7 (-2) = (0, False)"
  using overflow_guards_exact [of "2 ^ 32" "2 ^ 31"] overflow_guards_exact [of "2 ^ 62" 5]
    overflow_guards_exact [of "-1" "-1"] overflow_guards_exact [of 7 "-2"] by simp

text \<open>
  \<^bold>\<open>C5\<close>. No file makes a lookup panic. For any bytes and any reported size below 4 GiB, \<open>Decode\<close> into a new
  index returns, with an error or with an index; and in that index, whatever the names, the fan-out
  table and the offsets of the file were, \<open>MayContain\<close>, \<open>Contains\<close>, \<open>FindOffset\<close> and \<open>FindCRC32\<close> return for every
  identifier: no slice or index expression is out of range.
\<close>

theorem decoded_index_safe:
  assumes "sz \<in> {20, 32}" and "idxSize < 2 ^ 32" and "oid_ok h"
  shows "\<exists>res. Decode hsum idxSize bs (NewMemoryIndex sz) = Some res \<and>
    (\<forall>idx. res = Inr idx \<longrightarrow> MayContain idx h \<noteq> None \<and> Contains idx h \<noteq> None \<and> FindOffset idx h \<noteq> None \<and> FindCRC32 idx h \<noteq> None)"
proof -
  obtain res where res: "Decode hsum idxSize bs (NewMemoryIndex sz) = Some res" "\<forall>idx'. res = Inr idx' \<longrightarrow> (\<exists>rows o64. layout idx' rows o64)"
    using Decode_total [OF NewMemoryIndex_fresh [OF assms(1)] assms(2)] by blast
  have "MayContain idx h \<noteq> None \<and> Contains idx h \<noteq> None \<and> FindOffset idx h \<noteq> None \<and> FindCRC32 idx h \<noteq> None"
    if L: "layout idx rows o64" for idx rows o64
  proof -
    obtain r where "lookup_result idx rows o64 h r" using lookups_return [OF L assms(3)] ..
    moreover have "MayContain idx h \<noteq> None"
      using first_byte_Some [OF assms(3)] layout_mapping [OF L] by (simp add: MayContain_def)
    ultimately show ?thesis by (auto simp: lookup_result_def Let_def)
  qed
  then show ?thesis using res by blast
qed

lemma oid_ok_ZeroHash: "oid_ok ZeroHash" by (simp add: ZeroHash_def)

theorem decoded_index_safe_witness:
  "oid_ok ZeroHash \<and> (\<exists>res. Decode (\<lambda>x. replicate 20 0) 0 [] (NewMemoryIndex 20) = Some res)"
  using decoded_index_safe [of 20 0 ZeroHash "\<lambda>x. replicate 20 0" "[]"] oid_ok_ZeroHash by auto


text \<open>The file of an index, decoded, shows the same entries.\<close>

lemma file_roundtrip:
  assumes L: "layout idx rows o64" and T: "table_shows (mi_Fanout idx) rows o64 es" and o64: "o64_exact rows o64" "length o64 \<le> length rows - 1"
    and sz: "mi_objectIDSize idx = sz" "sz \<in> {20, 32}" and small: "length es * 32 < 2 ^ 32" and v: "mi_Version idx = VersionSupported"
    and p: "length (oid_Bytes (mi_PackfileChecksum idx)) = sz" and c: "mi_IdxChecksum idx = ResetBySize ZeroHash sz"
    and h: "\<And>x. length (hsum x) = sz"
  obtains bs idx0 idx' where "Encode hsum idx = Some (Inr (bs, idx0))"
    "Decode hsum (int (length bs)) bs (NewMemoryIndex sz) = Some (Inr idx')" "mem_shows idx' es"
    "oid_Bytes (mi_PackfileChecksum idx') = oid_Bytes (mi_PackfileChecksum idx)"
proof -
  let ?F = "mi_Fanout idx" and ?pack = "oid_Bytes (mi_PackfileChecksum idx)"
  let ?bs = "idx_file hsum ?F rows o64 ?pack"
  have id: "idSize idx = sz" "idSize (NewMemoryIndex sz) = sz" "mi_objectIDSize (NewMemoryIndex sz) = sz"
    using sz by (auto simp: idSize_def NewMemoryIndex_def)
  have len: "length rows = length es" using T by (auto simp: table_shows_def dest: list_all2_lengthD)
  have "length rows * sz \<le> length es * 32" unfolding len using sz(2) by (intro mult_le_mono2) auto
  then have s: "length rows * sz < 2 ^ 32" using small by linarith
  have fit: "rows_fit ?F rows sz" using L id s by (simp add: rows_fit_def layout_def)
  have "length (hsum x) = oid_Size (mi_IdxChecksum idx)" for x using h sz(2) by (auto simp: c ResetBySize_def oid_Size_def)
  then obtain idx0 where e: "Encode hsum idx = Some (Inr (?bs, idx0))"
    using Encode_layout [OF L v, of hsum] by (auto simp: c ResetBySize_def ZeroHash_def)
  obtain idx' where d: "Decode hsum (int (length ?bs)) ?bs (NewMemoryIndex sz) = Some (Inr idx')" "layout idx' rows o64" "mi_Fanout idx' = ?F"
      "oid_Bytes (mi_PackfileChecksum idx') = ?pack" "mi_objectIDSize idx' = sz" "mi_offsetHash idx' = None" "\<not> mi_built idx'"
    using Decode_file [OF NewMemoryIndex_fresh [OF sz(2)], of ?F rows o64 ?pack hsum] fit o64 p h id by auto
  have "mem_shows idx' es"
    using d T sz(2) s len by (auto simp: mem_shows_def offsets_ok_def offset_lookup_def idSize_def)
  then show thesis using that e d(1,4) by blast
qed

text \<open>
  \<^bold>\<open>C4\<close>. From the packfile to the lookups, through the file: the writer observes the objects of a packfile
  (the first of them starts below 2 GiB), its index is encoded with a checksum function, the bytes are
  decoded into a new index, and a lookup there gives the offset and the checksum with which the object
  was added first, or the error if it was not added. The checksum of the packfile is the one of the
  footer.
\<close>

theorem index_pipeline:
  assumes adds: "\<forall>a \<in> set adds. oid_ok (fst a) \<and> oid_format (fst a) = oid_format c" and small: "length adds * 32 < 2 ^ 32"
    and first: "adds \<noteq> []" "\<not> IsZero (fst (hd adds))" "fst (snd (hd adds)) \<le> 0x7FFFFFFF" and c: "oid_ok c"
    and h: "\<And>x. length (hsum x) = oid_Size c"
  shows "\<exists>w idx bs idx0 idx'. OnFooter c (add_all adds (OnHeader n new_Writer)) = Some (Inr (), w) \<and> Writer_Index w = Some (Inr idx, w) \<and>
    Encode hsum idx = Some (Inr (bs, idx0)) \<and> Decode hsum (int (length bs)) bs (NewMemoryIndex (oid_Size c)) = Some (Inr idx') \<and>
    oid_Bytes (mi_PackfileChecksum idx') = oid_Bytes c \<and>
    (\<forall>h. oid_ok h \<longrightarrow> oid_format h = oid_format c \<longrightarrow> \<not> IsZero h \<longrightarrow>
       map_option fst (FindOffset idx' h) = Some (note_err IdxObjectNotFound (map_option fst (first_add adds h))) \<and>
       FindCRC32 idx' h = Some (note_err IdxObjectNotFound (map_option snd (first_add adds h))))"
proof -
  let ?w = "(add_all adds (OnHeader n new_Writer))\<lparr>w_checksum := c, w_finished := True\<rparr>"
  note ok = session_ok [OF adds small, of ?w n, OF refl]
  obtain idx w' where cr: "createIndex ?w = Some (Inr idx, w')" "w_index w' = Some idx" "mi_PackfileChecksum idx = c"
      "mi_Version idx = VersionSupported" "mi_IdxChecksum idx = ResetBySize ZeroHash (oid_Size c)"
      "\<exists>rows o64. layout idx rows o64 \<and> table_shows (mi_Fanout idx) rows o64 (sorted_objects ?w) \<and> o64_exact rows o64 \<and> long_rows rows (sorted_objects ?w)"
      "mi_objectIDSize idx = oid_Size c"
    by (rule createIndex_shows [OF ok(1)]) simp_all
  then obtain rows o64 where L: "layout idx rows o64" "table_shows (mi_Fanout idx) rows o64 (sorted_objects ?w)" "o64_exact rows o64"
      "long_rows rows (sorted_objects ?w)" by blast
  obtain a as where a: "adds = a # as" using first(1) by (cases adds) auto
  have "find (\<lambda>e. oid_Bytes (pe_Hash e) = oid_Bytes (fst a)) (sorted_objects ?w) = Some (entry_of a)"
    using ok(2) [of "fst a"] adds first(2) a by simp
  then have "entry_of a \<in> set (sorted_objects ?w)" by (auto simp: find_Some_iff)
  moreover have "pe_Offset (entry_of a) \<le> 0x7FFFFFFF" using first(3) a by (simp add: entry_of_def)
  ultimately have fewer: "length o64 \<le> length rows - 1" by (rule o64_fewer [OF L(3,4)])
  have sz: "oid_Size c \<in> {20, 32}" by (cases "oid_format c") (simp_all add: oid_Size_def)
  have small': "length (sorted_objects ?w) * 32 < 2 ^ 32" using ok(1) by (simp add: writer_ok_def sorted_objects_def)
  have p: "length (oid_Bytes (mi_PackfileChecksum idx)) = oid_Size c" using c cr(3) by (simp add: oid_ok_iff)
  obtain bs idx0 idx' where rt: "Encode hsum idx = Some (Inr (bs, idx0))"
      "Decode hsum (int (length bs)) bs (NewMemoryIndex (oid_Size c)) = Some (Inr idx')" "mem_shows idx' (sorted_objects ?w)"
      "oid_Bytes (mi_PackfileChecksum idx') = oid_Bytes (mi_PackfileChecksum idx)"
    by (rule file_roundtrip [OF L(1-3) fewer cr(7) sz small' cr(4) p cr(5) h])
  have "map_option fst (FindOffset idx' h) = Some (note_err IdxObjectNotFound (map_option fst (first_add adds h))) \<and>
      FindCRC32 idx' h = Some (note_err IdxObjectNotFound (map_option snd (first_add adds h)))"
    if h: "oid_ok h" "oid_format h = oid_format c" "\<not> IsZero h" for h
    using mem_index.offset_find [OF rt(3), of h] mem_index.crc_find [OF rt(3), of h] ok(2) [OF h] h(1)
    by (simp add: mem_fits_def first_add_def entry_of_def option.map_comp comp_def)
  then show ?thesis using cr(1-3) rt by (simp add: OnFooter_def Writer_Index_def)
qed


theorem index_pipeline_witness:
  "\<exists>w idx bs idx0 idx'. OnFooter ZeroHash (add_all [(one_hash, 12, 7), (one_hash, 99, 8)] (OnHeader 2 new_Writer)) = Some (Inr (), w) \<and>
    Writer_Index w = Some (Inr idx, w) \<and> Encode (\<lambda>x. replicate 20 0) idx = Some (Inr (bs, idx0)) \<and>
    Decode (\<lambda>x. replicate 20 0) (int (length bs)) bs (NewMemoryIndex 20) = Some (Inr idx') \<and>
    map_option fst (FindOffset idx' one_hash) = Some (Inr 12) \<and> FindCRC32 idx' one_hash = Some (Inr 7)"
proof -
  have z: "oid_Size ZeroHash = 20" "oid_format ZeroHash = UnsetObjectFormat" by (simp_all add: oid_Size_def ZeroHash_def)
  obtain w idx bs idx0 idx' where
      "OnFooter ZeroHash (add_all [(one_hash, 12, 7), (one_hash, 99, 8)] (OnHeader 2 new_Writer)) = Some (Inr (), w)"
      "Writer_Index w = Some (Inr idx, w)" "Encode (\<lambda>x. replicate 20 0) idx = Some (Inr (bs, idx0))"
      "Decode (\<lambda>x. replicate 20 0) (int (length bs)) bs (NewMemoryIndex 20) = Some (Inr idx')"
      "\<forall>h. oid_ok h \<longrightarrow> oid_format h = oid_format ZeroHash \<longrightarrow> \<not> IsZero h \<longrightarrow>
         map_option fst (FindOffset idx' h) = Some (note_err IdxObjectNotFound (map_option fst (first_add [(one_hash, 12, 7), (one_hash, 99, 8)] h))) \<and>
         FindCRC32 idx' h = Some (note_err IdxObjectNotFound (map_option snd (first_add [(one_hash, 12, 7), (one_hash, 99, 8)] h)))"
    using index_pipeline [of "[(one_hash, 12, 7), (one_hash, 99, 8)]" ZeroHash "\<lambda>x. replicate 20 0" 2] one_hash_facts oid_ok_ZeroHash z
    by auto
  moreover from spec [OF this(5), of one_hash] have "map_option fst (FindOffset idx' one_hash) = Some (Inr 12) \<and> FindCRC32 idx' one_hash = Some (Inr 7)"
    using one_hash_facts z by (simp add: first_add_def)
  ultimately show ?thesis by blast
qed

end
