(* ===== verification/Rev_Index.thy ===== *)
theory Rev_Index
  imports Index_Iterators Index_Codec
begin

text \<open>
  Reverse indexes: \<open>plumbing/format/revfile\<close>. A reverse index lists the positions of the entries of a pack
  index in the order of their offsets in the packfile. Encoder and decoder are the state machines of the
  source; the decoder sends the positions to a channel, here the list of what was sent. The hash
  function is an argument, by its size. What the encoder writes for an index, the decoder reads back:
  the positions, in the order of the offsets.
\<close>

subsection \<open>Encoding\<close>

datatype rev_error =
    RevRead varint_error | RevUnsupportedVersion | ErrMalformedRevFile | ErrUnsupportedHashFunction | ErrEmptyReverseIndex
  | RevIndex idx_error

definition revHeader :: bytes where "revHeader = [0x52, 0x49, 0x44, 0x58]"
definition rev_VersionSupported :: u32 where "rev_VersionSupported = 1"
definition sha1Hash :: u32 where "sha1Hash = 1"
definition sha256Hash :: u32 where "sha256Hash = 2"

record rev_encoder =
  re_out :: bytes
  re_entries :: "u32 list"
  re_packChecksum :: ObjectID

text \<open>The loop over all entries; it has no bound of its own.\<close>

partial_function (option) offset_positions ::
  "MemoryIndex \<Rightarrow> idxfileEntryIter \<Rightarrow> u32 \<Rightarrow> (u64 \<rightharpoonup> u32) \<Rightarrow> (idx_error + (u64 \<rightharpoonup> u32)) option" where
  "offset_positions idx i pos m =
     Option.bind (EntryIter_Next idx i) (\<lambda>(r, i).
       case r of
         Inl err \<Rightarrow> Some (if err = IdxEOF then Inr m else Inl err)
       | Inr e \<Rightarrow> offset_positions idx i (pos + 1) (m(pe_Offset e \<mapsto> pos)))"

text \<open>A key that is not in the map gives zero.\<close>

definition position_at :: "(u64 \<rightharpoonup> u32) \<Rightarrow> u64 \<Rightarrow> u32" where
  "position_at m off = (case m off of None \<Rightarrow> 0 | Some p \<Rightarrow> p)"

definition buildReverseIndex :: "MemoryIndex \<Rightarrow> (idx_error + u32 list \<times> ObjectID) option" where
  "buildReverseIndex idx =
     bindO (offset_positions idx Entries 0 Map.empty) (\<lambda>offsetToPos.
     bindO (EntriesByOffset idx) (\<lambda>entries.
       Some (Inr (map (\<lambda>e. position_at offsetToPos (pe_Offset e)) entries, mi_PackfileChecksum idx))))"

datatype rev_stateFnEncode = rwHeader | rwVersion | rwHashFunction | rwEntries | rwPackChecksum | rwRevChecksum

fun rev_enc_step :: "(bytes \<Rightarrow> bytes) \<Rightarrow> nat \<Rightarrow> rev_stateFnEncode \<Rightarrow> rev_encoder \<Rightarrow> rev_stateFnEncode option \<times> rev_encoder" where
  "rev_enc_step hsum hsize rwHeader e = (Some rwVersion, e\<lparr>re_out := re_out e @ revHeader\<rparr>)"
| "rev_enc_step hsum hsize rwVersion e = (Some rwHashFunction, e\<lparr>re_out := re_out e @ WriteUint32 rev_VersionSupported\<rparr>)"
| "rev_enc_step hsum hsize rwHashFunction e =
     (let hf = (if hsize = 32 then sha256Hash else sha1Hash) in (Some rwEntries, e\<lparr>re_out := re_out e @ WriteUint32 hf\<rparr>))"
| "rev_enc_step hsum hsize rwEntries e = (Some rwPackChecksum, e\<lparr>re_out := re_out e @ concat (map WriteUint32 (re_entries e))\<rparr>)"
| "rev_enc_step hsum hsize rwPackChecksum e = (Some rwRevChecksum, e\<lparr>re_out := re_out e @ oid_Bytes (re_packChecksum e)\<rparr>)"
| "rev_enc_step hsum hsize rwRevChecksum e = (None, e\<lparr>re_out := re_out e @ hsum (re_out e)\<rparr>)"

fun rev_enc_run :: "(bytes \<Rightarrow> bytes) \<Rightarrow> nat \<Rightarrow> nat \<Rightarrow> rev_stateFnEncode \<Rightarrow> rev_encoder \<Rightarrow> rev_encoder option" where
  "rev_enc_run hsum hsize 0 st e = None"
| "rev_enc_run hsum hsize (Suc n) st e =
     (case rev_enc_step hsum hsize st e of (None, e) \<Rightarrow> Some e | (Some st, e) \<Rightarrow> rev_enc_run hsum hsize n st e)"

definition rev_Encode :: "(bytes \<Rightarrow> bytes) \<Rightarrow> nat \<Rightarrow> MemoryIndex \<Rightarrow> (idx_error + bytes) option" where
  "rev_Encode hsum hsize idx =
     bindO (buildReverseIndex idx) (\<lambda>(entries, checksum).
       map_option (\<lambda>e. Inr (re_out e))
         (rev_enc_run hsum hsize 6 rwHeader \<lparr>re_out = [], re_entries = entries, re_packChecksum = checksum\<rparr>))"

subsection \<open>Decoding\<close>

text \<open>\<open>rd_hashed\<close> is what was written to the hash; \<open>rd_out\<close> is what was sent.\<close>

record rev_decoder =
  rd_reader :: bytes
  rd_hasher :: nat
  rd_hashed :: bytes
  rd_version :: u32
  rd_objCount :: nat
  rd_packChecksum :: ObjectID
  rd_out :: "u32 list"

datatype rev_stateFn = rrMagicNumber | rrVersion | rrHashFunction | rrEntries | rrPackChecksum | rrRevChecksum

definition readMagicNumber :: "rev_decoder \<Rightarrow> (rev_error + rev_stateFn option) \<times> rev_decoder" where
  "readMagicNumber d =
     (case read_full (rd_reader d) 4 of
        Inl e \<Rightarrow> (Inl (RevRead e), d\<lparr>rd_reader := []\<rparr>)
      | Inr (h, r) \<Rightarrow> (if h \<noteq> revHeader then Inl ErrMalformedRevFile else Inr (Some rrVersion), d\<lparr>rd_reader := r\<rparr>))"

definition rev_readVersion :: "rev_decoder \<Rightarrow> (rev_error + rev_stateFn option) \<times> rev_decoder" where
  "rev_readVersion d =
     (case ReadUint32 (rd_reader d) of
        Inl e \<Rightarrow> (Inl (RevRead e), d\<lparr>rd_reader := []\<rparr>)
      | Inr (v, r) \<Rightarrow>
          if v \<noteq> rev_VersionSupported then (Inl RevUnsupportedVersion, d\<lparr>rd_reader := r\<rparr>)
          else (Inr (Some rrHashFunction), d\<lparr>rd_reader := r, rd_version := v\<rparr>))"

definition readHashFunction :: "rev_decoder \<Rightarrow> (rev_error + rev_stateFn option) \<times> rev_decoder" where
  "readHashFunction d =
     (case ReadUint32 (rd_reader d) of
        Inl e \<Rightarrow> (Inl (RevRead e), d\<lparr>rd_reader := []\<rparr>)
      | Inr (hf, r) \<Rightarrow>
          if hf \<noteq> sha1Hash \<and> hf \<noteq> sha256Hash then (Inl ErrUnsupportedHashFunction, d\<lparr>rd_reader := r\<rparr>)
          else (Inr (Some rrEntries), d\<lparr>rd_reader := r, rd_hasher := (if hf = sha1Hash then 20 else 32),
                  rd_hashed := revHeader @ WriteUint32 (rd_version d) @ WriteUint32 hf\<rparr>))"

fun readEntries_loop :: "nat \<Rightarrow> rev_decoder \<Rightarrow> (rev_error + rev_stateFn option) \<times> rev_decoder" where
  "readEntries_loop 0 d = (Inr (Some rrPackChecksum), d)"
| "readEntries_loop (Suc n) d =
     (case ReadUint32 (rd_reader d) of
        Inl e \<Rightarrow> (Inl (if e = EOF then ErrMalformedRevFile else RevRead e), d\<lparr>rd_reader := []\<rparr>)
      | Inr (p, r) \<Rightarrow> readEntries_loop n (d\<lparr>rd_reader := r, rd_out := rd_out d @ [p], rd_hashed := rd_hashed d @ WriteUint32 p\<rparr>))"

definition readEntries :: "rev_decoder \<Rightarrow> (rev_error + rev_stateFn option) \<times> rev_decoder" where
  "readEntries d = (if rd_objCount d = 0 then (Inl ErrEmptyReverseIndex, d) else readEntries_loop (rd_objCount d) d)"

definition read_sum :: "rev_decoder \<Rightarrow> (rev_error + ObjectID) \<times> rev_decoder" where
  "read_sum d =
     (case oid_ReadFrom (ResetBySize ZeroHash (rd_hasher d)) (rd_reader d) of
        (c, None, _) \<Rightarrow> (Inl (RevRead (if rd_reader d = [] then EOF else ErrUnexpectedEOF)), d\<lparr>rd_reader := []\<rparr>)
      | (c, Some n, r) \<Rightarrow> (if n \<noteq> rd_hasher d then Inl ErrMalformedRevFile else Inr c, d\<lparr>rd_reader := r\<rparr>))"

definition rev_readPackChecksum :: "rev_decoder \<Rightarrow> (rev_error + rev_stateFn option) \<times> rev_decoder" where
  "rev_readPackChecksum d =
     (case read_sum d of
        (Inl e, d) \<Rightarrow> (Inl e, d)
      | (Inr pack, d) \<Rightarrow>
          if oid_Compare pack (oid_Bytes (rd_packChecksum d)) \<noteq> 0 then (Inl ErrMalformedRevFile, d)
          else (Inr (Some rrRevChecksum), d\<lparr>rd_hashed := rd_hashed d @ oid_Bytes pack\<rparr>))"

definition readRevChecksum :: "(nat \<Rightarrow> bytes \<Rightarrow> bytes) \<Rightarrow> rev_decoder \<Rightarrow> (rev_error + rev_stateFn option) \<times> rev_decoder" where
  "readRevChecksum hsum d =
     (case read_sum d of
        (Inl e, d) \<Rightarrow> (Inl e, d)
      | (Inr c, d) \<Rightarrow>
          if oid_Compare c (hsum (rd_hasher d) (rd_hashed d)) \<noteq> 0 then (Inl ErrMalformedRevFile, d)
          else if rd_reader d \<noteq> [] then (Inl ErrMalformedRevFile, d)
          else (Inr None, d))"

fun rev_dec_step :: "(nat \<Rightarrow> bytes \<Rightarrow> bytes) \<Rightarrow> rev_stateFn \<Rightarrow> rev_decoder \<Rightarrow> (rev_error + rev_stateFn option) \<times> rev_decoder" where
  "rev_dec_step hsum rrMagicNumber d = readMagicNumber d"
| "rev_dec_step hsum rrVersion d = rev_readVersion d"
| "rev_dec_step hsum rrHashFunction d = readHashFunction d"
| "rev_dec_step hsum rrEntries d = readEntries d"
| "rev_dec_step hsum rrPackChecksum d = rev_readPackChecksum d"
| "rev_dec_step hsum rrRevChecksum d = readRevChecksum hsum d"

fun rev_rank :: "rev_stateFn \<Rightarrow> nat" where
  "rev_rank rrMagicNumber = 5"
| "rev_rank rrVersion = 4"
| "rev_rank rrHashFunction = 3"
| "rev_rank rrEntries = 2"
| "rev_rank rrPackChecksum = 1"
| "rev_rank rrRevChecksum = 0"

text \<open>The next state is always a later one, so the loop over the states ends.\<close>

lemma readEntries_loop_next: "fst (readEntries_loop n d) = Inr (Some st) \<Longrightarrow> st = rrPackChecksum"
proof (induction n arbitrary: d)
  case (Suc n)
  then show ?case by (cases "ReadUint32 (rd_reader d)") auto
qed simp

lemma rev_dec_step_next:
  assumes "rev_dec_step hsum st d = (Inr (Some st'), d')"
  shows "rev_rank st' < rev_rank st"
proof (cases st)
  case rrEntries
  then show ?thesis using assms readEntries_loop_next [of "rd_objCount d" d st'] by (auto simp: readEntries_def split: if_splits)
qed (use assms in \<open>auto simp: readMagicNumber_def rev_readVersion_def readHashFunction_def rev_readPackChecksum_def
        readRevChecksum_def split: sum.splits prod.splits if_splits\<close>)

function rev_dec_run :: "(nat \<Rightarrow> bytes \<Rightarrow> bytes) \<Rightarrow> rev_stateFn \<Rightarrow> rev_decoder \<Rightarrow> (rev_error + unit) \<times> rev_decoder" where
  "rev_dec_run hsum st d =
     (case rev_dec_step hsum st d of
        (Inl e, d) \<Rightarrow> (Inl e, d)
      | (Inr None, d) \<Rightarrow> (Inr (), d)
      | (Inr (Some st), d) \<Rightarrow> rev_dec_run hsum st d)"
  by pat_completeness auto
termination
  by (relation "measure (\<lambda>(hsum, st, d). rev_rank st)") (auto dest: rev_dec_step_next [OF sym])

declare rev_dec_run.simps [simp del]

definition rev_Decode :: "(nat \<Rightarrow> bytes \<Rightarrow> bytes) \<Rightarrow> bytes \<Rightarrow> nat \<Rightarrow> ObjectID \<Rightarrow> (rev_error + unit) \<times> u32 list" where
  "rev_Decode hsum r objCount packChecksum =
     map_prod id rd_out (rev_dec_run hsum rrMagicNumber
       \<lparr>rd_reader = r, rd_hasher = 0, rd_hashed = [], rd_version = 0, rd_objCount = objCount, rd_packChecksum = packChecksum, rd_out = []\<rparr>)"


subsection \<open>The positions in the order of the offsets\<close>

definition rev_positions :: "Entry list \<Rightarrow> u32 list \<Rightarrow> bool" where
  "rev_positions es ps \<longleftrightarrow> list_all (\<lambda>p. unat p < length es) ps \<and> map (\<lambda>p. pe_Offset (es ! unat p)) ps = sort (map pe_Offset es)"

lemma rev_positions_length:
  assumes "rev_positions es ps"
  shows "length ps = length es"
proof -
  have "length (map (\<lambda>p. pe_Offset (es ! unat p)) ps) = length (sort (map pe_Offset es))"
    using assms by (simp only: rev_positions_def)
  then show ?thesis by simp
qed

lemma offset_positions_layout:
  assumes L: "layout idx rows o64" and size: "mi_objectIDSize idx \<in> {20, 32}" and T: "table_shows (mi_Fanout idx) rows o64 es"
    and d: "distinct (map pe_Offset es)"
  shows "t + n = length es \<Longrightarrow> iter_at (mi_Fanout idx) (length rows) t i \<Longrightarrow>
    \<exists>m'. offset_positions idx i (word_of_nat t) m = Some (Inr m') \<and>
      (\<forall>p. t \<le> p \<longrightarrow> p < length es \<longrightarrow> m' (pe_Offset (es ! p)) = Some (word_of_nat p)) \<and>
      (\<forall>off. off \<notin> pe_Offset ` set (drop t es) \<longrightarrow> m' off = m off)"
proof (induction n arbitrary: t i m)
  case 0
  have len: "length rows = length es" using T by (auto simp: table_shows_def dest: list_all2_lengthD)
  obtain i' where "EntryIter_Next idx i = Some (Inl IdxEOF, i')"
    using EntryIter_Next_layout [OF L size table_offsets [OF T] 0(2)] 0(1) len by auto
  then show ?case using 0(1) by (subst offset_positions.simps) simp
next
  case (Suc n)
  have re: "list_all2 (row_entry o64) rows es" using T by (simp add: table_shows_def)
  have t: "t < length rows" "t < length es" using Suc.prems(1) list_all2_lengthD [OF re] by auto
  obtain e i' where e: "EntryIter_Next idx i = Some (Inr e, i')" "row_entry o64 (rows ! t) e" "iter_at (mi_Fanout idx) (length rows) (t + 1) i'"
    using EntryIter_Next_layout [OF L size table_offsets [OF T] Suc.prems(2)] t by auto
  have off: "pe_Offset e = pe_Offset (es ! t)" using e(2) re t by (auto simp: list_all2_conv_all_nth row_entry_def)
  let ?m = "m(pe_Offset (es ! t) \<mapsto> word_of_nat t)"
  have "(t + 1) + n = length es" using Suc.prems(1) by simp
  from Suc.IH [OF this e(3), of ?m] obtain m' where m': "offset_positions idx i' (word_of_nat (t + 1)) ?m = Some (Inr m')"
      "\<forall>p. t + 1 \<le> p \<longrightarrow> p < length es \<longrightarrow> m' (pe_Offset (es ! p)) = Some (word_of_nat p)"
      "\<forall>off. off \<notin> pe_Offset ` set (drop (t + 1) es) \<longrightarrow> m' off = ?m off"
    by blast
  have step: "offset_positions idx i (word_of_nat t) m = Some (Inr m')"
    using e(1) m'(1) off by (subst offset_positions.simps) (simp add: add.commute)
  have dr: "drop t es = es ! t # drop (t + 1) es" using t(2) by (simp add: Cons_nth_drop_Suc)
  have "distinct (map pe_Offset (drop t es))" using d by (metis distinct_drop drop_map)
  then have "pe_Offset (es ! t) \<notin> pe_Offset ` set (drop (t + 1) es)" unfolding dr by auto
  then have "m' (pe_Offset (es ! t)) = Some (word_of_nat t)" using m'(3) by simp
  then have "\<forall>p. t \<le> p \<longrightarrow> p < length es \<longrightarrow> m' (pe_Offset (es ! p)) = Some (word_of_nat p)"
    using m'(2) by (metis Suc_eq_plus1 le_neq_implies_less less_eq_Suc_le)
  moreover have "\<forall>off. off \<notin> pe_Offset ` set (drop t es) \<longrightarrow> m' off = m off" using m'(3) unfolding dr by auto
  ultimately show ?case using step by blast
qed

lemma sort_key_offsets: "map pe_Offset (sort_key pe_Offset es) = sort (map pe_Offset es)"
  by (rule sorted_sort_id [symmetric, THEN trans]) (auto intro: properties_for_sort)

lemma buildReverseIndex_shows:
  assumes S: "mem_shows idx es" and d: "distinct (map pe_Offset es)" and small: "length es < 2 ^ 32"
  obtains ps where "buildReverseIndex idx = Some (Inr (ps, mi_PackfileChecksum idx))" "rev_positions es ps"
proof -
  obtain rows o64 where L: "layout idx rows o64" and T: "table_shows (mi_Fanout idx) rows o64 es" and size: "mi_objectIDSize idx \<in> {20, 32}"
    using S by (auto simp: mem_shows_def)
  obtain m where m: "offset_positions idx Entries 0 Map.empty = Some (Inr m)" "\<forall>p < length es. m (pe_Offset (es ! p)) = Some (word_of_nat p)"
    using offset_positions_layout [OF L size T d, of 0 "length es" Entries Map.empty] iter_at_start by auto
  obtain es' where es': "EntriesByOffset idx = Some (Inr es')" "list_all2 same_entry (sort_key pe_Offset es) es'"
    using EntriesByOffset_all [OF S] by blast
  let ?ps = "map (\<lambda>e. position_at m (pe_Offset e)) es'"
  have eq: "map pe_Offset es' = map pe_Offset (sort_key pe_Offset es)"
    using es'(2) by (induction rule: list_all2_induct) (auto simp: same_entry_def)
  note srt = sort_key_offsets [of es]
  have pos: "unat (position_at m (pe_Offset e)) < length es \<and> pe_Offset (es ! unat (position_at m (pe_Offset e))) = pe_Offset e" if "e \<in> set es'" for e
  proof -
    have "pe_Offset e \<in> pe_Offset ` set es" using arg_cong [OF eq, of set] that by auto
    then obtain p where p: "p < length es" "pe_Offset (es ! p) = pe_Offset e" by (metis image_iff in_set_conv_nth)
    then have "position_at m (pe_Offset e) = word_of_nat p" using m(2) by (metis option.simps(5) position_at_def)
    moreover have "unat (word_of_nat p :: u32) = p" using p(1) small by (simp add: unat_of_nat take_bit_nat_eq_self)
    ultimately show ?thesis using p by simp
  qed
  have "map (\<lambda>p. pe_Offset (es ! unat p)) ?ps = map pe_Offset es'" using pos by simp
  then have "rev_positions es ?ps" using pos eq srt by (simp add: rev_positions_def list_all_iff)
  moreover have "buildReverseIndex idx = Some (Inr (?ps, mi_PackfileChecksum idx))" by (simp add: buildReverseIndex_def m(1) es'(1))
  ultimately show thesis using that by blast
qed


subsection \<open>The file\<close>

definition rev_body :: "nat \<Rightarrow> u32 list \<Rightarrow> bytes \<Rightarrow> bytes" where
  "rev_body hsize ps pack =
     revHeader @ WriteUint32 rev_VersionSupported @ WriteUint32 (if hsize = 32 then sha256Hash else sha1Hash) @
     concat (map WriteUint32 ps) @ pack"

definition rev_file :: "(nat \<Rightarrow> bytes \<Rightarrow> bytes) \<Rightarrow> nat \<Rightarrow> u32 list \<Rightarrow> bytes \<Rightarrow> bytes" where
  "rev_file hsum hsize ps pack = rev_body hsize ps pack @ hsum hsize (rev_body hsize ps pack)"

lemma rev_Encode_shows:
  assumes "buildReverseIndex idx = Some (Inr (ps, mi_PackfileChecksum idx))"
  shows "rev_Encode (hsum hsize) hsize idx = Some (Inr (rev_file hsum hsize ps (oid_Bytes (mi_PackfileChecksum idx))))"
  using assms by (simp add: rev_Encode_def numeral_eq_Suc Let_def rev_file_def rev_body_def)

lemma readEntries_loop_eval:
  "readEntries_loop (length ps) (d\<lparr>rd_reader := concat (map WriteUint32 ps) @ r\<rparr>) =
    (Inr (Some rrPackChecksum), d\<lparr>rd_reader := r, rd_out := rd_out d @ ps, rd_hashed := rd_hashed d @ concat (map WriteUint32 ps)\<rparr>)"
proof (induction ps arbitrary: d)
  case (Cons p ps)
  let ?d = "d\<lparr>rd_out := rd_out d @ [p], rd_hashed := rd_hashed d @ WriteUint32 p\<rparr>"
  have "readEntries_loop (length (p # ps)) (d\<lparr>rd_reader := concat (map WriteUint32 (p # ps)) @ r\<rparr>) =
      readEntries_loop (length ps) (?d\<lparr>rd_reader := concat (map WriteUint32 ps) @ r\<rparr>)"
    by (cases d) (simp add: uint_codecs)
  then show ?case using Cons.IH [of ?d] by simp
qed (cases d, simp)

lemma read_sum_eval:
  assumes "length c = rd_hasher d" and "rd_hasher d \<in> {20, 32}" and "rd_reader d = c @ r"
  shows "\<exists>e. read_sum d = (Inr e, d\<lparr>rd_reader := r\<rparr>) \<and> oid_Bytes e = c"
  using assms by (auto simp: read_sum_def oid_ReadFrom_def ResetBySize_def ZeroHash_def oid_Size_def oid_Bytes_def)

lemma rev_dec_steps:
  assumes sz: "hsize \<in> {20, 32}" and pack: "length (oid_Bytes pack) = hsize" and h: "\<And>x. length (hsum hsize x) = hsize" and ps: "ps \<noteq> []"
  shows "rev_Decode hsum (rev_file hsum hsize ps (oid_Bytes pack)) (length ps) pack = (Inr (), ps)"
proof -
  define hf where "hf = (if hsize = 32 then sha256Hash else sha1Hash)"
  have rh: "length revHeader = 4" by (simp add: revHeader_def)
  let ?b = "rev_body hsize ps (oid_Bytes pack)"
  let ?s = "hsum hsize ?b" let ?r3 = "oid_Bytes pack @ ?s" let ?r2 = "concat (map WriteUint32 ps) @ ?r3"
  define d0 where "d0 = \<lparr>rd_reader = revHeader @ WriteUint32 rev_VersionSupported @ WriteUint32 hf @ ?r2, rd_hasher = 0, rd_hashed = [],
    rd_version = 0, rd_objCount = length ps, rd_packChecksum = pack, rd_out = []\<rparr>"
  define d1 where "d1 = d0\<lparr>rd_reader := WriteUint32 rev_VersionSupported @ WriteUint32 hf @ ?r2\<rparr>"
  define d2 where "d2 = d1\<lparr>rd_reader := WriteUint32 hf @ ?r2, rd_version := rev_VersionSupported\<rparr>"
  define d3 where "d3 = d2\<lparr>rd_reader := ?r2, rd_hasher := hsize,
    rd_hashed := revHeader @ WriteUint32 rev_VersionSupported @ WriteUint32 hf\<rparr>"
  define d4 where "d4 = d3\<lparr>rd_reader := ?r3, rd_out := ps, rd_hashed := revHeader @ WriteUint32 rev_VersionSupported @ WriteUint32 hf @ concat (map WriteUint32 ps)\<rparr>"
  define d5 where "d5 = d4\<lparr>rd_reader := ?s, rd_hashed := ?b\<rparr>"
  have s0: "rev_dec_step hsum rrMagicNumber d0 = (Inr (Some rrVersion), d1)"
    using rh by (simp add: readMagicNumber_def d0_def d1_def)
  have s1: "rev_dec_step hsum rrVersion d1 = (Inr (Some rrHashFunction), d2)"
    by (simp add: rev_readVersion_def d0_def d1_def d2_def uint_codecs)
  have s2: "rev_dec_step hsum rrHashFunction d2 = (Inr (Some rrEntries), d3)"
    using sz by (auto simp: readHashFunction_def d0_def d1_def d2_def d3_def uint_codecs hf_def sha1Hash_def sha256Hash_def)
  have s3: "rev_dec_step hsum rrEntries d3 = (Inr (Some rrPackChecksum), d4)"
    using readEntries_loop_eval [of ps ?r3 d3] ps by (simp add: readEntries_def d0_def d1_def d2_def d3_def d4_def)
  have hs: "rd_hasher d4 = hsize" "rd_reader d4 = ?r3" "rd_packChecksum d4 = pack"
    "rd_hashed d4 @ oid_Bytes pack = ?b" by (simp_all add: d4_def d3_def d2_def d1_def d0_def rev_body_def hf_def)
  obtain e where e: "read_sum d4 = (Inr e, d4\<lparr>rd_reader := ?s\<rparr>)" "oid_Bytes e = oid_Bytes pack"
    using read_sum_eval [of "oid_Bytes pack" d4 ?s] hs pack sz by auto
  have s4: "rev_dec_step hsum rrPackChecksum d4 = (Inr (Some rrRevChecksum), d5)"
    using e hs oid_Compare_self [OF e(2)] by (simp add: rev_readPackChecksum_def d5_def)
  obtain f where f: "read_sum d5 = (Inr f, d5\<lparr>rd_reader := []\<rparr>)" "oid_Bytes f = ?s"
    using read_sum_eval [of ?s d5 "[]"] hs h sz by (auto simp: d5_def)
  have s5: "rev_dec_step hsum rrRevChecksum d5 = (Inr None, d5\<lparr>rd_reader := []\<rparr>)"
    using f(1) oid_Compare_self [OF f(2)] hs by (simp add: readRevChecksum_def d5_def)
  have "rev_dec_run hsum rrMagicNumber d0 = (Inr (), d5\<lparr>rd_reader := []\<rparr>)"
    by (subst rev_dec_run.simps, simp only: s0 prod.case sum.case option.case, subst rev_dec_run.simps, simp only: s1 prod.case sum.case option.case,
        subst rev_dec_run.simps, simp only: s2 prod.case sum.case option.case, subst rev_dec_run.simps, simp only: s3 prod.case sum.case option.case,
        subst rev_dec_run.simps, simp only: s4 prod.case sum.case option.case, subst rev_dec_run.simps, simp only: s5 prod.case sum.case option.case)
  moreover have "rev_file hsum hsize ps (oid_Bytes pack) = rd_reader d0" by (simp add: d0_def rev_file_def rev_body_def hf_def)
  moreover have "rd_out d5 = ps" by (simp add: d5_def d4_def)
  ultimately show ?thesis by (simp add: rev_Decode_def d0_def)
qed

text \<open>
  \<^bold>\<open>C8\<close>. The reverse index of a pack index, written and read back: the decoder accepts the file for the
  number of objects and the checksum of the packfile, and sends positions of the index, one for each
  entry, in the order of the offsets in the packfile.
\<close>

theorem rev_roundtrip:
  assumes "mem_shows idx es" and "distinct (map pe_Offset es)" and "length es < 2 ^ 32" and "es \<noteq> []"
    and "hsize \<in> {20, 32}" and "length (oid_Bytes (mi_PackfileChecksum idx)) = hsize" and "\<And>x. length (hsum hsize x) = hsize"
  shows "\<exists>bs ps. rev_Encode (hsum hsize) hsize idx = Some (Inr bs) \<and> rev_positions es ps \<and>
    rev_Decode hsum bs (length es) (mi_PackfileChecksum idx) = (Inr (), ps)"
proof -
  obtain ps where ps: "buildReverseIndex idx = Some (Inr (ps, mi_PackfileChecksum idx))" "rev_positions es ps"
    by (rule buildReverseIndex_shows [OF assms(1-3)])
  have len: "length ps = length es" by (rule rev_positions_length [OF ps(2)])
  then have "ps \<noteq> []" using assms(4) by auto
  from rev_dec_steps [of hsize "mi_PackfileChecksum idx" hsum ps, OF assms(5-7) this]
  show ?thesis using rev_Encode_shows [OF ps(1), of hsum hsize] ps(2) len by auto
qed


theorem rev_roundtrip_witness:
  "\<exists>idx bs ps. rev_Encode (\<lambda>x. replicate 20 0) 20 idx = Some (Inr bs) \<and>
    rev_positions [\<lparr>pe_Hash = one_hash, pe_CRC32 = 7, pe_Offset = 12\<rparr>] ps \<and> rev_Decode (\<lambda>n x. replicate n 0) bs 1 ZeroHash = (Inr (), ps)"
proof -
  obtain idx where i: "mem_shows idx [\<lparr>pe_Hash = one_hash, pe_CRC32 = 7, pe_Offset = 12\<rparr>]" "mi_PackfileChecksum idx = ZeroHash"
    by (rule one_entry_pack)
  have "length (oid_Bytes (mi_PackfileChecksum idx)) = 20" by (simp add: i(2) ZeroHash_def oid_Bytes_def oid_Size_def)
  then show ?thesis using rev_roundtrip [OF i(1), of 20 "\<lambda>n x. replicate n 0"] i(2) by auto
qed

end
