(* ===== verification/Lazy_Index.thy ===== *)
theory Lazy_Index
  imports Rev_Index
begin

text \<open>
  The index that reads its files: \<open>plumbing/format/idxfile/lazy_index.go\<close>. \<open>LazyIndex\<close> keeps the fan-out
  table and where the sections of the index file start, and reads names, checksums and offsets from
  the file, and positions from the reverse index, at each lookup. The shared file handles are taken as
  open and readable: a value has the bytes of both files. On the files that the encoders write for a
  pack index, it is a second instance of the contract \<open>pack_index\<close>, and gives the same answers.
\<close>

subsection \<open>State\<close>

record LazyIndex =
  li_hashSize :: nat
  li_count :: nat
  li_count64 :: nat
  li_namesStart :: nat
  li_crcStart :: nat
  li_off32Start :: nat
  li_off64Start :: nat
  li_fanout :: "u32 list"
  li_idx :: bytes
  li_rev :: bytes

text \<open>\<open>ReadAt\<close> fills the buffer or fails.\<close>

definition readAt :: "bytes \<Rightarrow> nat \<Rightarrow> nat \<Rightarrow> idx_error + bytes" where
  "readAt f n off = (if off + n \<le> length f then Inr (take n (drop off f)) else Inl IdxEOF)"

definition readAt_as :: "idx_error \<Rightarrow> bytes \<Rightarrow> nat \<Rightarrow> nat \<Rightarrow> idx_error + bytes" where
  "readAt_as err f n off = map_err (\<lambda>_. err) (readAt f n off)"

subsection \<open>Opening\<close>

text \<open>\<open>count64bitOffsets\<close> reads the table in chunks of a buffer, cut to whole entries.\<close>

definition byte_slice_size :: nat where "byte_slice_size = 32 * 1024"

function count64_chunk :: "bytes \<Rightarrow> nat" where
  "count64_chunk b = (if b = [] then 0 else (if isO64 (be32 (take 4 b)) then 1 else 0) + count64_chunk (drop 4 b))"
  by pat_completeness auto
termination
  by (relation "measure length") auto

declare count64_chunk.simps [simp del]

function count64_loop :: "bytes \<Rightarrow> nat \<Rightarrow> nat \<Rightarrow> nat \<Rightarrow> idx_error + nat" where
  "count64_loop f remaining pos n =
     (if remaining > 0 then
        let chunk = min (remaining * 4) byte_slice_size in
        rbind (readAt_as ErrMalformedIdxFile f chunk pos) (\<lambda>b.
          count64_loop f (remaining - chunk div 4) (pos + chunk) (n + count64_chunk b))
      else Inr n)"
  by pat_completeness auto
termination
  by (relation "measure (\<lambda>(f, remaining, pos, n). remaining)") (auto simp: byte_slice_size_def min_def)

declare count64_loop.simps [simp del]

fun read_fan :: "bytes \<Rightarrow> nat list \<Rightarrow> u32 list \<Rightarrow> idx_error + u32 list" where
  "read_fan buf [] F = Inr F"
| "read_fan buf (i # is) F =
     (let v = be32 (take 4 (drop (i * 4) buf)) in
      if i > 0 \<and> v < F ! (i - 1) then Inl ErrMalformedIdxFile else read_fan buf is (F[i := v]))"

definition lazy_headers :: "bytes \<Rightarrow> bytes \<Rightarrow> idx_error + unit" where
  "lazy_headers idx rv =
     rbind (readAt idx 8 0) (\<lambda>hdr.
       if take 4 hdr \<noteq> idxHeader then Inl ErrMalformedIdxFile
       else if be32 (drop 4 hdr) \<noteq> VersionSupported then Inl ErrUnsupportedVersion
       else rbind (readAt rv 12 0) (\<lambda>revHdr.
         if take 4 revHdr \<noteq> revHeader then Inl ErrMalformedIdxFile
         else if be32 (take 4 (drop 4 revHdr)) \<noteq> 1 then Inl ErrMalformedIdxFile
         else Inr ()))"

definition lazy_init :: "bytes \<Rightarrow> bytes \<Rightarrow> ObjectID \<Rightarrow> idx_error + LazyIndex" where
  "lazy_init idx rv packHash =
     rbind (lazy_headers idx rv) (\<lambda>_.
     rbind (readAt idx (256 * 4) 8) (\<lambda>fanoutBuf.
     rbind (read_fan fanoutBuf [0..<256] (replicate 256 0)) (\<lambda>F.
       let cnt = unat (F ! 255); sz = oid_Size packHash;
           names = 8 + 256 * 4; crc = names + cnt * sz; off32 = crc + cnt * 4; off64 = off32 + cnt * 4 in
       rbind (count64_loop idx cnt off32 0) (\<lambda>n64.
       rbind (readAt idx sz (off64 + n64 * 8)) (\<lambda>packBuf.
         if oid_Compare packHash packBuf \<noteq> 0 then Inl ErrMalformedIdxFile
         else Inr \<lparr>li_hashSize = sz, li_count = cnt, li_count64 = n64, li_namesStart = names, li_crcStart = crc,
                   li_off32Start = off32, li_off64Start = off64, li_fanout = F, li_idx = idx, li_rev = rv\<rparr>)))))"

subsection \<open>Lookups\<close>

function lazy_search :: "LazyIndex \<Rightarrow> bytes \<Rightarrow> nat \<Rightarrow> nat \<Rightarrow> idx_error + nat option" where
  "lazy_search s target lo hi =
     (if lo < hi then
        let mid = (lo + hi) div 2 in
        rbind (readAt (li_idx s) (li_hashSize s) (li_namesStart s + mid * li_hashSize s)) (\<lambda>buf.
          let cmp = bytes_Compare target buf in
          if cmp < 0 then lazy_search s target lo mid
          else if cmp > 0 then lazy_search s target (mid + 1) hi
          else Inr (Some mid))
      else Inr None)"
  by pat_completeness auto
termination
  by (relation "measure (\<lambda>(s, target, lo, hi). hi - lo)") auto

declare lazy_search.simps [simp del]

definition findHashPos :: "LazyIndex \<Rightarrow> ObjectID \<Rightarrow> (idx_error + nat option) option" where
  "findHashPos s h =
     (if oid_Size h \<noteq> li_hashSize s then Some (Inl HashSizeMismatch)
      else Option.bind (first_byte h) (\<lambda>first.
        let lo = (if first > 0 then unat (li_fanout s ! (first - 1)) else 0); hi = unat (li_fanout s ! first) in
        Some (if lo \<ge> hi then Inr None else lazy_search s (take (li_hashSize s) (oid_Bytes h)) lo hi)))"

definition lazy_offset :: "LazyIndex \<Rightarrow> nat \<Rightarrow> idx_error + u64" where
  "lazy_offset s pos =
     rbind (readAt_as ErrMalformedIdxFile (li_idx s) 4 (li_off32Start s + pos * 4)) (\<lambda>buf.
       let off32 = be32 buf in
       if isO64 off32 then
         let loIndex = o64_index off32 in
         if loIndex \<ge> li_count64 s then Inl ErrMalformedIdxFile
         else rbind (readAt_as ErrMalformedIdxFile (li_idx s) 8 (li_off64Start s + loIndex * 8)) (\<lambda>buf. Inr (be64 buf))
       else Inr (ucast off32))"

definition lazy_crc32 :: "LazyIndex \<Rightarrow> nat \<Rightarrow> idx_error + u32" where
  "lazy_crc32 s pos =
     rbind (readAt_as ErrMalformedIdxFile (li_idx s) 4 (li_crcStart s + pos * 4)) (\<lambda>buf. Inr (be32 buf))"

definition hashAtPos :: "LazyIndex \<Rightarrow> nat \<Rightarrow> idx_error + ObjectID" where
  "hashAtPos s pos =
     rbind (readAt (li_idx s) (li_hashSize s) (li_namesStart s + pos * li_hashSize s)) (\<lambda>buf.
       Inr (fst (oid_Write (ResetBySize ZeroHash (li_hashSize s)) buf)))"

definition entryAt :: "LazyIndex \<Rightarrow> nat \<Rightarrow> idx_error + Entry" where
  "entryAt s pos =
     rbind (hashAtPos s pos) (\<lambda>h. rbind (lazy_offset s pos) (\<lambda>off. rbind (lazy_crc32 s pos) (\<lambda>crc.
       Inr \<lparr>pe_Hash = h, pe_CRC32 = crc, pe_Offset = off\<rparr>)))"

definition lazy_Contains :: "LazyIndex \<Rightarrow> ObjectID \<Rightarrow> (idx_error + bool) option" where
  "lazy_Contains s h = map_option (map_sum id (\<lambda>r. r \<noteq> None)) (findHashPos s h)"

definition lazy_MayContain :: "LazyIndex \<Rightarrow> ObjectID \<Rightarrow> bool option" where
  "lazy_MayContain s h =
     map_option (\<lambda>first. let prev = (if first > 0 then li_fanout s ! (first - 1) else 0) in li_fanout s ! first > prev) (first_byte h)"

definition lazy_FindOffset :: "LazyIndex \<Rightarrow> ObjectID \<Rightarrow> (idx_error + u64) option" where
  "lazy_FindOffset s h =
     map_option (\<lambda>r. rbind r (\<lambda>r. case r of None \<Rightarrow> Inl IdxObjectNotFound | Some pos \<Rightarrow> lazy_offset s pos)) (findHashPos s h)"

definition lazy_FindCRC32 :: "LazyIndex \<Rightarrow> ObjectID \<Rightarrow> (idx_error + u32) option" where
  "lazy_FindCRC32 s h =
     map_option (\<lambda>r. rbind r (\<lambda>r. case r of None \<Rightarrow> Inl IdxObjectNotFound | Some pos \<Rightarrow> lazy_crc32 s pos)) (findHashPos s h)"

definition lazy_Count :: "LazyIndex \<Rightarrow> nat" where "lazy_Count s = li_count s"

text \<open>Offsets are compared as \<open>int64\<close>.\<close>

definition rev_position :: "LazyIndex \<Rightarrow> nat \<Rightarrow> idx_error + nat" where
  "rev_position s k =
     rbind (readAt (li_rev s) 4 (12 + k * 4)) (\<lambda>buf.
       let idxPos = unat (be32 buf) in if idxPos \<ge> li_count s then Inl ErrMalformedIdxFile else Inr idxPos)"

function findHashViaRev_loop :: "LazyIndex \<Rightarrow> u64 \<Rightarrow> nat \<Rightarrow> nat \<Rightarrow> idx_error + ObjectID" where
  "findHashViaRev_loop s want lo hi =
     (if lo < hi then
        let mid = (lo + hi) div 2 in
        rbind (rev_position s mid) (\<lambda>idxPos.
        rbind (lazy_offset s idxPos) (\<lambda>got.
          if sint got < sint want then findHashViaRev_loop s want (mid + 1) hi
          else if sint got > sint want then findHashViaRev_loop s want lo mid
          else hashAtPos s idxPos))
      else Inl IdxObjectNotFound)"
  by pat_completeness auto
termination
  by (relation "measure (\<lambda>(s, want, lo, hi). hi - lo)") auto

declare findHashViaRev_loop.simps [simp del]

definition findHashViaRev :: "LazyIndex \<Rightarrow> u64 \<Rightarrow> idx_error + ObjectID" where
  "findHashViaRev s want = findHashViaRev_loop s want 0 (li_count s)"

subsection \<open>Iterators\<close>

text \<open>An iterator has a reference to the files until it is closed.\<close>

record lazyIter =
  lz_open :: bool
  lz_pos :: nat

definition scannerEntryIter_Next :: "LazyIndex \<Rightarrow> lazyIter \<Rightarrow> (idx_error + Entry) \<times> lazyIter" where
  "scannerEntryIter_Next s it =
     (if \<not> lz_open it then (Inl IdxClosed, it)
      else if lz_pos it \<ge> li_count s then (Inl IdxEOF, it)
      else (case entryAt s (lz_pos it) of Inl err \<Rightarrow> (Inl err, it) | Inr e \<Rightarrow> (Inr e, it\<lparr>lz_pos := lz_pos it + 1\<rparr>)))"

definition lazyIter_Close :: "LazyIndex \<Rightarrow> lazyIter \<Rightarrow> lazyIter" where
  "lazyIter_Close s it = it\<lparr>lz_pos := li_count s, lz_open := False\<rparr>"

definition revEntryIter_Next :: "LazyIndex \<Rightarrow> lazyIter \<Rightarrow> (idx_error + Entry) \<times> lazyIter" where
  "revEntryIter_Next s it =
     (if \<not> lz_open it then (Inl IdxClosed, it)
      else if lz_pos it \<ge> li_count s then (Inl IdxEOF, it)
      else (case rbind (rev_position s (lz_pos it)) (entryAt s) of
              Inl err \<Rightarrow> (Inl err, it) | Inr e \<Rightarrow> (Inr e, it\<lparr>lz_pos := lz_pos it + 1\<rparr>)))"

record lazyPrefixIter =
  lp_open :: bool
  lp_prefix :: bytes
  lp_pos :: nat
  lp_end :: nat

definition lazyPrefixIter_Close :: "lazyPrefixIter \<Rightarrow> lazyPrefixIter" where
  "lazyPrefixIter_Close it = it\<lparr>lp_open := False\<rparr>"

definition lazyPrefixIter_Next :: "LazyIndex \<Rightarrow> lazyPrefixIter \<Rightarrow> (idx_error + Entry) \<times> lazyPrefixIter" where
  "lazyPrefixIter_Next s it =
     (if \<not> lp_open it then (Inl IdxEOF, it)
      else if lp_pos it \<ge> lp_end it then (Inl IdxEOF, it)
      else (case entryAt s (lp_pos it) of
              Inl err \<Rightarrow> (Inl err, it)
            | Inr e \<Rightarrow>
                if \<not> prefix (lp_prefix it) (oid_Bytes (pe_Hash e)) then (Inl IdxEOF, lazyPrefixIter_Close it)
                else (Inr e, it\<lparr>lp_pos := lp_pos it + 1\<rparr>)))"

function lazy_prefix_search :: "LazyIndex \<Rightarrow> bytes \<Rightarrow> nat \<Rightarrow> nat \<Rightarrow> idx_error + nat" where
  "lazy_prefix_search s target lo hi =
     (if lo < hi then
        let mid = (lo + hi) div 2 in
        rbind (readAt (li_idx s) (li_hashSize s) (li_namesStart s + mid * li_hashSize s)) (\<lambda>buf.
          if bytes_Compare buf target < 0 then lazy_prefix_search s target (mid + 1) hi
          else lazy_prefix_search s target lo mid)
      else Inr lo)"
  by pat_completeness auto
termination
  by (relation "measure (\<lambda>(s, target, lo, hi). hi - lo)") auto

declare lazy_prefix_search.simps [simp del]

definition no_entries :: lazyPrefixIter where
  "no_entries = \<lparr>lp_open = False, lp_prefix = [], lp_pos = 0, lp_end = 0\<rparr>"

definition lazy_EntriesWithPrefix :: "LazyIndex \<Rightarrow> bytes \<Rightarrow> idx_error + lazyIter + lazyPrefixIter" where
  "lazy_EntriesWithPrefix s pre =
     (if length pre = 0 then Inr (Inl \<lparr>lz_open = True, lz_pos = 0\<rparr>)
      else
        let first = unat (hd pre); lo = (if first > 0 then unat (li_fanout s ! (first - 1)) else 0); hi = unat (li_fanout s ! first) in
        if lo \<ge> hi then Inr (Inr no_entries)
        else rbind (lazy_prefix_search s (prefix_target (li_hashSize s) pre) lo hi) (\<lambda>bsLo.
          if bsLo \<ge> hi then Inr (Inr no_entries)
          else Inr (Inr \<lparr>lp_open = True, lp_prefix = pre, lp_pos = bsLo, lp_end = hi\<rparr>)))"


subsection \<open>The sections of a file\<close>

definition section_at :: "bytes \<Rightarrow> nat \<Rightarrow> bytes \<Rightarrow> bool" where
  "section_at f start tab \<longleftrightarrow> (\<exists>a b. f = a @ tab @ b \<and> length a = start)"

lemma readAt_section:
  assumes S: "section_at f start (concat (map g rs))" and fixed: "list_all (\<lambda>r. length (g r) = n) rs" and i: "i < length rs"
  shows "readAt f n (start + i * n) = Inr (g (rs ! i))"
proof -
  obtain a b where f: "f = a @ concat (map g rs) @ b" "length a = start" using S by (auto simp: section_at_def)
  let ?t = "concat (map g rs)"
  have "slice ?t (i * n) (i * n + n) = Some (g (rs ! i))" by (rule slice_concat_fixed [OF fixed i])
  then have s: "i * n + n \<le> length ?t" "take n (drop (i * n) ?t) = g (rs ! i)" by (auto simp: slice_Some_iff)
  have "drop (start + i * n) f = drop (i * n) ?t @ b" using f s(1) by simp
  moreover have "take n (drop (i * n) ?t @ b) = take n (drop (i * n) ?t)" using s(1) by simp
  ultimately show ?thesis using s f by (simp add: readAt_def)
qed

lemma readAt_part:
  assumes "section_at f start tab" and "off + n \<le> length tab"
  shows "readAt f n (start + off) = Inr (take n (drop off tab))"
proof -
  obtain a b where f: "f = a @ tab @ b" "length a = start" using assms(1) by (auto simp: section_at_def)
  have "drop (start + off) f = drop off tab @ b" using f assms(2) by simp
  moreover have "take n (drop off tab @ b) = take n (drop off tab)" using assms(2) by simp
  ultimately show ?thesis using f assms(2) by (simp add: readAt_def)
qed

text \<open>What the lazy index shows: the sections of its files hold the rows, and the positions by offset.\<close>

definition lazy_tables :: "LazyIndex \<Rightarrow> idx_row list \<Rightarrow> u64 list \<Rightarrow> bool" where
  "lazy_tables s rows o64 \<longleftrightarrow> li_count s = length rows \<and> li_count64 s = length o64 \<and>
     list_all (\<lambda>r. length (row_name r) = li_hashSize s) rows \<and>
     section_at (li_idx s) (li_namesStart s) (names_of rows) \<and> section_at (li_idx s) (li_crcStart s) (crcs_of rows) \<and>
     section_at (li_idx s) (li_off32Start s) (ofs_of rows) \<and> section_at (li_idx s) (li_off64Start s) (concat (map WriteUint64 o64))"

definition lazy_shows :: "LazyIndex \<Rightarrow> Entry list \<Rightarrow> bool" where
  "lazy_shows s es \<longleftrightarrow> li_hashSize s \<in> {20, 32} \<and> list_all (\<lambda>e. unat (pe_Offset e) < 2 ^ 63) es \<and>
     (\<exists>rows o64 ps. lazy_tables s rows o64 \<and> table_shows (li_fanout s) rows o64 es \<and>
        rev_positions es ps \<and> section_at (li_rev s) 12 (concat (map WriteUint32 ps)))"

definition lazy_fits :: "LazyIndex \<Rightarrow> ObjectID \<Rightarrow> bool" where
  "lazy_fits s h \<longleftrightarrow> oid_ok h \<and> oid_Size h = li_hashSize s"

lemma lazy_reads:
  assumes T: "lazy_tables s rows o64" and i: "i < length rows"
  shows "readAt (li_idx s) (li_hashSize s) (li_namesStart s + i * li_hashSize s) = Inr (row_name (rows ! i))"
    "lazy_crc32 s i = Inr (row_crc (rows ! i))" "lazy_offset s i = row_offset o64 (row_ofs (rows ! i))"
proof -
  have n: "list_all (\<lambda>r. length (row_name r) = li_hashSize s) rows" using T by (simp add: lazy_tables_def)
  show "readAt (li_idx s) (li_hashSize s) (li_namesStart s + i * li_hashSize s) = Inr (row_name (rows ! i))"
    using readAt_section [of "li_idx s" "li_namesStart s" "\<lambda>r. row_name r" rows, OF _ n i] T by (simp add: lazy_tables_def names_of_def)
  show "lazy_crc32 s i = Inr (row_crc (rows ! i))"
    using readAt_section [OF _ WriteUint_fixed(1) i, of "li_idx s" "li_crcStart s" "\<lambda>r. row_crc r"] T
    by (simp add: lazy_tables_def crcs_of_def lazy_crc32_def readAt_as_def map_err_def)
  have o32: "readAt (li_idx s) 4 (li_off32Start s + i * 4) = Inr (WriteUint32 (row_ofs (rows ! i)))"
    using readAt_section [OF _ WriteUint_fixed(1) i, of "li_idx s" "li_off32Start s" "\<lambda>r. row_ofs r"] T by (simp add: lazy_tables_def ofs_of_def)
  have "readAt (li_idx s) 8 (li_off64Start s + j * 8) = Inr (WriteUint64 (o64 ! j))" if "j < length o64" for j
    using readAt_section [OF _ WriteUint_fixed(2) that, of "li_idx s" "li_off64Start s" "\<lambda>x. x"] T by (simp add: lazy_tables_def)
  then show "lazy_offset s i = row_offset o64 (row_ofs (rows ! i))"
    using o32 T by (simp add: lazy_offset_def readAt_as_def map_err_def row_offset_def Let_def lazy_tables_def not_le)
qed

lemma hashAtPos_row:
  assumes T: "lazy_tables s rows o64" and i: "i < length rows" and sz: "li_hashSize s \<in> {20, 32}"
  shows "\<exists>h. hashAtPos s i = Inr h \<and> oid_ok h \<and> oid_Bytes h = row_name (rows ! i)"
proof -
  have "length (row_name (rows ! i)) = li_hashSize s" using T i by (simp add: lazy_tables_def list_all_length)
  then show ?thesis
    using lazy_reads(1) [OF T i] oid_Write_zero [of "row_name (rows ! i)"] sz by (auto simp: hashAtPos_def ResetBySize_def ZeroHash_def)
qed

lemma entryAt_row:
  assumes T: "lazy_tables s rows o64" and i: "i < length rows" and sz: "li_hashSize s \<in> {20, 32}" and e: "row_entry o64 (rows ! i) e"
  shows "\<exists>e'. entryAt s i = Inr e' \<and> same_entry e e' \<and> oid_ok (pe_Hash e')"
  using hashAtPos_row [OF T i sz] lazy_reads(2,3) [OF T i] e by (auto simp: entryAt_def same_entry_def row_entry_def)

subsection \<open>The lookups of the lazy index\<close>

lemma bytes_Compare_cases: "(bytes_Compare a b < 0 \<longleftrightarrow> a < b) \<and> (bytes_Compare a b > 0 \<longleftrightarrow> b < a)"
  using bytes_Compare_less [of a b] bytes_Compare_eq [of a b] by (cases "bytes_Compare a b" "0 :: int" rule: linorder_cases) auto

lemma lazy_search_spec:
  assumes T: "lazy_tables s rows o64"
  shows "hi \<le> length rows \<Longrightarrow> \<exists>r. lazy_search s name lo hi = Inr r \<and> search_result rows name lo hi r"
proof (induction "hi - lo" arbitrary: lo hi rule: less_induct)
  case less
  show ?case
  proof (cases "lo < hi")
    case False
    then show ?thesis by (subst lazy_search.simps) (simp add: search_nothing)
  next
    case True
    define mid where "mid = (lo + hi) div 2"
    have mid: "lo \<le> mid" "mid < hi" "mid < length rows" using True less.prems by (auto simp: mid_def)
    let ?n = "row_name (rows ! mid)"
    have step: "lazy_search s name lo hi = (if name < ?n then lazy_search s name lo mid
        else if ?n < name then lazy_search s name (mid + 1) hi else Inr (Some mid))"
      using True lazy_reads(1) [OF T mid(3)] bytes_Compare_cases [of name ?n]
      by (subst lazy_search.simps) (simp add: Let_def flip: mid_def)
    consider "name < ?n" | "?n < name" | "name = ?n" by fastforce
    then show ?thesis
    proof cases
      case 1
      have "mid - lo < hi - lo" "mid \<le> length rows" using mid True by auto
      from less.hyps [OF this] obtain r where "lazy_search s name lo mid = Inr r" "search_result rows name lo mid r"
        by blast
      then show ?thesis using step 1 search_left [OF 1 mid(2) less.prems] by auto
    next
      case 2
      have "hi - (mid + 1) < hi - lo" using mid by auto
      from less.hyps [OF this less.prems] obtain r
        where "lazy_search s name (mid + 1) hi = Inr r" "search_result rows name (mid + 1) hi r"
        by blast
      then show ?thesis using step 2 search_right [OF 2 mid(1,3)] by auto
    next
      case 3
      then show ?thesis using step mid by (auto simp: search_result_def)
    qed
  qed
qed

lemma search_bucket:
  assumes fan: "fan_ok F (length rows)" and b: "b < 256" and srt: "rows_sorted rows"
    and r: "search_result rows name (fan_lo F b) (unat (F ! b)) r"
  shows "search_result (bucket F rows b) name 0 (length (bucket F rows b)) (map_option (\<lambda>i. i - fan_lo F b) r)"
    "\<And>i. r = Some i \<Longrightarrow> bucket F rows b ! (i - fan_lo F b) = rows ! i \<and> i < length rows"
proof -
  note len = length_bucket [OF fan b] and bd = fan_bounds [OF fan b]
  have nth: "bucket F rows b ! (i - fan_lo F b) = rows ! i \<and> i < length rows" if "fan_lo F b \<le> i" "i < unat (F ! b)" for i
    using bucket_nth [OF fan b, of "i - fan_lo F b"] that len by auto
  show "\<And>i. r = Some i \<Longrightarrow> bucket F rows b ! (i - fan_lo F b) = rows ! i \<and> i < length rows"
    using r nth by (auto simp: search_result_def)
  show "search_result (bucket F rows b) name 0 (length (bucket F rows b)) (map_option (\<lambda>i. i - fan_lo F b) r)"
  proof (cases r)
    case None
    have "row_name (bucket F rows b ! i) \<noteq> name" if "i < length (bucket F rows b)" for i
      using r None srt bucket_nth(1) [OF fan b that] that len by (auto simp: search_result_def)
    then show ?thesis using None by (simp add: search_result_def)
  next
    case (Some i)
    then have "fan_lo F b \<le> i" "i < unat (F ! b)" "row_name (rows ! i) = name" using r by (auto simp: search_result_def)
    then show ?thesis using Some nth len by (simp add: search_result_def)
  qed
qed


text \<open>The search of the names table, in terms of the entries.\<close>

lemma findHashPos_entries:
  assumes T: "lazy_tables s rows o64" and S: "table_shows (li_fanout s) rows o64 es" and h: "oid_ok h" and sz: "oid_Size h = li_hashSize s"
  shows "\<exists>r. findHashPos s h = Some (Inr r) \<and>
    (case r of None \<Rightarrow> find (\<lambda>e. entry_name e = oid_Bytes h) es = None
     | Some i \<Rightarrow> i < length rows \<and> (\<exists>e. find (\<lambda>e. entry_name e = oid_Bytes h) es = Some e \<and> row_entry o64 (rows ! i) e))"
proof -
  let ?F = "li_fanout s" let ?b = "unat (hd (oid_Bytes h))"
  note fb = first_byte_Some [OF h]
  have fan: "fan_ok ?F (length rows)" using S by (simp add: table_shows_def)
  note srt = table_rows_sorted [OF S] and bd = fan_bounds [OF fan fb(3)]
  obtain r where r: "lazy_search s (oid_Bytes h) (fan_lo ?F ?b) (unat (?F ! ?b)) = Inr r"
      "search_result rows (oid_Bytes h) (fan_lo ?F ?b) (unat (?F ! ?b)) r"
    using lazy_search_spec [OF T bd(2), of "oid_Bytes h" "fan_lo ?F ?b"] by blast
  have "take (li_hashSize s) (oid_Bytes h) = oid_Bytes h" using h sz by (simp add: oid_ok_iff)
  moreover have "lazy_search s name lo hi = Inr None" if "hi \<le> lo" for name lo hi
    using that by (subst lazy_search.simps) simp
  ultimately have pos: "findHashPos s h = Some (Inr r)"
    using r(1) fb(1) sz by (auto simp: findHashPos_def Let_def fan_lo_def)
  note sb = search_bucket [OF fan fb(3) srt r(2)]
  show ?thesis using pos sb(2) search_entries [OF S h sb(1)] by (cases r) auto
qed

lemma lazy_lookups:
  assumes L: "lazy_shows s es" and h: "lazy_fits s h"
  shows "lazy_Contains s h = Some (Inr (find (\<lambda>e. entry_name e = oid_Bytes h) es \<noteq> None))"
    "lazy_FindOffset s h = Some (note_err IdxObjectNotFound (map_option pe_Offset (find (\<lambda>e. entry_name e = oid_Bytes h) es)))"
    "lazy_FindCRC32 s h = Some (note_err IdxObjectNotFound (map_option pe_CRC32 (find (\<lambda>e. entry_name e = oid_Bytes h) es)))"
proof -
  obtain rows o64 where T: "lazy_tables s rows o64" and S: "table_shows (li_fanout s) rows o64 es"
    using L by (auto simp: lazy_shows_def)
  have h': "oid_ok h" "oid_Size h = li_hashSize s" using h by (simp_all add: lazy_fits_def)
  obtain r where r: "findHashPos s h = Some (Inr r)"
      "case r of None \<Rightarrow> find (\<lambda>e. entry_name e = oid_Bytes h) es = None
       | Some i \<Rightarrow> i < length rows \<and> (\<exists>e. find (\<lambda>e. entry_name e = oid_Bytes h) es = Some e \<and> row_entry o64 (rows ! i) e)"
    using findHashPos_entries [OF T S h'] by blast
  consider (none) "r = None" "find (\<lambda>e. entry_name e = oid_Bytes h) es = None"
    | (some) i e where "r = Some i" "i < length rows" "find (\<lambda>e. entry_name e = oid_Bytes h) es = Some e" "row_entry o64 (rows ! i) e"
    using r(2) by (cases r) auto
  note cs = this
  show "lazy_Contains s h = Some (Inr (find (\<lambda>e. entry_name e = oid_Bytes h) es \<noteq> None))"
    using cs by cases (use r(1) in \<open>simp_all add: lazy_Contains_def\<close>)
  show "lazy_FindOffset s h = Some (note_err IdxObjectNotFound (map_option pe_Offset (find (\<lambda>e. entry_name e = oid_Bytes h) es)))"
    using cs by cases (use r(1) lazy_reads(3) [OF T] in \<open>simp_all add: lazy_FindOffset_def row_entry_def\<close>)
  show "lazy_FindCRC32 s h = Some (note_err IdxObjectNotFound (map_option pe_CRC32 (find (\<lambda>e. entry_name e = oid_Bytes h) es)))"
    using cs by cases (use r(1) lazy_reads(2) [OF T] in \<open>simp_all add: lazy_FindCRC32_def row_entry_def\<close>)
qed

lemma lazy_may_contain:
  assumes L: "lazy_shows s es" and h: "lazy_fits s h"
  shows "\<exists>m. lazy_MayContain s h = Some m \<and> (find (\<lambda>e. entry_name e = oid_Bytes h) es \<noteq> None \<longrightarrow> m)"
proof -
  obtain rows o64 where T: "lazy_tables s rows o64" and S: "table_shows (li_fanout s) rows o64 es"
    using L by (auto simp: lazy_shows_def)
  have h': "oid_ok h" using h by (simp_all add: lazy_fits_def)
  let ?F = "li_fanout s" let ?b = "unat (hd (oid_Bytes h))"
  note fb = first_byte_Some [OF h']
  have fan: "fan_ok ?F (length rows)" using S by (simp add: table_shows_def)
  have m: "lazy_MayContain s h = Some (fan_lo ?F ?b < unat (?F ! ?b))"
    using fb(1) by (simp add: lazy_MayContain_def Let_def fan_lo_def word_less_nat_alt)
  have "find (\<lambda>e. entry_name e = oid_Bytes h) es = None" if "\<not> fan_lo ?F ?b < unat (?F ! ?b)"
  proof -
    have "bucket ?F rows ?b = []" using length_bucket [OF fan fb(3)] that by simp
    then have "search_result (bucket ?F rows ?b) (oid_Bytes h) 0 (length (bucket ?F rows ?b)) None" by (simp add: search_nothing)
    from search_entries [OF S h' this] show ?thesis by simp
  qed
  with m show ?thesis by blast
qed


subsection \<open>The lookup by offset\<close>

lemma sint_small:
  assumes "unat (x :: u64) < 2 ^ 63"
  shows "sint x = int (unat x)"
proof -
  have "int (unat x) < int (2 ^ 63)" using assms by (simp only: of_nat_less_iff)
  then have "uint x < 2 ^ 63" by simp
  moreover have "- (2 ^ 63) \<le> uint x" by (rule order_trans [OF _ unsigned_greater_eq]) simp
  ultimately have "signed_take_bit 63 (uint x) = uint x" by (intro signed_take_bit_int_eq_self)
  then show ?thesis by (simp add: sint_uint)
qed

text \<open>Where the offsets are below \<open>2\<^sup>6\<^sup>3\<close> the order of the signed values is theirs.\<close>

definition offset_at :: "Entry list \<Rightarrow> u32 list \<Rightarrow> nat \<Rightarrow> u64" where
  "offset_at es ps k = pe_Offset (es ! unat (ps ! k))"

lemma offset_at_mono:
  assumes P: "rev_positions es ps" and small: "list_all (\<lambda>e. unat (pe_Offset e) < 2 ^ 63) es" and k: "j \<le> k" "k < length ps"
  shows "sint (offset_at es ps j) \<le> sint (offset_at es ps k)"
proof -
  have eq: "offset_at es ps i = sort (map pe_Offset es) ! i" if "i < length ps" for i
    using P that by (metis (no_types, lifting) nth_map offset_at_def rev_positions_def)
  have le: "offset_at es ps j \<le> offset_at es ps k"
    using eq k rev_positions_length [OF P] sorted_nth_mono [of "sort (map pe_Offset es)" j k] by simp
  have "unat (offset_at es ps i) < 2 ^ 63" if "i < length ps" for i
    using P small that by (auto simp: offset_at_def rev_positions_def list_all_length)
  then have "sint (offset_at es ps j) = int (unat (offset_at es ps j))" "sint (offset_at es ps k) = int (unat (offset_at es ps k))"
    using k sint_small by (metis le_less_trans)+
  then show ?thesis using le by (simp only: word_le_nat_alt of_nat_le_iff)
qed

lemma rev_position_eval:
  assumes "section_at (li_rev s) 12 (concat (map WriteUint32 ps))" and "k < length ps" and "unat (ps ! k) < li_count s"
  shows "rev_position s k = Inr (unat (ps ! k))"
  using readAt_section [OF _ WriteUint_fixed(1) assms(2), of "li_rev s" 12 "\<lambda>p. p"] assms(1,3) by (simp add: rev_position_def)

definition hash_found :: "Entry list \<Rightarrow> u32 list \<Rightarrow> u64 \<Rightarrow> nat \<Rightarrow> nat \<Rightarrow> idx_error + ObjectID \<Rightarrow> bool" where
  "hash_found es ps want lo hi r \<longleftrightarrow>
     (case r of
        Inl err \<Rightarrow> err = IdxObjectNotFound \<and> (\<forall>k. lo \<le> k \<longrightarrow> k < hi \<longrightarrow> offset_at es ps k \<noteq> want)
      | Inr h \<Rightarrow> \<exists>k < length ps. offset_at es ps k = want \<and> oid_Bytes h = entry_name (es ! unat (ps ! k)))"

lemma findHashViaRev_loop_spec:
  assumes T: "lazy_tables s rows o64" and S: "table_shows (li_fanout s) rows o64 es" and P: "rev_positions es ps"
    and R: "section_at (li_rev s) 12 (concat (map WriteUint32 ps))" and small: "list_all (\<lambda>e. unat (pe_Offset e) < 2 ^ 63) es"
    and sz: "li_hashSize s \<in> {20, 32}"
  shows "hi \<le> length ps \<Longrightarrow> hash_found es ps want lo hi (findHashViaRev_loop s want lo hi)"
proof (induction "hi - lo" arbitrary: lo hi rule: less_induct)
  case less
  show ?case
  proof (cases "lo < hi")
    case False
    then show ?thesis by (subst findHashViaRev_loop.simps) (simp add: hash_found_def)
  next
    case True
    define mid where "mid = (lo + hi) div 2"
    have mid: "lo \<le> mid" "mid < hi" "mid < length ps" using True less.prems by (auto simp: mid_def)
    let ?p = "unat (ps ! mid)" and ?got = "offset_at es ps mid"
    have re: "list_all2 (row_entry o64) rows es" using S by (simp add: table_shows_def)
    have p: "?p < length rows" "?p < length es" using P mid(3) list_all2_lengthD [OF re] by (auto simp: rev_positions_def list_all_length)
    then have e: "row_entry o64 (rows ! ?p) (es ! ?p)" using re by (simp add: list_all2_conv_all_nth)
    have pos: "rev_position s mid = Inr ?p" by (rule rev_position_eval [OF R mid(3)]) (use T p in \<open>simp add: lazy_tables_def\<close>)
    have off: "lazy_offset s ?p = Inr ?got" using lazy_reads(3) [OF T p(1)] e by (simp add: row_entry_def offset_at_def)
    have step: "findHashViaRev_loop s want lo hi = (if sint ?got < sint want then findHashViaRev_loop s want (mid + 1) hi
        else if sint ?got > sint want then findHashViaRev_loop s want lo mid else hashAtPos s ?p)"
      using True pos off by (subst findHashViaRev_loop.simps) (simp add: Let_def flip: mid_def)
    note mono = offset_at_mono [OF P small]
    consider "sint ?got < sint want" | "sint want < sint ?got" | "?got = want" by (metis linorder_less_linear signed_word_eqI)
    then show ?thesis
    proof cases
      case 1
      have "hi - (mid + 1) < hi - lo" using mid by auto
      note ih = less.hyps [OF this less.prems]
      have "offset_at es ps k \<noteq> want" if "k \<le> mid" for k using mono [OF that mid(3)] 1 by auto
      then have "\<forall>k. lo \<le> k \<longrightarrow> k < hi \<longrightarrow> offset_at es ps k \<noteq> want" if "\<forall>k. mid + 1 \<le> k \<longrightarrow> k < hi \<longrightarrow> offset_at es ps k \<noteq> want"
        using that by (metis Suc_eq_plus1 not_less_eq_eq)
      then show ?thesis using step 1 ih by (auto simp: hash_found_def split: sum.splits)
    next
      case 2
      have "mid - lo < hi - lo" "mid \<le> length ps" using mid True by auto
      note ih = less.hyps [OF this]
      have "offset_at es ps k \<noteq> want" if "mid \<le> k" "k < hi" for k using mono [of mid k] that less.prems 2 by auto
      then have "\<forall>k. lo \<le> k \<longrightarrow> k < hi \<longrightarrow> offset_at es ps k \<noteq> want" if "\<forall>k. lo \<le> k \<longrightarrow> k < mid \<longrightarrow> offset_at es ps k \<noteq> want"
        using that by (metis not_le)
      then show ?thesis using step 2 ih by (auto simp: hash_found_def split: sum.splits)
    next
      case 3
      obtain h where "hashAtPos s ?p = Inr h" "oid_Bytes h = row_name (rows ! ?p)" using hashAtPos_row [OF T p(1) sz] by blast
      then show ?thesis using step 3 e mid(3) by (auto simp: hash_found_def row_entry_def)
    qed
  qed
qed

lemma findHashViaRev_right:
  assumes L: "lazy_shows s es"
  shows "right_hash es want (findHashViaRev s want)"
proof -
  obtain rows o64 ps where T: "lazy_tables s rows o64" and S: "table_shows (li_fanout s) rows o64 es" and P: "rev_positions es ps"
    and R: "section_at (li_rev s) 12 (concat (map WriteUint32 ps))" and small: "list_all (\<lambda>e. unat (pe_Offset e) < 2 ^ 63) es"
    and sz: "li_hashSize s \<in> {20, 32}" using L by (auto simp: lazy_shows_def)
  have len: "length rows = length es" using S by (auto simp: table_shows_def dest: list_all2_lengthD)
  have n: "li_count s = length ps" using T rev_positions_length [OF P] len by (simp add: lazy_tables_def)
  have f: "hash_found es ps want 0 (length ps) (findHashViaRev s want)"
    using findHashViaRev_loop_spec [OF T S P R small sz, of "length ps" want 0] n by (simp add: findHashViaRev_def)
  have "set (map (\<lambda>p. pe_Offset (es ! unat p)) ps) = pe_Offset ` set es" using P by (simp add: rev_positions_def)
  then have "pe_Offset ` set es = offset_at es ps ` {0..<length ps}"
    by (force simp: offset_at_def in_set_conv_nth image_iff)
  moreover have "unat (ps ! k) < length es" if "k < length ps" for k using P that by (simp add: rev_positions_def list_all_length)
  ultimately show ?thesis using f by (cases "findHashViaRev s want") (auto simp: hash_found_def right_hash_def offset_at_def)
qed


lemma lazy_count:
  assumes "lazy_shows s es"
  shows "lazy_Count s = length es"
proof -
  obtain rows o64 where "lazy_tables s rows o64" "table_shows (li_fanout s) rows o64 es" using assms by (auto simp: lazy_shows_def)
  then show ?thesis by (auto simp: lazy_Count_def lazy_tables_def table_shows_def dest: list_all2_lengthD)
qed

interpretation lazy_index: pack_index lazy_shows lazy_fits lazy_Contains lazy_MayContain lazy_FindOffset lazy_FindCRC32
  "\<lambda>s off. Some (findHashViaRev s off)" "\<lambda>s. Some (lazy_Count s)"
proof unfold_locales
  fix s es h off
  assume L: "lazy_shows s es"
  show "entries_ok es" using L by (auto simp: lazy_shows_def table_shows_def)
  show "Some (lazy_Count s) = Some (length es)" using lazy_count [OF L] by simp
  show "map_option (map_sum id oid_Bytes) (Some (findHashViaRev s off)) =
      Some (note_err IdxObjectNotFound (map_option (\<lambda>e. entry_name e) (find (\<lambda>e. pe_Offset e = off) es)))"
    if "distinct (map pe_Offset es)"
    using right_hash_unique [OF that findHashViaRev_right [OF L]] by simp
  assume h: "lazy_fits s h"
  show "lazy_Contains s h = Some (Inr (find (\<lambda>e. entry_name e = oid_Bytes h) es \<noteq> None))" by (rule lazy_lookups(1) [OF L h])
  show "lazy_FindOffset s h = Some (note_err IdxObjectNotFound (map_option pe_Offset (find (\<lambda>e. entry_name e = oid_Bytes h) es)))"
    by (rule lazy_lookups(2) [OF L h])
  show "lazy_FindCRC32 s h = Some (note_err IdxObjectNotFound (map_option pe_CRC32 (find (\<lambda>e. entry_name e = oid_Bytes h) es)))"
    by (rule lazy_lookups(3) [OF L h])
  show "\<exists>m. lazy_MayContain s h = Some m \<and> (find (\<lambda>e. entry_name e = oid_Bytes h) es \<noteq> None \<longrightarrow> m)"
    by (rule lazy_may_contain [OF L h])
qed


subsection \<open>Opening the files that the encoders write\<close>

lemma count64_chunk_ofs: "count64_chunk (ofs_of rs) = length (filter (\<lambda>r. isO64 (row_ofs r)) rs)"
proof (induction rs)
  case Nil
  then show ?case by (subst count64_chunk.simps) (simp add: ofs_of_def)
next
  case (Cons r rs)
  have "ofs_of (r # rs) = WriteUint32 (row_ofs r) @ ofs_of rs" by (simp add: ofs_of_def)
  moreover have "WriteUint32 (row_ofs r) \<noteq> []" using length_WriteUint(2) [of "row_ofs r"] by (metis list.size(3) zero_neq_numeral)
  ultimately show ?case using Cons by (subst count64_chunk.simps) simp
qed

lemma drop_take_ofs: "take (4 * c) (drop (4 * k) (ofs_of rows)) = ofs_of (take c (drop k rows))"
proof -
  have "drop (4 * k) (ofs_of rows) = ofs_of (drop k rows)"
    using drop_concat_fixed [OF WriteUint_fixed(1), of k "\<lambda>r. row_ofs r" rows] by (simp add: ofs_of_def mult.commute)
  moreover have "take (4 * c) (ofs_of rs) = ofs_of (take c rs)" for rs
    using tables_append_rows(2) [of "take c rs" "drop c rs"] by (cases "c \<le> length rs") (simp_all add: min_def)
  ultimately show ?thesis by simp
qed

lemma count64_loop_eval:
  assumes S: "section_at f start (ofs_of rows)"
  shows "k \<le> length rows \<Longrightarrow>
    count64_loop f (length rows - k) (start + 4 * k) n = Inr (n + length (filter (\<lambda>r. isO64 (row_ofs r)) (drop k rows)))"
proof (induction "length rows - k" arbitrary: k n rule: less_induct)
  case less
  show ?case
  proof (cases "k < length rows")
    case False
    then show ?thesis by (subst count64_loop.simps) simp
  next
    case True
    define c where "c = min (length rows - k) 8192"
    have c: "0 < c" "k + c \<le> length rows" "min ((length rows - k) * 4) byte_slice_size = 4 * c"
      using True by (auto simp: c_def byte_slice_size_def min_def)
    have rd: "readAt f (4 * c) (start + 4 * k) = Inr (ofs_of (take c (drop k rows)))"
      using readAt_part [OF S, of "4 * k" "4 * c"] c by (simp add: drop_take_ofs)
    have step: "count64_loop f (length rows - k) (start + 4 * k) n =
        count64_loop f (length rows - (k + c)) (start + 4 * (k + c)) (n + count64_chunk (ofs_of (take c (drop k rows))))"
    proof -
      have e: "0 < length rows - k" "4 * c div 4 = c" "length rows - k - c = length rows - (k + c)"
        "start + 4 * k + 4 * c = start + 4 * (k + c)" using True by simp_all
      have "readAt_as ErrMalformedIdxFile f (4 * c) (start + 4 * k) = Inr (ofs_of (take c (drop k rows)))"
        by (simp add: readAt_as_def rd map_err_def)
      then show ?thesis by (subst count64_loop.simps) (simp only: Let_def c(3) e if_True rbind.simps)
    qed
    have "length rows - (k + c) < length rows - k" using c True by linarith
    note ih = less.hyps [OF this c(2)]
    have "drop k rows = take c (drop k rows) @ drop (k + c) rows" using append_take_drop_id [of c "drop k rows", symmetric] by (simp only: drop_drop add.commute)
    then have "length (filter (\<lambda>r. isO64 (row_ofs r)) (drop k rows)) =
        length (filter (\<lambda>r. isO64 (row_ofs r)) (take c (drop k rows))) + length (filter (\<lambda>r. isO64 (row_ofs r)) (drop (k + c) rows))"
      by (metis filter_append length_append)
    then show ?thesis unfolding step ih by (simp add: count64_chunk_ofs)
  qed
qed

lemma read_fan_eval:
  assumes G: "rising G"
  shows "n = 256 - b \<Longrightarrow> b \<le> 256 \<Longrightarrow> length F = 256 \<Longrightarrow> take b F = take b G \<Longrightarrow>
    read_fan (concat (map WriteUint32 G)) [b..<256] F = Inr G"
proof (induction n arbitrary: b F)
  case 0
  then show ?case using G by (simp add: rising_def)
next
  case (Suc n)
  have b: "b < 256" and len: "length G = 256" using Suc.prems G by (auto simp: rising_def)
  have d: "[b..<256] = b # [Suc b..<256]" using b by (simp add: upt_conv_Cons)
  have v: "be32 (take 4 (drop (b * 4) (concat (map WriteUint32 G)))) = G ! b"
    using slice_concat_fixed [OF WriteUint_fixed(1), of b G "\<lambda>x. x"] b len
    by (simp only: slice_Some_iff) (metis be_Write(1) add_diff_cancel_left')
  have p: "F ! (b - 1) = G ! (b - 1)" if "0 < b" using Suc.prems(4) that by (metis diff_less nth_take zero_less_one)
  have "\<not> (b > 0 \<and> G ! b < F ! (b - 1))"
    using rising_mono [OF G, of "b - 1" b] b p by (cases "b = 0") (simp_all add: not_less)
  moreover have "read_fan (concat (map WriteUint32 G)) [Suc b..<256] (F[b := G ! b]) = Inr G"
    by (rule Suc.IH) (use Suc.prems b len in \<open>auto simp: take_Suc_conv_app_nth\<close>)
  ultimately show ?case unfolding d by (simp add: v Let_def del: One_nat_def)
qed


lemma section_here: "section_at (t @ b) 0 t"
  unfolding section_at_def by (intro exI [of _ "[]"] exI [of _ b]) simp

lemma section_after: "section_at f n t \<Longrightarrow> section_at (a @ f) (length a + n) t"
  unfolding section_at_def by (metis append.assoc length_append)

lemma section_skip: "section_at f n t \<Longrightarrow> m = length a + n \<Longrightarrow> section_at (a @ f) m t"
  using section_after by simp

text \<open>Where the sections of an index file start.\<close>

lemma idx_sections:
  assumes fan: "fan_ok F (length rows)" and names: "list_all (\<lambda>r. length (row_name r) = sz) rows"
    and f_def: "f = idx_file hsum F rows o64 pack" and n_def: "n = length rows"
  shows "section_at f 0 (idxHeader @ WriteUint32 VersionSupported)" "section_at f 8 (concat (map WriteUint32 F))"
    "section_at f 1032 (names_of rows)" "section_at f (1032 + n * sz) (crcs_of rows)"
    "section_at f (1032 + n * sz + n * 4) (ofs_of rows)" "section_at f (1032 + n * sz + n * 4 + n * 4) (concat (map WriteUint64 o64))"
    "section_at f (1032 + n * sz + n * 4 + n * 4 + length o64 * 8) pack"
proof -
  let ?h = "idxHeader @ WriteUint32 VersionSupported" and ?t = "concat (map WriteUint64 o64)" and ?s = "hsum (idx_body F rows o64 pack)"
  have f: "f = ?h @ concat (map WriteUint32 F) @ names_of rows @ crcs_of rows @ ofs_of rows @ ?t @ pack @ ?s"
    by (simp add: f_def idx_file_def idx_body_def)
  have "length F = 256" using fan by (simp add: fan_ok_def)
  then have l: "length ?h = 8" "length (concat (map WriteUint32 F)) = 1024" "length (names_of rows) = n * sz" "length ?t = length o64 * 8"
    using length_concat_fixed [OF WriteUint_fixed(1), of "\<lambda>x. x" F] length_concat_fixed [OF names] length_concat_fixed [OF WriteUint_fixed(2), of "\<lambda>x. x" o64]
    by (simp_all add: idxHeader_def names_of_def n_def)
  show "section_at f 0 ?h" unfolding f by (rule section_here)
  show "section_at f 8 (concat (map WriteUint32 F))" unfolding f by (rule section_skip, rule section_here) (simp add: l idxHeader_def)
  show "section_at f 1032 (names_of rows)" unfolding f by (rule section_skip, rule section_skip, rule section_here, rule refl) (simp add: l idxHeader_def)
  show "section_at f (1032 + n * sz) (crcs_of rows)"
    unfolding f by (rule section_skip, rule section_skip, rule section_skip, rule section_here, rule refl, rule refl) (simp add: l idxHeader_def)
  show "section_at f (1032 + n * sz + n * 4) (ofs_of rows)" unfolding f
    by (rule section_skip, rule section_skip, rule section_skip, rule section_skip, rule section_here, rule refl, rule refl, rule refl) (simp add: l n_def idxHeader_def)
  show "section_at f (1032 + n * sz + n * 4 + n * 4) ?t" unfolding f
    by (rule section_skip, rule section_skip, rule section_skip, rule section_skip, rule section_skip, rule section_here,
        rule refl, rule refl, rule refl, rule refl) (simp add: l n_def idxHeader_def)
  show "section_at f (1032 + n * sz + n * 4 + n * 4 + length o64 * 8) pack" unfolding f
    by (rule section_skip, rule section_skip, rule section_skip, rule section_skip, rule section_skip, rule section_skip, rule section_here,
        rule refl, rule refl, rule refl, rule refl, rule refl) (simp add: l n_def idxHeader_def)
qed

lemma readAt_all: "section_at f n t \<Longrightarrow> k = length t \<Longrightarrow> readAt f k n = Inr t"
  using readAt_part [of f n t 0 k] by simp

lemma rev_sections:
  "section_at (rev_file hsum hsize ps pack) 0 (revHeader @ WriteUint32 rev_VersionSupported @ WriteUint32 (if hsize = 32 then sha256Hash else sha1Hash))"
  "section_at (rev_file hsum hsize ps pack) 12 (concat (map WriteUint32 ps))"
proof -
  let ?h = "revHeader @ WriteUint32 rev_VersionSupported @ WriteUint32 (if hsize = 32 then sha256Hash else sha1Hash)"
  have f: "rev_file hsum hsize ps pack = ?h @ concat (map WriteUint32 ps) @ pack @ hsum hsize (rev_body hsize ps pack)"
    by (simp add: rev_file_def rev_body_def)
  show "section_at (rev_file hsum hsize ps pack) 0 ?h" unfolding f by (rule section_here)
  show "section_at (rev_file hsum hsize ps pack) 12 (concat (map WriteUint32 ps))"
    unfolding f by (rule section_skip, rule section_here) (simp add: revHeader_def)
qed

lemma lazy_headers_eval:
  assumes "fan_ok F (length rows)" and "list_all (\<lambda>r. length (row_name r) = sz) rows"
  shows "lazy_headers (idx_file hsum F rows o64 pack) (rev_file rsum hsize ps pack') = Inr ()"
proof -
  have l: "length idxHeader = 4" "length revHeader = 4" by (simp_all add: idxHeader_def revHeader_def)
  show ?thesis
    using readAt_all [OF idx_sections(1) [OF assms refl refl, of hsum o64 pack], of 8] readAt_all [OF rev_sections(1) [of rsum hsize ps pack'], of 12]
    by (simp add: lazy_headers_def l rev_VersionSupported_def)
qed


lemma lazy_init_files:
  assumes fan: "fan_ok F (length rows)" and names: "list_all (\<lambda>r. length (row_name r) = oid_Size c) rows" and o64: "o64_exact rows o64"
    and c: "oid_ok c"
  obtains s where "lazy_init (idx_file hsum F rows o64 (oid_Bytes c)) (rev_file rsum hsize ps pack) c = Inr s" "lazy_tables s rows o64"
    "li_fanout s = F" "li_hashSize s = oid_Size c" "section_at (li_rev s) 12 (concat (map WriteUint32 ps))"
proof -
  let ?f = "idx_file hsum F rows o64 (oid_Bytes c)" and ?r = "rev_file rsum hsize ps pack" and ?n = "length rows" and ?sz = "oid_Size c"
  define s where "s = \<lparr>li_hashSize = ?sz, li_count = ?n, li_count64 = length o64, li_namesStart = 1032, li_crcStart = 1032 + ?n * ?sz,
    li_off32Start = 1032 + ?n * ?sz + ?n * 4, li_off64Start = 1032 + ?n * ?sz + ?n * 4 + ?n * 4, li_fanout = F, li_idx = ?f, li_rev = ?r\<rparr>"
  note sec = idx_sections [OF fan names refl refl, of hsum o64 "oid_Bytes c"]
  have F: "length F = 256" "unat (F ! 255) = ?n" using fan by (simp_all add: fan_ok_def)
  have rd: "readAt ?f 1024 8 = Inr (concat (map WriteUint32 F))"
    by (rule readAt_all [OF sec(2)]) (use length_concat_fixed [OF WriteUint_fixed(1), of "\<lambda>x. x" F] F in simp)
  have rf: "read_fan (concat (map WriteUint32 F)) [0..<256] (replicate 256 0) = Inr F"
    using read_fan_eval [of F 256 0 "replicate 256 0"] fan F rising_fan_ok [of F] by simp
  have cn: "count64_loop ?f ?n (1032 + ?n * ?sz + ?n * 4) 0 = Inr (length o64)"
    using count64_loop_eval [OF sec(5), of 0 0] o64 by (simp add: o64_exact_def)
  have pk: "readAt ?f ?sz (1032 + ?n * ?sz + ?n * 4 + ?n * 4 + length o64 * 8) = Inr (oid_Bytes c)"
    by (rule readAt_all [OF sec(7)]) (use c in \<open>simp add: oid_ok_iff\<close>)
  have nums: "(256 :: nat) * 4 = 1024" "(8 :: nat) + 1024 = 1032" by simp_all
  have "lazy_init ?f ?r c = Inr s"
    unfolding lazy_init_def lazy_headers_eval [OF fan names] rbind.simps nums rd rf Let_def F(2) cn pk
    using oid_Compare_self [of c "oid_Bytes c"] by (simp add: s_def)
  moreover have "lazy_tables s rows o64" using sec names by (simp add: lazy_tables_def s_def)
  moreover have "section_at (li_rev s) 12 (concat (map WriteUint32 ps))" using rev_sections(2) by (simp add: s_def)
  ultimately show thesis using that by (simp add: s_def)
qed

lemma session_offsets:
  assumes adds: "\<forall>a \<in> set adds. oid_ok (fst a) \<and> oid_format (fst a) = oid_format c" and small: "length adds * 32 < 2 ^ 32"
    and w: "w = (add_all adds (OnHeader n new_Writer))\<lparr>w_checksum := c, w_finished := True\<rparr>"
    and d: "distinct (map (\<lambda>a. fst (snd a)) adds)"
  shows "distinct (map pe_Offset (sorted_objects w))" "set (sorted_objects w) \<subseteq> entry_of ` set adds"
proof -
  have a0: "adding (OnHeader n new_Writer)" by (simp add: adding_def OnHeader_def new_Writer_def)
  note inv = add_all_adding [OF a0, of adds]
  show sub: "set (sorted_objects w) \<subseteq> entry_of ` set adds"
    using inv by (simp add: sorted_objects_def w OnHeader_def new_Writer_def)
  have "distinct (map pe_Hash (w_objects w))" using inv by (simp add: adding_def w)
  then have "distinct (sorted_objects w)" by (simp add: sorted_objects_def distinct_map)
  moreover have "inj_on pe_Offset (set (sorted_objects w))"
  proof (rule inj_on_subset [OF _ sub])
    show "inj_on pe_Offset (entry_of ` set adds)" using d by (auto simp: inj_on_def distinct_map entry_of_def)
  qed
  ultimately show "distinct (map pe_Offset (sorted_objects w))" by (simp add: distinct_map)
qed

text \<open>The index of a session and its files, opened.\<close>

lemma session_files:
  assumes adds: "\<forall>a \<in> set adds. oid_ok (fst a) \<and> oid_format (fst a) = oid_format c" and small: "length adds * 32 < 2 ^ 32"
    and offs: "distinct (map (\<lambda>a. fst (snd a)) adds)" "\<forall>a \<in> set adds. unat (fst (snd a)) < 2 ^ 63" and c: "oid_ok c"
    and h: "\<And>x. length (hsum x) = oid_Size c"
  obtains es w idx bs idx0 rbs s where "OnFooter c (add_all adds (OnHeader n new_Writer)) = Some (Inr (), w)" "Writer_Index w = Some (Inr idx, w)"
    "Encode hsum idx = Some (Inr (bs, idx0))" "rev_Encode hsum (oid_Size c) idx = Some (Inr rbs)" "lazy_init bs rbs c = Inr s"
    "lazy_shows s es" "mem_shows idx es" "li_hashSize s = oid_Size c" "distinct (map pe_Offset es)"
    "es = sorted_objects ((add_all adds (OnHeader n new_Writer))\<lparr>w_checksum := c, w_finished := True\<rparr>)"
proof -
  let ?w = "(add_all adds (OnHeader n new_Writer))\<lparr>w_checksum := c, w_finished := True\<rparr>" and ?sz = "oid_Size c"
  let ?es = "sorted_objects ?w"
  note ok = session_ok [OF adds small, of ?w n, OF refl] and so = session_offsets [OF adds small, of ?w n, OF refl offs(1)]
  obtain idx w' where cr: "createIndex ?w = Some (Inr idx, w')" "mem_shows idx ?es" "w_index w' = Some idx" "mi_PackfileChecksum idx = c"
      "mi_Version idx = VersionSupported" "mi_IdxChecksum idx = ResetBySize ZeroHash ?sz"
      "\<exists>rows o64. layout idx rows o64 \<and> table_shows (mi_Fanout idx) rows o64 ?es \<and> o64_exact rows o64 \<and> long_rows rows ?es"
      "mi_objectIDSize idx = ?sz"
    by (rule createIndex_shows [OF ok(1)]) simp_all
  then obtain rows o64 where L: "layout idx rows o64" "table_shows (mi_Fanout idx) rows o64 ?es" "o64_exact rows o64" by blast
  have sz: "?sz \<in> {20, 32}" by (cases "oid_format c") (simp_all add: oid_Size_def)
  have hl: "length (hsum x) = oid_Size (mi_IdxChecksum idx)" for x using h sz by (auto simp: cr(6) ResetBySize_def oid_Size_def)
  let ?bs = "idx_file hsum (mi_Fanout idx) rows o64 (oid_Bytes c)"
  obtain idx0 where e: "Encode hsum idx = Some (Inr (?bs, idx0))"
    using Encode_layout [OF L(1) cr(5), of hsum, OF hl] by (auto simp: cr(4,6) ResetBySize_def ZeroHash_def)
  have "length ?es * 32 < 2 ^ 32" using ok(1) by (simp add: writer_ok_def sorted_objects_def)
  then have len: "length ?es < 2 ^ 32" by linarith
  obtain ps where ps: "buildReverseIndex idx = Some (Inr (ps, mi_PackfileChecksum idx))" "rev_positions ?es ps"
    by (rule buildReverseIndex_shows [OF cr(2) so(1) len])
  note r = rev_Encode_shows [OF ps(1), of "\<lambda>_. hsum" ?sz, unfolded cr(4)]
  have fan: "fan_ok (mi_Fanout idx) (length rows)" and nm: "list_all (\<lambda>r. length (row_name r) = ?sz) rows"
    using L(1) cr(8) sz by (auto simp: layout_def idSize_def)
  obtain s where s: "lazy_init ?bs (rev_file (\<lambda>_. hsum) ?sz ps (oid_Bytes c)) c = Inr s" "lazy_tables s rows o64" "li_fanout s = mi_Fanout idx"
      "li_hashSize s = ?sz" "section_at (li_rev s) 12 (concat (map WriteUint32 ps))"
    by (rule lazy_init_files [OF fan nm L(3) c])
  have "list_all (\<lambda>e. unat (pe_Offset e) < 2 ^ 63) ?es" using so(2) offs(2) by (fastforce simp: list_all_iff entry_of_def)
  then have S: "lazy_shows s ?es" using s L(2) ps(2) sz unfolding lazy_shows_def by auto
  moreover have "OnFooter c (add_all adds (OnHeader n new_Writer)) = Some (Inr (), w')" "Writer_Index w' = Some (Inr idx, w')"
    using cr(1,3) by (simp_all add: OnFooter_def Writer_Index_def)
  ultimately show thesis using that e r s(1,4) cr(2) so(1) by blast
qed

text \<open>
  \<^bold>\<open>C7\<close>. The two implementations of the interface agree: the writer observes the objects of a packfile, its
  index and the reverse index are encoded, and \<open>LazyIndex\<close> opens the two files. Then for every identifier of
  the size, and for every offset, it gives the answers of the \<open>MemoryIndex\<close> that was written: whether the
  identifier is there, its offset and its checksum, the identifier at the offset, and the number of objects.
\<close>

theorem lazy_session:
  assumes adds: "\<forall>a \<in> set adds. oid_ok (fst a) \<and> oid_format (fst a) = oid_format c" and small: "length adds * 32 < 2 ^ 32"
    and offs: "distinct (map (\<lambda>a. fst (snd a)) adds)" "\<forall>a \<in> set adds. unat (fst (snd a)) < 2 ^ 63" and c: "oid_ok c"
    and h: "\<And>x. length (hsum x) = oid_Size c"
  shows "\<exists>w idx bs idx0 rbs s. OnFooter c (add_all adds (OnHeader n new_Writer)) = Some (Inr (), w) \<and> Writer_Index w = Some (Inr idx, w) \<and>
    Encode hsum idx = Some (Inr (bs, idx0)) \<and> rev_Encode hsum (oid_Size c) idx = Some (Inr rbs) \<and> lazy_init bs rbs c = Inr s \<and>
    (\<forall>h. oid_ok h \<longrightarrow> oid_Size h = oid_Size c \<longrightarrow>
       lazy_Contains s h = map_option Inr (Contains idx h) \<and> lazy_FindOffset s h = map_option fst (FindOffset idx h) \<and>
       lazy_FindCRC32 s h = FindCRC32 idx h) \<and>
    (\<forall>off. Some (map_sum id oid_Bytes (findHashViaRev s off)) = map_option (map_sum id oid_Bytes \<circ> fst) (FindHash idx off)) \<and>
    Some (lazy_Count s) = Count idx"
proof -
  obtain es w idx bs idx0 rbs s where f: "OnFooter c (add_all adds (OnHeader n new_Writer)) = Some (Inr (), w)" "Writer_Index w = Some (Inr idx, w)"
      "Encode hsum idx = Some (Inr (bs, idx0))" "rev_Encode hsum (oid_Size c) idx = Some (Inr rbs)" "lazy_init bs rbs c = Inr s"
    and S: "lazy_shows s es" and M: "mem_shows idx es" and sz: "li_hashSize s = oid_Size c" and d: "distinct (map pe_Offset es)"
    by (rule session_files [OF assms])
  have "lazy_Contains s h = map_option Inr (Contains idx h) \<and> lazy_FindOffset s h = map_option fst (FindOffset idx h) \<and>
      lazy_FindCRC32 s h = FindCRC32 idx h" if "oid_ok h" "oid_Size h = oid_Size c" for h
  proof -
    have f: "lazy_fits s h" "mem_fits idx h" using that sz by (simp_all add: lazy_fits_def mem_fits_def)
    note lz = lazy_index.contains_find [OF S f(1)] lazy_index.offset_find [OF S f(1)] lazy_index.crc_find [OF S f(1)]
    note me = mem_index.contains_find [OF M f(2)] mem_index.offset_find [OF M f(2)] mem_index.crc_find [OF M f(2)]
    show ?thesis unfolding lz me by simp
  qed
  moreover have "Some (map_sum id oid_Bytes (findHashViaRev s off)) = map_option (map_sum id oid_Bytes \<circ> fst) (FindHash idx off)" for off
    using lazy_index.hash_find [OF S d, of off] mem_index.hash_find [OF M d, of off] by auto
  moreover have "Some (lazy_Count s) = Count idx" using lazy_index.count_entries [OF S] mem_index.count_entries [OF M] by simp
  ultimately show ?thesis using f by blast
qed

theorem lazy_session_witness:
  "\<exists>w idx bs idx0 rbs s. OnFooter ZeroHash (add_all [(one_hash, 12, 7)] (OnHeader 1 new_Writer)) = Some (Inr (), w) \<and> Writer_Index w = Some (Inr idx, w) \<and>
    Encode (\<lambda>x. replicate 20 0) idx = Some (Inr (bs, idx0)) \<and> rev_Encode (\<lambda>x. replicate 20 0) 20 idx = Some (Inr rbs) \<and>
    lazy_init bs rbs ZeroHash = Inr s \<and> lazy_FindOffset s one_hash = map_option fst (FindOffset idx one_hash)"
proof -
  have z: "oid_Size ZeroHash = 20" "oid_format ZeroHash = UnsetObjectFormat" "oid_Size one_hash = 20"
    by (simp_all add: oid_Size_def ZeroHash_def one_hash_def)
  show ?thesis
    using lazy_session [of "[(one_hash, 12, 7)]" ZeroHash "\<lambda>x. replicate 20 0" 1] one_hash_facts oid_ok_ZeroHash z by simp blast
qed

end
