(* ===== verification/Lazy_Iterators.thy ===== *)
theory Lazy_Iterators
  imports Lazy_Index
begin

text \<open>
  What the iterators of \<open>plumbing/format/idxfile/lazy_index.go\<close> deliver: all entries in the order of their
  names, all entries in the order of their offsets, and the entries of a prefix. The search for the
  first entry of a prefix is the one of \<open>MemoryIndex\<close>, moved by the start of the bucket.
\<close>

subsection \<open>Calling an iterator to its end\<close>

fun next_all :: "('i \<Rightarrow> (idx_error + Entry) \<times> 'i) \<Rightarrow> nat \<Rightarrow> 'i \<Rightarrow> (idx_error + Entry list) option" where
  "next_all nxt 0 it = None"
| "next_all nxt (Suc n) it =
     (case nxt it of
        (Inl err, _) \<Rightarrow> Some (if err = IdxEOF then Inr [] else Inl err)
      | (Inr e, it') \<Rightarrow> map_option (map_sum id ((#) e)) (next_all nxt n it'))"

lemma next_all_steps:
  assumes "\<And>k. k < length xs \<Longrightarrow> \<exists>e. nxt (it k) = (Inr e, it (k + 1)) \<and> R (xs ! k) e"
    and "\<exists>i. nxt (it (length xs)) = (Inl IdxEOF, i)" and "length xs < n"
  shows "\<exists>es. next_all nxt n (it 0) = Some (Inr es) \<and> list_all2 R xs es"
  using assms
proof (induction xs arbitrary: it n)
  case Nil
  then show ?case by (cases n) auto
next
  case (Cons x xs)
  obtain m where n: "n = Suc m" using Cons.prems(3) by (cases n) auto
  obtain e where e: "nxt (it 0) = (Inr e, it 1)" "R x e" using Cons.prems(1) [of 0] by auto
  have "\<exists>e. nxt (it (k + 1)) = (Inr e, it (k + 1 + 1)) \<and> R (xs ! k) e" if "k < length xs" for k
    using Cons.prems(1) [of "k + 1"] that by simp
  then obtain es where "next_all nxt m (it (0 + 1)) = Some (Inr es)" "list_all2 R xs es"
    using Cons.IH [of "\<lambda>k. it (k + 1)" m] Cons.prems(2,3) n by auto
  then show ?case using e n by auto
qed

abbreviation (input) good_copy :: "Entry \<Rightarrow> Entry \<Rightarrow> bool" where
  "good_copy e e' \<equiv> same_entry e e' \<and> oid_ok (pe_Hash e')"

lemma entryAt_shows:
  assumes T: "lazy_tables s rows o64" and S: "table_shows (li_fanout s) rows o64 es" and sz: "li_hashSize s \<in> {20, 32}" and i: "i < length es"
  shows "\<exists>e. entryAt s i = Inr e \<and> good_copy (es ! i) e"
proof -
  have re: "list_all2 (row_entry o64) rows es" using S by (simp add: table_shows_def)
  then have "i < length rows" "row_entry o64 (rows ! i) (es ! i)" using i by (simp_all add: list_all2_conv_all_nth)
  then show ?thesis using entryAt_row [OF T _ sz] by blast
qed

lemma scanner_delivers:
  assumes L: "lazy_shows s es"
  shows "\<exists>a. next_all (scannerEntryIter_Next s) (Suc (length es)) \<lparr>lz_open = True, lz_pos = 0\<rparr> = Some (Inr a) \<and> list_all2 good_copy es a"
proof -
  obtain rows o64 where T: "lazy_tables s rows o64" and S: "table_shows (li_fanout s) rows o64 es" and sz: "li_hashSize s \<in> {20, 32}"
    using L by (auto simp: lazy_shows_def)
  have n: "li_count s = length es" using lazy_count [OF L] by (simp add: lazy_Count_def)
  show ?thesis
  proof (rule next_all_steps [of es _ "\<lambda>k. \<lparr>lz_open = True, lz_pos = k\<rparr>" good_copy])
    show "\<exists>e. scannerEntryIter_Next s \<lparr>lz_open = True, lz_pos = k\<rparr> = (Inr e, \<lparr>lz_open = True, lz_pos = k + 1\<rparr>) \<and> good_copy (es ! k) e"
      if "k < length es" for k
      using entryAt_shows [OF T S sz that] that n by (auto simp: scannerEntryIter_Next_def)
  qed (simp_all add: scannerEntryIter_Next_def n)
qed

lemma by_offset_delivers:
  assumes L: "lazy_shows s es"
  shows "\<exists>ps b. rev_positions es ps \<and> next_all (revEntryIter_Next s) (Suc (length es)) \<lparr>lz_open = True, lz_pos = 0\<rparr> = Some (Inr b) \<and>
    list_all2 good_copy (map (\<lambda>p. es ! unat p) ps) b"
proof -
  obtain rows o64 ps where T: "lazy_tables s rows o64" and S: "table_shows (li_fanout s) rows o64 es" and sz: "li_hashSize s \<in> {20, 32}"
    and P: "rev_positions es ps" and R: "section_at (li_rev s) 12 (concat (map WriteUint32 ps))"
    using L by (auto simp: lazy_shows_def)
  have n: "li_count s = length es" using lazy_count [OF L] by (simp add: lazy_Count_def)
  have len: "length ps = length es" by (rule rev_positions_length [OF P])
  have "\<exists>b. next_all (revEntryIter_Next s) (Suc (length es)) \<lparr>lz_open = True, lz_pos = 0\<rparr> = Some (Inr b) \<and>
      list_all2 good_copy (map (\<lambda>p. es ! unat p) ps) b"
  proof (rule next_all_steps [of _ _ "\<lambda>k. \<lparr>lz_open = True, lz_pos = k\<rparr>"])
    fix k assume "k < length (map (\<lambda>p. es ! unat p) ps)"
    then have k: "k < length ps" "unat (ps ! k) < length es" using P by (auto simp: rev_positions_def list_all_length)
    have "rev_position s k = Inr (unat (ps ! k))" by (rule rev_position_eval [OF R k(1)]) (simp add: n k(2))
    then show "\<exists>e. revEntryIter_Next s \<lparr>lz_open = True, lz_pos = k\<rparr> = (Inr e, \<lparr>lz_open = True, lz_pos = k + 1\<rparr>) \<and>
        good_copy (map (\<lambda>p. es ! unat p) ps ! k) e"
      using entryAt_shows [OF T S sz k(2)] k len n by (auto simp: revEntryIter_Next_def)
  qed (simp_all add: revEntryIter_Next_def n len)
  then show ?thesis using P by blast
qed

subsection \<open>Prefixes\<close>

lemma lazy_prefix_search_bucket:
  assumes T: "lazy_tables s rows o64" and B: "\<And>i. i < length B \<Longrightarrow> B ! i = rows ! (start + i) \<and> start + i < length rows"
    and names: "list_all (\<lambda>r. length (row_name r) = li_hashSize s) B"
  shows "hi \<le> length B \<Longrightarrow> prefix_search (li_hashSize s) (names_of B) t lo hi = Some r \<Longrightarrow>
    lazy_prefix_search s t (start + lo) (start + hi) = Inr (start + r)"
proof (induction "hi - lo" arbitrary: lo hi rule: less_induct)
  case less
  show ?case
  proof (cases "lo < hi")
    case False
    then show ?thesis using less.prems by (subst lazy_prefix_search.simps) (subst (asm) prefix_search.simps, simp)
  next
    case True
    define mid where "mid = (lo + hi) div 2"
    have mid: "lo \<le> mid" "mid < hi" "mid < length B" using True less.prems(1) by (auto simp: mid_def)
    let ?n = "row_name (B ! mid)"
    have m: "(start + lo + (start + hi)) div 2 = start + mid" by (simp add: mid_def)
    have rd: "readAt (li_idx s) (li_hashSize s) (li_namesStart s + (start + mid) * li_hashSize s) = Inr ?n"
      using lazy_reads(1) [OF T, of "start + mid"] B [OF mid(3)] by simp
    have step: "lazy_prefix_search s t (start + lo) (start + hi) =
        (if bytes_Compare ?n t < 0 then lazy_prefix_search s t (start + (mid + 1)) (start + hi) else lazy_prefix_search s t (start + lo) (start + mid))"
      using True rd by (subst lazy_prefix_search.simps) (simp add: Let_def m)
    have "slice (names_of B) (mid * li_hashSize s) ((mid + 1) * li_hashSize s) = Some ?n"
      using slice_names [OF names mid(3)] by (simp add: add.commute)
    then have ps: "(if bytes_Compare ?n t < 0 then prefix_search (li_hashSize s) (names_of B) t (mid + 1) hi
        else prefix_search (li_hashSize s) (names_of B) t lo mid) = Some r"
      using less.prems(2) True by (subst (asm) prefix_search.simps) (simp add: Let_def flip: mid_def)
    show ?thesis
    proof (cases "bytes_Compare ?n t < 0")
      case c: True
      have "hi - (mid + 1) < hi - lo" using mid by auto
      from less.hyps [OF this less.prems(1)] show ?thesis using ps c step by simp
    next
      case c: False
      have "mid - lo < hi - lo" "mid \<le> length B" using mid True by auto
      from less.hyps [OF this] show ?thesis using ps c step by simp
    qed
  qed
qed


lemma lazyPrefix_delivers:
  assumes T: "lazy_tables s rows o64" and S: "table_shows (li_fanout s) rows o64 es" and sz: "li_hashSize s \<in> {20, 32}"
    and B: "\<And>i. i < length B \<Longrightarrow> B ! i = rows ! (start + i) \<and> start + i < length rows" and r: "r \<le> length B" and n: "length B < n"
  shows "\<exists>es'. next_all (lazyPrefixIter_Next s) n \<lparr>lp_open = True, lp_prefix = pre, lp_pos = start + r, lp_end = start + length B\<rparr> = Some (Inr es') \<and>
    list_all2 (\<lambda>r e. row_entry o64 r e \<and> oid_ok (pe_Hash e)) (takeWhile (\<lambda>r. prefix pre (row_name r)) (drop r B)) es'"
proof -
  let ?P = "\<lambda>r. prefix pre (row_name r)" let ?xs = "takeWhile ?P (drop r B)"
  let ?it = "\<lambda>k. \<lparr>lp_open = True, lp_prefix = pre, lp_pos = start + r + k, lp_end = start + length B\<rparr>"
  have re: "list_all2 (row_entry o64) rows es" using S by (simp add: table_shows_def)
  have at: "\<exists>e. entryAt s (start + i) = Inr e \<and> row_entry o64 (B ! i) e \<and> oid_ok (pe_Hash e)" if "i < length B" for i
  proof -
    have "row_entry o64 (rows ! (start + i)) (es ! (start + i))" "start + i < length rows" using B [OF that] re by (simp_all add: list_all2_conv_all_nth)
    then show ?thesis using entryAt_row [OF T _ sz] B [OF that] by (fastforce simp: row_entry_def same_entry_def)
  qed
  have len: "length ?xs \<le> length (drop r B)" by (rule length_takeWhile_le)
  have "\<exists>es'. next_all (lazyPrefixIter_Next s) n (?it 0) = Some (Inr es') \<and>
      list_all2 (\<lambda>r e. row_entry o64 r e \<and> oid_ok (pe_Hash e)) ?xs es'"
  proof (rule next_all_steps [of ?xs _ ?it])
    fix k assume k: "k < length ?xs"
    then have i: "r + k < length B" "?xs ! k = B ! (r + k)" "?P (B ! (r + k))"
      using len r nth_mem [OF k] by (auto simp: takeWhile_nth dest: set_takeWhileD)
    obtain e where "entryAt s (start + (r + k)) = Inr e" "row_entry o64 (B ! (r + k)) e" "oid_ok (pe_Hash e)" using at [OF i(1)] by blast
    then show "\<exists>e. lazyPrefixIter_Next s (?it k) = (Inr e, ?it (k + 1)) \<and> row_entry o64 (?xs ! k) e \<and> oid_ok (pe_Hash e)"
      using i by (auto simp: lazyPrefixIter_Next_def row_entry_def add.assoc)
  next
    show "\<exists>i. lazyPrefixIter_Next s (?it (length ?xs)) = (Inl IdxEOF, i)"
    proof (cases "length ?xs < length (drop r B)")
      case True
      have no: "\<not> ?P (B ! (r + length ?xs))" using nth_length_takeWhile [OF True] r by simp
      have i: "r + length ?xs < length B" using True by simp
      obtain e where "entryAt s (start + (r + length ?xs)) = Inr e" "row_entry o64 (B ! (r + length ?xs)) e" using at [OF i] by blast
      then show ?thesis using no i by (auto simp: lazyPrefixIter_Next_def row_entry_def add.assoc)
    next
      case False
      then show ?thesis using len r by (simp add: lazyPrefixIter_Next_def)
    qed
  next
    show "length ?xs < n" using len n by simp
  qed
  then show ?thesis by simp
qed


lemma lazy_prefix_delivers:
  assumes L: "lazy_shows s es" and pre: "pre \<noteq> []"
  shows "\<exists>it es'. lazy_EntriesWithPrefix s pre = Inr (Inr it) \<and> next_all (lazyPrefixIter_Next s) (Suc (length es)) it = Some (Inr es') \<and>
    list_all2 same_entry (filter (\<lambda>e. prefix pre (entry_name e)) es) es' \<and> list_all (\<lambda>e. oid_ok (pe_Hash e)) es'"
proof -
  obtain rows o64 where T: "lazy_tables s rows o64" and S: "table_shows (li_fanout s) rows o64 es" and sz: "li_hashSize s \<in> {20, 32}"
    using L by (auto simp: lazy_shows_def)
  let ?F = "li_fanout s" and ?b = "unat (hd pre)" and ?P = "\<lambda>r. prefix pre (row_name r)" and ?t = "prefix_target (li_hashSize s) pre"
  let ?B = "bucket ?F rows ?b" and ?lo = "fan_lo ?F ?b"
  have fan: "fan_ok ?F (length rows)" and bo: "buckets_ok ?F rows" and re: "list_all2 (row_entry o64) rows es"
    using S by (auto simp: table_shows_def)
  have b: "?b < 256" by (rule unat_byte_less)
  note bd = fan_bounds [OF fan b] and lb = length_bucket [OF fan b]
  have B: "?B ! i = rows ! (?lo + i) \<and> ?lo + i < length rows" if "i < length ?B" for i using bucket_nth [OF fan b that] by simp
  have names: "list_all (\<lambda>r. length (row_name r) = li_hashSize s) ?B"
    using T set_bucket [of ?F rows ?b] by (auto simp: lazy_tables_def list_all_iff)
  note srt = sorted_wrt_bucket [OF table_rows_sorted [OF S], of ?F ?b]
  have "filter ?P rows = filter ?P ?B" by (rule filter_bucket [OF fan bo b]) (use pre in \<open>auto simp: prefix_def\<close>)
  moreover have "list_all2 (row_entry o64) (filter ?P rows) (filter (\<lambda>e. prefix pre (entry_name e)) es)"
    by (rule list_all2_filter [OF re]) (simp add: row_entry_def)
  ultimately have re': "list_all2 (row_entry o64) (filter ?P ?B) (filter (\<lambda>e. prefix pre (entry_name e)) es)" by simp
  obtain r where r: "r \<le> length ?B" "prefix_search (li_hashSize s) (names_of ?B) ?t 0 (length ?B) = Some r"
      "\<forall>i < r. row_name (?B ! i) < ?t" "\<forall>i. r \<le> i \<longrightarrow> i < length ?B \<longrightarrow> ?t \<le> row_name (?B ! i)"
    using prefix_search_spec [OF names srt, of 0 "length ?B" ?t] by auto
  note rows = prefix_rows [OF names srt r(1,3,4)]
  have hi: "unat (?F ! ?b) = ?lo + length ?B" using lb bd(1) by simp
  have find: "lazy_prefix_search s ?t ?lo (?lo + length ?B) = Inr (?lo + r)"
    using lazy_prefix_search_bucket [OF T B names _ r(2)] by simp
  have ewp: "lazy_EntriesWithPrefix s pre = Inr (Inr (if r = length ?B then no_entries
      else \<lparr>lp_open = True, lp_prefix = pre, lp_pos = ?lo + r, lp_end = ?lo + length ?B\<rparr>))"
    using pre find r(1) hi by (auto simp: lazy_EntriesWithPrefix_def Let_def fan_lo_def)
  have "length ?B < Suc (length es)" using lb bd list_all2_lengthD [OF re] by linarith
  from lazyPrefix_delivers [OF T S sz B r(1) this, of pre] rows
  obtain es' where es': "next_all (lazyPrefixIter_Next s) (Suc (length es)) \<lparr>lp_open = True, lp_prefix = pre, lp_pos = ?lo + r, lp_end = ?lo + length ?B\<rparr> = Some (Inr es')"
      "list_all2 (\<lambda>r e. row_entry o64 r e \<and> oid_ok (pe_Hash e)) (filter ?P ?B) es'" by auto
  have empty: "es' = []" if "r = length ?B" using es'(2) rows that by simp
  have "next_all (lazyPrefixIter_Next s) (Suc (length es)) no_entries = Some (Inr [])" by (simp add: lazyPrefixIter_Next_def no_entries_def)
  then show ?thesis using ewp es'(1) empty rows_entries_same [OF re' es'(2)] by (cases "r = length ?B") auto
qed

lemma positions_sorted:
  assumes P: "rev_positions es ps" and d: "distinct (map pe_Offset es)"
  shows "map (\<lambda>p. es ! unat p) ps = sort_key pe_Offset es"
proof (rule map_inj_on [of pe_Offset])
  show "map pe_Offset (map (\<lambda>p. es ! unat p) ps) = map pe_Offset (sort_key pe_Offset es)"
    using P sort_key_offsets [of es] by (simp add: rev_positions_def comp_def)
  have "set (map (\<lambda>p. es ! unat p) ps) \<subseteq> set es" using P by (auto simp: rev_positions_def list_all_iff)
  then have "set (map (\<lambda>p. es ! unat p) ps) \<union> set (sort_key pe_Offset es) = set es" by auto
  then show "inj_on pe_Offset (set (map (\<lambda>p. es ! unat p) ps) \<union> set (sort_key pe_Offset es))"
    using d by (simp only: distinct_map)
qed

text \<open>
  \<^bold>\<open>C9\<close>. The iterators of \<open>LazyIndex\<close> deliver what they promise and end: all entries in the order of the
  names; all entries in the order of the offsets; and for a prefix exactly the entries that have it, in
  order. A closed iterator over all entries reports that it is closed.
\<close>

theorem lazy_iteration:
  assumes "lazy_shows s es" and "distinct (map pe_Offset es)" and "pre \<noteq> []"
  shows "\<exists>as bs it cs. next_all (scannerEntryIter_Next s) (Suc (length es)) \<lparr>lz_open = True, lz_pos = 0\<rparr> = Some (Inr as) \<and>
    next_all (revEntryIter_Next s) (Suc (length es)) \<lparr>lz_open = True, lz_pos = 0\<rparr> = Some (Inr bs) \<and>
    lazy_EntriesWithPrefix s pre = Inr (Inr it) \<and> next_all (lazyPrefixIter_Next s) (Suc (length es)) it = Some (Inr cs) \<and>
    list_all2 same_entry es as \<and> list_all2 same_entry (sort_key pe_Offset es) bs \<and>
    list_all2 same_entry (filter (\<lambda>e. prefix pre (entry_name e)) es) cs \<and> list_all (\<lambda>e. oid_ok (pe_Hash e)) (as @ bs @ cs) \<and>
    scannerEntryIter_Next s (lazyIter_Close s i) = (Inl IdxClosed, lazyIter_Close s i)"
proof -
  have split: "list_all2 same_entry xs ys \<and> list_all (\<lambda>e. oid_ok (pe_Hash e)) ys" if "list_all2 good_copy xs ys" for xs ys
    using that by (induction rule: list_all2_induct) auto
  obtain as where a: "next_all (scannerEntryIter_Next s) (Suc (length es)) \<lparr>lz_open = True, lz_pos = 0\<rparr> = Some (Inr as)" "list_all2 good_copy es as"
    using scanner_delivers [OF assms(1)] by blast
  obtain ps bs where b: "rev_positions es ps" "next_all (revEntryIter_Next s) (Suc (length es)) \<lparr>lz_open = True, lz_pos = 0\<rparr> = Some (Inr bs)"
      "list_all2 good_copy (map (\<lambda>p. es ! unat p) ps) bs"
    using by_offset_delivers [OF assms(1)] by blast
  note b' = split [OF b(3), unfolded positions_sorted [OF b(1) assms(2)]]
  have "scannerEntryIter_Next s (lazyIter_Close s i) = (Inl IdxClosed, lazyIter_Close s i)" by (simp add: scannerEntryIter_Next_def lazyIter_Close_def)
  then show ?thesis using a(1) b(2) b' split [OF a(2)] lazy_prefix_delivers [OF assms(1,3)] by (metis list_all_append)
qed

theorem lazy_iteration_witness:
  "\<exists>s as. lazy_shows s [\<lparr>pe_Hash = one_hash, pe_CRC32 = 7, pe_Offset = 12\<rparr>] \<and>
    next_all (scannerEntryIter_Next s) 2 \<lparr>lz_open = True, lz_pos = 0\<rparr> = Some (Inr as) \<and> length as = 1"
proof -
  have z: "oid_Size ZeroHash = 20" "oid_format ZeroHash = UnsetObjectFormat" by (simp_all add: oid_Size_def ZeroHash_def)
  let ?es = "[\<lparr>pe_Hash = one_hash, pe_CRC32 = 7, pe_Offset = 12\<rparr>]"
  have o: "sorted_objects ((add_all [(one_hash, 12, 7)] (OnHeader 1 new_Writer))\<lparr>w_checksum := ZeroHash, w_finished := True\<rparr>) = ?es"
    using one_hash_facts(3)
    by (simp add: sorted_objects_def add_all_def OnInflatedObjectContent_def Writer_Add_def OnHeader_def new_Writer_def)
  obtain s where s: "lazy_shows s ?es"
    by (rule session_files [of "[(one_hash, 12, 7)]" ZeroHash "\<lambda>x. replicate 20 0" 1, unfolded o])
      (use one_hash_facts oid_ok_ZeroHash z in auto)
  obtain as where "next_all (scannerEntryIter_Next s) (Suc (length ?es)) \<lparr>lz_open = True, lz_pos = 0\<rparr> = Some (Inr as)" "list_all2 same_entry ?es as"
    using lazy_iteration [OF s, of "[1]"] by (auto simp del: next_all.simps)
  then show ?thesis using s list_all2_lengthD [of same_entry ?es as] by (auto simp del: next_all.simps simp: numeral_2_eq_2)
qed

end
