(* ===== verification/Spec2Isabelle.thy ===== *)
theory Spec2Isabelle
  imports Delta_Diff Pack_Entry Pktline Filemode Refspec Repo_Storage Merge_Base Cache_LRU Name_Gates Git_Noder
    Lazy_Iterators
begin

text \<open>
  A verification library for go-git, a Git implementation in Go.

  \<^bold>\<open>The program and its parts.\<close> A repository is a \<^emph>\<open>storage\<close> of objects, references, configuration,
  index, shallow commits and reflogs, with an in-memory and a file system implementation and a
  transactional overlay over any two of them. Objects travel and rest in \<^emph>\<open>packfiles\<close>, whose
  entries may be deltas against other objects, and \<^emph>\<open>pack indexes\<close> say where in them an object is. Peers speak a protocol framed in \<^emph>\<open>pkt-lines\<close>;
  what is fetched or pushed is described by \<^emph>\<open>refspecs\<close> over \<^emph>\<open>reference names\<close>. Algorithms on
  the \<^emph>\<open>commit graph\<close> (walks, merge bases) run over the object storage, and so do the walks and
  differences of \<^emph>\<open>trees\<close>; names from trees and references pass \<^emph>\<open>gates\<close> before they become paths.
  \<^emph>\<open>Caches\<close> keep decoded objects within a size.

  \<^bold>\<open>Theories and sources\<close> (paths under \<open>src/\<close>).

  \<^item> \<open>Go_Prelude\<close>, \<open>Codec\<close>, \<open>Go_Strings\<close>: the shared types, errors as sums, slices and indexing that
    may panic (\<open>None\<close>), the parts of \<open>strings\<close> and \<open>bytes\<close> that the code calls, and the interfaces
    \<open>stream_codec\<close> and \<open>strict_codec\<close> of encodings that can be read back from the front of a stream.
  \<^item> \<open>Varint\<close>: the variable-length integers of \<open>plumbing/format/packfile/util\<close> and \<open>utils/binary\<close>.
    Words keep their width; the encodings are instances of the codec interfaces.
  \<^item> \<open>Pack_Entry\<close>: object types (\<open>plumbing/object.go\<close>) and the headers of pack entries.
  \<^item> \<open>Delta_Patch\<close>, \<open>Delta_Index\<close>, \<open>Delta_Diff\<close>: applying deltas (\<open>packfile/patch_delta.go\<close>, all four
    appliers), indexing a source and computing a delta (\<open>delta_index.go\<close>, \<open>diff_delta.go\<close>). The main
    results: the appliers accept exactly the deltas that describe a target and agree with each
    other, and applying a computed delta restores the target.
  \<^item> \<open>Pktline\<close>: framing (\<open>plumbing/format/pktline\<close>): writing, reading, peeking and scanning; a scanner
    delivers the packets written, and a reader stays in step with the stream.
  \<^item> \<open>Filemode\<close>, \<open>Object_ID\<close>: file modes and object identifiers, their text and binary forms and the
    order of identifiers (\<open>plumbing/filemode\<close>, \<open>plumbing/objectid.go\<close>, \<open>plumbing/hash.go\<close>).
  \<^item> \<open>Reference_Name\<close>, \<open>Refspec\<close>, \<open>Config_Validate\<close>: names and references (\<open>plumbing/reference.go\<close>),
    refspecs (\<open>config/refspec.go\<close>) and the validation of a configuration (\<open>config/config.go\<close>,
    \<open>config/branch.go\<close>). Validation of names is the ten rules of git-check-ref-format; on valid
    refspecs the marks, the sides and matching are those of the pattern that was written, and \<open>Dst\<close> is right on
    names that match and panics exactly on names too short for the pattern.
  \<^item> \<open>Ref_Storage\<close>, \<open>Object_Storage\<close>, \<open>Repo_Storage\<close>: the storages of \<open>storage/memory/storage.go\<close> and the
    overlays of \<open>storage/transactional\<close>. Each interface (\<open>storer.ReferenceStorer\<close> and so on) is a
    record of operations; its contract is a locale (\<open>ref_store\<close>, \<open>obj_store\<close>, \<open>reflog_store\<close>,
    \<open>value_store\<close>) in terms of what a storer shows. The in-memory storers are instances, an
    overlay of two instances is one again by \<open>sublocale\<close>, and committing makes the base show what
    the overlay showed. \<open>Repo_Storage\<close> puts the six overlays together as the code does; \<open>mem_answers\<close> and
    \<open>tx_answers\<close> collect the results of the read operations, in which the atomicity of the whole is stated.
  \<^item> \<open>Commit_Walk\<close>, \<open>Merge_Base\<close>: the history iterators of \<open>plumbing/object/commit_walker*.go\<close> and
    \<open>plumbing/object/merge_base.go\<close>. The contract of an iterator is the locale \<open>commit_walker\<close>; the
    five iterators are instances, so each ends and delivers every reachable commit once. From
    that, \<open>MergeBase\<close> returns the best common ancestors and \<open>Independents\<close> the commits that no
    other reaches.
  \<^item> \<open>Cache_LRU\<close>: \<open>ObjectLRU\<close> and \<open>BufferLRU\<close> of \<open>plumbing/cache\<close>, with the linked list, the element
    store and the map; they refine a list in the order of last use cut to the size. Sizes are \<open>int64\<close> and
    wrap; the results are for objects whose sizes, added to what is held, fit one, and a lemma shows the
    maximum exceeded where they do not.
  \<^item> \<open>Path_Safety\<close>, \<open>Name_Gates\<close>: the names that a file system would take for \<open>.git\<close>, for dots or for
    a device (\<open>internal/pathutil\<close>), stated by what HFS+ and NTFS make of a name, and the gates that use
    them: of references in \<open>storage/filesystem/dotgit\<close> and \<open>plumbing/transport/receive_pack.go\<close>, of
    submodules in \<open>config/modules.go\<close>, and of the work tree in \<open>worktree_fs.go\<close>.
  \<^item> \<open>Git_Tree\<close>, \<open>Tree_Walk\<close>: tree objects (\<open>plumbing/object/tree.go\<close>): their encoding and validation, the
    lookup of entries and paths with the path cache as state, the walker and the iterator over the files
    of a tree (\<open>plumbing/object/file.go\<close>). The encoding reads back, the fast lookups agree with the plain
    one, and a walk ends and, where the trees can be read, is the pre-order listing.
  \<^item> \<open>Pack_Index\<close>, \<open>Index_Iterators\<close>, \<open>Index_Writer\<close>, \<open>Index_Codec\<close>: the indexes of packfiles
    (\<open>plumbing/format/idxfile\<close>): the tables in memory with the lookups and the iterators, the writer that
    builds them as the observer of a parser, the encoder as the state machine of the source and the
    decoder. \<open>layout\<close> says what the tables hold, \<open>mem_shows\<close> which entries an index shows; the contract of
    an index is the locale \<open>pack_index\<close>, of which \<open>MemoryIndex\<close> is an instance. What the decoder accepts
    has a layout, and on an index with a layout no lookup panics; what the writer builds shows what was
    added, also after a trip through a file.
  \<^item> \<open>Rev_Index\<close>, \<open>Lazy_Index\<close>, \<open>Lazy_Iterators\<close>: reverse indexes (\<open>plumbing/format/revfile\<close>), encoder and
    decoder as the state machines of the source, and the index that reads its files at each lookup
    (\<open>plumbing/format/idxfile/lazy_index.go\<close>). The positions read back in the order of the offsets.
    \<open>LazyIndex\<close> is a second instance of \<open>pack_index\<close>: on the files that the encoders write it gives the
    answers of the index that was written, and its iterators deliver the entries by name, by offset and
    by prefix. The file handles, which are shared and closed when idle, are taken as open.
  \<^item> \<open>Merkletrie\<close>, \<open>Tree_Diff\<close>, \<open>Tree_Diff_Spec\<close>, \<open>Git_Noder\<close>: merkle tries, their iterators and the
    difference of two of them (\<open>utils/merkletrie\<close>), and git trees as tries
    (\<open>plumbing/object/treenoder.go\<close>, \<open>difftree.go\<close>). The difference is exactly the files deleted,
    inserted and modified; for git trees of one store the condition on hashes that this needs is proved.

  \<^bold>\<open>How the code is rendered.\<close> A method on a pointer is a function from the old state to the result
  and the new state. An error is a value of a sum or an option; a panic is \<open>None\<close> where the code
  can panic. A Go map is an association list with distinct keys in the order in which it will be
  iterated, which Go leaves open: the statements are about every such list. Machine words keep
  their width where the code computes with them: unsigned ones are words, signed sums and products that
  may leave their range are integers cut by \<open>wrap64\<close>; lengths are natural numbers. Hash functions,
  the clock and the unstable sort are parameters, with what is used of them as hypotheses: no
  two stored objects share a hash, sorting rearranges its argument.

  \<^bold>\<open>Loops and bounds.\<close> Loops are structural or \<open>function\<close>s with a measure. The bound on symbolic
  references is the code's own, \<open>MaxResolveRecursion\<close>: 1024 as documented, of which the code follows one
  more, 1025 links. \<open>forEachCommit\<close>, \<open>Independents_loop\<close> and the limited walk
  may run forever on some iterators and are \<open>partial_function (option)\<close>; that they return is
  proved with the rank of the walk, the number of stored commits not seen. A walk over a tree ends by
  the code's own bound on the depth. Fuel bounds the depth to which the trie of a git tree is
  built; \<open>sound_tree\<close> states of a tree that the depth is enough, and then the trie exists. The states of
  the index encoder run with six steps, one for each state, and the iterator over a prefix is called as
  often as there are entries and once more; both are proved to be enough.

  \<^bold>\<open>What the development found.\<close> Where the code departs from its comments or from its own
  contract the statement says so: compare-and-set in a transaction ignores a removal, an empty
  shallow list is ignored in a transaction, a rejected object is stored all the same, \<open>MergeBase\<close>
  and the limited walk drop errors, a walk over a tree takes a missing subtree for its end, the counter of
  a cache wraps at large sizes, \<open>Dst\<close> of a refspec panics on short names, one symbolic link more than the
  documented maximum is followed, the path
  cache of a tree makes paths with an empty component findable, the identifiers from iterating over a
  pack index are not in normal form, and others listed with the project.

  \<^bold>\<open>Not modelled.\<close> Compression, hash functions and encryption; the file system storage (\<open>dotgit\<close>),
  worktree and repository commands, and the transports, which are I/O between the modelled parts;
  the text diff behind patches, blame and renames, which is a library outside the repository;
  concurrency, where a mutex makes an operation one step. Values are passed by value: a caller
  that changes an object, a config or an index after handing it over, or that was handed the
  storage's own, is outside the model. The file formats of the index and commits, ignore patterns and the protocol messages over pkt-lines are the next to add; the
  interfaces they need, the codecs, the strings and the storages, are here.
\<close>

end
